(* ===== verification/Ulsp_Prelude.thy ===== *)
theory Ulsp_Prelude
  imports Main "HOL-Library.Word" "HOL-Library.Char_ord"
begin

text \<open>
  What the component theories share: the result type of a program fragment (it returns, it
  ends the process with a status, or it runs into undefined behaviour of C), the conversions
  between C's integer types, the digits that \<open>printf\<close> prints, and lemmas on lists.
\<close>

named_theorems prog_simps \<open>unfolding rules of the program combinators\<close>
named_theorems io_simps \<open>what a system call does when it succeeds\<close>

section \<open>Program fragments\<close>

text \<open>
  A fragment maps the state of the process to \<open>Ret a s\<close> (it returns \<open>a\<close> in state \<open>s\<close>),
  \<open>Exit n s\<close> (the process calls \<open>exit(n)\<close> in state \<open>s\<close>) or \<open>Undef\<close> (undefined
  behaviour: a null dereference, an access outside an array, a read of indeterminate memory).
\<close>

datatype ('s, 'a) result = Ret 'a 's | Exit int 's | Undef

type_synonym ('s, 'a) prog = "'s \<Rightarrow> ('s, 'a) result"

definition retp :: "'a \<Rightarrow> ('s, 'a) prog" where
  "retp a = (\<lambda>s. Ret a s)"

definition exitp :: "int \<Rightarrow> ('s, 'a) prog" where
  "exitp n = (\<lambda>s. Exit n s)"

definition undefp :: "('s, 'a) prog" where
  "undefp = (\<lambda>s. Undef)"

definition modifyp :: "('s \<Rightarrow> 's) \<Rightarrow> ('s, unit) prog" where
  "modifyp f = (\<lambda>s. Ret () (f s))"

definition getsp :: "('s \<Rightarrow> 'a) \<Rightarrow> ('s, 'a) prog" where
  "getsp f = (\<lambda>s. Ret (f s) s)"

definition bindp :: "('s, 'a) prog \<Rightarrow> ('a \<Rightarrow> ('s, 'b) prog) \<Rightarrow> ('s, 'b) prog" where
  "bindp m f = (\<lambda>s. case m s of Ret a s' \<Rightarrow> f a s' | Exit n s' \<Rightarrow> Exit n s' | Undef \<Rightarrow> Undef)"

definition thenp :: "('s, 'a) prog \<Rightarrow> ('s, 'b) prog \<Rightarrow> ('s, 'b) prog" where
  "thenp m n = bindp m (\<lambda>_. n)"

lemma retp_apply [prog_simps, simp]: "retp a s = Ret a s"
  by (simp add: retp_def)

lemma exitp_apply [prog_simps, simp]: "exitp n s = Exit n s"
  by (simp add: exitp_def)

lemma undefp_apply [prog_simps, simp]: "undefp s = Undef"
  by (simp add: undefp_def)

lemma modifyp_apply [prog_simps, simp]: "modifyp f s = Ret () (f s)"
  by (simp add: modifyp_def)

lemma getsp_apply [prog_simps, simp]: "getsp f s = Ret (f s) s"
  by (simp add: getsp_def)

lemma bindp_Ret [simp]: "m s = Ret a s' \<Longrightarrow> bindp m f s = f a s'"
  by (simp add: bindp_def)

lemma bindp_Exit [simp]: "m s = Exit n s' \<Longrightarrow> bindp m f s = Exit n s'"
  by (simp add: bindp_def)

lemma bindp_Undef [simp]: "m s = Undef \<Longrightarrow> bindp m f s = Undef"
  by (simp add: bindp_def)

lemma bindp_unfold [prog_simps]:
  "bindp m f s = (case m s of Ret a s' \<Rightarrow> f a s' | Exit n s' \<Rightarrow> Exit n s' | Undef \<Rightarrow> Undef)"
  by (simp add: bindp_def)

lemma thenp_unfold [prog_simps]:
  "thenp m n s = (case m s of Ret a s' \<Rightarrow> n s' | Exit k s' \<Rightarrow> Exit k s' | Undef \<Rightarrow> Undef)"
  by (simp add: thenp_def bindp_def)

lemma thenp_Ret [simp]: "m s = Ret a s' \<Longrightarrow> thenp m n s = n s'"
  by (simp add: thenp_def)

lemma bindp_assoc: "bindp (bindp m f) g = bindp m (\<lambda>a. bindp (f a) g)"
  by (rule ext) (simp add: bindp_def split: result.split)

text \<open>\<open>ok &= f(x)\<close> over a list of arguments, left to right: every call is made.\<close>

fun all_ok :: "('x \<Rightarrow> ('s, bool) prog) \<Rightarrow> bool \<Rightarrow> 'x list \<Rightarrow> ('s, bool) prog" where
  "all_ok f ok [] = retp ok"
| "all_ok f ok (x # xs) = bindp (f x) (\<lambda>r. all_ok f (ok \<and> r) xs)"

text \<open>The fragment does not run into undefined behaviour, and keeps \<open>J\<close> when it returns.\<close>

definition safe_result :: "('s \<Rightarrow> bool) \<Rightarrow> ('s, 'a) result \<Rightarrow> bool" where
  "safe_result J r = (case r of Ret _ w \<Rightarrow> J w | Exit _ _ \<Rightarrow> True | Undef \<Rightarrow> False)"

lemma safe_result_simps [simp]:
  "safe_result J (Ret a w) = J w" "safe_result J (Exit k w)" "\<not> safe_result J Undef"
  by (simp_all add: safe_result_def)

lemma safe_result_bind:
  "safe_result J (m w) \<Longrightarrow> (\<And>a w'. m w = Ret a w' \<Longrightarrow> J w' \<Longrightarrow> safe_result J (f a w')) \<Longrightarrow>
     safe_result J (bindp m f w)"
  by (cases "m w") (auto simp: bindp_unfold)

lemma all_ok_safe:
  assumes "\<And>x w. x \<in> set xs \<Longrightarrow> J w \<Longrightarrow> safe_result J (f x w)" "J w"
  shows "safe_result J (all_ok f ok xs w)"
  using assms
proof (induction xs arbitrary: ok w)
  case Nil
  then show ?case by simp
next
  case (Cons x xs)
  then show ?case
    by (auto intro!: safe_result_bind)
qed

section \<open>Integer conversions of C\<close>

text \<open>
  \<open>size_t\<close> is 64 bits wide and unsigned, \<open>int\<close> 32 bits and two's complement (x86-64
  Linux, which the sources are written for); \<open>char\<close> is signed.
\<close>

definition size_t :: "int \<Rightarrow> nat" where
  "size_t i = nat (i mod 2 ^ 64)"

definition int32 :: "int \<Rightarrow> int" where
  "int32 i = (i + 2 ^ 31) mod 2 ^ 32 - 2 ^ 31"

definition schar :: "char \<Rightarrow> int" where
  "schar c = (let n = of_char c :: nat in if n < 128 then int n else int n - 256)"

lemma size_t_id: "0 \<le> i \<Longrightarrow> i < 2 ^ 64 \<Longrightarrow> size_t i = nat i"
  by (simp add: size_t_def)

lemma size_t_of_nat: "n < 2 ^ 64 \<Longrightarrow> size_t (int n) = n"
  by (simp add: size_t_def nat_mod_distrib)

lemma int32_id: "- (2 ^ 31) \<le> i \<Longrightarrow> i < 2 ^ 31 \<Longrightarrow> int32 i = i"
  by (simp add: int32_def)

lemma int32_of_nat: "n < 2 ^ 31 \<Longrightarrow> int32 (int n) = int n"
  by (rule int32_id) simp_all

lemma int32_range: "- (2 ^ 31) \<le> int32 i \<and> int32 i < 2 ^ 31"
  by (simp add: int32_def)

lemma int32_mod: "int32 (i mod 2 ^ 64) = int32 i"
proof -
  have d: "(2::int) ^ 32 dvd 2 ^ 64"
    by (rule le_imp_power_dvd) simp
  have "(i mod 2 ^ 64 + 2 ^ 31) mod 2 ^ 32 = ((i mod 2 ^ 64) mod 2 ^ 32 + 2 ^ 31) mod 2 ^ 32"
    by (simp only: mod_add_left_eq)
  also have "(i mod 2 ^ 64) mod 2 ^ 32 = i mod (2::int) ^ 32"
    using d by (rule mod_mod_cancel)
  also have "(i mod 2 ^ 32 + 2 ^ 31) mod 2 ^ 32 = (i + 2 ^ 31) mod (2::int) ^ 32"
    by (simp only: mod_add_left_eq)
  finally show ?thesis
    by (simp only: int32_def)
qed

section \<open>Characters and the digits printf prints\<close>

definition NL :: char where
  "NL = CHR 0x0A"

definition TAB :: char where
  "TAB = CHR 0x09"

definition NUL :: char where
  "NUL = CHR 0x00"

definition quoted :: "string \<Rightarrow> string" where
  "quoted s = CHR 0x27 # s @ [CHR 0x27]"

fun dec :: "nat \<Rightarrow> string" where
  "dec n = (if n < 10 then [char_of (48 + n)] else dec (n div 10) @ [char_of (48 + n mod 10)])"

fun octs :: "nat \<Rightarrow> string" where
  "octs n = (if n < 8 then [char_of (48 + n)] else octs (n div 8) @ [char_of (48 + n mod 8)])"

declare dec.simps [simp del] octs.simps [simp del]

definition dec_int :: "int \<Rightarrow> string" where
  "dec_int i = (if i < 0 then CHR ''-'' # dec (nat (- i)) else dec (nat i))"

text \<open>The conversion \<open>%0no\<close>: padded with zeros on the left to width \<open>n\<close>.\<close>

definition pad0 :: "nat \<Rightarrow> string \<Rightarrow> string" where
  "pad0 n s = replicate (n - length s) (CHR ''0'') @ s"

lemma dec_nonempty [simp]: "dec n \<noteq> []"
  by (subst dec.simps) simp

lemma octs_nonempty [simp]: "octs n \<noteq> []"
  by (subst octs.simps) simp

lemma length_pad0: "length (pad0 n s) = max n (length s)"
  by (simp add: pad0_def)

text \<open>The value a string of octal digits denotes, most significant digit first.\<close>

definition oct_value :: "string \<Rightarrow> nat" where
  "oct_value s = foldl (\<lambda>v c. v * 8 + (of_char c - 48)) 0 s"

definition dec_value :: "string \<Rightarrow> nat" where
  "dec_value s = foldl (\<lambda>v c. v * 10 + (of_char c - 48)) 0 s"

lemma of_char_digit: "d < 10 \<Longrightarrow> of_char (char_of (48 + d) :: char) = 48 + (d :: nat)"
  by (simp add: of_char_of)

lemma oct_value_octs: "oct_value (octs n) = n"
proof (induction n rule: octs.induct)
  case (1 n)
  show ?case
  proof (cases "n < 8")
    case True
    then show ?thesis
      by (subst octs.simps) (simp add: oct_value_def of_char_digit)
  next
    case False
    have "n mod 8 < 10" by (rule less_le_trans [of _ 8]) simp_all
    with False "1.IH" show ?thesis
      by (subst octs.simps) (simp add: oct_value_def of_char_digit)
  qed
qed

lemma dec_value_dec: "dec_value (dec n) = n"
proof (induction n rule: dec.induct)
  case (1 n)
  show ?case
  proof (cases "n < 10")
    case True
    then show ?thesis
      by (subst dec.simps) (simp add: dec_value_def of_char_digit)
  next
    case False
    with "1.IH" show ?thesis
      by (subst dec.simps) (simp add: dec_value_def of_char_digit)
  qed
qed

definition is_digit :: "char \<Rightarrow> bool" where
  "is_digit c = (48 \<le> (of_char c :: nat) \<and> (of_char c :: nat) < 58)"

lemma is_digit_char_of: "d < 10 \<Longrightarrow> is_digit (char_of (48 + d :: nat))"
  by (simp add: is_digit_def of_char_digit)

lemma dec_digits: "list_all is_digit (dec n)"
proof (induction n rule: dec.induct)
  case (1 n)
  then show ?case
    by (subst dec.simps) (simp add: is_digit_char_of)
qed

lemma schar_digit: "is_digit c \<Longrightarrow> schar c - 48 = int (of_char c - 48)"
  by (simp add: is_digit_def schar_def Let_def of_nat_diff)

text \<open>Reading digits in \<open>size_t\<close>: the value of the string modulo its width.\<close>

lemma size_t_nat: "size_t (int n) = n mod 2 ^ 64"
  unfolding size_t_def by (metis nat_int of_nat_numeral of_nat_power zmod_int)

lemma size_t_step:
  assumes "is_digit c"
  shows "size_t (int (r mod 2 ^ 64) * 10 + (schar c - 48)) = (r * 10 + (of_char c - 48)) mod 2 ^ 64"
proof -
  have "int (r mod 2 ^ 64) * 10 + (schar c - 48) = int (r mod 2 ^ 64 * 10 + (of_char c - 48))"
    using schar_digit [OF assms] by simp
  then have "size_t (int (r mod 2 ^ 64) * 10 + (schar c - 48)) =
      (r mod 2 ^ 64 * 10 + (of_char c - 48)) mod 2 ^ 64"
    by (simp only: size_t_nat)
  also have "\<dots> = (r * 10 + (of_char c - 48)) mod 2 ^ 64"
    by (metis mod_add_left_eq mod_mult_left_eq)
  finally show ?thesis .
qed

text \<open>
  The interface of the private \<open>string_to_integer\<close> of head and of tail: what both promise
  of a string of digits.
\<close>

locale digit_reader =
  fixes rd :: "nat \<Rightarrow> string \<Rightarrow> nat"
  assumes rd_Nil: "rd r [] = r"
    and rd_Cons: "rd r (c # p) = rd (size_t (int r * 10 + (schar c - 48))) p"
begin

lemma rd_digits:
  "list_all is_digit s \<Longrightarrow>
     rd (r mod 2 ^ 64) s = foldl (\<lambda>v c. v * 10 + (of_char c - 48)) r s mod 2 ^ 64"
proof (induction s arbitrary: r)
  case Nil
  then show ?case by (simp add: rd_Nil)
next
  case (Cons c s)
  then have "rd (r mod 2 ^ 64) (c # s) = rd ((r * 10 + (of_char c - 48)) mod 2 ^ 64) s"
    by (simp only: rd_Cons size_t_step list.pred_inject)
  with Cons show ?case by simp
qed

lemma rd_dec: "n < 2 ^ 64 \<Longrightarrow> rd 0 (dec n) = n"
  using rd_digits [OF dec_digits, of 0 n] dec_value_dec [of n] by (simp add: dec_value_def)

end

lemma oct_value_pad0: "oct_value (pad0 n s) = oct_value s"
proof -
  have "foldl (\<lambda>v c. v * 8 + (of_char c - 48)) 0 (replicate k (CHR ''0'')) = (0::nat)" for k
    by (induction k) simp_all
  then show ?thesis
    by (simp add: oct_value_def pad0_def)
qed

section \<open>Command lines\<close>

text \<open>
  \<open>getopt_long\<close> is code of the C library: the programs receive what it returns, one event
  per option in order (a short option or its long synonym is the character the table of the
  source gives it, an option with a long name only keeps the name), and the operands that
  are left behind.
\<close>

datatype optev =
    Opt char "string option"
  | OptLong string "string option"
  | OptHelp
  | OptVersion
  | OptUnknown

section \<open>Lists\<close>

lemma take_take_drop: "take m (drop k xs) @ take n (drop (k + m) xs) = take (m + n) (drop k xs)"
  by (simp add: take_add add.commute)

lemma nth_take_drop: "i < n \<Longrightarrow> k + i < length xs \<Longrightarrow> take n (drop k xs) ! i = xs ! (k + i)"
  by simp

end
