(* ===== verification/Posix_Io.thy ===== *)
theory Posix_Io
  imports Ulsp_Prelude
begin

text \<open>
  The part of the POSIX interface that the file utilities of cmd/ use: one input descriptor
  at a time (a regular file or standard input) and the two output streams. A system call
  that the environment may let fail takes its outcome from a schedule, so that every error
  branch and every short read of the sources is reachable; an exhausted schedule means that
  the calls succeed in full.
\<close>

section \<open>The state of the process\<close>

datatype outcome =
    Full         \<comment> \<open>the call succeeds and transfers all it can\<close>
  | Short nat    \<comment> \<open>it transfers at most \<open>Suc n\<close> bytes\<close>
  | Fail int     \<comment> \<open>it fails and sets \<open>errno\<close>\<close>

text \<open>
  A diagnostic on standard error: the format string of the source (without the newline), its
  string arguments, and \<open>errno\<close> at the time of the call (the argument of \<open>strerror\<close>).
\<close>

datatype diag = Diag string "string list" int

record io =
  io_files :: "string \<Rightarrow> string option"  \<comment> \<open>the regular files that can be opened\<close>
  io_stdin :: "string option"            \<comment> \<open>what standard input holds; None once closed\<close>
  io_stdin_pos :: nat                    \<comment> \<open>its offset while another file is current\<close>
  io_stdin_seek :: bool                  \<comment> \<open>standard input is a file, not a pipe\<close>
  io_data :: string                      \<comment> \<open>contents behind the current descriptor\<close>
  io_pos :: nat                          \<comment> \<open>its file offset\<close>
  io_open :: bool                        \<comment> \<open>the descriptor is valid\<close>
  io_seek :: bool                        \<comment> \<open>it can be positioned\<close>
  io_tty :: bool                         \<comment> \<open>it is descriptor 0\<close>
  io_out :: string                       \<comment> \<open>bytes written to standard output\<close>
  io_err :: "diag list"                  \<comment> \<open>diagnostics on standard error\<close>
  io_errno :: int
  io_plan :: "outcome list"              \<comment> \<open>outcomes of the calls to come\<close>

definition EBADF :: int where "EBADF = 9"
definition ENOENT :: int where "ENOENT = 2"
definition ESPIPE :: int where "ESPIPE = 29"
definition EINVAL :: int where "EINVAL = 22"
definition EINTR :: int where "EINTR = 4"

definition EXIT_SUCCESS :: int where "EXIT_SUCCESS = 0"
definition EXIT_FAILURE :: int where "EXIT_FAILURE = 1"

text \<open>The status of a process that \<open>abort\<close> (a failed \<open>assert\<close>) ends, as the shell shows it.\<close>

definition ABORT_STATUS :: int where "ABORT_STATUS = 134"

text \<open>One more than the highest number of a signal, of glibc's signal.h.\<close>

definition NSIG :: nat where "NSIG = 65"

text \<open>\<open>BUFSIZ\<close> of glibc's stdio.h.\<close>

definition BUFSIZ :: nat where "BUFSIZ = 8192"

lemma BUFSIZ_pos [simp]: "0 < BUFSIZ" "BUFSIZ \<noteq> 0"
  by (simp_all add: BUFSIZ_def)

section \<open>System calls\<close>

definition outcome_of :: "'z io_scheme \<Rightarrow> outcome" where
  "outcome_of w = (case io_plan w of [] \<Rightarrow> Full | p # _ \<Rightarrow> p)"

definition tick :: "'z io_scheme \<Rightarrow> 'z io_scheme" where
  "tick w = w\<lparr>io_plan := tl (io_plan w)\<rparr>"

definition set_errno :: "int \<Rightarrow> 'z io_scheme \<Rightarrow> 'z io_scheme" where
  "set_errno e w = w\<lparr>io_errno := e\<rparr>"

text \<open>The bytes that a read of \<open>n\<close> bytes returns when it is not cut short.\<close>

definition avail :: "nat \<Rightarrow> 'z io_scheme \<Rightarrow> string" where
  "avail n w = take n (drop (io_pos w) (io_data w))"

definition advance :: "string \<Rightarrow> 'z io_scheme \<Rightarrow> 'z io_scheme" where
  "advance bs w = w\<lparr>io_pos := io_pos w + length bs\<rparr>"

text \<open>\<open>read\<close>: None stands for the result -1.\<close>

definition sys_read :: "nat \<Rightarrow> ('z io_scheme, string option) prog" where
  "sys_read n w =
     (if \<not> io_open w then Ret None (set_errno EBADF (tick w))
      else (case outcome_of w of
          Full \<Rightarrow> Ret (Some (avail n w)) (advance (avail n w) (tick w))
        | Short k \<Rightarrow> Ret (Some (avail (min n (Suc k)) w)) (advance (avail (min n (Suc k)) w) (tick w))
        | Fail e \<Rightarrow> Ret None (set_errno e (tick w))))"

text \<open>\<open>lseek(fd, off, SEEK_SET)\<close>: the new offset, None for -1.\<close>

definition sys_lseek :: "int \<Rightarrow> ('z io_scheme, nat option) prog" where
  "sys_lseek off w =
     (if \<not> io_open w then Ret None (set_errno EBADF (tick w))
      else if \<not> io_seek w then Ret None (set_errno ESPIPE (tick w))
      else (case outcome_of w of
          Fail e \<Rightarrow> Ret None (set_errno e (tick w))
        | _ \<Rightarrow> if off < 0 then Ret None (set_errno EINVAL (tick w))
               else Ret (Some (nat off)) ((tick w)\<lparr>io_pos := nat off\<rparr>)))"

text \<open>\<open>lseek(fd, off, SEEK_CUR)\<close> and \<open>lseek(fd, off, SEEK_END)\<close>.\<close>

definition sys_lseek_cur :: "int \<Rightarrow> ('z io_scheme, nat option) prog" where
  "sys_lseek_cur off w = sys_lseek (int (io_pos w) + off) w"

definition sys_lseek_end :: "int \<Rightarrow> ('z io_scheme, nat option) prog" where
  "sys_lseek_end off w = sys_lseek (int (length (io_data w)) + off) w"

text \<open>\<open>fstat(fd, &st)\<close>: the size of a file; a pipe reports 0.\<close>

definition sys_fstat_size :: "('z io_scheme, nat option) prog" where
  "sys_fstat_size w =
     (if \<not> io_open w then Ret None (set_errno EBADF (tick w))
      else (case outcome_of w of
          Fail e \<Rightarrow> Ret None (set_errno e (tick w))
        | _ \<Rightarrow> Ret (Some (if io_seek w then length (io_data w) else 0)) (tick w)))"

text \<open>Descriptor 0 keeps its offset while another file is the current one.\<close>

definition park :: "'z io_scheme \<Rightarrow> 'z io_scheme" where
  "park w = (if io_tty w \<and> io_open w then w\<lparr>io_stdin_pos := io_pos w\<rparr> else w)"

definition sys_open :: "string \<Rightarrow> ('z io_scheme, bool) prog" where
  "sys_open name w =
     (case outcome_of w of
        Fail e \<Rightarrow> Ret False (set_errno e (tick w))
      | _ \<Rightarrow> (case io_files w name of
           None \<Rightarrow> Ret False (set_errno ENOENT (tick w))
         | Some d \<Rightarrow> Ret True ((park (tick w))\<lparr>io_data := d, io_pos := 0, io_open := True,
                                           io_seek := True, io_tty := False\<rparr>)))"

text \<open>Reading descriptor 0: no system call, the descriptor may be closed already.\<close>

definition use_stdin :: "('z io_scheme, unit) prog" where
  "use_stdin = modifyp (\<lambda>w. (park w)\<lparr>
     io_data := (case io_stdin w of Some d \<Rightarrow> d | None \<Rightarrow> []),
     io_pos := io_stdin_pos (park w),
     io_open := (io_stdin w \<noteq> None), io_seek := io_stdin_seek w, io_tty := True\<rparr>)"

definition sys_close :: "('z io_scheme, bool) prog" where
  "sys_close w =
     (if \<not> io_open w then Ret False (set_errno EBADF (tick w))
      else let w' = (if io_tty w then (tick w)\<lparr>io_open := False, io_stdin := None\<rparr>
                     else (tick w)\<lparr>io_open := False\<rparr>)
           in (case outcome_of w of Fail e \<Rightarrow> Ret False (set_errno e w') | _ \<Rightarrow> Ret True w'))"

text \<open>\<open>printf\<close> of a formatted string (its failure is not observed by the sources).\<close>

definition put :: "string \<Rightarrow> ('z io_scheme, unit) prog" where
  "put s = modifyp (\<lambda>w. w\<lparr>io_out := io_out w @ s\<rparr>)"

text \<open>
  \<open>fwrite\<close> to standard output: the number of bytes written, fewer than asked for only
  when the stream has an error (the stream layer repeats short writes).
\<close>

definition sys_fwrite :: "string \<Rightarrow> ('z io_scheme, nat) prog" where
  "sys_fwrite s w =
     (case outcome_of w of
        Fail e \<Rightarrow> Ret 0 (set_errno e (tick w))
      | _ \<Rightarrow> Ret (length s) ((tick w)\<lparr>io_out := io_out w @ s\<rparr>))"

text \<open>\<open>write\<close> to standard output, which may be short: None stands for -1.\<close>

definition sys_write :: "string \<Rightarrow> ('z io_scheme, nat option) prog" where
  "sys_write s w =
     (case outcome_of w of
        Full \<Rightarrow> Ret (Some (length s)) ((tick w)\<lparr>io_out := io_out w @ s\<rparr>)
      | Short k \<Rightarrow> Ret (Some (min (length s) (Suc k)))
                      ((tick w)\<lparr>io_out := io_out w @ take (Suc k) s\<rparr>)
      | Fail e \<Rightarrow> Ret None (set_errno e (tick w)))"

definition eputs :: "string \<Rightarrow> string list \<Rightarrow> ('z io_scheme, unit) prog" where
  "eputs fmt args = modifyp (\<lambda>w. w\<lparr>io_err := io_err w @ [Diag fmt args (io_errno w)]\<rparr>)"

section \<open>Schedules without failures\<close>

definition is_fail :: "outcome \<Rightarrow> bool" where
  "is_fail p = (case p of Fail _ \<Rightarrow> True | _ \<Rightarrow> False)"

definition no_fail :: "'z io_scheme \<Rightarrow> bool" where
  "no_fail w = list_all (\<lambda>p. \<not> is_fail p) (io_plan w)"

definition all_full :: "'z io_scheme \<Rightarrow> bool" where
  "all_full w = list_all (\<lambda>p. p = Full) (io_plan w)"

text \<open>What reading leaves alone.\<close>

definition same_file :: "'z io_scheme \<Rightarrow> 'z io_scheme \<Rightarrow> bool" where
  "same_file w w' \<longleftrightarrow> io_data w' = io_data w \<and> io_open w' = io_open w \<and> io_seek w' = io_seek w
     \<and> io_tty w' = io_tty w \<and> io_files w' = io_files w \<and> io_stdin w' = io_stdin w
     \<and> io_stdin_seek w' = io_stdin_seek w \<and> io_err w' = io_err w \<and> io.more w' = io.more w"

lemma same_file_refl [simp]: "same_file w w"
  by (simp add: same_file_def)

lemma same_file_trans: "same_file u v \<Longrightarrow> same_file v w \<Longrightarrow> same_file u w"
  by (simp add: same_file_def)

lemma all_full_no_fail: "all_full w \<Longrightarrow> no_fail w"
  by (auto simp: all_full_def no_fail_def is_fail_def list_all_iff)

lemma no_fail_Fail: "no_fail w \<Longrightarrow> outcome_of w \<noteq> Fail e"
  by (auto simp: no_fail_def outcome_of_def is_fail_def split: list.splits outcome.splits)

lemma all_full_Full: "all_full w \<Longrightarrow> outcome_of w = Full"
  by (auto simp: all_full_def outcome_of_def split: list.splits)

lemma tick_fields [simp]:
  "io_data (tick w) = io_data w" "io_pos (tick w) = io_pos w" "io_open (tick w) = io_open w"
  "io_seek (tick w) = io_seek w" "io_tty (tick w) = io_tty w" "io_out (tick w) = io_out w"
  "io_err (tick w) = io_err w" "io_files (tick w) = io_files w" "io_stdin (tick w) = io_stdin w"
  "io_stdin_seek (tick w) = io_stdin_seek w" "io_stdin_pos (tick w) = io_stdin_pos w"
  "io_errno (tick w) = io_errno w" "io.more (tick w) = io.more w"
  by (simp_all add: tick_def)

lemma tick_upd [simp]:
  "tick (w\<lparr>io_pos := n\<rparr>) = (tick w)\<lparr>io_pos := n\<rparr>"
  "tick (w\<lparr>io_out := s\<rparr>) = (tick w)\<lparr>io_out := s\<rparr>"
  by (simp_all add: tick_def)

lemma advance_fields [simp]:
  "io_data (advance bs w) = io_data w" "io_pos (advance bs w) = io_pos w + length bs"
  "io_open (advance bs w) = io_open w" "io_seek (advance bs w) = io_seek w"
  "io_tty (advance bs w) = io_tty w" "io_out (advance bs w) = io_out w"
  "io_err (advance bs w) = io_err w" "io_files (advance bs w) = io_files w"
  "io_stdin (advance bs w) = io_stdin w" "io_plan (advance bs w) = io_plan w"
  "io_stdin_seek (advance bs w) = io_stdin_seek w" "io_stdin_pos (advance bs w) = io_stdin_pos w"
  "io_errno (advance bs w) = io_errno w" "io.more (advance bs w) = io.more w"
  by (simp_all add: advance_def)

lemma no_fail_tick [simp]: "no_fail w \<Longrightarrow> no_fail (tick w)"
  by (cases "io_plan w") (simp_all add: no_fail_def tick_def)

lemma all_full_tick [simp]: "all_full w \<Longrightarrow> all_full (tick w)"
  by (cases "io_plan w") (simp_all add: all_full_def tick_def)

lemma no_fail_cong: "io_plan w' = io_plan w \<Longrightarrow> no_fail w' = no_fail w"
  by (simp add: no_fail_def)

lemma all_full_cong: "io_plan w' = io_plan w \<Longrightarrow> all_full w' = all_full w"
  by (simp add: all_full_def)

lemma no_fail_upd [simp]:
  "no_fail (advance bs w) = no_fail w" "no_fail (w\<lparr>io_out := x\<rparr>) = no_fail w"
  "no_fail (w\<lparr>io_pos := n\<rparr>) = no_fail w"
  by (simp_all add: no_fail_def)

lemma all_full_upd [simp]:
  "all_full (advance bs w) = all_full w" "all_full (w\<lparr>io_out := x\<rparr>) = all_full w"
  "all_full (w\<lparr>io_pos := n\<rparr>) = all_full w"
  by (simp_all add: all_full_def)

section \<open>What the calls do\<close>

lemma length_avail: "length (avail n w) = min n (length (io_data w) - io_pos w)"
  by (simp add: avail_def min.commute)

lemma avail_Nil: "avail n w = [] \<longleftrightarrow> n = 0 \<or> length (io_data w) \<le> io_pos w"
  by (auto simp: avail_def)

lemma avail_0 [simp]: "avail 0 w = []"
  by (simp add: avail_def)

text \<open>A read never goes past the end, and leaves the rest of the state alone.\<close>

lemma sys_read_Some:
  assumes "sys_read n w = Ret (Some bs) w'"
  shows "\<exists>m \<le> n. bs = avail m w \<and> w' = advance bs (tick w) \<and> (0 < n \<longrightarrow> 0 < m)"
  using assms
  by (cases "outcome_of w")
    (auto simp: sys_read_def split: if_splits
      intro: exI [of _ n] exI [of _ "min n (Suc k)" for k])

lemma sys_read_progress:
  assumes "sys_read n w = Ret (Some bs) w'" and "bs \<noteq> []"
  shows "io_data w' = io_data w \<and> io_pos w' = io_pos w + length bs
    \<and> io_pos w' \<le> length (io_data w) \<and> 0 < length bs"
proof -
  obtain m where bs: "bs = avail m w" and w': "w' = advance bs (tick w)"
    using sys_read_Some [OF assms(1)] by blast
  have "length bs \<le> length (io_data w) - io_pos w"
    by (simp add: bs length_avail)
  moreover have "io_pos w < length (io_data w)"
    using assms(2) by (simp add: bs avail_Nil)
  ultimately show ?thesis
    using assms(2) by (simp add: w')
qed

lemma sys_read_measure:
  assumes "sys_read n w = Ret (Some bs) w'" and "bs \<noteq> []"
  shows "length (io_data w') - io_pos w' < length (io_data w) - io_pos w"
proof -
  have "io_data w' = io_data w" "io_pos w' = io_pos w + length bs"
    "io_pos w' \<le> length (io_data w)" "0 < length bs"
    using sys_read_progress [OF assms] by blast+
  then show ?thesis
    by (simp only:)
qed

lemma sys_read_length: "sys_read n w = Ret (Some bs) w' \<Longrightarrow> length bs \<le> n"
  using sys_read_Some [of n w bs w'] by (auto simp: length_avail)

lemma sys_read_ok:
  assumes "no_fail w" and "io_open w"
  obtains m where "m \<le> n" and "0 < n \<longrightarrow> 0 < m"
    and "sys_read n w = Ret (Some (avail m w)) (advance (avail m w) (tick w))"
  using assms no_fail_Fail [OF assms(1)]
  by (cases "outcome_of w") (auto simp: sys_read_def intro: that [of n] that [of "min n (Suc _)"])

lemma sys_read_full [io_simps]:
  "all_full w \<Longrightarrow> io_open w \<Longrightarrow> sys_read n w = Ret (Some (avail n w)) (advance (avail n w) (tick w))"
  by (simp add: sys_read_def all_full_Full)

lemma sys_lseek_ok [io_simps]:
  "no_fail w \<Longrightarrow> io_open w \<Longrightarrow> io_seek w \<Longrightarrow> 0 \<le> off \<Longrightarrow>
     sys_lseek off w = Ret (Some (nat off)) ((tick w)\<lparr>io_pos := nat off\<rparr>)"
  using no_fail_Fail [of w] by (cases "outcome_of w") (auto simp: sys_lseek_def)

lemma sys_lseek_nonneg: "sys_lseek off w = Ret (Some n) w' \<Longrightarrow> 0 \<le> off"
  by (auto simp: sys_lseek_def split: if_splits outcome.splits)

lemma sys_fstat_ok [io_simps]:
  "no_fail w \<Longrightarrow> io_open w \<Longrightarrow> io_seek w \<Longrightarrow>
     sys_fstat_size w = Ret (Some (length (io_data w))) (tick w)"
  using no_fail_Fail [of w] by (cases "outcome_of w") (auto simp: sys_fstat_size_def)

lemma sys_fwrite_ok [io_simps]:
  "no_fail w \<Longrightarrow> sys_fwrite s w = Ret (length s) ((tick w)\<lparr>io_out := io_out w @ s\<rparr>)"
  using no_fail_Fail [of w] by (cases "outcome_of w") (auto simp: sys_fwrite_def)

lemma sys_fwrite_Ret: "\<exists>n w'. sys_fwrite s w = Ret n w' \<and> io_data w' = io_data w \<and> io_pos w' = io_pos w"
  by (cases "outcome_of w") (auto simp: sys_fwrite_def set_errno_def)

lemma sys_close_ok [io_simps]:
  "no_fail w \<Longrightarrow> io_open w \<Longrightarrow> \<not> io_tty w \<Longrightarrow> sys_close w = Ret True ((tick w)\<lparr>io_open := False\<rparr>)"
  using no_fail_Fail [of w] by (cases "outcome_of w") (auto simp: sys_close_def)

lemma sys_open_ok:
  "no_fail w \<Longrightarrow> io_files w name = Some d \<Longrightarrow> sys_open name w =
     Ret True ((park (tick w))\<lparr>io_data := d, io_pos := 0, io_open := True, io_seek := True,
                               io_tty := False\<rparr>)"
  using no_fail_Fail [of w] by (cases "outcome_of w") (auto simp: sys_open_def)

text \<open>A process with no open file, standard input empty and no failures ahead.\<close>

definition empty_io :: io where
  "empty_io = \<lparr>io_files = Map.empty, io_stdin = Some [], io_stdin_pos = 0, io_stdin_seek = True,
     io_data = [], io_pos = 0, io_open = False, io_seek = False, io_tty = False, io_out = [],
     io_err = [], io_errno = 0, io_plan = []\<rparr>"

text \<open>A named file that has just been opened: at its beginning, and otherwise as before.\<close>

definition opened :: "string \<Rightarrow> 'z io_scheme \<Rightarrow> 'z io_scheme" where
  "opened d w = (park (tick w))\<lparr>io_data := d, io_pos := 0, io_open := True, io_seek := True,
     io_tty := False\<rparr>"

lemma opened_fields [simp]:
  "io_data (opened d w) = d" "io_pos (opened d w) = 0" "io_open (opened d w)"
  "io_seek (opened d w)" "\<not> io_tty (opened d w)" "io_out (opened d w) = io_out w"
  "io_err (opened d w) = io_err w" "io_files (opened d w) = io_files w"
  "io_plan (opened d w) = tl (io_plan w)" "io.more (opened d w) = io.more w"
  "no_fail w \<Longrightarrow> no_fail (opened d w)" "all_full w \<Longrightarrow> all_full (opened d w)"
  by (simp_all add: opened_def park_def no_fail_def all_full_def tick_def list_all_iff)
    (metis list.set_sel(2) tl_Nil)+

lemma sys_open_opened [io_simps]:
  "no_fail w \<Longrightarrow> io_files w name = Some d \<Longrightarrow> sys_open name w = Ret True (opened d w)"
  by (simp add: sys_open_ok opened_def)

section \<open>The copy loop of head and tail\<close>

text \<open>
  Both programs hold a private copy of the same loop. The interface is its unfolding: a
  program with this law copies the next \<open>n\<close> bytes of the descriptor to standard output,
  however the reads are cut.
\<close>

locale fd_copier =
  fixes xwrite :: "string \<Rightarrow> ('z io_scheme, unit) prog"
    and copy :: "nat \<Rightarrow> nat \<Rightarrow> ('z io_scheme, bool) prog"
    and report :: "'z io_scheme \<Rightarrow> 'z io_scheme"
  assumes xwrite_ok: "no_fail w \<Longrightarrow> xwrite s w =
      (if s = [] then Ret () w else Ret () ((tick w)\<lparr>io_out := io_out w @ s\<rparr>))"
    and copy_law: "copy b n w = (if n = 0 then Ret True w
      else let b' = (if b > n then n else b) in
        (case sys_read b' w of
           Ret None w' \<Rightarrow> Ret False (report w')
         | Ret (Some bs) w' \<Rightarrow>
             if bs = [] then Ret True w'
             else (case xwrite bs w' of
                 Ret _ w'' \<Rightarrow> copy b' (n - length bs) w''
               | Exit k w'' \<Rightarrow> Exit k w'' | Undef \<Rightarrow> Undef)
         | Exit k w' \<Rightarrow> Exit k w' | Undef \<Rightarrow> Undef))"
begin

lemma copy_prefix:
  assumes "no_fail w" "io_open w" "0 < b"
  shows "\<exists>w'. copy b n w = Ret True w' \<and> no_fail w' \<and> same_file w w'
    \<and> io_out w' = io_out w @ avail n w \<and> io_pos w' = io_pos w + length (avail n w)
    \<and> (all_full w \<longrightarrow> all_full w')"
  using assms
proof (induction n arbitrary: b w rule: less_induct)
  case (less n)
  show ?case
  proof (cases "n = 0")
    case True
    then show ?thesis
      using less.prems by (subst copy_law) (simp add: avail_def)
  next
    case False
    define b' where "b' = (if b > n then n else b)"
    have b': "0 < b'" "b' \<le> n"
      using False less.prems(3) by (auto simp: b'_def)
    obtain m where m: "m \<le> b'" "0 < m"
      and rd: "sys_read b' w = Ret (Some (avail m w)) (advance (avail m w) (tick w))"
      using sys_read_ok [OF less.prems(1,2), of b'] b'(1) by metis
    show ?thesis
    proof (cases "avail m w = []")
      case True
      then have "avail n w = []"
        using m(2) by (simp add: avail_Nil)
      then show ?thesis
        using True False rd less.prems
        by (subst copy_law) (simp add: b'_def [symmetric] Let_def same_file_def)
    next
      case nonempty: False
      define w'' where "w'' = (tick (advance (avail m w) (tick w)))
        \<lparr>io_out := io_out w @ avail m w\<rparr>"
      have w'': "no_fail w''" "io_open w''"
        using less.prems by (simp_all add: w''_def)
      have "n - length (avail m w) < n"
        using nonempty False by simp
      from less.IH [OF this w'' b'(1)] obtain w' where
        rec: "copy b' (n - length (avail m w)) w'' = Ret True w'" and
        post: "no_fail w'" "same_file w'' w'"
          "io_out w' = io_out w'' @ avail (n - length (avail m w)) w''"
          "io_pos w' = io_pos w'' + length (avail (n - length (avail m w)) w'')"
          "all_full w'' \<longrightarrow> all_full w'"
        by blast
      have "all_full w \<longrightarrow> all_full w''"
        by (simp add: w''_def)
      note post = post mp [OF post(5)] this
      have split: "avail n w = avail m w @ avail (n - length (avail m w)) w''"
        using m b'
        by (cases "length (io_data w) - io_pos w \<le> m")
          (auto simp: avail_def w''_def min_def take_take_drop not_le)
      have "copy b n w = Ret True w'"
        using False nonempty rd rec less.prems(1)
        by (subst copy_law) (simp add: b'_def [symmetric] Let_def xwrite_ok w''_def)
      then show ?thesis
        using post split by (auto simp: w''_def same_file_def)
    qed
  qed
qed

end

end
