(* ===== verification/Line_Spec.thy ===== *)
theory Line_Spec
  imports Ulsp_Prelude
begin

text \<open>
  What head and tail are specified against: the lines of a file, each with its terminator
  (the last one may lack it), and the scan that both programs make backwards through a file
  to find where its last lines begin.
\<close>

section \<open>Lines\<close>

fun split_lines :: "char \<Rightarrow> string \<Rightarrow> string list" where
  "split_lines le [] = []"
| "split_lines le (c # cs) =
     (if c = le then [c] # split_lines le cs
      else (case split_lines le cs of [] \<Rightarrow> [[c]] | l # ls \<Rightarrow> (c # l) # ls))"

definition first_lines :: "char \<Rightarrow> nat \<Rightarrow> string \<Rightarrow> string" where
  "first_lines le n xs = concat (take n (split_lines le xs))"

definition skip_lines :: "char \<Rightarrow> nat \<Rightarrow> string \<Rightarrow> string" where
  "skip_lines le n xs = concat (drop n (split_lines le xs))"

definition last_lines :: "char \<Rightarrow> nat \<Rightarrow> string \<Rightarrow> string" where
  "last_lines le n xs = skip_lines le (length (split_lines le xs) - n) xs"

definition but_last_lines :: "char \<Rightarrow> nat \<Rightarrow> string \<Rightarrow> string" where
  "but_last_lines le n xs = first_lines le (length (split_lines le xs) - n) xs"

text \<open>How many of the last \<open>m\<close> lines are ended by a terminator.\<close>

definition ended_lines :: "char \<Rightarrow> nat \<Rightarrow> string \<Rightarrow> nat" where
  "ended_lines le m xs = (if last xs = le then m else m - 1)"

lemma concat_split_lines [simp]: "concat (split_lines le xs) = xs"
  by (induction xs) (auto split: list.splits)

lemma split_lines_Nil [simp]: "split_lines le xs = [] \<longleftrightarrow> xs = []"
  by (cases xs) (auto split: list.splits)

lemma first_skip_lines: "first_lines le n xs @ skip_lines le n xs = xs"
  using concat_append [of "take n (split_lines le xs)" "drop n (split_lines le xs)"]
  by (simp add: first_lines_def skip_lines_def)

lemma first_lines_0 [simp]: "first_lines le 0 xs = []"
  by (simp add: first_lines_def)

lemma first_lines_Nil [simp]: "first_lines le n [] = []"
  by (simp add: first_lines_def)

lemma first_lines_Cons:
  "first_lines le (Suc n) (c # cs) =
     c # (if c = le then first_lines le n cs else first_lines le (Suc n) cs)"
  by (cases "split_lines le cs") (auto simp: first_lines_def)

lemma first_lines_append_le:
  "first_lines le (Suc n) (xs @ ys) =
     (if count_list xs le \<le> n then xs @ first_lines le (Suc n - count_list xs le) ys
      else first_lines le (Suc n) xs)"
proof (induction xs arbitrary: n)
  case Nil
  then show ?case by simp
next
  case (Cons c xs)
  show ?case
    using Cons.IH [of n] Cons.IH [of "n - 1"]
    by (cases n) (auto simp: first_lines_Cons Suc_diff_le)
qed

lemma split_lines_append:
  "split_lines le (xs @ le # ys) = split_lines le (xs @ [le]) @ split_lines le ys"
  by (induction xs) (auto split: list.splits simp: Cons_eq_append_conv)

lemma length_split_lines:
  "length (split_lines le xs) =
     count_list xs le + (if xs = [] \<or> last xs = le then 0 else 1)"
  by (induction xs) (auto split: list.splits)

lemma count_list_append_le [simp]: "count_list (xs @ ys) c = count_list xs c + count_list ys c"
  by (induction xs) auto

lemma take_first_lines: "take (length (first_lines le n xs)) xs = first_lines le n xs"
  by (metis append_eq_conv_conj first_skip_lines)

lemma skip_lines_drop: "skip_lines le n xs = drop (length (first_lines le n xs)) xs"
  by (metis append_eq_conv_conj first_skip_lines)

text \<open>What a run prints: per file its header, when headers are wanted, and its part.\<close>

definition header_line :: "string \<Rightarrow> string" where
  "header_line f = ''==> '' @ f @ '' <=='' @ [NL]"

fun file_report :: "(string \<Rightarrow> string) \<Rightarrow> bool \<Rightarrow> bool \<Rightarrow> string list \<Rightarrow> string" where
  "file_report part headers first [] = []"
| "file_report part headers first (f # fs) =
     (if headers then (if first then [] else [NL]) @ header_line f else [])
     @ part f @ file_report part headers (first \<and> \<not> headers) fs"

section \<open>Where the last lines begin\<close>

text \<open>
  The terminator at \<open>p\<close> separates the last \<open>m\<close> lines from the others when just the
  terminators of those lines follow it.
\<close>

lemma cut_lines:
  assumes p: "p < length xs" "xs ! p = le" and m: "0 < m"
    and cnt: "count_list (drop (Suc p) xs) le = ended_lines le m xs"
  shows "take (Suc p) xs = but_last_lines le m xs \<and> drop (Suc p) xs = last_lines le m xs"
proof -
  define A where "A = take p xs"
  define B where "B = drop (Suc p) xs"
  have xs: "xs = A @ le # B"
    using id_take_nth_drop [OF p(1)] p(2) by (simp add: A_def B_def)
  have tk: "take (Suc p) xs = A @ [le]"
    unfolding A_def using p(1) by (simp only: take_Suc_conv_app_nth p(2))
  have lines: "split_lines le xs = split_lines le (A @ [le]) @ split_lines le B"
    unfolding xs by (rule split_lines_append)
  have "length (split_lines le B) = m"
  proof (cases "last xs = le")
    case True
    with cnt m have "count_list B le = m"
      by (simp add: B_def ended_lines_def)
    moreover from this m have "B \<noteq> []" by auto
    moreover from this True have "last B = le" by (simp add: xs)
    ultimately show ?thesis by (simp add: length_split_lines)
  next
    case False
    then have "B \<noteq> []" by (auto simp: xs)
    moreover from this False have "last B \<noteq> le" by (simp add: xs)
    ultimately show ?thesis
      using cnt m False by (simp add: length_split_lines B_def ended_lines_def)
  qed
  then have "length (split_lines le xs) - m = length (split_lines le (A @ [le]))"
    by (simp add: lines)
  then have "but_last_lines le m xs = A @ [le]" and "last_lines le m xs = B"
    unfolding but_last_lines_def last_lines_def first_lines_def skip_lines_def
    by (simp_all add: lines)
  then show ?thesis
    using tk by (simp add: B_def)
qed

lemma ended_lines_Suc: "last xs \<noteq> le \<Longrightarrow> ended_lines le (Suc m) xs = m"
  by (simp add: ended_lines_def)

lemma few_lines:
  assumes "count_list xs le \<le> ended_lines le m xs" and "0 < m"
  shows "length (split_lines le xs) \<le> m"
  using assms by (auto simp: length_split_lines ended_lines_def split: if_splits)

lemma last_lines_all: "length (split_lines le xs) \<le> m \<Longrightarrow> last_lines le m xs = xs"
  by (simp add: last_lines_def skip_lines_def)

lemma but_last_lines_none: "length (split_lines le xs) \<le> m \<Longrightarrow> but_last_lines le m xs = []"
  by (simp add: but_last_lines_def)

section \<open>The backward scan of one buffer\<close>

text \<open>\<open>memrchr\<close> of the C library, as an index into the buffer.\<close>

fun memrchr :: "char \<Rightarrow> string \<Rightarrow> nat \<Rightarrow> nat option" where
  "memrchr c buf 0 = None"
| "memrchr c buf (Suc n) = (if buf ! n = c then Some n else memrchr c buf n)"

lemma memrchr_less: "memrchr c buf n = Some i \<Longrightarrow> i < n"
  by (induction n) (auto split: if_splits)

lemma memrchr_None:
  "n \<le> length buf \<Longrightarrow> memrchr c buf n = None \<Longrightarrow> count_list (take n buf) c = 0"
  by (induction n) (auto simp: take_Suc_conv_app_nth split: if_splits)

lemma memrchr_Some:
  "n \<le> length buf \<Longrightarrow> memrchr c buf n = Some i \<Longrightarrow>
     i < n \<and> buf ! i = c \<and> count_list (drop (Suc i) (take n buf)) c = 0"
proof (induction n)
  case 0
  then show ?case by simp
next
  case (Suc n)
  show ?case
  proof (cases "buf ! n = c")
    case True
    with Suc.prems show ?thesis by simp
  next
    case False
    with Suc.prems have "memrchr c buf n = Some i" by simp
    with Suc.IH Suc.prems(1) False show ?thesis
      by (simp add: take_Suc_conv_app_nth)
  qed
qed

text \<open>
  \<open>find le buf n\<close> is the last terminator among the first \<open>n\<close> bytes; \<open>scan le nl buf n\<close>
  skips \<open>nl\<close> terminators and stops at the next one (\<open>Inl\<close> its index), or runs out of
  buffer with \<open>Inr\<close> of the terminators still to skip.
\<close>

locale back_scan =
  fixes find :: "char \<Rightarrow> string \<Rightarrow> nat \<Rightarrow> nat option"
    and scan :: "char \<Rightarrow> nat \<Rightarrow> string \<Rightarrow> nat \<Rightarrow> nat + nat"
  assumes find_Some: "n \<le> length buf \<Longrightarrow> find le buf n = Some i \<Longrightarrow>
      i < n \<and> buf ! i = le \<and> count_list (drop (Suc i) (take n buf)) le = 0"
    and find_None: "n \<le> length buf \<Longrightarrow> find le buf n = None \<Longrightarrow> count_list (take n buf) le = 0"
    and scan_law: "scan le nl buf n = (if n = 0 then Inr nl else
      (case find le buf n of
         None \<Rightarrow> Inr nl
       | Some i \<Rightarrow> if nl = 0 then Inl i else scan le (nl - 1) buf i))"
begin

lemma take_at_find:
  assumes "i < n" "n \<le> length buf" "buf ! i = le"
  shows "take n buf = take i buf @ le # drop (Suc i) (take n buf)"
  using id_take_nth_drop [of i "take n buf"] assms by (simp add: min_def)

lemma scan_Inl:
  "n \<le> length buf \<Longrightarrow> scan le nl buf n = Inl i \<Longrightarrow>
     i < n \<and> buf ! i = le \<and> count_list (drop (Suc i) (take n buf)) le = nl"
proof (induction nl arbitrary: n)
  case 0
  then show ?case
    using find_Some [of n buf le i] scan_law [of le 0 buf n]
    by (auto split: if_splits option.splits)
next
  case (Suc nl)
  then obtain j where j: "find le buf n = Some j" "scan le nl buf j = Inl i"
    using scan_law [of le "Suc nl" buf n] by (auto split: if_splits option.splits)
  have fj: "j < n" "buf ! j = le" "count_list (drop (Suc j) (take n buf)) le = 0"
    using find_Some [OF Suc.prems(1) j(1)] by auto
  have IH: "i < j" "buf ! i = le" "count_list (drop (Suc i) (take j buf)) le = nl"
    using Suc.IH [OF _ j(2)] fj(1) Suc.prems(1) by auto
  have "drop (Suc i) (take n buf) = drop (Suc i) (take j buf) @ le # drop (Suc j) (take n buf)"
    using arg_cong [OF take_at_find [OF fj(1) Suc.prems(1) fj(2)], of "drop (Suc i)"] IH(1) fj(1)
      Suc.prems(1) by simp
  then show ?case
    using IH fj by simp
qed

lemma scan_Inr:
  "n \<le> length buf \<Longrightarrow> scan le nl buf n = Inr nl' \<Longrightarrow> nl' + count_list (take n buf) le = nl"
proof (induction nl arbitrary: n)
  case 0
  then show ?case
    using find_None [of n buf le] scan_law [of le 0 buf n]
    by (auto split: if_splits option.splits)
next
  case (Suc nl)
  show ?case
  proof (cases "n = 0 \<or> find le buf n = None")
    case True
    then show ?thesis
      using Suc.prems find_None [of n buf le] scan_law [of le "Suc nl" buf n]
      by (auto split: if_splits)
  next
    case False
    then obtain j where j: "find le buf n = Some j" "scan le nl buf j = Inr nl'"
      using scan_law [of le "Suc nl" buf n] Suc.prems by (auto split: if_splits)
    have fj: "j < n" "buf ! j = le" "count_list (drop (Suc j) (take n buf)) le = 0"
      using find_Some [OF Suc.prems(1) j(1)] by auto
    have "nl' + count_list (take j buf) le = nl"
      using Suc.IH [OF _ j(2)] fj(1) Suc.prems(1) by auto
    moreover have "count_list (take n buf) le = count_list (take j buf) le + 1"
      using arg_cong [OF take_at_find [OF fj(1) Suc.prems(1) fj(2)], of "\<lambda>s. count_list s le"]
        fj(3) by simp
    ultimately show ?thesis by simp
  qed
qed

end

end
