(* ===== verification/Head.thy ===== *)
theory Head
  imports Posix_Io Line_Spec
begin

text \<open>
  cmd/src/head.c: the first lines or bytes of each file (\<open>-n N\<close>, \<open>-c N\<close>), or all but the
  last ones (\<open>-n -N\<close>, \<open>-c -N\<close>). The globals of the program are the fields that
  \<open>head_state\<close> adds to the process.
\<close>

section \<open>State and output routines\<close>

record head_state = io +
  h_cflag :: bool
  h_nflag :: bool
  h_qflag :: bool
  h_vflag :: bool
  h_elide_from_end :: bool
  h_num :: int
  h_print_headers :: bool
  h_line_end :: char
  h_first_line :: bool   \<comment> \<open>the static variable of \<open>write_header\<close>\<close>

definition head_DEFAULT_NUMBER :: int where
  "head_DEFAULT_NUMBER = 10"

text \<open>The initialisers of the globals, over the process the program starts in.\<close>

definition head_start :: "io \<Rightarrow> head_state" where
  "head_start w = io.extend w
     \<lparr>h_cflag = False, h_nflag = True, h_qflag = False, h_vflag = False,
      h_elide_from_end = False, h_num = head_DEFAULT_NUMBER, h_print_headers = False,
      h_line_end = NL, h_first_line = True\<rparr>"

definition head_usage_text :: "string list" where
  "head_usage_text =
   [''Usage: head [OPTION]... [FILE]...'',
    ''Print the first 10 lines of each FILE to standard output.'',
    ''With more than one FILE, precede each with a header giving the file name.'',
    [],
    ''With no FILE, or when FILE is -, read standard input.'',
    [],
    ''Mandatory arguments to long options are mandatory for short options too.'',
    ''  -c, --bytes=[-]NUM       print the first NUM bytes of each file;'',
    ''                            with the leading '-', print all but the last'',
    ''                             NUM bytes of each file'',
    ''  -n, --lines=[-]NUM       print the first NUM lines instead of the first 10;'',
    ''                             with the leading '-', print all but the last'',
    ''                             NUM lines of each file'',
    ''  -q, --quiet, --silent    never print headers giving file names'',
    ''  -v, --verbose            always print headers giving file names'',
    ''  -z, --zero-terminated    line delimiter is NUL, not newline'',
    ''      --help     display this help and exit'',
    ''      --version  output version information and exit'']"

definition head_usage :: "int \<Rightarrow> ('z io_scheme, 'a) prog" where
  "head_usage status =
     thenp (if status = EXIT_SUCCESS
            then put (concat (map (\<lambda>l. l @ [NL]) head_usage_text))
            else eputs ''Try 'head --help' for more information.'' [])
       (exitp status)"

definition head_write_header :: "string \<Rightarrow> (head_state, unit) prog" where
  "head_write_header filename =
     bindp (getsp h_first_line) (\<lambda>first.
     thenp (put ((if first then [] else [NL]) @ ''==> '' @ filename @ '' <=='' @ [NL]))
       (modifyp (\<lambda>w. w\<lparr>h_first_line := False\<rparr>)))"

definition head_xwrite_stdout :: "string \<Rightarrow> ('z io_scheme, unit) prog" where
  "head_xwrite_stdout buffer =
     (if 0 < length buffer
      then bindp (sys_fwrite buffer) (\<lambda>n.
        if n < length buffer
        then thenp (eputs ''write error: %s'' []) (exitp EXIT_FAILURE)
        else retp ())
      else retp ())"

text \<open>\<open>res * 10 + (*p - '0')\<close> in \<open>size_t\<close>: other characters than digits are not rejected.\<close>

fun head_string_to_integer_from :: "nat \<Rightarrow> string \<Rightarrow> nat" where
  "head_string_to_integer_from res [] = res"
| "head_string_to_integer_from res (c # p) =
     head_string_to_integer_from (size_t (int res * 10 + (schar c - 48))) p"

definition head_string_to_integer :: "string \<Rightarrow> nat" where
  "head_string_to_integer str = head_string_to_integer_from 0 str"

section \<open>Copying and counting forwards\<close>

lemma head_xwrite_Ret:
  "head_xwrite_stdout bs w = Ret u w' \<Longrightarrow> io_data w' = io_data w \<and> io_pos w' = io_pos w"
  using sys_fwrite_Ret [of bs w]
  by (auto simp: head_xwrite_stdout_def prog_simps eputs_def split: if_splits)

function head_copy_fd_from :: "nat \<Rightarrow> nat \<Rightarrow> ('z io_scheme, bool) prog" where
  "head_copy_fd_from bytes_to_read n_bytes w =
     (if n_bytes = 0 then Ret True w
      else let b = (if bytes_to_read > n_bytes then n_bytes else bytes_to_read) in
        (case sys_read b w of
           Ret None w' \<Rightarrow> thenp (eputs ''%s: %d: read file error: %s'' [''copy_fd'']) (retp False) w'
         | Ret (Some bs) w' \<Rightarrow>
             if bs = [] then Ret True w'
             else (case head_xwrite_stdout bs w' of
                 Ret _ w'' \<Rightarrow> head_copy_fd_from b (n_bytes - length bs) w''
               | Exit k w'' \<Rightarrow> Exit k w'' | Undef \<Rightarrow> Undef)
         | Exit k w' \<Rightarrow> Exit k w' | Undef \<Rightarrow> Undef))"
  by pat_completeness auto
termination
  by (relation "measure (\<lambda>(b, n, w). n)") auto

declare head_copy_fd_from.simps [simp del]

definition head_copy_fd :: "nat \<Rightarrow> ('z io_scheme, bool) prog" where
  "head_copy_fd n_bytes = head_copy_fd_from BUFSIZ n_bytes"

text \<open>
  The scan of one buffer in \<open>head_lines\<close>: \<open>bytes_to_write\<close>, \<open>lines_to_write\<close> and whether the
  last wanted line ended in this buffer.
\<close>

fun head_scan :: "char \<Rightarrow> int \<Rightarrow> nat \<Rightarrow> string \<Rightarrow> nat \<times> int \<times> bool" where
  "head_scan le lines k [] = (k, lines, False)"
| "head_scan le lines k (c # buf) =
     (if c = le
      then if lines - 1 = 0 then (Suc k, 0, True) else head_scan le (lines - 1) (Suc k) buf
      else head_scan le lines (Suc k) buf)"

function head_lines_loop :: "string \<Rightarrow> int \<Rightarrow> (head_state, bool) prog" where
  "head_lines_loop filename lines_to_write w =
     (if lines_to_write = 0 then Ret True w
      else (case sys_read BUFSIZ w of
          Ret None w' \<Rightarrow> thenp (eputs ''read file error: '' []) (exitp EXIT_FAILURE) w'
        | Ret (Some buf) w' \<Rightarrow>
            if buf = [] then Ret True w'
            else (case head_scan (h_line_end w') lines_to_write 0 buf of (n, lines, hit) \<Rightarrow>
              if hit
              then bindp (sys_lseek_cur (int n - int (length buf))) (\<lambda>r.
                 if r = None
                 then thenp (eputs ''%s: %d: file %s seek error: %s'' [''head_lines'', filename])
                        (retp False)
                 else thenp (head_xwrite_stdout (take n buf)) (retp True)) w'
              else (case head_xwrite_stdout (take n buf) w' of
                  Ret _ w'' \<Rightarrow> head_lines_loop filename lines w''
                | Exit k w'' \<Rightarrow> Exit k w'' | Undef \<Rightarrow> Undef))
        | Exit k w' \<Rightarrow> Exit k w' | Undef \<Rightarrow> Undef))"
  by pat_completeness auto
termination
  by (relation "measure (\<lambda>(f, l, w). length (io_data w) - io_pos w)")
    (auto dest!: sys_read_measure head_xwrite_Ret)

declare head_lines_loop.simps [simp del]

definition head_lines :: "string \<Rightarrow> (head_state, bool) prog" where
  "head_lines filename = bindp (getsp h_num) (\<lambda>num. head_lines_loop filename num)"

definition head_bytes :: "string \<Rightarrow> (head_state, bool) prog" where
  "head_bytes filename = bindp (getsp h_num) (\<lambda>num. head_copy_fd (size_t num))"

section \<open>All but the last lines or bytes\<close>

function head_scan_back :: "char \<Rightarrow> int \<Rightarrow> string \<Rightarrow> nat \<Rightarrow> nat + int" where
  "head_scan_back le n_lines buf n =
     (if n = 0 then Inr n_lines
      else (case memrchr le buf n of
          None \<Rightarrow> Inr n_lines
        | Some i \<Rightarrow> if n_lines = 0 then Inl i else head_scan_back le (n_lines - 1) buf i))"
  by pat_completeness auto
termination
  by (relation "measure (\<lambda>(c, l, b, n). n)") (auto dest: memrchr_less)

declare head_scan_back.simps [simp del]

text \<open>
  The loop of \<open>elide_tail_lines_file\<close> over the buffers of the file, from the last to the
  first: \<open>buf\<close> holds the bytes read at \<open>pos\<close>.
\<close>

function head_elide_loop :: "string \<Rightarrow> int \<Rightarrow> int \<Rightarrow> string \<Rightarrow> (head_state, bool) prog" where
  "head_elide_loop filename n_lines pos buf w =
     (case head_scan_back (h_line_end w) n_lines buf (length buf) of
        Inl n \<Rightarrow>
          bindp (sys_lseek 0) (\<lambda>r.
            if r = None
            then thenp (eputs ''%s: %d: file %s seek error: %s'' [''elide_tail_lines_file'', filename])
                   (retp False)
            else bindp (head_copy_fd (size_t pos)) (\<lambda>copied.
              if \<not> copied then retp False
              else thenp (head_xwrite_stdout (take (n + 1) buf)) (retp True))) w
      | Inr n_lines' \<Rightarrow>
          if pos = 0 then Ret True w
          else (case sys_lseek (pos - int BUFSIZ) w of
              Ret None w' \<Rightarrow>
                thenp (eputs ''%s: %d: file %s seek error: %s'' [''elide_tail_lines_file'', filename])
                  (retp False) w'
            | Ret (Some _) w' \<Rightarrow>
                (case sys_read BUFSIZ w' of
                   Ret None w'' \<Rightarrow>
                     thenp (eputs ''%s: %d: file %s read error: %s'' [''elide_tail_lines_file'', filename])
                       (retp False) w''
                 | Ret (Some buf') w'' \<Rightarrow>
                     if buf' = [] then Ret True w''
                     else head_elide_loop filename n_lines' (pos - int BUFSIZ) buf' w''
                 | Exit k w'' \<Rightarrow> Exit k w'' | Undef \<Rightarrow> Undef)
            | Exit k w' \<Rightarrow> Exit k w' | Undef \<Rightarrow> Undef))"
  by pat_completeness auto
termination
proof -
  have pos: "0 < int BUFSIZ" by simp
  show ?thesis
    by (relation "measure (\<lambda>(f, l, p, b, w). nat p)")
      (use pos in \<open>auto dest!: sys_lseek_nonneg\<close>)
qed

declare head_elide_loop.simps [simp del]

definition head_elide_tail_lines_file :: "string \<Rightarrow> (head_state, bool) prog" where
  "head_elide_tail_lines_file filename =
     bindp (getsp h_num) (\<lambda>n_lines.
     bindp sys_fstat_size (\<lambda>st. case st of
       None \<Rightarrow> thenp (eputs ''%s: %d: file %s stat error: %s'' [''elide_tail_lines_file'', filename])
                 (retp False)
     | Some sz \<Rightarrow>
         if n_lines = 0 \<or> sz = 0 then head_copy_fd sz
         else let bytes_read = sz mod BUFSIZ;
                  pos = int32 (int32 (int sz) - int bytes_read) in
           bindp (sys_lseek pos) (\<lambda>_.
           bindp (sys_read bytes_read) (\<lambda>r. case r of
             None \<Rightarrow> thenp (eputs ''%s: %d: file %s read error: %s'' [''elide_tail_lines_file'', filename])
                       (retp False)
           | Some buf \<Rightarrow>
               head_elide_loop filename
                 (if buf \<noteq> [] \<and> last buf \<noteq> NL then n_lines - 1 else n_lines) pos buf))))"

definition head_elide_tail_bytes_file :: "string \<Rightarrow> (head_state, bool) prog" where
  "head_elide_tail_bytes_file filename =
     bindp (getsp (\<lambda>w. size_t (h_num w))) (\<lambda>num_copy.
     bindp (sys_lseek_end 0) (\<lambda>r.
     let sz = (case r of None \<Rightarrow> size_t (- 1) | Some n \<Rightarrow> n) in
     bindp (sys_lseek 0) (\<lambda>_.
     thenp (modifyp (\<lambda>w. w\<lparr>h_num := int32 (int (size_t (int sz - h_num w)))\<rparr>))
     (bindp (getsp h_num) (\<lambda>num.
     bindp (if num > 0 then head_bytes filename else retp True) (\<lambda>ok.
     thenp (modifyp (\<lambda>w. w\<lparr>h_num := int32 (int num_copy)\<rparr>)) (retp ok)))))))"

section \<open>The command\<close>

definition head_cmd :: "string \<Rightarrow> (head_state, bool) prog" where
  "head_cmd filename =
     bindp (getsp (\<lambda>w. w)) (\<lambda>g.
     thenp (if h_print_headers g then head_write_header filename else retp ())
       (if h_elide_from_end g
        then if h_nflag g then head_elide_tail_lines_file filename
             else head_elide_tail_bytes_file filename
        else if h_nflag g then head_lines filename else head_bytes filename))"

definition head_file :: "string \<Rightarrow> (head_state, bool) prog" where
  "head_file filename =
     bindp (if filename = ''-''
            then thenp use_stdin (retp ''standard input'')
            else bindp (sys_open filename) (\<lambda>opened.
              if \<not> opened
              then thenp (eputs ''head: cannot open '%s' for reading: %s'' [filename])
                     (exitp EXIT_FAILURE)
              else retp filename)) (\<lambda>name.
     bindp (head_cmd name) (\<lambda>ok.
     bindp sys_close (\<lambda>closed.
       if \<not> closed then thenp (eputs ''close file error: '' []) (exitp EXIT_FAILURE)
       else retp ok)))"

definition head_set_count :: "bool \<Rightarrow> string \<Rightarrow> head_state \<Rightarrow> head_state" where
  "head_set_count bytes arg w =
     (let elide = (arg \<noteq> [] \<and> hd arg = CHR ''-'') in
      w\<lparr>h_cflag := bytes, h_nflag := \<not> bytes, h_elide_from_end := elide,
        h_num := int32 (int (head_string_to_integer (if elide then tl arg else arg)))\<rparr>)"

fun head_options :: "optev list \<Rightarrow> (head_state, unit) prog" where
  "head_options [] = retp ()"
| "head_options (ev # evs) =
     thenp (case ev of
         Opt c arg \<Rightarrow>
           if c = CHR ''c'' then (case arg of None \<Rightarrow> undefp | Some a \<Rightarrow> modifyp (head_set_count True a))
           else if c = CHR ''n'' then (case arg of None \<Rightarrow> undefp | Some a \<Rightarrow> modifyp (head_set_count False a))
           else if c = CHR ''q'' then modifyp (\<lambda>w. w\<lparr>h_qflag := True\<rparr>)
           else if c = CHR ''v'' then modifyp (\<lambda>w. w\<lparr>h_vflag := True\<rparr>)
           else if c = CHR ''z'' then modifyp (\<lambda>w. w\<lparr>h_line_end := NUL\<rparr>)
           else head_usage EXIT_FAILURE
       | OptHelp \<Rightarrow> head_usage EXIT_SUCCESS
       | OptVersion \<Rightarrow> put (''Written by rda'' @ [NL])
       | _ \<Rightarrow> head_usage EXIT_FAILURE)
     (head_options evs)"

text \<open>The result of \<open>main\<close> is the exit status.\<close>

definition head_main :: "optev list \<Rightarrow> string list \<Rightarrow> (head_state, int) prog" where
  "head_main opts operands =
     thenp (head_options opts)
     (thenp (modifyp (\<lambda>w. if h_vflag w \<or> (\<not> h_qflag w \<and> 1 < length operands)
                          then w\<lparr>h_print_headers := True\<rparr> else w))
     (bindp (all_ok head_file True (if operands = [] then [''-''] else operands)) (\<lambda>ok.
       retp (if ok then EXIT_SUCCESS else EXIT_FAILURE))))"

section \<open>The copy loop\<close>

interpretation head_copier: fd_copier head_xwrite_stdout head_copy_fd_from
  "\<lambda>w. w\<lparr>io_err := io_err w @ [Diag ''%s: %d: read file error: %s'' [''copy_fd''] (io_errno w)]\<rparr>"
proof
  fix w :: "'z io_scheme" and s :: string
  assume "no_fail w"
  then show "head_xwrite_stdout s w =
      (if s = [] then Ret () w else Ret () ((tick w)\<lparr>io_out := io_out w @ s\<rparr>))"
    by (simp add: head_xwrite_stdout_def prog_simps io_simps)
next
  fix b n and w :: "'z io_scheme"
  show "head_copy_fd_from b n w = (if n = 0 then Ret True w
      else let b' = (if b > n then n else b) in
        (case sys_read b' w of
           Ret None w' \<Rightarrow> Ret False (w'\<lparr>io_err := io_err w' @
             [Diag ''%s: %d: read file error: %s'' [''copy_fd''] (io_errno w')]\<rparr>)
         | Ret (Some bs) w' \<Rightarrow>
             if bs = [] then Ret True w'
             else (case head_xwrite_stdout bs w' of
                 Ret _ w'' \<Rightarrow> head_copy_fd_from b' (n - length bs) w''
               | Exit k w'' \<Rightarrow> Exit k w'' | Undef \<Rightarrow> Undef)
         | Exit k w' \<Rightarrow> Exit k w' | Undef \<Rightarrow> Undef))"
    by (subst head_copy_fd_from.simps) (simp add: Let_def prog_simps eputs_def cong: result.case_cong option.case_cong)
qed

lemma head_copy_fd_prefix:
  assumes "no_fail w" "io_open w"
  shows "\<exists>w'. head_copy_fd n w = Ret True w' \<and> no_fail w' \<and> same_file w w'
    \<and> io_out w' = io_out w @ avail n w \<and> io_pos w' = io_pos w + length (avail n w)
    \<and> (all_full w \<longrightarrow> all_full w')"
  using head_copier.copy_prefix [OF assms BUFSIZ_pos(1)] by (simp add: head_copy_fd_def)

section \<open>The first lines\<close>

lemma same_file_line_end: "same_file w w' \<Longrightarrow> h_line_end w' = h_line_end w"
  by (cases w; cases w') (simp add: same_file_def)

lemma head_scan_pos:
  "head_scan le (int (Suc n)) k buf =
     (if count_list buf le \<le> n then (k + length buf, int (Suc n - count_list buf le), False)
      else (k + length (first_lines le (Suc n) buf), 0, True))"
proof (induction buf arbitrary: n k)
  case Nil
  then show ?case by simp
next
  case (Cons c buf)
  show ?case
  proof (cases "c = le \<and> n \<noteq> 0")
    case True
    then obtain m where "n = Suc m" by (cases n) auto
    with True Cons.IH [of m] show ?thesis
      by (simp add: first_lines_Cons)
  next
    case False
    with Cons.IH [of n] show ?thesis
      by (auto simp: first_lines_Cons)
  qed
qed

lemma head_lines_loop_pos:
  assumes "no_fail w" "io_open w" "io_seek w"
  shows "\<exists>w'. head_lines_loop filename (int n) w = Ret True w' \<and> no_fail w' \<and> same_file w w'
    \<and> io_out w' = io_out w @ first_lines (h_line_end w) n (drop (io_pos w) (io_data w))
    \<and> io_pos w' = io_pos w + length (first_lines (h_line_end w) n (drop (io_pos w) (io_data w)))"
  using assms
proof (induction "length (io_data w) - io_pos w" arbitrary: n w rule: less_induct)
  case less
  show ?case
  proof (cases n)
    case 0
    then show ?thesis
      by (subst head_lines_loop.simps) (simp add: less.prems)
  next
    case (Suc k)
    obtain m where m: "m \<le> BUFSIZ" "0 < m"
      and rd: "sys_read BUFSIZ w = Ret (Some (avail m w)) (advance (avail m w) (tick w))"
      using sys_read_ok [OF less.prems(1,2), of BUFSIZ] by auto
    define bs where "bs = avail m w"
    define rest where "rest = drop (io_pos w) (io_data w)"
    define le where "le = h_line_end w"
    have le': "h_line_end (advance bs (tick w)) = le"
      unfolding le_def by (rule same_file_line_end) (simp add: same_file_def)
    have split: "rest = bs @ drop m rest"
      by (simp only: bs_def rest_def avail_def append_take_drop_id)
    show ?thesis
    proof (cases "bs = []")
      case True
      then have "rest = []"
        using m by (simp add: bs_def rest_def avail_Nil)
      then show ?thesis
        using True rd less.prems Suc
        by (subst head_lines_loop.simps)
          (simp add: bs_def [symmetric] rest_def [symmetric] same_file_def)
    next
      case nonempty: False
      show ?thesis
      proof (cases "count_list bs le \<le> k")
        case more: True
        define w'' where "w'' = (tick (advance bs (tick w)))\<lparr>io_out := io_out w @ bs\<rparr>"
        have w'': "no_fail w''" "io_open w''" "io_seek w''"
          using less.prems by (simp_all add: w''_def)
        have sf: "same_file w w''"
          by (simp add: w''_def same_file_def)
        have le'': "h_line_end w'' = le"
          using same_file_line_end [OF sf] by (simp add: le_def)
        have "io_pos w < length (io_data w)"
          using nonempty by (simp add: bs_def avail_Nil)
        then have dec: "length (io_data w'') - io_pos w'' < length (io_data w) - io_pos w"
          using nonempty m(2) by (simp add: w''_def bs_def length_avail)
        have rest'': "drop (io_pos w'') (io_data w'') = drop m rest"
          by (cases "length (io_data w) - io_pos w \<le> m")
            (auto simp: w''_def bs_def rest_def length_avail min_def add.commute)
        obtain w' where rec: "head_lines_loop filename (int (Suc k - count_list bs le)) w'' = Ret True w'"
          and post: "no_fail w'" "same_file w'' w'"
            "io_out w' = io_out w'' @ first_lines le (Suc k - count_list bs le) (drop m rest)"
            "io_pos w' = io_pos w'' + length (first_lines le (Suc k - count_list bs le) (drop m rest))"
          using less.hyps [OF dec w'', of "Suc k - count_list bs le"]
          by (auto simp: rest'' le'')
        have "head_lines_loop filename (int n) w = Ret True w'"
          using nonempty rd rec less.prems(1) more
          by (subst head_lines_loop.simps)
            (simp add: Suc bs_def [symmetric] le' head_scan_pos
              head_copier.xwrite_ok w''_def del: of_nat_Suc)
        moreover have "first_lines le n rest = bs @ first_lines le (Suc k - count_list bs le) (drop m rest)"
          using more by (subst split) (simp add: Suc first_lines_append_le)
        ultimately show ?thesis
          using post same_file_trans [OF sf post(2)]
          by (auto simp: rest_def [symmetric] le_def [symmetric] w''_def)
      next
        case hit: False
        define fl where "fl = first_lines le (Suc k) bs"
        have tk: "take (length fl) bs = fl"
          by (simp add: fl_def take_first_lines)
        have len: "length fl \<le> length bs"
          by (metis fl_def append_eq_conv_conj first_skip_lines nle_le take_all_iff)
        have ne: "fl \<noteq> []"
          using nonempty by (cases bs) (auto simp: fl_def first_lines_Cons)
        have first: "first_lines le n rest = fl"
          using hit by (subst split) (simp add: Suc first_lines_append_le fl_def)
        define w1 where "w1 = (tick (advance bs (tick w)))\<lparr>io_pos := io_pos w + length fl\<rparr>"
        have seek: "sys_lseek_cur (int (length fl) - int (length bs)) (advance bs (tick w)) =
            Ret (Some (io_pos w + length fl)) w1"
          using less.prems by (simp add: sys_lseek_cur_def io_simps w1_def nat_add_distrib)
        have nf: "no_fail w1"
          using less.prems by (simp add: w1_def)
        have "head_lines_loop filename (int n) w =
            Ret True ((tick w1)\<lparr>io_out := io_out w1 @ fl\<rparr>)"
          using nonempty rd hit nf ne
          by (subst head_lines_loop.simps)
            (simp add: Suc bs_def [symmetric] le' head_scan_pos
              fl_def [symmetric] tk bindp_unfold seek thenp_unfold head_copier.xwrite_ok
              del: of_nat_Suc)
        then show ?thesis
          using nf by (auto simp: rest_def [symmetric] le_def [symmetric] first w1_def same_file_def)
      qed
    qed
  qed
qed

section \<open>All but the last lines\<close>

interpretation head_back: back_scan memrchr
  "\<lambda>le n_lines buf n. map_sum id nat (head_scan_back le (int n_lines) buf n)"
proof
  fix le nl buf n
  show "map_sum id nat (head_scan_back le (int nl) buf n) = (if n = 0 then Inr nl else
      (case memrchr le buf n of
         None \<Rightarrow> Inr nl
       | Some i \<Rightarrow> if nl = 0 then Inl i
                   else map_sum id nat (head_scan_back le (int (nl - 1)) buf i)))"
    by (subst head_scan_back.simps) (auto split: option.split simp: of_nat_diff)
qed (use memrchr_Some memrchr_None in blast)+

lemma head_scan_back_nonneg:
  "0 \<le> nl \<Longrightarrow> head_scan_back le nl buf n = Inr nl' \<Longrightarrow> 0 \<le> nl'"
proof (induction le nl buf n rule: head_scan_back.induct)
  case (1 le nl buf n)
  show ?case
    using 1 head_scan_back.simps [of le nl buf n]
    by (auto split: if_splits option.splits)
qed

lemma head_elide_loop_correct:
  assumes w: "all_full w" "io_open w" "io_seek w" "io_data w = xs" "h_line_end w = le"
    and m: "0 < m" and len: "length xs < 2 ^ 31"
    and pos: "p + length buf \<le> length xs" "p mod BUFSIZ = 0" "buf = take (length buf) (drop p xs)"
    and cnt: "nl + count_list (drop (p + length buf) xs) le = ended_lines le m xs"
  shows "\<exists>w'. head_elide_loop filename (int nl) (int p) buf w = Ret True w'
    \<and> io_out w' = io_out w @ but_last_lines le m xs \<and> same_file w w'"
  using w pos cnt
proof (induction p arbitrary: w buf nl rule: less_induct)
  case (less p)
  note prems = less.prems
  have whole: "drop p xs = buf @ drop (p + length buf) xs"
    using prems(8) by (metis append_take_drop_id drop_drop add.commute)
  show ?case
  proof (cases "head_scan_back le (int nl) buf (length buf)")
    case (Inl i)
    then have hit: "i < length buf" "buf ! i = le" "count_list (drop (Suc i) buf) le = nl"
      using head_back.scan_Inl [of "length buf" buf le nl i] by auto
    have at: "p + i < length xs" "xs ! (p + i) = le"
      using hit(1,2) prems(6) whole
      by (simp_all add: nth_append flip: nth_drop)
    have "drop (Suc (p + i)) xs = drop (Suc i) (drop p xs)"
      by (simp add: add.commute)
    also have "\<dots> = drop (Suc i) buf @ drop (p + length buf) xs"
      using hit(1) by (subst whole) simp
    finally have "count_list (drop (Suc (p + i)) xs) le = ended_lines le m xs"
      using hit(3) prems(9) by simp
    then have cut: "take (Suc (p + i)) xs = but_last_lines le m xs"
      using cut_lines [OF at m] by simp
    have "take (Suc (p + i)) xs = take p xs @ take (Suc i) (drop p xs)"
      by (simp flip: take_add)
    also have "take (Suc i) (drop p xs) = take (i + 1) buf"
      using hit(1) by (subst whole) simp
    finally have out: "take p xs @ take (i + 1) buf = but_last_lines le m xs"
      using cut by simp
    define w1 where "w1 = (tick w)\<lparr>io_pos := 0\<rparr>"
    have w1: "all_full w1" "io_open w1"
      using prems by (simp_all add: w1_def)
    have seek: "sys_lseek 0 w = Ret (Some 0) w1"
      using prems by (simp add: io_simps all_full_no_fail w1_def)
    have sz: "size_t (int p) = p"
      using prems(6) len by (intro size_t_of_nat) simp
    obtain w2 where w2: "head_copy_fd p w1 = Ret True w2" "no_fail w2" "same_file w1 w2"
        "io_out w2 = io_out w1 @ avail p w1"
      using head_copy_fd_prefix [OF all_full_no_fail [OF w1(1)] w1(2), of p] by blast
    have ne: "take (i + 1) buf \<noteq> []"
      using hit(1) by auto
    have "head_elide_loop filename (int nl) (int p) buf w =
        Ret True ((tick w2)\<lparr>io_out := io_out w2 @ take (i + 1) buf\<rparr>)"
      using Inl ne w2
      by (subst head_elide_loop.simps)
        (simp add: prems(5) bindp_unfold seek sz thenp_unfold head_copier.xwrite_ok)
    moreover have "avail p w1 = take p xs"
      by (simp add: avail_def w1_def prems(4))
    ultimately show ?thesis
      using w2(3,4) out by (auto simp: w1_def same_file_def)
  next
    case (Inr z)
    then have z: "0 \<le> z" "nat z + count_list buf le = nl"
      using head_scan_back_nonneg [of "int nl" le buf "length buf" z]
        head_back.scan_Inr [of "length buf" buf le nl "nat z"] by auto
    then have cnt': "nat z + count_list (drop p xs) le = ended_lines le m xs"
      using prems(9) whole by simp
    show ?thesis
    proof (cases "p = 0")
      case True
      then have "but_last_lines le m xs = []"
        using cnt' m by (intro but_last_lines_none few_lines) simp_all
      then show ?thesis
        using Inr True by (subst head_elide_loop.simps) (simp add: prems(5))
    next
      case False
      then have ge: "BUFSIZ \<le> p"
        using prems(7) by (metis mod_less not_le)
      define p' where "p' = p - BUFSIZ"
      have p': "p' < p" "p' + BUFSIZ = p" "p' mod BUFSIZ = 0" "int p - int BUFSIZ = int p'"
        using ge False prems(7) le_mod_geq [OF ge] by (simp_all add: p'_def)
      define w1 where "w1 = (tick w)\<lparr>io_pos := p'\<rparr>"
      define buf' where "buf' = avail BUFSIZ w1"
      define w2 where "w2 = advance buf' (tick w1)"
      have w1: "all_full w1" "io_open w1"
        using prems by (simp_all add: w1_def)
      have seek: "sys_lseek (int p') w = Ret (Some p') w1"
        using prems by (simp add: io_simps all_full_no_fail w1_def)
      have read: "sys_read BUFSIZ w1 = Ret (Some buf') w2"
        using w1 by (simp add: io_simps buf'_def w2_def)
      have len': "length buf' = BUFSIZ"
        using p'(2) prems(6) by (simp add: buf'_def length_avail w1_def prems(4))
      have "buf' = take (length buf') (drop p' xs)"
        unfolding len' by (simp add: buf'_def avail_def w1_def prems(4))
      moreover have "buf' \<noteq> []"
        using len' by auto
      ultimately have buf': "buf' = take (length buf') (drop p' xs)" "buf' \<noteq> []"
        by blast+
      have w2: "all_full w2" "io_open w2" "io_seek w2" "io_data w2 = xs" "h_line_end w2 = le"
        using prems same_file_line_end [of w w2] w1
        by (simp_all add: w2_def w1_def same_file_def)
      obtain w' where w': "head_elide_loop filename z (int p') buf' w2 = Ret True w'"
          "io_out w' = io_out w2 @ but_last_lines le m xs" "same_file w2 w'"
        using less.IH [OF p'(1) w2, of buf' "nat z"] buf' len' p'(2,3) prems(6) cnt' z(1) by auto
      have "head_elide_loop filename (int nl) (int p) buf w = Ret True w'"
        using Inr False w'(1) buf'(2)
        by (subst head_elide_loop.simps) (simp add: prems(5) p'(4) seek read)
      then show ?thesis
        using w'(2,3) by (auto simp: w2_def w1_def same_file_def)
    qed
  qed
qed

text \<open>
  The first buffer holds what lies past the last multiple of \<open>BUFSIZ\<close>; from there the loop
  finds the cut, if the terminators to skip are those of the last \<open>m\<close> lines.
\<close>

lemma head_elide_from_block:
  assumes w: "all_full w" "io_open w" "io_seek w" "io_data w = xs" "h_line_end w = NL"
    and xs: "xs \<noteq> []" "length xs < 2 ^ 31" and m: "0 < m" and n: "h_num w = int n" "0 < n"
    and cnt: "ended_lines NL m xs =
        (if length xs mod BUFSIZ \<noteq> 0 \<and> last xs \<noteq> NL then n - 1 else n)"
  shows "\<exists>w'. head_elide_tail_lines_file filename w = Ret True w'
    \<and> io_out w' = io_out w @ but_last_lines NL m xs"
proof -
  define r where "r = length xs mod BUFSIZ"
  define p where "p = length xs - r"
  define w1 where "w1 = (tick (tick w))\<lparr>io_pos := p\<rparr>"
  define buf where "buf = avail r w1"
  define w2 where "w2 = advance buf (tick w1)"
  have "r \<le> length xs"
    by (simp add: r_def)
  then have rp: "p + r = length xs" "int (length xs) - int r = int p"
    by (simp_all add: p_def)
  have rm: "p mod BUFSIZ = 0"
    by (simp add: p_def r_def minus_mod_eq_mult_div)
  have p31: "int32 (int32 (int (length xs)) - int r) = int p"
    using xs(2) rp by (simp add: int32_of_nat)
  have buf: "length buf = r" "buf = drop p xs"
    using rp(1) w(4) by (simp_all add: buf_def w1_def length_avail avail_def)
  have seek: "sys_lseek (int p) (tick w) = Ret (Some p) w1"
    using w by (simp add: io_simps all_full_no_fail w1_def)
  have read: "sys_read r w1 = Ret (Some buf) w2"
    using w by (simp add: io_simps buf_def w2_def w1_def)
  have w2: "all_full w2" "io_open w2" "io_seek w2" "io_data w2 = xs" "h_line_end w2 = NL"
    using w same_file_line_end [of w w2] by (simp_all add: w2_def w1_def same_file_def)
  have "buf \<noteq> [] \<Longrightarrow> last buf = last xs"
    by (simp add: buf(2))
  moreover have "buf \<noteq> [] \<longleftrightarrow> r \<noteq> 0"
    using buf(1) by auto
  ultimately have nl: "(if buf \<noteq> [] \<and> last buf \<noteq> NL then int n - 1 else int n) =
      int (ended_lines NL m xs)"
    using n(2) by (auto simp: cnt r_def [symmetric] of_nat_diff)
  obtain w' where w': "head_elide_loop filename (int (ended_lines NL m xs)) (int p) buf w2 = Ret True w'"
      "io_out w' = io_out w2 @ but_last_lines NL m xs"
    using head_elide_loop_correct [OF w2 m xs(2), of p buf "ended_lines NL m xs"] buf rp(1) rm
    by auto
  have "head_elide_tail_lines_file filename w = Ret True w'"
    using w'(1) n xs(1)
    by (simp add: head_elide_tail_lines_file_def prog_simps n(1) io_simps all_full_no_fail w
        r_def [symmetric] p31 seek read nl Let_def)
  then show ?thesis
    using w'(2) by (simp add: w2_def w1_def)
qed

section \<open>Whole runs\<close>

definition head_opts :: "head_state \<Rightarrow> bool \<times> bool \<times> int \<times> bool \<times> char" where
  "head_opts w = (h_nflag w, h_elide_from_end w, h_num w, h_print_headers w, h_line_end w)"

lemma same_file_opts:
  "same_file w w' \<Longrightarrow> head_opts w' = head_opts w \<and> h_first_line w' = h_first_line w"
  by (cases w; cases w') (simp add: same_file_def head_opts_def)

lemma opened_opts: "head_opts (opened d w) = head_opts w \<and> h_first_line (opened d w) = h_first_line w"
  by (cases w) (simp add: opened_def park_def tick_def head_opts_def)

lemma tick_opts [simp]:
  "head_opts (tick w) = head_opts w" "h_first_line (tick w) = h_first_line w"
  by (cases w; simp add: tick_def head_opts_def)+

text \<open>What happens between opening and closing a file.\<close>

lemma head_file_wrap:
  assumes w: "no_fail w" "io_files w f = Some d" "f \<noteq> ''-''"
    and cmd: "head_cmd f (opened d w) = Ret ok w1" "no_fail w1" "io_open w1" "\<not> io_tty w1"
  shows "head_file f w = Ret ok ((tick w1)\<lparr>io_open := False\<rparr>)"
  using assms by (simp add: head_file_def prog_simps io_simps)

lemma head_file_lines:
  assumes w: "no_fail w" "io_files w f = Some d" "f \<noteq> ''-''"
    and opts: "head_opts w = (True, False, int n, hs, le)"
  shows "\<exists>w'. head_file f w = Ret True w' \<and> no_fail w' \<and> io_files w' = io_files w
    \<and> head_opts w' = head_opts w \<and> h_first_line w' = (h_first_line w \<and> \<not> hs)
    \<and> io_out w' = io_out w
        @ (if hs then (if h_first_line w then [] else [NL]) @ header_line f else [])
        @ first_lines le n d"
proof -
  define w0 where "w0 = opened d w"
  define hd where "hd = (if hs then (if h_first_line w then [] else [NL]) @ header_line f else [])"
  define w1 where "w1 = (if hs then w0\<lparr>io_out := io_out w @ hd, h_first_line := False\<rparr> else w0)"
  have o0: "head_opts w0 = (True, False, int n, hs, le)" "h_first_line w0 = h_first_line w"
    using opts by (simp_all add: w0_def opened_opts)
  have "no_fail w0" "io_plan w1 = io_plan w0"
    using w(1) by (simp_all add: w0_def w1_def)
  then have nf1: "no_fail w1"
    by (simp add: no_fail_def)
  have w1: "io_open w1" "io_seek w1" "\<not> io_tty w1" "io_data w1 = d" "io_pos w1 = 0"
      "io_files w1 = io_files w" "io_out w1 = io_out w @ hd" "h_line_end w1 = le" "h_num w1 = int n"
      "head_opts w1 = head_opts w" "h_first_line w1 = (h_first_line w \<and> \<not> hs)"
    using w o0 opts by (auto simp: w1_def w0_def head_opts_def hd_def)
  obtain w2 where w2: "head_lines_loop f (int n) w1 = Ret True w2" "no_fail w2" "same_file w1 w2"
      "io_out w2 = io_out w1 @ first_lines le n d"
    using head_lines_loop_pos [OF nf1 w1(1,2), of f n] w1(4,5,8) by auto
  have "head_cmd f w0 = Ret True w2"
    using o0 w2(1)
    by (auto simp: head_cmd_def head_opts_def prog_simps head_write_header_def put_def
        header_line_def w1_def hd_def head_lines_def w0_def)
  then have "head_file f w = Ret True ((tick w2)\<lparr>io_open := False\<rparr>)"
    using w w1 w2 by (intro head_file_wrap) (simp_all add: w0_def same_file_def)
  moreover have "no_fail ((tick w2)\<lparr>io_open := False\<rparr>)"
    using no_fail_tick [OF w2(2)] by (simp add: no_fail_def)
  moreover have "head_opts ((tick w2)\<lparr>io_open := False\<rparr>) = head_opts w"
    "h_first_line ((tick w2)\<lparr>io_open := False\<rparr>) = (h_first_line w \<and> \<not> hs)"
    using same_file_opts [OF w2(3)] w1(10,11) tick_opts [of w2] by (auto simp: head_opts_def)
  ultimately show ?thesis
    using w1 w2(3,4) by (auto simp: same_file_def hd_def)
qed

lemma head_files_lines:
  assumes "no_fail w" "\<forall>f \<in> set fs. f \<noteq> ''-'' \<and> io_files w f = Some (contents f)"
    and "head_opts w = (True, False, int n, hs, le)"
  shows "\<exists>w'. all_ok head_file True fs w = Ret True w'
    \<and> io_out w' = io_out w @ file_report (\<lambda>f. first_lines le n (contents f)) hs (h_first_line w) fs"
  using assms
proof (induction fs arbitrary: w)
  case Nil
  then show ?case by simp
next
  case (Cons f fs)
  obtain w1 where w1: "head_file f w = Ret True w1" "no_fail w1" "io_files w1 = io_files w"
      "head_opts w1 = head_opts w" "h_first_line w1 = (h_first_line w \<and> \<not> hs)"
      "io_out w1 = io_out w
        @ (if hs then (if h_first_line w then [] else [NL]) @ header_line f else [])
        @ first_lines le n (contents f)"
    using head_file_lines [of w f "contents f" n hs le] Cons.prems by auto
  obtain w' where "all_ok head_file True fs w1 = Ret True w'"
      "io_out w' = io_out w1 @ file_report (\<lambda>f. first_lines le n (contents f)) hs (h_first_line w1) fs"
    using Cons.IH [of w1] Cons.prems w1 by auto
  then show ?case
    using w1 by auto
qed

section \<open>Properties\<close>

interpretation head_digits: digit_reader head_string_to_integer_from
  by unfold_locales simp_all

text \<open>
  Head -n N on a file that can be positioned prints the first N lines from the current
  offset, each with its terminator, and leaves the offset just behind them; this holds
  however the reads are cut short.
\<close>

theorem head_lines_correct:
  assumes "no_fail w" "io_open w" "io_seek w" "h_num w = int n"
  shows "\<exists>w'. head_lines filename w = Ret True w'
    \<and> io_out w' = io_out w @ first_lines (h_line_end w) n (drop (io_pos w) (io_data w))
    \<and> io_pos w' = io_pos w + length (first_lines (h_line_end w) n (drop (io_pos w) (io_data w)))"
  using head_lines_loop_pos [OF assms(1-3), of filename n] assms(4)
  by (auto simp: head_lines_def bindp_unfold)

text \<open>
  Head -n -N prints all but the last N lines of a file, provided that the file ends with
  a newline or does not end at a multiple of BUFSIZ.
\<close>

theorem head_elide_lines_correct:
  assumes "all_full w" "io_open w" "io_seek w" "h_line_end w = NL" "io_data w \<noteq> []"
    and "length (io_data w) < 2 ^ 31" "h_num w = int n" "0 < n"
    and "length (io_data w) mod BUFSIZ \<noteq> 0 \<or> last (io_data w) = NL"
  shows "\<exists>w'. head_elide_tail_lines_file filename w = Ret True w'
    \<and> io_out w' = io_out w @ but_last_lines NL n (io_data w)"
  by (rule head_elide_from_block)
    (use assms in \<open>auto simp: ended_lines_def\<close>)

text \<open>
  When a file without a final newline ends exactly at a multiple of BUFSIZ, head -n -N
  drops one line too many: the buffer that should show the missing newline is empty.
\<close>

theorem head_elide_lines_at_block:
  assumes "all_full w" "io_open w" "io_seek w" "h_line_end w = NL" "io_data w \<noteq> []"
    and "length (io_data w) < 2 ^ 31" "h_num w = int n" "0 < n"
    and "length (io_data w) mod BUFSIZ = 0" "last (io_data w) \<noteq> NL"
  shows "\<exists>w'. head_elide_tail_lines_file filename w = Ret True w'
    \<and> io_out w' = io_out w @ but_last_lines NL (Suc n) (io_data w)"
  by (rule head_elide_from_block)
    (use assms in \<open>auto simp: ended_lines_Suc\<close>)

text \<open>
  C27: a run of head -n N over named files that can all be read prints, for each file in
  order, its header (when there are several files) and its first N lines, and exits 0.
\<close>

theorem head_main_lines:
  assumes "no_fail w" "fs \<noteq> []" "n < 2 ^ 31"
    and "\<forall>f \<in> set fs. f \<noteq> ''-'' \<and> io_files w f = Some (contents f)"
  shows "\<exists>w'. head_main [Opt (CHR ''n'') (Some (dec n))] fs (head_start w) = Ret EXIT_SUCCESS w'
    \<and> io_out w' = io_out w
        @ file_report (\<lambda>f. first_lines NL n (contents f)) (1 < length fs) True fs"
proof -
  have hd: "hd (dec n) \<noteq> CHR ''-''"
    using dec_digits [of n] by (cases "dec n") (auto simp: is_digit_def)
  define w1 where "w1 = (head_start w)\<lparr>h_num := int n, h_print_headers := 1 < length fs\<rparr>"
  have num: "int32 (int (head_string_to_integer (dec n))) = int n"
    using assms(3) by (simp add: head_string_to_integer_def head_digits.rd_dec int32_of_nat)
  have "no_fail w1" "head_opts w1 = (True, False, int n, 1 < length fs, NL)" "h_first_line w1"
    "io_files w1 = io_files w" "io_out w1 = io_out w"
    using assms(1) by (simp_all add: w1_def head_start_def no_fail_def io.defs head_opts_def)
  then obtain w' where w': "all_ok head_file True fs w1 = Ret True w'"
      "io_out w' = io_out w @ file_report (\<lambda>f. first_lines NL n (contents f)) (1 < length fs) True fs"
    using head_files_lines [of w1 fs contents n "1 < length fs" NL] assms(4) by auto
  have "head_main [Opt (CHR ''n'') (Some (dec n))] fs (head_start w) = Ret EXIT_SUCCESS w'"
    using w'(1) assms(2) hd
    by (cases "1 < length fs") (simp_all add: head_main_def prog_simps head_set_count_def num head_start_def io.defs w1_def)
  then show ?thesis
    using w'(2) by blast
qed

text \<open>
  Head -c -N prints all but the last N bytes of a file, whatever N is.
\<close>

theorem head_elide_bytes_correct:
  assumes "no_fail w" "io_open w" "io_seek w" "length (io_data w) < 2 ^ 31"
    and "h_num w = int n" "n < 2 ^ 31"
  shows "\<exists>w'. head_elide_tail_bytes_file filename w = Ret True w'
    \<and> io_out w' = io_out w @ take (length (io_data w) - n) (io_data w) \<and> h_num w' = int n"
proof -
  define k where "k = int (length (io_data w)) - int n"
  define w1 where "w1 = (tick (tick w))\<lparr>io_pos := 0\<rparr>"
  define w2 where "w2 = w1\<lparr>h_num := k\<rparr>"
  have k: "int32 (int (size_t k)) = k"
  proof -
    have "int (size_t k) = k mod 2 ^ 64"
      by (simp add: size_t_def)
    then have "int32 (int (size_t k)) = int32 k"
      by (simp only: int32_mod)
    also have "\<dots> = k"
      using assms(4,6) by (intro int32_id) (simp_all add: k_def)
    finally show ?thesis .
  qed
  have num: "h_num w1 = int n" "size_t (int n) = n"
    using assms(5,6) size_t_of_nat [of n] by (cases w; simp add: w1_def tick_def)+
  have w1: "no_fail w1" "io_open w1" "io_data w1 = io_data w" "io_pos w1 = 0" "io_out w1 = io_out w"
    using assms by (simp_all add: w1_def)
  have w2: "no_fail w2" "io_open w2" "io_data w2 = io_data w" "io_pos w2 = 0" "io_out w2 = io_out w"
    "h_num w2 = k"
    using w1 by (simp_all add: w2_def no_fail_def)
  have "head_elide_tail_bytes_file filename w =
      bindp (if k > 0 then head_bytes filename else retp True)
        (\<lambda>ok. thenp (modifyp (\<lambda>w. w\<lparr>h_num := int n\<rparr>)) (retp ok)) w2"
    using assms num k
    by (simp add: head_elide_tail_bytes_file_def prog_simps sys_lseek_end_def io_simps Let_def
        k_def int32_of_nat w1_def [symmetric] w2_def)
  moreover have "\<exists>w'. (if k > 0 then head_bytes filename else retp True) w2 = Ret True w'
      \<and> io_out w' = io_out w @ take (length (io_data w) - n) (io_data w)"
  proof (cases "k > 0")
    case True
    then have "size_t k = length (io_data w) - n"
      using assms(4) by (simp add: size_t_id k_def nat_diff_distrib)
    then show ?thesis
      using True head_copy_fd_prefix [OF w2(1,2), of "length (io_data w) - n"] w2(3-)
      by (auto simp: head_bytes_def bindp_unfold avail_def)
  next
    case False
    then show ?thesis
      using w2 by (simp add: k_def)
  qed
  ultimately show ?thesis
    by (auto simp: prog_simps)
qed

text \<open>
  On a pipe head -n N prints nothing of the buffer in which the N-th line ends, and
  reports an error: the offset is corrected before the buffer is written.
\<close>

theorem head_lines_pipe:
  assumes "all_full w" "io_open w" "\<not> io_seek w" "h_num w = int n" "0 < n"
    and "n \<le> count_list (avail BUFSIZ w) (h_line_end w)"
  shows "\<exists>w'. head_lines filename w = Ret False w' \<and> io_out w' = io_out w"
proof -
  obtain k where k: "n = Suc k"
    using assms(5) by (cases n) auto
  define w1 where "w1 = advance (avail BUFSIZ w) (tick w)"
  have "avail BUFSIZ w \<noteq> []"
    using assms(5,6) by auto
  moreover have le: "h_line_end w1 = h_line_end w"
    by (rule same_file_line_end) (simp add: w1_def same_file_def)
  moreover have "sys_lseek_cur off w1 = Ret None (set_errno ESPIPE (tick w1))" for off
    using assms(2,3) by (simp add: sys_lseek_cur_def sys_lseek_def w1_def)
  ultimately show ?thesis
    using assms
    by (simp add: head_lines_def bindp_unfold, subst head_lines_loop.simps)
      (simp add: k io_simps w1_def [symmetric] head_scan_pos prog_simps eputs_def set_errno_def
        del: of_nat_Suc, simp add: w1_def)
qed

section \<open>Witnesses\<close>

text \<open>A file \<open>f\<close> of three lines, opened.\<close>

definition head_example :: "string \<Rightarrow> int \<Rightarrow> head_state" where
  "head_example d n = (head_start empty_io)
     \<lparr>h_num := n, io_data := d, io_open := True, io_seek := True\<rparr>"

definition abc_lines :: string where
  "abc_lines = [CHR ''a'', NL, CHR ''b'', NL, CHR ''c'', NL]"

lemma head_example_fields [simp]:
  "no_fail (head_example d n)" "all_full (head_example d n)" "io_open (head_example d n)"
  "io_seek (head_example d n)" "io_data (head_example d n) = d" "io_pos (head_example d n) = 0"
  "io_out (head_example d n) = []" "h_num (head_example d n) = n"
  "h_line_end (head_example d n) = NL"
  by (simp_all add: head_example_def head_start_def empty_io_def io.defs no_fail_def all_full_def)

theorem head_lines_correct_witness:
  "\<exists>w'. head_lines ''f'' (head_example abc_lines 2) = Ret True w'
     \<and> io_out w' = [CHR ''a'', NL, CHR ''b'', NL]"
  using head_lines_correct [of "head_example abc_lines 2" 2 "''f''"]
  by (auto simp: abc_lines_def first_lines_def NL_def numeral_2_eq_2)

theorem head_elide_lines_correct_witness:
  "\<exists>w'. head_elide_tail_lines_file ''f'' (head_example abc_lines 1) = Ret True w'
     \<and> io_out w' = [CHR ''a'', NL, CHR ''b'', NL]"
  using head_elide_lines_correct [of "head_example abc_lines 1" 1 "''f''"]
  by (auto simp: abc_lines_def but_last_lines_def first_lines_def NL_def)

text \<open>The file holds \<open>b\<close> on a line and then 8190 letters without a newline: 8192 bytes.\<close>

theorem head_elide_lines_at_block_witness:
  "\<exists>w'. head_elide_tail_lines_file ''f''
      (head_example (CHR ''b'' # NL # replicate 8190 (CHR ''a'')) 1) = Ret True w'
    \<and> io_out w' = but_last_lines NL (Suc 1) (CHR ''b'' # NL # replicate 8190 (CHR ''a''))"
  using head_elide_lines_at_block [of "head_example (CHR ''b'' # NL # replicate 8190 (CHR ''a'')) 1" 1 "''f''"]
  by (simp add: BUFSIZ_def NL_def)

theorem head_main_lines_witness:
  "\<exists>w'. head_main [Opt (CHR ''n'') (Some (dec 1))] [''f'', ''g'']
      (head_start (empty_io\<lparr>io_files := [''f'' \<mapsto> abc_lines, ''g'' \<mapsto> ''x'']\<rparr>)) = Ret EXIT_SUCCESS w'
    \<and> io_out w' = header_line ''f'' @ [CHR ''a'', NL] @ [NL] @ header_line ''g'' @ ''x''"
  using head_main_lines [of "empty_io\<lparr>io_files := [''f'' \<mapsto> abc_lines, ''g'' \<mapsto> ''x'']\<rparr>"
      "[''f'', ''g'']" 1 "\<lambda>f. if f = ''f'' then abc_lines else ''x''"]
  by (simp add: empty_io_def no_fail_def abc_lines_def first_lines_def NL_def)

theorem head_elide_bytes_correct_witness:
  "\<exists>w'. head_elide_tail_bytes_file ''f'' (head_example ''abcdef'' 2) = Ret True w'
     \<and> io_out w' = ''abcd''"
  using head_elide_bytes_correct [of "head_example ''abcdef'' 2" 2 "''f''"] by auto

theorem head_lines_pipe_witness:
  "\<exists>w'. head_lines ''f'' ((head_example abc_lines 2)\<lparr>io_seek := False\<rparr>) = Ret False w'
     \<and> io_out w' = []"
  using head_lines_pipe [of "(head_example abc_lines 2)\<lparr>io_seek := False\<rparr>" 2 "''f''"]
  by (simp add: abc_lines_def avail_def NL_def all_full_def head_example_def head_start_def
      empty_io_def io.defs BUFSIZ_def)

end
