(* ===== verification/Tail.thy ===== *)
theory Tail
  imports Posix_Io Line_Spec "HOL-Library.Signed_Division"
begin

text \<open>
  cmd/src/tail.c: the last lines or bytes of each file (\<open>-n N\<close>, \<open>-c N\<close>), or everything from a
  line or byte on (\<open>-n +N\<close>, \<open>-c +N\<close>). The globals of the program are the fields that
  \<open>tail_state\<close> adds to the process.
\<close>

section \<open>State and output routines\<close>

record tail_state = io +
  t_cflag :: bool
  t_nflag :: bool
  t_fflag :: bool
  t_qflag :: bool
  t_sflag :: bool
  t_vflag :: bool
  t_line_end :: char
  t_num :: int
  t_elide_from_begin :: bool
  t_print_header :: bool
  t_first_line :: bool   \<comment> \<open>the static variable of \<open>write_header\<close>\<close>

text \<open>
  The initialisers of the globals. \<open>num\<close> has none in the source, so it starts as 0;
  \<open>DEFAULT_NUMBER\<close> is defined there and never used.
\<close>

definition tail_start :: "io \<Rightarrow> tail_state" where
  "tail_start w = io.extend w
     \<lparr>t_cflag = False, t_nflag = False, t_fflag = False, t_qflag = False, t_sflag = False,
      t_vflag = False, t_line_end = NL, t_num = 0, t_elide_from_begin = False,
      t_print_header = False, t_first_line = True\<rparr>"

definition tail_DEFAULT_NUMBER :: int where
  "tail_DEFAULT_NUMBER = 10"

definition tail_usage_text :: "string list" where
  "tail_usage_text =
   [''Usage: tail [OPTION]... [FILE]...'',
    ''Print the last 10 lines of each FILE to standard output.'',
    ''With more than one FILE, precede each with a header giving the file name.'',
    [],
    ''With no FILE, or when FILE is -, read standard input.'',
    [],
    ''Mandatory arguments to long options are mandatory for short options too.'',
    ''  -c, --bytes=[+]NUM       output the last NUM bytes; or use -c +NUM to'',
    ''                             output starting with byte NUM of each file'',
    ''  -f, --follow[={name|descriptor}]'',
    ''  -n, --lines=[+]NUM       output the last NUM lines, instead of the last 10;'',
    ''                             or use -n +NUM to output starting with line NUM'',
    ''  -q, --quiet, --silent    never output headers giving file names'',
    ''  -v, --verbose            always output headers giving file names'',
    ''  -z, --zero-terminated    line delimiter is NUL, not newline'',
    ''      --help     display this help and exit'',
    ''      --version  output version information and exit'']"

definition tail_usage :: "int \<Rightarrow> ('z io_scheme, 'a) prog" where
  "tail_usage status =
     thenp (if status = EXIT_SUCCESS
            then put (concat (map (\<lambda>l. l @ [NL]) tail_usage_text))
            else eputs ''Try 'tail --help' for more information.'' [])
       (exitp status)"

definition tail_write_header :: "string \<Rightarrow> (tail_state, unit) prog" where
  "tail_write_header filename =
     bindp (getsp t_first_line) (\<lambda>first.
     thenp (put ((if first then [] else [NL]) @ ''==> '' @ filename @ '' <=='' @ [NL]))
       (modifyp (\<lambda>w. w\<lparr>t_first_line := False\<rparr>)))"

definition tail_xwrite_stdout :: "string \<Rightarrow> ('z io_scheme, unit) prog" where
  "tail_xwrite_stdout buffer =
     (if 0 < length buffer
      then bindp (sys_fwrite buffer) (\<lambda>n.
        if n < length buffer
        then thenp (eputs ''write error: %s'' []) (exitp EXIT_FAILURE)
        else retp ())
      else retp ())"

fun tail_string_to_integer_from :: "nat \<Rightarrow> string \<Rightarrow> nat" where
  "tail_string_to_integer_from res [] = res"
| "tail_string_to_integer_from res (c # p) =
     tail_string_to_integer_from (size_t (int res * 10 + (schar c - 48))) p"

definition tail_string_to_integer :: "string \<Rightarrow> nat" where
  "tail_string_to_integer str = tail_string_to_integer_from 0 str"

function tail_copy_fd_from :: "nat \<Rightarrow> nat \<Rightarrow> ('z io_scheme, bool) prog" where
  "tail_copy_fd_from bytes_to_read n_bytes w =
     (if n_bytes = 0 then Ret True w
      else let b = (if bytes_to_read > n_bytes then n_bytes else bytes_to_read) in
        (case sys_read b w of
           Ret None w' \<Rightarrow> thenp (eputs ''%s: %d: read file error: %s'' [''copy_fd'']) (retp False) w'
         | Ret (Some bs) w' \<Rightarrow>
             if bs = [] then Ret True w'
             else (case tail_xwrite_stdout bs w' of
                 Ret _ w'' \<Rightarrow> tail_copy_fd_from b (n_bytes - length bs) w''
               | Exit k w'' \<Rightarrow> Exit k w'' | Undef \<Rightarrow> Undef)
         | Exit k w' \<Rightarrow> Exit k w' | Undef \<Rightarrow> Undef))"
  by pat_completeness auto
termination
  by (relation "measure (\<lambda>(b, n, w). n)") auto

declare tail_copy_fd_from.simps [simp del]

definition tail_copy_fd :: "nat \<Rightarrow> ('z io_scheme, bool) prog" where
  "tail_copy_fd n_bytes = tail_copy_fd_from BUFSIZ n_bytes"

section \<open>The last lines\<close>

text \<open>The pointer that walks down from \<open>buf + n - 1\<close>, as an index; None when it leaves the buffer.\<close>

fun tail_rscan :: "char \<Rightarrow> string \<Rightarrow> nat \<Rightarrow> nat option" where
  "tail_rscan le buf 0 = None"
| "tail_rscan le buf (Suc n) = (if buf ! n \<noteq> le then tail_rscan le buf n else Some n)"

lemma tail_rscan_memrchr: "tail_rscan le buf n = memrchr le buf n"
  by (induction n) auto

function tail_scan_back :: "char \<Rightarrow> nat \<Rightarrow> string \<Rightarrow> nat \<Rightarrow> nat + nat" where
  "tail_scan_back le n_lines buf n =
     (if n = 0 then Inr n_lines
      else (case tail_rscan le buf n of
          None \<Rightarrow> Inr n_lines
        | Some i \<Rightarrow> if n_lines = 0 then Inl i else tail_scan_back le (n_lines - 1) buf i))"
  by pat_completeness auto
termination
  by (relation "measure (\<lambda>(c, l, b, n). n)") (auto simp: tail_rscan_memrchr dest: memrchr_less)

declare tail_scan_back.simps [simp del]

definition tail_err_seek :: "string \<Rightarrow> string \<Rightarrow> (tail_state, bool) prog" where
  "tail_err_seek fn filename =
     thenp (eputs ''%s: %d: seek file %s error: %s'' [fn, filename]) (retp False)"

definition tail_err_read :: "string \<Rightarrow> string \<Rightarrow> (tail_state, bool) prog" where
  "tail_err_read fn filename =
     thenp (eputs ''%s: %d: read file %s error: %s'' [fn, filename]) (retp False)"

text \<open>\<open>lseek(fd, pos, SEEK_SET)\<close> and then \<open>copy_fd(fd, filesize - pos)\<close>.\<close>

definition tail_copy_from :: "string \<Rightarrow> string \<Rightarrow> int \<Rightarrow> int \<Rightarrow> (tail_state, bool) prog" where
  "tail_copy_from fn filename filesize pos =
     bindp (sys_lseek pos) (\<lambda>r.
       if r = None then tail_err_seek fn filename else tail_copy_fd (size_t (filesize - pos)))"

function tail_lines_loop :: "string \<Rightarrow> int \<Rightarrow> nat \<Rightarrow> int \<Rightarrow> string \<Rightarrow> (tail_state, bool) prog" where
  "tail_lines_loop filename filesize n_lines pos buf w =
     (case tail_scan_back (t_line_end w) n_lines buf (length buf) of
        Inl n \<Rightarrow> tail_copy_from ''tail_lines'' filename filesize (pos + int n + 1) w
      | Inr n_lines' \<Rightarrow>
          if pos = 0 then tail_copy_from ''tail_lines'' filename filesize pos w
          else (case sys_lseek (pos - int BUFSIZ) w of
              Ret None w' \<Rightarrow> tail_err_seek ''tail_lines'' filename w'
            | Ret (Some _) w' \<Rightarrow>
                (case sys_read BUFSIZ w' of
                   Ret None w'' \<Rightarrow> tail_err_read ''tail_lines'' filename w''
                 | Ret (Some buf') w'' \<Rightarrow>
                     if buf' = [] then Exit ABORT_STATUS w''
                     else tail_lines_loop filename filesize n_lines' (pos - int BUFSIZ) buf' w''
                 | Exit k w'' \<Rightarrow> Exit k w'' | Undef \<Rightarrow> Undef)
            | Exit k w' \<Rightarrow> Exit k w' | Undef \<Rightarrow> Undef))"
  by pat_completeness auto
termination
proof -
  have pos: "0 < int BUFSIZ" by simp
  show ?thesis
    by (relation "measure (\<lambda>(f, s, l, p, b, w). nat p)")
      (use pos in \<open>auto dest!: sys_lseek_nonneg\<close>)
qed

declare tail_lines_loop.simps [simp del]

text \<open>
  \<open>filesize\<close> is an \<open>int\<close> here; its remainder is negative when the size does not fit, and a
  read of a negative number of bytes runs over the buffer.
\<close>

definition tail_lines :: "string \<Rightarrow> int \<Rightarrow> (tail_state, bool) prog" where
  "tail_lines filename filesize =
     bindp (getsp (\<lambda>w. size_t (t_num w))) (\<lambda>n_lines.
       if filesize = 0 \<or> n_lines = 0 then retp True
       else let r = filesize smod int BUFSIZ;
                bytes_read = (if r = 0 then int BUFSIZ else r);
                pos = filesize - bytes_read in
         bindp (sys_lseek pos) (\<lambda>s.
           if s = None then tail_err_seek ''tail_lines'' filename
           else if bytes_read < 0 then undefp
           else bindp (sys_read (nat bytes_read)) (\<lambda>b. case b of
               None \<Rightarrow> tail_err_read ''tail_lines'' filename
             | Some buf \<Rightarrow>
                 if buf = [] then undefp
                 else tail_lines_loop filename filesize
                        (if last buf \<noteq> NL then n_lines - 1 else n_lines) pos buf)))"

section \<open>The last bytes\<close>

definition tail_bytes :: "string \<Rightarrow> nat \<Rightarrow> (tail_state, bool) prog" where
  "tail_bytes filename filesize =
     bindp (getsp t_num) (\<lambda>num.
     let p = int32 (int filesize - num); pos = (if p < 0 then 0 else p) in
       bindp (sys_lseek pos) (\<lambda>s.
         if s = None
         then thenp (eputs ''%s: %d: fstat file %s error: %s'' [''tail_bytes'', filename]) (retp False)
         else tail_copy_fd (size_t num)))"

section \<open>From a line or byte on\<close>

text \<open>
  \<open>memchr\<close> over the buffer from a pointer on; a cell is None while nothing was read into it.
  The result is None when the search leaves the buffer or meets such a cell, otherwise the
  index found, if any.
\<close>

fun memchr :: "char \<Rightarrow> char option list \<Rightarrow> nat \<Rightarrow> nat option option" where
  "memchr c xs 0 = Some None"
| "memchr c [] (Suc n) = None"
| "memchr c (None # xs) (Suc n) = None"
| "memchr c (Some x # xs) (Suc n) =
     (if x = c then Some (Some 0) else map_option (map_option Suc) (memchr c xs n))"

lemma memchr_less: "memchr c xs n = Some (Some i) \<Longrightarrow> i < length xs"
  by (induction c xs n arbitrary: i rule: memchr.induct) (auto split: if_splits)

text \<open>
  The inner loop of \<open>elide_head_lines\<close>: \<open>ptr\<close> is the offset in the buffer, \<open>n\<close> the bytes it
  believes are left. \<open>Inl step\<close>: the last line to skip ended at \<open>step\<close>; \<open>Inr n_lines\<close>: the
  buffer is used up. None is undefined behaviour.
\<close>

function tail_scan_forward ::
    "char \<Rightarrow> char option list \<Rightarrow> nat \<Rightarrow> nat \<Rightarrow> nat \<Rightarrow> (nat + nat) option" where
  "tail_scan_forward le buf n_lines ptr n =
     (if n = 0 then Some (Inr n_lines)
      else (case memchr le (drop ptr buf) n of
          None \<Rightarrow> None
        | Some None \<Rightarrow> Some (Inr n_lines)
        | Some (Some i) \<Rightarrow>
            let step = ptr + i + 1 in
            if n_lines - 1 = 0 then Some (Inl step)
            else tail_scan_forward le buf (n_lines - 1) step (size_t (int n - int step))))"
  by pat_completeness auto
termination
  by (relation "measure (\<lambda>(c, b, l, p, n). length b - p)") (auto dest!: memchr_less)

declare tail_scan_forward.simps [simp del]

definition fill_buf :: "string \<Rightarrow> char option list \<Rightarrow> char option list" where
  "fill_buf bs buf = map Some bs @ drop (length bs) buf"

text \<open>
  \<open>pos\<close> is an \<open>int\<close> in the source: the model ends in \<open>Undef\<close> where it would overflow (the
  program is meant for files below 2 GiB).
\<close>

function tail_elide_loop ::
    "string \<Rightarrow> nat \<Rightarrow> nat \<Rightarrow> nat \<Rightarrow> nat \<Rightarrow> char option list \<Rightarrow> (tail_state, bool) prog" where
  "tail_elide_loop filename filesize n_lines pos bytes_read buf w =
     (case tail_scan_forward (t_line_end w) buf n_lines 0 bytes_read of
        None \<Rightarrow> Undef
      | Some (Inl step) \<Rightarrow>
          tail_copy_from ''elide_head_lines'' filename (int filesize) (int (pos + step)) w
      | Some (Inr n_lines') \<Rightarrow>
          if 2 ^ 31 \<le> pos + bytes_read then Undef
          else let pos' = min (pos + bytes_read) filesize in
            if pos' = filesize then Ret True w
            else (case sys_lseek (int pos') w of
                Ret None w' \<Rightarrow> tail_err_seek ''elide_head_lines'' filename w'
              | Ret (Some _) w' \<Rightarrow>
                  (case sys_read BUFSIZ w' of
                     Ret None w'' \<Rightarrow> tail_err_read ''elide_head_lines'' filename w''
                   | Ret (Some bs) w'' \<Rightarrow>
                       if bs = [] then Exit ABORT_STATUS w''
                       else tail_elide_loop filename filesize n_lines' pos' (length bs)
                              (fill_buf bs buf) w''
                   | Exit k w'' \<Rightarrow> Exit k w'' | Undef \<Rightarrow> Undef)
              | Exit k w' \<Rightarrow> Exit k w' | Undef \<Rightarrow> Undef))"
  by pat_completeness auto
termination
  by (relation "measure (\<lambda>(f, s, l, p, r, b, w). 2 * (s - p) + (if r = 0 then 1 else 0))")
    (auto simp: min_def split: if_splits)

declare tail_elide_loop.simps [simp del]

definition tail_elide_head_lines :: "string \<Rightarrow> nat \<Rightarrow> (tail_state, bool) prog" where
  "tail_elide_head_lines filename filesize =
     bindp (getsp (\<lambda>w. size_t (t_num w))) (\<lambda>num.
       if filesize = 0 \<or> num = 0 then retp True
       else let n_lines = num - 1 in
         bindp (sys_lseek 0) (\<lambda>s.
           if s = None then tail_err_seek ''elide_head_lines'' filename
           else if n_lines = 0 then tail_copy_fd filesize
           else bindp (sys_read BUFSIZ) (\<lambda>b. case b of
               None \<Rightarrow> tail_err_read ''elide_head_lines'' filename
             | Some bs \<Rightarrow> tail_elide_loop filename filesize n_lines 0 (length bs)
                            (fill_buf bs (replicate BUFSIZ None)))))"

definition tail_elide_head_bytes :: "string \<Rightarrow> nat \<Rightarrow> (tail_state, bool) prog" where
  "tail_elide_head_bytes filename filesize =
     bindp (getsp (\<lambda>w. size_t (t_num w))) (\<lambda>num_copy.
     thenp (modifyp (\<lambda>w. w\<lparr>t_num := int32 (int filesize - t_num w + 1)\<rparr>))
     (bindp (tail_bytes filename filesize) (\<lambda>ok.
      thenp (modifyp (\<lambda>w. w\<lparr>t_num := int32 (int num_copy)\<rparr>)) (retp ok))))"

section \<open>The command\<close>

definition tail_cmd :: "string \<Rightarrow> (tail_state, bool) prog" where
  "tail_cmd filename =
     bindp sys_fstat_size (\<lambda>st. case st of
       None \<Rightarrow> thenp (eputs ''%s: %d: fstat file %s error: %s'' [''tail'', filename]) (retp False)
     | Some sz \<Rightarrow>
         bindp (getsp (\<lambda>w. w)) (\<lambda>g.
         thenp (if t_print_header g then tail_write_header filename else retp ())
           (if t_elide_from_begin g
            then if t_cflag g then tail_elide_head_bytes filename sz
                 else tail_elide_head_lines filename sz
            else if t_cflag g then tail_bytes filename sz
                 else tail_lines filename (int32 (int sz)))))"

definition tail_file :: "string \<Rightarrow> (tail_state, bool) prog" where
  "tail_file filename =
     bindp (sys_open filename) (\<lambda>opened.
       if \<not> opened
       then thenp (eputs ''%s: %d: cannot open file %s: %s'' [''tail_file'', filename]) (retp False)
       else bindp (tail_cmd filename) (\<lambda>ok.
            bindp sys_close (\<lambda>closed.
              if \<not> closed
              then thenp (eputs ''%s: %d: cannot close file %s: %s'' [''tail_file'', filename])
                     (retp False)
              else retp ok)))"

definition tail_set_count :: "bool \<Rightarrow> string \<Rightarrow> tail_state \<Rightarrow> tail_state" where
  "tail_set_count bytes arg w =
     (let elide = (arg \<noteq> [] \<and> hd arg = CHR ''+'') in
      w\<lparr>t_cflag := bytes, t_nflag := \<not> bytes, t_elide_from_begin := elide,
        t_num := int32 (int (tail_string_to_integer (if elide then tl arg else arg)))\<rparr>)"

fun tail_options :: "optev list \<Rightarrow> (tail_state, unit) prog" where
  "tail_options [] = retp ()"
| "tail_options (ev # evs) =
     thenp (case ev of
         Opt c arg \<Rightarrow>
           if c = CHR ''c'' then (case arg of None \<Rightarrow> undefp | Some a \<Rightarrow> modifyp (tail_set_count True a))
           else if c = CHR ''f'' then modifyp (\<lambda>w. w\<lparr>t_fflag := True\<rparr>)
           else if c = CHR ''n'' then (case arg of None \<Rightarrow> undefp | Some a \<Rightarrow> modifyp (tail_set_count False a))
           else if c = CHR ''q'' then modifyp (\<lambda>w. w\<lparr>t_qflag := True\<rparr>)
           else if c = CHR ''s'' then modifyp (\<lambda>w. w\<lparr>t_sflag := True\<rparr>)
           else if c = CHR ''v'' then modifyp (\<lambda>w. w\<lparr>t_vflag := True\<rparr>)
           else if c = CHR ''z'' then modifyp (\<lambda>w. w\<lparr>t_line_end := NUL\<rparr>)
           else retp ()
       | OptHelp \<Rightarrow> tail_usage EXIT_SUCCESS
       | OptVersion \<Rightarrow> put (''Written by rda'' @ [NL])
       | _ \<Rightarrow> retp ())
     (tail_options evs)"

definition tail_main :: "optev list \<Rightarrow> string list \<Rightarrow> (tail_state, int) prog" where
  "tail_main opts operands =
     thenp (tail_options opts)
     (thenp (modifyp (\<lambda>w. if t_vflag w \<or> (\<not> t_qflag w \<and> 1 < length operands)
                          then w\<lparr>t_print_header := True\<rparr> else w))
     (bindp (all_ok tail_file True (if operands = [] then [''-''] else operands)) (\<lambda>ok.
       retp (if ok then EXIT_SUCCESS else EXIT_FAILURE))))"

section \<open>The interfaces\<close>

interpretation tail_copier: fd_copier tail_xwrite_stdout tail_copy_fd_from
  "\<lambda>w. w\<lparr>io_err := io_err w @ [Diag ''%s: %d: read file error: %s'' [''copy_fd''] (io_errno w)]\<rparr>"
proof
  fix w :: "'z io_scheme" and s :: string
  assume "no_fail w"
  then show "tail_xwrite_stdout s w =
      (if s = [] then Ret () w else Ret () ((tick w)\<lparr>io_out := io_out w @ s\<rparr>))"
    by (simp add: tail_xwrite_stdout_def prog_simps io_simps)
next
  fix b n and w :: "'z io_scheme"
  show "tail_copy_fd_from b n w = (if n = 0 then Ret True w
      else let b' = (if b > n then n else b) in
        (case sys_read b' w of
           Ret None w' \<Rightarrow> Ret False (w'\<lparr>io_err := io_err w' @
             [Diag ''%s: %d: read file error: %s'' [''copy_fd''] (io_errno w')]\<rparr>)
         | Ret (Some bs) w' \<Rightarrow>
             if bs = [] then Ret True w'
             else (case tail_xwrite_stdout bs w' of
                 Ret _ w'' \<Rightarrow> tail_copy_fd_from b' (n - length bs) w''
               | Exit k w'' \<Rightarrow> Exit k w'' | Undef \<Rightarrow> Undef)
         | Exit k w' \<Rightarrow> Exit k w' | Undef \<Rightarrow> Undef))"
    by (subst tail_copy_fd_from.simps)
      (simp add: Let_def prog_simps eputs_def cong: result.case_cong option.case_cong)
qed

interpretation tail_back: back_scan tail_rscan tail_scan_back
proof
  fix le nl buf n
  show "tail_scan_back le nl buf n = (if n = 0 then Inr nl else
      (case tail_rscan le buf n of
         None \<Rightarrow> Inr nl
       | Some i \<Rightarrow> if nl = 0 then Inl i else tail_scan_back le (nl - 1) buf i))"
    by (subst tail_scan_back.simps) simp
qed (use memrchr_Some memrchr_None in \<open>unfold tail_rscan_memrchr, blast\<close>)+

interpretation tail_digits: digit_reader tail_string_to_integer_from
  by unfold_locales simp_all

lemma tail_copy_fd_prefix:
  assumes "no_fail w" "io_open w"
  shows "\<exists>w'. tail_copy_fd n w = Ret True w' \<and> no_fail w' \<and> same_file w w'
    \<and> io_out w' = io_out w @ avail n w \<and> io_pos w' = io_pos w + length (avail n w)
    \<and> (all_full w \<longrightarrow> all_full w')"
  using tail_copier.copy_prefix [OF assms BUFSIZ_pos(1)] by (simp add: tail_copy_fd_def)

lemma tail_copy_from_ok:
  assumes "no_fail w" "io_open w" "io_seek w" "p \<le> length (io_data w)" "length (io_data w) < 2 ^ 31"
  shows "\<exists>w'. tail_copy_from fn f (int (length (io_data w))) (int p) w = Ret True w'
    \<and> same_file w w' \<and> no_fail w' \<and> io_out w' = io_out w @ drop p (io_data w)
    \<and> (all_full w \<longrightarrow> all_full w')"
proof -
  define w1 where "w1 = (tick w)\<lparr>io_pos := p\<rparr>"
  have w1: "no_fail w1" "io_open w1" "io_data w1 = io_data w" "io_pos w1 = p" "io_out w1 = io_out w"
    "same_file w w1" "all_full w \<Longrightarrow> all_full w1"
    using assms by (simp_all add: w1_def same_file_def)
  have "size_t (int (length (io_data w)) - int p) = length (io_data w) - p"
    using assms(4,5) by (simp add: size_t_id nat_diff_distrib)
  moreover have "avail (length (io_data w) - p) w1 = drop p (io_data w)"
    by (simp add: avail_def w1)
  ultimately show ?thesis
    using tail_copy_fd_prefix [OF w1(1,2), of "length (io_data w) - p"] w1 assms
      same_file_trans [OF w1(6)]
    by (auto simp: tail_copy_from_def bindp_unfold io_simps w1_def [symmetric])
qed

lemma tail_same_file_line_end: "same_file w w' \<Longrightarrow> t_line_end w' = t_line_end w"
  by (cases w; cases w') (simp add: same_file_def)

section \<open>The last lines\<close>

lemma tail_lines_loop_correct:
  assumes w: "all_full w" "io_open w" "io_seek w" "io_data w = xs" "t_line_end w = le"
    and m: "0 < m" and len: "length xs < 2 ^ 31"
    and pos: "p + length buf \<le> length xs" "p mod BUFSIZ = 0" "buf = take (length buf) (drop p xs)"
    and cnt: "nl + count_list (drop (p + length buf) xs) le = ended_lines le m xs"
  shows "\<exists>w'. tail_lines_loop filename (int (length xs)) nl (int p) buf w = Ret True w'
    \<and> io_out w' = io_out w @ last_lines le m xs \<and> same_file w w' \<and> all_full w'"
  using w pos cnt
proof (induction p arbitrary: w buf nl rule: less_induct)
  case (less p)
  note prems = less.prems
  have whole: "drop p xs = buf @ drop (p + length buf) xs"
    using prems(8) by (metis append_take_drop_id drop_drop add.commute)
  show ?case
  proof (cases "tail_scan_back le nl buf (length buf)")
    case (Inl i)
    then have hit: "i < length buf" "buf ! i = le" "count_list (drop (Suc i) buf) le = nl"
      using tail_back.scan_Inl [of "length buf" buf le nl i] by auto
    have at: "p + i < length xs" "xs ! (p + i) = le"
      using hit(1,2) prems(6) whole
      by (simp_all add: nth_append flip: nth_drop)
    have "drop (Suc (p + i)) xs = drop (Suc i) (drop p xs)"
      by (simp add: add.commute)
    also have "\<dots> = drop (Suc i) buf @ drop (p + length buf) xs"
      using hit(1) by (subst whole) simp
    finally have "count_list (drop (Suc (p + i)) xs) le = ended_lines le m xs"
      using hit(3) prems(9) by simp
    then have cut: "drop (Suc (p + i)) xs = last_lines le m xs"
      using cut_lines [OF at m] by simp
    have "tail_lines_loop filename (int (length xs)) nl (int p) buf w =
        tail_copy_from ''tail_lines'' filename (int (length xs)) (int (Suc (p + i))) w"
      using Inl by (subst tail_lines_loop.simps) (simp add: prems(5) add.commute)
    then show ?thesis
      using tail_copy_from_ok [of w "Suc (p + i)" "''tail_lines''" filename] cut prems(1-4) at(1) len
      by (auto simp: all_full_no_fail simp del: of_nat_Suc)
  next
    case (Inr z)
    then have "z + count_list buf le = nl"
      using tail_back.scan_Inr [of "length buf" buf le nl z] by auto
    then have cnt': "z + count_list (drop p xs) le = ended_lines le m xs"
      using prems(9) whole by simp
    show ?thesis
    proof (cases "p = 0")
      case True
      then have "last_lines le m xs = xs"
        using cnt' m by (intro last_lines_all few_lines) simp_all
      then show ?thesis
        using Inr True tail_copy_from_ok [of w 0 "''tail_lines''" filename] prems(1-4) len
        by (subst tail_lines_loop.simps) (auto simp: prems(5) all_full_no_fail)
    next
      case False
      then have ge: "BUFSIZ \<le> p"
        using prems(7) by (metis mod_less not_le)
      define p' where "p' = p - BUFSIZ"
      have p': "p' < p" "p' + BUFSIZ = p" "p' mod BUFSIZ = 0" "int p - int BUFSIZ = int p'"
        using ge False prems(7) le_mod_geq [OF ge] by (simp_all add: p'_def)
      define w1 where "w1 = (tick w)\<lparr>io_pos := p'\<rparr>"
      define buf' where "buf' = avail BUFSIZ w1"
      define w2 where "w2 = advance buf' (tick w1)"
      have seek: "sys_lseek (int p') w = Ret (Some p') w1"
        using prems by (simp add: io_simps all_full_no_fail w1_def)
      have read: "sys_read BUFSIZ w1 = Ret (Some buf') w2"
        using prems by (simp add: io_simps buf'_def w2_def w1_def)
      have len': "length buf' = BUFSIZ"
        using p'(2) prems(6) by (simp add: buf'_def length_avail w1_def prems(4))
      have buf': "buf' = take (length buf') (drop p' xs)"
        unfolding len' by (simp add: buf'_def avail_def w1_def prems(4))
      have ne: "buf' \<noteq> []"
        using len' by auto
      have w2: "all_full w2" "io_open w2" "io_seek w2" "io_data w2 = xs" "t_line_end w2 = le"
        using prems tail_same_file_line_end [of w w2]
        by (simp_all add: w2_def w1_def same_file_def)
      obtain w' where w': "tail_lines_loop filename (int (length xs)) z (int p') buf' w2 = Ret True w'"
          "io_out w' = io_out w2 @ last_lines le m xs" "same_file w2 w'" "all_full w'"
        using less.IH [OF p'(1) w2, of buf' z] buf' len' p'(2,3) prems(6) cnt' by auto
      have "tail_lines_loop filename (int (length xs)) nl (int p) buf w = Ret True w'"
        using Inr False w'(1) ne
        by (subst tail_lines_loop.simps) (simp add: prems(5) p'(4) seek read)
      then show ?thesis
        using w'(2,3,4) by (auto simp: w2_def w1_def same_file_def)
    qed
  qed
qed

lemma smod_nat: "int n smod int b = int (n mod b)"
  by (cases "n = 0") (simp_all add: signed_modulo_int_def zmod_int)

lemma tail_lines_ok:
  assumes w: "all_full w" "io_open w" "io_seek w" "t_line_end w = NL" "t_num w = int n"
    and len: "length (io_data w) < 2 ^ 31" and n: "n < 2 ^ 31"
  shows "\<exists>w'. tail_lines filename (int (length (io_data w))) w = Ret True w' \<and> same_file w w'
    \<and> all_full w' \<and> io_out w' = io_out w @ last_lines NL n (io_data w)"
proof (cases "io_data w = [] \<or> n = 0")
  case True
  then show ?thesis
    using w by (auto simp: tail_lines_def bindp_unfold last_lines_def skip_lines_def all_full_no_fail
      size_t_def)
next
  case nonempty: False
  then have False: "io_data w \<noteq> []" and n0: "0 < n"
    by simp_all
  define xs where "xs = io_data w"
  define r where "r = (if length xs mod BUFSIZ = 0 then BUFSIZ else length xs mod BUFSIZ)"
  define p where "p = length xs - r"
  have "BUFSIZ \<le> length xs" if "length xs mod BUFSIZ = 0"
    using that False by (metis xs_def length_0_conv mod_less not_le)
  then have r: "0 < r" "r \<le> length xs"
    by (auto simp: r_def)
  have pm: "p mod BUFSIZ = 0"
    using r(2) by (auto simp: p_def r_def minus_mod_eq_mult_div le_mod_geq [symmetric])
  define w1 where "w1 = (tick w)\<lparr>io_pos := p\<rparr>"
  define buf where "buf = avail r w1"
  define w2 where "w2 = advance buf (tick w1)"
  have buf: "length buf = r" "buf = drop p xs"
    using r(2) by (simp_all add: buf_def w1_def length_avail avail_def p_def xs_def)
  have ne: "buf \<noteq> []" and lst: "last buf = last xs"
    using buf r by (auto simp: p_def)
  have w2: "all_full w2" "io_open w2" "io_seek w2" "io_data w2 = xs" "t_line_end w2 = NL"
    using w tail_same_file_line_end [of w w2] by (simp_all add: w2_def w1_def xs_def same_file_def)
  have seek: "sys_lseek (int p) w = Ret (Some p) w1"
    using w by (simp add: io_simps all_full_no_fail w1_def)
  have read: "sys_read r w1 = Ret (Some buf) w2"
    using w by (simp add: io_simps buf_def w2_def w1_def)
  have br: "(if int (length xs) smod int BUFSIZ = 0 then int BUFSIZ
      else int (length xs) smod int BUFSIZ) = int r"
    by (simp add: smod_nat r_def)
  have sub: "int (length xs) - int r = int p"
    using r(2) by (simp add: p_def)
  obtain w' where w': "tail_lines_loop filename (int (length xs)) (ended_lines NL n xs) (int p) buf w2 = Ret True w'"
      "io_out w' = io_out w2 @ last_lines NL n xs" "same_file w2 w'" "all_full w'"
    using tail_lines_loop_correct [OF w2 n0, of p buf "ended_lines NL n xs" filename] buf r pm len
    by (auto simp: p_def xs_def)
  have nl: "(if last xs \<noteq> NL then n - 1 else n) = ended_lines NL n xs"
    by (simp add: ended_lines_def)
  have "tail_lines filename (int (length xs)) w = Ret True w'"
    using w'(1) n n0 False ne
    by (simp add: tail_lines_def bindp_unfold w(5) size_t_of_nat xs_def [symmetric] br sub Let_def
        seek read lst nl)
  then show ?thesis
    using w'(2,3,4) by (auto simp: xs_def w2_def w1_def same_file_def)
qed

section \<open>From a line on\<close>

lemma memchr_map_Some:
  "memchr c (map Some xs @ ys) (length xs) =
     Some (if c \<in> set xs then Some (length (takeWhile (\<lambda>x. x \<noteq> c) xs)) else None)"
  by (induction xs) auto

lemma memchr_at:
  "n = length xs \<Longrightarrow> memchr c (map Some xs @ ys) n =
     Some (if c \<in> set xs then Some (length (takeWhile (\<lambda>x. x \<noteq> c) xs)) else None)"
  by (simp add: memchr_map_Some)

lemma first_lines_one:
  "le \<in> set xs \<Longrightarrow> first_lines le (Suc 0) xs = takeWhile (\<lambda>x. x \<noteq> le) xs @ [le]"
  by (induction xs) (auto simp: first_lines_Cons)

lemma count_list_takeWhile:
  "le \<in> set xs \<Longrightarrow>
     count_list xs le = Suc (count_list (drop (Suc (length (takeWhile (\<lambda>x. x \<noteq> le) xs))) xs) le)"
  by (induction xs) auto

lemma length_takeWhile_Suc: "le \<in> set xs \<Longrightarrow> length (takeWhile (\<lambda>x. x \<noteq> le) xs) < length xs"
  by (induction xs) auto

lemma count_list_gr_0: "0 < count_list xs c \<longleftrightarrow> c \<in> set xs"
  by (metis count_list_0_iff gr0I less_numeral_extra(3))

lemma first_lines_two:
  assumes "le \<in> set xs"
  shows "first_lines le (Suc n) xs = takeWhile (\<lambda>x. x \<noteq> le) xs @ le #
    first_lines le n (drop (Suc (length (takeWhile (\<lambda>x. x \<noteq> le) xs))) xs)"
  using assms by (induction xs) (auto simp: first_lines_Cons)

text \<open>
  The inner loop finds the first two terminators of a buffer; its third search is misled by
  the count of the bytes left.
\<close>

lemma tail_scan_one:
  assumes "length bs < 2 ^ 64"
  shows "tail_scan_forward le (map Some bs @ ys) 1 0 (length bs) =
    Some (if le \<in> set bs then Inl (length (first_lines le 1 bs)) else Inr 1)"
  by (subst tail_scan_forward.simps) (simp add: memchr_map_Some first_lines_one)

lemma tail_scan_two:
  assumes "length bs < 2 ^ 64"
  shows "tail_scan_forward le (map Some bs @ ys) 2 0 (length bs) =
    Some (if 2 \<le> count_list bs le then Inl (length (first_lines le 2 bs))
          else Inr (2 - count_list bs le))"
proof (cases "le \<in> set bs")
  case False
  then show ?thesis
    by (subst tail_scan_forward.simps) (simp add: memchr_map_Some count_notin)
next
  case True
  define k where "k = Suc (length (takeWhile (\<lambda>x. x \<noteq> le) bs))"
  define cs where "cs = drop k bs"
  have k: "k \<le> length bs"
    using length_takeWhile_Suc [OF True] by (simp add: k_def)
  have cnt: "count_list bs le = Suc (count_list cs le)"
    using count_list_takeWhile [OF True] by (simp add: cs_def k_def)
  have sz: "size_t (int (length bs) - int k) = length cs"
    using k assms by (simp add: size_t_id cs_def nat_diff_distrib)
  have nil: "bs \<noteq> []"
    using True by auto
  have "tail_scan_forward le (map Some bs @ ys) 2 0 (length bs) =
      tail_scan_forward le (map Some bs @ ys) 1 k (length cs)"
    using True nil sz by (subst tail_scan_forward.simps) (simp add: memchr_map_Some k_def)
  also have "\<dots> = Some (if le \<in> set cs then Inl (k + length (first_lines le 1 cs)) else Inr 1)"
  proof -
    have "drop k (map Some bs @ ys) = map Some cs @ ys"
      using k by (simp add: cs_def drop_map)
    then show ?thesis
      by (subst tail_scan_forward.simps) (simp add: memchr_map_Some first_lines_one)
  qed
  also have "le \<in> set cs \<longleftrightarrow> 2 \<le> count_list bs le"
    using cnt by (metis Suc_le_mono count_list_0_iff numeral_2_eq_2 One_nat_def Suc_leI
        not_less_eq_eq gr0I le_zero_eq)
  also have "k + length (first_lines le 1 cs) = length (first_lines le 2 bs)"
    using first_lines_two [OF True, of 1]
    by (simp add: numeral_2_eq_2 cs_def k_def)
  finally show ?thesis
    using cnt by (auto simp: not_le)
qed

lemma tail_scan_le_two:
  assumes "length bs < 2 ^ 64" "k = 1 \<or> k = 2"
  shows "tail_scan_forward le (map Some bs @ ys) k 0 (length bs) =
    Some (if k \<le> count_list bs le then Inl (length (first_lines le k bs))
          else Inr (k - count_list bs le))"
  using assms tail_scan_one [OF assms(1)] tail_scan_two [OF assms(1)]
  by (auto simp: not_le count_list_0_iff Suc_le_eq count_list_gr_0)

lemma tail_elide_loop_correct:
  assumes "no_fail w" "io_open w" "io_seek w" "io_data w = xs" "t_line_end w = le"
    and "length xs < 2 ^ 31" "k = 1 \<or> k = 2" "p < length xs"
    and "bs = take (length bs) (drop p xs)" "bs \<noteq> []"
  shows "\<exists>w'. tail_elide_loop filename (length xs) k p (length bs) (fill_buf bs buf) w = Ret True w'
    \<and> io_out w' = io_out w @ skip_lines le k (drop p xs)"
  using assms
proof (induction "length xs - p" arbitrary: p k bs buf w rule: less_induct)
  case less
  note prems = less.prems
  define rest where "rest = drop (p + length bs) xs"
  have whole: "drop p xs = bs @ rest"
    using prems(9) by (metis append_take_drop_id drop_drop add.commute rest_def)
  have pb: "p + length bs \<le> length xs"
    using arg_cong [OF whole, of length] prems(8) by (simp add: rest_def)
  have scan: "tail_scan_forward le (fill_buf bs buf) k 0 (length bs) =
    Some (if k \<le> count_list bs le then Inl (length (first_lines le k bs))
          else Inr (k - count_list bs le))"
    using tail_scan_le_two [of bs k] prems(6,7) pb by (auto simp: fill_buf_def)
  obtain j where j: "k = Suc j"
    using prems(7) by (cases k) auto
  show ?case
  proof (cases "k \<le> count_list bs le")
    case True
    then have fl: "first_lines le k (drop p xs) = first_lines le k bs"
      by (simp add: whole j first_lines_append_le)
    define s where "s = length (first_lines le k bs)"
    have "s \<le> length bs"
      unfolding s_def by (metis append_eq_conv_conj first_skip_lines nle_le take_all_iff)
    then have "p + s \<le> length xs"
      using pb by simp
    moreover have "skip_lines le k (drop p xs) = drop (p + s) xs"
      by (simp add: skip_lines_drop fl s_def add.commute)
    ultimately show ?thesis
      using tail_copy_from_ok [OF prems(1-3), of "p + s" "''elide_head_lines''" filename] True
        prems(4-6) by (subst tail_elide_loop.simps) (auto simp: scan s_def [symmetric])
  next
    case False
    then have skip: "skip_lines le k (drop p xs) = skip_lines le (k - count_list bs le) rest"
      by (simp add: skip_lines_drop whole j first_lines_append_le)
    show ?thesis
    proof (cases "rest = []")
      case True
      then have "p + length bs = length xs"
        using pb by (simp add: rest_def)
      then show ?thesis
        using False prems(4-6) skip True
        by (subst tail_elide_loop.simps) (simp add: scan skip_lines_def)
    next
      case more: False
      then have p': "p + length bs < length xs"
        by (simp add: rest_def)
      define w1 where "w1 = (tick w)\<lparr>io_pos := p + length bs\<rparr>"
      have w1: "no_fail w1" "io_open w1"
        using prems by (simp_all add: w1_def)
      have seek: "sys_lseek (int (p + length bs)) w = Ret (Some (p + length bs)) w1"
        using prems(1-3) by (simp add: io_simps w1_def del: of_nat_add)
      obtain m where m: "m \<le> BUFSIZ" "0 < m"
          "sys_read BUFSIZ w1 = Ret (Some (avail m w1)) (advance (avail m w1) (tick w1))"
        using sys_read_ok [OF w1, of BUFSIZ] by auto
      define bs' where "bs' = avail m w1"
      define w2 where "w2 = advance bs' (tick w1)"
      have bs': "bs' = take m rest"
        using prems(4) by (simp add: bs'_def avail_def w1_def rest_def)
      then have bs'': "bs' = take (length bs') (drop (p + length bs) xs)" "bs' \<noteq> []"
        using more m(2) by (auto simp: rest_def min_def)
      have w2: "no_fail w2" "io_open w2" "io_seek w2" "io_data w2 = xs" "t_line_end w2 = le"
        using prems w1 tail_same_file_line_end [of w w2] by (simp_all add: w2_def w1_def same_file_def)
      have k': "k - count_list bs le = 1 \<or> k - count_list bs le = 2"
        using prems(7) False by auto
      have dec: "length xs - (p + length bs) < length xs - p"
        using prems(8,10) by (simp add: diff_less_mono2)
      obtain w' where w': "tail_elide_loop filename (length xs) (k - count_list bs le)
            (p + length bs) (length bs') (fill_buf bs' (fill_buf bs buf)) w2 = Ret True w'"
          "io_out w' = io_out w2 @ skip_lines le (k - count_list bs le) rest"
        using less.hyps [OF dec w2 prems(6) k' p' bs'', of "fill_buf bs buf"]
        by (auto simp: rest_def)
      have "tail_elide_loop filename (length xs) k p (length bs) (fill_buf bs buf) w = Ret True w'"
        using False prems(5,6) p' bs''(2) w'(1) seek m(3)
        by (subst tail_elide_loop.simps)
          (simp add: scan bs'_def [symmetric] w2_def [symmetric] min_def del: of_nat_add)
      then show ?thesis
        using w'(2) skip by (simp add: w2_def w1_def)
    qed
  qed
qed

section \<open>Whole runs\<close>

definition tail_opts :: "tail_state \<Rightarrow> bool \<times> bool \<times> int \<times> bool \<times> char" where
  "tail_opts w = (t_cflag w, t_elide_from_begin w, t_num w, t_print_header w, t_line_end w)"

lemma tail_same_file_opts:
  "same_file w w' \<Longrightarrow> tail_opts w' = tail_opts w \<and> t_first_line w' = t_first_line w"
  by (cases w; cases w') (simp add: same_file_def tail_opts_def)

lemma tail_opened_opts:
  "tail_opts (opened d w) = tail_opts w \<and> t_first_line (opened d w) = t_first_line w"
  by (cases w) (simp add: opened_def park_def tick_def tail_opts_def)

lemma tail_tick_opts [simp]:
  "tail_opts (tick w) = tail_opts w" "t_first_line (tick w) = t_first_line w"
  by (cases w; simp add: tick_def tail_opts_def)+

lemma tail_file_wrap:
  assumes w: "no_fail w" "io_files w f = Some d"
    and cmd: "tail_cmd f (opened d w) = Ret ok w1" "no_fail w1" "io_open w1" "\<not> io_tty w1"
  shows "tail_file f w = Ret ok ((tick w1)\<lparr>io_open := False\<rparr>)"
  using assms by (simp add: tail_file_def prog_simps io_simps)

text \<open>What the command does once the file is open: the header, and then the part asked for.\<close>

lemma tail_cmd_part:
  assumes w: "all_full w" "io_open w" "io_seek w" "io_data w = d"
    and opts: "tail_opts w = (cf, el, num, hs, le)"
    and part: "\<And>v. all_full v \<Longrightarrow> io_open v \<Longrightarrow> io_seek v \<Longrightarrow> io_data v = d \<Longrightarrow>
        tail_opts v = tail_opts w \<Longrightarrow>
        \<exists>v'. (if el then if cf then tail_elide_head_bytes f (length d) else tail_elide_head_lines f (length d)
              else if cf then tail_bytes f (length d) else tail_lines f (int32 (int (length d)))) v = Ret True v'
          \<and> same_file v v' \<and> all_full v' \<and> io_out v' = io_out v @ out"
  shows "\<exists>w'. tail_cmd f w = Ret True w' \<and> all_full w' \<and> tail_opts w' = tail_opts w
    \<and> t_first_line w' = (t_first_line w \<and> \<not> hs) \<and> io_open w' = io_open w \<and> io_tty w' = io_tty w
    \<and> io_files w' = io_files w
    \<and> io_out w' = io_out w @ (if hs then (if t_first_line w then [] else [NL]) @ header_line f else []) @ out"
proof -
  define hd where "hd = (if hs then (if t_first_line w then [] else [NL]) @ header_line f else [])"
  define w1 where "w1 = (if hs then (tick w)\<lparr>io_out := io_out w @ hd, t_first_line := False\<rparr> else tick w)"
  have fl: "t_first_line (tick w) = t_first_line w"
    by simp
  have w1: "all_full w1" "io_open w1" "io_seek w1" "io_data w1 = d" "tail_opts w1 = tail_opts w"
    "io_out w1 = io_out w @ hd" "t_first_line w1 = (t_first_line w \<and> \<not> hs)"
    "io_tty w1 = io_tty w" "io_files w1 = io_files w"
    using w opts tail_tick_opts [of w] all_full_tick [of w]
    by (auto simp: w1_def tail_opts_def hd_def all_full_def)
  obtain w2 where w2: "(if el then if cf then tail_elide_head_bytes f (length d) else tail_elide_head_lines f (length d)
              else if cf then tail_bytes f (length d) else tail_lines f (int32 (int (length d)))) w1 = Ret True w2"
      "same_file w1 w2" "all_full w2" "io_out w2 = io_out w1 @ out"
    using part [OF w1(1-5)] by blast
  have "t_print_header (tick w) = hs" "t_elide_from_begin (tick w) = el" "t_cflag (tick w) = cf"
    using opts tail_tick_opts [of w] by (simp_all add: tail_opts_def)
  then have "tail_cmd f w = Ret True w2"
    using w w2(1) opts
    by (auto simp: tail_cmd_def prog_simps io_simps all_full_no_fail tail_write_header_def put_def
        header_line_def w1_def hd_def tick_def)
  then show ?thesis
    using w1 w2(2-) tail_same_file_opts [OF w2(2)] w(2)
    by (auto simp: hd_def same_file_def)
qed

lemma tail_file_lines:
  assumes w: "all_full w" "io_files w f = Some d" "length d < 2 ^ 31" "n < 2 ^ 31"
    and opts: "tail_opts w = (False, False, int n, hs, NL)"
  shows "\<exists>w'. tail_file f w = Ret True w' \<and> all_full w' \<and> io_files w' = io_files w
    \<and> tail_opts w' = tail_opts w \<and> t_first_line w' = (t_first_line w \<and> \<not> hs)
    \<and> io_out w' = io_out w
        @ (if hs then (if t_first_line w then [] else [NL]) @ header_line f else [])
        @ last_lines NL n d"
proof -
  have o0: "tail_opts (opened d w) = (False, False, int n, hs, NL)"
      "t_first_line (opened d w) = t_first_line w"
    using tail_opened_opts [of d w] opts by simp_all
  have part: "\<exists>v'. (if False then if False then tail_elide_head_bytes f (length d)
          else tail_elide_head_lines f (length d)
        else if False then tail_bytes f (length d) else tail_lines f (int32 (int (length d)))) v = Ret True v'
      \<and> same_file v v' \<and> all_full v' \<and> io_out v' = io_out v @ last_lines NL n d"
    if "all_full v" "io_open v" "io_seek v" "io_data v = d" "tail_opts v = tail_opts (opened d w)" for v
    using tail_lines_ok [of v n f] that o0 w(3,4) by (simp add: tail_opts_def int32_of_nat)
  have "all_full (opened d w)"
    using w(1) by simp
  note ex = tail_cmd_part [OF this opened_fields(3,4,1) o0(1), where f = f and out = "last_lines NL n d",
      OF part]
  obtain w1 where "tail_cmd f (opened d w) = Ret True w1 \<and> all_full w1
      \<and> tail_opts w1 = tail_opts (opened d w)
      \<and> t_first_line w1 = (t_first_line (opened d w) \<and> \<not> hs)
      \<and> io_open w1 = io_open (opened d w) \<and> io_tty w1 = io_tty (opened d w)
      \<and> io_files w1 = io_files (opened d w)
      \<and> io_out w1 = io_out (opened d w)
        @ (if hs then (if t_first_line (opened d w) then [] else [NL]) @ header_line f else [])
        @ last_lines NL n d"
    using ex by blast
  then have w1: "tail_cmd f (opened d w) = Ret True w1" "all_full w1"
      "tail_opts w1 = tail_opts (opened d w)" "t_first_line w1 = (t_first_line w \<and> \<not> hs)"
      "io_open w1" "\<not> io_tty w1" "io_files w1 = io_files w"
      "io_out w1 = io_out w @ (if hs then (if t_first_line w then [] else [NL]) @ header_line f else [])
        @ last_lines NL n d"
    by (simp_all add: o0(2))
  have "tail_file f w = Ret True ((tick w1)\<lparr>io_open := False\<rparr>)"
    using tail_file_wrap [OF all_full_no_fail [OF w(1)] w(2) w1(1) all_full_no_fail [OF w1(2)] w1(5,6)] .
  moreover have "all_full ((tick w1)\<lparr>io_open := False\<rparr>)"
    using all_full_tick [OF w1(2)] by (simp add: all_full_def)
  moreover have "tail_opts ((tick w1)\<lparr>io_open := False\<rparr>) = tail_opts w"
    "t_first_line ((tick w1)\<lparr>io_open := False\<rparr>) = (t_first_line w \<and> \<not> hs)"
    using w1(3,4) o0(1) opts tail_tick_opts [of w1] by (auto simp: tail_opts_def)
  ultimately show ?thesis
    using w1(7,8) by auto
qed

lemma tail_files_lines:
  assumes "all_full w" "n < 2 ^ 31"
    and "\<forall>f \<in> set fs. io_files w f = Some (contents f) \<and> length (contents f) < 2 ^ 31"
    and "tail_opts w = (False, False, int n, hs, NL)"
  shows "\<exists>w'. all_ok tail_file True fs w = Ret True w'
    \<and> io_out w' = io_out w @ file_report (\<lambda>f. last_lines NL n (contents f)) hs (t_first_line w) fs"
  using assms
proof (induction fs arbitrary: w)
  case Nil
  then show ?case by simp
next
  case (Cons f fs)
  obtain w1 where w1: "tail_file f w = Ret True w1" "all_full w1" "io_files w1 = io_files w"
      "tail_opts w1 = tail_opts w" "t_first_line w1 = (t_first_line w \<and> \<not> hs)"
      "io_out w1 = io_out w
        @ (if hs then (if t_first_line w then [] else [NL]) @ header_line f else [])
        @ last_lines NL n (contents f)"
    using tail_file_lines [of w f "contents f" n hs] Cons.prems by auto
  obtain w' where "all_ok tail_file True fs w1 = Ret True w'"
      "io_out w' = io_out w1 @ file_report (\<lambda>f. last_lines NL n (contents f)) hs (t_first_line w1) fs"
    using Cons.IH [of w1] Cons.prems w1 by auto
  then show ?case
    using w1 by auto
qed

section \<open>Properties\<close>

text \<open>
  C29: a run of tail -n N, with N below 2^31, over one or more named files that can all be read, none of them called -, each shorter than 2^31
  bytes, prints, for each file in order, its header (when there are several files) and its last N lines, and exits 0. Every system call does in full what it is asked for.
\<close>

theorem tail_main_lines:
  assumes "all_full w" "fs \<noteq> []" "n < 2 ^ 31"
    and "\<forall>f \<in> set fs. f \<noteq> ''-'' \<and> io_files w f = Some (contents f) \<and> length (contents f) < 2 ^ 31"
  shows "\<exists>w'. tail_main [Opt (CHR ''n'') (Some (dec n))] fs (tail_start w) = Ret EXIT_SUCCESS w'
    \<and> io_out w' = io_out w
        @ file_report (\<lambda>f. last_lines NL n (contents f)) (1 < length fs) True fs"
proof -
  have hd: "hd (dec n) \<noteq> CHR ''+''"
    using dec_digits [of n] by (cases "dec n") (auto simp: is_digit_def)
  define w1 where "w1 = (tail_start w)\<lparr>t_nflag := True, t_num := int n, t_print_header := 1 < length fs\<rparr>"
  have num: "int32 (int (tail_string_to_integer (dec n))) = int n"
    using assms(3) by (simp add: tail_string_to_integer_def tail_digits.rd_dec int32_of_nat)
  have "all_full w1" "tail_opts w1 = (False, False, int n, 1 < length fs, NL)" "t_first_line w1"
    "io_files w1 = io_files w" "io_out w1 = io_out w"
    using assms(1) by (simp_all add: w1_def tail_start_def all_full_def io.defs tail_opts_def)
  then obtain w' where w': "all_ok tail_file True fs w1 = Ret True w'"
      "io_out w' = io_out w @ file_report (\<lambda>f. last_lines NL n (contents f)) (1 < length fs) True fs"
    using tail_files_lines [of w1 n fs contents "1 < length fs"] assms(3,4) by auto
  have "tail_main [Opt (CHR ''n'') (Some (dec n))] fs (tail_start w) = Ret EXIT_SUCCESS w'"
    using w'(1) assms(2) hd
    by (cases "1 < length fs")
      (simp_all add: tail_main_def prog_simps tail_set_count_def num tail_start_def io.defs w1_def)
  then show ?thesis
    using w'(2) by blast
qed

text \<open>
  Without -n or -c tail prints nothing of its file: the count starts as 0, where the
  usage text promises the last 10 lines.
\<close>

theorem tail_default_empty:
  assumes "all_full w" "io_files w f = Some d" "length d < 2 ^ 31"
  shows "\<exists>w'. tail_main [] [f] (tail_start w) = Ret EXIT_SUCCESS w' \<and> io_out w' = io_out w"
proof -
  have "all_full (tail_start w)" "tail_opts (tail_start w) = (False, False, int 0, False, NL)"
    "io_files (tail_start w) = io_files w" "io_out (tail_start w) = io_out w"
    "\<not> t_vflag (tail_start w)"
    using assms(1) by (simp_all add: tail_start_def all_full_def io.defs tail_opts_def)
  moreover have "last_lines NL 0 d = []"
    by (simp add: last_lines_def skip_lines_def)
  ultimately show ?thesis
    using tail_file_lines [of "tail_start w" f d 0 False] assms
    by (auto simp: tail_main_def prog_simps)
qed

text \<open>
  Tail -c N prints the last N bytes of a file, all of it when it is shorter, however the
  reads are cut short.
\<close>

theorem tail_bytes_correct:
  assumes "no_fail w" "io_open w" "io_seek w" "length (io_data w) < 2 ^ 31"
    and "t_num w = int n" "n < 2 ^ 31"
  shows "\<exists>w'. tail_bytes filename (length (io_data w)) w = Ret True w'
    \<and> io_out w' = io_out w @ drop (length (io_data w) - n) (io_data w)"
proof -
  define p where "p = length (io_data w) - n"
  define w1 where "w1 = (tick w)\<lparr>io_pos := p\<rparr>"
  have w1: "no_fail w1" "io_open w1"
    using assms by (simp_all add: w1_def)
  have "int32 (int (length (io_data w)) - int n) = int (length (io_data w)) - int n"
    using assms(4,6) by (intro int32_id) simp_all
  then have pos: "(if int32 (int (length (io_data w)) - int n) < 0 then 0
      else int32 (int (length (io_data w)) - int n)) = int p"
    by (simp add: p_def of_nat_diff)
  have "size_t (int n) = n"
    using assms(6) by (simp add: size_t_of_nat)
  moreover have "avail n w1 = drop p (io_data w)"
    by (simp add: avail_def w1_def p_def)
  moreover have "tail_bytes filename (length (io_data w)) w = tail_copy_fd (size_t (int n)) w1"
    using assms(1-3,5) by (simp add: tail_bytes_def prog_simps Let_def pos io_simps w1_def)
  ultimately show ?thesis
    using tail_copy_fd_prefix [OF w1, of n] by (auto simp: w1_def p_def)
qed

text \<open>
  Tail -c +N prints the file from its N-th byte on, also past its end, where the count
  it derives is negative.
\<close>

theorem tail_elide_bytes_correct:
  assumes "no_fail w" "io_open w" "io_seek w" "length (io_data w) < 2 ^ 31"
    and "t_num w = int n" "0 < n" "n < 2 ^ 31"
  shows "\<exists>w'. tail_elide_head_bytes filename (length (io_data w)) w = Ret True w'
    \<and> io_out w' = io_out w @ drop (n - 1) (io_data w) \<and> t_num w' = int n"
proof -
  obtain m where m: "n = Suc m"
    using assms(6) by (cases n) auto
  define k where "k = int (length (io_data w)) - int n + 1"
  define w1 where "w1 = (tick (w\<lparr>t_num := k\<rparr>))\<lparr>io_pos := m\<rparr>"
  have sz: "size_t (int n) = n"
    using assms(7) by (simp add: size_t_of_nat)
  have k: "int32 k = k" "int (length (io_data w)) - k = int m"
    using assms(4,6,7) by (auto simp: k_def m intro!: int32_id)
  have pos: "int32 (int (length (io_data w)) - k) = int m"
    unfolding k(2) by (rule int32_id) (use assms(7) m in simp_all)
  have w1: "no_fail w1" "io_open w1" "io_data w1 = io_data w" "io_pos w1 = m" "io_out w1 = io_out w"
    using no_fail_tick [OF assms(1)] assms(2) by (simp_all add: w1_def tick_def no_fail_def)
  have seek: "sys_lseek (int m) (w\<lparr>t_num := k\<rparr>) = Ret (Some (m)) w1"
    using assms(1-3) by (simp add: io_simps w1_def no_fail_def)
  have part: "avail (size_t k) w1 = drop (m) (io_data w)"
  proof (cases "0 \<le> k")
    case True
    then have "size_t k = length (io_data w) - (m)"
      using assms(4,6) by (simp add: size_t_id k_def m nat_diff_distrib)
    then show ?thesis
      by (simp add: avail_def w1)
  next
    case False
    then show ?thesis
      by (simp add: avail_def w1 k_def m)
  qed
  obtain w2 where w2: "tail_copy_fd (size_t k) w1 = Ret True w2"
      "io_out w2 = io_out w @ drop (m) (io_data w)"
    using tail_copy_fd_prefix [OF w1(1,2), of "size_t k"] part w1(5) by auto
  have "tail_bytes filename (length (io_data w)) (w\<lparr>t_num := k\<rparr>) = Ret True w2"
    using w2(1) by (simp add: tail_bytes_def prog_simps Let_def pos seek)
  then have "tail_elide_head_bytes filename (length (io_data w)) w = Ret True (w2\<lparr>t_num := int n\<rparr>)"
    using assms(5,7) k(1) sz
    by (simp add: tail_elide_head_bytes_def prog_simps k_def [symmetric] int32_of_nat)
  then show ?thesis
    using w2(2) by (simp add: m)
qed

text \<open>
  For N up to 3, tail -n +N prints the file from its N-th line on, however the reads are
  cut short.
\<close>

theorem tail_elide_lines_correct:
  assumes "no_fail w" "io_open w" "io_seek w" "length (io_data w) < 2 ^ 31"
    and "t_num w = int (Suc k)" "k \<le> 2"
  shows "\<exists>w'. tail_elide_head_lines filename (length (io_data w)) w = Ret True w'
    \<and> io_out w' = io_out w @ skip_lines (t_line_end w) k (io_data w)"
proof -
  define w1 where "w1 = (tick w)\<lparr>io_pos := 0\<rparr>"
  have w1: "no_fail w1" "io_open w1" "io_seek w1" "io_data w1 = io_data w" "io_out w1 = io_out w"
      "same_file w w1"
    using assms by (simp_all add: w1_def same_file_def)
  have seek: "sys_lseek 0 w = Ret (Some 0) w1"
    using assms(1-3) by (simp add: io_simps w1_def)
  have sz: "size_t (int (Suc k)) = Suc k"
    using assms(6) by (intro size_t_of_nat) simp
  consider "io_data w = []" | "io_data w \<noteq> []" "k = 0" | "io_data w \<noteq> []" "k = 1 \<or> k = 2"
    using assms(6) by linarith
  then show ?thesis
  proof cases
    case 1
    then show ?thesis
      by (simp add: tail_elide_head_lines_def prog_simps skip_lines_def)
  next
    case 2
    have "avail (length (io_data w)) w1 = io_data w"
      by (simp add: avail_def w1_def)
    then show ?thesis
      using 2 tail_copy_fd_prefix [OF w1(1,2), of "length (io_data w)"] assms(5) sz w1(5)
      by (auto simp: tail_elide_head_lines_def prog_simps seek skip_lines_def simp del: of_nat_Suc)
  next
    case 3
    obtain m where m: "0 < m"
        "sys_read BUFSIZ w1 = Ret (Some (avail m w1)) (advance (avail m w1) (tick w1))"
      using sys_read_ok [OF w1(1,2), of BUFSIZ] by auto
    define bs where "bs = avail m w1"
    define w2 where "w2 = advance bs (tick w1)"
    have bs: "bs = take (length bs) (drop 0 (io_data w))" "bs \<noteq> []"
      using m(1) 3(1) by (auto simp: bs_def avail_def w1_def min_def)
    have w2: "no_fail w2" "io_open w2" "io_seek w2" "io_data w2 = io_data w" "t_line_end w2 = t_line_end w"
      using w1 tail_same_file_line_end [of w w2] by (simp_all add: w2_def same_file_def)
    obtain w' where "tail_elide_loop filename (length (io_data w)) k 0 (length bs)
          (fill_buf bs (replicate BUFSIZ None)) w2 = Ret True w'"
        "io_out w' = io_out w2 @ skip_lines (t_line_end w) k (io_data w)"
      using tail_elide_loop_correct [OF w2 assms(4) 3(2) _ bs] 3(1) by auto
    moreover have "io_out w2 = io_out w"
      by (simp add: w2_def w1)
    ultimately show ?thesis
      using 3 assms(5) sz m(2)
      by (auto simp: tail_elide_head_lines_def prog_simps seek bs_def [symmetric]
          w2_def [symmetric] simp del: of_nat_Suc)
  qed
qed

text \<open>
  Tail -n +4 prints nothing of a file of four lines when the two middle ones are empty
  and the outer ones equally long: after the second search the count of bytes left is
  reduced by an offset from the start of the buffer, and the third search is skipped.
\<close>

theorem tail_elide_lines_stops:
  assumes "all_full w" "io_open w" "io_seek w" "t_line_end w = le" "t_num w = 4"
    and "le \<notin> set l" "le \<notin> set r" "length r = length l" "2 * length l + 3 \<le> BUFSIZ"
    and "io_data w = l @ [le, le, le] @ r"
  shows "\<exists>w'. tail_elide_head_lines filename (length (io_data w)) w = Ret True w'
    \<and> io_out w' = io_out w \<and> skip_lines le 3 (io_data w) = r"
proof -
  define bs where "bs = io_data w"
  define w1 where "w1 = (tick w)\<lparr>io_pos := 0\<rparr>"
  define w2 where "w2 = advance bs (tick w1)"
  have len: "length bs = 2 * length l + 3"
    using assms(8,10) by (simp add: bs_def)
  have tw: "takeWhile (\<lambda>x. x \<noteq> le) bs = l"
    using assms(6,10) by (simp add: bs_def takeWhile_append)
  have seek: "sys_lseek 0 w = Ret (Some 0) w1"
    using assms(1-3) by (simp add: io_simps w1_def all_full_no_fail)
  have "avail BUFSIZ w1 = bs"
    using len assms(9) by (simp add: avail_def w1_def bs_def)
  then have read: "sys_read BUFSIZ w1 = Ret (Some bs) w2"
    using assms(1,2) by (simp add: io_simps w1_def w2_def)
  have "t_line_end w2 = le"
    using tail_same_file_line_end [of w w2] assms(4) by (simp add: w2_def w1_def same_file_def)
  have sz: "size_t (int (length bs) - int (Suc (length l))) = length l + 2"
      "size_t (int (length l + 2) - int (length l + 2)) = 0"
    using len assms(9) by (simp_all add: size_t_def BUFSIZ_def)
  have mem: "le \<in> set bs"
    by (simp add: bs_def assms(10))
  have one: "tail_scan_forward le (map Some bs @ ys) 3 0 (length bs) =
      tail_scan_forward le (map Some bs @ ys) 2 (Suc (length l)) (length l + 2)" for ys
    using mem sz(1) len by (subst tail_scan_forward.simps)
      (auto simp: memchr_at tw Let_def simp del: of_nat_Suc)
  have two: "tail_scan_forward le (map Some bs @ ys) 2 (Suc (length l)) (length l + 2) =
      tail_scan_forward le (map Some bs @ ys) 1 (length l + 2) 0" for ys
    using sz(2) by (subst tail_scan_forward.simps)
      (simp add: bs_def assms(10) eval_nat_numeral del: of_nat_Suc)
  have scan: "tail_scan_forward le (fill_buf bs buf) 3 0 (length bs) = Some (Inr 1)" for buf
    unfolding fill_buf_def one two by (subst tail_scan_forward.simps) simp
  have small: "length bs < 2 ^ 31"
    using len assms(9) by (simp add: BUFSIZ_def)
  have "tail_elide_head_lines filename (length bs) w =
      tail_elide_loop filename (length bs) 3 0 (length bs) (fill_buf bs (replicate BUFSIZ None)) w2"
    using len assms(5) by (simp add: tail_elide_head_lines_def prog_simps size_t_def seek read)
  also have "\<dots> = Ret True w2"
    using small by (subst tail_elide_loop.simps) (simp add: \<open>t_line_end w2 = le\<close> scan)
  finally have "tail_elide_head_lines filename (length (io_data w)) w = Ret True w2"
    by (simp only: bs_def)
  moreover have "io_out w2 = io_out w"
    by (simp add: w2_def w1_def)
  moreover have "first_lines le 3 (io_data w) = l @ [le, le, le]"
    using assms(6) mem tw first_lines_two [of le bs 2]
    by (simp add: bs_def assms(10) numeral_3_eq_3 numeral_2_eq_2 first_lines_Cons)
  then have "skip_lines le 3 (io_data w) = r"
    by (simp add: skip_lines_drop assms(10))
  ultimately show ?thesis
    by blast
qed

section \<open>Witnesses\<close>

definition tail_example :: "string \<Rightarrow> int \<Rightarrow> tail_state" where
  "tail_example d n = (tail_start empty_io)
     \<lparr>t_num := n, io_data := d, io_open := True, io_seek := True\<rparr>"

lemma tail_example_fields [simp]:
  "no_fail (tail_example d n)" "all_full (tail_example d n)" "io_open (tail_example d n)"
  "io_seek (tail_example d n)" "io_data (tail_example d n) = d" "io_pos (tail_example d n) = 0"
  "io_out (tail_example d n) = []" "t_num (tail_example d n) = n"
  "t_line_end (tail_example d n) = NL"
  by (simp_all add: tail_example_def tail_start_def empty_io_def io.defs no_fail_def all_full_def)

definition two_lines :: string where
  "two_lines = [CHR ''a'', NL, CHR ''b'', NL]"

theorem tail_main_lines_witness:
  "\<exists>w'. tail_main [Opt (CHR ''n'') (Some (dec 1))] [''f'', ''g'']
      (tail_start (empty_io\<lparr>io_files := [''f'' \<mapsto> two_lines, ''g'' \<mapsto> ''x'']\<rparr>)) = Ret EXIT_SUCCESS w'
    \<and> io_out w' = header_line ''f'' @ [CHR ''b'', NL] @ [NL] @ header_line ''g'' @ ''x''"
  using tail_main_lines [of "empty_io\<lparr>io_files := [''f'' \<mapsto> two_lines, ''g'' \<mapsto> ''x'']\<rparr>"
      "[''f'', ''g'']" 1 "\<lambda>f. if f = ''f'' then two_lines else ''x''"]
  by (simp add: empty_io_def all_full_def two_lines_def last_lines_def skip_lines_def NL_def)

theorem tail_default_empty_witness:
  "\<exists>w'. tail_main [] [''f''] (tail_start (empty_io\<lparr>io_files := [''f'' \<mapsto> two_lines]\<rparr>)) = Ret EXIT_SUCCESS w'
     \<and> io_out w' = []"
  using tail_default_empty [of "empty_io\<lparr>io_files := [''f'' \<mapsto> two_lines]\<rparr>" "''f''" two_lines]
  by (simp add: empty_io_def all_full_def two_lines_def)

theorem tail_bytes_correct_witness:
  "\<exists>w'. tail_bytes ''f'' (length ''abcdef'') (tail_example ''abcdef'' 2) = Ret True w' \<and> io_out w' = ''ef''"
  using tail_bytes_correct [of "tail_example ''abcdef'' 2" 2 "''f''"] by auto

theorem tail_elide_bytes_correct_witness:
  "\<exists>w'. tail_elide_head_bytes ''f'' (length ''abcdef'') (tail_example ''abcdef'' 3) = Ret True w' \<and> io_out w' = ''cdef''"
  using tail_elide_bytes_correct [of "tail_example ''abcdef'' 3" 3 "''f''"] by auto

theorem tail_elide_lines_correct_witness:
  "\<exists>w'. tail_elide_head_lines ''f'' (length two_lines) (tail_example two_lines 2) = Ret True w'
     \<and> io_out w' = [CHR ''b'', NL]"
  using tail_elide_lines_correct [of "tail_example two_lines 2" 1 "''f''"]
  by (auto simp: two_lines_def skip_lines_def NL_def)

theorem tail_elide_lines_stops_witness:
  "\<exists>w'. tail_elide_head_lines ''f'' (length [CHR ''a'', CHR ''a'', NL, NL, NL, CHR ''e'', CHR ''e''])
       (tail_example [CHR ''a'', CHR ''a'', NL, NL, NL, CHR ''e'', CHR ''e''] 4)
       = Ret True w' \<and> io_out w' = [] \<and> skip_lines NL 3 [CHR ''a'', CHR ''a'', NL, NL, NL, CHR ''e'', CHR ''e''] = ''ee''"
  using tail_elide_lines_stops [of "tail_example [CHR ''a'', CHR ''a'', NL, NL, NL, CHR ''e'', CHR ''e''] 4" NL
      "''aa''" "''ee''" "''f''"]
  by (simp add: NL_def BUFSIZ_def)

end
