(* ===== verification/Posix_Fs.thy ===== *)
theory Posix_Fs
  imports Posix_Io
begin

text \<open>
  Files as \<open>stat\<close> shows them, for the programs that change modes and owners: a table from
  path names to nodes, the calls on it, and the reading of a directory. As in Posix_Io every
  call may be made to fail by the schedule of the process.
\<close>

unbundle bit_operations_syntax

type_synonym mode_t = "32 word"

record fnode =
  st_mode :: mode_t
  st_uid :: "32 word"
  st_gid :: "32 word"
  n_entries :: "string list"   \<comment> \<open>of a directory: the names in the order \<open>readdir\<close> gives them\<close>

record fs = io +
  fs_nodes :: "string \<Rightarrow> fnode option"

definition ENAMETOOLONG :: int where "ENAMETOOLONG = 36"
definition ENOTDIR :: int where "ENOTDIR = 20"

text \<open>A path name of \<open>PATH_MAX\<close> characters or more (with the final NUL) is refused by the kernel.\<close>

definition PATH_MAX :: nat where "PATH_MAX = 4096"
definition NAME_MAX :: nat where "NAME_MAX = 255"

text \<open>
  The levels that a recursion over directories is given: the name of a child is longer than that
  of its directory.
\<close>

definition DEPTH :: nat where
  "DEPTH = Suc PATH_MAX"

definition S_ISDIR :: "mode_t \<Rightarrow> bool" where
  "S_ISDIR m = (m AND 0xF000 = 0x4000)"

definition sys_stat :: "string \<Rightarrow> ('z fs_scheme, fnode option) prog" where
  "sys_stat path w =
     (if PATH_MAX \<le> length path then Ret None (set_errno ENAMETOOLONG (tick w))
      else (case outcome_of w of
          Fail e \<Rightarrow> Ret None (set_errno e (tick w))
        | _ \<Rightarrow> (case fs_nodes w path of
            None \<Rightarrow> Ret None (set_errno ENOENT (tick w))
          | Some n \<Rightarrow> Ret (Some n) (tick w))))"

definition put_node :: "string \<Rightarrow> fnode \<Rightarrow> 'z fs_scheme \<Rightarrow> 'z fs_scheme" where
  "put_node path n w = w\<lparr>fs_nodes := (fs_nodes w)(path \<mapsto> n)\<rparr>"

text \<open>\<open>chmod\<close> replaces the twelve permission bits and keeps the type of the file.\<close>

definition sys_chmod :: "string \<Rightarrow> mode_t \<Rightarrow> ('z fs_scheme, bool) prog" where
  "sys_chmod path m w =
     (if PATH_MAX \<le> length path then Ret False (set_errno ENAMETOOLONG (tick w))
      else (case outcome_of w of
          Fail e \<Rightarrow> Ret False (set_errno e (tick w))
        | _ \<Rightarrow> (case fs_nodes w path of
            None \<Rightarrow> Ret False (set_errno ENOENT (tick w))
          | Some n \<Rightarrow> Ret True (put_node path
              (n\<lparr>st_mode := (st_mode n AND NOT 0xFFF) OR (m AND 0xFFF)\<rparr>) (tick w)))))"

text \<open>\<open>chown\<close>: an id of -1 leaves that id as it is.\<close>

definition sys_chown :: "string \<Rightarrow> 32 word \<Rightarrow> 32 word \<Rightarrow> ('z fs_scheme, bool) prog" where
  "sys_chown path u g w =
     (if PATH_MAX \<le> length path then Ret False (set_errno ENAMETOOLONG (tick w))
      else (case outcome_of w of
          Fail e \<Rightarrow> Ret False (set_errno e (tick w))
        | _ \<Rightarrow> (case fs_nodes w path of
            None \<Rightarrow> Ret False (set_errno ENOENT (tick w))
          | Some n \<Rightarrow> Ret True (put_node path
              (n\<lparr>st_uid := (if u = - 1 then st_uid n else u),
                 st_gid := (if g = - 1 then st_gid n else g)\<rparr>) (tick w)))))"

text \<open>An open directory is the list of the names that \<open>readdir\<close> has still to return.\<close>

definition sys_opendir :: "string \<Rightarrow> ('z fs_scheme, string list option) prog" where
  "sys_opendir path w =
     (if PATH_MAX \<le> length path then Ret None (set_errno ENAMETOOLONG (tick w))
      else (case outcome_of w of
          Fail e \<Rightarrow> Ret None (set_errno e (tick w))
        | _ \<Rightarrow> (case fs_nodes w path of
            None \<Rightarrow> Ret None (set_errno ENOENT (tick w))
          | Some n \<Rightarrow> if S_ISDIR (st_mode n) then Ret (Some (n_entries n)) (tick w)
                      else Ret None (set_errno ENOTDIR (tick w)))))"

text \<open>The next name, if any; a failing call ends the directory and sets \<open>errno\<close>.\<close>

definition sys_readdir :: "string list \<Rightarrow> ('z fs_scheme, string option) prog" where
  "sys_readdir es w =
     (case outcome_of w of
        Fail e \<Rightarrow> Ret None (set_errno e (tick w))
      | _ \<Rightarrow> Ret (case es of [] \<Rightarrow> None | e # _ \<Rightarrow> Some e) (tick w))"

definition sys_closedir :: "('z fs_scheme, bool) prog" where
  "sys_closedir w =
     (case outcome_of w of Fail e \<Rightarrow> Ret False (set_errno e (tick w)) | _ \<Rightarrow> Ret True (tick w))"

section \<open>Calls that succeed\<close>

lemma fs_nodes_tick [simp]: "fs_nodes (tick w) = fs_nodes w"
  by (cases w) (simp add: tick_def)

lemma sys_stat_ok [io_simps]:
  "no_fail w \<Longrightarrow> length path < PATH_MAX \<Longrightarrow> fs_nodes w path = Some n \<Longrightarrow>
     sys_stat path w = Ret (Some n) (tick w)"
  using no_fail_Fail [of w] by (cases "outcome_of w") (auto simp: sys_stat_def)

lemma sys_chmod_ok [io_simps]:
  "no_fail w \<Longrightarrow> length path < PATH_MAX \<Longrightarrow> fs_nodes w path = Some n \<Longrightarrow>
     sys_chmod path m w =
       Ret True (put_node path (n\<lparr>st_mode := (st_mode n AND NOT 0xFFF) OR (m AND 0xFFF)\<rparr>) (tick w))"
  using no_fail_Fail [of w] by (cases "outcome_of w") (auto simp: sys_chmod_def)

lemma sys_chown_ok [io_simps]:
  "no_fail w \<Longrightarrow> length path < PATH_MAX \<Longrightarrow> fs_nodes w path = Some n \<Longrightarrow>
     sys_chown path u g w = Ret True (put_node path
       (n\<lparr>st_uid := (if u = - 1 then st_uid n else u),
          st_gid := (if g = - 1 then st_gid n else g)\<rparr>) (tick w))"
  using no_fail_Fail [of w] by (cases "outcome_of w") (auto simp: sys_chown_def)

lemma put_node_fields [simp]:
  "fs_nodes (put_node p n w) = (fs_nodes w)(p \<mapsto> n)" "io_plan (put_node p n w) = io_plan w"
  "io_out (put_node p n w) = io_out w" "io_err (put_node p n w) = io_err w"
  "io_errno (put_node p n w) = io_errno w" "no_fail (put_node p n w) = no_fail w"
  by (simp_all add: put_node_def no_fail_def)

lemma sys_opendir_Some:
  "sys_opendir path w = Ret (Some es) w' \<Longrightarrow> length path < PATH_MAX"
  by (auto simp: sys_opendir_def split: if_splits)

section \<open>The path of a child\<close>

text \<open>
  What both programs build with \<open>sprintf\<close>: a directory name that ends in a slash gets no
  second one. The empty name has no last character.
\<close>

definition child_path :: "string \<Rightarrow> string \<Rightarrow> string" where
  "child_path cur name = (if last cur = CHR ''/'' then cur @ name else cur @ CHR ''/'' # name)"

lemma child_path_longer: "name \<noteq> [] \<Longrightarrow> length cur < length (child_path cur name)"
  by (simp add: child_path_def)

lemma child_path_length: "length (child_path cur name) \<le> length cur + length name + 1"
  by (simp add: child_path_def)

text \<open>The names of a directory as the file system keeps them.\<close>

definition names_ok :: "'z fs_scheme \<Rightarrow> bool" where
  "names_ok w \<longleftrightarrow> (\<forall>p n. fs_nodes w p = Some n \<longrightarrow>
     (\<forall>e \<in> set (n_entries n). e \<noteq> [] \<and> length e \<le> NAME_MAX))"

lemma names_ok_cong: "fs_nodes w' = fs_nodes w \<Longrightarrow> names_ok w' = names_ok w"
  by (simp add: names_ok_def)

lemma names_ok_tick [simp]: "names_ok (tick w) = names_ok w"
  by (rule names_ok_cong) simp

lemma names_ok_upd [simp]:
  "names_ok (set_errno e w) = names_ok w" "names_ok (w\<lparr>io_out := s\<rparr>) = names_ok w"
  "names_ok (w\<lparr>io_err := d\<rparr>) = names_ok w"
  by (simp_all add: names_ok_def set_errno_def)

lemma names_ok_put_node:
  "names_ok w \<Longrightarrow> fs_nodes w p = Some n \<Longrightarrow> n_entries n' = n_entries n \<Longrightarrow> names_ok (put_node p n' w)"
  by (auto simp: names_ok_def)

end
