(* ===== verification/Chmod.thy ===== *)
theory Chmod
  imports Posix_Fs
begin

text \<open>
  cmd/src/chmod.c: the modes a MODE string or an octal number denotes, and their application
  to files and, with -R, to what lies below a directory. The parser of MODE strings works on
  one word of bits per class (user, group, others), as in the source.
\<close>

unbundle bit_operations_syntax

section \<open>The permission bits\<close>

definition who :: string where
  "who = ''ugo''"

definition mc :: string where
  "mc = ''rwxs''"

text \<open>The initialiser of the third row has three elements; the fourth is 0.\<close>

definition modes :: "mode_t list list" where
  "modes = [[0x100, 0x80, 0x40, 0x800], [0x20, 0x10, 8, 0x400], [4, 2, 1, 0]]"

definition MODE_BIT :: mode_t where
  "MODE_BIT = 0x100 OR 0x80 OR 0x40 OR 0x20 OR 0x10 OR 8 OR 4 OR 2 OR 1 OR 0x800 OR 0x400"

definition CLEAR_MODE_BIT :: "mode_t \<Rightarrow> mode_t" where
  "CLEAR_MODE_BIT m = m AND NOT MODE_BIT"

definition GET_MODE_BIT :: "mode_t \<Rightarrow> mode_t" where
  "GET_MODE_BIT m = m AND MODE_BIT"

definition ISOCTAL :: "char \<Rightarrow> bool" where
  "ISOCTAL c = (48 \<le> schar c \<and> schar c < 56)"

definition ISRWX :: "char \<Rightarrow> bool" where
  "ISRWX c = (c = CHR ''r'' \<or> c = CHR ''w'' \<or> c = CHR ''x'' \<or> c = CHR ''s'')"

definition ISOP :: "char \<Rightarrow> bool" where
  "ISOP c = (c = CHR ''+'' \<or> c = CHR ''-'' \<or> c = CHR ''='')"

fun get_idx :: "string \<Rightarrow> char \<Rightarrow> nat option" where
  "get_idx [] c = None"
| "get_idx (a # ar) c = (if a = c then Some 0 else map_option Suc (get_idx ar c))"

text \<open>\<open>search(st, ed, c)\<close> on the characters between the two pointers.\<close>

fun search :: "string \<Rightarrow> char \<Rightarrow> bool" where
  "search [] c = False"
| "search (a # st) c = (if a \<noteq> c then search st c else True)"

text \<open>
  The bits of one class. The inner loops over \<open>j\<close>: setting and clearing the bits that a mode
  has in a row of the table, and adding to a mode what a class has.
\<close>

definition set_row :: "mode_t \<Rightarrow> mode_t \<Rightarrow> mode_t list \<Rightarrow> mode_t" where
  "set_row m bits row =
     foldl (\<lambda>b (j, k). if m AND k \<noteq> 0 then b OR push_bit j 1 else b) bits (enumerate 0 row)"

definition clear_row :: "mode_t \<Rightarrow> mode_t \<Rightarrow> mode_t list \<Rightarrow> mode_t" where
  "clear_row m bits row =
     foldl (\<lambda>b (j, k). if m AND k \<noteq> 0 then b AND NOT (push_bit j 1) else b) bits (enumerate 0 row)"

definition add_row :: "mode_t \<Rightarrow> mode_t \<times> mode_t list \<Rightarrow> mode_t" where
  "add_row m br =
     foldl (\<lambda>m (j, k). if fst br AND push_bit j 1 \<noteq> 0 then m OR k else m) m (enumerate 0 (snd br))"

definition unpack_bits :: "mode_t \<Rightarrow> mode_t list" where
  "unpack_bits m = map (set_row m 0) modes"

definition pack_bits :: "mode_t list \<Rightarrow> mode_t \<Rightarrow> mode_t" where
  "pack_bits bits m = foldl add_row m (zip bits modes)"

section \<open>Parsing MODE\<close>

text \<open>\<open>mode_error\<close> ends the process; an octal number may also be too large for an \<open>int\<close>.\<close>

datatype mode_fault = Invalid_Mode | Int_Overflow

fun string2octal_from :: "int \<Rightarrow> string \<Rightarrow> mode_fault + int" where
  "string2octal_from acc [] = Inr acc"
| "string2octal_from acc (c # str) =
     (if ISOCTAL c
      then if acc * 8 + (schar c - 48) < 2 ^ 31
           then string2octal_from (acc * 8 + (schar c - 48)) str else Inl Int_Overflow
      else Inl Invalid_Mode)"

definition string2octal :: "string \<Rightarrow> mode_fault + int" where
  "string2octal str = string2octal_from 0 str"

text \<open>
  The character behind a position of a clause; behind the last one there is a comma or the
  NUL, and the source tests for neither: NUL stands for both.
\<close>

definition peek :: "string \<Rightarrow> char" where
  "peek s = (case s of [] \<Rightarrow> NUL | c # _ \<Rightarrow> c)"

text \<open>The scan for \<open>op\<close>, the last operator of a clause: what is before and behind it.\<close>

fun split_op :: "string \<Rightarrow> (string \<times> char \<times> string) option" where
  "split_op [] = None"
| "split_op (c # cs) =
     (case split_op cs of
        Some (pre, opc, post) \<Rightarrow> Some (c # pre, opc, post)
      | None \<Rightarrow> if ISOP c then Some ([], c, cs) else None)"

definition octal_op :: "char \<Rightarrow> mode_t \<Rightarrow> mode_t list \<Rightarrow> mode_fault + mode_t list" where
  "octal_op opc m bits =
     (if opc = CHR ''+'' then Inr (map2 (set_row m) bits modes)
      else if opc = CHR ''-'' then Inr (map2 (clear_row m) bits modes)
      else if opc = CHR ''='' then Inr (map (set_row m 0) modes)
      else Inl Invalid_Mode)"

definition class_flags :: "string \<Rightarrow> bool list" where
  "class_flags pre =
     (let all_flag = (search pre (CHR ''a'') \<or> pre = [])
      in map (\<lambda>c. search pre c \<or> all_flag) who)"

fun apply_class :: "char \<Rightarrow> mode_t \<Rightarrow> bool list \<Rightarrow> mode_t list \<Rightarrow> mode_fault + mode_t list" where
  "apply_class c m (f # flags) (b # bits) =
     (if f \<and> \<not> ISOP c then Inl Invalid_Mode
      else map_sum id (Cons (if \<not> f then b
                             else if c = CHR ''='' then m
                             else if c = CHR ''-'' then b AND NOT m
                             else b OR m))
             (apply_class c m flags bits))"
| "apply_class c m flags bits = Inr bits"

fun parse_perms :: "mode_t \<Rightarrow> string \<Rightarrow> mode_fault + (mode_t \<times> string)" where
  "parse_perms m [] = Inr (m, [])"
| "parse_perms m (c # cs) =
     (if ISOP c then Inr (m, c # cs)
      else (case get_idx mc c of
          None \<Rightarrow> Inl Invalid_Mode
        | Some i \<Rightarrow> parse_perms (m OR push_bit i 1) cs))"

lemma parse_perms_length: "parse_perms m s = Inr (m', s') \<Longrightarrow> length s' \<le> length s"
  by (induction m s rule: parse_perms.induct) (auto split: if_splits option.splits)

text \<open>
  One round over the rest of a clause, behind the character \<open>c\<close> at \<open>op2\<close>: the bits it names
  and where it stops. \<open>nxt\<close> is the character behind the operator, which the source tests in
  every round.
\<close>

definition perm_part :: "char \<Rightarrow> mode_t list \<Rightarrow> string \<Rightarrow> mode_fault + (mode_t \<times> string)" where
  "perm_part nxt bits rest =
     (case get_idx who (peek rest) of
        Some i \<Rightarrow> if 1 < length rest then Inl Invalid_Mode else Inr (bits ! i, tl rest)
      | None \<Rightarrow> if ISRWX nxt then parse_perms 0 rest else Inr (0, rest))"

lemma perm_part_length: "perm_part nxt bits rest = Inr (m, rest') \<Longrightarrow> length rest' \<le> length rest"
  by (auto simp: perm_part_def dest: parse_perms_length split: option.splits if_splits)

function symbolic_loop ::
    "bool list \<Rightarrow> char \<Rightarrow> mode_t list \<Rightarrow> string \<Rightarrow> mode_fault + mode_t list" where
  "symbolic_loop flags nxt bits [] = Inr bits"
| "symbolic_loop flags nxt bits (c # rest) =
     (case perm_part nxt bits rest of
        Inl e \<Rightarrow> Inl e
      | Inr (m, rest') \<Rightarrow>
          (case apply_class c m flags bits of
             Inl e \<Rightarrow> Inl e
           | Inr bits' \<Rightarrow> symbolic_loop flags nxt bits' rest'))"
  by pat_completeness auto
termination
proof (relation "measure (\<lambda>(f, n, b, s). length s)", goal_cases)
  case (2 flags nxt bits c rest mr m rest' bits')
  then have "perm_part nxt bits rest = Inr (m, rest')"
    by simp
  then show ?case
    by (auto dest: perm_part_length)
qed simp

definition apply_clause :: "string \<Rightarrow> mode_t list \<Rightarrow> mode_fault + mode_t list" where
  "apply_clause cl bits =
     (case split_op cl of
        None \<Rightarrow> Inl Invalid_Mode
      | Some (pre, opc, post) \<Rightarrow>
          if ISOCTAL (peek post)
          then if pre \<noteq> [] then Inl Invalid_Mode
               else (case string2octal post of
                   Inl e \<Rightarrow> Inl e
                 | Inr m \<Rightarrow> octal_op opc (word_of_int m) bits)
          else symbolic_loop (class_flags pre) (peek post) bits (opc # post))"

function apply_mode_list :: "string \<Rightarrow> mode_t list \<Rightarrow> mode_fault + mode_t list" where
  "apply_mode_list s bits =
     (case apply_clause (takeWhile (\<lambda>c. c \<noteq> CHR '','') s) bits of
        Inl e \<Rightarrow> Inl e
      | Inr bits' \<Rightarrow>
          (case dropWhile (\<lambda>c. c \<noteq> CHR '','') s of
             [] \<Rightarrow> Inr bits'
           | _ # start \<Rightarrow> apply_mode_list start bits'))"
  by pat_completeness auto
termination
proof (relation "measure (\<lambda>(s, b). length s)", goal_cases)
  case (2 s bits bits' c start)
  then show ?case
    using length_dropWhile_le [of "\<lambda>c. c \<noteq> CHR '','' " s] by simp
qed simp

declare apply_mode_list.simps [simp del]

text \<open>The new mode of a file.\<close>

definition mode_after :: "string \<Rightarrow> mode_t \<Rightarrow> mode_fault + mode_t" where
  "mode_after mode_list m =
     map_sum id (\<lambda>bits. pack_bits bits (CLEAR_MODE_BIT m)) (apply_mode_list mode_list (unpack_bits m))"

section \<open>The program\<close>

text \<open>
  The globals. \<open>mode_list\<close> is a pointer: None is the null pointer, and a cell of the buffer is
  None while nothing was stored there. \<open>c_right_to_left\<close> is the order in which the compiler
  evaluates the arguments of a call, which C leaves open.
\<close>

record chmod_state = fs +
  c_cflag :: bool
  c_vflag :: bool
  c_Rflag :: bool
  c_has_parse_mode :: bool
  c_rfile :: "string option"
  c_mode_list :: "char option list option"
  c_mode_len :: nat
  c_mode_alloc :: nat
  c_mode :: mode_t
  c_statbuf :: mode_t      \<comment> \<open>\<open>statbuf.st_mode\<close>, the only field used\<close>
  c_right_to_left :: bool

definition chmod_start :: "bool \<Rightarrow> fs \<Rightarrow> chmod_state" where
  "chmod_start rtl w = fs.extend w
     \<lparr>c_cflag = False, c_vflag = False, c_Rflag = False, c_has_parse_mode = False,
      c_rfile = None, c_mode_list = None, c_mode_len = 0, c_mode_alloc = 0, c_mode = 0,
      c_statbuf = 0, c_right_to_left = rtl\<rparr>"

definition chmod_usage_text :: "string list" where
  "chmod_usage_text =
   [''Usage: chmod [OPTION]... MODE[,MODE]... FILE...'',
    ''  or:  chmod [OPTION]... OCTAL-MODE FILE...'',
    ''  or:  chmod [OPTION]... --reference=RFILE FILE...'',
    ''Change the mode of each FILE to MODE.'',
    ''With --reference, change the mode of each FILE to that of RFILE.'',
    [],
    ''  -c, --changes          like verbose but report only when a change is made'',
    ''  -f, --silent, --quiet  suppress most error messages'',
    ''  -v, --verbose          output a diagnostic for every file processed'',
    ''      --no-preserve-root  do not treat '' @ quoted ''/'' @ '' specially (the default)'',
    ''      --preserve-root    fail to operate recursively on '' @ quoted ''/'',
    ''      --reference=RFILE  use RFILE's mode instead of MODE values'',
    ''  -R, --recursive        change files and directories recursively'',
    ''      --help     display this help and exit'',
    ''      --version  output version information and exit'',
    [],
    ''Each MODE is of the form '' @ quoted ''[ugoa]*([-+=]([rwxXst]*|[ugo]))+|[-+=][0-7]+'' @ ''.'']"

definition chmod_usage :: "int \<Rightarrow> ('z io_scheme, 'a) prog" where
  "chmod_usage status =
     thenp (if status = EXIT_SUCCESS
            then put (concat (map (\<lambda>l. l @ [NL]) chmod_usage_text))
            else eputs (''Try '' @ quoted ''%s --help'' @ '' for more information.'') [''chmod''])
       (exitp status)"

text \<open>The C string in a buffer: None when it runs into a cell that was never written.\<close>

fun c_string :: "char option list \<Rightarrow> string option" where
  "c_string [] = None"
| "c_string (None # buf) = None"
| "c_string (Some c # buf) = (if c = NUL then Some [] else map_option (Cons c) (c_string buf))"

definition mode_error :: "(chmod_state, 'a) prog" where
  "mode_error = bindp (getsp (\<lambda>w. Option.bind (c_mode_list w) c_string)) (\<lambda>s. case s of
       None \<Rightarrow> undefp
     | Some str \<Rightarrow> thenp (eputs (''%s: invalid mode: '' @ quoted ''%s'') [''chmod'', str])
                     (chmod_usage EXIT_FAILURE))"

definition mode_fail :: "mode_fault \<Rightarrow> (chmod_state, 'a) prog" where
  "mode_fail e = (case e of Invalid_Mode \<Rightarrow> mode_error | Int_Overflow \<Rightarrow> undefp)"

definition mode2str :: "mode_t \<Rightarrow> string" where
  "mode2str m =
     (let buf = concat (map (\<lambda>row. map (\<lambda>(k, c). if m AND k \<noteq> 0 then c else CHR ''-'')
                                     (zip (take 3 row) mc)) modes);
          buf = (if m AND 0x800 \<noteq> 0
                 then buf[2 := if buf ! 2 = CHR ''x'' then CHR ''s'' else CHR ''S''] else buf)
      in (if m AND 0x400 \<noteq> 0
          then buf[5 := if buf ! 5 = CHR ''x'' then CHR ''s'' else CHR ''S''] else buf))"

definition oct4 :: "mode_t \<Rightarrow> string" where
  "oct4 m = pad0 4 (octs (unat m))"

text \<open>
  Two calls of \<open>mode2str\<close> in one argument list share the static buffer: both \<open>%s\<close> print what
  the later call left there.
\<close>

definition shared_mode2str :: "mode_t \<Rightarrow> mode_t \<Rightarrow> chmod_state \<Rightarrow> string" where
  "shared_mode2str first second w = mode2str (if c_right_to_left w then first else second)"

definition print_info :: "string \<Rightarrow> mode_t \<Rightarrow> mode_t \<Rightarrow> (chmod_state, unit) prog" where
  "print_info filename old_mode new_mode =
     bindp (getsp (\<lambda>w. w)) (\<lambda>w.
       if c_statbuf w \<noteq> old_mode
       then if c_cflag w \<or> c_vflag w
            then let s = shared_mode2str old_mode new_mode w in
              put (''mode of '' @ quoted filename @ '' changed from '' @ oct4 (GET_MODE_BIT old_mode)
                   @ '' ('' @ s @ '') to '' @ oct4 (GET_MODE_BIT new_mode) @ '' ('' @ s @ '')'' @ [NL])
            else retp ()
       else if c_vflag w
            then put (''mode of '' @ quoted filename @ '' retained as '' @ oct4 (GET_MODE_BIT old_mode)
                   @ '' ('' @ mode2str old_mode @ '')'' @ [NL])
            else retp ())"

text \<open>
  The loop over a directory. \<open>child_file\<close> has \<open>BUFSIZ\<close> bytes and \<open>sprintf\<close> does not look at
  them.
\<close>

fun read_loop :: "(string \<Rightarrow> ('z fs_scheme, bool) prog) \<Rightarrow> string \<Rightarrow> string list \<Rightarrow> bool
    \<Rightarrow> ('z fs_scheme, bool) prog" where
  "read_loop func cur [] ok w =
     (case sys_readdir [] w of
        Ret _ w' \<Rightarrow> Ret ok w' | Exit k w' \<Rightarrow> Exit k w' | Undef \<Rightarrow> Undef)"
| "read_loop func cur (name # es) ok w =
     (case sys_readdir (name # es) w of
        Ret None w' \<Rightarrow> Ret ok w'
      | Ret (Some d_name) w' \<Rightarrow>
          if d_name \<noteq> ''.'' \<and> d_name \<noteq> ''..''
          then if cur = [] \<or> BUFSIZ \<le> length (child_path cur d_name) then Undef
               else (case func (child_path cur d_name) w' of
                   Ret r w'' \<Rightarrow> read_loop func cur es (ok \<and> r) w''
                 | Exit k w'' \<Rightarrow> Exit k w'' | Undef \<Rightarrow> Undef)
          else read_loop func cur es ok w'
      | Exit k w' \<Rightarrow> Exit k w' | Undef \<Rightarrow> Undef)"

definition do_recursive :: "string \<Rightarrow> (string \<Rightarrow> ('z fs_scheme, bool) prog)
    \<Rightarrow> ('z fs_scheme, bool) prog" where
  "do_recursive cur func =
     bindp (sys_opendir cur) (\<lambda>dir. case dir of
       None \<Rightarrow> thenp (eputs ''%s: failed to open directory %s: %s'' [''chmod'', cur]) (retp False)
     | Some es \<Rightarrow>
         bindp (read_loop func cur es True) (\<lambda>ok.
         bindp (getsp io_errno) (\<lambda>err.
           if err \<noteq> 0
           then thenp (eputs (''%s: cannot read directory '' @ quoted ''%s'' @ '': %s'') [''chmod'', cur])
                  (retp False)
           else bindp sys_closedir (\<lambda>closed.
             if \<not> closed
             then thenp (eputs ''%s: failed to close directory %s: %s'' [''chmod'', cur]) (retp False)
             else retp ok))))"

definition set_statbuf :: "mode_t \<Rightarrow> (chmod_state, unit) prog" where
  "set_statbuf m = modifyp (\<lambda>w. w\<lparr>c_statbuf := m\<rparr>)"

text \<open>
  What the two callbacks do once the file is known; \<open>below\<close> is the callback itself, for what
  lies in a directory.
\<close>

definition change_mode_list :: "(string \<Rightarrow> (chmod_state, bool) prog) \<Rightarrow> string \<Rightarrow> mode_t
    \<Rightarrow> (chmod_state, bool) prog" where
  "change_mode_list below filename old_mode =
     bindp (getsp (\<lambda>w. Option.bind (c_mode_list w) c_string)) (\<lambda>str. case str of
       None \<Rightarrow> undefp
     | Some mode_list \<Rightarrow>
         (case mode_after mode_list old_mode of
            Inl e \<Rightarrow> mode_fail e
          | Inr m \<Rightarrow>
              thenp (set_statbuf m)
              (bindp (sys_chmod filename m) (\<lambda>_.
               thenp (print_info filename old_mode m)
                 (bindp (getsp c_Rflag) (\<lambda>R.
                    if S_ISDIR m \<and> R then do_recursive filename below else retp True))))))"

definition change_mode :: "(string \<Rightarrow> (chmod_state, bool) prog) \<Rightarrow> string \<Rightarrow> mode_t
    \<Rightarrow> (chmod_state, bool) prog" where
  "change_mode below filename stat_mode =
     bindp (getsp (\<lambda>w. w)) (\<lambda>g.
     let old_mode = GET_MODE_BIT stat_mode;
         m = CLEAR_MODE_BIT stat_mode OR c_mode g in
     thenp (set_statbuf m)
     (bindp (sys_chmod filename m) (\<lambda>ok.
      thenp (if \<not> ok
             then thenp (eputs (''%s: changing permissions of '' @ quoted ''%s'' @ '': %s'')
                    [''chmod'', filename])
               (bindp (getsp (shared_mode2str old_mode m)) (\<lambda>s.
                  eputs (''failed to change mode of '' @ quoted ''%s'' @ '' from %d (%s) to %d (%s)'')
                    [filename, dec (unat old_mode), s, dec (unat m), s]))
             else print_info filename old_mode m)
        (if S_ISDIR m \<and> c_Rflag g
         then bindp (do_recursive filename below) (\<lambda>r. retp (ok \<and> r))
         else retp ok))))"

text \<open>
  The recursion is bounded by the length of path names (\<open>PATH_MAX\<close>); the first argument counts
  the levels that are left.
\<close>

fun process_mode_list :: "nat \<Rightarrow> string \<Rightarrow> (chmod_state, bool) prog" where
  "process_mode_list 0 filename = undefp"
| "process_mode_list (Suc depth) filename =
     bindp (sys_stat filename) (\<lambda>st. case st of
       None \<Rightarrow> thenp (eputs (''%s: cannot access '' @ quoted ''%s'' @ '': %s'') [''chmod'', filename])
                 (retp False)
     | Some n \<Rightarrow> change_mode_list (process_mode_list depth) filename (st_mode n))"

fun process_mode :: "nat \<Rightarrow> string \<Rightarrow> (chmod_state, bool) prog" where
  "process_mode 0 filename = undefp"
| "process_mode (Suc depth) filename =
     bindp (sys_stat filename) (\<lambda>st. case st of
       None \<Rightarrow> undefp \<comment> \<open>\<open>fprintf\<close> with a string for the stream\<close>
     | Some n \<Rightarrow> change_mode (process_mode depth) filename (st_mode n))"

text \<open>
  An option that is a MODE: \<open>realloc\<close> gets the variable \<open>mode\<close>, which is 0, for the buffer,
  so what it returns is a fresh buffer with nothing in it. \<open>arg\<close> is \<open>argv[optind - 1]\<close>.
\<close>

definition add_mode_option :: "string \<Rightarrow> (chmod_state, unit) prog" where
  "add_mode_option arg =
     bindp (getsp (\<lambda>w. w)) (\<lambda>w.
     let mode_comma_len = c_mode_len w + (if c_mode_len w \<noteq> 0 then 1 else 0);
         new_mode_len = mode_comma_len + length arg;
         grow = (c_mode_alloc w \<le> new_mode_len);
         alloc = (if grow then new_mode_len + 1 else c_mode_alloc w);
         buffer = (if grow then Some (replicate alloc None) else c_mode_list w)
     in case buffer of
          None \<Rightarrow> undefp
        | Some buf \<Rightarrow>
            let buf1 = buf[c_mode_len w := Some (CHR '','')];
                buf2 = take mode_comma_len buf1 @ map Some arg @ drop new_mode_len buf1
            in modifyp (\<lambda>w. w\<lparr>c_mode_list := Some buf2, c_mode_len := new_mode_len,
                              c_mode_alloc := alloc\<rparr>))"

fun chmod_options :: "optev list \<Rightarrow> (chmod_state, unit) prog" where
  "chmod_options [] = retp ()"
| "chmod_options (ev # evs) =
     thenp (case ev of
         Opt c arg \<Rightarrow>
           if c \<in> set ''rwxs01234567''
           then (case arg of None \<Rightarrow> undefp | Some a \<Rightarrow> add_mode_option a)
           else if c = CHR ''c'' then modifyp (\<lambda>w. w\<lparr>c_cflag := True\<rparr>)
           else if c = CHR ''f'' then retp ()
           else if c = CHR ''v'' then modifyp (\<lambda>w. w\<lparr>c_vflag := True\<rparr>)
           else if c = CHR ''R'' then modifyp (\<lambda>w. w\<lparr>c_Rflag := True\<rparr>)
           else chmod_usage EXIT_FAILURE
       | OptHelp \<Rightarrow> chmod_usage EXIT_SUCCESS
       | OptVersion \<Rightarrow> thenp (put (''Written by rda'' @ [NL])) (exitp EXIT_SUCCESS)
       | OptLong name arg \<Rightarrow>
           if name = ''no-preserve-root'' then retp ()
           else if name = ''preserve-root'' then put (''Written by rda'' @ [NL])
           else if name = ''reference'' then modifyp (\<lambda>w. w\<lparr>c_rfile := arg\<rparr>)
           else chmod_usage EXIT_FAILURE
       | OptUnknown \<Rightarrow> chmod_usage EXIT_FAILURE)
     (chmod_options evs)"

text \<open>
  What \<open>main\<close> does to find the mode: the operands that are left. \<open>prev\<close> is \<open>argv[optind - 1]\<close>
  when no operand has been taken.
\<close>

definition chmod_parse_mode ::
    "string list \<Rightarrow> string \<Rightarrow> (chmod_state, string list \<times> string) prog" where
  "chmod_parse_mode operands prev =
     bindp (getsp (\<lambda>w. w)) (\<lambda>w.
       case c_rfile w of
         Some rfile \<Rightarrow>
           if c_mode_len w \<noteq> 0 then undefp \<comment> \<open>\<open>fprintf\<close> lacks the argument of its \<open>%s\<close>\<close>
           else bindp (sys_stat rfile) (\<lambda>st. case st of
               None \<Rightarrow> thenp (eputs (''%s: failed to get attributes of '' @ quoted ''%s'' @ '': %s'')
                         [''chmod'', rfile]) (exitp EXIT_FAILURE)
             | Some n \<Rightarrow>
                 let m = GET_MODE_BIT (st_mode n) in
                 thenp (modifyp (\<lambda>w. w\<lparr>c_statbuf := st_mode n, c_mode := m, c_has_parse_mode := True\<rparr>))
                 (thenp (put (''rfile: '' @ rfile @ '' '' @ octs (unat m) @ [NL]))
                    (retp (operands, prev))))
       | None \<Rightarrow>
           thenp (if c_mode_len w = 0
                  then modifyp (\<lambda>w. w\<lparr>c_mode_list :=
                         (case operands of [] \<Rightarrow> None | s # _ \<Rightarrow> Some (map Some (s @ [NUL])))\<rparr>)
                  else retp ())
           (bindp (getsp c_mode_list) (\<lambda>l. case l of
                Some (Some c # buf) \<Rightarrow>
                  let rest = (if c_mode_len w = 0
                              then (tl operands, hd operands) else (operands, prev)) in
                  if is_digit c
                  then (case c_string (Some c # buf) of
                      None \<Rightarrow> undefp
                    | Some str \<Rightarrow> (case string2octal str of
                        Inl e \<Rightarrow> mode_fail e
                      | Inr v \<Rightarrow>
                          thenp (modifyp (\<lambda>w. w\<lparr>c_mode := GET_MODE_BIT (word_of_int v),
                                               c_has_parse_mode := True\<rparr>)) (retp rest)))
                  else retp rest
              | _ \<Rightarrow> undefp)))"

definition chmod_main :: "optev list \<Rightarrow> string list \<Rightarrow> string \<Rightarrow> (chmod_state, int) prog" where
  "chmod_main opts operands prev =
     thenp (chmod_options opts)
     (bindp (chmod_parse_mode operands prev) (\<lambda>(files, last_arg).
      bindp (getsp (\<lambda>w. w)) (\<lambda>w.
      thenp (if c_has_parse_mode w \<and> 0xFFF < c_mode w then mode_error else retp ())
      (if files = []
       then thenp (eputs (''%s: missing operand after '' @ quoted ''%s'') [''chmod'', last_arg])
              (chmod_usage EXIT_FAILURE)
       else bindp (all_ok (if c_has_parse_mode w then process_mode DEPTH else process_mode_list DEPTH)
                     True files) (\<lambda>ok.
            retp (if ok then EXIT_SUCCESS else EXIT_FAILURE))))))"

section \<open>Bits of a mode\<close>

lemma and_mask_bit:
  "((m::32 word) AND 0x100 \<noteq> 0) = bit m 8" "(m AND 0x80 \<noteq> 0) = bit m 7" "(m AND 0x40 \<noteq> 0) = bit m 6"
  "(m AND 0x20 \<noteq> 0) = bit m 5" "(m AND 0x10 \<noteq> 0) = bit m 4" "(m AND 8 \<noteq> 0) = bit m 3"
  "(m AND 4 \<noteq> 0) = bit m 2" "(m AND 2 \<noteq> 0) = bit m 1" "(m AND 1 \<noteq> 0) = bit m 0"
  "(m AND 0x800 \<noteq> 0) = bit m 11" "(m AND 0x400 \<noteq> 0) = bit m 10"
  using bit_iff_and_push_bit_not_eq_0 [of m 8] bit_iff_and_push_bit_not_eq_0 [of m 7]
    bit_iff_and_push_bit_not_eq_0 [of m 6] bit_iff_and_push_bit_not_eq_0 [of m 5]
    bit_iff_and_push_bit_not_eq_0 [of m 4] bit_iff_and_push_bit_not_eq_0 [of m 3]
    bit_iff_and_push_bit_not_eq_0 [of m 2] bit_iff_and_push_bit_not_eq_0 [of m 1]
    bit_iff_and_push_bit_not_eq_0 [of m 0] bit_iff_and_push_bit_not_eq_0 [of m 11]
    bit_iff_and_push_bit_not_eq_0 [of m 10] by (simp_all del: One_nat_def)

lemma or_bit:
  "bit ((if c then (m::32 word) OR k else m)) n = (bit m n \<or> c \<and> bit k n)"
  by (simp add: bit_or_iff)

lemma bit_masks:
  "bit (0x100::int) n = (n = 8)" "bit (0x80::int) n = (n = 7)" "bit (0x40::int) n = (n = 6)"
  "bit (0x20::int) n = (n = 5)" "bit (0x10::int) n = (n = 4)" "bit (8::int) n = (n = 3)"
  "bit (4::int) n = (n = 2)" "bit (2::int) n = (n = 1)" 
  "bit (0x800::int) n = (n = 11)" "bit (0x400::int) n = (n = 10)"
  using bit_exp_iff [where 'a=int, of 8 n] bit_exp_iff [where 'a=int, of 7 n] bit_exp_iff [where 'a=int, of 6 n]
  bit_exp_iff [where 'a=int, of 5 n] bit_exp_iff [where 'a=int, of 4 n] bit_exp_iff [where 'a=int, of 3 n]
  bit_exp_iff [where 'a=int, of 2 n] bit_exp_iff [where 'a=int, of 1 n] 
  bit_exp_iff [where 'a=int, of 11 n] bit_exp_iff [where 'a=int, of 10 n] 
  by (simp_all add: eq_commute)

lemma below_32: "c < 32 \<Longrightarrow> (n < (32::nat) \<and> n = c) = (n = c)"
  by auto

lemma bit_pack:
  "bit (pack_bits [b0, b1, b2] m) k \<longleftrightarrow> bit m k
   \<or> bit b0 0 \<and> k = 8 \<or> bit b0 1 \<and> k = 7 \<or> bit b0 2 \<and> k = 6 \<or> bit b0 3 \<and> k = 11
   \<or> bit b1 0 \<and> k = 5 \<or> bit b1 1 \<and> k = 4 \<or> bit b1 2 \<and> k = 3 \<or> bit b1 3 \<and> k = 10
   \<or> bit b2 0 \<and> k = 2 \<or> bit b2 1 \<and> k = 1 \<or> bit b2 2 \<and> k = 0"
  by (simp add: pack_bits_def add_row_def modes_def or_bit bit_masks and_mask_bit bit_1_iff
      possible_bit_def below_32)

lemma bit_set_row:
  "bit (set_row m b [k0,k1,k2,k3]) n \<longleftrightarrow> bit b n
   \<or> m AND k0 \<noteq> 0 \<and> n = 0 \<or> m AND k1 \<noteq> 0 \<and> n = 1 \<or> m AND k2 \<noteq> 0 \<and> n = 2 \<or> m AND k3 \<noteq> 0 \<and> n = 3"
  by (simp add: set_row_def or_bit bit_masks bit_1_iff possible_bit_def below_32)

lemma bit_MODE_BIT: "bit MODE_BIT n = (n < 9 \<or> n = 10 \<or> n = 11)"
  unfolding MODE_BIT_def bit_or_iff
  by (simp add: bit_masks below_32 bit_1_iff possible_bit_def) presburger

lemma bit_CLEAR: "bit (CLEAR_MODE_BIT m) n \<longleftrightarrow> bit m n \<and> \<not> (n < 9 \<or> n = 10 \<or> n = 11)"
  by (auto simp: CLEAR_MODE_BIT_def bit_and_iff bit_not_iff bit_MODE_BIT possible_bit_def
      dest: bit_imp_le_length)

definition has_perm :: "mode_t \<Rightarrow> nat \<Rightarrow> nat \<Rightarrow> bool" where
  "has_perm m i j = (m AND modes ! i ! j \<noteq> 0)"

lemma bit_unpack:
  "unpack_bits m = [b0, b1, b2] \<Longrightarrow> j < 4 \<Longrightarrow>
     bit b0 j = has_perm m 0 j \<and> bit b1 j = has_perm m 1 j \<and> bit b2 j = has_perm m 2 j"
  by (auto simp: unpack_bits_def modes_def bit_set_row has_perm_def less_Suc_eq numeral_eq_Suc)

lemma length_unpack: "\<exists>b0 b1 b2. unpack_bits m = [b0, b1, b2]"
  by (simp add: unpack_bits_def modes_def)

lemma less_three: "(\<forall>i<(3::nat). P i) = (P 0 \<and> P 1 \<and> P 2)"
  by (auto simp: less_Suc_eq numeral_3_eq_3 numeral_2_eq_2)

lemma less_four: "(\<forall>i<(4::nat). P i) = (P 0 \<and> P 1 \<and> P 2 \<and> P 3)"
  by (auto simp: less_Suc_eq eval_nat_numeral)

lemma pack_perms:
  "has_perm (pack_bits [b0, b1, b2] (CLEAR_MODE_BIT m)) 0 0 = bit b0 0"
  "has_perm (pack_bits [b0, b1, b2] (CLEAR_MODE_BIT m)) 0 1 = bit b0 1"
  "has_perm (pack_bits [b0, b1, b2] (CLEAR_MODE_BIT m)) 0 2 = bit b0 2"
  "has_perm (pack_bits [b0, b1, b2] (CLEAR_MODE_BIT m)) 0 3 = bit b0 3"
  "has_perm (pack_bits [b0, b1, b2] (CLEAR_MODE_BIT m)) 1 0 = bit b1 0"
  "has_perm (pack_bits [b0, b1, b2] (CLEAR_MODE_BIT m)) 1 1 = bit b1 1"
  "has_perm (pack_bits [b0, b1, b2] (CLEAR_MODE_BIT m)) 1 2 = bit b1 2"
  "has_perm (pack_bits [b0, b1, b2] (CLEAR_MODE_BIT m)) 1 3 = bit b1 3"
  "has_perm (pack_bits [b0, b1, b2] (CLEAR_MODE_BIT m)) 2 0 = bit b2 0"
  "has_perm (pack_bits [b0, b1, b2] (CLEAR_MODE_BIT m)) 2 1 = bit b2 1"
  "has_perm (pack_bits [b0, b1, b2] (CLEAR_MODE_BIT m)) 2 2 = bit b2 2"
  "has_perm (pack_bits [b0, b1, b2] (CLEAR_MODE_BIT m)) 2 3 = False"
  by (simp_all add: has_perm_def and_mask_bit bit_pack bit_CLEAR modes_def)

lemma CLEAR_pack: "CLEAR_MODE_BIT (pack_bits [b0, b1, b2] (CLEAR_MODE_BIT m)) = CLEAR_MODE_BIT m"
  by (rule bit_eqI) (auto simp: bit_CLEAR bit_pack)


section \<open>One symbolic clause\<close>

lemma split_op_last:
  "ISOP opc \<Longrightarrow> \<not> list_ex ISOP post \<Longrightarrow> split_op (pre @ opc # post) = Some (pre, opc, post)"
proof (induction pre)
  case Nil
  have "split_op post = None"
    using Nil(2) by (induction post) auto
  then show ?case using Nil by simp
qed simp

lemma split_op_None: "\<not> list_ex ISOP s \<Longrightarrow> split_op s = None"
  by (induction s) auto

lemma search_iff: "search s c \<longleftrightarrow> c \<in> set s"
  by (induction s) auto

text \<open>The bits that a string of permission letters adds.\<close>

lemma parse_perms_ok:
  assumes "set ps \<subseteq> set mc"
  shows "\<exists>m. parse_perms acc ps = Inr (m, []) \<and> (\<forall>j<4. bit m j \<longleftrightarrow> bit acc j \<or> mc ! j \<in> set ps)"
  using assms
proof (induction ps arbitrary: acc)
  case Nil
  then show ?case by simp
next
  case (Cons c ps)
  have "\<not> ISOP c"
    using Cons.prems by (auto simp: ISOP_def mc_def)
  moreover obtain i where i: "get_idx mc c = Some i" "i < 4" "mc ! i = c"
    "\<forall>j<4. j \<noteq> i \<longrightarrow> mc ! j \<noteq> c"
    using Cons.prems by (auto simp: mc_def less_four)
  moreover obtain m where "parse_perms (acc OR push_bit i 1) ps = Inr (m, [])"
      "\<forall>j<4. bit m j \<longleftrightarrow> bit (acc OR push_bit i 1) j \<or> mc ! j \<in> set ps"
    using Cons by force
  ultimately show ?case
    by (auto simp: bit_or_iff bit_exp_iff possible_bit_def)
qed

definition selected :: "string \<Rightarrow> nat \<Rightarrow> bool" where
  "selected ws i \<longleftrightarrow> ws = [] \<or> CHR ''a'' \<in> set ws \<or> who ! i \<in> set ws"

lemma apply_class_three:
  "ISOP c \<Longrightarrow> apply_class c m (class_flags ws) [b0, b1, b2] =
     Inr (map2 (\<lambda>i b. if \<not> selected ws i then b else if c = CHR ''='' then m
                      else if c = CHR ''-'' then b AND NOT m else b OR m) [0, 1, 2] [b0, b1, b2])"
  by (simp add: class_flags_def who_def Let_def search_iff selected_def)

lemma apply_mode_list_one: "CHR '','' \<notin> set s \<Longrightarrow> apply_mode_list s bits = apply_clause s bits"
proof -
  assume "CHR '','' \<notin> set s"
  then have whole: "takeWhile (\<lambda>c. c \<noteq> CHR '','') s = s" "dropWhile (\<lambda>c. c \<noteq> CHR '','') s = []"
    by (auto simp: takeWhile_eq_all_conv)
  show ?thesis
    by (subst apply_mode_list.simps, unfold whole) (simp split: sum.split)
qed

lemma apply_symbolic_clause:
  assumes ws: "set ws \<subseteq> set ''ugoa''" and opc: "ISOP opc" and ps: "ps \<noteq> []" "set ps \<subseteq> set mc"
  shows "\<exists>m. (\<forall>j<4. bit m j \<longleftrightarrow> mc ! j \<in> set ps) \<and>
    apply_mode_list (ws @ opc # ps) [b0, b1, b2] =
      Inr (map2 (\<lambda>i b. if \<not> selected ws i then b else if opc = CHR ''='' then m
                       else if opc = CHR ''-'' then b AND NOT m else b OR m) [0, 1, 2] [b0, b1, b2])"
proof -
  obtain p ps' where p: "ps = p # ps'" "p \<in> set mc"
    using ps by (cases ps) auto
  obtain m where m: "parse_perms 0 ps = Inr (m, [])" "\<forall>j<4. bit m j \<longleftrightarrow> mc ! j \<in> set ps"
    using parse_perms_ok [OF ps(2), of 0] by auto
  have "CHR '','' \<notin> set (ws @ opc # ps)"
    using ws opc ps(2) by (auto simp: mc_def ISOP_def)
  moreover have "split_op (ws @ opc # ps) = Some (ws, opc, ps)"
    using opc ps(2) by (intro split_op_last) (auto simp: list_ex_iff ISOP_def mc_def)
  moreover have "\<not> ISOCTAL (peek ps)" "get_idx who (peek ps) = None" "ISRWX (peek ps)"
    using p by (auto simp: ISOCTAL_def peek_def mc_def who_def schar_def ISRWX_def)
  ultimately have "apply_mode_list (ws @ opc # ps) [b0, b1, b2] = apply_class opc m (class_flags ws) [b0, b1, b2]"
    by (simp add: apply_mode_list_one apply_clause_def perm_part_def m(1) apply_class_three [OF opc])
  with m(2) apply_class_three [OF opc] show ?thesis
    by auto
qed


section \<open>What a symbolic clause does\<close>

text \<open>
  C1: a symbolic clause, class letters, one operator and permission letters, changes
  the named permissions of the named classes (all classes when none is named) and nothing
  else: what \<open>+\<close>, \<open>-\<close> and \<open>=\<close> mean, on every class and permission.
\<close>

theorem chmod_symbolic:
  assumes "set ws \<subseteq> set ''ugoa''" "ISOP opc" "ps \<noteq> []" "set ps \<subseteq> set mc"
  shows "\<exists>m'. mode_after (ws @ opc # ps) m = Inr m' \<and> CLEAR_MODE_BIT m' = CLEAR_MODE_BIT m \<and>
    (\<forall>i<3. \<forall>j<4. has_perm m' i j \<longleftrightarrow>
       (let named = (mc ! j \<in> set ps \<and> \<not> (i = 2 \<and> j = 3)) in
        if \<not> selected ws i then has_perm m i j
        else if opc = CHR ''+'' then has_perm m i j \<or> named
        else if opc = CHR ''-'' then has_perm m i j \<and> \<not> named
        else named))"
proof -
  obtain b0 b1 b2 where b: "unpack_bits m = [b0, b1, b2]"
    using length_unpack by blast
  obtain p where p: "\<forall>j<4. bit p j \<longleftrightarrow> mc ! j \<in> set ps"
    "apply_mode_list (ws @ opc # ps) [b0, b1, b2] =
      Inr (map2 (\<lambda>i b. if \<not> selected ws i then b else if opc = CHR ''='' then p
                       else if opc = CHR ''-'' then b AND NOT p else b OR p) [0, 1, 2] [b0, b1, b2])"
    using apply_symbolic_clause [OF assms] by blast
  have o23: "\<not> has_perm m 2 3"
    by (simp add: has_perm_def modes_def)
  have opc: "opc = CHR ''+'' \<or> opc = CHR ''-'' \<or> opc = CHR ''=''"
    using assms(2) by (simp add: ISOP_def)
  note bits = bit_unpack [OF b, of 0] bit_unpack [OF b, of 1] bit_unpack [OF b, of 2] bit_unpack [OF b, of 3]
  show ?thesis
    using p(1) bits o23 opc
    by (simp add: mode_after_def b p(2) CLEAR_pack less_three less_four pack_perms Let_def
        bit_or_iff bit_and_iff bit_not_iff del: One_nat_def)
     (elim disjE; simp add: bit_or_iff bit_and_iff bit_not_iff pack_perms)
qed

section \<open>No undefined behaviour below a directory\<close>




lemma c_mode_list_tick [simp]: "c_mode_list (tick w) = c_mode_list w"
  by (cases w) (simp add: tick_def)








lemma c_string_of: "NUL \<notin> set s \<Longrightarrow> c_string (map Some (s @ [NUL])) = Some s"
  by (induction s) auto

text \<open>A run with a MODE string comes to the files with the string in place.\<close>

definition set_flags :: "bool \<Rightarrow> bool \<Rightarrow> bool \<Rightarrow> string \<Rightarrow> chmod_state \<Rightarrow> chmod_state" where
  "set_flags c v R s w = w\<lparr>c_cflag := c, c_vflag := v, c_Rflag := R,
     c_mode_list := Some (map Some (s @ [NUL]))\<rparr>"

lemma chmod_main_list:
  assumes "chmod_options opts w = Ret () (w\<lparr>c_cflag := c, c_vflag := v, c_Rflag := R\<rparr>)"
    and "NUL \<notin> set s" "s \<noteq> [] \<longrightarrow> \<not> is_digit (hd s)"
    and "c_rfile w = None" "c_mode_len w = 0" "\<not> c_has_parse_mode w"
  shows "chmod_main opts (s # files) prev w =
     (if files = []
      then thenp (eputs (''%s: missing operand after '' @ quoted ''%s'') [''chmod'', s]) (chmod_usage EXIT_FAILURE)
      else bindp (all_ok (process_mode_list DEPTH) True files) (\<lambda>ok.
            retp (if ok then EXIT_SUCCESS else EXIT_FAILURE)))
     (set_flags c v R s w)"
proof -
  have nd: "\<not> is_digit NUL"
    by (simp add: is_digit_def NUL_def)
  show ?thesis
    by (cases s) (use assms nd in \<open>simp_all add: chmod_main_def thenp_unfold chmod_parse_mode_def
        set_flags_def bindp_unfold\<close>)
qed

lemma chmod_start_fields [simp]:
  "c_rfile (chmod_start rtl w) = None" "c_mode_len (chmod_start rtl w) = 0"
  "\<not> c_has_parse_mode (chmod_start rtl w)" "fs_nodes (chmod_start rtl w) = fs_nodes w"
  "io_out (chmod_start rtl w) = io_out w" "io_err (chmod_start rtl w) = io_err w"
  "no_fail (chmod_start rtl w) = no_fail w" "c_right_to_left (chmod_start rtl w) = rtl"
  "\<not> c_cflag (chmod_start rtl w)" "\<not> c_vflag (chmod_start rtl w)" "\<not> c_Rflag (chmod_start rtl w)"
  by (simp_all add: chmod_start_def fs.defs no_fail_def)

lemma set_flags_fields [simp]:
  "fs_nodes (set_flags c v R s w) = fs_nodes w" "io_out (set_flags c v R s w) = io_out w"
  "io_err (set_flags c v R s w) = io_err w" "no_fail (set_flags c v R s w) = no_fail w"
  "c_mode_list (set_flags c v R s w) = Some (map Some (s @ [NUL]))"
  "c_cflag (set_flags c v R s w) = c" "c_vflag (set_flags c v R s w) = v" "c_Rflag (set_flags c v R s w) = R"
  by (simp_all add: set_flags_def no_fail_def)















section \<open>One file, all calls succeeding\<close>

lemma foldl_add_row_CLEAR:
  "set (map snd brs) \<subseteq> set modes \<Longrightarrow>
     CLEAR_MODE_BIT (foldl add_row m brs) = CLEAR_MODE_BIT m"
proof (induction brs arbitrary: m)
  case Nil
  then show ?case by simp
next
  case (Cons br brs)
  have "CLEAR_MODE_BIT (add_row m br) = CLEAR_MODE_BIT m"
    using Cons.prems
    by (cases br, intro bit_eqI)
      (auto simp: add_row_def modes_def bit_CLEAR or_bit bit_masks bit_1_iff possible_bit_def below_32)
  then show ?case
    using Cons by simp
qed

lemma CLEAR_CLEAR [simp]: "CLEAR_MODE_BIT (CLEAR_MODE_BIT m) = CLEAR_MODE_BIT m"
  by (simp add: CLEAR_MODE_BIT_def and.assoc)

lemma CLEAR_mode_after:
  assumes "mode_after s m = Inr m'"
  shows "CLEAR_MODE_BIT m' = CLEAR_MODE_BIT m"
proof -
  obtain bits where "m' = pack_bits bits (CLEAR_MODE_BIT m)"
    using assms by (cases "apply_mode_list s (unpack_bits m)") (auto simp: mode_after_def)
  moreover have "set (map snd (zip bits modes)) \<subseteq> set modes"
    by (auto simp: set_zip_rightD)
  ultimately show ?thesis
    by (simp add: pack_bits_def foldl_add_row_CLEAR)
qed

lemma bit_FFF: "bit (0xFFF :: mode_t) n \<longleftrightarrow> n < 12"
  using bit_mask_iff [where 'a = "32 word", of 12 n] by (auto simp: possible_bit_def mask_numeral)

lemma mode_stored:
  assumes "CLEAR_MODE_BIT m' = CLEAR_MODE_BIT m"
  shows "(m AND NOT 0xFFF) OR (m' AND 0xFFF) = m'"
proof (rule bit_eqI)
  fix n assume n: "possible_bit TYPE(32 word) n"
  have "bit (CLEAR_MODE_BIT m') n = bit (CLEAR_MODE_BIT m) n"
    using assms by simp
  then show "bit ((m AND NOT 0xFFF) OR (m' AND 0xFFF)) n = bit m' n"
    using n unfolding bit_CLEAR bit_or_iff bit_and_iff bit_not_iff bit_FFF
    by (auto simp: possible_bit_def)
qed

text \<open>
  Chmod MODE FILE stores in the file the mode that the MODE string makes of its old
  one, touches no other file, prints nothing and exits 0.
\<close>

theorem chmod_list_run:
  assumes "NUL \<notin> set s" "s \<noteq> [] \<longrightarrow> \<not> is_digit (hd s)" "no_fail w"
    and "fs_nodes w f = Some n" "length f < PATH_MAX" "mode_after s (st_mode n) = Inr m"
  shows "\<exists>w'. chmod_main [] [s, f] prev (chmod_start rtl w) = Ret EXIT_SUCCESS w'
    \<and> fs_nodes w' = (fs_nodes w)(f \<mapsto> n\<lparr>st_mode := m\<rparr>) \<and> io_out w' = io_out w \<and> io_err w' = io_err w"
proof -
  define w0 where "w0 = chmod_start rtl w"
  have o: "chmod_options [] w0 = Ret () (w0\<lparr>c_cflag := False, c_vflag := False, c_Rflag := False\<rparr>)"
    by (simp add: w0_def chmod_start_def fs.defs)
  define w1 where "w1 = set_flags False False False s w0"
  note run = chmod_main_list [OF o assms(1,2), unfolded w0_def, OF chmod_start_fields(1-3),
      folded w0_def, folded w1_def]
  have w1: "no_fail w1" "fs_nodes w1 f = Some n" "Option.bind (c_mode_list w1) c_string = Some s"
      "\<not> c_cflag w1" "\<not> c_vflag w1" "\<not> c_Rflag w1" 
    using assms(3,4) c_string_of [OF assms(1)] by (simp_all add: w1_def w0_def)
  define w2 where "w2 = (tick w1)\<lparr>c_statbuf := m\<rparr>"
  define w3 where "w3 = put_node f (n\<lparr>st_mode := m\<rparr>) (tick w2)"
  have w2: "no_fail w2" "fs_nodes w2 f = Some n"
    using w1(1,2) no_fail_tick [OF w1(1)] by (simp_all add: w2_def no_fail_def)
  have stored: "(st_mode n AND NOT 0xFFF) OR (m AND 0xFFF) = m"
    by (rule mode_stored) (rule CLEAR_mode_after [OF assms(6)])
  have flags: "\<not> c_cflag w3" "\<not> c_vflag w3" "\<not> c_Rflag w3"
    using w1(4-6) by (cases w1; simp add: w3_def w2_def put_node_def tick_def)+
  have "change_mode_list below f (st_mode n) (tick w1) = Ret True w3" for below
    using w1 w2 assms(5,6) flags stored
    by (simp add: change_mode_list_def bindp_unfold thenp_unfold set_statbuf_def w2_def [symmetric]
        io_simps w3_def [symmetric] print_info_def)
  then have "process_mode_list DEPTH f w1 = Ret True w3"
    using w1 assms(5) by (simp add: DEPTH_def bindp_unfold io_simps)
  then have "chmod_main [] [s, f] prev w0 = Ret EXIT_SUCCESS w3"
    by (simp add: run bindp_unfold)
  then show ?thesis
    by (simp add: w0_def [symmetric]) (simp add: w3_def w2_def w1_def w0_def)
qed

section \<open>Octal modes\<close>

lemma octs_digits: "list_all (\<lambda>c. 48 \<le> (of_char c :: nat) \<and> (of_char c :: nat) < 56) (octs n)"
proof (induction n rule: octs.induct)
  case (1 n)
  have "of_char (char_of (48 + d) :: char) = 48 + d" if "d < 8" for d :: nat
    using that by (intro of_char_digit) simp
  with 1 show ?case
    by (subst octs.simps) simp
qed

lemma ISOCTAL_nat: "ISOCTAL c \<longleftrightarrow> 48 \<le> (of_char c :: nat) \<and> (of_char c :: nat) < 56"
proof -
  obtain n :: nat where n: "of_char c = n" "n < 256"
    using nat_of_char_less_256 [of c] by blast
  have "schar c = (if n < 128 then int n else int n - 256)"
    by (simp only: schar_def Let_def n)
  then show ?thesis
    using n by (auto simp: ISOCTAL_def)
qed

lemma foldl_digits_mono: "b \<le> foldl (\<lambda>v c. v * 8 + (of_char c - 48)) (b :: nat) s"
proof (induction s arbitrary: b)
  case (Cons c s)
  have "b \<le> b * 8 + (of_char c - 48)"
    by simp
  with Cons [of "b * 8 + (of_char c - 48)"] show ?case
    by (simp only: foldl_Cons)
qed simp

lemma string2octal_digits:
  assumes "list_all (\<lambda>c. 48 \<le> (of_char c :: nat) \<and> (of_char c :: nat) < 56) s"
    and "foldl (\<lambda>v c. v * 8 + (of_char c - 48)) a s < 2 ^ 31"
  shows "string2octal_from (int a) s = Inr (int (foldl (\<lambda>v c. v * 8 + (of_char c - 48)) a s))"
  using assms
proof (induction s arbitrary: a)
  case Nil
  then show ?case by simp
next
  case (Cons c s)
  define b where "b = a * 8 + (of_char c - 48)"
  have "int a * 8 + (schar c - 48) = int b"
    using Cons.prems(1) schar_digit [of c] by (simp add: is_digit_def b_def)
  moreover have "b < 2 ^ 31"
    using foldl_digits_mono [of b s] Cons.prems(2) by (simp add: b_def)
  ultimately show ?case
    using Cons.IH [of b] Cons.prems by (simp add: ISOCTAL_nat b_def)
qed

lemma string2octal_octs: "n < 2 ^ 31 \<Longrightarrow> string2octal (octs n) = Inr (int n)"
  using string2octal_digits [OF octs_digits, of 0 n] oct_value_octs [of n]
  by (simp add: string2octal_def oct_value_def)


lemma octs_no_NUL: "NUL \<notin> set (octs n)"
  using octs_digits [of n] by (auto simp: list_all_iff NUL_def)

lemma octs_hd_digit: "is_digit (hd (octs n))"
  using octs_digits [of n] by (cases "octs n") (auto simp: is_digit_def)

text \<open>
  Chmod with an octal number gives a file those permission bits and keeps its other
  bits; bits beyond the known ones, such as the sticky bit, are dropped.
\<close>

theorem chmod_octal_run:
  assumes "k < 2 ^ 31" "no_fail w" "fs_nodes w f = Some n" "length f < PATH_MAX"
  shows "\<exists>w'. chmod_main [] [octs k, f] prev (chmod_start rtl w) = Ret EXIT_SUCCESS w'
    \<and> fs_nodes w' = (fs_nodes w)(f \<mapsto> n\<lparr>st_mode := CLEAR_MODE_BIT (st_mode n) OR GET_MODE_BIT (of_nat k)\<rparr>)"
proof -
  define w0 where "w0 = chmod_start rtl w"
  define g where "g = GET_MODE_BIT (of_nat k)"
  define m where "m = CLEAR_MODE_BIT (st_mode n) OR g"
  define w1 where "w1 = w0\<lparr>c_mode_list := Some (map Some (octs k @ [NUL])), c_mode := g,
    c_has_parse_mode := True\<rparr>"
  define w2 where "w2 = (tick w1)\<lparr>c_statbuf := m\<rparr>"
  define w3 where "w3 = put_node f (n\<lparr>st_mode := m\<rparr>) (tick w2)"
  obtain c cs where oc: "octs k = c # cs" "is_digit c"
    using octs_hd_digit [of k] octs_nonempty [of k] by (cases "octs k") auto
  have str: "c_string (Some c # map Some cs @ [Some NUL]) = Some (octs k)"
    using c_string_of [OF octs_no_NUL, of k] oc(1) by simp
  have parse: "chmod_parse_mode [octs k, f] prev w0 = Ret ([f], octs k) w1"
    using assms(1) oc str string2octal_octs [of k]
    by (simp add: chmod_parse_mode_def bindp_unfold thenp_unfold w0_def w1_def g_def Let_def oc(1))
  have "g \<le> MODE_BIT"
    by (simp add: g_def GET_MODE_BIT_def word_and_le1)
  then have small: "\<not> 0xFFF < g"
    by (simp add: MODE_BIT_def not_less order.trans)
  have "bit (CLEAR_MODE_BIT m) i = bit (CLEAR_MODE_BIT (st_mode n)) i" for i
    by (auto simp: bit_CLEAR m_def g_def GET_MODE_BIT_def bit_or_iff bit_and_iff bit_MODE_BIT)
  then have stored: "(st_mode n AND NOT 0xFFF) OR (m AND 0xFFF) = m"
    by (intro mode_stored bit_eqI) simp
  have w1: "no_fail w1" "fs_nodes w1 f = Some n"
    using assms(2,3) by (simp_all add: w1_def w0_def no_fail_def)
       (simp_all add: chmod_start_def fs.defs)
  have w2: "no_fail w2" "fs_nodes w2 f = Some n"
    using w1 no_fail_tick [OF w1(1)] by (simp_all add: w2_def no_fail_def)
  have f1: "c_mode (tick w1) = g" "c_has_parse_mode w1" "c_mode w1 = g"
      "\<not> c_Rflag (tick w1)" "\<not> c_cflag w3" "\<not> c_vflag w3"
    by (simp_all add: w1_def w0_def w2_def w3_def put_node_def tick_def)
  have "change_mode below f (st_mode n) (tick w1) = Ret True w3" for below
    using w2 assms(4) stored f1
    by (simp add: change_mode_def bindp_unfold thenp_unfold set_statbuf_def Let_def m_def [symmetric]
        w2_def [symmetric] io_simps w3_def [symmetric] print_info_def)
  then have "process_mode DEPTH f w1 = Ret True w3"
    using w1 assms(4) by (simp add: DEPTH_def bindp_unfold io_simps)
  then have "chmod_main [] [octs k, f] prev w0 = Ret EXIT_SUCCESS w3"
    using parse f1 small by (simp add: chmod_main_def thenp_unfold bindp_unfold)
  then show ?thesis
    by (simp add: w0_def [symmetric]) (simp add: w3_def w2_def w1_def w0_def m_def g_def)
qed

section \<open>What the code does not do\<close>

text \<open>
  Of a clause with several operators only the last one is carried out: what stands
  before it counts for its class letters only.
\<close>

theorem chmod_earlier_ops_ignored:
  assumes "CHR '','' \<notin> set pre" "CHR '','' \<notin> set post" "ISOP opc" "\<not> list_ex ISOP post"
    and "filter (\<lambda>c. c \<in> set ''ugoa'') pre \<noteq> []"
  shows "mode_after (pre @ opc # post) m = mode_after (filter (\<lambda>c. c \<in> set ''ugoa'') pre @ opc # post) m"
proof -
  define ws where "ws = filter (\<lambda>c. c \<in> set ''ugoa'') pre"
  have "CHR '','' \<notin> set (pre @ opc # post)" "CHR '','' \<notin> set (ws @ opc # post)"
    using assms(1-3) by (auto simp: ISOP_def ws_def)
  moreover have "class_flags pre = class_flags ws" "ws \<noteq> []" "pre \<noteq> []"
    using assms(5) by (auto simp: class_flags_def search_iff who_def Let_def ws_def)
  ultimately have "mode_after (pre @ opc # post) m = mode_after (ws @ opc # post) m"
    using assms(3,4)
    by (simp add: mode_after_def apply_mode_list_one apply_clause_def split_op_last)
  then show ?thesis
    by (simp only: ws_def)
qed

text \<open>
  When the system refuses to change the mode, a run with a MODE string reports
  nothing and exits 0.
\<close>

theorem chmod_failure_ignored:
  assumes "NUL \<notin> set s" "s \<noteq> [] \<longrightarrow> \<not> is_digit (hd s)" "io_plan w = [Full, Fail e]"
    and "fs_nodes w f = Some n" "length f < PATH_MAX" "mode_after s (st_mode n) = Inr m"
  shows "\<exists>w'. chmod_main [] [s, f] prev (chmod_start rtl w) = Ret EXIT_SUCCESS w'
    \<and> fs_nodes w' = fs_nodes w \<and> io_err w' = io_err w"
proof -
  define w0 where "w0 = chmod_start rtl w"
  have o: "chmod_options [] w0 = Ret () (w0\<lparr>c_cflag := False, c_vflag := False, c_Rflag := False\<rparr>)"
    by (simp add: w0_def chmod_start_def fs.defs)
  define w1 where "w1 = set_flags False False False s w0"
  note run = chmod_main_list [OF o assms(1,2), unfolded w0_def, OF chmod_start_fields(1-3),
      folded w0_def, folded w1_def]
  have w1: "io_plan w1 = [Full, Fail e]" "fs_nodes w1 f = Some n"
      "Option.bind (c_mode_list w1) c_string = Some s"
    using assms(3,4) c_string_of [OF assms(1)]
    by (simp_all add: w1_def w0_def) (simp_all add: set_flags_def chmod_start_def fs.defs)
  define w2 where "w2 = set_errno e (tick ((tick w1)\<lparr>c_statbuf := m\<rparr>))"
  have stat: "sys_stat f w1 = Ret (Some n) (tick w1)"
    using w1 assms(5) by (simp add: sys_stat_def outcome_of_def)
  have chm: "sys_chmod f m ((tick w1)\<lparr>c_statbuf := m\<rparr>) = Ret False w2"
    using w1 assms(5) by (simp add: sys_chmod_def outcome_of_def w2_def tick_def)
  have flags: "\<not> c_cflag w2" "\<not> c_vflag w2" "\<not> c_Rflag w2"
    by (simp_all add: w2_def w1_def w0_def tick_def set_errno_def set_flags_def chmod_start_def fs.defs)
  have "change_mode_list below f (st_mode n) (tick w1) = Ret True w2" for below
    using w1 assms(6) flags
    by (simp add: change_mode_list_def bindp_unfold thenp_unfold set_statbuf_def chm print_info_def)
  then have "process_mode_list DEPTH f w1 = Ret True w2"
    by (simp add: DEPTH_def bindp_unfold stat)
  then have "chmod_main [] [s, f] prev w0 = Ret EXIT_SUCCESS w2"
    by (simp add: run bindp_unfold)
  then show ?thesis
    by (simp add: w0_def [symmetric])
      (simp add: w2_def w1_def w0_def set_errno_def tick_def set_flags_def chmod_start_def fs.defs)
qed
section \<open>Witnesses\<close>

definition plain_file :: fnode where
  "plain_file = \<lparr>st_mode = 0x81A4, st_uid = 1000, st_gid = 1000, n_entries = []\<rparr>"

definition one_file :: "outcome list \<Rightarrow> fs" where
  "one_file plan = io.extend (empty_io\<lparr>io_plan := plan\<rparr>) (fs.fields [''f'' \<mapsto> plain_file])"

lemma one_file_fields [simp]:
  "fs_nodes (one_file p) = [''f'' \<mapsto> plain_file]" "io_plan (one_file p) = p" "io_out (one_file p) = []"
  "io_err (one_file p) = []" "no_fail (one_file []) = True"
  by (simp_all add: one_file_def empty_io_def io.defs fs.defs no_fail_def)


lemma u_plus_x: "mode_after ''u+x'' 0x81A4 = Inr 0x81E4"
  by code_simp

theorem chmod_symbolic_witness:
  "\<exists>m'. mode_after ''u+x'' 0x81A4 = Inr m' \<and> has_perm m' 0 2 \<and> \<not> has_perm m' 1 2"
  using chmod_symbolic [of "''u''" "CHR ''+''" "''x''" "0x81A4"]
  by (simp add: ISOP_def mc_def less_three less_four selected_def who_def del: One_nat_def)
    (auto simp: has_perm_def modes_def)

theorem chmod_list_run_witness:
  "\<exists>w'. chmod_main [] [''u+x'', ''f''] [] (chmod_start True (one_file [])) = Ret EXIT_SUCCESS w'
     \<and> fs_nodes w' = [''f'' \<mapsto> plain_file\<lparr>st_mode := 0x81E4\<rparr>]"
  using chmod_list_run [of "''u+x''" "one_file []" "''f''" plain_file "0x81E4" "[]" True] u_plus_x
  by (auto simp: NUL_def is_digit_def PATH_MAX_def plain_file_def)


theorem chmod_octal_run_witness:
  "\<exists>w'. chmod_main [] [octs 493, ''f''] [] (chmod_start True (one_file [])) = Ret EXIT_SUCCESS w'
     \<and> fs_nodes w' = [''f'' \<mapsto> plain_file\<lparr>st_mode := 0x81ED\<rparr>]"
  using chmod_octal_run [of 493 "one_file []" "''f''" plain_file "[]" True]
  by (auto simp: PATH_MAX_def plain_file_def CLEAR_MODE_BIT_def GET_MODE_BIT_def MODE_BIT_def)

theorem chmod_earlier_ops_ignored_witness:
  "mode_after ''u=r+w'' 0x81ED = mode_after ''u+w'' 0x81ED"
  using chmod_earlier_ops_ignored [of "''u=r''" "''w''" "CHR ''+''" "0x81ED"] by (simp add: ISOP_def)

theorem chmod_failure_ignored_witness:
  "\<exists>w'. chmod_main [] [''u+x'', ''f''] [] (chmod_start True (one_file [Full, Fail 1])) = Ret EXIT_SUCCESS w'
     \<and> fs_nodes w' = [''f'' \<mapsto> plain_file] \<and> io_err w' = []"
  using chmod_failure_ignored [of "''u+x''" "one_file [Full, Fail 1]" 1 "''f''" plain_file "0x81E4" "[]" True] u_plus_x
  by (auto simp: NUL_def is_digit_def PATH_MAX_def plain_file_def)

end
