(* ===== verification/Cat.thy ===== *)
theory Cat
  imports Posix_Io
begin

text \<open>
  cmd/src/cat.c: files copied to standard output, with numbered lines, squeezed blank lines,
  marked line ends and visible tabs. The buffers of the source are modelled with their sizes:
  a write past the end of the output buffer is undefined behaviour.
\<close>

section \<open>The line counter\<close>

text \<open>
  \<open>line_buf\<close> and the two of its three pointers that move, as indices; \<open>line_num_end\<close> stays
  at 17.
\<close>

record line_counter =
  line_buf :: string
  line_num_start :: nat
  line_num_print :: nat

definition LINE_COUNTER_BUF_LEN :: nat where
  "LINE_COUNTER_BUF_LEN = 20"

definition line_num_end :: nat where
  "line_num_end = LINE_COUNTER_BUF_LEN - 3"

definition line_counter_init :: line_counter where
  "line_counter_init =
     \<lparr>line_buf = replicate 17 (CHR '' '') @ [CHR ''0'', TAB, NUL],
      line_num_start = LINE_COUNTER_BUF_LEN - 3, line_num_print = LINE_COUNTER_BUF_LEN - 8\<rparr>"

text \<open>The loop of \<open>next_line_num\<close>: the buffer, and whether it returned from inside.\<close>

function next_digit :: "nat \<Rightarrow> nat \<Rightarrow> string \<Rightarrow> string \<times> bool" where
  "next_digit start endp buf =
     (if (of_char (buf ! endp) :: nat) < 57
      then (buf[endp := char_of (of_char (buf ! endp) + 1 :: nat)], True)
      else let buf' = buf[endp := CHR ''0''] in
           if endp \<le> start then (buf', False) else next_digit start (endp - 1) buf')"
  by pat_completeness auto
termination
  by (relation "measure (\<lambda>(s, e, b). e)") auto

declare next_digit.simps [simp del]

definition next_line_num :: "line_counter \<Rightarrow> line_counter" where
  "next_line_num lc =
     (case next_digit (line_num_start lc) line_num_end (line_buf lc) of (buf, done) \<Rightarrow>
        if done then lc\<lparr>line_buf := buf\<rparr>
        else let lc1 = (if line_num_start lc > 0
                        then lc\<lparr>line_num_start := line_num_start lc - 1,
                                line_buf := buf[line_num_start lc - 1 := CHR ''1'']\<rparr>
                        else lc\<lparr>line_buf := buf[0 := CHR ''>'']\<rparr>)
             in if line_num_start lc1 < line_num_print lc1
                then lc1\<lparr>line_num_print := line_num_print lc1 - 1\<rparr> else lc1)"

text \<open>The string at \<open>line_num_print\<close>.\<close>

definition line_num_string :: "line_counter \<Rightarrow> string" where
  "line_num_string lc = takeWhile (\<lambda>c. c \<noteq> NUL) (drop (line_num_print lc) (line_buf lc))"

section \<open>State\<close>

record cat_opts =
  Aflag :: bool
  bflag :: bool
  eflag :: bool
  Eflag :: bool
  nflag :: bool
  sflag :: bool
  tflag :: bool
  Tflag :: bool
  vflag :: bool

record cat_state = io +
  k_opts :: cat_opts
  k_newlines2 :: int
  k_counter :: line_counter
  k_out_blksize :: nat    \<comment> \<open>\<open>st_blksize\<close> of standard output and of the input files\<close>
  k_in_blksize :: nat

definition cat_start :: "nat \<Rightarrow> nat \<Rightarrow> io \<Rightarrow> cat_state" where
  "cat_start out_blk in_blk w = io.extend w
     \<lparr>k_opts = \<lparr>Aflag = False, bflag = False, eflag = False, Eflag = False, nflag = False,
                sflag = False, tflag = False, Tflag = False, vflag = False\<rparr>,
      k_newlines2 = 0, k_counter = line_counter_init,
      k_out_blksize = out_blk, k_in_blksize = in_blk\<rparr>"

definition cat_usage_text :: "string list" where
  "cat_usage_text =
   [''Usage: cat [OPTION]... [FILE]...'',
    ''Concatenate FILE(s) to standard output.'', [],
    ''With no FILE, or when FILE is -, read standard input.'', [],
    ''  -A, --show-all           equivalent to -vET'',
    ''  -b, --number-nonblank    number nonempty output lines, overrides -n'',
    ''  -e                       equivalent to -vE'',
    ''  -E, --show-ends          display $ at end of each line'',
    ''  -n, --number             number all output lines'',
    ''  -t                       equivalent to -vT'',
    ''  -s, --squeeze-blank      suppress repeated empty output lines'',
    ''  -T, --show-tabs          display TAB characters as ^I'',
    ''  -u                       (ignored)'',
    ''  -v, --show-nonprinting   use ^ and M- notation, except for LFD and TAB'',
    ''      --help     display this help and exit'',
    ''      --version  output version information and exit'',
    [], ''Examples:'',
    ''  cat f - g  Output f's contents, then standard input, then g's contents.'',
    ''  cat        Copy standard input to standard output.'']"

definition cat_usage :: "int \<Rightarrow> ('z io_scheme, 'a) prog" where
  "cat_usage status =
     thenp (if status = EXIT_SUCCESS then put (concat (map (\<lambda>l. l @ [NL]) cat_usage_text)) else retp ())
       (exitp status)"

definition perror :: "string \<Rightarrow> ('z io_scheme, unit) prog" where
  "perror s = eputs s []"

section \<open>Reading and writing\<close>

text \<open>
  Both loops skip the bookkeeping of a call that succeeded whenever \<open>errno\<close> still holds
  \<open>EINTR\<close>; when nothing can change that any more they never end, and \<open>Undef\<close> stands for that.
\<close>

lemma sys_read_plan: "sys_read n w = Ret r w' \<Longrightarrow> io_plan w' = tl (io_plan w)"
  by (auto simp: sys_read_def tick_def set_errno_def split: if_splits outcome.splits)

lemma sys_read_data: "sys_read n w = Ret r w' \<Longrightarrow> io_data w' = io_data w"
  by (auto simp: sys_read_def set_errno_def split: if_splits outcome.splits)

function safe_read_loop :: "nat \<Rightarrow> string \<Rightarrow> ('z io_scheme, string) prog" where
  "safe_read_loop rem got w =
     (if rem = 0 then Ret got w
      else (case sys_read rem w of
          Ret None w' \<Rightarrow> Ret got w'
        | Ret (Some bs) w' \<Rightarrow>
            if io_errno w' = EINTR
            then if bs = [] \<and> io_plan w' = [] then Undef else safe_read_loop rem got w'
            else if bs = [] then Ret got w'
            else safe_read_loop (rem - length bs) (got @ bs) w'
        | Exit k w' \<Rightarrow> Exit k w' | Undef \<Rightarrow> Undef))"
  by pat_completeness auto
termination
proof (relation "measure (\<lambda>(r, g, w). length (io_plan w) + (length (io_data w) - io_pos w))", goal_cases)
  case (2 rem got w r w' bs)
  show ?case
  proof (cases "bs = []")
    case True
    then have "io_plan w' \<noteq> []" "io_plan w' = tl (io_plan w)" "io_data w' = io_data w" "io_pos w' = io_pos w"
      using 2 sys_read_plan [of rem w "Some bs" w'] sys_read_Some [of rem w bs w'] by auto
    then show ?thesis
      by (cases "io_plan w") auto
  next
    case False
    then show ?thesis
      using 2 sys_read_plan [of rem w "Some bs" w'] sys_read_measure [of rem w bs w'] by auto
  qed
next
  case (3 rem got w r w' bs)
  then show ?case
    using sys_read_plan [of rem w "Some bs" w'] sys_read_measure [of rem w bs w'] by auto
qed simp

declare safe_read_loop.simps [simp del]

definition safe_read :: "nat \<Rightarrow> ('z io_scheme, string) prog" where
  "safe_read n = safe_read_loop n []"

function safe_write_loop :: "string \<Rightarrow> nat \<Rightarrow> ('z io_scheme, nat) prog" where
  "safe_write_loop buf written w =
     (if buf = [] then Ret written w
      else (case sys_write buf w of
          Ret None w' \<Rightarrow> Ret written w'
        | Ret (Some n) w' \<Rightarrow>
            if io_errno w' = EINTR
            then if io_plan w' = [] then Undef else safe_write_loop buf written w'
            else safe_write_loop (drop n buf) (written + n) w'
        | Exit k w' \<Rightarrow> Exit k w' | Undef \<Rightarrow> Undef))"
  by pat_completeness auto
termination
proof (relation "measure (\<lambda>(b, n, w). length b + length (io_plan w))", goal_cases)
  case (2 buf written w r w' n)
  then have "io_plan w' = tl (io_plan w)" "io_plan w' \<noteq> []"
    by (auto simp: sys_write_def tick_def split: outcome.splits)
  then show ?case
    by (cases "io_plan w") auto
next
  case (3 buf written w r w' n)
  then have "io_plan w' = tl (io_plan w)" "0 < n"
    by (auto simp: sys_write_def tick_def min_def split: outcome.splits if_splits)
  then show ?case
    using 3(1) by (cases buf) auto
qed simp

declare safe_write_loop.simps [simp del]

definition safe_write :: "string \<Rightarrow> ('z io_scheme, nat) prog" where
  "safe_write buf = safe_write_loop buf 0"

definition write_pending :: "string \<Rightarrow> ('z io_scheme, unit) prog" where
  "write_pending out =
     (if 0 < length out
      then bindp (safe_write out) (\<lambda>n. if n \<noteq> length out then perror ''write error'' else retp ())
      else retp ())"

text \<open>\<open>strncpy(outbuf, wout, rem)\<close>: what is behind a NUL is replaced by NULs.\<close>

definition strncpy :: "string \<Rightarrow> nat \<Rightarrow> string" where
  "strncpy src n = (let s = take n (takeWhile (\<lambda>c. c \<noteq> NUL) src) in s @ replicate (n - length s) NUL)"

text \<open>
  The flush: whole blocks are written, the rest moves to the front. (\<open>st_blksize\<close> is positive;
  with blocks of no bytes the loop would not end.)
\<close>

function flush_blocks :: "nat \<Rightarrow> string \<Rightarrow> ('z io_scheme, string) prog" where
  "flush_blocks outsize out w =
     (if outsize = 0 then Undef
      else (case safe_write (take outsize out) w of
          Ret n w' \<Rightarrow>
            if n \<noteq> outsize then thenp (eputs ''safe write failed'' []) (exitp 1) w'
            else if outsize \<le> length (drop outsize out)
                 then flush_blocks outsize (drop outsize out) w'
                 else Ret (strncpy (drop outsize out) (length out - outsize)) w'
        | Exit k w' \<Rightarrow> Exit k w' | Undef \<Rightarrow> Undef))"
  by pat_completeness auto
termination
  by (relation "measure (\<lambda>(n, out, w). length out)") auto

declare flush_blocks.simps [simp del]

definition flush_out :: "nat \<Rightarrow> string \<Rightarrow> ('z io_scheme, string) prog" where
  "flush_out outsize out = (if outsize \<le> length out then flush_blocks outsize out else retp out)"

section \<open>The copying loops\<close>

text \<open>\<open>stpcpy(bpout, line_num_print)\<close> after the counter was advanced; it also stores a NUL.\<close>

definition put_number :: "nat \<Rightarrow> string \<Rightarrow> (cat_state, string) prog" where
  "put_number bufsize out =
     thenp (modifyp (\<lambda>w. w\<lparr>k_counter := next_line_num (k_counter w)\<rparr>))
     (bindp (getsp (\<lambda>w. line_num_string (k_counter w))) (\<lambda>s.
        if length out + length s + 1 \<le> bufsize then retp (out @ s) else undefp))"

definition put_chars :: "nat \<Rightarrow> string \<Rightarrow> string \<Rightarrow> (cat_state, string) prog" where
  "put_chars bufsize out s = (if length out + length s \<le> bufsize then retp (out @ s) else undefp)"

text \<open>
  The loop over the characters of a line, up to and with the newline that ends it or the
  sentinel behind the last byte that was read: what it writes, and what is left in the buffer.
\<close>

fun copy_line :: "bool \<Rightarrow> string \<Rightarrow> string \<times> string" where
  "copy_line tabs [] = ([], [])"
| "copy_line tabs (ch # rest) =
     (if ch = TAB \<and> tabs then map_prod (\<lambda>s. CHR ''^'' # char_of (of_char ch + 64 :: nat) # s) id (copy_line tabs rest)
      else if ch \<noteq> NL then map_prod (Cons ch) id (copy_line tabs rest)
      else ([], rest))"

lemma copy_line_length: "length (snd (copy_line tabs rest)) \<le> length rest"
  by (induction rest) auto

text \<open>
  The newline that was read last is written, unless it is squeezed: the branch of the inner
  loop for a buffer that is not empty. The result is the new count of newlines.
\<close>

definition put_newline :: "nat \<Rightarrow> int \<Rightarrow> string \<Rightarrow> (cat_state, int \<times> string) prog" where
  "put_newline bufsize newlines out =
     bindp (getsp k_opts) (\<lambda>opts.
     let nl = newlines + 1 in
     if nl \<ge> 2 \<and> sflag opts then retp (2, out)
     else bindp (if nl > 0 \<and> nflag opts \<and> \<not> bflag opts then put_number bufsize out else retp out) (\<lambda>out1.
          bindp (put_chars bufsize out1 ((if Eflag opts then ''$'' else []) @ [NL])) (\<lambda>out2.
            retp (if nl \<ge> 2 then 2 else nl, out2))))"

definition put_line :: "nat \<Rightarrow> int \<Rightarrow> string \<Rightarrow> string \<Rightarrow> (cat_state, string \<times> string) prog" where
  "put_line bufsize newlines cs out =
     bindp (getsp k_opts) (\<lambda>opts.
     bindp (if newlines \<ge> 0 \<and> nflag opts then put_number bufsize out else retp out) (\<lambda>out1.
     case copy_line (Tflag opts) cs of (s, rest) \<Rightarrow>
       bindp (put_chars bufsize out1 s) (\<lambda>out2. retp (rest, out2))))"

text \<open>What the writing routines leave alone.\<close>

definition same_input :: "'z io_scheme \<Rightarrow> 'z io_scheme \<Rightarrow> bool" where
  "same_input w w' \<longleftrightarrow> io_data w' = io_data w \<and> io_pos w' = io_pos w"

lemma safe_write_loop_input:
  "safe_write_loop buf written w = Ret n w' \<Longrightarrow> same_input w w'"
proof (induction buf written w rule: safe_write_loop.induct)
  case (1 buf written w)
  have step: "same_input w v" if "sys_write buf w = Ret r v" for r v
    using that by (auto simp: sys_write_def same_input_def set_errno_def split: outcome.splits)
  show ?case
    using 1 step safe_write_loop.simps [of buf written w]
    by (auto simp: same_input_def split: if_splits result.splits option.splits)
qed

lemma flush_out_input: "flush_out outsize out w = Ret out' w' \<Longrightarrow> same_input w w'"
proof -
  have "flush_blocks outsize out w = Ret out' w' \<Longrightarrow> same_input w w'"
  proof (induction outsize out w rule: flush_blocks.induct)
    case (1 outsize out w)
    show ?case
      using 1 safe_write_loop_input [of "take outsize out" 0 w] flush_blocks.simps [of outsize out w]
      by (auto simp: same_input_def safe_write_def prog_simps split: if_splits result.splits)
  qed
  then show "flush_out outsize out w = Ret out' w' \<Longrightarrow> same_input w w'"
    by (auto simp: flush_out_def same_input_def split: if_splits)
qed

lemma write_pending_input: "write_pending out w = Ret u w' \<Longrightarrow> same_input w w'"
  using safe_write_loop_input [of out 0 w]
  by (auto simp: write_pending_def safe_write_def prog_simps perror_def eputs_def same_input_def
      split: if_splits result.splits)

lemma put_number_input: "put_number bufsize out w = Ret u w' \<Longrightarrow> same_input w w'"
  by (auto simp: put_number_def prog_simps same_input_def split: if_splits)

lemma put_line_input:
  "put_line bufsize newlines cs out w = Ret (rest, out') w' \<Longrightarrow> same_input w w' \<and> rest = snd (copy_line (Tflag (k_opts w)) cs)"
  using put_number_input [of bufsize out w]
  by (auto simp: put_line_def prog_simps put_chars_def same_input_def split: if_splits result.splits prod.splits)

lemma put_newline_input: "put_newline bufsize newlines out w = Ret r w' \<Longrightarrow> same_input w w'"
  using put_number_input [of bufsize out w]
  by (auto simp: put_newline_def prog_simps put_chars_def same_input_def Let_def split: if_splits result.splits)

lemma put_line_shorter:
  assumes "put_line bufsize newlines cs out w = Ret (rest, out') w'" "cs \<noteq> []" "hd cs \<noteq> NL"
  shows "length rest < length cs"
  using put_line_input [OF assms(1)] assms(2,3) copy_line_length [of _ "tl cs"]
  by (cases cs) (auto simp: less_Suc_eq_le)

lemma safe_read_loop_input:
  "safe_read_loop rem got w = Ret bs w' \<Longrightarrow>
     length (io_data w') - io_pos w' \<le> length (io_data w) - io_pos w
     \<and> (bs \<noteq> got \<longrightarrow> length (io_data w') - io_pos w' < length (io_data w) - io_pos w)"
proof (induction rem got w rule: safe_read_loop.induct)
  case (1 rem got w)
  show ?case
  proof (cases "sys_read rem w")
    case (Ret r v)
    have "r = None \<Longrightarrow> io_data v = io_data w \<and> io_pos v = io_pos w"
      using Ret by (auto simp: sys_read_def set_errno_def split: if_splits outcome.splits)
    moreover have "length (io_data v) - io_pos v < length (io_data w) - io_pos w"
      if "r = Some b" "b \<noteq> []" for b
      using sys_read_measure [of rem w b v] that Ret by simp
    moreover have "io_data v = io_data w \<and> io_pos v = io_pos w" if "r = Some []"
      using sys_read_Some [of rem w "[]" v] that Ret by auto
    ultimately show ?thesis
      using 1 Ret safe_read_loop.simps [of rem got w]
      by (cases r) (fastforce split: if_splits)+
  qed (use 1 safe_read_loop.simps [of rem got w] in \<open>auto split: if_splits\<close>)
qed

lemma safe_read_input:
  "safe_read n w = Ret bs w' \<Longrightarrow> bs \<noteq> [] \<Longrightarrow>
     length (io_data w') - io_pos w' < length (io_data w) - io_pos w"
  using safe_read_loop_input [of n "[]" w bs w'] by (simp add: safe_read_def)

lemma fill_input:
  "thenp (write_pending out) (safe_read n) w = Ret bs w' \<Longrightarrow> bs \<noteq> [] \<Longrightarrow>
     length (io_data w') - io_pos w' < length (io_data w) - io_pos w"
  using write_pending_input [of out w] safe_read_input [of n _ bs w']
  by (fastforce simp: prog_simps same_input_def split: result.splits)

text \<open>
  \<open>rest\<close> is what lies from \<open>bpin\<close> to the sentinel, \<open>out\<close> what lies from \<open>outbuf\<close> to \<open>bpout\<close>.
  Where \<open>rest\<close> is not empty the character read last was a newline.
\<close>

function cat_loop :: "nat \<Rightarrow> nat \<Rightarrow> nat \<Rightarrow> int \<Rightarrow> string \<Rightarrow> string \<Rightarrow> (cat_state, bool) prog" where
  "cat_loop insize outsize bufsize newlines rest out w =
     (case flush_out outsize out w of
        Exit k w1 \<Rightarrow> Exit k w1 | Undef \<Rightarrow> Undef
      | Ret out1 w1 \<Rightarrow>
          if rest = []
          then (case thenp (write_pending out1) (safe_read insize) w1 of
              Exit k w2 \<Rightarrow> Exit k w2 | Undef \<Rightarrow> Undef
            | Ret inbuf w2 \<Rightarrow>
                if inbuf = [] then Ret True (w2\<lparr>k_newlines2 := newlines\<rparr>)
                else if hd inbuf = NL
                then cat_loop insize outsize bufsize newlines (tl inbuf @ [NL]) [] w2
                else (case put_line bufsize newlines (inbuf @ [NL]) [] w2 of
                    Exit k w3 \<Rightarrow> Exit k w3 | Undef \<Rightarrow> Undef
                  | Ret (rest', out3) w3 \<Rightarrow> cat_loop insize outsize bufsize (- 1) rest' out3 w3))
          else (case put_newline bufsize newlines out1 w1 of
              Exit k w2 \<Rightarrow> Exit k w2 | Undef \<Rightarrow> Undef
            | Ret (newlines', out2) w2 \<Rightarrow>
                if hd rest = NL
                then cat_loop insize outsize bufsize newlines' (tl rest) out2 w2
                else (case put_line bufsize newlines' rest out2 w2 of
                    Exit k w3 \<Rightarrow> Exit k w3 | Undef \<Rightarrow> Undef
                  | Ret (rest', out3) w3 \<Rightarrow> cat_loop insize outsize bufsize (- 1) rest' out3 w3)))"
  by pat_completeness auto
termination
proof (relation "measures [\<lambda>(i, os, bs, nl, rest, out, w). length (io_data w) - io_pos w,
    \<lambda>(i, os, bs, nl, rest, out, w). length rest]", goal_cases)
  case (2 insize outsize bufsize newlines rest out w out1 w1 inbuf w2)
  then show ?case
    using flush_out_input [of outsize out w out1 w1] fill_input [of out1 insize w1 inbuf w2]
    by (auto simp: same_input_def)
next
  case (3 insize outsize bufsize newlines rest out w out1 w1 inbuf w2 r w3 rest' out3)
  then show ?case
    using flush_out_input [of outsize out w out1 w1] fill_input [of out1 insize w1 inbuf w2]
      put_line_input [of bufsize newlines "inbuf @ [NL]" "[]" w2 rest' out3 w3]
    by (auto simp: same_input_def)
next
  case (4 insize outsize bufsize newlines rest out w out1 w1 r w2 newlines' out2)
  then show ?case
    using flush_out_input [of outsize out w out1 w1] put_newline_input [of bufsize newlines out1 w1 r w2]
    by (auto simp: same_input_def)
next
  case (5 insize outsize bufsize newlines rest out w out1 w1 r w2 newlines' out2 r' w3 rest' out3)
  then show ?case
    using flush_out_input [of outsize out w out1 w1] put_newline_input [of bufsize newlines out1 w1 r w2]
      put_line_input [of bufsize newlines' rest out2 w2 rest' out3 w3]
      put_line_shorter [of bufsize newlines' rest out2 w2 rest' out3 w3]
    by (auto simp: same_input_def)
qed simp

declare cat_loop.simps [simp del]

definition cat :: "nat \<Rightarrow> nat \<Rightarrow> nat \<Rightarrow> (cat_state, bool) prog" where
  "cat insize bufsize outsize =
     bindp (getsp k_newlines2) (\<lambda>newlines. cat_loop insize outsize bufsize newlines [] [])"

section \<open>The command\<close>

definition sys_fstat_ok :: "('z io_scheme, bool) prog" where
  "sys_fstat_ok = bindp sys_fstat_size (\<lambda>r. retp (r \<noteq> None))"

fun cat_options :: "optev list \<Rightarrow> (cat_state, unit) prog" where
  "cat_options [] = retp ()"
| "cat_options (ev # evs) =
     thenp (case ev of
         Opt c arg \<Rightarrow>
           if c = CHR ''A'' then modifyp (\<lambda>w. w\<lparr>k_opts := (k_opts w)\<lparr>Aflag := True\<rparr>\<rparr>)
           else if c = CHR ''b'' then modifyp (\<lambda>w. w\<lparr>k_opts := (k_opts w)\<lparr>bflag := True, nflag := True\<rparr>\<rparr>)
           else if c = CHR ''e'' then modifyp (\<lambda>w. w\<lparr>k_opts := (k_opts w)\<lparr>eflag := True, Eflag := True\<rparr>\<rparr>)
           else if c = CHR ''E'' then modifyp (\<lambda>w. w\<lparr>k_opts := (k_opts w)\<lparr>Eflag := True\<rparr>\<rparr>)
           else if c = CHR ''n'' then modifyp (\<lambda>w. w\<lparr>k_opts := (k_opts w)\<lparr>nflag := True\<rparr>\<rparr>)
           else if c = CHR ''s'' then modifyp (\<lambda>w. w\<lparr>k_opts := (k_opts w)\<lparr>sflag := True\<rparr>\<rparr>)
           else if c = CHR ''t'' then modifyp (\<lambda>w. w\<lparr>k_opts := (k_opts w)\<lparr>tflag := True, Tflag := True\<rparr>\<rparr>)
           else if c = CHR ''T'' then modifyp (\<lambda>w. w\<lparr>k_opts := (k_opts w)\<lparr>Tflag := True\<rparr>\<rparr>)
           else if c = CHR ''u'' then retp ()
           else if c = CHR ''v'' then modifyp (\<lambda>w. w\<lparr>k_opts := (k_opts w)\<lparr>vflag := True\<rparr>\<rparr>)
           else put (''Try '' @ quoted ''cat --help'' @ '' for more information.'' @ [NL])
       | OptHelp \<Rightarrow> cat_usage EXIT_SUCCESS
       | OptVersion \<Rightarrow> thenp (put (''Written by rda'' @ [NL])) (exitp EXIT_SUCCESS)
       | _ \<Rightarrow> put (''Try '' @ quoted ''cat --help'' @ '' for more information.'' @ [NL]))
     (cat_options evs)"

text \<open>
  One turn of the main loop; the file is not closed. Its result is what the turn contributes
  to \<open>ok\<close>, which \<open>main\<close> does not use.
\<close>

definition cat_file :: "nat \<Rightarrow> string \<Rightarrow> (cat_state, bool) prog" where
  "cat_file outsize infile =
     bindp (if infile = ''-'' then thenp use_stdin (retp True) else sys_open infile) (\<lambda>opened.
       if \<not> opened then thenp (perror ''cannot open file: '') (retp False)
       else bindp sys_fstat_ok (\<lambda>stat.
         if \<not> stat then thenp (perror ''stat input file error:'') (retp False)
         else bindp (getsp k_in_blksize) (\<lambda>blk.
           let insize = (if blk < outsize then outsize else blk)
           in cat insize (outsize - 1 + insize * 4 + LINE_COUNTER_BUF_LEN) outsize)))"

text \<open>\<open>fstat\<close> of standard output; it may fail as any call.\<close>

definition sys_fstat_out :: "(cat_state, nat option) prog" where
  "sys_fstat_out w =
     (case outcome_of w of
        Fail e \<Rightarrow> Ret None (set_errno e (tick w))
      | _ \<Rightarrow> Ret (Some (k_out_blksize w)) (tick w))"

definition cat_main :: "optev list \<Rightarrow> string list \<Rightarrow> (cat_state, int) prog" where
  "cat_main opts operands =
     thenp (cat_options opts)
     (bindp sys_fstat_out (\<lambda>st. case st of
        None \<Rightarrow> thenp (perror ''stat error: '') (exitp 1)
      | Some outsize \<Rightarrow>
          bindp (all_ok (cat_file outsize) True (if operands = [] then [''-''] else operands))
            (\<lambda>_. retp 0)))"

section \<open>The specification\<close>

text \<open>
  What one character does: the characters written for it, and the state between characters,
  which is the count of newlines and the line counter.
\<close>

definition number_if :: "bool \<Rightarrow> line_counter \<Rightarrow> string \<times> line_counter" where
  "number_if c lc = (if c then (line_num_string (next_line_num lc), next_line_num lc) else ([], lc))"

definition show_char :: "bool \<Rightarrow> char \<Rightarrow> string" where
  "show_char tabs c = (if c = TAB \<and> tabs then ''^I'' else [c])"

definition cat_char :: "cat_opts \<Rightarrow> int \<times> line_counter \<Rightarrow> char \<Rightarrow> string \<times> int \<times> line_counter" where
  "cat_char opts st c = (case st of (newlines, lc) \<Rightarrow>
     if c = NL
     then let nl = newlines + 1 in
       if nl \<ge> 2 \<and> sflag opts then ([], 2, lc)
       else (case number_if (nl > 0 \<and> nflag opts \<and> \<not> bflag opts) lc of (s, lc') \<Rightarrow>
          (s @ (if Eflag opts then ''$'' else []) @ [NL], if nl \<ge> 2 then 2 else nl, lc'))
     else (case number_if (newlines \<ge> 0 \<and> nflag opts) lc of (s, lc') \<Rightarrow>
        (s @ show_char (Tflag opts) c, - 1, lc')))"

fun cat_spec :: "cat_opts \<Rightarrow> int \<times> line_counter \<Rightarrow> string \<Rightarrow> string \<times> int \<times> line_counter" where
  "cat_spec opts st [] = ([], st)"
| "cat_spec opts st (c # cs) =
     (case cat_char opts st c of (s, st') \<Rightarrow> map_prod ((@) s) id (cat_spec opts st' cs))"

lemma cat_spec_append:
  "cat_spec opts st (xs @ ys) =
     (case cat_spec opts st xs of (s, st') \<Rightarrow> map_prod ((@) s) id (cat_spec opts st' ys))"
  by (induction xs arbitrary: st) (simp_all add: map_prod_def split: prod.splits)

lemma cat_spec_in_line:
  "NL \<notin> set xs \<Longrightarrow> cat_spec opts (- 1, lc) xs = (concat (map (show_char (Tflag opts)) xs), - 1, lc)"
  by (induction xs) (auto simp: cat_char_def number_if_def)

lemma cat_spec_line:
  assumes "NL \<notin> set xs" "xs \<noteq> []"
  shows "cat_spec opts (newlines, lc) xs = (case number_if (newlines \<ge> 0 \<and> nflag opts) lc of (s, lc') \<Rightarrow>
     (s @ concat (map (show_char (Tflag opts)) xs), - 1, lc'))"
  using assms by (cases xs) (auto simp: cat_char_def cat_spec_in_line split: prod.splits)

section \<open>Reading and writing without failures\<close>

definition quiet :: "'z io_scheme \<Rightarrow> 'z io_scheme \<Rightarrow> bool" where
  "quiet w w' \<longleftrightarrow> io_files w' = io_files w \<and> io_stdin w' = io_stdin w \<and> io_stdin_pos w' = io_stdin_pos w
     \<and> io_stdin_seek w' = io_stdin_seek w \<and> io_data w' = io_data w \<and> io_open w' = io_open w
     \<and> io_seek w' = io_seek w \<and> io_tty w' = io_tty w \<and> io_errno w' = io_errno w
     \<and> io.more w' = io.more w \<and> (no_fail w \<longrightarrow> no_fail w')"

lemma quiet_refl [simp]: "quiet w w"
  by (simp add: quiet_def)

lemma quiet_trans: "quiet u v \<Longrightarrow> quiet v w \<Longrightarrow> quiet u w"
  by (simp add: quiet_def)

lemma quiet_tick_out [simp]: "quiet w ((tick w)\<lparr>io_out := s\<rparr>)"
  by (simp add: quiet_def)

lemma quiet_advance [simp]: "quiet w (advance bs (tick w))"
  by (simp add: quiet_def)

lemma safe_write_loop_ok:
  assumes "no_fail w" "io_errno w \<noteq> EINTR"
  shows "\<exists>w'. safe_write_loop buf n w = Ret (n + length buf) w' \<and> quiet w w' \<and> io_pos w' = io_pos w
    \<and> io_out w' = io_out w @ buf"
  using assms
proof (induction "length buf" arbitrary: buf n w rule: less_induct)
  case less
  show ?case
  proof (cases "buf = []")
    case True
    then show ?thesis
      by (subst safe_write_loop.simps) simp
  next
    case False
    obtain k where k: "0 < k" "sys_write buf w = Ret (Some (min (length buf) k)) ((tick w)\<lparr>io_out := io_out w @ take k buf\<rparr>)"
      using no_fail_Fail [OF less.prems(1)] False
      by (cases "outcome_of w") (auto simp: sys_write_def intro: that [of "length buf"] that [of "Suc _"])
    define w1 where "w1 = (tick w)\<lparr>io_out := io_out w @ take k buf\<rparr>"
    have w1: "no_fail w1" "io_errno w1 \<noteq> EINTR"
      using less.prems by (simp_all add: w1_def)
    have "length (drop k buf) < length buf"
      using False k(1) by simp
    then obtain w' where w': "safe_write_loop (drop k buf) (n + min (length buf) k) w1 =
          Ret (n + min (length buf) k + length (drop k buf)) w'"
        "quiet w1 w'" "io_pos w' = io_pos w1" "io_out w' = io_out w1 @ drop k buf"
      using less.hyps [OF _ w1, of "drop k buf" "n + min (length buf) k"] by blast
    have "drop (min (length buf) k) buf = drop k buf"
      by (simp add: min_def)
    then have "safe_write_loop buf n w = Ret (n + length buf) w'"
      using False k(2) w'(1) w1(2)
      by (subst safe_write_loop.simps) (simp add: w1_def [symmetric])
    then show ?thesis
      using w' quiet_trans [of w w1 w'] by (auto simp: w1_def)
  qed
qed

lemma safe_write_ok:
  "no_fail w \<Longrightarrow> io_errno w \<noteq> EINTR \<Longrightarrow> \<exists>w'. safe_write buf w = Ret (length buf) w' \<and> quiet w w'
    \<and> io_pos w' = io_pos w \<and> io_out w' = io_out w @ buf"
  using safe_write_loop_ok [of w buf 0] by (simp add: safe_write_def)

lemma safe_read_loop_ok:
  assumes "no_fail w" "io_errno w \<noteq> EINTR" "io_open w"
  shows "\<exists>w'. safe_read_loop n got w = Ret (got @ avail n w) w' \<and> quiet w w'
    \<and> io_pos w' = io_pos w + length (avail n w) \<and> io_out w' = io_out w"
  using assms
proof (induction n arbitrary: got w rule: less_induct)
  case (less n)
  show ?case
  proof (cases "n = 0")
    case True
    then show ?thesis
      by (subst safe_read_loop.simps) simp
  next
    case False
    obtain m where m: "m \<le> n" "0 < m"
      and rd: "sys_read n w = Ret (Some (avail m w)) (advance (avail m w) (tick w))"
      using sys_read_ok [OF less.prems(1,3), of n] False by auto
    define w1 where "w1 = advance (avail m w) (tick w)"
    have w1: "no_fail w1" "io_errno w1 \<noteq> EINTR" "io_open w1"
      using less.prems by (simp_all add: w1_def)
    show ?thesis
    proof (cases "avail m w = []")
      case True
      then have "avail n w = []"
        using m(2) by (simp add: avail_Nil)
      then show ?thesis
        using True False rd w1(2) by (subst safe_read_loop.simps) (simp add: w1_def)
    next
      case more: False
      then have "n - length (avail m w) < n"
        using False by simp
      then obtain w' where w': "safe_read_loop (n - length (avail m w)) (got @ avail m w) w1 =
            Ret ((got @ avail m w) @ avail (n - length (avail m w)) w1) w'" "quiet w1 w'"
          "io_pos w' = io_pos w1 + length (avail (n - length (avail m w)) w1)" "io_out w' = io_out w1"
        using less.IH [OF _ w1] by blast
      have split: "avail n w = avail m w @ avail (n - length (avail m w)) w1"
        using m by (cases "length (io_data w) - io_pos w \<le> m")
          (auto simp: avail_def w1_def min_def take_take_drop not_le)
      have "safe_read_loop n got w = Ret (got @ avail n w) w'"
        using False more rd w1(2) w'(1) split
        by (subst safe_read_loop.simps) (simp add: w1_def [symmetric])
      then show ?thesis
        using w'(2-) split quiet_trans [of w w1 w'] by (auto simp: w1_def)
    qed
  qed
qed

lemma strncpy_id: "NUL \<notin> set s \<Longrightarrow> strncpy s (length s) = s"
proof -
  assume "NUL \<notin> set s"
  then have whole: "takeWhile (\<lambda>c. c \<noteq> NUL) s = s"
    by (induction s) auto
  show ?thesis
    unfolding strncpy_def whole by simp
qed

lemma flush_blocks_ok:
  assumes "no_fail w" "io_errno w \<noteq> EINTR" "0 < outsize" "outsize \<le> length out" "NUL \<notin> set out"
  shows "\<exists>out' w'. flush_blocks outsize out w = Ret out' w' \<and> quiet w w' \<and> io_pos w' = io_pos w
    \<and> io_out w' @ out' = io_out w @ out \<and> length out' < outsize \<and> NUL \<notin> set out'"
  using assms
proof (induction "length out" arbitrary: out w rule: less_induct)
  case less
  obtain w1 where w1: "safe_write (take outsize out) w = Ret outsize w1" "quiet w w1"
      "io_pos w1 = io_pos w" "io_out w1 = io_out w @ take outsize out"
    using safe_write_ok [OF less.prems(1,2), of "take outsize out"] less.prems(4) by (auto simp: min_def)
  have nf: "no_fail w1" "io_errno w1 \<noteq> EINTR"
    using w1(2) less.prems(1,2) by (simp_all add: quiet_def)
  have nul: "NUL \<notin> set (drop outsize out)"
    using less.prems(5) by (meson in_set_dropD)
  show ?case
  proof (cases "outsize \<le> length (drop outsize out)")
    case True
    have "length (drop outsize out) < length out"
      using less.prems(3,4) by simp
    from less.hyps [OF this nf less.prems(3) True nul] obtain out' w' where
      "flush_blocks outsize (drop outsize out) w1 = Ret out' w'" "quiet w1 w'" "io_pos w' = io_pos w1"
      "io_out w' @ out' = io_out w1 @ drop outsize out" "length out' < outsize" "NUL \<notin> set out'"
      by blast
    then show ?thesis
      using w1 True less.prems(3) quiet_trans [OF w1(2)]
      by (subst flush_blocks.simps) auto
  next
    case False
    have "strncpy (drop outsize out) (length out - outsize) = drop outsize out"
      using strncpy_id [OF nul] by simp
    then show ?thesis
      using w1 False less.prems(3) nul by (subst flush_blocks.simps) auto
  qed
qed

lemma flush_out_ok:
  assumes "no_fail w" "io_errno w \<noteq> EINTR" "0 < outsize" "NUL \<notin> set out"
  shows "\<exists>out' w'. flush_out outsize out w = Ret out' w' \<and> quiet w w' \<and> io_pos w' = io_pos w
    \<and> io_out w' @ out' = io_out w @ out \<and> length out' < outsize \<and> NUL \<notin> set out'"
  using flush_blocks_ok [OF assms(1-3) _ assms(4)] assms(4) by (auto simp: flush_out_def)


section \<open>Room in the output buffer\<close>

definition lc_ok :: "line_counter \<Rightarrow> bool" where
  "lc_ok lc \<longleftrightarrow> length (line_buf lc) = 20 \<and> line_buf lc ! 19 = NUL
     \<and> line_num_start lc \<le> 17 \<and> line_num_print lc \<le> 12"

lemma lc_ok_init [simp]: "lc_ok line_counter_init"
  by (simp add: lc_ok_def line_counter_init_def LINE_COUNTER_BUF_LEN_def nth_append)

lemma next_digit_frame:
  "endp \<le> 17 \<Longrightarrow> length (fst (next_digit start endp buf)) = length buf
     \<and> (\<forall>i > 17. fst (next_digit start endp buf) ! i = buf ! i)"
proof (induction start endp buf rule: next_digit.induct)
  case (1 start endp buf)
  show ?case
    using 1 next_digit.simps [of start endp buf] by (auto simp: Let_def)
qed

lemma lc_ok_next: "lc_ok lc \<Longrightarrow> lc_ok (next_line_num lc)"
  using next_digit_frame [of line_num_end "line_num_start lc" "line_buf lc"]
  by (auto simp: lc_ok_def next_line_num_def line_num_end_def LINE_COUNTER_BUF_LEN_def Let_def
      split: prod.splits)

lemma takeWhile_stop: "n < length p \<Longrightarrow> p ! n = c \<Longrightarrow> length (takeWhile (\<lambda>x. x \<noteq> c) p) \<le> n"
proof (induction p arbitrary: n)
  case (Cons x p)
  then show ?case by (cases n) auto
qed simp

lemma line_num_string_bound:
  assumes "lc_ok lc"
  shows "length (line_num_string lc) \<le> 19" "NUL \<notin> set (line_num_string lc)"
proof -
  have "length (line_num_string lc) \<le> 19 - line_num_print lc"
    unfolding line_num_string_def using assms by (intro takeWhile_stop) (auto simp: lc_ok_def)
  then show "length (line_num_string lc) \<le> 19"
    by simp
  show "NUL \<notin> set (line_num_string lc)"
    by (auto simp: line_num_string_def dest: set_takeWhileD)
qed

text \<open>The pieces of the loop are the steps of the specification, when there is room.\<close>

lemma number_if_bounds:
  assumes "lc_ok lc" "number_if c lc = (s, lc')"
  shows "length s \<le> 19" "NUL \<notin> set s" "lc_ok lc'"
  using assms line_num_string_bound [OF lc_ok_next [OF assms(1)]] lc_ok_next [OF assms(1)]
  by (auto simp: number_if_def split: if_splits)

lemma put_number_if:
  assumes "lc_ok (k_counter w)" "number_if c (k_counter w) = (s, lc')" "length out + 20 \<le> bufsize"
  shows "(if c then put_number bufsize out else retp out) w = Ret (out @ s) (w\<lparr>k_counter := lc'\<rparr>)"
proof (cases c)
  case True
  then have "s = line_num_string lc'" "lc' = next_line_num (k_counter w)"
    using assms(2) by (auto simp: number_if_def)
  then show ?thesis
    using True assms(3) number_if_bounds(1) [OF assms(1,2)]
    by (simp add: put_number_def thenp_unfold bindp_unfold)
next
  case False
  then show ?thesis
    using assms(2) by (simp add: number_if_def)
qed

lemma put_newline_ok:
  assumes "lc_ok (k_counter w)" "length out + 22 \<le> bufsize"
    and "cat_char (k_opts w) (newlines, k_counter w) NL = (s, nl', lc')"
  shows "put_newline bufsize newlines out w = Ret (nl', out @ s) (w\<lparr>k_counter := lc'\<rparr>)
    \<and> lc_ok lc' \<and> length s \<le> 21 \<and> NUL \<notin> set s"
proof (cases "newlines + 1 \<ge> 2 \<and> sflag (k_opts w)")
  case True
  then show ?thesis
    using assms by (auto simp: put_newline_def cat_char_def bindp_unfold)
next
  case False
  define c where "c \<longleftrightarrow> newlines + 1 > 0 \<and> nflag (k_opts w) \<and> \<not> bflag (k_opts w)"
  define tail where "tail = (if Eflag (k_opts w) then ''$'' else []) @ [NL]"
  define nl where "nl = (if newlines + 1 \<ge> 2 then 2 else newlines + 1)"
  obtain n lc1 where n: "number_if c (k_counter w) = (n, lc1)"
    by force
  have char: "s = n @ tail" "nl' = nl" "lc' = lc1"
    using assms(3) False n unfolding cat_char_def c_def tail_def nl_def by auto
  have t: "length tail \<le> 2" "NUL \<notin> set tail"
    by (simp_all add: tail_def NUL_def NL_def)
  have "put_newline bufsize newlines out w =
      bindp (if c then put_number bufsize out else retp out) (\<lambda>out1.
          bindp (put_chars bufsize out1 tail) (\<lambda>out2. retp (nl, out2))) w"
    using False unfolding put_newline_def c_def tail_def nl_def by (simp add: bindp_unfold Let_def)
  also have "\<dots> = Ret (nl, out @ n @ tail) (w\<lparr>k_counter := lc1\<rparr>)"
    using put_number_if [OF assms(1) n, of out bufsize] assms(2) t(1) number_if_bounds(1) [OF assms(1) n]
    by (simp add: bindp_unfold put_chars_def)
  finally show ?thesis
    using char t number_if_bounds [OF assms(1) n] by auto
qed

lemma char_of_I: "char_of (73 :: nat) = CHR ''I''"
  by (simp add: char_of_def bit_0)

lemma copy_line_split:
  "NL \<notin> set xs \<Longrightarrow> copy_line tabs (xs @ NL # ys) = (concat (map (show_char tabs) xs), ys)"
  by (induction xs) (auto simp: show_char_def TAB_def NL_def char_of_I)

lemma length_show_chars: "length (concat (map (show_char tabs) xs)) \<le> 2 * length xs"
  by (induction xs) (auto simp: show_char_def)

lemma NUL_show_chars: "NUL \<notin> set xs \<Longrightarrow> NUL \<notin> set (concat (map (show_char tabs) xs))"
  by (auto simp: show_char_def NUL_def TAB_def split: if_splits)

lemma put_line_ok:
  assumes "lc_ok (k_counter w)" "length out + 20 + 2 * length xs \<le> bufsize" "NL \<notin> set xs" "xs \<noteq> []"
    and "NUL \<notin> set xs" "cat_spec (k_opts w) (newlines, k_counter w) xs = (s, nl', lc')"
  shows "put_line bufsize newlines (xs @ NL # ys) out w = Ret (ys, out @ s) (w\<lparr>k_counter := lc'\<rparr>)
    \<and> nl' = - 1 \<and> lc_ok lc' \<and> length s \<le> 19 + 2 * length xs \<and> NUL \<notin> set s"
proof -
  define c where "c \<longleftrightarrow> newlines \<ge> 0 \<and> nflag (k_opts w)"
  define v where "v = concat (map (show_char (Tflag (k_opts w))) xs)"
  obtain n lc1 where n: "number_if c (k_counter w) = (n, lc1)"
    by force
  have v: "length v \<le> 2 * length xs" "NUL \<notin> set v"
    unfolding v_def by (rule length_show_chars, rule NUL_show_chars [OF assms(5)])
  have spec: "s = n @ v \<and> nl' = - 1 \<and> lc' = lc1"
    using assms(6) n unfolding cat_spec_line [OF assms(3,4)] c_def v_def by simp
  have "put_line bufsize newlines (xs @ NL # ys) out w =
      bindp (if c then put_number bufsize out else retp out) (\<lambda>out1.
        bindp (put_chars bufsize out1 v) (\<lambda>out2. retp (ys, out2))) w"
    unfolding put_line_def c_def v_def by (simp add: bindp_unfold copy_line_split [OF assms(3)])
  also have "\<dots> = Ret (ys, out @ n @ v) (w\<lparr>k_counter := lc1\<rparr>)"
    using put_number_if [OF assms(1) n, of out bufsize] assms(2) v(1) number_if_bounds(1) [OF assms(1) n]
    by (simp add: bindp_unfold put_chars_def)
  finally show ?thesis
    using spec v number_if_bounds [OF assms(1) n] by auto
qed

section \<open>The loop\<close>

text \<open>What reading a file leaves of the process, apart from output, offset and counters.\<close>

definition cat_frame :: "cat_state \<Rightarrow> cat_state \<Rightarrow> bool" where
  "cat_frame w w' \<longleftrightarrow> io_files w' = io_files w \<and> io_stdin w' = io_stdin w \<and> io_stdin_pos w' = io_stdin_pos w
     \<and> io_stdin_seek w' = io_stdin_seek w \<and> io_data w' = io_data w \<and> io_open w' = io_open w
     \<and> io_seek w' = io_seek w \<and> io_tty w' = io_tty w \<and> io_errno w' = io_errno w
     \<and> (no_fail w \<longrightarrow> no_fail w') \<and> k_opts w' = k_opts w
     \<and> k_out_blksize w' = k_out_blksize w \<and> k_in_blksize w' = k_in_blksize w"

lemma cat_frame_trans: "cat_frame u v \<Longrightarrow> cat_frame v w \<Longrightarrow> cat_frame u w"
  by (simp add: cat_frame_def)

lemma quiet_more:
  fixes w w' :: cat_state
  assumes "quiet w w'"
  shows "cat_frame w w'" "k_counter w' = k_counter w" "k_newlines2 w' = k_newlines2 w"
  using assms by (cases w; cases w'; simp add: quiet_def cat_frame_def no_fail_def)+

lemma cat_frame_counter [simp]: "cat_frame w (w\<lparr>k_counter := lc\<rparr>)" "cat_frame w (w\<lparr>k_newlines2 := n\<rparr>)"
  by (simp_all add: cat_frame_def no_fail_def)

text \<open>The characters that are still to be dealt with.\<close>

definition pending :: "string \<Rightarrow> cat_state \<Rightarrow> string" where
  "pending rest w = (if rest = [] then [] else NL # butlast rest) @ drop (io_pos w) (io_data w)"

definition room :: "nat \<Rightarrow> nat \<Rightarrow> nat \<Rightarrow> bool" where
  "room insize outsize bufsize \<longleftrightarrow> 0 < outsize \<and> 16 \<le> insize \<and>
     bufsize = outsize - 1 + insize * 4 + LINE_COUNTER_BUF_LEN"

definition ready :: "cat_state \<Rightarrow> bool" where
  "ready w \<longleftrightarrow> no_fail w \<and> io_errno w \<noteq> EINTR \<and> io_open w \<and> NUL \<notin> set (io_data w) \<and> lc_ok (k_counter w)"

lemma ready_quiet: "ready w \<Longrightarrow> quiet w w' \<Longrightarrow> ready w'"
  using quiet_more [of w w'] by (simp add: ready_def cat_frame_def)

lemma ready_counter: "ready w \<Longrightarrow> lc_ok lc \<Longrightarrow> ready (w\<lparr>k_counter := lc\<rparr>)"
  by (simp add: ready_def no_fail_def)

text \<open>A line in the buffer: its characters up to the newline or sentinel, and what follows.\<close>

lemma split_rest:
  assumes "rest \<noteq> []" "last rest = NL"
  obtains xs ys where "rest = xs @ NL # ys" "NL \<notin> set xs" "ys = [] \<or> last ys = NL"
    "butlast rest = xs @ (if ys = [] then [] else NL # butlast ys)"
proof -
  have "NL \<in> set rest"
    using assms last_in_set by metis
  then obtain xs ys where "rest = xs @ NL # ys" "NL \<notin> set xs"
    using split_list_first by metis
  then show ?thesis
    using assms(2) by (intro that [of xs ys]) (auto simp: butlast_append split: if_splits)
qed

lemma put_line_rest:
  assumes "ready w" "length out + 20 + 2 * insize \<le> bufsize" "rest \<noteq> []" "hd rest \<noteq> NL" "last rest = NL"
    and "length rest \<le> insize + 1" "NUL \<notin> set rest" "NUL \<notin> set out"
    and "cat_spec (k_opts w) (newlines, k_counter w) (butlast rest @ later) = (s, fin)"
  shows "\<exists>rest' s1 s2 lc. put_line bufsize newlines rest out w = Ret (rest', out @ s1) (w\<lparr>k_counter := lc\<rparr>)
    \<and> lc_ok lc \<and> length (out @ s1) \<le> bufsize \<and> NUL \<notin> set (out @ s1) \<and> s = s1 @ s2
    \<and> (rest' = [] \<or> last rest' = NL) \<and> length rest' \<le> insize + 1 \<and> NUL \<notin> set rest'
    \<and> length rest' < length rest
    \<and> cat_spec (k_opts w) (- 1, lc) ((if rest' = [] then [] else NL # butlast rest') @ later) = (s2, fin)"
proof -
  obtain xs ys where xy: "rest = xs @ NL # ys" "NL \<notin> set xs" "ys = [] \<or> last ys = NL"
      "butlast rest = xs @ (if ys = [] then [] else NL # butlast ys)"
    using split_rest [OF assms(3,5)] by blast
  have ne: "xs \<noteq> []"
    using assms(4) xy(1) by auto
  obtain s1 nl lc where sp: "cat_spec (k_opts w) (newlines, k_counter w) xs = (s1, nl, lc)"
    using prod_cases3 by blast
  have lc: "lc_ok (k_counter w)"
    using assms(1) by (simp add: ready_def)
  have bound: "length out + 20 + 2 * length xs \<le> bufsize"
    using assms(2,6) xy(1) by simp
  have nul: "NUL \<notin> set xs" "NUL \<notin> set ys"
    using assms(7) xy(1) by auto
  note pl = put_line_ok [OF lc bound xy(2) ne nul(1) sp, of ys]
  obtain s2 where "s = s1 @ s2"
      "cat_spec (k_opts w) (- 1, lc) ((if ys = [] then [] else NL # butlast ys) @ later) = (s2, fin)"
    using assms(9) pl by (auto simp: xy(4) cat_spec_append sp map_prod_def split: prod.splits)
  then show ?thesis
    using pl xy nul assms(6,8) bound by (intro exI [of _ ys] exI [of _ s1] exI [of _ s2] exI [of _ lc]) auto
qed

lemma fill_ok:
  assumes "ready w" "NUL \<notin> set out"
  shows "\<exists>w'. thenp (write_pending out) (safe_read n) w = Ret (avail n w) w' \<and> quiet w w'
    \<and> io_pos w' = io_pos w + length (avail n w) \<and> io_out w' = io_out w @ out"
proof -
  obtain w1 where w1: "write_pending out w = Ret () w1" "quiet w w1" "io_pos w1 = io_pos w"
      "io_out w1 = io_out w @ out"
    using safe_write_ok [of w out] assms(1)
    by (cases "out = []") (auto simp: write_pending_def ready_def bindp_unfold)
  have r: "no_fail w1" "io_errno w1 \<noteq> EINTR" "io_open w1" "avail n w1 = avail n w"
    using ready_quiet [OF assms(1) w1(2)] w1(2,3) by (simp_all add: ready_def avail_def quiet_def)
  obtain w2 where "safe_read n w1 = Ret (avail n w) w2" "quiet w1 w2"
      "io_pos w2 = io_pos w1 + length (avail n w)" "io_out w2 = io_out w1"
    using safe_read_loop_ok [OF r(1-3), of n "[]"] r(4) by (auto simp: safe_read_def)
  then show ?thesis
    using w1 quiet_trans [OF w1(2)] by (auto simp: thenp_unfold)
qed

lemma pending_filled:
  "io_data w' = io_data w \<Longrightarrow> io_pos w' = io_pos w + length (avail n w) \<Longrightarrow>
     drop (io_pos w) (io_data w) = avail n w @ drop (io_pos w') (io_data w')"
  by (simp add: avail_def min_def add.commute)
    (metis append_take_drop_id drop_drop add.commute append_Nil2 drop_all nle_le)

lemma cat_loop_correct:
  assumes "room insize outsize bufsize" "ready w" "NUL \<notin> set out" "length rest \<le> insize + 1"
    and "NUL \<notin> set rest" "rest = [] \<or> last rest = NL"
    and "cat_spec (k_opts w) (newlines, k_counter w) (pending rest w) = (s, fin)"
  shows "\<exists>w'. cat_loop insize outsize bufsize newlines rest out w = Ret True w' \<and> cat_frame w w'
    \<and> io_out w' = io_out w @ out @ s \<and> (k_newlines2 w', k_counter w') = fin \<and> lc_ok (k_counter w')"
  using assms
proof (induction insize outsize bufsize newlines rest out w arbitrary: s rule: cat_loop.induct)
  case (1 insize outsize bufsize newlines rest out w)
  note IH = "1.IH" and prems = "1.prems"
  obtain out1 w1 where fl: "flush_out outsize out w = Ret out1 w1" "quiet w w1" "io_pos w1 = io_pos w"
      "io_out w1 @ out1 = io_out w @ out" "length out1 < outsize" "NUL \<notin> set out1"
    using flush_out_ok [of w outsize out] prems(1-3) by (auto simp: ready_def room_def)
  have r1: "ready w1"
    using ready_quiet [OF prems(2) fl(2)] .
  have k1: "k_opts w1 = k_opts w" "k_counter w1 = k_counter w" "io_data w1 = io_data w" "cat_frame w w1"
    using quiet_more [OF fl(2)] by (simp_all add: cat_frame_def)
  show ?case
  proof (cases "rest = []")
    case True
    obtain w2 where rd: "thenp (write_pending out1) (safe_read insize) w1 = Ret (avail insize w1) w2"
        "quiet w1 w2" "io_pos w2 = io_pos w1 + length (avail insize w1)" "io_out w2 = io_out w1 @ out1"
      using fill_ok [OF r1 fl(6), of insize] by blast
    define inbuf where "inbuf = avail insize w1"
    have r2: "ready w2"
      using ready_quiet [OF r1 rd(2)] .
    have k2: "k_opts w2 = k_opts w" "k_counter w2 = k_counter w" "io_data w2 = io_data w" "cat_frame w w2"
      using quiet_more [OF rd(2)] k1 cat_frame_trans [OF k1(4)] by (simp_all add: cat_frame_def)
    have pend: "pending rest w = inbuf @ drop (io_pos w2) (io_data w2)"
      using pending_filled [of w2 w1 insize] rd(3) k1(3) k2(3) fl(3) True by (simp add: pending_def inbuf_def)
    have inb: "length inbuf \<le> insize" "NUL \<notin> set inbuf"
      using prems(2) k1(3) by (auto simp: inbuf_def length_avail ready_def avail_def dest!: in_set_takeD in_set_dropD)
    have run: "thenp (write_pending out1) (safe_read insize) w1 = Ret inbuf w2"
      using rd(1) by (simp add: inbuf_def)
    have unroll: "cat_loop insize outsize bufsize newlines rest out w =
        (if inbuf = [] then Ret True (w2\<lparr>k_newlines2 := newlines\<rparr>)
         else if hd inbuf = NL
         then cat_loop insize outsize bufsize newlines (tl inbuf @ [NL]) [] w2
         else (case put_line bufsize newlines (inbuf @ [NL]) [] w2 of
                    Exit k w3 \<Rightarrow> Exit k w3 | Undef \<Rightarrow> Undef
                  | Ret (rest', out3) w3 \<Rightarrow> cat_loop insize outsize bufsize (- 1) rest' out3 w3))"
      using True by (subst cat_loop.simps) (simp add: fl(1) run)
    have out2: "io_out w2 = io_out w @ out"
      using rd(4) fl(4) by simp
    consider "inbuf = []" | "inbuf \<noteq> []" "hd inbuf = NL" | "inbuf \<noteq> []" "hd inbuf \<noteq> NL"
      by blast
    then show ?thesis
    proof cases
      case 1
      have "drop (io_pos w2) (io_data w2) = []"
        using 1 prems(1) rd(3) k1(3) k2(3) by (auto simp: inbuf_def avail_Nil room_def)
      then have "s = []" "fin = (newlines, k_counter w)"
        using prems(7) pend 1 by simp_all
      then show ?thesis
        using 1 unroll out2 k2 r2 cat_frame_trans [OF k2(4) cat_frame_counter(2)] by (auto simp: ready_def)
    next
      case 2
      have sp: "cat_spec (k_opts w2) (newlines, k_counter w2) (pending (tl inbuf @ [NL]) w2) = (s, fin)"
        using prems(7) [unfolded pend] 2 by (cases inbuf) (simp_all add: k2 pending_def)
      have sentinel: "length (tl inbuf @ [NL]) \<le> insize + 1" "NUL \<notin> set (tl inbuf @ [NL])"
        using inb 2(1) list.set_sel(2) [OF 2(1), of NUL] by (auto simp: NL_def NUL_def)
      obtain w' where "cat_loop insize outsize bufsize newlines (tl inbuf @ [NL]) [] w2 = Ret True w'"
          "cat_frame w2 w'" "io_out w' = io_out w2 @ s" "(k_newlines2 w', k_counter w') = fin" "lc_ok (k_counter w')"
        using IH(1) [OF fl(1) True run 2 prems(1) r2 _ sentinel(1,2) _ sp] by auto
      then show ?thesis
        using unroll 2 out2 cat_frame_trans [OF k2(4)] by auto
    next
      case 3
      have "20 + 2 * insize \<le> bufsize"
        using prems(1) by (auto simp: room_def LINE_COUNTER_BUF_LEN_def)
      moreover have "cat_spec (k_opts w2) (newlines, k_counter w2)
          (butlast (inbuf @ [NL]) @ drop (io_pos w2) (io_data w2)) = (s, fin)"
        using prems(7) by (simp add: pend k2)
      ultimately obtain rest' s1 s2 lc where p: "put_line bufsize newlines (inbuf @ [NL]) [] w2 =
            Ret (rest', s1) (w2\<lparr>k_counter := lc\<rparr>)" "lc_ok lc" "NUL \<notin> set s1" "s = s1 @ s2"
          "rest' = [] \<or> last rest' = NL" "length rest' \<le> insize + 1" "NUL \<notin> set rest'"
          "cat_spec (k_opts w2) (- 1, lc) ((if rest' = [] then [] else NL # butlast rest') @
             drop (io_pos w2) (io_data w2)) = (s2, fin)"
        using put_line_rest [OF r2, of "[]" insize bufsize "inbuf @ [NL]" newlines
            "drop (io_pos w2) (io_data w2)" s fin] 3 inb
        by (auto simp: NL_def NUL_def)
      define w3 where "w3 = w2\<lparr>k_counter := lc\<rparr>"
      have sp: "cat_spec (k_opts w3) (- 1, k_counter w3) (pending rest' w3) = (s2, fin)"
        using p(8) by (simp add: w3_def pending_def)
      obtain w' where "cat_loop insize outsize bufsize (- 1) rest' s1 w3 = Ret True w'"
          "cat_frame w3 w'" "io_out w' = io_out w3 @ s1 @ s2" "(k_newlines2 w', k_counter w') = fin"
          "lc_ok (k_counter w')"
        using IH(2) [OF fl(1) True run 3 p(1) refl prems(1) _ p(3,6,7,5), folded w3_def, OF _ sp]
          ready_counter [OF r2 p(2)] by (auto simp: w3_def)
      then show ?thesis
        using unroll 3 p(1,4) out2 cat_frame_trans [OF cat_frame_trans [OF k2(4) cat_frame_counter(1)]]
        by (auto simp: w3_def)
    qed
  next
    case False
    have lastr: "last rest = NL"
      using prems(6) False by simp
    obtain s1 nl lc where ch: "cat_char (k_opts w) (newlines, k_counter w) NL = (s1, nl, lc)"
      using prod_cases3 by blast
    define later where "later = drop (io_pos w) (io_data w)"
    obtain s2 where s2: "s = s1 @ s2" "cat_spec (k_opts w) (nl, lc) (butlast rest @ later) = (s2, fin)"
      using prems(7) False by (auto simp: pending_def later_def ch map_prod_def split: prod.splits)
    have small: "length out1 + 63 + 2 * insize \<le> bufsize + 22"
      using fl(5) prems(1) by (simp add: room_def LINE_COUNTER_BUF_LEN_def)
    have pn: "put_newline bufsize newlines out1 w1 = Ret (nl, out1 @ s1) (w1\<lparr>k_counter := lc\<rparr>)"
        "lc_ok lc" "length s1 \<le> 21" "NUL \<notin> set s1"
      using put_newline_ok [of w1 out1 bufsize newlines s1 nl lc] small prems(2) k1 ch by (auto simp: ready_def)
    define w2 where "w2 = w1\<lparr>k_counter := lc\<rparr>"
    have r2: "ready w2"
      using ready_counter [OF r1 pn(2)] by (simp add: w2_def)
    have k2: "k_opts w2 = k_opts w" "k_counter w2 = lc" "io_data w2 = io_data w" "io_pos w2 = io_pos w"
        "cat_frame w w2" "io_out w2 = io_out w1"
      using k1 fl(3) cat_frame_trans [OF k1(4) cat_frame_counter(1)] by (simp_all add: w2_def)
    have nulo: "NUL \<notin> set (out1 @ s1)"
      using fl(6) pn(4) by simp
    have unroll: "cat_loop insize outsize bufsize newlines rest out w =
        (if hd rest = NL
         then cat_loop insize outsize bufsize nl (tl rest) (out1 @ s1) w2
         else (case put_line bufsize nl rest (out1 @ s1) w2 of
                    Exit k w3 \<Rightarrow> Exit k w3 | Undef \<Rightarrow> Undef
                  | Ret (rest', out3) w3 \<Rightarrow> cat_loop insize outsize bufsize (- 1) rest' out3 w3))"
      using False by (subst cat_loop.simps) (simp add: fl(1) pn(1) w2_def)
    show ?thesis
    proof (cases "hd rest = NL")
      case True
      obtain ys where ys: "rest = NL # ys"
        using True False by (cases rest) auto
      have sp: "cat_spec (k_opts w2) (nl, k_counter w2) (pending (tl rest) w2) = (s2, fin)"
        using s2(2) by (auto simp: ys pending_def k2 later_def)
      obtain w' where "cat_loop insize outsize bufsize nl (tl rest) (out1 @ s1) w2 = Ret True w'"
          "cat_frame w2 w'" "io_out w' = io_out w2 @ (out1 @ s1) @ s2" "(k_newlines2 w', k_counter w') = fin"
          "lc_ok (k_counter w')"
        using IH(3) [OF fl(1) False pn(1) refl True prems(1), folded w2_def, OF r2 nulo _ _ _ sp]
          prems(4,5) lastr by (auto simp: ys split: if_splits)
      then show ?thesis
        using unroll True s2(1) fl(4) k2(5,6) cat_frame_trans [OF k2(5)] by auto
    next
      case neq: False
      have "length (out1 @ s1) + 20 + 2 * insize \<le> bufsize"
        using small pn(3) by simp
      then obtain rest' t1 t2 lc' where p: "put_line bufsize nl rest (out1 @ s1) w2 =
            Ret (rest', (out1 @ s1) @ t1) (w2\<lparr>k_counter := lc'\<rparr>)" "lc_ok lc'"
          "NUL \<notin> set ((out1 @ s1) @ t1)" "s2 = t1 @ t2"
          "rest' = [] \<or> last rest' = NL" "length rest' \<le> insize + 1" "NUL \<notin> set rest'"
          "cat_spec (k_opts w2) (- 1, lc') ((if rest' = [] then [] else NL # butlast rest') @ later) = (t2, fin)"
        using put_line_rest [OF r2 _ False neq lastr prems(4,5) nulo, of bufsize nl later s2 fin] s2(2) k2
        by auto
      define w3 where "w3 = w2\<lparr>k_counter := lc'\<rparr>"
      have sp: "cat_spec (k_opts w3) (- 1, k_counter w3) (pending rest' w3) = (t2, fin)"
        using p(8) by (simp add: w3_def pending_def k2 later_def)
      obtain w' where "cat_loop insize outsize bufsize (- 1) rest' ((out1 @ s1) @ t1) w3 = Ret True w'"
          "cat_frame w3 w'" "io_out w' = io_out w3 @ ((out1 @ s1) @ t1) @ t2" "(k_newlines2 w', k_counter w') = fin"
          "lc_ok (k_counter w')"
        using IH(4) [OF fl(1) False pn(1) refl neq p(1) [unfolded w2_def] refl prems(1) _ p(3,6,7,5), folded w2_def, folded w3_def, OF _ sp]
          ready_counter [OF r2 p(2)] by (auto simp: w3_def)
      then show ?thesis
        using unroll neq p(1,4) s2(1) fl(4) k2(6) cat_frame_trans [OF cat_frame_trans [OF k2(5) cat_frame_counter(1)]]
        by (auto simp: w3_def)
    qed
  qed
qed

section \<open>Whole runs\<close>

lemma opened_cat_fields [simp]:
  fixes w :: cat_state
  shows "k_opts (opened d w) = k_opts w" "k_counter (opened d w) = k_counter w"
    "k_newlines2 (opened d w) = k_newlines2 w" "k_in_blksize (opened d w) = k_in_blksize w"
    "io_errno (opened d w) = io_errno w"
  by (cases w; simp add: opened_def park_def tick_def)+

lemma tick_cat_fields [simp]:
  fixes w :: cat_state
  shows "k_opts (tick w) = k_opts w" "k_counter (tick w) = k_counter w"
    "k_newlines2 (tick w) = k_newlines2 w" "k_in_blksize (tick w) = k_in_blksize w"
  by (cases w; simp add: tick_def)+

lemma cat_file_ok:
  assumes "no_fail w" "io_errno w \<noteq> EINTR" "lc_ok (k_counter w)" "16 \<le> outsize"
    and "f \<noteq> ''-''" "io_files w f = Some d" "NUL \<notin> set d"
    and "cat_spec (k_opts w) (k_newlines2 w, k_counter w) d = (s, fin)"
  shows "\<exists>w'. cat_file outsize f w = Ret True w' \<and> no_fail w' \<and> io_errno w' = io_errno w
    \<and> lc_ok (k_counter w') \<and> io_files w' = io_files w \<and> k_opts w' = k_opts w
    \<and> io_out w' = io_out w @ s \<and> (k_newlines2 w', k_counter w') = fin"
proof -
  define w0 where "w0 = opened d w"
  define w1 where "w1 = tick w0"
  define insize where "insize = (if k_in_blksize w < outsize then outsize else k_in_blksize w)"
  have ready: "ready w1" and fields: "k_opts w1 = k_opts w" "k_newlines2 w1 = k_newlines2 w"
      "k_counter w1 = k_counter w" "io_files w1 = io_files w" "io_out w1 = io_out w" "io_errno w1 = io_errno w"
    using assms(1-3,7) by (simp_all add: ready_def w1_def w0_def)
  have "pending [] w1 = d"
    by (simp add: pending_def w1_def w0_def)
  then have sp: "cat_spec (k_opts w1) (k_newlines2 w1, k_counter w1) (pending [] w1) = (s, fin)"
    using assms(8) fields by simp
  have room: "room insize outsize (outsize - 1 + insize * 4 + LINE_COUNTER_BUF_LEN)"
    using assms(4) by (simp add: room_def insize_def)
  obtain w' where w': "cat_loop insize outsize (outsize - 1 + insize * 4 + LINE_COUNTER_BUF_LEN)
        (k_newlines2 w1) [] [] w1 = Ret True w'" "cat_frame w1 w'" "io_out w' = io_out w1 @ s"
      "(k_newlines2 w', k_counter w') = fin" "lc_ok (k_counter w')"
    using cat_loop_correct [OF room ready _ _ _ _ sp, of "[]"] by auto
  have "cat_file outsize f w = cat insize (outsize - 1 + insize * 4 + LINE_COUNTER_BUF_LEN) outsize w1"
    using assms(1,5,6)
    by (simp add: cat_file_def sys_fstat_ok_def bindp_unfold io_simps w0_def w1_def insize_def Let_def)
  then have "cat_file outsize f w = Ret True w'"
    using w'(1) by (simp add: cat_def bindp_unfold)
  then show ?thesis
    using w' fields ready by (auto simp: cat_frame_def ready_def)
qed

lemma cat_files_ok:
  assumes "no_fail w" "io_errno w \<noteq> EINTR" "lc_ok (k_counter w)" "16 \<le> outsize"
    and "\<forall>f \<in> set fs. f \<noteq> ''-'' \<and> io_files w f = Some (contents f) \<and> NUL \<notin> set (contents f)"
  shows "\<exists>w'. all_ok (cat_file outsize) ok fs w = Ret ok w'
    \<and> io_out w' = io_out w @ fst (cat_spec (k_opts w) (k_newlines2 w, k_counter w) (concat (map contents fs)))"
  using assms
proof (induction fs arbitrary: w)
  case Nil
  then show ?case by simp
next
  case (Cons f fs)
  obtain s fin where sp: "cat_spec (k_opts w) (k_newlines2 w, k_counter w) (contents f) = (s, fin)"
    using prod.exhaust by blast
  obtain w1 where w1: "cat_file outsize f w = Ret True w1" "no_fail w1" "io_errno w1 = io_errno w"
      "lc_ok (k_counter w1)" "io_files w1 = io_files w" "k_opts w1 = k_opts w"
      "io_out w1 = io_out w @ s" "(k_newlines2 w1, k_counter w1) = fin"
    using cat_file_ok [OF Cons.prems(1-4) _ _ _ sp] Cons.prems(5) by auto
  obtain w' where "all_ok (cat_file outsize) ok fs w1 = Ret ok w'"
    "io_out w' = io_out w1 @ fst (cat_spec (k_opts w1) fin (concat (map contents fs)))"
    using Cons.IH [of w1] Cons.prems(2,4,5) w1 by auto
  then show ?case
    using w1 sp by (auto simp: bindp_unfold cat_spec_append map_prod_def split: prod.splits)
qed

lemma cat_main_ok:
  assumes "no_fail w" "io_errno w \<noteq> EINTR" "16 \<le> ob" "fs \<noteq> []"
    and "\<forall>f \<in> set fs. f \<noteq> ''-'' \<and> io_files w f = Some (contents f) \<and> NUL \<notin> set (contents f)"
    and "cat_options evs (cat_start ob ib w) = Ret () ((cat_start ob ib w)\<lparr>k_opts := opts\<rparr>)"
  shows "\<exists>w'. cat_main evs fs (cat_start ob ib w) = Ret 0 w'
    \<and> io_out w' = io_out w @ fst (cat_spec opts (0, line_counter_init) (concat (map contents fs)))"
proof -
  define w1 where "w1 = tick ((cat_start ob ib w)\<lparr>k_opts := opts\<rparr>)"
  have w0: "no_fail ((cat_start ob ib w)\<lparr>k_opts := opts\<rparr>)"
    using assms(1) by (simp add: cat_start_def no_fail_def io.defs)
  have w1: "no_fail w1" "io_errno w1 \<noteq> EINTR" "k_counter w1 = line_counter_init" "io_files w1 = io_files w"
      "k_opts w1 = opts" "k_newlines2 w1 = 0" "io_out w1 = io_out w"
    using no_fail_tick [OF w0] assms(2) by (simp_all add: w1_def) (simp_all add: cat_start_def io.defs)
  have st: "sys_fstat_out ((cat_start ob ib w)\<lparr>k_opts := opts\<rparr>) = Ret (Some ob) w1"
    using no_fail_Fail [OF w0]
    by (cases "outcome_of ((cat_start ob ib w)\<lparr>k_opts := opts\<rparr>)")
      (auto simp: sys_fstat_out_def w1_def cat_start_def io.defs)
  obtain w' where "all_ok (cat_file ob) True fs w1 = Ret True w'"
      "io_out w' = io_out w @ fst (cat_spec opts (0, line_counter_init) (concat (map contents fs)))"
    using cat_files_ok [OF w1(1,2) _ assms(3), of fs contents True] assms(5) w1 by auto
  then show ?thesis
    using assms(4,6) by (simp add: cat_main_def thenp_unfold bindp_unfold st)
qed

lemma cat_spec_plain:
  assumes "\<not> nflag opts" "\<not> sflag opts" "\<not> Eflag opts" "\<not> Tflag opts"
  shows "fst (cat_spec opts st xs) = xs"
proof (induction xs arbitrary: st)
  case (Cons c xs)
  have "fst (cat_char opts st c) = [c]"
    using assms by (simp add: cat_char_def number_if_def show_char_def case_prod_beta Let_def)
  then show ?case
    using Cons by (simp add: case_prod_beta map_prod_def)
qed simp

section \<open>Line numbers\<close>

lemma dec_less: "n < 10 \<Longrightarrow> dec n = [char_of (48 + n)]"
  by (subst dec.simps) simp

lemma dec_step: "10 \<le> n \<Longrightarrow> dec n = dec (n div 10) @ [char_of (48 + n mod 10)]"
  by (subst dec.simps) simp

lemma char_of_48: "char_of (48 :: nat) = CHR ''0''" "char_of (49 :: nat) = CHR ''1''"
  by (simp_all add: char_of_def bit_0)

lemma pos_mod_bound_nine: "n mod 10 \<noteq> 9 \<Longrightarrow> n mod 10 < (9 :: nat)"
  by presburger

lemma next_digit_dec:
  "next_digit (length pre) (length pre + length (dec n) - 1) (pre @ dec n @ post) =
     (if length (dec (Suc n)) = length (dec n) then (pre @ dec (Suc n) @ post, True)
      else (pre @ replicate (length (dec n)) (CHR ''0'') @ post, False))
   \<and> (length (dec (Suc n)) \<noteq> length (dec n) \<longrightarrow>
        dec (Suc n) = CHR ''1'' # replicate (length (dec n)) (CHR ''0''))"
proof (induction n arbitrary: post rule: dec.induct)
  case (1 n)
  show ?case
  proof (cases "n < 10")
    case True
    show ?thesis
    proof (cases "n = 9")
      case nine: True
      have ten: "dec 10 = ''10''"
        by (subst dec_step) (simp_all add: dec_less char_of_48)
      show ?thesis
        by (subst next_digit.simps) (simp add: nine ten dec_less of_char_digit nth_append)
    next
      case False
      then show ?thesis
        using True by (subst next_digit.simps) (simp add: dec_less of_char_digit nth_append)
    qed
  next
    case big: False
    define m where "m = n div 10"
    have dn: "dec n = dec m @ [char_of (48 + n mod 10)]" "0 < length (dec m)"
      using big by (simp_all add: dec_step m_def)
    show ?thesis
    proof (cases "n mod 10 = 9")
      case True
      then have s: "Suc n div 10 = Suc m" "Suc n mod 10 = 0"
        by (simp_all add: m_def div_Suc mod_Suc)
      have ds: "dec (Suc n) = dec (Suc m) @ [CHR ''0'']"
        using big s dec_step [of "Suc n"] by (simp add: char_of_48)
      have IH: "next_digit (length pre) (length pre + length (dec m) - 1) (pre @ dec m @ CHR ''0'' # post) =
          (if length (dec (Suc m)) = length (dec m) then (pre @ dec (Suc m) @ CHR ''0'' # post, True)
           else (pre @ replicate (length (dec m)) (CHR ''0'') @ CHR ''0'' # post, False))
        \<and> (length (dec (Suc m)) \<noteq> length (dec m) \<longrightarrow>
             dec (Suc m) = CHR ''1'' # replicate (length (dec m)) (CHR ''0''))"
        using 1 [of "CHR ''0'' # post"] big by (simp add: m_def)
      have "next_digit (length pre) (length pre + length (dec n) - 1) (pre @ dec n @ post) =
          next_digit (length pre) (length pre + length (dec m) - 1) (pre @ dec m @ CHR ''0'' # post)"
        using dn(2) True
        by (subst next_digit.simps) (simp add: dn(1) of_char_digit nth_append Let_def list_update_append)
      then show ?thesis
        using IH by (auto simp: ds dn(1) replicate_append_same simp flip: replicate_Suc)
    next
      case False
      then have s: "Suc n div 10 = m" "Suc n mod 10 = Suc (n mod 10)"
        by (simp_all add: m_def div_Suc mod_Suc)
      have ds: "dec (Suc n) = dec m @ [char_of (48 + Suc (n mod 10))]"
        using big s dec_step [of "Suc n"] by simp
      have "n mod 10 < 9"
        using False pos_mod_bound_nine [of n] by simp
      then show ?thesis
        by (subst next_digit.simps) (simp add: dn(1) ds of_char_digit nth_append list_update_append)
    qed
  qed
qed

text \<open>The counter after \<open>n\<close> steps, while the number fits in the buffer.\<close>

definition counts :: "nat \<Rightarrow> line_counter \<Rightarrow> bool" where
  "counts n lc \<longleftrightarrow> length (dec n) \<le> 18
     \<and> line_buf lc = replicate (18 - length (dec n)) (CHR '' '') @ dec n @ [TAB, NUL]
     \<and> line_num_start lc = 18 - length (dec n) \<and> line_num_print lc = min 12 (18 - length (dec n))"

lemma counts_init: "counts 0 line_counter_init"
  by (simp add: counts_def line_counter_init_def dec_less char_of_48 LINE_COUNTER_BUF_LEN_def)

lemma length_dec_mono: "length (dec (Suc n)) = length (dec n) \<or> length (dec (Suc n)) = Suc (length (dec n))"
  using next_digit_dec [of "[]" n "[]"] by (auto simp: length_Suc_conv)

lemma counts_next:
  assumes "counts n lc" "length (dec (Suc n)) \<le> 18"
  shows "counts (Suc n) (next_line_num lc)"
proof -
  define pre where "pre = replicate (18 - length (dec n)) (CHR '' '')"
  have lc: "line_buf lc = pre @ dec n @ [TAB, NUL]" "line_num_start lc = length pre"
      "line_num_print lc = min 12 (length pre)" "length pre = 18 - length (dec n)" "length (dec n) \<le> 18"
    using assms(1) by (simp_all add: counts_def pre_def)
  have pos: "0 < length (dec n)"
    by simp
  have le: "length pre + length (dec n) - 1 = line_num_end"
    using lc(4,5) pos by (simp add: line_num_end_def LINE_COUNTER_BUF_LEN_def)
  note nd = next_digit_dec [of pre n "[TAB, NUL]", unfolded le]
  show ?thesis
  proof (cases "length (dec (Suc n)) = length (dec n)")
    case True
    then show ?thesis
      using nd lc assms(2) by (simp add: next_line_num_def counts_def pre_def)
  next
    case False
    then have len: "length (dec (Suc n)) = Suc (length (dec n))"
      using length_dec_mono [of n] by blast
    then obtain k where k: "length pre = Suc k" "18 - length (dec (Suc n)) = k"
      using assms(2) lc(4) that [of "17 - length (dec n)"] by simp
    then have pre: "pre = replicate k (CHR '' '') @ [CHR '' '']"
      using lc(4) by (simp add: pre_def replicate_append_same)
    have "(pre @ replicate (length (dec n)) (CHR ''0'') @ [TAB, NUL])[k := CHR ''1''] =
        replicate k (CHR '' '') @ dec (Suc n) @ [TAB, NUL]"
      using nd False by (simp add: pre list_update_append)
    then show ?thesis
      using nd lc(1-3) False k assms(2) by (auto simp: next_line_num_def counts_def Let_def min_def)
  qed
qed

lemma counts_string:
  assumes "counts n lc"
  shows "line_num_string lc = replicate (6 - length (dec n)) (CHR '' '') @ dec n @ [TAB]"
proof -
  have nul: "\<forall>c \<in> set (dec n). c \<noteq> NUL"
    using dec_digits [of n] by (auto simp: list_all_iff is_digit_def NUL_def)
  have "drop (line_num_print lc) (line_buf lc) =
      (replicate (6 - length (dec n)) (CHR '' '') @ dec n @ [TAB]) @ [NUL]"
    using assms by (auto simp: counts_def min_def)
  moreover have "takeWhile (\<lambda>c. c \<noteq> NUL) ((replicate (6 - length (dec n)) (CHR '' '') @ dec n @ [TAB]) @ [NUL]) =
      replicate (6 - length (dec n)) (CHR '' '') @ dec n @ [TAB]"
    using nul by (subst takeWhile_append2) (auto simp: NUL_def TAB_def)
  ultimately show ?thesis
    by (simp add: line_num_string_def)
qed

lemma counts_funpow: "length (dec n) \<le> 18 \<Longrightarrow> counts n ((next_line_num ^^ n) line_counter_init)"
proof (induction n)
  case 0
  then show ?case by (simp add: counts_init)
next
  case (Suc n)
  then show ?case
    using length_dec_mono [of n] by (auto intro!: counts_next)
qed

section \<open>Properties\<close>


text \<open>
  Cat without options copies the files, one behind the other.
\<close>

theorem cat_main_plain:
  assumes "no_fail w" "io_errno w \<noteq> EINTR" "16 \<le> ob" "fs \<noteq> []"
    and "\<forall>f \<in> set fs. f \<noteq> ''-'' \<and> io_files w f = Some (contents f) \<and> NUL \<notin> set (contents f)"
  shows "\<exists>w'. cat_main [] fs (cat_start ob ib w) = Ret 0 w' \<and> io_out w' = io_out w @ concat (map contents fs)"
proof -
  have "cat_options [] (cat_start ob ib w) = Ret () ((cat_start ob ib w)\<lparr>k_opts := k_opts (cat_start ob ib w)\<rparr>)"
    by simp
  from cat_main_ok [OF assms this] show ?thesis
    by (simp add: cat_spec_plain cat_start_def io.defs)
qed

text \<open>
  The n-th line number is n in decimal, right-justified in six columns and followed by a
  tab, as long as it has at most 18 digits.
\<close>

theorem cat_line_number:
  assumes "length (dec n) \<le> 18"
  shows "line_num_string ((next_line_num ^^ n) line_counter_init) =
    replicate (6 - length (dec n)) (CHR '' '') @ dec n @ [TAB]"
  using counts_string [OF counts_funpow [OF assms]] .

text \<open>
  A file that cannot be opened does not show in the exit status, which is always 0.
\<close>

theorem cat_missing_file:
  assumes "no_fail w" "f \<noteq> ''-''" "io_files w f = None"
  shows "\<exists>w'. cat_main [] [f] (cat_start ob ib w) = Ret 0 w' \<and> io_out w' = io_out w"
proof -
  define w1 where "w1 = tick (cat_start ob ib w)"
  have w0: "no_fail (cat_start ob ib w)"
    using assms(1) by (simp add: cat_start_def no_fail_def io.defs)
  have w1: "no_fail w1" "io_files w1 f = None" "io_out w1 = io_out w"
    using no_fail_tick [OF w0] assms(3) by (simp_all add: w1_def) (simp_all add: cat_start_def io.defs)
  have st: "sys_fstat_out (cat_start ob ib w) = Ret (Some ob) w1"
    using no_fail_Fail [OF w0]
    by (cases "outcome_of (cat_start ob ib w)") (auto simp: sys_fstat_out_def w1_def cat_start_def io.defs)
  have "\<exists>w2. sys_open f w1 = Ret False w2 \<and> io_out w2 = io_out w"
    using no_fail_Fail [OF w1(1)] w1(2,3) by (cases "outcome_of w1") (auto simp: sys_open_def set_errno_def)
  then show ?thesis
    using assms(2) by (auto simp: cat_main_def thenp_unfold bindp_unfold st cat_file_def perror_def eputs_def)
qed

text \<open>
  Flushing a full block loses what lies behind a NUL in the remainder: the characters
  after the NUL come out as NULs.
\<close>

theorem cat_flush_loses_after_NUL:
  assumes "no_fail w" "io_errno w \<noteq> EINTR" "0 < length b" "length t + 1 < length b"
  shows "\<exists>w'. flush_out (length b) (b @ NUL # t) w = Ret (replicate (Suc (length t)) NUL) w'
    \<and> io_out w' = io_out w @ b"
  using safe_write_ok [OF assms(1,2), of b] assms(3,4)
  by (auto simp: flush_out_def flush_blocks.simps [of "length b"] strncpy_def Let_def)

section \<open>Witnesses\<close>

lemma char_of_50: "char_of (50 :: nat) = CHR ''2''"
  by code_simp

definition cat_files :: io where
  "cat_files = empty_io\<lparr>io_files := [''f'' \<mapsto> [CHR ''a'', NL, NL], ''g'' \<mapsto> ''b'']\<rparr>"

lemma cat_files_fields [simp]:
  "no_fail cat_files" "io_errno cat_files = 0" "io_out cat_files = []"
  "io_files cat_files = [''f'' \<mapsto> [CHR ''a'', NL, NL], ''g'' \<mapsto> ''b'']"
  by (simp_all add: cat_files_def empty_io_def no_fail_def)


theorem cat_main_plain_witness:
  "\<exists>w'. cat_main [] [''f'', ''g''] (cat_start 512 512 cat_files) = Ret 0 w'
     \<and> io_out w' = [CHR ''a'', NL, NL, CHR ''b'']"
  using cat_main_plain [of cat_files 512 "[''f'', ''g'']" "\<lambda>f. if f = ''f'' then [CHR ''a'', NL, NL] else ''b''" 512]
  by (simp add: EINTR_def NUL_def NL_def)

theorem cat_line_number_witness:
  "line_num_string ((next_line_num ^^ 2) line_counter_init) = ''     2'' @ [TAB]"
  using cat_line_number [of 2] char_of_50 by (simp add: dec_less eval_nat_numeral(2,3))

theorem cat_missing_file_witness:
  "\<exists>w'. cat_main [] [''h''] (cat_start 512 512 cat_files) = Ret 0 w' \<and> io_out w' = []"
  using cat_missing_file [of cat_files "''h''" 512 512] by simp

theorem cat_flush_loses_after_NUL_witness:
  "\<exists>w'. flush_out (length ''abcd'') (''abcd'' @ NUL # ''xy'') empty_io = Ret (replicate (Suc (length ''xy'')) NUL) w'
     \<and> io_out w' = ''abcd''"
  using cat_flush_loses_after_NUL [of empty_io "''abcd''" "''xy''"]
  by (simp add: empty_io_def no_fail_def EINTR_def)

end
