(* ===== verification/Job_Queue.thy ===== *)
theory Job_Queue
  imports Ulsp_Prelude
begin

text \<open>
  The job queue of thpool/thpool.c: a linked list in the heap with a pointer to its first and
  to its last job and a counter. Pointers are addresses or None (null); a store from addresses
  to jobs is the heap, and using an address that is not allocated is undefined behaviour.
\<close>

type_synonym addr = nat

record job =
  j_fun :: nat
  j_arg :: nat
  j_next :: "addr option"

record jobqueue =
  q_heap :: "addr \<Rightarrow> job option"
  q_head :: "addr option"
  q_tail :: "addr option"
  q_len :: "32 word"

definition jobqueue_init :: "(addr \<Rightarrow> job option) \<Rightarrow> jobqueue" where
  "jobqueue_init heap = \<lparr>q_heap = heap, q_head = None, q_tail = None, q_len = 0\<rparr>"

definition jobqueue_push :: "addr \<Rightarrow> (jobqueue, unit) prog" where
  "jobqueue_push job q =
     (case (case q_tail q of
         Some t \<Rightarrow> (case q_heap q t of
             None \<Rightarrow> None
           | Some j \<Rightarrow> Some (q\<lparr>q_heap := (q_heap q)(t \<mapsto> j\<lparr>j_next := Some job\<rparr>)\<rparr>))
       | None \<Rightarrow> Some (q\<lparr>q_head := Some job\<rparr>)) of
        None \<Rightarrow> Undef
      | Some q' \<Rightarrow> Ret () (q'\<lparr>q_tail := Some job, q_len := q_len q' + 1\<rparr>))"

definition jobqueue_pop :: "(jobqueue, addr option) prog" where
  "jobqueue_pop q =
     (if q_len q = 0 then Ret None q
      else (case q_head q of
          None \<Rightarrow> Undef
        | Some a \<Rightarrow> (case q_heap q a of
            None \<Rightarrow> Undef
          | Some j \<Rightarrow>
              let q1 = q\<lparr>q_head := j_next j\<rparr>;
                  q2 = (if q_head q1 = None then q1\<lparr>q_tail := None\<rparr> else q1)
              in Ret (Some a) (q2\<lparr>q_len := q_len q2 - 1\<rparr>))))"

definition free_job :: "addr \<Rightarrow> (jobqueue, unit) prog" where
  "free_job a q = (if q_heap q a = None then Undef else Ret () (q\<lparr>q_heap := (q_heap q)(a := None)\<rparr>))"

text \<open>
  \<open>jobqueue_clear\<close>: the body frees the first job and then reads the link of the first job.
  A loop that does not leave its first turn needs no recursion, but the source's loop is kept.
\<close>

function jobqueue_clear_loop :: "(jobqueue, unit) prog" where
  "jobqueue_clear_loop q =
     (case q_head q of
        None \<Rightarrow> Ret () (q\<lparr>q_head := None, q_tail := None\<rparr>)
      | Some a \<Rightarrow>
          (case free_job a q of
             Ret _ q1 \<Rightarrow>
               (case q_heap q1 a of
                  None \<Rightarrow> Undef
                | Some j \<Rightarrow> jobqueue_clear_loop (q1\<lparr>q_head := j_next j, q_len := q_len q1 - 1\<rparr>))
           | Exit k q1 \<Rightarrow> Exit k q1 | Undef \<Rightarrow> Undef))"
  by pat_completeness auto
termination
  by (relation "{}") (auto simp: free_job_def split: if_splits)

declare jobqueue_clear_loop.simps [simp del]

definition jobqueue_clear :: "(jobqueue, unit) prog" where
  "jobqueue_clear = jobqueue_clear_loop"

definition jobqueue_destroy :: "(jobqueue, unit) prog" where
  "jobqueue_destroy = jobqueue_clear"

section \<open>What a queue promises\<close>

text \<open>
  The interface the pool relies on: \<open>repr q js\<close> says that \<open>q\<close> holds the jobs \<open>js\<close> in this
  order; adding a job that is fresh appends it, taking one removes the first.
\<close>

locale fifo_queue =
  fixes repr :: "'q \<Rightarrow> 'j list \<Rightarrow> bool"
    and fresh :: "'q \<Rightarrow> 'j \<Rightarrow> bool"
    and put :: "'j \<Rightarrow> ('q, unit) prog"
    and get :: "('q, 'j option) prog"
    and capacity :: nat
  assumes put_law: "repr q js \<Longrightarrow> fresh q j \<Longrightarrow> j \<notin> set js \<Longrightarrow> Suc (length js) < capacity \<Longrightarrow>
      \<exists>q'. put j q = Ret () q' \<and> repr q' (js @ [j]) \<and> (\<forall>i. fresh q i \<and> i \<notin> set js \<longrightarrow> fresh q' i)"
    and get_empty: "repr q [] \<Longrightarrow> get q = Ret None q"
    and get_law: "repr q (j # js) \<Longrightarrow> \<exists>q'. get q = Ret (Some j) q' \<and> repr q' js"
begin

fun put_all :: "'j list \<Rightarrow> ('q, unit) prog" where
  "put_all [] = retp ()"
| "put_all (j # js) = thenp (put j) (put_all js)"

fun get_all :: "nat \<Rightarrow> ('q, 'j option list) prog" where
  "get_all 0 = retp []"
| "get_all (Suc n) = bindp get (\<lambda>j. bindp (get_all n) (\<lambda>js. retp (j # js)))"

lemma put_all_repr:
  "repr q js \<Longrightarrow> list_all (fresh q) ks \<Longrightarrow> distinct (js @ ks) \<Longrightarrow> length js + length ks < capacity \<Longrightarrow>
     \<exists>q'. put_all ks q = Ret () q' \<and> repr q' (js @ ks)"
proof (induction ks arbitrary: q js)
  case Nil
  then show ?case by simp
next
  case (Cons k ks)
  then obtain q1 where q1: "put k q = Ret () q1" "repr q1 (js @ [k])" "\<forall>i. fresh q i \<and> i \<notin> set js \<longrightarrow> fresh q1 i"
    using put_law [of q js k] by auto
  then have "list_all (fresh q1) ks"
    using Cons.prems(2,3) by (auto simp: list_all_iff)
  then obtain q' where "put_all ks q1 = Ret () q'" "repr q' ((js @ [k]) @ ks)"
    using Cons.IH [of q1 "js @ [k]"] q1(2) Cons.prems(3,4) by auto
  then show ?case
    using q1(1) by (auto simp: thenp_unfold)
qed

lemma get_all_repr: "repr q js \<Longrightarrow> \<exists>q'. get_all (length js) q = Ret (map Some js) q' \<and> repr q' []"
proof (induction js arbitrary: q)
  case (Cons j js)
  then obtain q1 where "get q = Ret (Some j) q1" "repr q1 js"
    using get_law by blast
  with Cons.IH [of q1] show ?case
    by (auto simp: bindp_unfold)
qed simp

text \<open>First in, first out.\<close>

lemma fifo:
  assumes "repr q []" "list_all (fresh q) ks" "distinct ks" "length ks < capacity"
  shows "\<exists>q'. bindp (put_all ks) (\<lambda>_. get_all (length ks)) q = Ret (map Some ks) q' \<and> repr q' []"
proof -
  obtain q1 where "put_all ks q = Ret () q1" "repr q1 ks"
    using put_all_repr [OF assms(1,2)] assms(3,4) by auto
  then show ?thesis
    using get_all_repr [of q1 ks] by (auto simp: bindp_unfold)
qed

end

section \<open>The linked list is such a queue\<close>

text \<open>From \<open>p\<close> on the links lead through the addresses \<open>as\<close> and end in null.\<close>

fun linked :: "(addr \<Rightarrow> job option) \<Rightarrow> addr option \<Rightarrow> addr list \<Rightarrow> bool" where
  "linked h p [] = (p = None)"
| "linked h p (a # as) = (p = Some a \<and> (\<exists>j. h a = Some j \<and> linked h (j_next j) as))"

definition queue_repr :: "jobqueue \<Rightarrow> addr list \<Rightarrow> bool" where
  "queue_repr q as \<longleftrightarrow> linked (q_heap q) (q_head q) as \<and> distinct as
     \<and> q_tail q = (if as = [] then None else Some (last as))
     \<and> q_len q = of_nat (length as) \<and> length as < 2 ^ 32"

text \<open>A job that was allocated and not yet queued: its link is null.\<close>

definition fresh_job :: "jobqueue \<Rightarrow> addr \<Rightarrow> bool" where
  "fresh_job q a \<longleftrightarrow> (\<exists>j. q_heap q a = Some j \<and> j_next j = None)"

lemma linked_alloc: "linked h p as \<Longrightarrow> a \<in> set as \<Longrightarrow> h a \<noteq> None"
  by (induction as arbitrary: p) auto

lemma linked_upd: "a \<notin> set as \<Longrightarrow> linked (h(a := x)) p as = linked h p as"
  by (induction as arbitrary: p) auto

lemma linked_snoc:
  assumes "linked h p (as @ [t])" "distinct (as @ [t])" "h t = Some j" "b \<noteq> t" "b \<notin> set as"
    and "h b = Some k" "j_next k = None"
  shows "linked (h(t \<mapsto> j\<lparr>j_next := Some b\<rparr>)) p (as @ [t, b])"
  using assms(1,2,5)
proof (induction as arbitrary: p)
  case Nil
  then show ?case
    using assms(3,4,6,7) by simp
next
  case (Cons a as)
  then show ?case by auto
qed

lemma of_nat_len_zero: "n < 2 ^ 32 \<Longrightarrow> (of_nat n = (0 :: 32 word)) = (n = 0)"
  by (simp add: word_of_nat_eq_0_iff)
    (metis dvd_imp_le less_nat_zero_code linorder_not_le neq0_conv dvd_0_right)

lemma jobqueue_push_repr:
  assumes "queue_repr q as" "fresh_job q a" "a \<notin> set as" "Suc (length as) < 2 ^ 32"
  shows "\<exists>q'. jobqueue_push a q = Ret () q' \<and> queue_repr q' (as @ [a]) \<and> (\<forall>i. fresh_job q i \<and> i \<notin> set as \<longrightarrow> fresh_job q' i)"
proof (cases as rule: rev_cases)
  case Nil
  then show ?thesis
    using assms by (auto simp: queue_repr_def jobqueue_push_def fresh_job_def)
next
  case (snoc bs t)
  obtain k where k: "q_heap q a = Some k" "j_next k = None"
    using assms(2) by (auto simp: fresh_job_def)
  obtain j where j: "q_heap q t = Some j"
    using assms(1) snoc linked_alloc [of "q_heap q" "q_head q" as t] by (auto simp: queue_repr_def)
  have "linked ((q_heap q)(t \<mapsto> j\<lparr>j_next := Some a\<rparr>)) (q_head q) (bs @ [t, a])"
    using assms(1,3) snoc j k by (intro linked_snoc) (auto simp: queue_repr_def)
  then show ?thesis
    using assms j snoc by (auto simp: queue_repr_def jobqueue_push_def fresh_job_def)
qed

lemma jobqueue_pop_empty: "queue_repr q [] \<Longrightarrow> jobqueue_pop q = Ret None q"
  by (simp add: queue_repr_def jobqueue_pop_def)

lemma jobqueue_pop_repr:
  assumes "queue_repr q (a # as)"
  shows "\<exists>q'. jobqueue_pop q = Ret (Some a) q' \<and> queue_repr q' as \<and> q_heap q' = q_heap q"
proof -
  have "q_len q \<noteq> 0"
    using assms of_nat_len_zero [of "length (a # as)"] by (simp add: queue_repr_def)
  moreover have "as = [] \<or> j_next j \<noteq> None" if "q_heap q a = Some j" for j
    using assms that by (cases as) (auto simp: queue_repr_def)
  ultimately show ?thesis
    using assms by (cases as) (auto simp: queue_repr_def jobqueue_pop_def Let_def)
qed

interpretation jq: fifo_queue queue_repr fresh_job jobqueue_push jobqueue_pop "2 ^ 32"
proof
  fix q js j
  assume "queue_repr q js" "fresh_job q j" "j \<notin> set js" "Suc (length js) < 2 ^ 32"
  then show "\<exists>q'. jobqueue_push j q = Ret () q' \<and> queue_repr q' (js @ [j])
      \<and> (\<forall>i. fresh_job q i \<and> i \<notin> set js \<longrightarrow> fresh_job q' i)"
    by (rule jobqueue_push_repr)
next
  fix q j js
  assume "queue_repr q (j # js)"
  then show "\<exists>q'. jobqueue_pop q = Ret (Some j) q' \<and> queue_repr q' js"
    using jobqueue_pop_repr by blast
qed (rule jobqueue_pop_empty)

text \<open>What a job carries is not touched by queueing.\<close>

definition content :: "jobqueue \<Rightarrow> addr \<Rightarrow> (nat \<times> nat) option" where
  "content q a = map_option (\<lambda>j. (j_fun j, j_arg j)) (q_heap q a)"

lemma content_push: "jobqueue_push a q = Ret () q' \<Longrightarrow> content q' b = content q b"
  by (auto simp: jobqueue_push_def content_def split: option.splits)

lemma content_pop: "jobqueue_pop q = Ret r q' \<Longrightarrow> content q' b = content q b"
  by (auto simp: jobqueue_pop_def content_def Let_def split: if_splits option.splits)

lemma dom_push: "jobqueue_push a q = Ret () q' \<Longrightarrow> (q_heap q' b = None) = (q_heap q b = None)"
  using content_push [of a q q' b] by (cases "q_heap q b"; cases "q_heap q' b") (auto simp: content_def)

lemma dom_pop: "jobqueue_pop q = Ret r q' \<Longrightarrow> (q_heap q' b = None) = (q_heap q b = None)"
  using content_pop [of q r q' b] by (cases "q_heap q b"; cases "q_heap q' b") (auto simp: content_def)

lemma queue_repr_head: "queue_repr q as \<Longrightarrow> q_head q = (case as of [] \<Rightarrow> None | a # _ \<Rightarrow> Some a)"
  by (cases as) (auto simp: queue_repr_def)

section \<open>Clearing\<close>

lemma jobqueue_clear_cases:
  assumes "queue_repr q as"
  shows "jobqueue_clear q = (if as = [] then Ret () q else Undef)"
proof (cases as)
  case Nil
  then have "q_head q = None" "q_tail q = None"
    using assms by (simp_all add: queue_repr_def)
  then show ?thesis
    using Nil by (simp add: jobqueue_clear_def jobqueue_clear_loop.simps)
next
  case (Cons a bs)
  then obtain j where "q_head q = Some a" "q_heap q a = Some j"
    using assms by (auto simp: queue_repr_def)
  then show ?thesis
    using Cons by (simp add: jobqueue_clear_def jobqueue_clear_loop.simps [of q] free_job_def)
qed

section \<open>Properties\<close>

text \<open>
  Jobs pushed onto an empty queue come out of it in the same order, each once, and leave
  it empty; no pointer is used that is not allocated.
\<close>

theorem jobqueue_fifo:
  assumes "queue_repr q []" "list_all (fresh_job q) ks" "distinct ks" "length ks < 2 ^ 32"
  shows "\<exists>q'. bindp (jq.put_all ks) (\<lambda>_. jq.get_all (length ks)) q = Ret (map Some ks) q' \<and> queue_repr q' []"
  using assms by (rule jq.fifo)

text \<open>
  Clearing a queue that still holds a job reads the link of the job it has just freed.
\<close>

theorem jobqueue_destroy_use_after_free:
  assumes "queue_repr q as" "as \<noteq> []"
  shows "jobqueue_destroy q = Undef"
  using jobqueue_clear_cases [OF assms(1)] assms(2) by (simp add: jobqueue_destroy_def)

definition two_jobs :: jobqueue where
  "two_jobs = jobqueue_init [1 \<mapsto> \<lparr>j_fun = 7, j_arg = 10, j_next = None\<rparr>, 2 \<mapsto> \<lparr>j_fun = 8, j_arg = 20, j_next = None\<rparr>]"

theorem jobqueue_fifo_witness:
  "\<exists>q'. bindp (jq.put_all [1, 2]) (\<lambda>_. jq.get_all (length [1, 2 :: nat])) two_jobs = Ret [Some 1, Some 2] q'
     \<and> queue_repr q' []"
proof -
  have "queue_repr two_jobs []" "list_all (fresh_job two_jobs) [1, 2]"
    by (simp_all add: two_jobs_def jobqueue_init_def queue_repr_def fresh_job_def)
  then show ?thesis
    using jobqueue_fifo [of two_jobs "[1, 2]"] by simp
qed

theorem jobqueue_destroy_use_after_free_witness:
  "jobqueue_destroy (two_jobs\<lparr>q_head := Some 1, q_tail := Some 1, q_len := 1\<rparr>) = Undef"
  using jobqueue_destroy_use_after_free [of "two_jobs\<lparr>q_head := Some 1, q_tail := Some 1, q_len := 1\<rparr>" "[1]"]
  by (simp add: two_jobs_def jobqueue_init_def queue_repr_def)

end
