(* ===== verification/Thread_Pool.thy ===== *)
theory Thread_Pool
  imports Job_Queue
begin

text \<open>
  thpool/thpool.c: the pool as a transition system. One thread uses the interface of the pool
  (the client), the others run \<open>thread_do\<close>; a step is what a thread does between two
  synchronisation points, and a critical section is one step. The order of steps is left
  open.
\<close>

section \<open>State\<close>

text \<open>
  Where a worker is in \<open>thread_do\<close>: before it is counted, at the test of \<open>running\<close>, at
  \<open>sem_wait\<close>, behind it, about to count itself as working, about to take a job, executing
  one, about to stop working, about to hand the semaphore on, about to leave, gone.
\<close>

datatype wpc = WStart | WLoop | WSem | WCheck | WInc | WPop | WRun addr | WDec | WPost | WExit | WDead

text \<open>
  Where the client is: in the waiting loop of \<open>thpool_init\<close>, outside, between the two halves
  of \<open>thpool_add_job\<close>, at the test of \<open>thpool_wait\<close>, asleep in it, in the loop of
  \<open>thpool_destroy\<close>, behind it.
\<close>

datatype cpc = CInit | CIdle | CPost | CWait | CSleep | CDestroy | CGone

text \<open>
  A worker: where it is, whether SIGUSR1 is pending for it, whether it is in the handler
  \<open>thread_pause\<close>. The last two fields of the pool do not exist in the program: the jobs in the
  order in which they were added and taken.
\<close>

type_synonym worker = "wpc \<times> bool \<times> bool"

record pool =
  p_thread_num :: nat
  p_alive :: int
  p_working :: int
  p_running :: bool
  p_stop :: bool
  p_has_job :: nat
  p_jobs :: jobqueue
  p_workers :: "worker list"
  p_client :: cpc
  p_added :: "(nat \<times> nat) list"
  p_taken :: "(nat \<times> nat) list"

text \<open>\<open>thpool_init\<close> up to its waiting loop: the threads exist and have done nothing yet.\<close>

definition pool_start :: "nat \<Rightarrow> (addr \<Rightarrow> job option) \<Rightarrow> pool" where
  "pool_start nb_threads heap =
     \<lparr>p_thread_num = nb_threads, p_alive = 0, p_working = 0, p_running = True, p_stop = False,
      p_has_job = 0, p_jobs = jobqueue_init heap, p_workers = replicate nb_threads (WStart, False, False),
      p_client = CInit, p_added = [], p_taken = []\<rparr>"

text \<open>
  The failure paths of \<open>thpool_init\<close>: which of its calls succeed, the creation of the threads
  one by one. The result is a pool, a null pointer, or undefined behaviour: of the label
  \<open>fail_init_thread\<close> with \<open>i = nb_threads\<close>, past the end of the array, and of the threads that
  were started before a creation failed, which use the pool after it is freed.
\<close>

record init_calls =
  ic_malloc :: bool
  ic_mutex :: bool
  ic_cond :: bool
  ic_sem :: bool
  ic_threads :: bool
  ic_create :: "nat \<Rightarrow> bool"
  ic_queue :: bool

datatype init_result = Init_Pool pool | Init_Null | Init_Undef

definition thpool_init :: "init_calls \<Rightarrow> nat \<Rightarrow> (addr \<Rightarrow> job option) \<Rightarrow> init_result" where
  "thpool_init calls nb_threads heap =
     (if \<not> ic_malloc calls \<or> \<not> ic_mutex calls \<or> \<not> ic_cond calls \<or> \<not> ic_sem calls \<or> \<not> ic_threads calls
      then Init_Null
      else (case find (\<lambda>i. \<not> ic_create calls i) [0..<nb_threads] of
          Some i \<Rightarrow> if i = 0 then Init_Null else Init_Undef
        | None \<Rightarrow> if \<not> ic_queue calls then Init_Undef else Init_Pool (pool_start nb_threads heap)))"

section \<open>Steps\<close>

text \<open>\<open>pthread_cond_signal\<close>: the client, the only thread that waits, goes back to its test.\<close>

definition cond_signal :: "pool \<Rightarrow> pool" where
  "cond_signal p = (if p_client p = CSleep then p\<lparr>p_client := CWait\<rparr> else p)"

text \<open>One step of \<open>thread_do\<close>; None when the thread has to wait.\<close>

fun thread_do :: "wpc \<Rightarrow> (pool, wpc option) prog" where
  "thread_do WStart p = Ret (Some WLoop) (p\<lparr>p_alive := p_alive p + 1\<rparr>)"
| "thread_do WLoop p = Ret (Some (if p_running p then WSem else WExit)) p"
| "thread_do WSem p = (if p_has_job p = 0 then Ret None p
     else Ret (Some WCheck) (p\<lparr>p_has_job := p_has_job p - 1\<rparr>))"
| "thread_do WCheck p = Ret (Some (if p_running p then WInc else WPost)) p"
| "thread_do WInc p = Ret (Some WPop) (p\<lparr>p_working := p_working p + 1\<rparr>)"
| "thread_do WPop p =
     (case jobqueue_pop (p_jobs p) of
        Ret None q \<Rightarrow> Ret (Some WDec) (p\<lparr>p_jobs := q\<rparr>)
      | Ret (Some a) q \<Rightarrow>
          (case content (p_jobs p) a of
             None \<Rightarrow> Undef
           | Some c \<Rightarrow> Ret (Some (WRun a)) (p\<lparr>p_jobs := q, p_taken := p_taken p @ [c]\<rparr>))
      | Exit k q \<Rightarrow> Exit k p | Undef \<Rightarrow> Undef)"
| "thread_do (WRun a) p =
     (case free_job a (p_jobs p) of
        Ret _ q \<Rightarrow> Ret (Some WDec) (p\<lparr>p_jobs := q\<rparr>) | Exit k q \<Rightarrow> Exit k p | Undef \<Rightarrow> Undef)"
| "thread_do WDec p =
     (let p' = p\<lparr>p_working := p_working p - 1\<rparr>
      in Ret (Some WLoop) (if p_working p' = 0 then cond_signal p' else p'))"
| "thread_do WPost p = Ret (Some WLoop) (p\<lparr>p_has_job := p_has_job p + 1\<rparr>)"
| "thread_do WExit p = Ret (Some WDead) (p\<lparr>p_alive := p_alive p - 1\<rparr>)"
| "thread_do WDead p = Ret None p"

text \<open>\<open>malloc\<close> and the assignments of \<open>thpool_add_job\<close>, then the push.\<close>

definition add_job :: "addr \<Rightarrow> nat \<Rightarrow> nat \<Rightarrow> (jobqueue, unit) prog" where
  "add_job a f x q =
     jobqueue_push a (q\<lparr>q_heap := (q_heap q)(a \<mapsto> \<lparr>j_fun = f, j_arg = x, j_next = None\<rparr>)\<rparr>)"

text \<open>
  \<open>thread_pause\<close> returns when \<open>stop\<close> is clear. The action is installed without SA_RESTART: a
  \<open>sem_wait\<close> that the handler interrupted fails with EINTR, and the worker, which does not look
  at its result, goes on as if it had taken the semaphore.
\<close>

fun handler_return :: "wpc \<Rightarrow> wpc \<Rightarrow> bool" where
  "handler_return WSem pc' = (pc' = WSem \<or> pc' = WCheck)"
| "handler_return pc pc' = (pc' = pc)"

text \<open>
  The steps. A job is added only while fewer than 2 ^ 32 - 1 are queued (the counter is an
  unsigned int). \<open>pthread_cond_wait\<close> may return without a signal. A signal is delivered some
  time after \<open>pthread_kill\<close>, and not while the handler runs, which blocks it.
\<close>

inductive worker_step :: "pool \<Rightarrow> pool \<Rightarrow> bool" where
  worker: "i < length (p_workers p) \<Longrightarrow> p_workers p ! i = (pc, pend, False) \<Longrightarrow>
     thread_do pc p = Ret (Some pc') p' \<Longrightarrow>
     worker_step p (p'\<lparr>p_workers := (p_workers p)[i := (pc', pend, False)]\<rparr>)"
| deliver: "i < length (p_workers p) \<Longrightarrow> p_workers p ! i = (pc, True, False) \<Longrightarrow>
     worker_step p (p\<lparr>p_workers := (p_workers p)[i := (pc, False, True)]\<rparr>)"
| thread_pause: "i < length (p_workers p) \<Longrightarrow> p_workers p ! i = (pc, pend, True) \<Longrightarrow> \<not> p_stop p \<Longrightarrow>
     handler_return pc pc' \<Longrightarrow>
     worker_step p (p\<lparr>p_workers := (p_workers p)[i := (pc', pend, False)]\<rparr>)"

inductive pool_step :: "pool \<Rightarrow> pool \<Rightarrow> bool" where
  thread: "worker_step p p' \<Longrightarrow> pool_step p p'"
| init: "p_client p = CInit \<Longrightarrow> int (p_thread_num p) \<le> p_alive p \<Longrightarrow> pool_step p (p\<lparr>p_client := CIdle\<rparr>)"
| add: "p_client p = CIdle \<Longrightarrow> q_heap (p_jobs p) a = None \<Longrightarrow> unat (q_len (p_jobs p)) + 1 < 2 ^ 32 \<Longrightarrow>
     add_job a f x (p_jobs p) = Ret () q \<Longrightarrow>
     pool_step p (p\<lparr>p_jobs := q, p_client := CPost, p_added := p_added p @ [(f, x)]\<rparr>)"
| post: "p_client p = CPost \<Longrightarrow> pool_step p (p\<lparr>p_has_job := p_has_job p + 1, p_client := CIdle\<rparr>)"
| wait: "p_client p = CIdle \<Longrightarrow> pool_step p (p\<lparr>p_client := CWait\<rparr>)"
| test_sleep: "p_client p = CWait \<Longrightarrow> q_len (p_jobs p) \<noteq> 0 \<or> p_working p \<noteq> 0 \<Longrightarrow>
     pool_step p (p\<lparr>p_client := CSleep\<rparr>)"
| test_return: "p_client p = CWait \<Longrightarrow> q_len (p_jobs p) = 0 \<Longrightarrow> p_working p = 0 \<Longrightarrow>
     pool_step p (p\<lparr>p_client := CIdle\<rparr>)"
| spurious: "p_client p = CSleep \<Longrightarrow> pool_step p (p\<lparr>p_client := CWait\<rparr>)"
| pause: "p_client p = CIdle \<Longrightarrow>
     pool_step p (p\<lparr>p_stop := True, p_workers := map (\<lambda>(pc, pend, h). (pc, True, h)) (p_workers p)\<rparr>)"
| resume: "p_client p = CIdle \<Longrightarrow> pool_step p (p\<lparr>p_stop := False\<rparr>)"
| destroy: "p_client p = CIdle \<Longrightarrow> pool_step p (p\<lparr>p_running := False, p_client := CDestroy\<rparr>)"
| destroy_post: "p_client p = CDestroy \<Longrightarrow> p_alive p \<noteq> 0 \<Longrightarrow>
     pool_step p (p\<lparr>p_has_job := p_has_job p + 1\<rparr>)"
| destroy_free: "p_client p = CDestroy \<Longrightarrow> p_alive p = 0 \<Longrightarrow> jobqueue_destroy (p_jobs p) = Ret () q \<Longrightarrow>
     pool_step p (p\<lparr>p_jobs := q, p_client := CGone\<rparr>)"

inductive_cases worker_stepE: "worker_step p p'"
inductive_cases pool_stepE: "pool_step p p'"

inductive reachable :: "pool \<Rightarrow> bool" where
  start: "(\<forall>a. heap a = None) \<Longrightarrow> reachable (pool_start n heap)"
| step: "reachable p \<Longrightarrow> pool_step p p' \<Longrightarrow> reachable p'"

definition thpool_num_threads_working :: "pool \<Rightarrow> int" where
  "thpool_num_threads_working p = p_working p"

section \<open>The invariant\<close>

definition busy :: "wpc \<Rightarrow> bool" where
  "busy pc = (case pc of WPop \<Rightarrow> True | WRun _ \<Rightarrow> True | WDec \<Rightarrow> True | _ \<Rightarrow> False)"

definition living :: "wpc \<Rightarrow> bool" where
  "living pc = (pc \<noteq> WStart \<and> pc \<noteq> WDead)"

text \<open>Between taking the semaphore and taking the job it stands for.\<close>

definition fetching :: "wpc \<Rightarrow> bool" where
  "fetching pc = (pc = WCheck \<or> pc = WInc \<or> pc = WPop)"

definition how_many :: "(wpc \<Rightarrow> bool) \<Rightarrow> worker list \<Rightarrow> nat" where
  "how_many P ws = length (filter (\<lambda>w. P (fst w)) ws)"

lemma how_many_update:
  "i < length ws \<Longrightarrow> how_many P (ws[i := (pc', s)]) + (if P (fst (ws ! i)) then 1 else 0)
     = how_many P ws + (if P pc' then 1 else 0)"
proof (induction ws arbitrary: i)
  case (Cons w ws)
  then show ?case
    by (cases i) (auto simp: how_many_def)
qed simp

lemma how_many_pos: "0 < how_many P ws \<longleftrightarrow> (\<exists>i<length ws. P (fst (ws ! i)))"
  unfolding how_many_def length_greater_0_conv filter_empty_conv by (metis in_set_conv_nth)

lemma how_many_zero: "i < length ws \<Longrightarrow> how_many P ws = 0 \<Longrightarrow> \<not> P (fst (ws ! i))"
  using how_many_pos [of P ws] by auto

lemma how_many_flags: "how_many P (map (\<lambda>(pc, pend, h). (pc, True, h)) ws) = how_many P ws"
  by (induction ws) (auto simp: how_many_def)

lemma how_many_le: "how_many P ws \<le> length ws"
  by (simp add: how_many_def)

text \<open>The jobs being executed are allocated, are not queued, and no two workers share one.\<close>

definition runs :: "worker list \<Rightarrow> nat \<Rightarrow> addr \<Rightarrow> bool" where
  "runs ws i a \<longleftrightarrow> i < length ws \<and> fst (ws ! i) = WRun a"

definition pool_inv :: "pool \<Rightarrow> addr list \<Rightarrow> bool" where
  "pool_inv p as \<longleftrightarrow>
     queue_repr (p_jobs p) as
   \<and> length (p_workers p) = p_thread_num p
   \<and> p_working p = int (how_many busy (p_workers p))
   \<and> p_alive p = int (how_many living (p_workers p))
   \<and> (p_running p \<longrightarrow>
        length as \<le> p_has_job p + how_many fetching (p_workers p) + (if p_client p = CPost then 1 else 0)
        \<and> how_many (\<lambda>pc. pc = WExit) (p_workers p) = 0 \<and> how_many (\<lambda>pc. pc = WDead) (p_workers p) = 0
        \<and> how_many (\<lambda>pc. pc = WPost) (p_workers p) = 0)
   \<and> (p_client p = CDestroy \<or> p_client p = CGone \<or> p_running p)
   \<and> (p_running p \<longrightarrow> p_client p = CInit \<or> int (p_thread_num p) \<le> p_alive p)
   \<and> (p_client p = CSleep \<longrightarrow> as \<noteq> [] \<or> p_working p \<noteq> 0)
   \<and> (\<exists>rest. p_added p = p_taken p @ rest \<and> map (content (p_jobs p)) as = map Some rest)
   \<and> (\<forall>i a. runs (p_workers p) i a \<longrightarrow> q_heap (p_jobs p) a \<noteq> None \<and> a \<notin> set as
        \<and> (\<forall>j. runs (p_workers p) j a \<longrightarrow> j = i))"

lemma runs_update:
  "runs (ws[i := (pc, s)]) j a \<longleftrightarrow> (if j = i then i < length ws \<and> pc = WRun a else runs ws j a)"
  by (auto simp: runs_def nth_list_update)

lemma runs_flags: "runs (map (\<lambda>(pc, pend, h). (pc, True, h)) ws) i a = runs ws i a"
  by (cases "i < length ws") (auto simp: runs_def case_prod_beta)

lemma thread_do_frame:
  assumes "thread_do pc p = Ret (Some pc') p'"
  shows "p_workers p' = p_workers p \<and> p_thread_num p' = p_thread_num p \<and> p_running p' = p_running p
    \<and> p_stop p' = p_stop p \<and> p_added p' = p_added p
    \<and> (p_client p' = p_client p \<or> p_client p = CSleep \<and> p_client p' = CWait)"
  using assms
  by (cases pc) (auto simp: cond_signal_def Let_def split: if_splits result.splits option.splits)

lemma worker_step_client:
  "worker_step p p' \<Longrightarrow> p_client p' = p_client p \<or> p_client p = CSleep \<and> p_client p' = CWait"
  by (cases rule: worker_step.cases) (auto dest: thread_do_frame)

lemma content_free: "a \<noteq> b \<Longrightarrow> free_job a q = Ret u q' \<Longrightarrow> content q' b = content q b"
  by (auto simp: free_job_def content_def split: if_splits)

lemma queue_repr_free:
  "queue_repr q as \<Longrightarrow> a \<notin> set as \<Longrightarrow> free_job a q = Ret u q' \<Longrightarrow> queue_repr q' as"
  by (auto simp: free_job_def queue_repr_def linked_upd split: if_splits)

lemma queue_repr_allocated: "queue_repr q as \<Longrightarrow> a \<in> set as \<Longrightarrow> content q a \<noteq> None"
  using linked_alloc [of "q_heap q" "q_head q" as a] by (simp add: queue_repr_def content_def)

text \<open>
  What a step of the worker \<open>i\<close> from \<open>pc\<close> to \<open>pc'\<close> has to do to the rest of the pool to
  preserve the invariant.
\<close>

lemma pool_inv_workerI:
  assumes inv: "pool_inv p as" and i: "i < length (p_workers p)" "fst (p_workers p ! i) = pc"
    and queue: "queue_repr (p_jobs p') as'"
    and frame: "p_thread_num p' = p_thread_num p" "p_running p' = p_running p" "p_added p' = p_added p"
    and working: "p_working p' + of_bool (busy pc) = p_working p + of_bool (busy pc')"
    and alive: "p_alive p' + of_bool (living pc) = p_alive p + of_bool (living pc')"
    and ok: "p_running p \<Longrightarrow> pc' \<notin> {WExit, WDead, WPost} \<and> (pc' = WStart \<longrightarrow> pc = WStart)"
    and sem: "p_running p \<Longrightarrow> as' = [] \<or> length as' + p_has_job p + of_bool (fetching pc)
        \<le> p_has_job p' + of_bool (fetching pc') + length as"
    and client: "p_client p' = p_client p \<or> p_client p = CSleep \<and> p_client p' = CWait"
    and sleep: "p_client p' = CSleep \<Longrightarrow> as' \<noteq> [] \<or> p_working p' \<noteq> 0"
    and rest: "\<exists>rest. p_added p = p_taken p' @ rest \<and> map (content (p_jobs p')) as' = map Some rest"
    and others: "\<And>j a. j \<noteq> i \<Longrightarrow> runs (p_workers p) j a \<Longrightarrow> q_heap (p_jobs p') a \<noteq> None \<and> a \<notin> set as'"
    and new: "\<And>a. pc' = WRun a \<Longrightarrow> q_heap (p_jobs p') a \<noteq> None \<and> a \<notin> set as'
        \<and> (\<forall>j. j \<noteq> i \<longrightarrow> \<not> runs (p_workers p) j a)"
  shows "pool_inv (p'\<lparr>p_workers := (p_workers p)[i := (pc', s)]\<rparr>) as'"
proof -
  note upd = how_many_update [OF i(1), of _ pc' s, unfolded i(2)]
  have busy: "p_working p' = int (how_many busy ((p_workers p)[i := (pc', s)]))"
    using inv working upd [of busy] by (auto simp: pool_inv_def split: if_splits)
  have living: "p_alive p' = int (how_many living ((p_workers p)[i := (pc', s)]))"
    using inv alive upd [of living] by (auto simp: pool_inv_def split: if_splits)
  have no_exit: "how_many P ((p_workers p)[i := (pc', s)]) = 0"
    if "\<not> P pc'" "how_many P (p_workers p) = 0" for P
    using upd [of P] that by simp
  have flight: "length as' \<le> p_has_job p' + how_many fetching ((p_workers p)[i := (pc', s)])
      + (if p_client p' = CPost then 1 else 0)" if "p_running p"
    using inv sem [OF that] client upd [of fetching] that by (auto simp: pool_inv_def split: if_splits)
  have mono: "p_alive p \<le> p_alive p'" if "p_running p"
  proof -
    have "how_many (\<lambda>pc. pc = WDead) (p_workers p) = 0"
      using inv that by (simp add: pool_inv_def)
    then have "living pc \<longrightarrow> living pc'"
      using ok [OF that] by (auto simp: living_def)
    then show ?thesis
      using alive by (cases "living pc") auto
  qed
  have run: "q_heap (p_jobs p') a \<noteq> None \<and> a \<notin> set as'
      \<and> (\<forall>k. runs ((p_workers p)[i := (pc', s)]) k a \<longrightarrow> k = j)"
    if "runs ((p_workers p)[i := (pc', s)]) j a" for j a
  proof (cases "j = i")
    case True
    then show ?thesis
      using that new [of a] by (auto simp: runs_update split: if_splits)
  next
    case False
    have "k = j" if k: "runs ((p_workers p)[i := (pc', s)]) k a" for k
    proof (cases "k = i")
      case True
      then show ?thesis
        using k that False new [of a] \<open>runs ((p_workers p)[i := (pc', s)]) j a\<close>
        by (auto simp: runs_update)
    next
      case kF: False
      then show ?thesis
        using k False inv \<open>runs ((p_workers p)[i := (pc', s)]) j a\<close>
        by (simp add: runs_update pool_inv_def)
    qed
    then show ?thesis
      using that False others [of j a] by (auto simp: runs_update)
  qed
  have still: "p_running p \<Longrightarrow> how_many P ((p_workers p)[i := (pc', s)]) = 0"
    if "P = (\<lambda>pc. pc = WExit) \<or> P = (\<lambda>pc. pc = WDead) \<or> P = (\<lambda>pc. pc = WPost)" for P
    using that no_exit [of P] ok inv by (auto simp: pool_inv_def)
  have phase: "p_client p = CDestroy \<or> p_client p = CGone \<or> p_running p"
    and started: "p_running p \<Longrightarrow> p_client p = CInit \<or> int (p_thread_num p) \<le> p_alive p"
    and len: "length (p_workers p) = p_thread_num p"
    using inv unfolding pool_inv_def by blast+
  show ?thesis
    unfolding pool_inv_def
  proof (intro conjI)
    show "p_running (p'\<lparr>p_workers := (p_workers p)[i := (pc', s)]\<rparr>) \<longrightarrow>
      length as' \<le> p_has_job (p'\<lparr>p_workers := (p_workers p)[i := (pc', s)]\<rparr>)
        + how_many fetching (p_workers (p'\<lparr>p_workers := (p_workers p)[i := (pc', s)]\<rparr>))
        + (if p_client (p'\<lparr>p_workers := (p_workers p)[i := (pc', s)]\<rparr>) = CPost then 1 else 0)
      \<and> how_many (\<lambda>pc. pc = WExit) (p_workers (p'\<lparr>p_workers := (p_workers p)[i := (pc', s)]\<rparr>)) = 0
      \<and> how_many (\<lambda>pc. pc = WDead) (p_workers (p'\<lparr>p_workers := (p_workers p)[i := (pc', s)]\<rparr>)) = 0
      \<and> how_many (\<lambda>pc. pc = WPost) (p_workers (p'\<lparr>p_workers := (p_workers p)[i := (pc', s)]\<rparr>)) = 0"
      using flight still frame(2) by simp
    show "\<forall>j a. runs (p_workers (p'\<lparr>p_workers := (p_workers p)[i := (pc', s)]\<rparr>)) j a \<longrightarrow>
      q_heap (p_jobs (p'\<lparr>p_workers := (p_workers p)[i := (pc', s)]\<rparr>)) a \<noteq> None \<and> a \<notin> set as'
      \<and> (\<forall>k. runs (p_workers (p'\<lparr>p_workers := (p_workers p)[i := (pc', s)]\<rparr>)) k a \<longrightarrow> k = j)"
      using run by simp
  qed (use busy living queue rest sleep frame client phase started mono len in \<open>auto intro: order_trans\<close>)
qed

lemma pool_inv_runs:
  "pool_inv p as \<Longrightarrow> runs (p_workers p) j a \<Longrightarrow> q_heap (p_jobs p) a \<noteq> None \<and> a \<notin> set as"
  by (simp add: pool_inv_def)

lemma pool_inv_queue: "pool_inv p as \<Longrightarrow> queue_repr (p_jobs p) as"
  by (simp add: pool_inv_def)

lemma pool_inv_rest:
  "pool_inv p as \<Longrightarrow> \<exists>rest. p_added p = p_taken p @ rest \<and> map (content (p_jobs p)) as = map Some rest"
  by (simp add: pool_inv_def)

lemma pool_inv_sleep: "pool_inv p as \<Longrightarrow> p_client p = CSleep \<Longrightarrow> as \<noteq> [] \<or> p_working p \<noteq> 0"
  unfolding pool_inv_def by blast

lemmas pc_classes = busy_def living_def fetching_def

text \<open>Steps that leave the queue alone.\<close>

lemma inv_quiet:
  assumes inv: "pool_inv p as" and i: "i < length (p_workers p)" "fst (p_workers p ! i) = pc"
    and same: "p_jobs p' = p_jobs p" "p_taken p' = p_taken p" "p_added p' = p_added p"
      "p_thread_num p' = p_thread_num p" "p_running p' = p_running p"
    and working: "p_working p' + of_bool (busy pc) = p_working p + of_bool (busy pc')"
    and alive: "p_alive p' + of_bool (living pc) = p_alive p + of_bool (living pc')"
    and ok: "p_running p \<Longrightarrow> pc' \<notin> {WExit, WDead, WPost} \<and> (pc' = WStart \<longrightarrow> pc = WStart)"
    and sem: "p_running p \<Longrightarrow> p_has_job p + of_bool (fetching pc) \<le> p_has_job p' + of_bool (fetching pc')"
    and client: "p_client p' = p_client p \<or> p_client p = CSleep \<and> p_client p' = CWait"
    and sleep: "p_client p' = CSleep \<Longrightarrow> p_working p \<noteq> 0 \<Longrightarrow> p_working p' \<noteq> 0"
    and run: "\<And>a. pc' = WRun a \<Longrightarrow> pc = WRun a"
  shows "pool_inv (p'\<lparr>p_workers := (p_workers p)[i := (pc', s)]\<rparr>) as"
proof (rule pool_inv_workerI [OF inv i _ same(4,5,3) working alive ok])
  show "queue_repr (p_jobs p') as"
    using pool_inv_queue [OF inv] same by simp
  show "p_running p \<Longrightarrow> as = [] \<or> length as + p_has_job p + of_bool (fetching pc)
      \<le> p_has_job p' + of_bool (fetching pc') + length as"
    using sem by simp
  show "\<exists>rest. p_added p = p_taken p' @ rest \<and> map (content (p_jobs p')) as = map Some rest"
    using pool_inv_rest [OF inv] same by simp
  show "p_client p' = CSleep \<Longrightarrow> as \<noteq> [] \<or> p_working p' \<noteq> 0"
    using pool_inv_sleep [OF inv] client sleep by auto
  show "q_heap (p_jobs p') a \<noteq> None \<and> a \<notin> set as" if "runs (p_workers p) j a" for j a
    using pool_inv_runs [OF inv that] same by simp
  show "q_heap (p_jobs p') a \<noteq> None \<and> a \<notin> set as \<and> (\<forall>j. j \<noteq> i \<longrightarrow> \<not> runs (p_workers p) j a)"
    if "pc' = WRun a" for a
  proof -
    have "runs (p_workers p) i a"
      using run [OF that] i by (simp add: runs_def)
    then show ?thesis
      using inv same by (auto simp: pool_inv_def)
  qed
qed (use client in auto)

lemma inv_WPop:
  assumes inv: "pool_inv p as" and i: "i < length (p_workers p)" "fst (p_workers p ! i) = WPop"
    and step: "thread_do WPop p = Ret (Some pc') p'"
  shows "\<exists>as'. pool_inv (p'\<lparr>p_workers := (p_workers p)[i := (pc', s)]\<rparr>) as'"
proof (cases as)
  case Nil
  then have "jobqueue_pop (p_jobs p) = Ret None (p_jobs p)"
    using jobqueue_pop_empty pool_inv_queue [OF inv] by simp
  then have p': "pc' = WDec" "p' = p"
    using step by auto
  have len: "length as = 0"
    using Nil by simp
  have "pool_inv (p'\<lparr>p_workers := (p_workers p)[i := (pc', s)]\<rparr>) as"
    using p' len pool_inv_queue [OF inv] pool_inv_rest [OF inv] pool_inv_sleep [OF inv] pool_inv_runs [OF inv]
    by (intro pool_inv_workerI [OF inv i]) (auto simp: pc_classes)
  then show ?thesis ..
next
  case (Cons a bs)
  obtain q where q: "jobqueue_pop (p_jobs p) = Ret (Some a) q" "queue_repr q bs" "q_heap q = q_heap (p_jobs p)"
    using jobqueue_pop_repr pool_inv_queue [OF inv] Cons by blast
  obtain c rest where rest: "content (p_jobs p) a = Some c" "p_added p = p_taken p @ c # rest"
      "map (content (p_jobs p)) bs = map Some rest"
    using pool_inv_rest [OF inv] Cons by (auto simp: map_eq_Cons_conv Cons_eq_map_conv)
  then have p': "pc' = WRun a" "p' = p\<lparr>p_jobs := q, p_taken := p_taken p @ [c]\<rparr>"
    using step q by auto
  have same: "content q = content (p_jobs p)"
    using q(3) by (auto simp: content_def)
  have a: "q_heap (p_jobs p) a \<noteq> None" "a \<notin> set bs" "\<not> runs (p_workers p) j a" for j
    using rest(1) pool_inv_queue [OF inv] pool_inv_runs [OF inv, of j a] Cons
    by (auto simp: content_def queue_repr_def)
  have busy: "p_working p \<noteq> 0"
    using inv i how_many_pos [of busy "p_workers p"] by (auto simp: pool_inv_def pc_classes)
  have "pool_inv (p'\<lparr>p_workers := (p_workers p)[i := (pc', s)]\<rparr>) bs"
    using p' q(2,3) rest same a busy pool_inv_runs [OF inv] Cons
    by (intro pool_inv_workerI [OF inv i]) (auto simp: pc_classes)
  then show ?thesis ..
qed

lemma inv_WRun:
  assumes inv: "pool_inv p as" and i: "i < length (p_workers p)" "fst (p_workers p ! i) = WRun a"
    and step: "thread_do (WRun a) p = Ret (Some pc') p'"
  shows "pool_inv (p'\<lparr>p_workers := (p_workers p)[i := (pc', s)]\<rparr>) as"
proof -
  obtain q where q: "free_job a (p_jobs p) = Ret () q" "pc' = WDec" "p' = p\<lparr>p_jobs := q\<rparr>"
    using step by (auto split: result.splits)
  have run: "runs (p_workers p) i a"
    using i by (simp add: runs_def)
  have a: "a \<notin> set as" "j \<noteq> i \<Longrightarrow> \<not> runs (p_workers p) j a" for j
    using run inv by (auto simp: pool_inv_def)
  have heap: "q_heap q b = q_heap (p_jobs p) b" if "b \<noteq> a" for b
    using q(1) that by (auto simp: free_job_def split: if_splits)
  have "content q b = content (p_jobs p) b" if "b \<in> set as" for b
    using that a(1) heap [of b] by (cases "b = a") (simp_all add: content_def)
  then have "map (content q) as = map (content (p_jobs p)) as"
    by simp
  then have "\<exists>rest. p_added p = p_taken p @ rest \<and> map (content q) as = map Some rest"
    using pool_inv_rest [OF inv] by (simp only:)
  moreover have "q_heap q b \<noteq> None \<and> b \<notin> set as" if "j \<noteq> i" "runs (p_workers p) j b" for j b
    using that a(2) [of j] pool_inv_runs [OF inv, of j b] heap [of b] by (cases "b = a") auto
  moreover have "p_working p \<noteq> 0"
    using inv i how_many_pos [of busy "p_workers p"] by (auto simp: pool_inv_def pc_classes)
  ultimately show ?thesis
    using q(2,3) queue_repr_free [OF pool_inv_queue [OF inv] a(1) q(1)]
    by (intro pool_inv_workerI [OF inv i]) (auto simp: pc_classes)
qed

lemma inv_worker:
  assumes inv: "pool_inv p as" and i: "i < length (p_workers p)" "fst (p_workers p ! i) = pc"
    and step: "thread_do pc p = Ret (Some pc') p'"
  shows "\<exists>as'. pool_inv (p'\<lparr>p_workers := (p_workers p)[i := (pc', s)]\<rparr>) as'"
proof -
  have no: "p_running p \<Longrightarrow> pc \<notin> {WExit, WPost}"
    using inv i how_many_pos [of "\<lambda>pc. pc = WExit" "p_workers p"] how_many_pos [of "\<lambda>pc. pc = WPost" "p_workers p"]
    by (auto simp: pool_inv_def)
  consider "pc = WPop" | a where "pc = WRun a" | "pc \<noteq> WPop" "\<forall>a. pc \<noteq> WRun a" by blast
  then show ?thesis
  proof cases
    case 1
    then show ?thesis using inv_WPop inv i step by blast
  next
    case 2
    then show ?thesis using inv_WRun inv i step by blast
  next
    case 3
    have "pool_inv (p'\<lparr>p_workers := (p_workers p)[i := (pc', s)]\<rparr>) as"
    proof (rule inv_quiet [OF inv i])
      show "p_jobs p' = p_jobs p" "p_taken p' = p_taken p" "\<And>a. pc' = WRun a \<Longrightarrow> pc = WRun a"
        using step 3 by (cases pc; auto simp: cond_signal_def Let_def split: if_splits)+
      show "p_working p' + of_bool (busy pc) = p_working p + of_bool (busy pc')"
        using step 3 by (cases pc; auto simp: pc_classes cond_signal_def Let_def split: if_splits)
      show "p_alive p' + of_bool (living pc) = p_alive p + of_bool (living pc')"
        using step 3 by (cases pc; auto simp: pc_classes cond_signal_def Let_def split: if_splits)
      show "p_running p \<Longrightarrow> pc' \<notin> {WExit, WDead, WPost} \<and> (pc' = WStart \<longrightarrow> pc = WStart)"
        using step 3 no by (cases pc; auto simp: cond_signal_def Let_def split: if_splits)
      show "p_running p \<Longrightarrow> p_has_job p + of_bool (fetching pc) \<le> p_has_job p' + of_bool (fetching pc')"
        using step 3 by (cases pc; auto simp: pc_classes cond_signal_def Let_def split: if_splits)
      show "p_client p' = CSleep \<Longrightarrow> p_working p \<noteq> 0 \<Longrightarrow> p_working p' \<noteq> 0"
        using step 3 inv by (cases pc; auto simp: pool_inv_def cond_signal_def Let_def split: if_splits)
    qed (use thread_do_frame [OF step] in auto)
    then show ?thesis ..
  qed
qed

lemma inv_same_pc:
  assumes inv: "pool_inv p as" and i: "i < length (p_workers p)" "fst (p_workers p ! i) = pc"
  shows "pool_inv (p\<lparr>p_workers := (p_workers p)[i := (pc, s)]\<rparr>) as"
proof (rule inv_quiet [OF inv i])
  show "p_running p \<Longrightarrow> pc \<notin> {WExit, WDead, WPost} \<and> (pc = WStart \<longrightarrow> pc = WStart)"
    using inv i by (auto simp: pool_inv_def dest: how_many_zero [OF i(1)])
qed simp_all

lemma inv_worker_step:
  assumes "pool_inv p as" "worker_step p p'"
  shows "\<exists>as'. pool_inv p' as'"
  using assms(2)
proof (cases rule: worker_step.cases)
  case (worker i pc pend pc' q)
  then show ?thesis
    using inv_worker [OF assms(1), of i pc pc' q] by simp
next
  case (deliver i pc)
  then show ?thesis
    using inv_same_pc [OF assms(1), of i pc] by auto
next
  case (thread_pause i pc pend pc')
  then consider "pc' = pc" | "pc = WSem" "pc' = WCheck"
    by (cases pc) auto
  then show ?thesis
  proof cases
    case 1
    then show ?thesis
      using thread_pause inv_same_pc [OF assms(1), of i pc] by auto
  next
    case 2
    have "pool_inv (p\<lparr>p_workers := (p_workers p)[i := (pc', pend, False)]\<rparr>) as"
      using thread_pause(3) 2 by (intro inv_quiet [OF assms(1) thread_pause(2), where pc = pc])
        (simp_all add: pc_classes)
    then show ?thesis using thread_pause by auto
  qed
qed

text \<open>Adding a job: the new job is fresh, the jobs being executed are other ones.\<close>

lemma inv_add:
  assumes inv: "pool_inv p as" and idle: "p_client p = CIdle" and a: "q_heap (p_jobs p) a = None"
    and room: "unat (q_len (p_jobs p)) + 1 < 2 ^ 32" and q: "add_job a f x (p_jobs p) = Ret () q"
  shows "pool_inv (p\<lparr>p_jobs := q, p_client := CPost, p_added := p_added p @ [(f, x)]\<rparr>) (as @ [a])"
proof -
  define q0 where "q0 = p_jobs p\<lparr>q_heap := (q_heap (p_jobs p))(a \<mapsto> \<lparr>j_fun = f, j_arg = x, j_next = None\<rparr>)\<rparr>"
  have push: "jobqueue_push a q0 = Ret () q"
    using q by (simp add: add_job_def q0_def)
  have fresh: "a \<notin> set as"
    using a queue_repr_allocated [OF pool_inv_queue [OF inv], of a] by (auto simp: content_def)
  have q0: "queue_repr q0 as" "fresh_job q0 a"
    using pool_inv_queue [OF inv] fresh by (auto simp: q0_def queue_repr_def linked_upd fresh_job_def)
  have "Suc (length as) < 2 ^ 32"
    using room pool_inv_queue [OF inv] by (simp add: queue_repr_def unat_of_nat)
  then have repr: "queue_repr q (as @ [a])"
    using jobqueue_push_repr [OF q0 fresh] push by auto
  have keep: "content q b = (if b = a then Some (f, x) else content (p_jobs p) b)" for b
    using content_push [OF push, of b] by (simp add: q0_def content_def)
  have alloc: "q_heap q b \<noteq> None" if "q_heap (p_jobs p) b \<noteq> None" for b
    using dom_push [OF push, of b] that by (auto simp: q0_def)
  have old: "map (content q) as = map (content (p_jobs p)) as"
    using fresh keep by auto
  obtain rest where "p_added p = p_taken p @ rest" "map (content (p_jobs p)) as = map Some rest"
    using pool_inv_rest [OF inv] by blast
  then have "p_added p @ [(f, x)] = p_taken p @ (rest @ [(f, x)])
      \<and> map (content q) (as @ [a]) = map Some (rest @ [(f, x)])"
    using old keep [of a] by (simp del: map_map)
  then have rest: "\<exists>rest. p_added p @ [(f, x)] = p_taken p @ rest \<and> map (content q) (as @ [a]) = map Some rest"
    by blast
  have runs: "\<forall>i b. runs (p_workers p) i b \<longrightarrow> q_heap q b \<noteq> None \<and> b \<notin> set (as @ [a])
      \<and> (\<forall>j. runs (p_workers p) j b \<longrightarrow> j = i)"
  proof (intro allI impI)
    fix i b
    assume b: "runs (p_workers p) i b"
    then have "b \<noteq> a"
      using pool_inv_runs [OF inv b] a by auto
    then show "q_heap q b \<noteq> None \<and> b \<notin> set (as @ [a]) \<and> (\<forall>j. runs (p_workers p) j b \<longrightarrow> j = i)"
      using b inv alloc by (simp add: pool_inv_def)
  qed
  show ?thesis
    using repr rest runs inv idle unfolding pool_inv_def by (elim conjE) simp
qed

lemma inv_pool_step:
  assumes "pool_inv p as" "pool_step p p'"
  shows "\<exists>as'. pool_inv p' as'"
  using assms(2)
proof (cases rule: pool_step.cases)
  case thread
  then show ?thesis by (rule inv_worker_step [OF assms(1)])
next
  case (add a f x q)
  show ?thesis
    using inv_add [OF assms(1) add(2-5)] add(1) by blast
next
  case (destroy_free q)
  then have "q = p_jobs p"
    using jobqueue_clear_cases [OF pool_inv_queue [OF assms(1)]]
    by (simp add: jobqueue_destroy_def split: if_splits)
  then have "pool_inv p' as"
    using destroy_free assms(1) by (simp add: pool_inv_def)
  then show ?thesis ..
next
  case test_sleep
  then have "as \<noteq> [] \<or> p_working p \<noteq> 0"
    using pool_inv_queue [OF assms(1)] by (auto simp: queue_repr_def)
  then have "pool_inv p' as"
    using test_sleep assms(1) unfolding pool_inv_def by (elim conjE) simp
  then show ?thesis ..
next
  case pause
  then show ?thesis
    using assms(1) by (auto simp: pool_inv_def how_many_flags runs_flags)
qed (use assms(1) in \<open>auto simp: pool_inv_def\<close>)

lemma reachable_inv: "reachable p \<Longrightarrow> \<exists>as. pool_inv p as"
proof (induction rule: reachable.induct)
  case (start heap n)
  have zero: "\<not> P WStart \<Longrightarrow> how_many P (replicate n (WStart, False, False)) = 0" for P
    by (simp add: how_many_def)
  have "\<not> runs (replicate n (WStart, False, False)) i a" for i a
    by (simp add: runs_def)
  then have "pool_inv (pool_start n heap) []"
    by (simp add: pool_inv_def pool_start_def jobqueue_init_def queue_repr_def zero pc_classes)
  then show ?case ..
next
  case (step p p')
  then show ?case
    using inv_pool_step by blast
qed

section \<open>Waiting ends\<close>

text \<open>
  What happens while the client is inside \<open>thpool_wait\<close>: the workers move, and when the client
  is at the test of the loop it may move. Wakeups without a reason are left out.
\<close>

inductive wait_step :: "pool \<Rightarrow> pool \<Rightarrow> bool" where
  thread: "worker_step p p' \<Longrightarrow> wait_step p p'"
| test: "p_client p = CWait \<Longrightarrow> pool_step p p' \<Longrightarrow> p_client p' \<noteq> CWait \<Longrightarrow> wait_step p p'"

text \<open>Whatever the order of the steps: the client gets out, and until then a step is possible.\<close>

inductive wait_returns :: "pool \<Rightarrow> bool" where
  out: "p_client p = CIdle \<Longrightarrow> wait_returns p"
| move: "wait_step p p' \<Longrightarrow> (\<And>q. wait_step p q \<Longrightarrow> wait_returns q) \<Longrightarrow> wait_returns p"

fun weight :: "worker \<Rightarrow> nat" where
  "weight (pc, pend, h) = (case pc of WStart \<Rightarrow> 2 | WLoop \<Rightarrow> 1 | WSem \<Rightarrow> 0 | WCheck \<Rightarrow> 7 | WInc \<Rightarrow> 6
     | WPop \<Rightarrow> 5 | WRun _ \<Rightarrow> 4 | WDec \<Rightarrow> 3 | _ \<Rightarrow> 0) + (if pend then 11 else 0) + (if h then 10 else 0)"

definition pool_measure :: "pool \<Rightarrow> nat" where
  "pool_measure p = 2 * (10 * p_has_job p + sum_list (map weight (p_workers p)))
     + (if p_client p = CWait then 1 else 0)"

lemma sum_weight_update:
  "i < length ws \<Longrightarrow> sum_list (map weight (ws[i := w])) + weight (ws ! i) = sum_list (map weight ws) + weight w"
proof (induction ws arbitrary: i)
  case (Cons v ws)
  then show ?case
    by (cases i) auto
qed simp

lemma thread_do_weight:
  assumes "thread_do pc p = Ret (Some pc') p'" "p_running p" "pc \<noteq> WPost" "pc \<noteq> WExit"
  shows "10 * p_has_job p' + weight (pc', s) < 10 * p_has_job p + weight (pc, s)"
  using assms
  by (cases pc; cases s) (auto simp: cond_signal_def Let_def split: if_splits result.splits option.splits)

lemma worker_step_measure:
  assumes "worker_step p p'" "pool_inv p as" "p_running p"
  shows "pool_measure p' < pool_measure p"
  using assms(1)
proof (cases rule: worker_step.cases)
  case (worker i pc pend pc' q)
  have "pc \<noteq> WPost" "pc \<noteq> WExit"
    using assms(2,3) worker(2,3) by (auto simp: pool_inv_def dest: how_many_zero [OF worker(2)])
  then have "10 * p_has_job q + weight (pc', pend, False) < 10 * p_has_job p + weight (pc, pend, False)"
    using thread_do_weight [OF worker(4) assms(3)] by blast
  then show ?thesis
    using sum_weight_update [OF worker(2), of "(pc', pend, False)"] worker(1,3) thread_do_frame [OF worker(4)]
    by (auto simp: pool_measure_def simp del: weight.simps)
next
  case (deliver i pc)
  then show ?thesis
    using sum_weight_update [OF deliver(2), of "(pc, False, True)"] by (auto simp: pool_measure_def)
next
  case (thread_pause i pc pend pc')
  then have "weight (pc', pend, False) < weight (pc, pend, True)"
    by (cases pc) auto
  then show ?thesis
    using sum_weight_update [OF thread_pause(2), of "(pc', pend, False)"] thread_pause
    by (auto simp: pool_measure_def simp del: weight.simps)
qed

lemma worker_step_frame:
  "worker_step p p' \<Longrightarrow> p_running p' = p_running p \<and> p_stop p' = p_stop p \<and> p_thread_num p' = p_thread_num p"
  by (cases rule: worker_step.cases) (auto dest: thread_do_frame)

text \<open>A worker that is not in the handler, not gone and not waiting for the semaphore can move.\<close>

lemma thread_do_moves:
  assumes inv: "pool_inv p as" and i: "i < length (p_workers p)" "fst (p_workers p ! i) = pc"
    and pc: "pc \<noteq> WDead" "pc = WSem \<Longrightarrow> 0 < p_has_job p"
  shows "\<exists>pc' p'. thread_do pc p = Ret (Some pc') p'"
proof (cases pc)
  case WPop
  show ?thesis
  proof (cases as)
    case Nil
    then show ?thesis
      using WPop jobqueue_pop_empty pool_inv_queue [OF inv] by simp
  next
    case (Cons a bs)
    then show ?thesis
      using WPop jobqueue_pop_repr [of "p_jobs p" a bs] pool_inv_queue [OF inv]
        queue_repr_allocated [OF pool_inv_queue [OF inv], of a]
      by auto
  qed
next
  case (WRun a)
  then have "runs (p_workers p) i a"
    using i by (simp add: runs_def)
  then show ?thesis
    using WRun pool_inv_runs [OF inv] by (auto simp: free_job_def)
qed (use pc in \<open>auto simp: Let_def\<close>)

lemma sleeping_progress:
  assumes inv: "pool_inv p as" and client: "p_client p = CSleep" and "\<not> p_stop p" "0 < p_thread_num p"
  shows "\<exists>p'. worker_step p p'"
proof -
  have run: "p_running p"
    using inv client by (auto simp: pool_inv_def)
  have len: "0 < length (p_workers p)"
    using inv assms(4) by (simp add: pool_inv_def)
  have live: "fst (p_workers p ! i) \<noteq> WDead" if "i < length (p_workers p)" for i
    using inv run how_many_zero [OF that] by (auto simp: pool_inv_def)
  show ?thesis
  proof (cases "\<exists>i<length (p_workers p). snd (snd (p_workers p ! i)) \<or> fst (p_workers p ! i) \<noteq> WSem")
    case True
    then obtain i pc pend h where i: "i < length (p_workers p)" "p_workers p ! i = (pc, pend, h)" "h \<or> pc \<noteq> WSem"
      by (metis prod.collapse fst_conv snd_conv)
    show ?thesis
    proof (cases h)
      case True
      have "handler_return pc pc" by (cases pc) auto
      then show ?thesis
        using worker_step.thread_pause [OF i(1) i(2) [unfolded eqTrueI [OF True]] assms(3)] by blast
    next
      case False
      then obtain pc' p' where "thread_do pc p = Ret (Some pc') p'"
        using thread_do_moves [OF inv i(1), of pc] i live [OF i(1)] by auto
      then show ?thesis
        using worker_step.worker [OF i(1), of pc pend pc' p'] i(2) False by auto
    qed
  next
    case False
    then have "how_many P (p_workers p) = 0" if "\<not> P WSem" for P
      using that how_many_pos [of P "p_workers p"] by force
    then have "length as \<le> p_has_job p" "as \<noteq> []"
      using inv run client pool_inv_sleep [OF inv client] by (auto simp: pool_inv_def pc_classes)
    then have sem: "0 < p_has_job p"
      by (cases as) auto
    obtain pend where w: "p_workers p ! 0 = (WSem, pend, False)"
      using False len by (cases "p_workers p ! 0") auto
    obtain pc' p' where "thread_do WSem p = Ret (Some pc') p'"
      using thread_do_moves [OF inv len, of WSem] w sem by auto
    then show ?thesis
      using worker_step.worker [OF len w] by blast
  qed
qed

section \<open>Properties\<close>

text \<open>
  C11: \<open>thpool_wait\<close> returns only when every job that was added has been taken and no worker is
  still executing one: in every reachable state from which the test of its loop lets the
  client through, the queue of jobs taken is the queue of jobs added, no worker is inside a job,
  and the number of working threads that the pool reports is 0.
\<close>

theorem thpool_wait_all_done:
  assumes "reachable p" "pool_step p p'" "p_client p = CWait" "p_client p' = CIdle"
  shows "p_taken p' = p_added p' \<and> (\<forall>i a. \<not> runs (p_workers p') i a) \<and> thpool_num_threads_working p' = 0"
proof -
  obtain as where inv: "pool_inv p as"
    using reachable_inv assms(1) by blast
  have len: "p' = p\<lparr>p_client := CIdle\<rparr>" "q_len (p_jobs p) = 0" "p_working p = 0"
    using assms(2)
    by (cases rule: pool_step.cases; use assms(3,4) in \<open>auto dest: worker_step_client\<close>)+
  have "as = []"
    using len(2) pool_inv_queue [OF inv] of_nat_len_zero [of "length as"] by (auto simp: queue_repr_def)
  then have "p_taken p = p_added p"
    using pool_inv_rest [OF inv] by simp
  moreover have "\<not> runs (p_workers p) i a" for i a
    using inv len(3) how_many_zero [of i "p_workers p" busy] by (auto simp: pool_inv_def runs_def pc_classes)
  ultimately show ?thesis
    using len by (simp add: thpool_num_threads_working_def)
qed

text \<open>
  C16: the jobs are taken in the order in which they were added, each at most once: the
  list of the jobs taken is a prefix of the list of the jobs added, in every reachable state, and what
  is left of it is what the queue holds; at most one worker has each job, and the job it
  has is allocated and no longer queued.
\<close>

theorem thpool_jobs_in_order:
  assumes "reachable p"
  shows "\<exists>as. queue_repr (p_jobs p) as
     \<and> map Some (p_added p) = map Some (p_taken p) @ map (content (p_jobs p)) as
     \<and> (\<forall>i a. runs (p_workers p) i a \<longrightarrow> q_heap (p_jobs p) a \<noteq> None \<and> a \<notin> set as
          \<and> (\<forall>j. runs (p_workers p) j a \<longrightarrow> j = i))"
proof -
  obtain as where inv: "pool_inv p as"
    using reachable_inv assms(1) by blast
  then show ?thesis
    using pool_inv_rest [OF inv] by (intro exI [of _ as]) (auto simp: pool_inv_def)
qed

text \<open>A client that tests its condition can go on, to the end of the call or to sleep.\<close>

lemma wait_test_step:
  assumes "p_client p = CWait"
  shows "\<exists>q. pool_step p q \<and> p_client q \<noteq> CWait"
proof (cases "q_len (p_jobs p) = 0 \<and> p_working p = 0")
  case True
  then have "pool_step p (p\<lparr>p_client := CIdle\<rparr>)"
    using assms by (intro test_return) simp_all
  then show ?thesis by (intro exI [of _ "p\<lparr>p_client := CIdle\<rparr>"]) simp
next
  case False
  then have "pool_step p (p\<lparr>p_client := CSleep\<rparr>)"
    using assms by (intro test_sleep) auto
  then show ?thesis by (intro exI [of _ "p\<lparr>p_client := CSleep\<rparr>"]) simp
qed

lemma wait_step_exists:
  assumes "pool_inv p as" "p_client p = CWait \<or> p_client p = CSleep" "\<not> p_stop p" "0 < p_thread_num p"
  shows "\<exists>q. wait_step p q"
proof (cases "p_client p = CSleep")
  case True
  then show ?thesis
    using sleeping_progress [OF assms(1) True assms(3,4)] wait_step.thread by blast
next
  case False
  then have w: "p_client p = CWait"
    using assms(2) by simp
  then show ?thesis
    using wait_test_step [OF w] wait_step.test [OF w] by blast
qed

lemma wait_test_cases:
  assumes "pool_step p q" "p_client p = CWait" "p_client q \<noteq> CWait"
  shows "q = p\<lparr>p_client := CIdle\<rparr> \<or> q = p\<lparr>p_client := CSleep\<rparr>"
  using assms(1) by (cases rule: pool_step.cases; use assms(2,3) in \<open>auto dest: worker_step_client\<close>)

text \<open>
  C7: \<open>thpool_wait\<close> returns and no wakeup is lost: with at least one thread and no pause in
  force, from every reachable state in which the client is at the test or asleep, every
  sequence of steps of the workers and of the test leads the client out, and until then some
  step is possible (jobs return, and nobody adds more).
\<close>

theorem thpool_wait_returns:
  assumes "reachable p" "p_client p = CWait \<or> p_client p = CSleep" "\<not> p_stop p" "0 < p_thread_num p"
  shows "wait_returns p"
  using assms
proof (induction p rule: measure_induct_rule [of pool_measure])
  case (less p)
  obtain as where inv: "pool_inv p as"
    using reachable_inv less.prems(1) by blast
  have run: "p_running p"
    using inv less.prems(2) by (auto simp: pool_inv_def)
  have "\<exists>q. wait_step p q"
    using wait_step_exists [OF inv less.prems(2-4)] .
  moreover have "wait_returns q" if "wait_step p q" for q
    using that
  proof (cases rule: wait_step.cases)
    case thread
    have "reachable q"
      using reachable.step [OF less.prems(1) pool_step.thread [OF thread]] .
    then show ?thesis
      using less.IH worker_step_measure [OF thread inv run] worker_step_frame [OF thread]
        worker_step_client [OF thread] less.prems by auto
  next
    case test
    consider "q = p\<lparr>p_client := CIdle\<rparr>" | "q = p\<lparr>p_client := CSleep\<rparr>"
      using wait_test_cases [OF test(2)] test(1,3) by blast
    then show ?thesis
    proof cases
      case 1
      then show ?thesis by (intro wait_returns.out) simp
    next
      case 2
      have "reachable q"
        using reachable.step [OF less.prems(1) test(2)] .
      then show ?thesis
        using 2 less.IH [of q] less.prems test(1) by (simp add: pool_measure_def)
    qed
  qed
  ultimately show ?case
    using wait_returns.move by blast
qed

text \<open>
  A pool of one thread, started; with one job that the thread has not yet taken; and when the thread has executed it.
\<close>

definition idle_pool :: pool where
  "idle_pool = (pool_start 1 (\<lambda>_. None))
     \<lparr>p_alive := 1, p_workers := [(WLoop, False, False)], p_client := CIdle\<rparr>"

definition small_pool :: pool where
  "small_pool = idle_pool\<lparr>p_jobs := \<lparr>q_heap = [1 \<mapsto> \<lparr>j_fun = 7, j_arg = 8, j_next = None\<rparr>], q_head = Some 1, q_tail = Some 1, q_len = 1\<rparr>,
     p_has_job := 1, p_added := [(7, 8)]\<rparr>"

definition done_pool :: pool where
  "done_pool = small_pool\<lparr>p_jobs := jobqueue_init (\<lambda>_. None), p_has_job := 0, p_taken := [(7, 8)]\<rparr>"

lemma worker_reaches:
  assumes "reachable p" "p_workers p = [(pc, False, False)]" "thread_do pc p = Ret (Some pc') p'"
  shows "reachable (p'\<lparr>p_workers := [(pc', False, False)]\<rparr>)"
  using reachable.step [OF assms(1) pool_step.thread [OF worker_step.worker [of 0 p pc False pc' p']]] assms(2,3) by simp

lemma idle_pool_reachable: "reachable idle_pool"
proof -
  have "reachable ((pool_start 1 (\<lambda>_. None))\<lparr>p_alive := 1, p_workers := [(WLoop, False, False)]\<rparr>)"
    using worker_reaches [OF reachable.start [of "\<lambda>_. None" 1], of WStart WLoop] by (simp add: pool_start_def)
  from reachable.step [OF this pool_step.init] show ?thesis
    by (simp add: idle_pool_def pool_start_def)
qed

lemma small_pool_reachable: "reachable small_pool"
proof -
  let ?p = "small_pool\<lparr>p_has_job := 0, p_client := CPost\<rparr>"
  have "pool_step idle_pool ?p"
    using pool_step.add [of idle_pool 1 7 8 "p_jobs small_pool"]
    by (simp add: idle_pool_def small_pool_def pool_start_def jobqueue_init_def add_job_def jobqueue_push_def)
  then have "reachable ?p"
    using reachable.step idle_pool_reachable by blast
  from reachable.step [OF this pool_step.post] show ?thesis
    by (simp add: small_pool_def idle_pool_def pool_start_def)
qed

lemma small_pool_wait: "reachable (small_pool\<lparr>p_client := CWait\<rparr>)"
  using reachable.step [OF small_pool_reachable pool_step.wait] by (simp add: small_pool_def idle_pool_def)

text \<open>The thread takes the semaphore and the job, executes it, and is back at its loop.\<close>

lemma done_pool_wait: "reachable (done_pool\<lparr>p_client := CWait\<rparr>)"
proof -
  note defs = small_pool_def idle_pool_def pool_start_def done_pool_def jobqueue_init_def
  define at where "at pc n q k ts = small_pool\<lparr>p_client := CWait, p_workers := [(pc, False, False)], p_working := n, p_jobs := q, p_has_job := k, p_taken := ts\<rparr>" for pc n q k ts
  let ?q = "p_jobs small_pool" and ?r = "(p_jobs small_pool)\<lparr>q_head := None, q_tail := None, q_len := 0\<rparr>"
  have "reachable (at WLoop 0 ?q 1 [])"
    using small_pool_wait by (simp add: at_def defs)
  from worker_reaches [OF this] have "reachable (at WSem 0 ?q 1 [])"
    by (simp add: at_def defs)
  from worker_reaches [OF this] have "reachable (at WCheck 0 ?q 0 [])"
    by (simp add: at_def defs)
  from worker_reaches [OF this] have "reachable (at WInc 0 ?q 0 [])"
    by (simp add: at_def defs)
  from worker_reaches [OF this] have "reachable (at WPop 1 ?q 0 [])"
    by (simp add: at_def defs)
  from worker_reaches [OF this] have "reachable (at (WRun 1) 1 ?r 0 [(7, 8)])"
    by (simp add: at_def defs jobqueue_pop_def content_def)
  from worker_reaches [OF this, of "WRun 1" WDec] have "reachable (at WDec 1 (jobqueue_init (\<lambda>_. None)) 0 [(7, 8)])"
    by (simp add: at_def defs free_job_def fun_upd_def if_distrib cong: if_cong)
  from worker_reaches [OF this] show ?thesis
    by (simp add: at_def defs cond_signal_def)
qed

theorem thpool_wait_all_done_witness:
  "p_taken done_pool = [(7, 8)] \<and> p_taken done_pool = p_added done_pool \<and> (\<forall>i a. \<not> runs (p_workers done_pool) i a)
     \<and> thpool_num_threads_working done_pool = 0"
proof -
  have "pool_step (done_pool\<lparr>p_client := CWait\<rparr>) done_pool"
    using pool_step.test_return [of "done_pool\<lparr>p_client := CWait\<rparr>"]
    by (simp add: done_pool_def small_pool_def idle_pool_def pool_start_def jobqueue_init_def)
  then show ?thesis
    using thpool_wait_all_done [OF done_pool_wait, of done_pool] by (simp add: done_pool_def small_pool_def idle_pool_def)
qed

theorem thpool_jobs_in_order_witness:
  "\<exists>as. queue_repr (p_jobs small_pool) as \<and> map (content (p_jobs small_pool)) as = [Some (7, 8)]"
  using thpool_jobs_in_order [OF small_pool_reachable] by (auto simp: small_pool_def idle_pool_def pool_start_def)

theorem thpool_wait_returns_witness: "wait_returns (small_pool\<lparr>p_client := CWait\<rparr>) \<and> p_added small_pool = [(7, 8)]"
  using thpool_wait_returns [OF small_pool_wait] by (simp add: small_pool_def idle_pool_def pool_start_def)

end
