(* ===== verification/Od.thy ===== *)
theory Od
  imports Posix_Io
begin

text \<open>
  cmd/src/od.c: the bytes of the files, joined, as octal two-byte words with the address of
  each row. The globals of the program are the fields that \<open>od_state\<close> adds to the process; of
  the array \<open>buf\<close> the bytes in front of \<open>len\<close> are kept. An int that would leave its range is
  undefined behaviour.
\<close>

section \<open>Numbers\<close>

text \<open>\<open>atoi\<close>: \<open>(int) strtol(s, NULL, 10)\<close>, white space, a sign, digits; strtol saturates.\<close>

definition is_space :: "char \<Rightarrow> bool" where
  "is_space c = (c = CHR '' '' \<or> 9 \<le> (of_char c :: nat) \<and> (of_char c :: nat) \<le> 13)"

definition to_long :: "int \<Rightarrow> int" where
  "to_long i = max (- (2 ^ 63)) (min i (2 ^ 63 - 1))"

definition atoi :: "string \<Rightarrow> int" where
  "atoi s = (let t = dropWhile is_space s;
                 neg = (t \<noteq> [] \<and> hd t = CHR ''-'');
                 u = (if t \<noteq> [] \<and> (hd t = CHR ''-'' \<or> hd t = CHR ''+'') then tl t else t);
                 v = int (dec_value (takeWhile is_digit u))
             in int32 (to_long (if neg then - v else v)))"

definition int_fits :: "int \<Rightarrow> bool" where
  "int_fits i = (- (2 ^ 31) \<le> i \<and> i < 2 ^ 31)"

text \<open>An int argument of the conversions \<open>%0no\<close>, which read it as an unsigned int.\<close>

definition oct_int :: "nat \<Rightarrow> int \<Rightarrow> string" where
  "oct_int n i = pad0 n (octs (nat (i mod 2 ^ 32)))"

text \<open>\<open>*(short * )&buf[i]\<close> on a little-endian machine.\<close>

definition short_of :: "char \<Rightarrow> char \<Rightarrow> int" where
  "short_of a b = (let n = (of_char a :: nat) + 256 * of_char b in if n < 2 ^ 15 then int n else int n - 2 ^ 16)"

section \<open>State\<close>

record od_state = io +
  od_Nflag :: bool
  od_width :: int
  od_bytes_to_read :: int
  od_skip_bytes :: int
  od_bytes_has_read :: int
  od_line_num_start :: int
  od_buf :: string

definition od_start :: "io \<Rightarrow> od_state" where
  "od_start w = io.extend w
     \<lparr>od_Nflag = False, od_width = 16, od_bytes_to_read = 0, od_skip_bytes = 0,
      od_bytes_has_read = 0, od_line_num_start = 0, od_buf = []\<rparr>"

definition od_usage_text :: "string list" where
  "od_usage_text =
   [''Usage: od [OPTION]... [FILE]...'',
    ''  or:  od [-abcdfilosx]... [FILE] [[+]OFFSET[.][b]]'',
    ''  or:  od --traditional [OPTION]... [FILE] [[+]OFFSET[.][b] [+][LABEL][.][b]]'',
    [],
    ''Write an unambiguous representation, octal bytes by default,             of FILE to standard output.  With more than one FILE argument,             concatenate them in the listed order to form the input.'',
    [],
    ''With no FILE, or when FILE is -, read standard input.'',
    [],
    ''If first and second call formats both apply, the second format is assumed'']"

definition od_usage :: "int \<Rightarrow> ('z io_scheme, 'a) prog" where
  "od_usage status =
     thenp (if status = EXIT_SUCCESS
            then put (concat (map (\<lambda>l. l @ [NL]) od_usage_text))
            else eputs ''Try '%s --help' for more information.'' [''od''])
       (exitp status)"

section \<open>One file\<close>

text \<open>The address in front of a row.\<close>

definition od_address :: "int \<Rightarrow> int \<Rightarrow> int \<Rightarrow> string" where
  "od_address width start n =
     (if n mod width = 0 then (if n \<noteq> 0 then [NL] else []) @ oct_int 7 (n + start) else [])"

definition od_print :: "string \<Rightarrow> int \<Rightarrow> (od_state, unit) prog" where
  "od_print item k w =
     (if od_width w = 0 \<or> \<not> int_fits (od_bytes_has_read w + od_line_num_start w)
         \<or> \<not> int_fits (od_bytes_has_read w + k) then Undef
      else Ret () (w\<lparr>io_out := io_out w @ od_address (od_width w) (od_line_num_start w) (od_bytes_has_read w) @ item,
                     od_bytes_has_read := od_bytes_has_read w + k\<rparr>))"

text \<open>The scan of \<open>buf\<close>, two bytes at a time; a last odd byte moves to its front.\<close>

fun od_scan :: "string \<Rightarrow> (od_state, unit) prog" where
  "od_scan (a # b # rest) w =
     (case od_print (CHR '' '' # oct_int 6 (short_of a b)) 2 w of
        Ret _ w' \<Rightarrow> od_scan rest w' | Exit k w' \<Rightarrow> Exit k w' | Undef \<Rightarrow> Undef)"
| "od_scan rest w = Ret () (w\<lparr>od_buf := rest\<rparr>)"

lemma od_scan_frame: "od_scan bs w = Ret u w' \<Longrightarrow> io_data w' = io_data w \<and> io_pos w' = io_pos w"
  by (induction bs w rule: od_scan.induct)
    (auto simp: od_print_def split: if_splits)

text \<open>
  The loop of \<open>od\<close>. The bytes go behind \<open>buf[len]\<close>, but the space asked for is always \<open>BUFSIZ\<close>:
  a read that fills it behind a byte left over writes past the array. A negative count is
  refused by the kernel. The result is whether the function goes on to close the file.
\<close>

definition EFAULT :: int where "EFAULT = 14"

function od_loop :: "string \<Rightarrow> (od_state, bool) prog" where
  "od_loop filename w =
     (if od_Nflag w \<and> od_bytes_to_read w = 0 then Ret True w
      else let want = (if od_Nflag w then min (int BUFSIZ) (od_bytes_to_read w) else int BUFSIZ) in
        (case (if want < 0 then Ret None (set_errno EFAULT w) else sys_read (nat want) w) of
           Ret None w' \<Rightarrow>
             thenp (eputs ''%s: %d: read file %s error: %s'' [''od'', filename])
               (bindp sys_close (\<lambda>_. retp False)) w'
         | Ret (Some bs) w' \<Rightarrow>
             if bs = [] then Ret True w'
             else if BUFSIZ < length (od_buf w') + length bs then Undef
             else (case od_scan (od_buf w' @ bs)
                     (if od_Nflag w' then w'\<lparr>od_bytes_to_read := od_bytes_to_read w' - int (length bs)\<rparr> else w') of
                 Ret _ w'' \<Rightarrow> od_loop filename w''
               | Exit k w'' \<Rightarrow> Exit k w'' | Undef \<Rightarrow> Undef)
         | Exit k w' \<Rightarrow> Exit k w' | Undef \<Rightarrow> Undef))"
  by pat_completeness auto
termination
proof (relation "measure (\<lambda>(f, w). length (io_data w) - io_pos w)", goal_cases)
  case (2 filename w want r w' bs u w'')
  then have "sys_read (nat want) w = Ret (Some bs) w'" "bs \<noteq> []"
    by (auto split: if_splits)
  from sys_read_measure [OF this] 2 show ?case
    by (auto split: if_splits dest!: od_scan_frame)
qed simp

declare od_loop.simps [simp del]

text \<open>
  \<open>od\<close>: the whole function. When bytes have still to be skipped the size of the file is what
  \<open>lseek\<close> returns, -1 when it fails.
\<close>

definition od_skip :: "(od_state, bool) prog" where
  "od_skip =
     bindp (getsp od_skip_bytes) (\<lambda>skip.
     if skip = 0 then retp True
     else bindp (sys_lseek_end 0) (\<lambda>r.
       let filesize = (case r of None \<Rightarrow> - 1 | Some n \<Rightarrow> int n) in
       if filesize \<le> skip
       then thenp (modifyp (\<lambda>w. w\<lparr>od_skip_bytes := int32 (skip - filesize)\<rparr>))
              (bindp sys_close (\<lambda>_. retp False))
       else bindp (sys_lseek skip) (\<lambda>_.
              thenp (modifyp (\<lambda>w. w\<lparr>od_skip_bytes := 0\<rparr>)) (retp True))))"

definition od :: "string \<Rightarrow> (od_state, bool) prog" where
  "od filename =
     bindp (sys_open filename) (\<lambda>opened.
     if \<not> opened then thenp (eputs ''%s: %d: read file %s error: %s'' [''od'', filename]) (retp False)
     else bindp od_skip (\<lambda>go.
       if \<not> go then retp True
       else bindp (od_loop filename) (\<lambda>ok.
         if \<not> ok then retp False
         else bindp sys_close (\<lambda>closed.
           if \<not> closed then thenp (eputs ''%s: %d: close file %s error: %s'' [''od'', filename]) (retp False)
           else retp True))))"

section \<open>The program\<close>

text \<open>\<open>-w\<close> takes an optional argument, which is passed to \<open>atoi\<close> also when it is a null pointer.\<close>

fun od_options :: "optev list \<Rightarrow> (od_state, unit) prog" where
  "od_options [] = retp ()"
| "od_options (ev # evs) =
     thenp (case ev of
         Opt c arg \<Rightarrow>
           if c = CHR ''j'' then (case arg of None \<Rightarrow> undefp | Some a \<Rightarrow> modifyp (\<lambda>w. w\<lparr>od_skip_bytes := atoi a\<rparr>))
           else if c = CHR ''N'' then (case arg of None \<Rightarrow> undefp
             | Some a \<Rightarrow> modifyp (\<lambda>w. w\<lparr>od_Nflag := True, od_bytes_to_read := atoi a\<rparr>))
           else if c = CHR ''w'' then (case arg of None \<Rightarrow> undefp | Some a \<Rightarrow> modifyp (\<lambda>w. w\<lparr>od_width := atoi a\<rparr>))
           else if c \<in> {CHR ''A'', CHR ''S'', CHR ''t'', CHR ''v''} then retp ()
           else od_usage EXIT_FAILURE
       | OptHelp \<Rightarrow> od_usage EXIT_SUCCESS
       | OptVersion \<Rightarrow> thenp (put (''Written by rda'' @ [NL])) (exitp EXIT_SUCCESS)
       | _ \<Rightarrow> od_usage EXIT_FAILURE)
     (od_options evs)"

text \<open>A failed \<open>assert\<close> aborts the process.\<close>

definition od_finish :: "bool \<Rightarrow> (od_state, int) prog" where
  "od_finish ok =
     bindp (getsp (\<lambda>w. w)) (\<lambda>g.
     if od_bytes_to_read g \<noteq> 0 then exitp ABORT_STATUS
     else thenp (case od_buf g of [] \<Rightarrow> retp ()
         | a # _ \<Rightarrow> od_print (CHR '' '' # oct_int 6 (schar a)) 1)
       (bindp (getsp (\<lambda>w. od_bytes_has_read w + od_line_num_start w)) (\<lambda>n.
        if \<not> int_fits n then undefp
        else thenp (put (NL # oct_int 7 n @ [NL])) (retp (if ok then EXIT_SUCCESS else EXIT_FAILURE)))))"

definition od_main :: "optev list \<Rightarrow> string list \<Rightarrow> (od_state, int) prog" where
  "od_main opts operands =
     thenp (od_options opts)
     (thenp (modifyp (\<lambda>w. w\<lparr>od_line_num_start := od_skip_bytes w\<rparr>))
     (bindp (all_ok od True operands) od_finish))"


section \<open>The dump a run stands for\<close>

text \<open>
  The reference: the bytes in rows of \<open>m\<close> words, each row headed by the address of its first
  byte, the rows and the address behind the last byte separated by newlines. A last odd byte is
  a word of its own.
\<close>

fun words_of :: "string \<Rightarrow> string list" where
  "words_of (a # b # bs) = (CHR '' '' # oct_int 6 (short_of a b)) # words_of bs"
| "words_of [a] = [CHR '' '' # oct_int 6 (schar a)]"
| "words_of [] = []"

function rows_of :: "nat \<Rightarrow> int \<Rightarrow> string \<Rightarrow> string list" where
  "rows_of m n bs =
     (if bs = [] \<or> m = 0 then []
      else (oct_int 7 n @ concat (words_of (take (2 * m) bs))) # rows_of m (n + 2 * int m) (drop (2 * m) bs))"
  by pat_completeness auto
termination
  by (relation "measure (\<lambda>(m, n, bs). length bs)") auto

declare rows_of.simps [simp del]

definition od_dump :: "nat \<Rightarrow> int \<Rightarrow> string \<Rightarrow> string" where
  "od_dump m start bs =
     concat (map (\<lambda>r. r @ [NL]) (rows_of m start bs)) @ (if bs = [] then [NL] else [])
       @ oct_int 7 (start + int (length bs)) @ [NL]"

text \<open>What the program prints word by word, \<open>k\<close> bytes being behind it.\<close>

fun emit :: "int \<Rightarrow> int \<Rightarrow> nat \<Rightarrow> string list \<Rightarrow> string" where
  "emit width start k [] = []"
| "emit width start k (x # xs) = od_address width start (int k) @ x @ emit width start (k + 2) xs"

lemma emit_append: "emit width start k (xs @ ys) = emit width start k xs @ emit width start (k + 2 * length xs) ys"
  by (induction xs arbitrary: k) (auto simp: algebra_simps)

lemma words_of_append: "even (length xs) \<Longrightarrow> words_of (xs @ ys) = words_of xs @ words_of ys"
  by (induction xs rule: words_of.induct) auto

lemma length_words_of: "length (words_of bs) = (length bs + 1) div 2"
  by (induction bs rule: words_of.induct) auto

text \<open>Within a row no address is printed.\<close>

lemma od_address_mod:
  "r < 2 * m \<Longrightarrow> od_address (2 * int m) start (int (2 * m * j + r)) =
     (if r = 0 then (if j \<noteq> 0 \<and> m \<noteq> 0 then [NL] else []) @ oct_int 7 (int (2 * m * j) + start) else [])"
proof -
  assume r: "r < 2 * m"
  have "int (2 * m * j + r) mod (2 * int m) = int ((2 * m * j + r) mod (2 * m))"
    by (simp add: zmod_int)
  also have "\<dots> = int r"
    using r by simp
  finally show ?thesis
    using r by (auto simp: od_address_def)
qed

lemma emit_row:
  "0 < r \<Longrightarrow> r + 2 * length xs \<le> 2 * m \<Longrightarrow> emit (2 * int m) start (2 * m * j + r) xs = concat xs"
proof (induction xs arbitrary: r)
  case (Cons x xs)
  then have "od_address (2 * int m) start (int (2 * m * j + r)) = []"
    by (subst od_address_mod) auto
  moreover have "emit (2 * int m) start (2 * m * j + (r + 2)) xs = concat xs"
    using Cons.prems by (intro Cons.IH) auto
  ultimately show ?case
    by (simp add: add.assoc)
qed simp

lemma emit_one_row:
  assumes "xs \<noteq> []" "length xs \<le> m"
  shows "emit (2 * int m) start (2 * m * j) xs =
     (if j \<noteq> 0 then [NL] else []) @ oct_int 7 (int (2 * m * j) + start) @ concat xs"
proof (cases xs)
  case (Cons x ys)
  then have "emit (2 * int m) start (2 * m * j + 2) ys = concat ys"
    using assms by (intro emit_row) auto
  moreover have "od_address (2 * int m) start (int (2 * m * j + 0)) =
      (if j \<noteq> 0 then [NL] else []) @ oct_int 7 (int (2 * m * j) + start)"
    using assms Cons by (subst od_address_mod) auto
  ultimately show ?thesis
    using Cons by (simp add: add.commute)
qed (use assms in simp)

text \<open>The words printed one after the other are the rows.\<close>

lemma emit_rows:
  assumes "0 < m"
  shows "emit (2 * int m) start (2 * m * j) (words_of bs) =
     (if bs = [] then [] else (if j \<noteq> 0 then [NL] else [])
        @ butlast (concat (map (\<lambda>r. r @ [NL]) (rows_of m (int (2 * m * j) + start) bs))))"
  using assms
proof (induction bs arbitrary: j rule: length_induct)
  case (1 bs)
  show ?case
  proof (cases "bs = []")
    case False
    have even: "even (length (take (2 * m) bs)) \<or> drop (2 * m) bs = []"
      by (cases "length bs \<le> 2 * m") (auto simp: min_def)
    have split: "words_of bs = words_of (take (2 * m) bs) @ words_of (drop (2 * m) bs)"
      using even words_of_append [of "take (2 * m) bs" "drop (2 * m) bs"] by auto
    have row: "emit (2 * int m) start (2 * m * j) (words_of (take (2 * m) bs)) =
        (if j \<noteq> 0 then [NL] else []) @ oct_int 7 (int (2 * m * j) + start) @ concat (words_of (take (2 * m) bs))"
    proof (rule emit_one_row)
      have "length (words_of (take (2 * m) bs)) \<noteq> 0"
        using False "1.prems" by (simp add: length_words_of)
      then show "words_of (take (2 * m) bs) \<noteq> []" by auto
      show "length (words_of (take (2 * m) bs)) \<le> m"
        by (simp add: length_words_of)
    qed
    show ?thesis
    proof (cases "drop (2 * m) bs = []")
      case True
      then show ?thesis
        using split row False "1.prems" by (subst rows_of.simps) (simp add: butlast_append rows_of.simps [of m _ "[]"])
    next
      case more: False
      have "emit (2 * int m) start (2 * m * (j + 1)) (words_of (drop (2 * m) bs)) =
          [NL] @ butlast (concat (map (\<lambda>r. r @ [NL]) (rows_of m (int (2 * m * (j + 1)) + start) (drop (2 * m) bs))))"
        using "1.IH" [rule_format, of "drop (2 * m) bs" "j + 1"] "1.prems" more by simp
      moreover have "2 * m * j + 2 * length (words_of (take (2 * m) bs)) = 2 * m * (j + 1)"
        using more "1.prems" by (simp add: length_words_of algebra_simps)
      moreover have "rows_of m (int (2 * m * (j + 1)) + start) (drop (2 * m) bs) \<noteq> []"
        using more "1.prems" by (subst rows_of.simps) simp
      ultimately show ?thesis
        using split row False "1.prems"
        by (subst rows_of.simps)
          (simp add: emit_append butlast_append algebra_simps)
    qed
  qed simp
qed

section \<open>What the loops do\<close>

text \<open>
  The bytes \<open>bs\<close> have been taken: their words are printed, an odd last byte waits in \<open>buf\<close>.
\<close>

definition whole :: "string \<Rightarrow> nat" where
  "whole bs = 2 * (length bs div 2)"

definition od_inv :: "int \<Rightarrow> int \<Rightarrow> string \<Rightarrow> string \<Rightarrow> od_state \<Rightarrow> bool" where
  "od_inv width start out bs w \<longleftrightarrow> od_width w = width \<and> od_line_num_start w = start
     \<and> io_out w = out @ emit width start 0 (words_of (take (whole bs) bs))
     \<and> od_bytes_has_read w = int (whole bs) \<and> od_buf w = drop (whole bs) bs"

text \<open>What scanning leaves alone, and what a whole file leaves alone.\<close>

definition od_frame :: "od_state \<Rightarrow> od_state \<Rightarrow> bool" where
  "od_frame w w' \<longleftrightarrow> io_open w' = io_open w \<and> io_seek w' = io_seek w \<and> io_tty w' = io_tty w
     \<and> io_files w' = io_files w \<and> io_err w' = io_err w \<and> od_Nflag w' = od_Nflag w
     \<and> od_skip_bytes w' = od_skip_bytes w \<and> io_data w' = io_data w"

definition od_keep :: "od_state \<Rightarrow> od_state \<Rightarrow> bool" where
  "od_keep w w' \<longleftrightarrow> od_frame w w' \<and> io_pos w' = io_pos w \<and> io_plan w' = io_plan w
     \<and> od_bytes_to_read w' = od_bytes_to_read w"

lemma whole_even [simp]: "even (length bs) \<Longrightarrow> whole bs = length bs"
  by (simp add: whole_def)

lemma whole_le: "whole bs \<le> length bs"
  by (simp add: whole_def)

lemma whole_append: "even (length bs) \<Longrightarrow> whole (bs @ cs) = length bs + whole cs"
  by (auto simp: whole_def)

lemma od_scan_inv:
  assumes "od_inv width start out bs w" "even (length bs)" "width \<noteq> 0" "0 \<le> start"
    "int (length bs + length cs) + start < 2 ^ 31"
  shows "\<exists>w'. od_scan cs w = Ret () w' \<and> od_inv width start out (bs @ cs) w' \<and> od_keep w w'"
  using assms
proof (induction cs w arbitrary: bs rule: od_scan.induct)
  case (1 a b rest w)
  have fits: "int_fits (od_bytes_has_read w + od_line_num_start w)" "int_fits (od_bytes_has_read w + 2)"
    using "1.prems" by (simp_all add: od_inv_def int_fits_def)
  define w1 where "w1 = w\<lparr>io_out := io_out w @ od_address width start (int (length bs)) @ (CHR '' '' # oct_int 6 (short_of a b)),
      od_bytes_has_read := od_bytes_has_read w + 2\<rparr>"
  have print: "od_print (CHR '' '' # oct_int 6 (short_of a b)) 2 w = Ret () w1"
    using fits "1.prems" by (simp add: od_print_def w1_def od_inv_def)
  have "od_inv width start out (bs @ [a, b]) w1"
    using "1.prems"(1,2) by (simp add: od_inv_def w1_def words_of_append emit_append length_words_of)
  from "1.IH" [OF print this] "1.prems" print show ?case
    by (auto simp: od_keep_def od_frame_def w1_def)
qed (auto simp: od_inv_def whole_append od_keep_def od_frame_def whole_def)

text \<open>One turn of the loop when the calls succeed in full.\<close>

definition od_ask :: "od_state \<Rightarrow> nat" where
  "od_ask w = (if od_Nflag w then min BUFSIZ (nat (od_bytes_to_read w)) else BUFSIZ)"

definition od_got :: "od_state \<Rightarrow> od_state" where
  "od_got w = (let v = advance (avail (od_ask w) w) (tick w) in
     if od_Nflag w then v\<lparr>od_bytes_to_read := od_bytes_to_read v - int (length (avail (od_ask w) w))\<rparr> else v)"

lemma od_loop_turn:
  assumes "all_full w" "io_open w" "od_Nflag w \<Longrightarrow> 0 < od_bytes_to_read w"
  shows "od_loop f w =
    (if avail (od_ask w) w = [] then Ret True (advance [] (tick w))
     else if BUFSIZ < length (od_buf w) + length (avail (od_ask w) w) then Undef
     else (case od_scan (od_buf w @ avail (od_ask w) w) (od_got w) of
         Ret _ w'' \<Rightarrow> od_loop f w'' | Exit k w'' \<Rightarrow> Exit k w'' | Undef \<Rightarrow> Undef))"
proof -
  have more: "od_Nflag (advance cs (tick w)) = od_Nflag w" "od_buf (advance cs (tick w)) = od_buf w" for cs
    by (simp_all add: advance_def tick_def)
  have ask: "(if od_Nflag w then min (int BUFSIZ) (od_bytes_to_read w) else int BUFSIZ) = int (od_ask w)"
    using assms(3) by (auto simp: od_ask_def)
  have turn: "(od_Nflag w \<and> od_bytes_to_read w = 0) = False"
    using assms(3) by auto
  show ?thesis
    by (subst od_loop.simps, unfold turn if_False)
      (simp add: ask sys_read_full assms(1,2) more od_got_def Let_def split del: if_split cong: if_cong)
qed

lemma od_loop_end:
  assumes "all_full w" "io_open w" "od_Nflag w \<Longrightarrow> 0 \<le> od_bytes_to_read w"
    "od_Nflag w \<and> od_bytes_to_read w = 0 \<or> length (io_data w) \<le> io_pos w"
  shows "\<exists>w'. od_loop f w = Ret True w' \<and> all_full w' \<and> od_frame w w' \<and> od_bytes_to_read w' = od_bytes_to_read w
    \<and> (od_inv width start out bs w \<longrightarrow> od_inv width start out bs w')"
proof (cases "od_Nflag w \<and> od_bytes_to_read w = 0")
  case True
  then show ?thesis
    using assms by (subst od_loop.simps) (simp add: od_frame_def)
next
  case False
  have "od_loop f w = Ret True (advance [] (tick w))"
    using False assms by (subst od_loop_turn) (auto simp: avail_Nil)
  moreover have "od_frame w (advance [] (tick w)) \<and> all_full (advance [] (tick w))"
    using assms(1) by (simp add: od_frame_def advance_def tick_def all_full_tick [unfolded tick_def])
  ultimately show ?thesis
    by (simp add: od_inv_def advance_def tick_def)
qed

text \<open>The bytes that the loop takes from the rest of the file.\<close>

definition od_take :: "od_state \<Rightarrow> string" where
  "od_take w = (if od_Nflag w then take (nat (od_bytes_to_read w)) (drop (io_pos w) (io_data w))
     else drop (io_pos w) (io_data w))"

lemma od_got_fields:
  assumes "all_full w" "od_Nflag w \<Longrightarrow> 0 \<le> od_bytes_to_read w"
  shows "all_full (od_got w)" "io_open (od_got w) = io_open w" "od_Nflag (od_got w) = od_Nflag w"
    "od_Nflag w \<Longrightarrow> 0 \<le> od_bytes_to_read (od_got w)"
    "od_inv width start out bs (od_got w) = od_inv width start out bs w" "od_frame w (od_got w)"
    "od_take w = avail (od_ask w) w @ od_take (od_got w)"
    "io_data (od_got w) = io_data w" "io_pos (od_got w) = io_pos w + length (avail (od_ask w) w)"
    "od_bytes_to_read (od_got w) = (if od_Nflag w then od_bytes_to_read w - int (length (avail (od_ask w) w)) else od_bytes_to_read w)"
proof -
  let ?v = "(tick w)\<lparr>io_pos := io_pos w + length (avail (od_ask w) w),
      od_bytes_to_read := (if od_Nflag w then od_bytes_to_read w - int (length (avail (od_ask w) w)) else od_bytes_to_read w)\<rparr>"
  have got: "od_got w = ?v"
    by (simp add: od_got_def advance_def tick_def Let_def)
  show fields: "io_open (od_got w) = io_open w" "od_Nflag (od_got w) = od_Nflag w"
    "od_inv width start out bs (od_got w) = od_inv width start out bs w" "od_frame w (od_got w)"
    "io_data (od_got w) = io_data w" "io_pos (od_got w) = io_pos w + length (avail (od_ask w) w)"
    "od_bytes_to_read (od_got w) = (if od_Nflag w then od_bytes_to_read w - int (length (avail (od_ask w) w)) else od_bytes_to_read w)"
    by (simp_all add: got tick_def od_inv_def od_frame_def)
  have "io_plan (od_got w) = io_plan (tick w)"
    by (simp add: got tick_def)
  then show "all_full (od_got w)"
    using assms(1) all_full_cong [of "od_got w" "tick w"] by simp
  show "od_Nflag w \<Longrightarrow> 0 \<le> od_bytes_to_read (od_got w)"
    using assms(2) by (simp add: fields od_ask_def length_avail)
  show "od_take w = avail (od_ask w) w @ od_take (od_got w)"
  proof (cases "od_Nflag w")
    case True
    let ?r = "drop (io_pos w) (io_data w)"
    have "length (take (od_ask w) ?r) \<le> nat (od_bytes_to_read w)"
      using True by (simp add: od_ask_def)
    then have "take (nat (od_bytes_to_read w)) ?r = take (od_ask w) ?r
        @ take (nat (od_bytes_to_read w) - length (take (od_ask w) ?r)) (drop (length (take (od_ask w) ?r)) ?r)"
      using True take_add [of "od_ask w" "nat (od_bytes_to_read w) - od_ask w" ?r]
      by (cases "od_ask w \<le> length ?r") (simp_all add: od_ask_def min_def)
    moreover have "nat (t - int k) = nat t - k" for t k
      by arith
    ultimately show ?thesis
      using True by (simp add: od_take_def fields avail_def add.commute)
  next
    case False
    then show ?thesis
      using append_take_drop_id [of "od_ask w" "drop (io_pos w) (io_data w)"]
      by (simp add: od_take_def fields avail_def min_def add.commute)
  qed
qed

lemma od_loop_inv:
  assumes "all_full w" "io_open w" "od_Nflag w \<Longrightarrow> 0 \<le> od_bytes_to_read w"
    and "od_inv width start out bs w" "even (length bs)" "width \<noteq> 0" "0 \<le> start"
    and "int (length bs + length (od_take w)) + start < 2 ^ 31"
  shows "\<exists>w'. od_loop f w = Ret True w' \<and> all_full w' \<and> od_frame w w'
    \<and> od_inv width start out (bs @ od_take w) w'
    \<and> od_bytes_to_read w' = (if od_Nflag w then od_bytes_to_read w - int (length (od_take w)) else od_bytes_to_read w)"
  using assms
proof (induction "length (io_data w) - io_pos w" arbitrary: w bs rule: less_induct)
  case less
  show ?case
  proof (cases "od_Nflag w \<and> od_bytes_to_read w = 0 \<or> length (io_data w) \<le> io_pos w")
    case True
    then have "od_take w = []"
      by (auto simp: od_take_def)
    then show ?thesis
      using od_loop_end [OF less.prems(1-3) True] less.prems(4) by fastforce
  next
    case False
    define cs where "cs = avail (od_ask w) w"
    have cs: "cs \<noteq> []" "length cs \<le> BUFSIZ"
      using False less.prems(3) by (auto simp: cs_def avail_Nil length_avail od_ask_def)
    note got = od_got_fields [OF less.prems(1,3)]
    obtain v where scan: "od_scan cs (od_got w) = Ret () v" "od_inv width start out (bs @ cs) v" "od_keep (od_got w) v"
      using od_scan_inv [of width start out bs "od_got w" cs] less.prems got by (auto simp: cs_def)
    have step: "od_loop f w = od_loop f v"
      using False less.prems scan(1) cs by (subst od_loop_turn) (auto simp: cs_def od_inv_def)
    have v: "all_full v" "io_open v" "od_Nflag v \<Longrightarrow> 0 \<le> od_bytes_to_read v" "od_frame w v" "od_take v = od_take (od_got w)"
        "od_Nflag v = od_Nflag w" "od_bytes_to_read v = od_bytes_to_read (od_got w)"
      using scan(3) got less.prems all_full_cong [of v "od_got w"]
      by (auto simp: od_keep_def od_frame_def od_take_def)
    show ?thesis
    proof (cases "even (length cs)")
      case True
      have "io_data v = io_data w" "io_pos v = io_pos w + length cs"
        using scan(3) got by (simp_all add: od_keep_def od_frame_def cs_def)
      then have "length (io_data v) - io_pos v < length (io_data w) - io_pos w"
        using False cs(1) by (cases cs) auto
      from less.hyps [OF this v(1-3) scan(2)] True less.prems(5-8) got(7) v(5)
      obtain w' where "od_loop f v = Ret True w'" "all_full w'" "od_frame v w'"
        "od_inv width start out ((bs @ cs) @ od_take v) w'"
        "od_bytes_to_read w' = (if od_Nflag v then od_bytes_to_read v - int (length (od_take v)) else od_bytes_to_read v)"
        by (auto simp: cs_def)
      then show ?thesis
        using step v got by (auto simp: od_frame_def cs_def)
    next
      case odd: False
      have pos: "io_data v = io_data w" "io_pos v = io_pos w + length cs"
        using scan(3) got by (simp_all add: od_keep_def od_frame_def cs_def)
      have "length cs = min (od_ask w) (length (io_data w) - io_pos w)"
        by (simp add: cs_def length_avail)
      moreover have "even BUFSIZ"
        by (simp add: BUFSIZ_def)
      ultimately have last: "od_Nflag v \<and> od_bytes_to_read v = 0 \<or> length (io_data v) \<le> io_pos v"
        using odd less.prems(3) pos v(6,7) got(10) unfolding cs_def [symmetric]
        by (auto simp: od_ask_def min_def split: if_splits)
      then have none: "od_take v = []"
        by (auto simp: od_take_def)
      obtain w' where "od_loop f v = Ret True w'" "all_full w'" "od_frame v w'" "od_bytes_to_read w' = od_bytes_to_read v"
        "od_inv width start out (bs @ cs) w'"
        using od_loop_end [OF v(1-3) last, of f width start out "bs @ cs"] scan(2) by blast
      then show ?thesis
        using step v got none by (auto simp: od_frame_def cs_def)
    qed
  qed
qed

section \<open>Whole files\<close>

lemma od_inv_opened: "od_inv width start out bs (opened d w) = od_inv width start out bs w"
  by (simp add: od_inv_def opened_def park_def tick_def)

lemma opened_od [simp]:
  "od_Nflag (opened d w) = od_Nflag w" "od_skip_bytes (opened d w) = od_skip_bytes w"
  "od_bytes_to_read (opened d w) = od_bytes_to_read w"
  by (simp_all add: opened_def park_def tick_def)

text \<open>Behind the opening and the skipping: the descriptor is at the first byte to dump.\<close>

lemma od_file_tail:
  assumes "all_full w" "io_open w" "\<not> io_tty w" "od_Nflag w \<Longrightarrow> 0 \<le> od_bytes_to_read w"
    and "od_inv width start out bs w" "even (length bs)" "width \<noteq> 0" "0 \<le> start"
    and "int (length bs + length (od_take w)) + start < 2 ^ 31"
  shows "\<exists>w'. bindp (od_loop f) (\<lambda>ok. if \<not> ok then retp False
       else bindp sys_close (\<lambda>closed. if \<not> closed
         then thenp (eputs fmt args) (retp False) else retp True)) w = Ret True w'
     \<and> all_full w' \<and> io_files w' = io_files w \<and> io_err w' = io_err w \<and> od_Nflag w' = od_Nflag w
     \<and> od_skip_bytes w' = od_skip_bytes w \<and> od_inv width start out (bs @ od_take w) w'
     \<and> od_bytes_to_read w' = (if od_Nflag w then od_bytes_to_read w - int (length (od_take w)) else od_bytes_to_read w)"
proof -
  obtain v where v: "od_loop f w = Ret True v" "all_full v" "od_frame w v" "od_inv width start out (bs @ od_take w) v"
    "od_bytes_to_read v = (if od_Nflag w then od_bytes_to_read w - int (length (od_take w)) else od_bytes_to_read w)"
    using od_loop_inv [OF assms(1,2,4-9)] by blast
  then have close: "sys_close v = Ret True ((tick v)\<lparr>io_open := False\<rparr>)"
    using assms(2,3) by (intro sys_close_ok all_full_no_fail) (simp_all add: od_frame_def)
  have "od_inv width start out (bs @ od_take w) ((tick v)\<lparr>io_open := False\<rparr>)"
    using v(4) by (simp add: od_inv_def tick_def)
  moreover have "all_full ((tick v)\<lparr>io_open := False\<rparr>)"
    using v(2) all_full_cong [of "(tick v)\<lparr>io_open := False\<rparr>" "tick v"] by simp
  ultimately show ?thesis
    using v close by (simp add: bindp_unfold od_frame_def) (simp add: tick_def)
qed

lemma od_whole_file:
  assumes "all_full w" "io_files w f = Some d" "od_skip_bytes w = 0" "\<not> od_Nflag w"
    and "od_inv width start out bs w" "even (length bs)" "width \<noteq> 0" "0 \<le> start"
    and "int (length bs + length d) + start < 2 ^ 31"
  shows "\<exists>w'. od f w = Ret True w' \<and> all_full w' \<and> io_files w' = io_files w \<and> io_err w' = io_err w
     \<and> \<not> od_Nflag w' \<and> od_skip_bytes w' = 0 \<and> od_inv width start out (bs @ d) w'
     \<and> od_bytes_to_read w' = od_bytes_to_read w"
proof -
  have take: "od_take (opened d w) = d"
    using assms(4) by (simp add: od_take_def)
  have skip: "od_skip (opened d w) = Ret True (opened d w)"
    using assms(3) by (simp add: od_skip_def bindp_unfold)
  show ?thesis
    using od_file_tail [of "opened d w" width start out bs f "''%s: %d: close file %s error: %s''" "[''od'', f]"]
      assms skip take
    by (auto simp: od_def bindp_unfold [of "sys_open f"] sys_open_opened all_full_no_fail od_inv_opened
        bindp_unfold [of od_skip])
qed

lemma od_files:
  assumes "all_full w" "list_all2 (\<lambda>f d. io_files w f = Some d) names ds" "od_skip_bytes w = 0" "\<not> od_Nflag w"
    and "od_inv width start out bs w" "\<forall>d\<in>set (butlast (bs # ds)). even (length d)" "width \<noteq> 0" "0 \<le> start"
    and "int (length bs + length (concat ds)) + start < 2 ^ 31"
  shows "\<exists>w'. all_ok od True names w = Ret True w' \<and> io_err w' = io_err w
     \<and> od_inv width start out (bs @ concat ds) w' \<and> od_bytes_to_read w' = od_bytes_to_read w"
  using assms
proof (induction names arbitrary: ds bs w)
  case (Cons f names)
  then obtain d ds' where ds: "ds = d # ds'" "io_files w f = Some d" "list_all2 (\<lambda>f d. io_files w f = Some d) names ds'"
    by (auto simp: list_all2_Cons1)
  obtain v where v: "od f w = Ret True v" "all_full v" "io_files v = io_files w" "io_err v = io_err w"
     "\<not> od_Nflag v" "od_skip_bytes v = 0" "od_inv width start out (bs @ d) v" "od_bytes_to_read v = od_bytes_to_read w"
    using od_whole_file [OF Cons.prems(1) ds(2) Cons.prems(3-5)] Cons.prems(6-9) ds(1) by auto
  have "\<forall>e\<in>set (butlast ((bs @ d) # ds')). even (length e)"
    using Cons.prems(6) ds(1) by (auto split: if_splits)
  then show ?case
    using Cons.IH [of v ds' "bs @ d"] v ds Cons.prems(7-9) by (auto simp: bindp_unfold)
qed auto

text \<open>Behind the last file.\<close>

lemma od_finish_dump:
  assumes "od_inv (2 * int m) start out bs w" "0 < m" "0 \<le> start" "int (length bs) + start < 2 ^ 31"
    "od_bytes_to_read w = 0"
  shows "\<exists>w'. od_finish ok w = Ret (if ok then EXIT_SUCCESS else EXIT_FAILURE) w'
    \<and> io_out w' = out @ od_dump m start bs \<and> io_err w' = io_err w"
proof -
  have dump: "emit (2 * int m) start 0 (words_of bs) @ [NL] @ oct_int 7 (start + int (length bs)) @ [NL] = od_dump m start bs"
  proof (cases "bs = []")
    case False
    then have "rows_of m start bs \<noteq> []"
      using assms(2) by (subst rows_of.simps) simp
    then have "butlast (concat (map (\<lambda>r. r @ [NL]) (rows_of m start bs))) @ [NL] = concat (map (\<lambda>r. r @ [NL]) (rows_of m start bs))"
      by (cases "rows_of m start bs" rule: rev_cases) (simp_all add: butlast_append)
    then show ?thesis
      using emit_rows [OF assms(2), of start 0 bs] False by (simp add: od_dump_def)
  qed (simp add: od_dump_def rows_of.simps [of m start "[]"])
  show ?thesis
  proof (cases "even (length bs)")
    case True
    then show ?thesis
      using assms dump by (simp add: od_finish_def bindp_unfold thenp_unfold od_inv_def int_fits_def put_def add.commute)
  next
    case False
    then obtain xs a where bs: "bs = xs @ [a]" "even (length xs)"
      by (cases bs rule: rev_cases) auto
    then have "emit (2 * int m) start 0 (words_of bs) = emit (2 * int m) start 0 (words_of xs)
        @ od_address (2 * int m) start (int (length xs)) @ (CHR '' '' # oct_int 6 (schar a))"
      by (simp add: words_of_append emit_append length_words_of)
    then show ?thesis
      using assms dump bs
      by (simp add: od_finish_def bindp_unfold thenp_unfold od_inv_def int_fits_def put_def od_print_def
          whole_append whole_def algebra_simps)
  qed
qed

lemma od_start_inv: "od_inv 16 start (io_out w) [] ((od_start w)\<lparr>od_line_num_start := start\<rparr>)"
  by (simp add: od_inv_def od_start_def io.defs whole_def)

lemma od_start_line [simp]: "(od_start w)\<lparr>od_line_num_start := 0\<rparr> = od_start w"
  by (simp add: od_start_def io.defs)

lemma od_start_fields [simp]:
  "od_skip_bytes (od_start w) = 0" "\<not> od_Nflag (od_start w)" "od_bytes_to_read (od_start w) = 0"
  "io_files (od_start w) = io_files w" "io_err (od_start w) = io_err w" "io_plan (od_start w) = io_plan w"
  "io_out (od_start w) = io_out w" "od_line_num_start (od_start w) = 0" "all_full (od_start w) = all_full w"
  by (simp_all add: od_start_def io.defs all_full_def)

text \<open>\<open>atoi\<close> reads the numbers that are written in decimal.\<close>

lemma digit_not_space: "is_digit c \<Longrightarrow> \<not> is_space c \<and> c \<noteq> CHR ''-'' \<and> c \<noteq> CHR ''+''"
  by (auto simp: is_digit_def is_space_def)

lemma atoi_dec: "n < 2 ^ 31 \<Longrightarrow> atoi (dec n) = int n"
proof -
  assume n: "n < 2 ^ 31"
  obtain c cs where d: "dec n = c # cs" "is_digit c"
    using dec_digits [of n] by (cases "dec n") (auto simp: list_all_iff)
  have tw: "takeWhile is_digit (c # cs) = c # cs"
    using dec_digits [of n] d(1) by (simp only: takeWhile_eq_all_conv list_all_iff)
  have "atoi (dec n) = int32 (to_long (int (dec_value (dec n))))"
    using digit_not_space [OF d(2)] by (simp add: atoi_def Let_def d(1) tw del: takeWhile.simps)
  also have "\<dots> = int n"
    using n by (simp add: dec_value_dec to_long_def int32_of_nat)
  finally show ?thesis .
qed

section \<open>Properties\<close>

text \<open>
  C23: without options, over one or more named files (none called -) that can be read, together shorter than 2^31 bytes, every file but the last
  of an even length, and with system calls that do in full what they are asked for, the program prints the dump of its files one behind the other: rows of
  eight words, each headed by the address of its first byte, a last odd byte as a word of its
  own, the end address; it exits with 0 and reports nothing. (An odd file in front of a long one overflows the buffer: od_join_overflow.)
\<close>

theorem od_main_dump:
  assumes "all_full w" "list_all2 (\<lambda>f d. io_files w f = Some d) names ds"
    "\<forall>d\<in>set (butlast ds). even (length d)" "length (concat ds) < 2 ^ 31" "names \<noteq> []" "''-'' \<notin> set names"
  shows "\<exists>w'. od_main [] names (od_start w) = Ret EXIT_SUCCESS w'
    \<and> io_out w' = io_out w @ od_dump 8 0 (concat ds) \<and> io_err w' = io_err w"
proof -
  have "od_inv 16 0 (io_out w) [] (od_start w)"
    using od_start_inv [of 0 w] by simp
  moreover have "\<forall>d\<in>set (butlast ([] # ds)). even (length d)"
    using assms(3) by auto
  ultimately obtain v where v: "all_ok od True names (od_start w) = Ret True v" "io_err v = io_err w"
      "od_inv 16 0 (io_out w) (concat ds) v" "od_bytes_to_read v = 0"
    using od_files [of "od_start w" names ds 16 0 "io_out w" "[]"] assms by auto
  have "od_main [] names (od_start w) = od_finish True v"
    using v(1) by (simp add: od_main_def thenp_unfold bindp_unfold)
  then show ?thesis
    using od_finish_dump [of 8 0 "io_out w" "concat ds" v True] assms(4) v by auto
qed

text \<open>A run with -j and -N has opened its file and stands at the first byte it dumps.\<close>

definition ranged :: "nat \<Rightarrow> nat \<Rightarrow> od_state \<Rightarrow> od_state" where
  "ranged j n w = w\<lparr>od_skip_bytes := int j, od_Nflag := True, od_bytes_to_read := int n, od_line_num_start := int j\<rparr>"

definition skipped :: "nat \<Rightarrow> od_state \<Rightarrow> od_state" where
  "skipped j w = (if j = 0 then w else (tick (tick w))\<lparr>io_pos := j, od_skip_bytes := 0\<rparr>)"

lemma od_skip_ranged:
  assumes "all_full w" "j < length d"
  shows "od_skip (opened d (ranged j n w)) = Ret True (skipped j (opened d (ranged j n w)))"
proof (cases "j = 0")
  case False
  let ?w = "opened d (ranged j n w)"
  have "all_full (ranged j n w)"
    using assms(1) by (simp add: all_full_def ranged_def)
  then have full: "all_full ?w" by simp
  have "sys_lseek_end 0 ?w = Ret (Some (length d)) ((tick ?w)\<lparr>io_pos := length d\<rparr>)"
    using sys_lseek_ok [OF all_full_no_fail [OF full], of "int (length d)"] by (simp add: sys_lseek_end_def)
  moreover have "sys_lseek (int j) ((tick ?w)\<lparr>io_pos := length d\<rparr>) = Ret (Some j) (tick (tick ?w)\<lparr>io_pos := j\<rparr>)"
    using sys_lseek_ok [of "(tick ?w)\<lparr>io_pos := length d\<rparr>" "int j"] all_full_no_fail [OF full] by simp
  ultimately show ?thesis
    using False assms(2) by (simp add: od_skip_def bindp_unfold thenp_unfold skipped_def ranged_def)
qed (simp add: od_skip_def bindp_unfold skipped_def ranged_def)

lemma skipped_fields:
  fixes w :: io and j n :: nat and d :: string
  defines "v \<equiv> skipped j (opened d (ranged j n (od_start w)))"
  assumes "all_full w"
  shows "all_full v" "io_open v" "\<not> io_tty v" "od_Nflag v" "od_bytes_to_read v = int n" "io_err v = io_err w"
    "od_inv 16 (int j) (io_out w) [] v" "od_take v = take n (drop j d)"
proof -
  have "od_inv 16 (int j) (io_out w) [] (ranged j n (od_start w))"
    by (simp add: od_inv_def od_start_def io.defs whole_def ranged_def)
  then have inv: "od_inv 16 (int j) (io_out w) [] (opened d (ranged j n (od_start w)))"
    by (simp only: od_inv_opened)
  then show "od_inv 16 (int j) (io_out w) [] v"
    by (cases "j = 0") (simp add: v_def skipped_def, simp add: v_def skipped_def od_inv_def tick_def)
  have "all_full (ranged j n (od_start w))"
    using assms(2) by (simp add: all_full_def ranged_def)
  then have full: "all_full (opened d (ranged j n (od_start w)))" by simp
  then show "all_full v"
    using all_full_tick [OF all_full_tick [OF full]] full unfolding v_def skipped_def
    by (cases "j = 0") (simp_all add: all_full_def)
  show "io_open v" "\<not> io_tty v" "od_Nflag v" "od_bytes_to_read v = int n" "io_err v = io_err w"
    by (simp_all add: v_def skipped_def ranged_def tick_def)
  show "od_take v = take n (drop j d)"
    by (simp add: v_def skipped_def ranged_def od_take_def tick_def)
qed

text \<open>
  \<open>od -j J -N N FILE\<close> dumps the \<open>N\<close> bytes behind the first \<open>J\<close>, with the addresses they
  have in the file. When the file does not hold that many the process aborts.
\<close>

theorem od_range:
  assumes "all_full w" "io_files w f = Some d" "j < length d" "length d < 2 ^ 31" "n < 2 ^ 31"
  shows "if j + n \<le> length d
    then \<exists>w'. od_main [Opt CHR ''j'' (Some (dec j)), Opt CHR ''N'' (Some (dec n))] [f] (od_start w) = Ret EXIT_SUCCESS w'
        \<and> io_out w' = io_out w @ od_dump 8 (int j) (take n (drop j d)) \<and> io_err w' = io_err w
    else \<exists>w'. od_main [Opt CHR ''j'' (Some (dec j)), Opt CHR ''N'' (Some (dec n))] [f] (od_start w) = Exit ABORT_STATUS w'"
proof -
  let ?w = "ranged j n (od_start w)"
  define v where "v = skipped j (opened d ?w)"
  have full: "all_full ?w" "all_full (od_start w)"
    using assms(1) by (simp_all add: all_full_def ranged_def)
  have files: "io_files ?w f = Some d"
    using assms(2) by (simp add: ranged_def od_start_def io.defs)
  note skip = od_skip_ranged [OF full(2) assms(3), of n, folded v_def]
  note v = skipped_fields [OF assms(1), of j d n, folded v_def]
  have len: "length (take n (drop j d)) = min n (length d - j)" "int (length (take n (drop j d))) + int j < 2 ^ 31"
    using assms(3,4) by auto
  obtain u where u: "od f ?w = Ret True u" "io_err u = io_err w" "od_inv 16 (int j) (io_out w) (take n (drop j d)) u"
      "od_bytes_to_read u = int n - int (length (take n (drop j d)))"
    using od_file_tail [OF v(1-3) _ v(7), of f "''%s: %d: close file %s error: %s''" "[''od'', f]"] v len skip
      sys_open_opened [of ?w f d] files all_full_no_fail [OF full(1)]
    by (auto simp: od_def bindp_unfold [of "sys_open f"] bindp_unfold [of od_skip])
  have main: "od_main [Opt CHR ''j'' (Some (dec j)), Opt CHR ''N'' (Some (dec n))] [f] (od_start w) = od_finish True u"
    using u(1) assms(3-5) by (simp add: od_main_def thenp_unfold bindp_unfold atoi_dec ranged_def)
  show ?thesis
  proof (cases "j + n \<le> length d")
    case True
    then show ?thesis
      using main od_finish_dump [of 8 "int j" "io_out w" "take n (drop j d)" u True] u len by auto
  next
    case False
    then have "od_bytes_to_read u \<noteq> 0"
      using u(4) len(1) assms(3) by auto
    then show ?thesis
      using False main by (simp add: od_finish_def bindp_unfold)
  qed
qed

text \<open>
  The odd last byte of one file is kept at the front of the buffer while the next file is
  read, but the space given to \<open>read\<close> is not reduced: when the next file fills it, the last
  byte is written behind the array.
\<close>

theorem od_join_overflow:
  assumes "all_full w" "io_files w f = Some d" "io_files w g = Some e" "odd (length d)" "BUFSIZ \<le> length e"
    "length d < 2 ^ 31"
  shows "od_main [] (f # g # names) (od_start w) = Undef"
proof -
  have inv: "od_inv 16 0 (io_out w) [] (od_start w)"
    using od_start_inv [of 0 w] by simp
  obtain v where v: "od f (od_start w) = Ret True v" "all_full v" "io_files v = io_files w"
     "\<not> od_Nflag v" "od_skip_bytes v = 0" "od_inv 16 0 (io_out w) d v"
    using od_whole_file [OF _ _ _ _ inv, of f d] assms by auto
  let ?v = "opened e v"
  have "length (od_buf ?v) = 1"
    using v(6) assms(4) od_inv_opened [of 16 0 "io_out w" d e v]
    by (auto simp: od_inv_def whole_def elim!: oddE)
  moreover have "length (avail (od_ask ?v) ?v) = BUFSIZ" "avail (od_ask ?v) ?v \<noteq> []"
    using assms(5) v(4) by (auto simp: length_avail od_ask_def avail_Nil simp del: length_0_conv)
  ultimately have "od_loop g ?v = Undef"
    using v(2,4) by (subst od_loop_turn) simp_all
  moreover have "od_skip ?v = Ret True ?v"
    using v(5) by (simp add: od_skip_def bindp_unfold)
  ultimately have "od g v = Undef"
    using sys_open_opened [of v g e] v(2,3) assms(3) all_full_no_fail [OF v(2)]
    by (simp add: od_def bindp_unfold)
  then show ?thesis
    using v(1) by (simp add: od_main_def thenp_unfold bindp_unfold)
qed

definition od_world :: io where
  "od_world = empty_io\<lparr>io_files := [''a'' \<mapsto> ''hello!'', ''b'' \<mapsto> ''xyz'', ''c'' \<mapsto> replicate BUFSIZ (CHR ''c'')]\<rparr>"

lemma od_world_full: "all_full od_world"
  by (simp add: od_world_def empty_io_def all_full_def)

theorem od_main_dump_witness:
  "\<exists>w'. od_main [] [''a'', ''b''] (od_start od_world) = Ret EXIT_SUCCESS w'
    \<and> io_out w' = od_dump 8 0 ''hello!xyz'' \<and> io_err w' = []"
  using od_main_dump [OF od_world_full, of "[''a'', ''b'']" "[''hello!'', ''xyz'']"]
  by (simp add: od_world_def empty_io_def)

theorem od_range_witness:
  "(\<exists>w'. od_main [Opt CHR ''j'' (Some (dec 2)), Opt CHR ''N'' (Some (dec 3))] [''a''] (od_start od_world) = Ret EXIT_SUCCESS w'
      \<and> io_out w' = od_dump 8 2 ''llo'')
   \<and> (\<exists>w'. od_main [Opt CHR ''j'' (Some (dec 2)), Opt CHR ''N'' (Some (dec 5))] [''a''] (od_start od_world) = Exit ABORT_STATUS w')"
proof -
  have a: "io_files od_world ''a'' = Some ''hello!''" "io_out od_world = []"
    by (simp_all add: od_world_def empty_io_def)
  show ?thesis
    using od_range [OF od_world_full a(1), of 2 3] od_range [OF od_world_full a(1), of 2 5]
    by (auto simp: a(2))
qed

theorem od_join_overflow_witness: "od_main [] [''b'', ''c''] (od_start od_world) = Undef"
  using od_join_overflow [OF od_world_full, of "''b''" "''xyz''" "''c''" "replicate BUFSIZ (CHR ''c'')" "[]"]
  by (simp add: od_world_def empty_io_def)

end
