(* ===== verification/Timer.thy ===== *)
theory Timer
  imports Ulsp_Prelude
begin

text \<open>
  lib/timer.hh: what the timer containers share. Timers are objects in a store from addresses;
  reaching through a null pointer or to an object that was deleted is undefined behaviour. The
  class of an object decides the \<open>dynamic_cast\<close>s of the containers.
\<close>

section \<open>Timers and the process around them\<close>

type_synonym addr = nat

datatype timer_class = Util_Timer | Hp_Timer | Tw_Timer

text \<open>The fields of \<open>base_timer\<close> and those that \<open>util_timer\<close> and \<open>tw_timer\<close> add to it.\<close>

record timer =
  tm_class :: timer_class
  tm_expire :: int
  tm_prev :: "addr option"
  tm_next :: "addr option"
  tm_rotation :: int
  tm_slot_idx :: int

text \<open>
  The process: the store, what the calls of \<open>time(NULL)\<close> to come return (the last one stays),
  the seconds of the pending alarm (0 for none), whether SIGALRM is blocked, and the timers whose
  callbacks have run, in order. Callbacks do not use the container; the text that is printed
  about times is not kept.
\<close>

record clocked =
  c_heap :: "addr \<Rightarrow> timer option"
  c_times :: "int list"
  c_now :: int
  c_alarm :: nat
  c_blocked :: bool
  c_fired :: "addr list"

definition sys_time :: "('z clocked_scheme, int) prog" where
  "sys_time w = (case c_times w of [] \<Rightarrow> Ret (c_now w) w | t # ts \<Rightarrow> Ret t (w\<lparr>c_now := t, c_times := ts\<rparr>))"

definition next_time :: "'z clocked_scheme \<Rightarrow> int" where
  "next_time w = (case c_times w of [] \<Rightarrow> c_now w | t # _ \<Rightarrow> t)"

definition after_time :: "'z clocked_scheme \<Rightarrow> 'z clocked_scheme" where
  "after_time w = (case c_times w of [] \<Rightarrow> w | t # ts \<Rightarrow> w\<lparr>c_now := t, c_times := ts\<rparr>)"

text \<open>\<open>alarm\<close> takes an unsigned int.\<close>

definition sys_alarm :: "int \<Rightarrow> ('z clocked_scheme, unit) prog" where
  "sys_alarm tics = modifyp (\<lambda>w. w\<lparr>c_alarm := nat (tics mod 2 ^ 32)\<rparr>)"

definition block_alarm :: "('z clocked_scheme, unit) prog" where
  "block_alarm = modifyp (\<lambda>w. w\<lparr>c_blocked := True\<rparr>)"

definition unblock_alarm :: "('z clocked_scheme, unit) prog" where
  "unblock_alarm = modifyp (\<lambda>w. w\<lparr>c_blocked := False\<rparr>)"

text \<open>Reading an object, changing it, deleting it.\<close>

definition at :: "addr option \<Rightarrow> ('z clocked_scheme, timer) prog" where
  "at p w = (case p of None \<Rightarrow> Undef | Some a \<Rightarrow> (case c_heap w a of None \<Rightarrow> Undef | Some t \<Rightarrow> Ret t w))"

definition upd :: "addr option \<Rightarrow> (timer \<Rightarrow> timer) \<Rightarrow> ('z clocked_scheme, unit) prog" where
  "upd p f w = (case p of None \<Rightarrow> Undef | Some a \<Rightarrow>
     (case c_heap w a of None \<Rightarrow> Undef | Some t \<Rightarrow> Ret () (w\<lparr>c_heap := (c_heap w)(a \<mapsto> f t)\<rparr>)))"

definition delete_timer :: "addr option \<Rightarrow> ('z clocked_scheme, unit) prog" where
  "delete_timer p w = (case p of None \<Rightarrow> Ret () w | Some a \<Rightarrow>
     (case c_heap w a of None \<Rightarrow> Undef | Some _ \<Rightarrow> Ret () (w\<lparr>c_heap := (c_heap w)(a := None)\<rparr>)))"

text \<open>\<open>dynamic_cast\<close> to a pointer: null when the object is of another class.\<close>

definition cast_timer :: "timer_class \<Rightarrow> addr option \<Rightarrow> ('z clocked_scheme, addr option) prog" where
  "cast_timer c p w = (case p of None \<Rightarrow> Ret None w | Some a \<Rightarrow>
     (case c_heap w a of None \<Rightarrow> Undef | Some t \<Rightarrow> Ret (if tm_class t = c then p else None) w))"

text \<open>The callback of a timer: \<open>user_data->data.cb_func()\<close>.\<close>

definition callback :: "addr \<Rightarrow> ('z clocked_scheme, unit) prog" where
  "callback a = modifyp (\<lambda>w. w\<lparr>c_fired := c_fired w @ [a]\<rparr>)"

definition set_expire :: "addr \<Rightarrow> int \<Rightarrow> ('z clocked_scheme, unit) prog" where
  "set_expire a e = upd (Some a) (\<lambda>t. t\<lparr>tm_expire := e\<rparr>)"

text \<open>
  \<open>resetTimer\<close> of the list and of the heap, which differ only in where the next timer to
  expire is: \<open>alarm(0)\<close> would cancel the alarm, so 0 seconds become 1. A negative number of
  seconds does not.
\<close>

definition reset_to :: "addr option \<Rightarrow> ('z clocked_scheme, unit) prog" where
  "reset_to p = (case p of None \<Rightarrow> sys_alarm 0
     | Some a \<Rightarrow> bindp (at p) (\<lambda>t. bindp sys_time (\<lambda>now.
         let tics = int32 (tm_expire t - now) in sys_alarm (if tics = 0 then tics + 1 else tics))))"

definition expire :: "'z clocked_scheme \<Rightarrow> addr \<Rightarrow> int" where
  "expire w a = (case c_heap w a of None \<Rightarrow> 0 | Some t \<Rightarrow> tm_expire t)"

definition live :: "timer_class \<Rightarrow> 'z clocked_scheme \<Rightarrow> addr \<Rightarrow> bool" where
  "live c w a = (case c_heap w a of None \<Rightarrow> False | Some t \<Rightarrow> tm_class t = c)"

lemma sys_time_Ret [simp]: "sys_time w = Ret (next_time w) (after_time w)"
  by (simp add: sys_time_def next_time_def after_time_def split: list.split)

lemma after_time_fields [simp]:
  "c_heap (after_time w) = c_heap w" "c_fired (after_time w) = c_fired w" "c_blocked (after_time w) = c_blocked w"
  "c_alarm (after_time w) = c_alarm w" "clocked.more (after_time w) = clocked.more w"
  by (simp_all add: after_time_def split: list.split)

text \<open>
  The seconds that a program asks for are what is left until the timer expires, at least
  one, when the timer is not yet overdue and less than 2 ^ 31 seconds away.
\<close>

lemma reset_to_Some:
  assumes "c_heap w a = Some t"
  shows "reset_to (Some a) w = Ret () ((after_time w)\<lparr>c_alarm :=
    nat ((let tics = int32 (tm_expire t - next_time w) in if tics = 0 then 1 else tics) mod 2 ^ 32)\<rparr>)"
  using assms by (simp add: reset_to_def bindp_unfold at_def sys_alarm_def Let_def)

lemma reset_to_Ret:
  assumes "\<forall>a. p = Some a \<longrightarrow> c_heap w a \<noteq> None"
  shows "\<exists>w'. reset_to p w = Ret () w' \<and> c_heap w' = c_heap w \<and> c_fired w' = c_fired w
    \<and> c_blocked w' = c_blocked w \<and> clocked.more w' = clocked.more w"
proof (cases p)
  case None
  then show ?thesis by (simp add: reset_to_def sys_alarm_def)
next
  case (Some a)
  then show ?thesis
    using assms reset_to_Some [of w a] by auto
qed

section \<open>Doubly linked lists\<close>

text \<open>
  \<open>dseg h prev p as fin q\<close>: the pointer \<open>p\<close> leads through \<open>as\<close> to the pointer \<open>q\<close>; each object
  points back to the one before it, the first to \<open>prev\<close>; \<open>fin\<close> points to the last one.
\<close>

fun dseg :: "(addr \<Rightarrow> timer option) \<Rightarrow> addr option \<Rightarrow> addr option \<Rightarrow> addr list \<Rightarrow> addr option \<Rightarrow> addr option \<Rightarrow> bool" where
  "dseg h prev p [] fin q = (p = q \<and> fin = prev)"
| "dseg h prev p (a # as) fin q =
     (p = Some a \<and> (\<exists>t. h a = Some t \<and> tm_prev t = prev \<and> dseg h (Some a) (tm_next t) as fin q))"

lemma dseg_append:
  "dseg h prev p (as @ bs) fin q \<longleftrightarrow> (\<exists>m r. dseg h prev p as m r \<and> dseg h m r bs fin q)"
  by (induction as arbitrary: prev p) auto

lemma dseg_upd [simp]: "a \<notin> set as \<Longrightarrow> dseg (h(a := x)) prev p as fin q = dseg h prev p as fin q"
  by (induction as arbitrary: prev p) auto

lemma dseg_alloc: "dseg h prev p as fin q \<Longrightarrow> a \<in> set as \<Longrightarrow> h a \<noteq> None"
  by (induction as arbitrary: prev p) auto

lemma dseg_last: "dseg h prev p as fin q \<Longrightarrow> fin = (if as = [] then prev else Some (last as))"
  by (induction as arbitrary: prev p) auto

lemma dseg_cong: "(\<And>a. a \<in> set as \<Longrightarrow> h' a = h a) \<Longrightarrow> dseg h' prev p as fin q = dseg h prev p as fin q"
  by (induction as arbitrary: prev p) auto

section \<open>What a container promises\<close>

text \<open>
  \<open>timer_container\<close>: \<open>inv w S\<close> says that the container holds the timers \<open>S\<close>. Adding a
  fresh timer adds it; a tick runs the callbacks of the timers that have expired, in the order of
  their times, and of no others, and removes them.
\<close>

locale timer_container =
  fixes inv :: "'z clocked_scheme \<Rightarrow> addr set \<Rightarrow> bool"
    and fresh :: "'z clocked_scheme \<Rightarrow> addr \<Rightarrow> bool"
    and add_timer :: "addr \<Rightarrow> ('z clocked_scheme, unit) prog"
    and tick_timers :: "('z clocked_scheme, unit) prog"
  assumes add_law: "inv w S \<Longrightarrow> fresh w a \<Longrightarrow> a \<notin> S \<Longrightarrow>
      \<exists>w'. add_timer a w = Ret () w' \<and> inv w' (insert a S) \<and> expire w' = expire w \<and> c_fired w' = c_fired w
        \<and> (\<forall>b. fresh w b \<and> b \<noteq> a \<and> b \<notin> S \<longrightarrow> fresh w' b)"
    and tick_law: "inv w S \<Longrightarrow>
      \<exists>w' xs. tick_timers w = Ret () w' \<and> c_fired w' = c_fired w @ xs \<and> set xs = {a \<in> S. expire w a \<le> next_time w}
        \<and> distinct xs \<and> sorted (map (expire w) xs) \<and> inv w' (S - set xs)"
begin

fun add_all :: "addr list \<Rightarrow> ('z clocked_scheme, unit) prog" where
  "add_all [] = retp ()"
| "add_all (a # as) = thenp (add_timer a) (add_all as)"

lemma add_all_inv:
  "inv w S \<Longrightarrow> list_all (fresh w) as \<Longrightarrow> distinct as \<Longrightarrow> set as \<inter> S = {} \<Longrightarrow>
     \<exists>w'. add_all as w = Ret () w' \<and> inv w' (S \<union> set as) \<and> expire w' = expire w \<and> c_fired w' = c_fired w"
proof (induction as arbitrary: w S)
  case (Cons a as)
  then obtain v where v: "add_timer a w = Ret () v" "inv v (insert a S)" "expire v = expire w"
      "c_fired v = c_fired w" "\<forall>b. fresh w b \<and> b \<noteq> a \<and> b \<notin> S \<longrightarrow> fresh v b"
    using add_law [of w S a] by auto
  have "list_all (fresh v) as"
    using v(5) Cons.prems by (auto simp: list_all_iff)
  from Cons.IH [OF v(2) this] Cons.prems v show ?case
    by (auto simp: thenp_unfold)
qed auto

text \<open>Whatever the order in which timers are added, the next tick runs those that are due, by time.\<close>

lemma run:
  assumes "inv w {}" "list_all (fresh w) as" "distinct as"
  shows "\<exists>v w' xs. add_all as w = Ret () v \<and> tick_timers v = Ret () w' \<and> c_fired w' = c_fired w @ xs
    \<and> set xs = {a \<in> set as. expire w a \<le> next_time v} \<and> distinct xs \<and> sorted (map (expire w) xs)
    \<and> inv w' {a \<in> set as. next_time v < expire w a}"
proof -
  obtain v where v: "add_all as w = Ret () v" "inv v (set as)" "expire v = expire w" "c_fired v = c_fired w"
    using add_all_inv [OF assms(1,2,3)] by auto
  then obtain w' xs where t: "tick_timers v = Ret () w'" "c_fired w' = c_fired w @ xs"
      "set xs = {a \<in> set as. expire w a \<le> next_time v}" "distinct xs" "sorted (map (expire w) xs)"
      "inv w' (set as - set xs)"
    using tick_law [OF v(2)] by auto
  have "set as - set xs = {a \<in> set as. next_time v < expire w a}"
    by (auto simp: t(3))
  then show ?thesis
    using v(1) t by auto
qed

end

end
