(* ===== verification/List_Timer.thy ===== *)
theory List_Timer
  imports Timer
begin

text \<open>
  lib/lst_timer.hh: the timers in a doubly linked list in the order of their times. A loop along
  the list that would not end yields None, and with it undefined behaviour.
\<close>

record lst = clocked +
  l_head :: "addr option"
  l_tail :: "addr option"

section \<open>Operations\<close>

definition resetTimer :: "(lst, unit) prog" where
  "resetTimer = bindp (getsp l_head) reset_to"

text \<open>The private \<open>add_timer\<close>: the search for the last timer in front of the new one, and the linking.\<close>

partial_function (option) lst_find :: "(addr \<Rightarrow> timer option) \<Rightarrow> int \<Rightarrow> addr \<Rightarrow> addr option option" where
  "lst_find h e cur =
     (case h cur of
        None \<Rightarrow> Some None
      | Some t \<Rightarrow> (case tm_next t of
          None \<Rightarrow> Some (Some cur)
        | Some n \<Rightarrow> (case h n of
            None \<Rightarrow> Some None
          | Some u \<Rightarrow> if tm_expire u < e then lst_find h e n else Some (Some cur))))"

definition lst_link :: "addr \<Rightarrow> addr \<Rightarrow> (lst, unit) prog" where
  "lst_link cur timer =
     bindp (at (Some cur)) (\<lambda>c. case tm_next c of
       Some n \<Rightarrow>
         thenp (upd (Some timer) (\<lambda>t. t\<lparr>tm_next := Some n\<rparr>))
         (thenp (upd (Some n) (\<lambda>t. t\<lparr>tm_prev := Some timer\<rparr>))
         (thenp (upd (Some timer) (\<lambda>t. t\<lparr>tm_prev := Some cur\<rparr>))
           (upd (Some cur) (\<lambda>t. t\<lparr>tm_next := Some timer\<rparr>))))
     | None \<Rightarrow>
         thenp (upd (Some timer) (\<lambda>t. t\<lparr>tm_prev := Some cur\<rparr>))
         (thenp (upd (Some timer) (\<lambda>t. t\<lparr>tm_next := None\<rparr>))
         (thenp (upd (Some cur) (\<lambda>t. t\<lparr>tm_next := Some timer\<rparr>))
           (modifyp (\<lambda>w. w\<lparr>l_tail := Some timer\<rparr>)))))"

definition lst_add_behind :: "addr \<Rightarrow> addr \<Rightarrow> (lst, unit) prog" where
  "lst_add_behind timer lst_head =
     bindp (at (Some timer)) (\<lambda>t. bindp (getsp c_heap) (\<lambda>h.
       case lst_find h (tm_expire t) lst_head of Some (Some cur) \<Rightarrow> lst_link cur timer | _ \<Rightarrow> undefp))"

definition lst_add_timer :: "addr option \<Rightarrow> (lst, unit) prog" where
  "lst_add_timer bt =
     bindp (cast_timer Util_Timer bt) (\<lambda>p.
     bindp (at p) (\<lambda>t.
     bindp (getsp l_head) (\<lambda>head. case head of
       None \<Rightarrow> thenp (modifyp (\<lambda>w. w\<lparr>l_head := p, l_tail := p\<rparr>)) resetTimer
     | Some first \<Rightarrow> bindp (at head) (\<lambda>u.
         if tm_expire t \<le> tm_expire u
         then thenp (upd p (\<lambda>t. t\<lparr>tm_next := head\<rparr>))
              (thenp (upd head (\<lambda>t. t\<lparr>tm_prev := p\<rparr>))
              (thenp (modifyp (\<lambda>w. w\<lparr>l_head := p\<rparr>)) resetTimer))
         else (case p of None \<Rightarrow> undefp | Some a \<Rightarrow> lst_add_behind a first)))))"

definition lst_del_timer :: "addr option \<Rightarrow> (lst, unit) prog" where
  "lst_del_timer bt =
     bindp (cast_timer Util_Timer bt) (\<lambda>p.
     if p = None then retp ()
     else
       thenp (bindp (getsp l_head) (\<lambda>head.
         if p \<noteq> head then bindp (at p) (\<lambda>t. upd (tm_prev t) (\<lambda>u. u\<lparr>tm_next := tm_next t\<rparr>)) else retp ()))
       (thenp (bindp (getsp l_tail) (\<lambda>tail.
         if p \<noteq> tail then bindp (at p) (\<lambda>t. upd (tm_next t) (\<lambda>u. u\<lparr>tm_prev := tm_prev t\<rparr>)) else retp ()))
       (bindp (getsp l_head) (\<lambda>head.
         if head = p
         then bindp (at head) (\<lambda>t.
           thenp (modifyp (\<lambda>w. w\<lparr>l_head := tm_next t\<rparr>))
           (thenp (modifyp (\<lambda>w. if l_head w = None then w\<lparr>l_tail := None\<rparr> else w)) resetTimer))
         else retp ()))))"

text \<open>The test joins two alternatives with \<open>||\<close>, each of which may be short-cut by a null pointer.\<close>

definition lst_in_order :: "addr option \<Rightarrow> (lst, bool) prog" where
  "lst_in_order p =
     bindp (at p) (\<lambda>t.
     bindp (if tm_prev t = None then retp True
            else bindp (at (tm_prev t)) (\<lambda>u. retp (tm_expire u \<le> tm_expire t))) (\<lambda>left.
     if left then retp True
     else if tm_next t = None then retp True
     else bindp (at (tm_next t)) (\<lambda>u. retp (tm_expire t \<le> tm_expire u))))"

definition lst_adjust_timer :: "addr option \<Rightarrow> (lst, unit) prog" where
  "lst_adjust_timer bt =
     bindp (cast_timer Util_Timer bt) (\<lambda>p.
     if p = None then retp ()
     else bindp (lst_in_order p) (\<lambda>ok. if ok then retp () else thenp (lst_del_timer p) (lst_add_timer p)))"

text \<open>The loop of \<open>tick\<close>: \<open>cur\<close> is the time at its start.\<close>

partial_function (option) lst_tick_loop :: "int \<Rightarrow> lst \<Rightarrow> (lst, unit) result option" where
  "lst_tick_loop cur w =
     (case l_head w of
        None \<Rightarrow> Some (Ret () w)
      | Some a \<Rightarrow> (case c_heap w a of
          None \<Rightarrow> Some Undef
        | Some t \<Rightarrow>
            if tm_expire t \<le> cur
            then (case thenp (bindp sys_time (\<lambda>_. callback a))
                    (bindp (at (Some a)) (\<lambda>u. thenp (modifyp (\<lambda>w. w\<lparr>l_head := tm_next u\<rparr>)) (delete_timer (Some a)))) w of
                Ret _ w' \<Rightarrow> lst_tick_loop cur w'
              | Exit k w' \<Rightarrow> Some (Exit k w')
              | Undef \<Rightarrow> Some Undef)
            else Some (Ret () w)))"

definition lst_tick :: "(lst, unit) prog" where
  "lst_tick =
     bindp sys_time (\<lambda>cur.
     thenp (\<lambda>w. case lst_tick_loop cur w of None \<Rightarrow> Undef | Some r \<Rightarrow> r)
     (thenp (bindp (getsp l_head) (\<lambda>head. if head = None then retp () else upd head (\<lambda>t. t\<lparr>tm_prev := None\<rparr>)))
       resetTimer))"

partial_function (option) lst_free_loop :: "lst \<Rightarrow> (lst, unit) result option" where
  "lst_free_loop w =
     (case l_head w of
        None \<Rightarrow> Some (Ret () w)
      | Some a \<Rightarrow> (case bindp (at (Some a)) (\<lambda>u. thenp (modifyp (\<lambda>w. w\<lparr>l_head := tm_next u\<rparr>)) (delete_timer (Some a))) w of
          Ret _ w' \<Rightarrow> lst_free_loop w'
        | Exit k w' \<Rightarrow> Some (Exit k w')
        | Undef \<Rightarrow> Some Undef))"

definition lst_destroy :: "(lst, unit) prog" where
  "lst_destroy = thenp (sys_alarm 0) (\<lambda>w. case lst_free_loop w of None \<Rightarrow> Undef | Some r \<Rightarrow> r)"

section \<open>The list that a container holds\<close>

text \<open>The tail of an empty list is not looked at (\<open>tick\<close> leaves it behind).\<close>

definition lst_linked :: "lst \<Rightarrow> addr list \<Rightarrow> bool" where
  "lst_linked w as \<longleftrightarrow> (\<exists>fin. dseg (c_heap w) None (l_head w) as fin None \<and> (as \<noteq> [] \<longrightarrow> l_tail w = fin)) \<and> distinct as
     \<and> list_all (live Util_Timer w) as"

definition lst_repr :: "lst \<Rightarrow> addr list \<Rightarrow> bool" where
  "lst_repr w as \<longleftrightarrow> lst_linked w as \<and> sorted (map (expire w) as)"

definition lst_fresh :: "lst \<Rightarrow> addr \<Rightarrow> bool" where
  "lst_fresh w a \<longleftrightarrow> (\<exists>t. c_heap w a = Some t \<and> tm_class t = Util_Timer \<and> tm_prev t = None \<and> tm_next t = None)"

lemma lst_linked_head: "lst_linked w as \<Longrightarrow> l_head w = (case as of [] \<Rightarrow> None | a # _ \<Rightarrow> Some a)"
  by (cases as) (auto simp: lst_linked_def)

lemma lst_linked_alloc: "lst_linked w as \<Longrightarrow> a \<in> set as \<Longrightarrow> c_heap w a \<noteq> None"
  unfolding lst_linked_def using dseg_alloc by blast

text \<open>\<open>resetTimer\<close> changes the alarm and the clock only.\<close>

lemma resetTimer_Ret:
  assumes "\<forall>a. l_head w = Some a \<longrightarrow> c_heap w a \<noteq> None"
  shows "\<exists>w'. resetTimer w = Ret () w' \<and> c_heap w' = c_heap w \<and> c_fired w' = c_fired w
    \<and> l_head w' = l_head w \<and> l_tail w' = l_tail w"
proof -
  obtain w' where "reset_to (l_head w) w = Ret () w'" "c_heap w' = c_heap w" "c_fired w' = c_fired w"
      "clocked.more w' = clocked.more w"
    using reset_to_Ret [OF assms] by blast
  then show ?thesis
    by (cases w; cases w') (simp add: resetTimer_def bindp_unfold)
qed

section \<open>Adding\<close>

lemma expire_upd:
  "c_heap w a = Some t \<Longrightarrow> tm_expire (f t) = tm_expire t \<Longrightarrow>
     expire (w\<lparr>c_heap := (c_heap w)(a \<mapsto> f t)\<rparr>) = expire w"
  by (rule ext) (simp add: expire_def)

text \<open>What the operations leave of the objects that are not their own.\<close>

definition lst_frame :: "addr set \<Rightarrow> lst \<Rightarrow> lst \<Rightarrow> bool" where
  "lst_frame S w w' \<longleftrightarrow> expire w' = expire w \<and> live Util_Timer w' = live Util_Timer w \<and> c_fired w' = c_fired w
     \<and> (\<forall>b. b \<notin> S \<longrightarrow> c_heap w' b = c_heap w b)"

lemma lst_find_eq:
  "dseg h m (Some c) (c # ys) fin None \<Longrightarrow>
     lst_find h e c = Some (Some (last (c # takeWhile (\<lambda>y. (case h y of None \<Rightarrow> 0 | Some t \<Rightarrow> tm_expire t) < e) ys)))"
proof (induction ys arbitrary: c m)
  case Nil
  then show ?case
    by (subst lst_find.simps) auto
next
  case (Cons y ys)
  then have "dseg h (Some c) (Some y) (y # ys) fin None" by auto
  with Cons.IH [of "Some c" y] Cons.prems show ?case
    by (subst lst_find.simps) auto
qed

lemma lst_link_repr:
  assumes "lst_linked w (us @ c # ys)" "lst_fresh w a" "a \<notin> set (us @ c # ys)"
  shows "\<exists>w'. lst_link c a w = Ret () w' \<and> lst_linked w' (us @ c # a # ys)
    \<and> lst_frame (insert a (set (us @ c # ys))) w w' \<and> l_head w' = l_head w"
proof -
  let ?h = "c_heap w"
  obtain ta where ta: "?h a = Some ta" "tm_class ta = Util_Timer"
    using assms(2) by (auto simp: lst_fresh_def)
  obtain m tc where tc: "dseg ?h None (l_head w) us m (Some c)" "?h c = Some tc" "tm_prev tc = m"
      "dseg ?h (Some c) (tm_next tc) ys (l_tail w) None"
    using assms(1) by (auto simp: lst_linked_def dseg_append)
  have dist: "distinct (us @ c # ys)" and cls: "list_all (live Util_Timer w) (us @ c # ys)"
    using assms(1) by (simp_all add: lst_linked_def)
  show ?thesis
  proof (cases ys)
    case Nil
    then have nxt: "tm_next tc = None" "l_tail w = Some c"
      using tc(4) by auto
    let ?w = "w\<lparr>c_heap := ?h(a \<mapsto> ta\<lparr>tm_prev := Some c, tm_next := None\<rparr>, c \<mapsto> tc\<lparr>tm_next := Some a\<rparr>), l_tail := Some a\<rparr>"
    have "lst_link c a w = Ret () ?w"
      using ta tc(2) nxt assms(3) by (simp add: lst_link_def bindp_unfold thenp_unfold at_def upd_def)
    moreover have "lst_linked ?w (us @ c # a # ys)"
      using tc ta dist cls assms(3) Nil
      by (auto simp: lst_linked_def dseg_append live_def list_all_iff split: option.splits)
    moreover have "lst_frame (insert a (set (us @ c # ys))) w ?w"
      using ta tc(2) by (auto simp: lst_frame_def expire_def live_def fun_eq_iff)
    ultimately show ?thesis by auto
  next
    case (Cons n vs)
    then obtain tn where tn: "tm_next tc = Some n" "?h n = Some tn" "tm_prev tn = Some c"
        "dseg ?h (Some n) (tm_next tn) vs (l_tail w) None"
      using tc(4) by auto
    have ne: "a \<noteq> n" "a \<noteq> c" "n \<noteq> c"
      using assms(3) dist Cons by auto
    let ?w = "w\<lparr>c_heap := ?h(a \<mapsto> ta\<lparr>tm_next := Some n, tm_prev := Some c\<rparr>, n \<mapsto> tn\<lparr>tm_prev := Some a\<rparr>,
        c \<mapsto> tc\<lparr>tm_next := Some a\<rparr>)\<rparr>"
    have "lst_link c a w = Ret () ?w"
      using ta tc(2) tn ne by (simp add: lst_link_def bindp_unfold thenp_unfold at_def upd_def fun_upd_twist)
    moreover have "lst_linked ?w (us @ c # a # ys)"
      using tc tn ta dist cls assms(3) Cons ne
      by (auto simp: lst_linked_def dseg_append live_def list_all_iff split: option.splits)
    moreover have "lst_frame (insert a (set (us @ c # ys))) w ?w"
      using ta tc(2) tn(2) Cons by (auto simp: lst_frame_def expire_def live_def fun_eq_iff)
    ultimately show ?thesis by auto
  qed
qed

lemma insort_key_split:
  "insort_key f x xs = takeWhile (\<lambda>y. f y < f x) xs @ x # dropWhile (\<lambda>y. f y < f x) xs" for f :: "'a \<Rightarrow> 'b::linorder"
  by (induction xs) (auto simp: not_le)

lemma lst_linked_resetTimer:
  assumes "lst_linked w as"
  shows "\<exists>w'. resetTimer w = Ret () w' \<and> lst_linked w' as \<and> lst_frame {} w w' \<and> l_head w' = l_head w"
proof -
  have "\<forall>a. l_head w = Some a \<longrightarrow> c_heap w a \<noteq> None"
    using assms lst_linked_head [OF assms] lst_linked_alloc [OF assms] by (auto split: list.splits)
  then obtain w' where "resetTimer w = Ret () w'" "c_heap w' = c_heap w" "c_fired w' = c_fired w"
      "l_head w' = l_head w" "l_tail w' = l_tail w"
    using resetTimer_Ret by blast
  moreover from this have "expire w' = expire w" "live Util_Timer w' = live Util_Timer w"
    by (simp_all add: fun_eq_iff expire_def live_def)
  ultimately show ?thesis
    using assms by (simp add: lst_linked_def lst_frame_def)
qed

lemma lst_frame_trans: "lst_frame S u v \<Longrightarrow> lst_frame T v w \<Longrightarrow> S \<subseteq> U \<Longrightarrow> T \<subseteq> U \<Longrightarrow> lst_frame U u w"
  unfolding lst_frame_def by (metis subsetD)

lemma lst_add_linked:
  assumes "lst_linked w as" "lst_fresh w a" "a \<notin> set as"
  shows "\<exists>w'. lst_add_timer (Some a) w = Ret () w' \<and> lst_linked w' (insort_key (expire w) a as)
    \<and> lst_frame (insert a (set as)) w w'"
proof -
  let ?h = "c_heap w"
  obtain ta where ta: "?h a = Some ta" "tm_class ta = Util_Timer" "tm_prev ta = None" "tm_next ta = None"
    using assms(2) by (auto simp: lst_fresh_def)
  have cast: "cast_timer Util_Timer (Some a) w = Ret (Some a) w" and at: "at (Some a) w = Ret ta w"
    using ta by (simp_all add: cast_timer_def at_def)
  have ea: "expire w a = tm_expire ta"
    using ta by (simp add: expire_def)
  show ?thesis
  proof (cases as)
    case Nil
    let ?w = "w\<lparr>l_head := Some a, l_tail := Some a\<rparr>"
    have "lst_linked ?w [a]" "lst_frame {} w ?w"
      using ta by (auto simp: lst_linked_def live_def lst_frame_def expire_def fun_eq_iff)
    moreover have "l_head w = None"
      using lst_linked_head [OF assms(1)] Nil by simp
    ultimately show ?thesis
      using lst_linked_resetTimer [of ?w "[a]"] cast at Nil lst_frame_trans [of "{}" w ?w "{}" _ "{a}"]
      by (auto simp: lst_add_timer_def bindp_unfold thenp_unfold)
  next
    case (Cons c cs)
    then obtain tc where tc: "l_head w = Some c" "?h c = Some tc" "tm_prev tc = None"
        "dseg ?h (Some c) (tm_next tc) cs (l_tail w) None"
      using assms(1) by (auto simp: lst_linked_def)
    have ec: "expire w c = tm_expire tc" and ac: "a \<noteq> c"
      using tc(2) assms(3) Cons by (auto simp: expire_def)
    show ?thesis
    proof (cases "tm_expire ta \<le> tm_expire tc")
      case True
      let ?w = "w\<lparr>c_heap := ?h(a \<mapsto> ta\<lparr>tm_next := Some c\<rparr>, c \<mapsto> tc\<lparr>tm_prev := Some a\<rparr>), l_head := Some a\<rparr>"
      have lk: "lst_linked ?w (a # as)"
        using assms(1,3) ta tc Cons ac
        by (auto simp: lst_linked_def live_def list_all_iff split: option.splits)
      have fr: "lst_frame (insert a (set as)) w ?w"
        using ta tc Cons by (auto simp: lst_frame_def expire_def live_def fun_eq_iff)
      have "insort_key (expire w) a as = a # as"
        using True Cons ea ec by simp
      moreover have "lst_add_timer (Some a) w = resetTimer ?w"
        using cast at tc ta True ac by (simp add: lst_add_timer_def bindp_unfold thenp_unfold at_def upd_def)
      moreover obtain w' where "resetTimer ?w = Ret () w'" "lst_linked w' (a # as)" "lst_frame {} ?w w'"
        using lst_linked_resetTimer [OF lk] by blast
      ultimately show ?thesis
        using lst_frame_trans [OF fr, of "{}" w' "insert a (set as)"] by auto
    next
      case False
      define P where "P = (\<lambda>y. (case ?h y of None \<Rightarrow> 0 | Some t \<Rightarrow> tm_expire t) < tm_expire ta)"
      have P: "P = (\<lambda>y. expire w y < expire w a)"
        by (simp add: P_def expire_def fun_eq_iff ta(1))
      obtain us d where us: "c # takeWhile P cs = us @ [d]"
        by (metis list.distinct(1) rev_exhaust)
      have as: "as = us @ d # dropWhile P cs"
        using Cons us by (metis append.assoc append_Cons append_Nil takeWhile_dropWhile_id)
      have "lst_find ?h (tm_expire ta) c = Some (Some d)"
        using lst_find_eq [of ?h None c cs "l_tail w" "tm_expire ta"] assms(1) tc Cons us
        by (simp add: lst_linked_def P_def [symmetric] del: takeWhile.simps)
      then have "lst_add_timer (Some a) w = lst_link d a w"
        using cast at tc False by (simp add: lst_add_timer_def lst_add_behind_def bindp_unfold at_def)
      moreover have "insort_key (expire w) a as = us @ d # a # dropWhile P cs"
        using us False ea ec Cons unfolding P insort_key_split by simp
      ultimately show ?thesis
        using lst_link_repr [of w us d "dropWhile P cs" a] assms as by auto
    qed
  qed
qed

lemma lst_frame_expire: "lst_frame S w w' \<Longrightarrow> expire w' = expire w"
  by (simp add: lst_frame_def)

lemma lst_add_repr:
  assumes "lst_repr w as" "lst_fresh w a" "a \<notin> set as"
  shows "\<exists>w'. lst_add_timer (Some a) w = Ret () w' \<and> lst_repr w' (insort_key (expire w) a as)
    \<and> lst_frame (insert a (set as)) w w'"
  using lst_add_linked [of w as a] assms
  by (auto simp: lst_repr_def lst_frame_expire sorted_insort_key)

section \<open>Tick\<close>

text \<open>In the loop of \<open>tick\<close> the first timer still points back to the one that was deleted.\<close>

definition lst_cut :: "lst \<Rightarrow> addr list \<Rightarrow> bool" where
  "lst_cut w as \<longleftrightarrow> (\<exists>prev fin. dseg (c_heap w) prev (l_head w) as fin None \<and> (as \<noteq> [] \<longrightarrow> l_tail w = fin))
     \<and> distinct as \<and> list_all (live Util_Timer w) as"

lemma lst_tick_loop_run:
  assumes "lst_cut w as"
  shows "\<exists>w'. lst_tick_loop cur w = Some (Ret () w')
    \<and> c_fired w' = c_fired w @ takeWhile (\<lambda>a. expire w a \<le> cur) as
    \<and> lst_cut w' (dropWhile (\<lambda>a. expire w a \<le> cur) as)
    \<and> (\<forall>b. b \<notin> set (takeWhile (\<lambda>a. expire w a \<le> cur) as) \<longrightarrow> c_heap w' b = c_heap w b)"
  using assms
proof (induction as arbitrary: w)
  case Nil
  then have "l_head w = None"
    by (auto simp: lst_cut_def)
  with Nil show ?case
    by (subst lst_tick_loop.simps) auto
next
  case (Cons a as)
  then obtain prev fin t where t: "l_head w = Some a" "c_heap w a = Some t" "tm_prev t = prev"
      "dseg (c_heap w) (Some a) (tm_next t) as fin None" "l_tail w = fin"
    by (auto simp: lst_cut_def)
  have ea: "expire w a = tm_expire t"
    using t by (simp add: expire_def)
  show ?case
  proof (cases "tm_expire t \<le> cur")
    case False
    then show ?thesis
      using Cons.prems t ea by (subst lst_tick_loop.simps) auto
  next
    case True
    let ?v = "(after_time w)\<lparr>c_fired := c_fired w @ [a], l_head := tm_next t, c_heap := (c_heap w)(a := None)\<rparr>"
    have fields: "l_tail (after_time w) = l_tail w" "l_head (after_time w) = l_head w"
      by (simp_all add: after_time_def split: list.split)
    have step: "lst_tick_loop cur w = lst_tick_loop cur ?v"
      using t True
      by (subst lst_tick_loop.simps)
        (simp add: thenp_unfold bindp_unfold callback_def at_def delete_timer_def fields)
    have same: "expire ?v b = expire w b" if "b \<in> set as" for b
      using that Cons.prems by (auto simp: expire_def lst_cut_def)
    have cut: "lst_cut ?v as"
      using Cons.prems t by (auto simp: lst_cut_def live_def fields list_all_iff)
    from Cons.IH [OF cut] obtain w' where w': "lst_tick_loop cur ?v = Some (Ret () w')"
       "c_fired w' = c_fired ?v @ takeWhile (\<lambda>a. expire ?v a \<le> cur) as"
       "lst_cut w' (dropWhile (\<lambda>a. expire ?v a \<le> cur) as)"
       "\<forall>b. b \<notin> set (takeWhile (\<lambda>a. expire ?v a \<le> cur) as) \<longrightarrow> c_heap w' b = c_heap ?v b"
      by blast
    have tw: "takeWhile (\<lambda>a. expire ?v a \<le> cur) as = takeWhile (\<lambda>a. expire w a \<le> cur) as"
      and dw: "dropWhile (\<lambda>a. expire ?v a \<le> cur) as = dropWhile (\<lambda>a. expire w a \<le> cur) as"
      using same by (auto intro: takeWhile_cong dropWhile_cong)
    show ?thesis
      using step w' True ea unfolding tw dw by auto
  qed
qed

lemma lst_cut_head: "lst_cut w as \<Longrightarrow> l_head w = (case as of [] \<Rightarrow> None | a # _ \<Rightarrow> Some a)"
  by (cases as) (auto simp: lst_cut_def)

text \<open>Clearing the link back of the first timer makes the list whole again.\<close>

lemma lst_cut_mend:
  assumes "lst_cut w as"
  shows "\<exists>w'. bindp (getsp l_head) (\<lambda>head. if head = None then retp () else upd head (\<lambda>t. t\<lparr>tm_prev := None\<rparr>)) w = Ret () w'
    \<and> lst_linked w' as \<and> expire w' = expire w \<and> c_fired w' = c_fired w"
proof (cases as)
  case Nil
  then show ?thesis
    using assms lst_cut_head [OF assms] by (auto simp: bindp_unfold lst_linked_def)
next
  case (Cons a bs)
  then obtain t where t: "l_head w = Some a" "c_heap w a = Some t" "dseg (c_heap w) (Some a) (tm_next t) bs (l_tail w) None"
    using assms by (auto simp: lst_cut_def)
  let ?w = "w\<lparr>c_heap := (c_heap w)(a \<mapsto> t\<lparr>tm_prev := None\<rparr>)\<rparr>"
  have "live Util_Timer ?w = live Util_Timer w"
    using t(2) by (auto simp: live_def fun_eq_iff)
  then have "lst_linked ?w as"
    using assms t Cons by (simp add: lst_linked_def lst_cut_def)
  moreover have "expire ?w = expire w"
    using t(2) by (auto simp: expire_def fun_eq_iff)
  ultimately show ?thesis
    using t by (simp add: bindp_unfold upd_def)
qed

lemma sorted_map_parts:
  assumes "sorted (map f xs)"
  shows "sorted (map f (takeWhile P xs))" "sorted (map f (dropWhile P xs))"
proof -
  have "sorted (map f (takeWhile P xs @ dropWhile P xs))"
    using assms by (simp only: takeWhile_dropWhile_id)
  then show "sorted (map f (takeWhile P xs))" "sorted (map f (dropWhile P xs))"
    by (simp_all only: map_append sorted_append)
qed

lemma lst_tick_run:
  assumes "lst_repr w as"
  shows "\<exists>w'. lst_tick w = Ret () w'
    \<and> c_fired w' = c_fired w @ takeWhile (\<lambda>a. expire w a \<le> next_time w) as
    \<and> lst_repr w' (dropWhile (\<lambda>a. expire w a \<le> next_time w) as)"
proof -
  let ?xs = "takeWhile (\<lambda>a. expire w a \<le> next_time w) as"
  let ?ys = "dropWhile (\<lambda>a. expire w a \<le> next_time w) as"
  let ?v = "after_time w"
  have more: "l_head ?v = l_head w" "l_tail ?v = l_tail w" "expire ?v = expire w" "live Util_Timer ?v = live Util_Timer w"
    by (simp_all add: after_time_def expire_def live_def fun_eq_iff split: list.split)
  have "lst_cut ?v as"
    using assms by (auto simp: lst_cut_def lst_repr_def lst_linked_def more)
  then obtain v1 where v1: "lst_tick_loop (next_time w) ?v = Some (Ret () v1)" "c_fired v1 = c_fired w @ ?xs"
      "lst_cut v1 ?ys" "\<forall>b. b \<notin> set ?xs \<longrightarrow> c_heap v1 b = c_heap w b"
    using lst_tick_loop_run [of ?v as "next_time w"] by (auto simp: more)
  obtain v2 where v2: "bindp (getsp l_head) (\<lambda>head. if head = None then retp () else upd head (\<lambda>t. t\<lparr>tm_prev := None\<rparr>)) v1 = Ret () v2"
      "lst_linked v2 ?ys" "expire v2 = expire v1" "c_fired v2 = c_fired v1"
    using lst_cut_mend [OF v1(3)] by blast
  obtain v3 where v3: "resetTimer v2 = Ret () v3" "lst_linked v3 ?ys" "lst_frame {} v2 v3"
    using lst_linked_resetTimer [OF v2(2)] by blast
  have "distinct (?xs @ ?ys)"
    using assms by (simp add: lst_repr_def lst_linked_def)
  then have "c_heap v1 b = c_heap w b" if "b \<in> set ?ys" for b
    using v1(4) that by (simp only: distinct_append) blast
  then have "expire v1 b = expire w b" if "b \<in> set ?ys" for b
    using that by (simp add: expire_def)
  then have "map (expire v3) ?ys = map (expire w) ?ys"
    using v2(3) v3(3) by (simp add: lst_frame_def)
  moreover have "sorted (map (expire w) ?ys)"
    using assms by (intro sorted_map_parts) (simp add: lst_repr_def)
  ultimately have "lst_repr v3 ?ys"
    using v3(2) by (simp only: lst_repr_def)
  then show ?thesis
    using v1 v2 v3 by (auto simp: lst_tick_def bindp_unfold [of sys_time] thenp_unfold lst_frame_def)
qed

section \<open>The list is a timer container\<close>

lemma sorted_filter_le:
  "sorted (map f xs) \<Longrightarrow> set (takeWhile (\<lambda>x. f x \<le> t) xs) = {x \<in> set xs. f x \<le> t}" for f :: "'a \<Rightarrow> int"
  by (induction xs) auto

interpretation lt: timer_container "\<lambda>w S. \<exists>as. lst_repr w as \<and> set as = S" lst_fresh "\<lambda>a. lst_add_timer (Some a)" lst_tick
proof
  fix w :: lst and S a
  assume "\<exists>as. lst_repr w as \<and> set as = S" "lst_fresh w a" "a \<notin> S"
  then obtain as where as: "lst_repr w as" "set as = S" "lst_fresh w a" "a \<notin> set as" by blast
  then obtain w' where w': "lst_add_timer (Some a) w = Ret () w'" "lst_repr w' (insort_key (expire w) a as)"
      "lst_frame (insert a (set as)) w w'"
    using lst_add_repr by blast
  then show "\<exists>w'. lst_add_timer (Some a) w = Ret () w' \<and> (\<exists>as. lst_repr w' as \<and> set as = insert a S)
      \<and> expire w' = expire w \<and> c_fired w' = c_fired w \<and> (\<forall>b. lst_fresh w b \<and> b \<noteq> a \<and> b \<notin> S \<longrightarrow> lst_fresh w' b)"
    using as(2) by (auto simp: lst_frame_def lst_fresh_def set_insort_key)
next
  fix w :: lst and S
  assume "\<exists>as. lst_repr w as \<and> set as = S"
  then obtain as where as: "lst_repr w as" "set as = S" by blast
  let ?xs = "takeWhile (\<lambda>a. expire w a \<le> next_time w) as"
  let ?ys = "dropWhile (\<lambda>a. expire w a \<le> next_time w) as"
  obtain w' where w': "lst_tick w = Ret () w'" "c_fired w' = c_fired w @ ?xs" "lst_repr w' ?ys"
    using lst_tick_run [OF as(1)] by blast
  have dist: "distinct (?xs @ ?ys)" and sort: "sorted (map (expire w) as)"
    using as(1) by (simp_all add: lst_repr_def lst_linked_def)
  have "set as = set ?xs \<union> set ?ys"
    using set_append [of ?xs ?ys] by simp
  moreover have "set ?xs \<inter> set ?ys = {}"
    using dist by (simp only: distinct_append)
  ultimately have "set ?ys = S - set ?xs"
    using as(2) by blast
  moreover have "set ?xs = {a \<in> S. expire w a \<le> next_time w}"
    using sorted_filter_le [OF sort] as(2) by simp
  moreover have "sorted (map (expire w) ?xs)" "distinct ?xs"
    using sorted_map_parts [OF sort] dist by (simp_all only: distinct_append)
  ultimately show "\<exists>w' xs. lst_tick w = Ret () w' \<and> c_fired w' = c_fired w @ xs
      \<and> set xs = {a \<in> S. expire w a \<le> next_time w} \<and> distinct xs \<and> sorted (map (expire w) xs)
      \<and> (\<exists>as. lst_repr w' as \<and> set as = S - set xs)"
    using w' by (intro exI [of _ w'] exI [of _ ?xs]) auto
qed

section \<open>Properties\<close>

text \<open>
  C25: whatever the order in which fresh timers are added to an empty list, the next tick runs
  the callbacks of exactly those that have expired, in the order of their times, and keeps the
  others; no pointer is used that is null or dangling.
\<close>

theorem lst_run:
  assumes "lst_repr w []" "list_all (lst_fresh w) as" "distinct as"
  shows "\<exists>v w' xs. lt.add_all as w = Ret () v \<and> lst_tick v = Ret () w' \<and> c_fired w' = c_fired w @ xs
    \<and> set xs = {a \<in> set as. expire w a \<le> next_time v} \<and> distinct xs \<and> sorted (map (expire w) xs)
    \<and> (\<exists>bs. lst_repr w' bs \<and> set bs = {a \<in> set as. next_time v < expire w a})"
  using assms by (intro lt.run) auto

text \<open>
  \<open>adjust_timer\<close> never moves a timer: in a list that was in order before the time of one of its timers
  was changed, the test, which joins its two halves by \<open>||\<close>, always says that the timer is still
  in its place.
\<close>

theorem lst_adjust_never_moves:
  assumes "lst_repr w as" "a \<in> set as"
  shows "\<exists>v. set_expire a e w = Ret () v \<and> lst_adjust_timer (Some a) v = Ret () v"
proof -
  let ?h = "c_heap w"
  obtain us vs where as: "as = us @ a # vs"
    using assms(2) by (auto simp: in_set_conv_decomp)
  obtain m fin ta where ta: "dseg ?h None (l_head w) us m (Some a)" "?h a = Some ta" "tm_prev ta = m"
      "dseg ?h (Some a) (tm_next ta) vs fin None" "tm_class ta = Util_Timer"
    using assms(1) as by (auto simp: lst_repr_def lst_linked_def dseg_append live_def split: option.splits)
  let ?v = "w\<lparr>c_heap := ?h(a \<mapsto> ta\<lparr>tm_expire := e\<rparr>)\<rparr>"
  have set: "set_expire a e w = Ret () ?v"
    using ta(2) by (simp add: set_expire_def upd_def)
  have dist: "a \<notin> set us" "a \<notin> set vs" "distinct us" and sort: "sorted (map (expire w) as)"
    using assms(1) as by (auto simp: lst_repr_def lst_linked_def)
  have "lst_in_order (Some a) ?v = Ret True ?v"
  proof (cases us rule: rev_cases)
    case Nil
    then show ?thesis
      using ta by (simp add: lst_in_order_def bindp_unfold at_def)
  next
    case (snoc us' p)
    then obtain tp where tp: "tm_prev ta = Some p" "?h p = Some tp"
      using ta(1,3) by (auto simp: dseg_append)
    show ?thesis
    proof (cases vs)
      case Nil
      then show ?thesis
        using ta tp dist snoc by (auto simp: lst_in_order_def bindp_unfold at_def)
    next
      case (Cons n vs')
      then obtain tn where tn: "tm_next ta = Some n" "?h n = Some tn"
        using ta(4) by auto
      have "tm_expire tp \<le> tm_expire tn"
        using sort as snoc Cons tp tn by (auto simp: sorted_append expire_def)
      then show ?thesis
        using ta tp tn dist snoc Cons by (auto simp: lst_in_order_def bindp_unfold at_def)
    qed
  qed
  then have "lst_adjust_timer (Some a) ?v = Ret () ?v"
    using ta(5) by (simp add: lst_adjust_timer_def bindp_unfold cast_timer_def)
  then show ?thesis
    using set by blast
qed

text \<open>
  \<open>del_timer\<close> does not move the tail: when the last of several timers is deleted from the
  list and then the one in front of it, the second call reaches through a null pointer.
\<close>

theorem lst_del_tail_crash:
  assumes "lst_repr w (as @ [a, b])"
  shows "\<exists>v. lst_del_timer (Some b) w = Ret () v \<and> lst_del_timer (Some a) v = Undef"
proof -
  let ?h = "c_heap w"
  obtain m ta tb where t: "dseg ?h None (l_head w) as m (Some a)" "?h a = Some ta" "tm_prev ta = m"
      "tm_next ta = Some b" "?h b = Some tb" "tm_prev tb = Some a" "tm_next tb = None"
    and tail: "l_tail w = Some b" and cls: "tm_class ta = Util_Timer" "tm_class tb = Util_Timer"
    using assms by (auto simp: lst_repr_def lst_linked_def dseg_append live_def split: option.splits)
  have dist: "distinct (as @ [a, b])"
    using assms by (simp add: lst_repr_def lst_linked_def)
  have head: "l_head w \<noteq> Some b"
    using t(1) dist by (cases as) auto
  let ?v = "w\<lparr>c_heap := ?h(a \<mapsto> ta\<lparr>tm_next := None\<rparr>)\<rparr>"
  have del: "lst_del_timer (Some b) w = Ret () ?v"
    using t tail cls head dist
    by (auto simp: lst_del_timer_def bindp_unfold thenp_unfold cast_timer_def at_def upd_def)
  have "lst_del_timer (Some a) ?v = Undef"
  proof (cases as rule: rev_cases)
    case Nil
    then show ?thesis
      using t tail cls dist by (auto simp: lst_del_timer_def bindp_unfold thenp_unfold cast_timer_def at_def upd_def)
  next
    case (snoc us p)
    then obtain tp where "tm_prev ta = Some p" "?h p = Some tp" "p \<noteq> a" "l_head w \<noteq> Some a"
      using t(1,3) dist by (cases us) (auto simp: dseg_append)
    then show ?thesis
      using t tail cls dist by (auto simp: lst_del_timer_def bindp_unfold thenp_unfold cast_timer_def at_def upd_def)
  qed
  then show ?thesis
    using del by blast
qed


text \<open>Three timers in an empty container, due at 30, 10 and 20; it is 15.\<close>

definition new_timer :: "timer_class \<Rightarrow> int \<Rightarrow> timer" where
  "new_timer c e = \<lparr>tm_class = c, tm_expire = e, tm_prev = None, tm_next = None, tm_rotation = 0, tm_slot_idx = 0\<rparr>"

definition three_timers :: lst where
  "three_timers = \<lparr>c_heap = [1 \<mapsto> new_timer Util_Timer 30, 2 \<mapsto> new_timer Util_Timer 10, 3 \<mapsto> new_timer Util_Timer 20],
     c_times = [], c_now = 15, c_alarm = 0, c_blocked = False, c_fired = [], l_head = None, l_tail = None\<rparr>"

theorem lst_run_witness:
  "\<exists>v w' xs. lt.add_all [1, 2, 3] three_timers = Ret () v \<and> lst_tick v = Ret () w' \<and> c_fired w' = xs
    \<and> sorted (map (expire three_timers) xs)"
proof -
  have "lst_repr three_timers []" "list_all (lst_fresh three_timers) [1, 2, 3]"
    by (simp_all add: three_timers_def lst_repr_def lst_linked_def lst_fresh_def new_timer_def)
  from lst_run [OF this] show ?thesis
    by (auto simp: three_timers_def)
qed

definition two_linked :: lst where
  "two_linked = three_timers\<lparr>c_heap := [1 \<mapsto> (new_timer Util_Timer 30)\<lparr>tm_prev := Some 2\<rparr>,
     2 \<mapsto> (new_timer Util_Timer 10)\<lparr>tm_next := Some 1\<rparr>], l_head := Some 2, l_tail := Some 1\<rparr>"

lemma two_linked_repr: "lst_repr two_linked [2, 1]"
  by (simp add: two_linked_def three_timers_def lst_repr_def lst_linked_def live_def new_timer_def expire_def)

text \<open>The first timer now expires behind the second one, and stays in front of it.\<close>

theorem lst_adjust_never_moves_witness:
  "\<exists>v. set_expire 2 40 two_linked = Ret () v \<and> lst_adjust_timer (Some 2) v = Ret () v"
  by (rule lst_adjust_never_moves [OF two_linked_repr]) simp

theorem lst_del_tail_crash_witness:
  "\<exists>v. lst_del_timer (Some 1) two_linked = Ret () v \<and> lst_del_timer (Some 2) v = Undef"
  using lst_del_tail_crash [of two_linked "[]" 2 1] two_linked_repr by simp

end
