(* ===== verification/Array_Heap.thy ===== *)
theory Array_Heap
  imports Main "HOL-Library.Multiset"
begin

text \<open>
  The array heap of lib/heap_timer.hh on lists, by an order of its elements: the root is at 0
  and the parent of \<open>i\<close> at \<open>i div 2\<close>, so the root has one child, 1, and \<open>i\<close> above it has \<open>2 * i\<close>
  and \<open>2 * i + 1\<close>. The code's loops are shown to compute these functions in Heap_Timer.
\<close>

definition swapped :: "'a list \<Rightarrow> nat \<Rightarrow> nat \<Rightarrow> 'a list" where
  "swapped xs i j = xs[i := xs ! j, j := xs ! i]"

lemma length_swapped [simp]: "length (swapped xs i j) = length xs"
  by (simp add: swapped_def)

lemma nth_swapped:
  "i < length xs \<Longrightarrow> j < length xs \<Longrightarrow> k < length xs \<Longrightarrow>
     swapped xs i j ! k = (if k = i then xs ! j else if k = j then xs ! i else xs ! k)"
  by (auto simp: swapped_def nth_list_update)

lemma mset_swapped [simp]: "i < length xs \<Longrightarrow> j < length xs \<Longrightarrow> mset (swapped xs i j) = mset xs"
  by (simp add: swapped_def mset_swap)

function heap_up :: "('a \<Rightarrow> int) \<Rightarrow> nat \<Rightarrow> 'a list \<Rightarrow> 'a list" where
  "heap_up f i xs =
     (if 0 < i \<and> f (xs ! i) < f (xs ! (i div 2)) then heap_up f (i div 2) (swapped xs i (i div 2)) else xs)"
  by pat_completeness auto
termination
  by (relation "measure (\<lambda>(f, i, xs). i)") auto

definition min_child :: "('a \<Rightarrow> int) \<Rightarrow> nat \<Rightarrow> 'a list \<Rightarrow> nat" where
  "min_child f i xs = (if 2 * i + 1 < length xs \<and> f (xs ! (2 * i + 1)) < f (xs ! (2 * i)) then 2 * i + 1 else 2 * i)"

lemma min_child_bounds: "2 * i < length xs \<Longrightarrow> min_child f i xs < length xs \<and> i \<le> min_child f i xs"
  by (auto simp: min_child_def)

function heap_down :: "('a \<Rightarrow> int) \<Rightarrow> nat \<Rightarrow> 'a list \<Rightarrow> 'a list" where
  "heap_down f i xs =
     (if 2 * i < length xs \<and> f (xs ! min_child f i xs) < f (xs ! i)
      then heap_down f (min_child f i xs) (swapped xs i (min_child f i xs)) else xs)"
  by pat_completeness auto
termination
proof (relation "measure (\<lambda>(f, i, xs). length xs - i)", goal_cases)
  case (2 f i xs)
  then have "i \<noteq> min_child f i xs"
    by auto
  then show ?case
    using 2 min_child_bounds [of i xs f] by auto
qed simp

declare heap_up.simps [simp del] heap_down.simps [simp del]

definition is_heap :: "('a \<Rightarrow> int) \<Rightarrow> 'a list \<Rightarrow> bool" where
  "is_heap f xs \<longleftrightarrow> (\<forall>j<length xs. 0 < j \<longrightarrow> f (xs ! (j div 2)) \<le> f (xs ! j))"

text \<open>A heap but for one element that may be too small for its parent, or too large for its children.\<close>

definition up_defect :: "('a \<Rightarrow> int) \<Rightarrow> nat \<Rightarrow> 'a list \<Rightarrow> bool" where
  "up_defect f i xs \<longleftrightarrow> i < length xs
     \<and> (\<forall>j<length xs. 0 < j \<longrightarrow> j \<noteq> i \<longrightarrow> f (xs ! (j div 2)) \<le> f (xs ! j))
     \<and> (0 < i \<longrightarrow> (\<forall>j<length xs. 0 < j \<longrightarrow> j \<noteq> i \<longrightarrow> j div 2 = i \<longrightarrow> f (xs ! (i div 2)) \<le> f (xs ! j)))"

definition down_defect :: "('a \<Rightarrow> int) \<Rightarrow> nat \<Rightarrow> 'a list \<Rightarrow> bool" where
  "down_defect f i xs \<longleftrightarrow> i < length xs
     \<and> (\<forall>j<length xs. 0 < j \<longrightarrow> j div 2 \<noteq> i \<or> j = i \<longrightarrow> f (xs ! (j div 2)) \<le> f (xs ! j))
     \<and> (0 < i \<longrightarrow> (\<forall>j<length xs. 0 < j \<longrightarrow> j \<noteq> i \<longrightarrow> j div 2 = i \<longrightarrow> f (xs ! (i div 2)) \<le> f (xs ! j)))"

lemma is_heap_le_root: "is_heap f xs \<Longrightarrow> i < length xs \<Longrightarrow> f (xs ! 0) \<le> f (xs ! i)"
proof (induction i rule: less_induct)
  case (less i)
  show ?case
  proof (cases "i = 0")
    case False
    then have "f (xs ! 0) \<le> f (xs ! (i div 2))" "f (xs ! (i div 2)) \<le> f (xs ! i)"
      using less by (auto simp: is_heap_def)
    then show ?thesis by (rule order_trans)
  qed simp
qed

lemma up_defect_step:
  assumes "up_defect f i xs" "0 < i" "f (xs ! i) < f (xs ! (i div 2))"
  shows "up_defect f (i div 2) (swapped xs i (i div 2))"
proof -
  let ?p = "i div 2"
  have i: "i < length xs" "?p < length xs" "?p \<noteq> i" "?p < i"
    using assms(1,2) by (auto simp: up_defect_def)
  note nth = nth_swapped [OF i(1,2)]
  have above: "f (xs ! (?p div 2)) \<le> f (xs ! ?p)" if "0 < ?p"
    using assms(1) that i by (auto simp: up_defect_def)
  have below: "f (xs ! ?p) \<le> f (xs ! j)" if "j < length xs" "0 < j" "j div 2 = i" "j \<noteq> i" for j
    using assms that by (auto simp: up_defect_def)
  have beside: "f (xs ! (j div 2)) \<le> f (xs ! j)" if "j < length xs" "0 < j" "j \<noteq> i" for j
    using assms(1) that by (auto simp: up_defect_def)
  have one: "f (swapped xs i ?p ! (j div 2)) \<le> f (swapped xs i ?p ! j)"
    if j: "j < length xs" "0 < j" "j \<noteq> ?p" for j
  proof -
    have jd: "j div 2 < length xs" using j by auto
    consider "j = i" | "j \<noteq> i" "j div 2 = i" | "j \<noteq> i" "j div 2 = ?p" | "j \<noteq> i" "j div 2 \<noteq> i" "j div 2 \<noteq> ?p" by blast
    then show ?thesis
    proof cases
      case 3
      then have "f (xs ! ?p) \<le> f (xs ! j)"
        using beside [OF j(1,2)] by simp
      then show ?thesis
        using nth [OF j(1)] nth [OF jd] 3 j assms(3) by simp
    qed (use nth [OF j(1)] nth [OF jd] j below beside [OF j(1,2)] assms(3) i in auto)
  qed
  have two: "f (swapped xs i ?p ! (?p div 2)) \<le> f (swapped xs i ?p ! j)"
    if j: "0 < ?p" "j < length xs" "0 < j" "j \<noteq> ?p" "j div 2 = ?p" for j
  proof -
    have "?p div 2 < length xs" "?p div 2 \<noteq> ?p" "?p div 2 \<noteq> i"
      using i j(1) by auto
    moreover have "f (xs ! ?p) \<le> f (xs ! j)" if "j \<noteq> i"
      using beside [OF j(2,3) that] j(5) by simp
    ultimately show ?thesis
      using nth [OF j(2)] nth [of "?p div 2"] above [OF j(1)] j(4) by (auto intro: order_trans)
  qed
  show ?thesis
    unfolding up_defect_def using i one two by simp
qed

lemma heap_up_heap: "up_defect f i xs \<Longrightarrow> is_heap f (heap_up f i xs)"
proof (induction f i xs rule: heap_up.induct)
  case (1 f i xs)
  show ?case
  proof (cases "0 < i \<and> f (xs ! i) < f (xs ! (i div 2))")
    case True
    then show ?thesis
      using "1.IH" [OF True] up_defect_step [OF "1.prems"] by (subst heap_up.simps) simp
  next
    case False
    have "f (xs ! (j div 2)) \<le> f (xs ! j)" if "j < length xs" "0 < j" for j
      using that False "1.prems" by (cases "j = i") (auto simp: up_defect_def)
    then show ?thesis
      using False by (subst heap_up.simps) (auto simp: is_heap_def)
  qed
qed

lemma heap_up_mset [simp]: "i < length xs \<Longrightarrow> mset (heap_up f i xs) = mset xs"
proof (induction f i xs rule: heap_up.induct)
  case (1 f i xs)
  then show ?case
    by (subst heap_up.simps) auto
qed

lemma down_defect_step:
  assumes "down_defect f i xs" "2 * i < length xs" "f (xs ! min_child f i xs) < f (xs ! i)"
  shows "down_defect f (min_child f i xs) (swapped xs i (min_child f i xs))"
proof -
  let ?c = "min_child f i xs"
  have c: "?c < length xs" "?c \<noteq> i" "i < length xs" "?c div 2 = i" "0 < ?c" "i < ?c"
    using assms min_child_bounds [OF assms(2), of f] by (auto simp: min_child_def down_defect_def split: if_splits)
  note nth = nth_swapped [OF c(3,1)]
  have least: "f (xs ! ?c) \<le> f (xs ! j)" if "j < length xs" "0 < j" "j div 2 = i" for j
  proof -
    have "j = 2 * i \<or> j = 2 * i + 1" using that by auto
    then show ?thesis using that(1) by (auto simp: min_child_def)
  qed
  have rest: "f (xs ! (j div 2)) \<le> f (xs ! j)" if "j < length xs" "0 < j" "j div 2 \<noteq> i \<or> j = i" for j
    using assms(1) that by (auto simp: down_defect_def)
  have below: "f (xs ! (i div 2)) \<le> f (xs ! ?c)" if "0 < i"
    using assms(1) that c by (auto simp: down_defect_def)
  have one: "f (swapped xs i ?c ! (j div 2)) \<le> f (swapped xs i ?c ! j)"
    if j: "j < length xs" "0 < j" "j div 2 \<noteq> ?c \<or> j = ?c" for j
  proof -
    have jd: "j div 2 < length xs" using j by auto
    consider "j = ?c" | "j = i" | "j \<noteq> ?c" "j \<noteq> i" "j div 2 = i" | "j \<noteq> ?c" "j \<noteq> i" "j div 2 \<noteq> i" "j div 2 \<noteq> ?c"
      using j(3) by blast
    then show ?thesis
    proof cases
      case 2
      then have "i div 2 \<noteq> i" "i div 2 \<noteq> ?c" using j c by auto
      then show ?thesis
        using nth [OF j(1)] nth [OF jd] 2 below j by simp
    next
      case 3
      then show ?thesis
        using nth [OF j(1)] nth [OF jd] least [OF j(1,2)] c by simp
    qed (use nth [OF j(1)] nth [OF jd] c assms(3) rest [OF j(1,2)] in auto)
  qed
  have two: "f (swapped xs i ?c ! (?c div 2)) \<le> f (swapped xs i ?c ! j)"
    if j: "j < length xs" "0 < j" "j \<noteq> ?c" "j div 2 = ?c" for j
  proof -
    have "j \<noteq> i" using j c by auto
    then show ?thesis
      using nth [OF j(1)] nth [of i] c j rest [OF j(1,2)] by auto
  qed
  show ?thesis
    unfolding down_defect_def using c one two by simp
qed

lemma heap_down_heap: "down_defect f i xs \<Longrightarrow> is_heap f (heap_down f i xs)"
proof (induction f i xs rule: heap_down.induct)
  case (1 f i xs)
  show ?case
  proof (cases "2 * i < length xs \<and> f (xs ! min_child f i xs) < f (xs ! i)")
    case True
    then show ?thesis
      using "1.IH" [OF True] down_defect_step [OF "1.prems"] by (subst heap_down.simps) simp
  next
    case False
    have "f (xs ! (j div 2)) \<le> f (xs ! j)" if j: "j < length xs" "0 < j" for j
    proof (cases "j div 2 = i \<and> j \<noteq> i")
      case True
      then have "2 * i < length xs" "j = 2 * i \<or> j = 2 * i + 1" using j by auto
      then show ?thesis
        using False True j by (auto simp: min_child_def split: if_splits)
    next
      case ok: False
      then show ?thesis
        using "1.prems" j by (auto simp: down_defect_def)
    qed
    then show ?thesis
      using False by (subst heap_down.simps) (auto simp: is_heap_def)
  qed
qed

lemma heap_down_mset [simp]: "i < length xs \<Longrightarrow> mset (heap_down f i xs) = mset xs"
proof (induction f i xs rule: heap_down.induct)
  case (1 f i xs)
  then show ?case
    using min_child_bounds [of i xs f] by (subst heap_down.simps) auto
qed

lemma length_heap_up [simp]: "i < length xs \<Longrightarrow> length (heap_up f i xs) = length xs"
  using heap_up_mset [of i xs f] by (metis mset_eq_length)

lemma length_heap_down [simp]: "i < length xs \<Longrightarrow> length (heap_down f i xs) = length xs"
  using heap_down_mset [of i xs f] by (metis mset_eq_length)

section \<open>Operations\<close>

definition heap_add :: "('a \<Rightarrow> int) \<Rightarrow> 'a \<Rightarrow> 'a list \<Rightarrow> 'a list" where
  "heap_add f a xs = heap_up f (length xs) (xs @ [a])"

definition heap_pop :: "('a \<Rightarrow> int) \<Rightarrow> 'a list \<Rightarrow> 'a list" where
  "heap_pop f xs = (if length xs \<le> 1 then [] else heap_down f 0 ((butlast xs)[0 := last xs]))"

definition heap_del :: "('a \<Rightarrow> int) \<Rightarrow> nat \<Rightarrow> 'a list \<Rightarrow> 'a list" where
  "heap_del f i xs =
     (if i = length xs - 1 then butlast xs
      else if f (last xs) < f (xs ! i) then heap_up f i ((butlast xs)[i := last xs])
      else heap_down f i ((butlast xs)[i := last xs]))"

definition heap_fix :: "('a \<Rightarrow> int) \<Rightarrow> nat \<Rightarrow> 'a list \<Rightarrow> 'a list" where
  "heap_fix f i xs =
     (if f (xs ! i) < f (xs ! (i div 2)) then heap_up f i xs
      else if 2 * i < length xs \<and> f (xs ! min_child f i xs) < f (xs ! i) then heap_down f i xs
      else xs)"

lemma heap_add_heap: "is_heap f xs \<Longrightarrow> is_heap f (heap_add f a xs)"
  unfolding heap_add_def
proof (rule heap_up_heap)
  assume h: "is_heap f xs"
  have "f ((xs @ [a]) ! (j div 2)) \<le> f ((xs @ [a]) ! j)" if "j < length xs" "0 < j" for j
    using h that by (auto simp: is_heap_def nth_append)
  then show "up_defect f (length xs) (xs @ [a])"
    by (auto simp: up_defect_def less_Suc_eq)
qed

lemma heap_add_mset: "mset (heap_add f a xs) = add_mset a (mset xs)"
  by (simp add: heap_add_def)

lemma is_heap_butlast: "is_heap f xs \<Longrightarrow> is_heap f (butlast xs)"
  by (auto simp: is_heap_def nth_butlast)

text \<open>Putting a smaller or a larger element in a place, and changing the order at one place.\<close>

lemma defect_change:
  assumes "is_heap f xs" "i < length ys" "length ys = length xs"
    and "\<And>j. j < length xs \<Longrightarrow> j \<noteq> i \<Longrightarrow> g (ys ! j) = f (xs ! j)"
  shows "g (ys ! i) \<le> f (xs ! i) \<Longrightarrow> up_defect g i ys" "f (xs ! i) \<le> g (ys ! i) \<Longrightarrow> down_defect g i ys"
proof -
  have h: "f (xs ! (j div 2)) \<le> f (xs ! j)" if "j < length xs" "0 < j" for j
    using assms(1) that by (simp add: is_heap_def)
  have far: "g (ys ! (j div 2)) \<le> g (ys ! j)" if "j < length xs" "0 < j" "j \<noteq> i" "j div 2 \<noteq> i" for j
  proof -
    have "j div 2 < length xs" using that(1) by auto
    then show ?thesis
      using h [OF that(1,2)] assms(4) [OF that(1,3)] assms(4) [OF _ that(4)] by simp
  qed
  have grand: "g (ys ! (i div 2)) \<le> g (ys ! j)" if "0 < i" "j < length xs" "0 < j" "j \<noteq> i" "j div 2 = i" for j
  proof -
    have "f (xs ! (i div 2)) \<le> f (xs ! i)" "f (xs ! i) \<le> f (xs ! j)" "i div 2 < length xs" "i div 2 \<noteq> i"
      using h [of i] h [of j] that assms(2,3) by auto
    then show ?thesis
      using assms(4) [OF that(2,4)] assms(4) [of "i div 2"] by simp
  qed
  show "up_defect g i ys" if le: "g (ys ! i) \<le> f (xs ! i)"
  proof -
    have "g (ys ! (j div 2)) \<le> g (ys ! j)" if "j < length xs" "0 < j" "j \<noteq> i" for j
    proof (cases "j div 2 = i")
      case True
      then show ?thesis
        using le h [OF that(1,2)] assms(4) [OF that(1,3)] by simp
    qed (rule far [OF that])
    then show ?thesis
      using grand assms(2,3) by (simp add: up_defect_def)
  qed
  show "down_defect g i ys" if le: "f (xs ! i) \<le> g (ys ! i)"
  proof -
    have "g (ys ! (j div 2)) \<le> g (ys ! j)" if j: "j < length xs" "0 < j" "j div 2 \<noteq> i \<or> j = i" for j
    proof (cases "j = i")
      case True
      then have "i div 2 \<noteq> i" "i div 2 < length xs" using j by auto
      then show ?thesis
        using le True h [OF j(1,2)] assms(4) [of "i div 2"] by simp
    qed (use j far in auto)
    then show ?thesis
      using grand assms(2,3) by (simp add: down_defect_def)
  qed
qed

lemma set_butlast_last: "xs \<noteq> [] \<Longrightarrow> i < length xs - 1 \<Longrightarrow>
    mset ((butlast xs)[i := last xs]) = mset xs - {#xs ! i#}"
  by (cases xs rule: rev_cases) (auto simp: mset_update nth_append)

text \<open>The time of the root need not be kept.\<close>

lemma heap_pop_heap:
  assumes h: "is_heap f xs" and g: "\<And>x. x \<in> set (tl xs) \<Longrightarrow> g x = f x"
  shows "is_heap g (heap_pop g xs)"
proof (cases "length xs \<le> 1")
  case False
  let ?ys = "(butlast xs)[0 := last xs]"
  have tl: "xs ! j \<in> set (tl xs)" if "j < length xs" "j \<noteq> 0" for j
    using that by (cases xs; cases j) auto
  have last: "last xs = xs ! (length xs - 1)"
    using False by (cases "xs = []") (simp_all add: last_conv_nth)
  have "down_defect g 0 ?ys"
  proof (rule defect_change(2) [OF is_heap_butlast [OF h]])
    show "g (?ys ! j) = f (butlast xs ! j)" if "j < length (butlast xs)" "j \<noteq> 0" for j
      using that g [OF tl [of j]] by (simp add: nth_butlast)
    show "f (butlast xs ! 0) \<le> g (?ys ! 0)"
      using False is_heap_le_root [OF h, of "length xs - 1"] g [OF tl [of "length xs - 1"]] last
      by (auto simp: nth_butlast)
  qed (use False in auto)
  then show ?thesis
    using False by (simp add: heap_pop_def heap_down_heap)
qed (simp add: heap_pop_def is_heap_def)

lemma heap_pop_mset: "xs \<noteq> [] \<Longrightarrow> mset (heap_pop f xs) = mset xs - {#xs ! 0#}"
proof (cases "length xs \<le> 1")
  case True
  then show "xs \<noteq> [] \<Longrightarrow> ?thesis"
    by (cases xs) (auto simp: heap_pop_def)
qed (auto simp: heap_pop_def set_butlast_last)

lemma heap_del_heap: "is_heap f xs \<Longrightarrow> i < length xs \<Longrightarrow> is_heap f (heap_del f i xs)"
proof (cases "i = length xs - 1")
  case False
  assume h: "is_heap f xs" "i < length xs"
  let ?ys = "(butlast xs)[i := last xs]"
  have i: "i < length (butlast xs)" "butlast xs ! i = xs ! i"
    using False h by (auto simp: nth_butlast)
  note change = defect_change [OF is_heap_butlast [OF h(1)], of i ?ys f]
  have "f (last xs) < f (xs ! i) \<Longrightarrow> up_defect f i ?ys" "\<not> f (last xs) < f (xs ! i) \<Longrightarrow> down_defect f i ?ys"
    using change i by auto
  then show ?thesis
    using False by (simp add: heap_del_def heap_up_heap heap_down_heap)
qed (simp add: heap_del_def is_heap_butlast)

lemma heap_del_mset: "i < length xs \<Longrightarrow> mset (heap_del f i xs) = mset xs - {#xs ! i#}"
proof (cases "i = length xs - 1")
  case True
  then show "i < length xs \<Longrightarrow> ?thesis"
    by (cases xs rule: rev_cases) (auto simp: heap_del_def)
next
  case False
  moreover assume "i < length xs"
  ultimately have "xs \<noteq> []" "i < length xs - 1"
    by auto
  then show ?thesis
    using False by (simp add: heap_del_def set_butlast_last)
qed

text \<open>After the time of the element at \<open>i\<close> was changed.\<close>

lemma heap_fix_heap:
  assumes "is_heap f xs" "i < length xs" "\<And>j. j < length xs \<Longrightarrow> j \<noteq> i \<Longrightarrow> g (xs ! j) = f (xs ! j)"
  shows "is_heap g (heap_fix g i xs)"
proof -
  note change = defect_change [OF assms(1,2) refl assms(3)]
  have h: "f (xs ! (j div 2)) \<le> f (xs ! j)" if "j < length xs" "0 < j" for j
    using assms(1) that by (simp add: is_heap_def)
  consider "g (xs ! i) < g (xs ! (i div 2))"
    | "\<not> g (xs ! i) < g (xs ! (i div 2))" "2 * i < length xs" "g (xs ! min_child g i xs) < g (xs ! i)"
    | "\<not> g (xs ! i) < g (xs ! (i div 2))" "2 * i < length xs \<longrightarrow> \<not> g (xs ! min_child g i xs) < g (xs ! i)"
    by blast
  then show ?thesis
  proof cases
    case 1
    then have "0 < i" "i div 2 \<noteq> i" "i div 2 < length xs"
      using assms(2) by (cases i; auto)+
    then have "g (xs ! i) \<le> f (xs ! i)"
      using 1 h [OF assms(2)] assms(3) [of "i div 2"] by simp
    then show ?thesis
      using 1 change(1) by (simp add: heap_fix_def heap_up_heap)
  next
    case 2
    let ?c = "min_child g i xs"
    have ne: "?c \<noteq> i"
      using 2(3) by auto
    then have c: "?c < length xs" "?c \<noteq> i" "?c div 2 = i" "0 < ?c"
      using min_child_bounds [OF 2(2), of g] by (auto simp: min_child_def)
    then have "f (xs ! i) \<le> g (xs ! i)"
      using 2(3) h [OF c(1,4)] assms(3) [OF c(1,2)] by simp
    then show ?thesis
      using 2 change(2) by (simp add: heap_fix_def heap_down_heap)
  next
    case 3
    have "g (xs ! (j div 2)) \<le> g (xs ! j)" if j: "j < length xs" "0 < j" for j
    proof -
      consider "j = i" | "j \<noteq> i" "j div 2 = i" | "j \<noteq> i" "j div 2 \<noteq> i" by blast
      then show ?thesis
      proof cases
        case 2
        then have "2 * i < length xs" "j = 2 * i \<or> j = 2 * i + 1" using j by auto
        then show ?thesis
          using 3(2) 2 j by (auto simp: min_child_def split: if_splits)
      next
        case ji: 3
        have "j div 2 < length xs" using j by auto
        then show ?thesis
          using h [OF j] assms(3) [OF j(1) ji(1)] assms(3) [OF _ ji(2)] by simp
      qed (use 3 in auto)
    qed
    then show ?thesis
      using 3 by (auto simp: heap_fix_def is_heap_def)
  qed
qed

lemma heap_fix_mset: "i < length xs \<Longrightarrow> mset (heap_fix f i xs) = mset xs"
  by (simp add: heap_fix_def)

end
