(* ===== verification/Heap_Timer.thy ===== *)
theory Heap_Timer
  imports List_Timer Array_Heap
begin

text \<open>
  lib/heap_timer.hh: the timers in an array heap. The array is a list as long as its capacity; an
  access outside it, or through one of its null pointers, is undefined behaviour.
\<close>

record hp = clocked +
  h_slots :: "addr option list"
  h_size :: nat

definition timer_heap :: "clocked \<Rightarrow> hp" where
  "timer_heap w = clocked.extend w \<lparr>h_slots = replicate 5 None, h_size = 0\<rparr>"

section \<open>Operations\<close>

text \<open>\<open>slots[i]->expire\<close>, and the comparison of two of them; None for undefined behaviour.\<close>

definition slot_expire :: "hp \<Rightarrow> nat \<Rightarrow> int option" where
  "slot_expire w i =
     (if i < length (h_slots w)
      then (case h_slots w ! i of None \<Rightarrow> None | Some a \<Rightarrow> map_option tm_expire (c_heap w a))
      else None)"

definition slot_less :: "hp \<Rightarrow> nat \<Rightarrow> nat \<Rightarrow> bool option" where
  "slot_less w i j = (case slot_expire w i of None \<Rightarrow> None
     | Some x \<Rightarrow> (case slot_expire w j of None \<Rightarrow> None | Some y \<Rightarrow> Some (x < y)))"

definition swap_slots :: "nat \<Rightarrow> nat \<Rightarrow> hp \<Rightarrow> hp" where
  "swap_slots i j w = w\<lparr>h_slots := (h_slots w)[i := h_slots w ! j, j := h_slots w ! i]\<rparr>"

definition child_of :: "hp \<Rightarrow> nat \<Rightarrow> nat option" where
  "child_of w i =
     (if 2 * i + 1 < h_size w
      then map_option (\<lambda>right. if right then 2 * i + 1 else 2 * i) (slot_less w (2 * i + 1) (2 * i))
      else Some (2 * i))"

lemma slot_less_irrefl: "slot_less w i i \<noteq> Some True"
  by (auto simp: slot_less_def split: option.splits)

lemma child_of_ge: "child_of w i = Some c \<Longrightarrow> i \<le> c"
  by (auto simp: child_of_def split: if_splits)

lemma h_size_swap [simp]: "h_size (swap_slots i j w) = h_size w"
  by (simp add: swap_slots_def)

function percolate_down :: "nat \<Rightarrow> (hp, unit) prog" where
  "percolate_down i w =
     (if 2 * i < h_size w
      then (case child_of w i of
          None \<Rightarrow> Undef
        | Some c \<Rightarrow> (case slot_less w c i of
            None \<Rightarrow> Undef
          | Some smaller \<Rightarrow> if smaller then percolate_down c (swap_slots i c w) else Ret () w))
      else Ret () w)"
  by pat_completeness auto
termination
proof (relation "measure (\<lambda>(i, w). h_size w - i)", goal_cases)
  case (2 i w c smaller)
  then have "c \<noteq> i"
    using slot_less_irrefl [of w i] by auto
  then show ?case
    using 2 child_of_ge [of w i c] by auto
qed simp

function percolate_up :: "nat \<Rightarrow> (hp, unit) prog" where
  "percolate_up i w =
     (if 0 < i
      then (case slot_less w i (i div 2) of
          None \<Rightarrow> Undef
        | Some smaller \<Rightarrow> if smaller then percolate_up (i div 2) (swap_slots i (i div 2) w) else Ret () w)
      else Ret () w)"
  by pat_completeness auto
termination
  by (relation "measure (\<lambda>(i, w). i)") auto

declare percolate_down.simps [simp del] percolate_up.simps [simp del]

definition resize :: "hp \<Rightarrow> hp" where
  "resize w = w\<lparr>h_slots := take (h_size w) (h_slots w) @ replicate (2 * length (h_slots w) - h_size w) None\<rparr>"

text \<open>\<open>getIdx\<close>: the index of a timer, the size when it is not there.\<close>

definition getIdx :: "hp \<Rightarrow> addr \<Rightarrow> nat" where
  "getIdx w a = length (takeWhile (\<lambda>p. p \<noteq> Some a) (take (h_size w) (h_slots w)))"

definition hp_resetTimer :: "(hp, unit) prog" where
  "hp_resetTimer w =
     (if h_size w = 0 then sys_alarm 0 w
      else if h_slots w = [] then Undef
      else (case h_slots w ! 0 of None \<Rightarrow> Undef | Some a \<Rightarrow> reset_to (Some a) w))"

definition hp_add_timer :: "addr option \<Rightarrow> (hp, unit) prog" where
  "hp_add_timer bt =
     thenp block_alarm
     (thenp (modifyp (\<lambda>w. if h_size w = length (h_slots w) then resize w else w))
     (bindp (cast_timer Hp_Timer bt) (\<lambda>p.
       if p = None then retp ()
       else bindp (getsp h_size) (\<lambda>n.
         thenp (\<lambda>w. if n < length (h_slots w) then Ret () (w\<lparr>h_slots := (h_slots w)[n := p], h_size := n + 1\<rparr>) else Undef)
         (thenp (percolate_up n)
         (thenp hp_resetTimer unblock_alarm))))))"

definition hp_adjust_timer :: "addr option \<Rightarrow> (hp, unit) prog" where
  "hp_adjust_timer bt =
     bindp (cast_timer Hp_Timer bt) (\<lambda>p. case p of
       None \<Rightarrow> retp ()
     | Some a \<Rightarrow> bindp (getsp (\<lambda>w. getIdx w a)) (\<lambda>idx.
         bindp (getsp h_size) (\<lambda>n.
         if idx = n then retp ()
         else thenp (\<lambda>w. case slot_less w idx (idx div 2) of
               None \<Rightarrow> Undef
             | Some up \<Rightarrow>
                 if up then percolate_up idx w
                 else if 2 * idx < h_size w
                 then (case child_of w idx of None \<Rightarrow> Undef
                     | Some c \<Rightarrow> (case slot_less w c idx of None \<Rightarrow> Undef
                         | Some down \<Rightarrow> if down then percolate_down idx w else Ret () w))
                 else Ret () w)
           hp_resetTimer)))"

text \<open>
  A timer that is not in the heap ends \<open>del_timer\<close> while SIGALRM is blocked. The last timer takes
  the place of the deleted one; the place is null when it was the last itself.
\<close>

definition hp_del_timer :: "addr option \<Rightarrow> (hp, unit) prog" where
  "hp_del_timer bt =
     bindp (cast_timer Hp_Timer bt) (\<lambda>p.
     bindp (getsp h_size) (\<lambda>n. case p of
       None \<Rightarrow> retp ()
     | Some a \<Rightarrow>
         if n = 0 then retp ()
         else thenp block_alarm (bindp (getsp (\<lambda>w. getIdx w a)) (\<lambda>idx.
           if idx = n then retp ()
           else thenp (\<lambda>w. if n \<le> length (h_slots w)
               then Ret () (w\<lparr>h_slots := (h_slots w)[idx := h_slots w ! (n - 1), n - 1 := None], h_size := n - 1\<rparr>)
               else Undef)
             (thenp (\<lambda>w. case h_slots w ! idx of
                 None \<Rightarrow> Ret () w
               | Some _ \<Rightarrow> bindp (at (Some a)) (\<lambda>t w. case slot_expire w idx of
                   None \<Rightarrow> Undef
                 | Some e \<Rightarrow> if e < tm_expire t then percolate_up idx w else percolate_down idx w) w)
             (thenp hp_resetTimer unblock_alarm))))))"

text \<open>One turn of the loop of \<open>tick\<close>: the callback of the root, its deletion, the last one in its place.\<close>

definition hp_expire_root :: "addr \<Rightarrow> (hp, bool) prog" where
  "hp_expire_root a =
     thenp (callback a)
     (thenp (delete_timer (Some a))
     (bindp (getsp h_size) (\<lambda>n.
       if n = 1 then thenp (modifyp (\<lambda>w. w\<lparr>h_size := 0\<rparr>)) (retp False)
       else thenp (\<lambda>w. if n \<le> length (h_slots w)
               then Ret () (w\<lparr>h_slots := (h_slots w)[0 := h_slots w ! (n - 1), n - 1 := None], h_size := n - 1\<rparr>)
               else Undef)
         (thenp (percolate_down 0) (retp True)))))"

lemma percolate_down_size: "percolate_down i w = Ret u w' \<Longrightarrow> h_size w' = h_size w"
  by (induction i w rule: percolate_down.induct)
    (subst (asm) (2) percolate_down.simps, auto split: if_splits option.splits)

lemma hp_expire_root_size: "h_size w \<noteq> 0 \<Longrightarrow> hp_expire_root a w = Ret True w' \<Longrightarrow> h_size w' < h_size w"
  by (auto simp: hp_expire_root_def thenp_unfold bindp_unfold callback_def delete_timer_def
      dest!: percolate_down_size split: if_splits option.splits result.splits)

function hp_tick_loop :: "int \<Rightarrow> (hp, unit) prog" where
  "hp_tick_loop now w =
     (if h_size w = 0 then Ret () w
      else (case slot_expire w 0 of
          None \<Rightarrow> Undef
        | Some e \<Rightarrow>
            if e \<le> now
            then (case hp_expire_root (the (h_slots w ! 0)) w of
                Ret again w' \<Rightarrow> if again then hp_tick_loop now w' else Ret () w'
              | Exit k w' \<Rightarrow> Exit k w' | Undef \<Rightarrow> Undef)
            else Ret () w))"
  by pat_completeness auto
termination
  by (relation "measure (\<lambda>(now, w). h_size w)") (auto intro: hp_expire_root_size)

declare hp_tick_loop.simps [simp del]

definition hp_tick :: "(hp, unit) prog" where
  "hp_tick =
     bindp (getsp h_size) (\<lambda>n.
     if n = 0 then retp ()
     else bindp sys_time (\<lambda>now. thenp (hp_tick_loop now) hp_resetTimer))"

fun delete_all :: "addr option list \<Rightarrow> ('z clocked_scheme, unit) prog" where
  "delete_all [] = retp ()"
| "delete_all (p # ps) = thenp (delete_timer p) (delete_all ps)"

definition hp_destroy :: "(hp, unit) prog" where
  "hp_destroy = thenp (sys_alarm 0) (bindp (getsp (\<lambda>w. take (h_size w) (h_slots w))) delete_all)"

section \<open>The loops compute the functions on lists\<close>

definition hp_holds :: "hp \<Rightarrow> addr list \<Rightarrow> bool" where
  "hp_holds w xs \<longleftrightarrow> (\<exists>rest. h_slots w = map Some xs @ rest) \<and> h_size w = length xs \<and> h_slots w \<noteq> []
     \<and> distinct xs \<and> list_all (live Hp_Timer w) xs"

definition put_heap :: "addr list \<Rightarrow> hp \<Rightarrow> hp" where
  "put_heap xs w = w\<lparr>h_slots := map Some xs @ drop (length xs) (h_slots w)\<rparr>"

lemma put_heap_fields [simp]:
  "c_heap (put_heap xs w) = c_heap w" "c_fired (put_heap xs w) = c_fired w" "h_size (put_heap xs w) = h_size w"
  "c_blocked (put_heap xs w) = c_blocked w" "c_times (put_heap xs w) = c_times w" "c_now (put_heap xs w) = c_now w"
  "expire (put_heap xs w) = expire w" "live c (put_heap xs w) = live c w" "next_time (put_heap xs w) = next_time w"
  by (simp_all add: put_heap_def expire_def live_def fun_eq_iff next_time_def split: list.split)

lemma hp_holds_put:
  "hp_holds w xs \<Longrightarrow> mset ys = mset xs \<Longrightarrow> hp_holds (put_heap ys w) ys"
  using mset_eq_imp_distinct_iff [of ys xs] mset_eq_length [of ys xs] mset_eq_setD [of ys xs]
  by (auto simp: hp_holds_def put_heap_def list_all_iff live_def)

lemma put_heap_same: "hp_holds w xs \<Longrightarrow> put_heap xs w = w"
  by (auto simp: put_heap_def hp_holds_def)

lemma put_heap_put: "length ys = length xs \<Longrightarrow> put_heap xs (put_heap ys w) = put_heap xs w"
  by (simp add: put_heap_def)

lemma hp_nth: "hp_holds w xs \<Longrightarrow> i < length xs \<Longrightarrow> i < length (h_slots w) \<and> h_slots w ! i = Some (xs ! i)"
  by (auto simp: hp_holds_def nth_append)

lemma slot_expire_eq:
  assumes "hp_holds w xs" "i < length xs"
  shows "slot_expire w i = Some (expire w (xs ! i))"
proof -
  have "live Hp_Timer w (xs ! i)"
    using assms by (simp add: hp_holds_def list_all_length)
  then show ?thesis
    using hp_nth [OF assms] by (auto simp: slot_expire_def expire_def live_def split: option.splits)
qed

lemma slot_less_eq:
  "hp_holds w xs \<Longrightarrow> i < length xs \<Longrightarrow> j < length xs \<Longrightarrow>
     slot_less w i j = Some (expire w (xs ! i) < expire w (xs ! j))"
  by (simp add: slot_less_def slot_expire_eq)

lemma child_of_eq:
  "hp_holds w xs \<Longrightarrow> 2 * i < length xs \<Longrightarrow> child_of w i = Some (min_child (expire w) i xs)"
  using slot_less_eq [of w xs "2 * i + 1" "2 * i"]
  by (cases "2 * i + 1 < length xs") (simp_all add: child_of_def min_child_def, simp_all add: hp_holds_def)

lemma swap_slots_eq:
  assumes "hp_holds w xs" "i < length xs" "j < length xs"
  shows "swap_slots i j w = put_heap (swapped xs i j) w"
proof -
  obtain rest where r: "h_slots w = map Some xs @ rest"
    using assms(1) by (auto simp: hp_holds_def)
  show ?thesis
    using assms(2,3) by (simp add: swap_slots_def put_heap_def r swapped_def nth_append list_update_append map_update)
qed

lemma percolate_up_eq:
  "hp_holds w xs \<Longrightarrow> i < length xs \<Longrightarrow> percolate_up i w = Ret () (put_heap (heap_up (expire w) i xs) w)"
proof (induction "expire w" i xs arbitrary: w rule: heap_up.induct)
  case (1 i xs)
  show ?case
  proof (cases "0 < i \<and> expire w (xs ! i) < expire w (xs ! (i div 2))")
    case True
    let ?ys = "swapped xs i (i div 2)"
    have p: "i div 2 < length xs" using 1 by simp
    have h: "hp_holds (put_heap ?ys w) ?ys"
      using "1.prems" p by (intro hp_holds_put) auto
    have "percolate_up i w = percolate_up (i div 2) (put_heap ?ys w)"
      using "1.prems" True p by (subst percolate_up.simps) (simp add: slot_less_eq swap_slots_eq)
    also have "\<dots> = Ret () (put_heap (heap_up (expire w) (i div 2) ?ys) (put_heap ?ys w))"
      using "1.hyps" [OF True _ h] p by simp
    finally show ?thesis
      using True p by (subst heap_up.simps) (simp add: put_heap_put)
  next
    case False
    then show ?thesis
      using "1.prems" by (subst percolate_up.simps, subst heap_up.simps)
        (auto simp: slot_less_eq put_heap_same)
  qed
qed

lemma percolate_down_eq:
  "hp_holds w xs \<Longrightarrow> i < length xs \<Longrightarrow> percolate_down i w = Ret () (put_heap (heap_down (expire w) i xs) w)"
proof (induction "expire w" i xs arbitrary: w rule: heap_down.induct)
  case (1 i xs)
  let ?c = "min_child (expire w) i xs"
  have n: "h_size w = length xs"
    using "1.prems" by (simp add: hp_holds_def)
  show ?case
  proof (cases "2 * i < length xs \<and> expire w (xs ! ?c) < expire w (xs ! i)")
    case True
    let ?ys = "swapped xs i ?c"
    have c: "?c < length xs" using True min_child_bounds by blast
    have h: "hp_holds (put_heap ?ys w) ?ys"
      using "1.prems" c by (intro hp_holds_put) auto
    have "percolate_down i w = percolate_down ?c (put_heap ?ys w)"
      using "1.prems" True c n by (subst percolate_down.simps) (simp add: slot_less_eq swap_slots_eq child_of_eq)
    also have "\<dots> = Ret () (put_heap (heap_down (expire w) ?c ?ys) (put_heap ?ys w))"
      using "1.hyps" [OF True _ h] c by simp
    finally show ?thesis
      using True c by (subst heap_down.simps) (simp add: put_heap_put)
  next
    case False
    then show ?thesis
      using "1.prems" n min_child_bounds [of i xs "expire w"]
      by (subst percolate_down.simps, subst heap_down.simps)
        (auto simp: slot_less_eq child_of_eq put_heap_same)
  qed
qed

section \<open>Operations of the container\<close>

definition hp_repr :: "hp \<Rightarrow> addr list \<Rightarrow> bool" where
  "hp_repr w xs \<longleftrightarrow> hp_holds w xs \<and> is_heap (expire w) xs"

text \<open>The operations but \<open>tick\<close> leave the objects and the callbacks alone.\<close>

definition same_timers :: "hp \<Rightarrow> hp \<Rightarrow> bool" where
  "same_timers w w' \<longleftrightarrow> c_heap w' = c_heap w \<and> c_fired w' = c_fired w"

lemma same_timers_funs:
  "same_timers w w' \<Longrightarrow> expire w' = expire w \<and> live c w' = live c w"
  by (auto simp: same_timers_def expire_def live_def fun_eq_iff)

lemma hp_resetTimer_ok:
  assumes "hp_holds w xs"
  shows "\<exists>w'. hp_resetTimer w = Ret () w' \<and> hp_holds w' xs \<and> same_timers w w' \<and> c_blocked w' = c_blocked w"
proof (cases xs)
  case Nil
  then show ?thesis
    using assms by (auto simp: hp_holds_def hp_resetTimer_def sys_alarm_def same_timers_def list_all_iff live_def)
next
  case (Cons a as)
  then have a: "h_slots w ! 0 = Some a" "h_slots w \<noteq> []" "h_size w \<noteq> 0" "c_heap w a \<noteq> None"
    using assms by (auto simp: hp_holds_def live_def split: option.splits)
  obtain w' where w': "reset_to (Some a) w = Ret () w'" "c_heap w' = c_heap w" "c_fired w' = c_fired w"
      "c_blocked w' = c_blocked w" "clocked.more w' = clocked.more w"
    using reset_to_Ret [of "Some a" w] a(4) by auto
  have "h_slots w' = h_slots w" "h_size w' = h_size w"
    using w'(5) by (cases w; cases w'; simp)+
  moreover have "live Hp_Timer w' = live Hp_Timer w"
    using w'(2) by (simp add: live_def fun_eq_iff)
  ultimately have "hp_holds w' xs"
    using assms by (simp add: hp_holds_def)
  then show ?thesis
    using a w' by (auto simp: hp_resetTimer_def same_timers_def)
qed

lemma hp_add_ok:
  assumes "hp_repr w xs" "live Hp_Timer w a" "a \<notin> set xs"
  shows "\<exists>w'. hp_add_timer (Some a) w = Ret () w' \<and> hp_repr w' (heap_add (expire w) a xs)
    \<and> same_timers w w' \<and> \<not> c_blocked w'"
proof -
  obtain rest where r: "h_slots w = map Some xs @ rest" "h_size w = length xs" "h_slots w \<noteq> []" "distinct xs"
      "list_all (live Hp_Timer w) xs"
    using assms(1) by (auto simp: hp_repr_def hp_holds_def)
  define w1 where "w1 = w\<lparr>c_blocked := True\<rparr>"
  define w2 where "w2 = (if h_size w1 = length (h_slots w1) then resize w1 else w1)"
  define w3 where "w3 = w2\<lparr>h_slots := (h_slots w2)[length xs := Some a], h_size := length xs + 1\<rparr>"
  have w2: "\<exists>b rest. h_slots w2 = map Some xs @ b # rest" "h_size w2 = length xs" "same_timers w w2"
  proof -
    have "h_slots w2 = map Some xs @ (if rest = [] then replicate (length xs) None else rest)"
      using r by (auto simp: w2_def w1_def resize_def)
    moreover have "(if rest = [] then replicate (length xs) None else rest) \<noteq> []"
      using r by auto
    ultimately show "\<exists>b rest. h_slots w2 = map Some xs @ b # rest"
      by (metis list.exhaust)
    show "h_size w2 = length xs" "same_timers w w2"
      using r by (auto simp: w2_def w1_def resize_def same_timers_def)
  qed
  have w3: "hp_holds w3 (xs @ [a])" "same_timers w w3"
    using w2 r(4,5) assms(2,3)
    by (auto simp: w3_def hp_holds_def same_timers_def list_update_append live_def list_all_iff)
  have up: "percolate_up (length xs) w3 = Ret () (put_heap (heap_add (expire w) a xs) w3)"
    using percolate_up_eq [OF w3(1), of "length xs"] same_timers_funs [OF w3(2)] by (simp add: heap_add_def)
  have h4: "hp_holds (put_heap (heap_add (expire w) a xs) w3) (heap_add (expire w) a xs)"
    using w3(1) by (rule hp_holds_put) (simp add: heap_add_mset)
  obtain w5 where w5: "hp_resetTimer (put_heap (heap_add (expire w) a xs) w3) = Ret () w5"
      "hp_holds w5 (heap_add (expire w) a xs)" "same_timers (put_heap (heap_add (expire w) a xs) w3) w5"
    using hp_resetTimer_ok [OF h4] by blast
  have "cast_timer Hp_Timer (Some a) w2 = Ret (Some a) w2"
    using assms(2) w2(3) by (auto simp: cast_timer_def live_def same_timers_def split: option.splits)
  then have run: "hp_add_timer (Some a) w = Ret () (w5\<lparr>c_blocked := False\<rparr>)"
    using w2(1,2) up w5(1)
    by (auto simp: hp_add_timer_def thenp_unfold bindp_unfold block_alarm_def unblock_alarm_def
        w1_def [symmetric] w2_def [symmetric] w3_def [symmetric] simp del: One_nat_def)
  have same: "same_timers w (w5\<lparr>c_blocked := False\<rparr>)"
    using w3(2) w5(3) by (simp add: same_timers_def)
  moreover have "hp_holds (w5\<lparr>c_blocked := False\<rparr>) (heap_add (expire w) a xs)"
    using w5(2) by (simp add: hp_holds_def list_all_iff live_def)
  moreover have "is_heap (expire w) (heap_add (expire w) a xs)"
    using assms(1) by (simp add: hp_repr_def heap_add_heap)
  ultimately show ?thesis
    using run same_timers_funs [OF same] by (auto simp: hp_repr_def)
qed

lemma getIdx_eq:
  assumes "hp_holds w xs"
  shows "getIdx w a = length (takeWhile (\<lambda>x. x \<noteq> a) xs)"
proof -
  have "takeWhile (\<lambda>p. p \<noteq> Some a) (map Some xs) = map Some (takeWhile (\<lambda>x. x \<noteq> a) xs)"
    by (induction xs) auto
  then show ?thesis
    using assms by (auto simp: getIdx_def hp_holds_def)
qed

lemma takeWhile_neq: "x \<notin> set us \<Longrightarrow> takeWhile (\<lambda>y. y \<noteq> x) (us @ x # vs) = us"
  by (induction us) auto

lemma getIdx_found: "hp_holds w xs \<Longrightarrow> i < length xs \<Longrightarrow> getIdx w (xs ! i) = i"
proof -
  assume h: "hp_holds w xs" and i: "i < length xs"
  have "xs = take i xs @ xs ! i # drop (Suc i) xs"
    using i by (rule id_take_nth_drop)
  moreover have "xs ! i \<notin> set (take i xs)"
    using h i by (auto simp: hp_holds_def in_set_conv_nth nth_eq_iff_index_eq)
  ultimately have "takeWhile (\<lambda>x. x \<noteq> xs ! i) xs = take i xs"
    using takeWhile_neq [of "xs ! i" "take i xs" "drop (Suc i) xs"] by simp
  then show ?thesis
    using getIdx_eq [OF h] i by simp
qed

text \<open>The last timer takes the place \<open>i\<close>; what is behind the end is null.\<close>

lemma hp_take_last:
  assumes "hp_holds w (us @ [l])" "i < length us"
  shows "hp_holds (w\<lparr>h_slots := (h_slots w)[i := h_slots w ! length us, length us := None], h_size := length us\<rparr>)
    (us[i := l])"
proof -
  obtain rest where r: "h_slots w = map Some (us @ [l]) @ rest" "distinct (us @ [l])" "list_all (live Hp_Timer w) (us @ [l])"
    using assms(1) by (auto simp: hp_holds_def)
  have "(h_slots w)[i := h_slots w ! length us, length us := None] = map Some (us[i := l]) @ None # rest"
    using assms(2) by (simp add: r(1) nth_append list_update_append map_update)
  moreover have "distinct (us[i := l])"
    using r(2) by (simp add: distinct_list_update)
  moreover have "list_all (live Hp_Timer w) (us[i := l])"
    using r(3) set_update_subset_insert [of us i l] by (simp add: list_all_iff) blast
  ultimately show ?thesis
    by (simp add: hp_holds_def live_def list_all_iff)
qed

lemma hp_drop_last:
  assumes "hp_holds w (us @ [l])"
  shows "hp_holds (w\<lparr>h_slots := (h_slots w)[length us := h_slots w ! length us, length us := None], h_size := length us\<rparr>) us"
  using assms by (auto simp: hp_holds_def list_update_append live_def list_all_iff)

lemma hp_del_ok:
  assumes "hp_repr w xs" "i < length xs"
  shows "\<exists>w'. hp_del_timer (Some (xs ! i)) w = Ret () w' \<and> hp_repr w' (heap_del (expire w) i xs)
    \<and> same_timers w w' \<and> \<not> c_blocked w'"
proof -
  let ?n = "length xs" and ?a = "xs ! i"
  have h: "hp_holds w xs"
    using assms(1) by (simp add: hp_repr_def)
  have n: "h_size w = ?n" "?n \<le> length (h_slots w)"
    using h by (auto simp: hp_holds_def)
  have live: "live Hp_Timer w ?a"
    using h assms(2) by (simp add: hp_holds_def list_all_length)
  then obtain t where t: "c_heap w ?a = Some t" "tm_class t = Hp_Timer" "tm_expire t = expire w ?a"
    by (auto simp: live_def expire_def split: option.splits)
  define w1 where "w1 = w\<lparr>c_blocked := True\<rparr>"
  define w2 where "w2 = w1\<lparr>h_slots := (h_slots w1)[i := h_slots w1 ! (?n - 1), ?n - 1 := None], h_size := ?n - 1\<rparr>"
  have h1: "hp_holds w1 xs"
    using h by (simp add: w1_def hp_holds_def live_def list_all_iff)
  have n1: "?n \<le> length (h_slots w1)"
    using n by (simp add: w1_def)
  have s2: "same_timers w w2"
    by (simp add: w2_def w1_def same_timers_def)
  have idx: "getIdx w1 ?a = i"
    by (rule getIdx_found [OF h1 assms(2)])
  have sift: "\<exists>w3. (case h_slots w2 ! i of None \<Rightarrow> Ret () w2
      | Some _ \<Rightarrow> bindp (at (Some ?a)) (\<lambda>t w. case slot_expire w i of
          None \<Rightarrow> Undef
        | Some e \<Rightarrow> if e < tm_expire t then percolate_up i w else percolate_down i w) w2) = Ret () w3
      \<and> hp_holds w3 (heap_del (expire w) i xs) \<and> same_timers w w3"
  proof (cases "i = ?n - 1")
    case True
    then obtain us where us: "xs = us @ [?a]"
      using assms(2) by (cases xs rule: rev_cases) auto
    then have "hp_holds w2 us"
      using hp_drop_last [of w1 us ?a] h1 True unfolding w2_def by (metis diff_add_inverse2 length_append_singleton Suc_eq_plus1)
    moreover have "h_slots w2 ! i = None"
      using True assms(2) n by (simp add: w2_def w1_def)
    moreover have "heap_del (expire w) i xs = us"
      using True us by (simp add: heap_del_def) (metis butlast_snoc)
    ultimately show ?thesis
      using s2 by auto
  next
    case False
    let ?ys = "(butlast xs)[i := last xs]"
    have ne: "xs \<noteq> []" "i < length (butlast xs)"
      using assms(2) False by auto
    then have h2: "hp_holds w2 ?ys"
      using hp_take_last [of w1 "butlast xs" "last xs" i] h1 by (simp add: w2_def)
    have i: "i < length ?ys" "?ys ! i = last xs"
      using assms(2) False by auto
    note funs = same_timers_funs [OF s2]
    have at: "at (Some ?a) w2 = Ret t w2"
      using t(1) s2 by (simp add: at_def same_timers_def)
    have "slot_expire w2 i = Some (expire w (last xs))" "h_slots w2 ! i = Some (last xs)"
      using slot_expire_eq [OF h2 i(1)] hp_nth [OF h2 i(1)] i(2) funs by auto
    moreover have "mset (heap_up (expire w) i ?ys) = mset ?ys" "mset (heap_down (expire w) i ?ys) = mset ?ys"
      using i(1) by simp_all
    then have "hp_holds (put_heap (heap_up (expire w) i ?ys) w2) (heap_up (expire w) i ?ys)"
      "hp_holds (put_heap (heap_down (expire w) i ?ys) w2) (heap_down (expire w) i ?ys)"
      using hp_holds_put [OF h2] by blast+
    ultimately show ?thesis
      using False at percolate_up_eq [OF h2 i(1)] percolate_down_eq [OF h2 i(1)] funs s2 t(3)
      by (auto simp: bindp_unfold heap_del_def same_timers_def)
  qed
  then obtain w3 where w3: "(case h_slots w2 ! i of None \<Rightarrow> Ret () w2
      | Some _ \<Rightarrow> bindp (at (Some ?a)) (\<lambda>t w. case slot_expire w i of
          None \<Rightarrow> Undef
        | Some e \<Rightarrow> if e < tm_expire t then percolate_up i w else percolate_down i w) w2) = Ret () w3"
      "hp_holds w3 (heap_del (expire w) i xs)" "same_timers w w3" by blast
  obtain w4 where w4: "hp_resetTimer w3 = Ret () w4" "hp_holds w4 (heap_del (expire w) i xs)" "same_timers w3 w4"
    using hp_resetTimer_ok [OF w3(2)] by blast
  have run: "hp_del_timer (Some ?a) w = Ret () (w4\<lparr>c_blocked := False\<rparr>)"
    using t n n1 assms(2) idx w3(1) w4(1)
    by (auto simp: hp_del_timer_def thenp_unfold bindp_unfold [of "cast_timer _ _"] bindp_unfold [of "getsp _"]
        cast_timer_def block_alarm_def unblock_alarm_def w1_def [symmetric] w2_def [symmetric] simp del: One_nat_def)
  have same: "same_timers w (w4\<lparr>c_blocked := False\<rparr>)"
    using w3(3) w4(3) by (simp add: same_timers_def)
  moreover have "hp_holds (w4\<lparr>c_blocked := False\<rparr>) (heap_del (expire w) i xs)"
    using w4(2) by (simp add: hp_holds_def list_all_iff live_def)
  moreover have "is_heap (expire w) (heap_del (expire w) i xs)"
    using assms by (simp add: hp_repr_def heap_del_heap)
  ultimately show ?thesis
    using run same_timers_funs [OF same] by (auto simp: hp_repr_def)
qed

lemma hp_set_expire:
  assumes "hp_repr w xs" "i < length xs"
  shows "\<exists>v. set_expire (xs ! i) e w = Ret () v \<and> hp_holds v xs \<and> expire v = (expire w)(xs ! i := e)
    \<and> c_fired v = c_fired w \<and> live Hp_Timer v = live Hp_Timer w"
proof -
  have h: "hp_holds w xs"
    using assms(1) by (simp add: hp_repr_def)
  have "live Hp_Timer w (xs ! i)"
    using h assms(2) by (simp add: hp_holds_def list_all_length)
  then obtain t where t: "c_heap w (xs ! i) = Some t" "tm_class t = Hp_Timer"
    by (auto simp: live_def split: option.splits)
  let ?v = "w\<lparr>c_heap := (c_heap w)(xs ! i \<mapsto> t\<lparr>tm_expire := e\<rparr>)\<rparr>"
  have live: "live Hp_Timer ?v = live Hp_Timer w"
    using t by (auto simp: live_def fun_eq_iff)
  have "set_expire (xs ! i) e w = Ret () ?v"
    using t by (simp add: set_expire_def upd_def)
  moreover have "hp_holds ?v xs"
    using h live by (simp add: hp_holds_def)
  moreover have "expire ?v = (expire w)(xs ! i := e)"
    by (auto simp: expire_def fun_eq_iff)
  ultimately show ?thesis
    using live by (intro exI [of _ ?v]) simp
qed

text \<open>\<open>adjust_timer\<close> in a heap whose order is broken at one place.\<close>

lemma hp_adjust_ok:
  assumes h: "hp_holds w xs" and i: "i < length xs"
  shows "\<exists>w'. hp_adjust_timer (Some (xs ! i)) w = Ret () w' \<and> hp_holds w' (heap_fix (expire w) i xs) \<and> same_timers w w'"
proof -
  have n: "h_size w = length xs"
    using h by (simp add: hp_holds_def)
  have "live Hp_Timer w (xs ! i)"
    using h i by (simp add: hp_holds_def list_all_length)
  then have cast: "cast_timer Hp_Timer (Some (xs ! i)) w = Ret (Some (xs ! i)) w"
    by (auto simp: cast_timer_def live_def split: option.splits)
  have sift: "(case slot_less w i (i div 2) of
        None \<Rightarrow> Undef
      | Some up \<Rightarrow> if up then percolate_up i w
          else if 2 * i < h_size w
          then (case child_of w i of None \<Rightarrow> Undef
              | Some c \<Rightarrow> (case slot_less w c i of None \<Rightarrow> Undef
                  | Some down \<Rightarrow> if down then percolate_down i w else Ret () w))
          else Ret () w) = Ret () (put_heap (heap_fix (expire w) i xs) w)"
    using h i n min_child_bounds [of i xs "expire w"]
    by (auto simp: heap_fix_def slot_less_eq child_of_eq percolate_up_eq percolate_down_eq put_heap_same)
  have "hp_holds (put_heap (heap_fix (expire w) i xs) w) (heap_fix (expire w) i xs)"
    using h by (rule hp_holds_put) (simp add: heap_fix_mset i)
  then obtain w' where "hp_resetTimer (put_heap (heap_fix (expire w) i xs) w) = Ret () w'"
      "hp_holds w' (heap_fix (expire w) i xs)" "same_timers (put_heap (heap_fix (expire w) i xs) w) w'"
    using hp_resetTimer_ok by blast
  then show ?thesis
    using cast sift i n getIdx_found [OF h i]
    by (simp add: hp_adjust_timer_def bindp_unfold thenp_unfold same_timers_def)
qed

section \<open>Tick\<close>

lemma hp_expire_root_ok:
  assumes h: "hp_holds w xs" and xs: "xs \<noteq> []"
  shows "\<exists>w'. hp_expire_root (xs ! 0) w = Ret (length xs \<noteq> 1) w' \<and> c_fired w' = c_fired w @ [xs ! 0]
    \<and> (\<forall>b. b \<noteq> xs ! 0 \<longrightarrow> c_heap w' b = c_heap w b) \<and> hp_holds w' (heap_pop (expire w') xs)"
proof -
  let ?a = "xs ! 0" and ?n = "length xs"
  have n: "h_size w = ?n" "?n \<le> length (h_slots w)"
    using h by (auto simp: hp_holds_def)
  have "live Hp_Timer w ?a"
    using h xs by (simp add: hp_holds_def list_all_length)
  then obtain t where t: "c_heap w ?a = Some t"
    by (auto simp: live_def split: option.splits)
  define w1 where "w1 = w\<lparr>c_fired := c_fired w @ [?a], c_heap := (c_heap w)(?a := None)\<rparr>"
  have first: "thenp (callback ?a) (thenp (delete_timer (Some ?a)) f) w = f w1" for f :: "(hp, bool) prog"
    using t by (simp add: thenp_unfold callback_def delete_timer_def w1_def)
  show ?thesis
  proof (cases "?n = 1")
    case True
    then have "hp_holds (w1\<lparr>h_size := 0\<rparr>) []"
      using h by (auto simp: hp_holds_def w1_def)
    moreover have "hp_expire_root ?a w = Ret False (w1\<lparr>h_size := 0\<rparr>)"
      unfolding hp_expire_root_def first using True n by (simp add: bindp_unfold thenp_unfold w1_def)
    ultimately show ?thesis
      using True by (simp add: heap_pop_def) (simp add: w1_def)
  next
    case False
    then obtain us l where us: "xs = us @ [l]" "us \<noteq> []"
      using xs by (cases xs rule: rev_cases) auto
    define w2 where "w2 = w1\<lparr>h_slots := (h_slots w1)[0 := h_slots w1 ! (?n - 1), ?n - 1 := None], h_size := ?n - 1\<rparr>"
    let ?ys = "us[0 := l]"
    have "hp_holds (w\<lparr>h_slots := (h_slots w)[0 := h_slots w ! length us, length us := None], h_size := length us\<rparr>) ?ys"
      using hp_take_last [of w us l 0] h us by simp
    moreover have "?a \<notin> set ?ys"
    proof -
      have "distinct (us @ [l])" using h us(1) by (simp add: hp_holds_def)
      then show ?thesis using us by (cases us) auto
    qed
    ultimately have h2: "hp_holds w2 ?ys"
      using us(1) by (auto simp: w2_def w1_def hp_holds_def live_def list_all_iff)
    have pop: "heap_pop (expire w2) xs = heap_down (expire w2) 0 ?ys"
      using us by (cases us) (simp_all add: heap_pop_def)
    have down: "percolate_down 0 w2 = Ret () (put_heap (heap_pop (expire w2) xs) w2)"
      using percolate_down_eq [OF h2, of 0] us(2) pop by simp
    have "hp_holds (put_heap (heap_pop (expire w2) xs) w2) (heap_pop (expire w2) xs)"
      using us(2) pop by (intro hp_holds_put [OF h2]) simp
    moreover have "hp_expire_root ?a w = Ret True (put_heap (heap_pop (expire w2) xs) w2)"
      unfolding hp_expire_root_def first using False n down us
      by (simp add: bindp_unfold thenp_unfold w2_def w1_def)
    ultimately show ?thesis
      using False by (auto simp: w2_def w1_def)
  qed
qed

lemma set_minus_one:
  assumes "distinct xs" "mset ys = mset xs - {#x#}"
  shows "set ys = set xs - {x}"
proof -
  have "set_mset (mset ys) = set_mset (mset xs - {#x#})"
    using assms(2) by (rule arg_cong)
  also have "\<dots> = set xs - {x}"
    using assms(1) set_mset_mset [of "remove1 x xs"] by (simp add: set_remove1_eq)
  finally show ?thesis by simp
qed

lemma hp_tick_loop_ok:
  assumes "hp_repr w xs"
  shows "\<exists>w' ys zs. hp_tick_loop now w = Ret () w' \<and> c_fired w' = c_fired w @ ys \<and> hp_repr w' zs
    \<and> set ys = {a \<in> set xs. expire w a \<le> now} \<and> distinct ys \<and> sorted (map (expire w) ys)
    \<and> set zs = set xs - set ys"
  using assms
proof (induction "length xs" arbitrary: w xs rule: less_induct)
  case less
  have h: "hp_holds w xs" and heap: "is_heap (expire w) xs"
    using less.prems by (simp_all add: hp_repr_def)
  have n: "h_size w = length xs"
    using h by (simp add: hp_holds_def)
  show ?case
  proof (cases "xs \<noteq> [] \<and> expire w (xs ! 0) \<le> now")
    case False
    have "\<not> expire w a \<le> now" if a: "a \<in> set xs" for a
    proof -
      obtain i where i: "i < length xs" "xs ! i = a"
        using a unfolding in_set_conv_nth by blast
      have "xs \<noteq> []" using i(1) by (cases xs) simp_all
      then have "\<not> expire w (xs ! 0) \<le> now" using False by simp
      then show ?thesis
        using is_heap_le_root [OF heap i(1)] i(2) by simp
    qed
    then have "{a \<in> set xs. expire w a \<le> now} = {}" by blast
    moreover have "hp_tick_loop now w = Ret () w"
      using False n slot_expire_eq [OF h, of 0] by (subst hp_tick_loop.simps) auto
    ultimately show ?thesis
      using less.prems by (intro exI [of _ w] exI [of _ "[]"] exI [of _ xs]) simp
  next
    case True
    let ?a = "xs ! 0"
    obtain w1 where w1: "hp_expire_root ?a w = Ret (length xs \<noteq> 1) w1" "c_fired w1 = c_fired w @ [?a]"
        "\<forall>b. b \<noteq> ?a \<longrightarrow> c_heap w1 b = c_heap w b" "hp_holds w1 (heap_pop (expire w1) xs)"
      using hp_expire_root_ok [OF h] True by blast
    have dist: "distinct xs"
      using h by (simp add: hp_holds_def)
    let ?zs = "heap_pop (expire w1) xs"
    have mset: "mset ?zs = mset xs - {#?a#}"
      using True by (simp add: heap_pop_mset)
    have zs: "set ?zs = set xs - {?a}"
      using set_minus_one [OF dist mset] .
    have same: "expire w1 b = expire w b" if "b \<noteq> ?a" for b
      using w1(3) that by (simp add: expire_def)
    have "hp_repr w1 ?zs"
    proof -
      have "is_heap (expire w1) ?zs"
      proof (rule heap_pop_heap [OF heap])
        fix x assume "x \<in> set (tl xs)"
        then have "x \<noteq> ?a" using dist True by (cases xs) auto
        then show "expire w1 x = expire w x" by (rule same)
      qed
      then show ?thesis using w1(4) by (simp add: hp_repr_def)
    qed
    moreover have "length ?zs < length xs"
      using mset True by (metis length_greater_0_conv mset_eq_length nth_mem set_mset_mset size_Diff1_less size_mset)
    ultimately obtain w' ys zs where IH: "hp_tick_loop now w1 = Ret () w'" "c_fired w' = c_fired w1 @ ys" "hp_repr w' zs"
        "set ys = {a \<in> set ?zs. expire w1 a \<le> now}" "distinct ys" "sorted (map (expire w1) ys)" "set zs = set ?zs - set ys"
      using less.hyps [of ?zs w1] by blast
    have again: "hp_tick_loop now w = Ret () w'"
    proof (cases "length xs = 1")
      case one: True
      then have "h_size w1 = 0"
        using w1(4) by (auto simp: hp_holds_def heap_pop_def)
      then have "hp_tick_loop now w1 = Ret () w1"
        by (subst hp_tick_loop.simps) simp
      then show ?thesis
        using IH(1) one True n w1(1) slot_expire_eq [OF h, of 0] hp_nth [OF h, of 0]
        by (subst hp_tick_loop.simps) auto
    next
      case False
      then show ?thesis
        using IH(1) True n w1(1) slot_expire_eq [OF h, of 0] hp_nth [OF h, of 0]
        by (subst hp_tick_loop.simps) auto
    qed
    have ys: "set ys \<subseteq> set xs - {?a}" "map (expire w1) ys = map (expire w) ys"
      using IH(4) zs same by auto
    have "set (?a # ys) = {a \<in> set xs. expire w a \<le> now}"
      using IH(4) zs same True by auto
    moreover have "sorted (map (expire w) (?a # ys))"
    proof -
      have "expire w ?a \<le> expire w b" if "b \<in> set ys" for b
      proof -
        have "b \<in> set xs" using that ys(1) by blast
        then obtain j where "j < length xs" "xs ! j = b"
          unfolding in_set_conv_nth by blast
        then show ?thesis using is_heap_le_root [OF heap, of j] by simp
      qed
      then show ?thesis using IH(6) ys(2) by simp
    qed
    moreover have "distinct (?a # ys)" "set zs = set xs - set (?a # ys)"
      using IH(5,7) ys(1) zs by auto
    ultimately show ?thesis
      using again IH(2,3) w1(2) by (intro exI [of _ w'] exI [of _ "?a # ys"] exI [of _ zs]) simp
  qed
qed

lemma hp_tick_ok:
  assumes "hp_repr w xs"
  shows "\<exists>w' ys zs. hp_tick w = Ret () w' \<and> c_fired w' = c_fired w @ ys \<and> hp_repr w' zs
    \<and> set ys = {a \<in> set xs. expire w a \<le> next_time w} \<and> distinct ys \<and> sorted (map (expire w) ys)
    \<and> set zs = set xs - set ys"
proof (cases "h_size w = 0")
  case True
  then have "xs = []"
    using assms by (simp add: hp_repr_def hp_holds_def)
  then show ?thesis
    using True assms by (intro exI [of _ w] exI [of _ "[]"]) (simp add: hp_tick_def bindp_unfold)
next
  case False
  let ?v = "after_time w"
  have same: "expire ?v = expire w" "live Hp_Timer ?v = live Hp_Timer w" "h_slots ?v = h_slots w" "h_size ?v = h_size w"
    by (simp_all add: after_time_def expire_def live_def fun_eq_iff split: list.split)
  then have "hp_repr ?v xs"
    using assms by (simp add: hp_repr_def hp_holds_def)
  from hp_tick_loop_ok [OF this, of "next_time w"] obtain w1 ys zs where
    w1: "hp_tick_loop (next_time w) ?v = Ret () w1" "c_fired w1 = c_fired w @ ys" "hp_repr w1 zs"
      "set ys = {a \<in> set xs. expire w a \<le> next_time w}" "distinct ys" "sorted (map (expire w) ys)" "set zs = set xs - set ys"
    using same by auto
  then obtain w2 where w2: "hp_resetTimer w1 = Ret () w2" "hp_holds w2 zs" "same_timers w1 w2"
    using hp_resetTimer_ok unfolding hp_repr_def by blast
  then have "hp_repr w2 zs" "c_fired w2 = c_fired w1"
    using w1(3) same_timers_funs [OF w2(3)] by (simp_all add: hp_repr_def same_timers_def)
  then show ?thesis
    using False w1 w2(1) by (intro exI [of _ w2] exI [of _ ys] exI [of _ zs]) (simp add: hp_tick_def bindp_unfold thenp_unfold)
qed

interpretation ht: timer_container "\<lambda>w S. \<exists>xs. hp_repr w xs \<and> set xs = S" "live Hp_Timer" "\<lambda>a. hp_add_timer (Some a)" hp_tick
proof
  fix w :: hp and S a
  assume "\<exists>xs. hp_repr w xs \<and> set xs = S" "live Hp_Timer w a" "a \<notin> S"
  then obtain xs w' where xs: "hp_repr w xs" "set xs = S" "hp_add_timer (Some a) w = Ret () w'"
      "hp_repr w' (heap_add (expire w) a xs)" "same_timers w w'"
    using hp_add_ok by metis
  have "set (heap_add (expire w) a xs) = insert a S"
    using heap_add_mset [of "expire w" a xs] xs(2) by (metis set_mset_add_mset_insert set_mset_mset)
  then show "\<exists>w'. hp_add_timer (Some a) w = Ret () w' \<and> (\<exists>xs. hp_repr w' xs \<and> set xs = insert a S)
      \<and> expire w' = expire w \<and> c_fired w' = c_fired w
      \<and> (\<forall>b. live Hp_Timer w b \<and> b \<noteq> a \<and> b \<notin> S \<longrightarrow> live Hp_Timer w' b)"
    using xs same_timers_funs [OF xs(5)] by (auto simp: same_timers_def)
next
  fix w :: hp and S
  assume "\<exists>xs. hp_repr w xs \<and> set xs = S"
  then obtain xs where xs: "hp_repr w xs" "set xs = S" by blast
  show "\<exists>w' xs. hp_tick w = Ret () w' \<and> c_fired w' = c_fired w @ xs \<and> set xs = {a \<in> S. expire w a \<le> next_time w}
      \<and> distinct xs \<and> sorted (map (expire w) xs) \<and> (\<exists>zs. hp_repr w' zs \<and> set zs = S - set xs)"
    using hp_tick_ok [OF xs(1)] unfolding xs(2) by blast
qed

section \<open>Properties\<close>

text \<open>
  C8: every operation of the time heap keeps the heap order and the timers it should: adding a
  timer, deleting one, changing the time of one and adjusting it, and a tick, which runs the
  callbacks of exactly the timers that have expired, in the order of their times. No access
  leaves the array and no null pointer is used.
\<close>

theorem hp_operations:
  assumes "hp_repr w xs"
  shows "(live Hp_Timer w a \<and> a \<notin> set xs \<longrightarrow>
      (\<exists>w' ys. hp_add_timer (Some a) w = Ret () w' \<and> hp_repr w' ys \<and> set ys = insert a (set xs) \<and> \<not> c_blocked w'))
    \<and> (a \<in> set xs \<longrightarrow>
      (\<exists>w' ys. hp_del_timer (Some a) w = Ret () w' \<and> hp_repr w' ys \<and> set ys = set xs - {a} \<and> \<not> c_blocked w')
      \<and> (\<exists>v w' ys. set_expire a e w = Ret () v \<and> hp_adjust_timer (Some a) v = Ret () w' \<and> hp_repr w' ys \<and> set ys = set xs
           \<and> expire w' = (expire w)(a := e)))
    \<and> (\<exists>w' ys zs. hp_tick w = Ret () w' \<and> c_fired w' = c_fired w @ ys \<and> hp_repr w' zs
      \<and> set ys = {b \<in> set xs. expire w b \<le> next_time w} \<and> sorted (map (expire w) ys) \<and> set zs = set xs - set ys)"
proof (intro conjI impI)
  have h: "hp_holds w xs" "distinct xs" "is_heap (expire w) xs"
    using assms by (auto simp: hp_repr_def hp_holds_def)
  show "\<exists>w' ys. hp_add_timer (Some a) w = Ret () w' \<and> hp_repr w' ys \<and> set ys = insert a (set xs) \<and> \<not> c_blocked w'"
    if "live Hp_Timer w a \<and> a \<notin> set xs"
    using hp_add_ok [OF assms, of a] that heap_add_mset [of "expire w" a xs]
    by (metis set_mset_add_mset_insert set_mset_mset)
  show "\<exists>w' ys. hp_del_timer (Some a) w = Ret () w' \<and> hp_repr w' ys \<and> set ys = set xs - {a} \<and> \<not> c_blocked w'"
    if a: "a \<in> set xs"
  proof -
    obtain i where i: "i < length xs" "xs ! i = a"
      using a unfolding in_set_conv_nth by blast
    have "set (heap_del (expire w) i xs) = set xs - {a}"
      using set_minus_one [OF h(2) heap_del_mset [OF i(1)]] i(2) by simp
    then show ?thesis
      using hp_del_ok [OF assms i(1)] i(2) by blast
  qed
  show "\<exists>v w' ys. set_expire a e w = Ret () v \<and> hp_adjust_timer (Some a) v = Ret () w' \<and> hp_repr w' ys \<and> set ys = set xs
      \<and> expire w' = (expire w)(a := e)"
    if a: "a \<in> set xs"
  proof -
    obtain i where i: "i < length xs" "xs ! i = a"
      using a unfolding in_set_conv_nth by blast
    obtain v where v: "set_expire a e w = Ret () v" "hp_holds v xs" "expire v = (expire w)(a := e)"
      using hp_set_expire [OF assms i(1), of e] i(2) by auto
    obtain w' where w': "hp_adjust_timer (Some a) v = Ret () w'" "hp_holds w' (heap_fix (expire v) i xs)" "same_timers v w'"
      using hp_adjust_ok [OF v(2) i(1)] i(2) by auto
    have "is_heap (expire v) (heap_fix (expire v) i xs)"
      using nth_eq_iff_index_eq [OF h(2) _ i(1)] i(2) by (intro heap_fix_heap [OF h(3) i(1)]) (auto simp: v(3))
    moreover have "set (heap_fix (expire v) i xs) = set xs"
      using heap_fix_mset [OF i(1), of "expire v"] by (metis set_mset_mset)
    ultimately show ?thesis
      using v w' same_timers_funs [OF w'(3)] by (auto simp: hp_repr_def)
  qed
  show "\<exists>w' ys zs. hp_tick w = Ret () w' \<and> c_fired w' = c_fired w @ ys \<and> hp_repr w' zs
      \<and> set ys = {b \<in> set xs. expire w b \<le> next_time w} \<and> sorted (map (expire w) ys) \<and> set zs = set xs - set ys"
    using hp_tick_ok [OF assms] by blast
qed

text \<open>
  C4: the sorted list and the time heap are interchangeable: the same timers added to both,
  in whatever orders, and a tick at the same time run the same callbacks, at the same
  times one after the other.
\<close>

theorem timers_agree:
  assumes "lst_repr wl []" "hp_repr wh []" "list_all (lst_fresh wl) as" "list_all (live Hp_Timer wh) bs"
    and "distinct as" "mset bs = mset as" "\<forall>a \<in> set as. expire wl a = expire wh a"
    and "lt.add_all as wl = Ret () vl" "ht.add_all bs wh = Ret () vh" "next_time vl = next_time vh"
  shows "\<exists>wl' wh' xs ys. lst_tick vl = Ret () wl' \<and> hp_tick vh = Ret () wh'
    \<and> c_fired wl' = c_fired wl @ xs \<and> c_fired wh' = c_fired wh @ ys
    \<and> mset xs = mset ys \<and> map (expire wl) xs = map (expire wh) ys"
proof -
  have set: "set bs = set as" "distinct bs"
    using assms(5,6) mset_eq_setD mset_eq_imp_distinct_iff by metis+
  obtain wl' xs where l: "lst_tick vl = Ret () wl'" "c_fired wl' = c_fired wl @ xs"
      "set xs = {a \<in> set as. expire wl a \<le> next_time vl}" "distinct xs" "sorted (map (expire wl) xs)"
    using lt.run [of wl as] assms(1,3,5,8) by auto
  obtain wh' ys where h: "hp_tick vh = Ret () wh'" "c_fired wh' = c_fired wh @ ys"
      "set ys = {a \<in> set bs. expire wh a \<le> next_time vh}" "distinct ys" "sorted (map (expire wh) ys)"
    using ht.run [of wh bs] assms(2,4,9) set(2) by auto
  have "set xs = set ys"
    using l(3) h(3) set(1) assms(7,10) by auto
  then have ms: "mset xs = mset ys"
    using l(4) h(4) by (simp add: set_eq_iff_mset_eq_distinct)
  have "map (expire wl) xs = map (expire wh) xs"
    using l(3) assms(7) by auto
  moreover have "map (expire wh) xs = map (expire wh) ys"
  proof -
    have "sort (map (expire wh) xs) = map (expire wh) ys"
      using ms h(5) by (intro properties_for_sort) simp_all
    then show ?thesis
      using l(5) calculation by (simp add: sorted_sort_id)
  qed
  ultimately show ?thesis
    using l h ms by (metis (no_types))
qed

text \<open>
  Deleting a timer that the heap does not hold returns while SIGALRM is still blocked: no
  timer of the process expires from then on.
\<close>

theorem hp_del_unknown_blocks:
  assumes "hp_repr w xs" "xs \<noteq> []" "live Hp_Timer w a" "a \<notin> set xs"
  shows "\<exists>w'. hp_del_timer (Some a) w = Ret () w' \<and> c_blocked w'"
proof -
  let ?w = "w\<lparr>c_blocked := True\<rparr>"
  have h: "hp_holds ?w xs" "h_size w = length xs"
    using assms(1) by (auto simp: hp_repr_def hp_holds_def live_def list_all_iff)
  have all: "takeWhile (\<lambda>x. x \<noteq> a) xs = xs"
    using assms(4) by (simp only: takeWhile_eq_all_conv) blast
  have "getIdx ?w a = length xs"
    using getIdx_eq [OF h(1), of a] unfolding all .
  moreover have "cast_timer Hp_Timer (Some a) w = Ret (Some a) w"
    using assms(3) by (auto simp: cast_timer_def live_def split: option.splits)
  ultimately show ?thesis
    using h(2) assms(2) by (simp add: hp_del_timer_def bindp_unfold thenp_unfold block_alarm_def)
qed

text \<open>A heap of two timers in the smallest array, and a timer that is not in it.\<close>

definition two_heap :: hp where
  "two_heap = \<lparr>c_heap = [1 \<mapsto> new_timer Hp_Timer 10, 2 \<mapsto> new_timer Hp_Timer 30, 3 \<mapsto> new_timer Hp_Timer 20],
     c_times = [], c_now = 15, c_alarm = 0, c_blocked = False, c_fired = [],
     h_slots = [Some 1, Some 2, None, None, None], h_size = 2\<rparr>"

lemma two_heap_repr: "hp_repr two_heap [1, 2]"
  by (auto simp: two_heap_def hp_repr_def hp_holds_def is_heap_def live_def new_timer_def expire_def less_Suc_eq numeral_eq_Suc)

theorem hp_operations_witness:
  "\<exists>w' ys. hp_add_timer (Some 3) two_heap = Ret () w' \<and> hp_repr w' ys \<and> set ys = {1, 2, 3}"
proof -
  have "live Hp_Timer two_heap 3" by (simp add: two_heap_def live_def new_timer_def)
  then show ?thesis
    using hp_operations [OF two_heap_repr, of 3] by (auto simp: insert_commute)
qed

theorem hp_del_unknown_blocks_witness:
  "\<exists>w'. hp_del_timer (Some 3) two_heap = Ret () w' \<and> c_blocked w'"
  by (rule hp_del_unknown_blocks [OF two_heap_repr]) (simp_all add: two_heap_def live_def new_timer_def)

definition empty_heap :: hp where
  "empty_heap = two_heap\<lparr>h_slots := [None, None, None, None, None], h_size := 0\<rparr>"

definition empty_lst :: lst where
  "empty_lst = three_timers\<lparr>c_heap := [1 \<mapsto> new_timer Util_Timer 10]\<rparr>"

theorem timers_agree_witness:
  "\<exists>vl vh wl' wh' xs. lt.add_all [1] empty_lst = Ret () vl \<and> ht.add_all [1] empty_heap = Ret () vh
    \<and> lst_tick vl = Ret () wl' \<and> hp_tick vh = Ret () wh' \<and> mset (c_fired wl') = mset (c_fired wh')"
proof -
  let ?vl = "empty_lst\<lparr>l_head := Some 1, l_tail := Some 1, c_alarm := 4294967291\<rparr>"
  let ?vh = "empty_heap\<lparr>h_slots := [Some 1, None, None, None, None], h_size := 1, c_alarm := 4294967291\<rparr>"
  have l: "lt.add_all [1] empty_lst = Ret () ?vl"
    by (unfold lt.add_all.simps, simp add: empty_lst_def three_timers_def new_timer_def thenp_unfold bindp_unfold lst_add_timer_def
        cast_timer_def at_def resetTimer_def reset_to_def sys_alarm_def next_time_def after_time_def int32_def)
  have h: "ht.add_all [1] empty_heap = Ret () ?vh"
    by (unfold ht.add_all.simps, simp add: empty_heap_def two_heap_def new_timer_def thenp_unfold bindp_unfold hp_add_timer_def
        cast_timer_def at_def hp_resetTimer_def reset_to_def sys_alarm_def next_time_def after_time_def int32_def
        block_alarm_def unblock_alarm_def percolate_up.simps [of 0])
  have "lst_repr empty_lst []" "hp_repr empty_heap []" "list_all (lst_fresh empty_lst) [1]"
    "list_all (live Hp_Timer empty_heap) [1]" "\<forall>a\<in>set [1]. expire empty_lst a = expire empty_heap a"
    "next_time ?vl = next_time ?vh" "c_fired empty_lst = []" "c_fired empty_heap = []"
    by (simp_all add: empty_lst_def empty_heap_def two_heap_def three_timers_def new_timer_def lst_repr_def
        lst_linked_def hp_repr_def hp_holds_def is_heap_def lst_fresh_def live_def expire_def next_time_def)
  then show ?thesis
    using timers_agree [of empty_lst empty_heap "[1]" "[1]", OF _ _ _ _ _ _ _ l h] l h by fastforce
qed

end
