(* ===== verification/Wheel_Timer.thy ===== *)
theory Wheel_Timer
  imports List_Timer
begin

text \<open>
  lib/wheel_timer.hh: the timers in 60 lists, one per second; a timer that is further away than
  one turn of the wheel counts the turns it has still to wait.
\<close>

definition N_SLOTS :: nat where "N_SLOTS = 60"
definition SI :: int where "SI = 1"

record tw = clocked +
  w_slots :: "addr option list"
  w_cur_slot :: int
  w_count :: int

definition timer_wheel :: "clocked \<Rightarrow> tw" where
  "timer_wheel w = clocked.extend w \<lparr>w_slots = replicate N_SLOTS None, w_cur_slot = 0, w_count = 0\<rparr>"

section \<open>Operations\<close>

text \<open>Division and remainder of C, which round towards zero.\<close>

definition c_div :: "int \<Rightarrow> int \<Rightarrow> int" where
  "c_div a b = sgn a * sgn b * (\<bar>a\<bar> div \<bar>b\<bar>)"

definition c_rem :: "int \<Rightarrow> int \<Rightarrow> int" where
  "c_rem a b = a - b * c_div a b"

definition slot_at :: "int \<Rightarrow> (tw, addr option) prog" where
  "slot_at i w = (if 0 \<le> i \<and> i < int (length (w_slots w)) then Ret (w_slots w ! nat i) w else Undef)"

definition set_slot :: "int \<Rightarrow> addr option \<Rightarrow> (tw, unit) prog" where
  "set_slot i p w = (if 0 \<le> i \<and> i < int (length (w_slots w)) then Ret () (w\<lparr>w_slots := (w_slots w)[nat i := p]\<rparr>) else Undef)"

definition tw_resetTimer :: "(tw, unit) prog" where
  "tw_resetTimer = bindp (getsp w_count) (\<lambda>n. sys_alarm (if n \<noteq> 0 then SI else 0))"

text \<open>The test of the class comes behind the first uses of the pointer.\<close>

definition tw_add_timer :: "addr option \<Rightarrow> (tw, unit) prog" where
  "tw_add_timer bt =
     bindp (cast_timer Tw_Timer bt) (\<lambda>p.
     bindp (at p) (\<lambda>t.
     bindp sys_time (\<lambda>now.
     bindp (getsp w_cur_slot) (\<lambda>cur.
     let timeout = int32 (tm_expire t - now);
         ticks0 = c_div timeout SI;
         ticks = (if ticks0 = 0 then 1 else ticks0) in
     if 2 ^ 31 \<le> cur + ticks then undefp
     else
       thenp (upd p (\<lambda>t. t\<lparr>tm_rotation := c_div ticks (int N_SLOTS), tm_slot_idx := c_rem (cur + ticks) (int N_SLOTS)\<rparr>))
       (bindp (at p) (\<lambda>t.
        bindp (slot_at (tm_slot_idx t)) (\<lambda>head.
        thenp (if head = None then set_slot (tm_slot_idx t) p
               else thenp (upd p (\<lambda>t. t\<lparr>tm_next := head\<rparr>))
                    (thenp (upd head (\<lambda>t. t\<lparr>tm_prev := p\<rparr>)) (set_slot (tm_slot_idx t) p)))
        (thenp (modifyp (\<lambda>w. w\<lparr>w_count := w_count w + 1\<rparr>)) tw_resetTimer))))))))"

text \<open>The search of \<open>del_timer\<close>: whether the timer is found; it runs into a null pointer when not.\<close>

partial_function (option) tw_find :: "(addr \<Rightarrow> timer option) \<Rightarrow> addr \<Rightarrow> addr option \<Rightarrow> bool option" where
  "tw_find h a cur =
     (if cur = Some a then Some True
      else (case cur of None \<Rightarrow> Some False
        | Some c \<Rightarrow> (case h c of None \<Rightarrow> Some False | Some t \<Rightarrow> tw_find h a (tm_next t))))"

definition tw_del_timer :: "addr option \<Rightarrow> (tw, unit) prog" where
  "tw_del_timer bt =
     bindp (cast_timer Tw_Timer bt) (\<lambda>p. case p of
       None \<Rightarrow> retp ()
     | Some a \<Rightarrow>
         bindp (at p) (\<lambda>t.
         bindp (slot_at (tm_slot_idx t)) (\<lambda>head.
         bindp (getsp c_heap) (\<lambda>h.
         if tw_find h a head \<noteq> Some True then undefp
         else
           thenp (if tm_prev t \<noteq> None then upd (tm_prev t) (\<lambda>u. u\<lparr>tm_next := tm_next t\<rparr>)
                  else set_slot (tm_slot_idx t) (tm_next t))
           (thenp (bindp (at p) (\<lambda>t. if tm_next t \<noteq> None then upd (tm_next t) (\<lambda>u. u\<lparr>tm_prev := tm_prev t\<rparr>) else retp ()))
           (thenp (modifyp (\<lambda>w. w\<lparr>w_count := w_count w - 1\<rparr>)) tw_resetTimer))))))"

definition tw_adjust_timer :: "addr option \<Rightarrow> (tw, unit) prog" where
  "tw_adjust_timer bt = thenp (tw_del_timer bt) (tw_add_timer bt)"

text \<open>A timer whose turns are used up: its callback, its removal from the list, its deletion.\<close>

definition tw_expire :: "addr \<Rightarrow> timer \<Rightarrow> (tw, unit) prog" where
  "tw_expire a t =
     bindp sys_time (\<lambda>_.
     thenp (callback a)
     (bindp (getsp w_cur_slot) (\<lambda>cur.
      bindp (slot_at cur) (\<lambda>head.
      thenp (if head = Some a
             then thenp (if tm_next t \<noteq> None then upd (tm_next t) (\<lambda>u. u\<lparr>tm_prev := None\<rparr>) else retp ())
                    (set_slot cur (tm_next t))
             else thenp (if tm_next t \<noteq> None then upd (tm_next t) (\<lambda>u. u\<lparr>tm_prev := tm_prev t\<rparr>) else retp ())
                    (if tm_prev t = None then exitp 134 else upd (tm_prev t) (\<lambda>u. u\<lparr>tm_next := tm_next t\<rparr>)))
      (thenp (delete_timer (Some a)) (modifyp (\<lambda>w. w\<lparr>w_count := w_count w - 1\<rparr>)))))))"

partial_function (option) tw_tick_loop :: "addr option \<Rightarrow> tw \<Rightarrow> (tw, unit) result option" where
  "tw_tick_loop cur w =
     (case cur of
        None \<Rightarrow> Some (Ret () w)
      | Some a \<Rightarrow> (case c_heap w a of
          None \<Rightarrow> Some Undef
        | Some t \<Rightarrow>
            if tm_rotation t > 0
            then tw_tick_loop (tm_next t) (w\<lparr>c_heap := (c_heap w)(a \<mapsto> t\<lparr>tm_rotation := tm_rotation t - 1\<rparr>)\<rparr>)
            else (case tw_expire a t w of
                Ret _ w' \<Rightarrow> tw_tick_loop (tm_next t) w'
              | Exit k w' \<Rightarrow> Some (Exit k w')
              | Undef \<Rightarrow> Some Undef)))"

definition tw_tick :: "(tw, unit) prog" where
  "tw_tick =
     thenp (modifyp (\<lambda>w. w\<lparr>w_cur_slot := c_rem (w_cur_slot w + 1) (int N_SLOTS)\<rparr>))
     (bindp (getsp w_cur_slot) (\<lambda>cur.
      bindp (slot_at cur) (\<lambda>head.
      thenp (\<lambda>w. case tw_tick_loop head w of None \<Rightarrow> Undef | Some r \<Rightarrow> r) tw_resetTimer)))"

text \<open>The destructor.\<close>

partial_function (option) tw_free_list :: "addr option \<Rightarrow> tw \<Rightarrow> (tw, unit) result option" where
  "tw_free_list head w =
     (case head of
        None \<Rightarrow> Some (Ret () w)
      | Some a \<Rightarrow> (case c_heap w a of
          None \<Rightarrow> Some Undef
        | Some t \<Rightarrow> tw_free_list (tm_next t) (w\<lparr>c_heap := (c_heap w)(a := None)\<rparr>)))"

fun tw_free_all :: "addr option list \<Rightarrow> (tw, unit) prog" where
  "tw_free_all [] = retp ()"
| "tw_free_all (p # ps) = thenp (\<lambda>w. case tw_free_list p w of None \<Rightarrow> Undef | Some r \<Rightarrow> r) (tw_free_all ps)"

definition tw_destroy :: "(tw, unit) prog" where
  "tw_destroy = thenp (sys_alarm 0) (bindp (getsp w_slots) tw_free_all)"

section \<open>The lists of a wheel\<close>

lemma c_div_nonneg: "0 \<le> a \<Longrightarrow> 0 < b \<Longrightarrow> c_div a b = a div b"
  by (cases "a = 0") (simp_all add: c_div_def sgn_if)

lemma c_rem_nonneg: "0 \<le> a \<Longrightarrow> 0 < b \<Longrightarrow> c_rem a b = a mod b"
  by (simp add: c_rem_def c_div_nonneg minus_mult_div_eq_mod)

definition chain :: "(addr \<Rightarrow> timer option) \<Rightarrow> addr option \<Rightarrow> addr list \<Rightarrow> bool" where
  "chain h p as \<longleftrightarrow> (\<exists>fin. dseg h None p as fin None)"

lemma chain_cong: "(\<And>a. a \<in> set as \<Longrightarrow> h' a = h a) \<Longrightarrow> chain h' p as = chain h p as"
  unfolding chain_def using dseg_cong by metis

lemma chain_delete: "a \<notin> set as \<Longrightarrow> chain (h(a := x)) p as = chain h p as"
  by (rule chain_cong) auto

lemma chain_head: "chain h p as \<Longrightarrow> p = (case as of [] \<Rightarrow> None | a # _ \<Rightarrow> Some a)"
  by (cases as) (auto simp: chain_def)

text \<open>What the links of a timer do not say: its class, its time, its turns and its slot.\<close>

definition core :: "timer \<Rightarrow> timer_class \<times> int \<times> int \<times> int" where
  "core t = (tm_class t, tm_expire t, tm_rotation t, tm_slot_idx t)"

definition cores :: "(addr \<Rightarrow> timer option) \<Rightarrow> addr \<Rightarrow> (timer_class \<times> int \<times> int \<times> int) option" where
  "cores h a = map_option core (h a)"

definition rotation :: "'z clocked_scheme \<Rightarrow> addr \<Rightarrow> int" where
  "rotation w a = (case c_heap w a of None \<Rightarrow> 0 | Some t \<Rightarrow> tm_rotation t)"

lemma chain_core_upd:
  "h a = Some t \<Longrightarrow> tm_prev u = tm_prev t \<Longrightarrow> tm_next u = tm_next t \<Longrightarrow> chain (h(a \<mapsto> u)) p as = chain h p as"
proof -
  assume a: "h a = Some t" "tm_prev u = tm_prev t" "tm_next u = tm_next t"
  have "dseg (h(a \<mapsto> u)) prev p as fin q = dseg h prev p as fin q" for prev p fin q
    using a by (induction as arbitrary: prev p) auto
  then show ?thesis by (simp add: chain_def)
qed

text \<open>Unlinking the timer behind \<open>us\<close>: the list without it, in a heap where the cores are kept.\<close>

definition unlinked :: "(addr \<Rightarrow> timer option) \<Rightarrow> timer \<Rightarrow> addr \<Rightarrow> (addr \<Rightarrow> timer option)" where
  "unlinked h t a =
     (let h1 = (case tm_next t of None \<Rightarrow> h | Some n \<Rightarrow> h(n := map_option (\<lambda>u. u\<lparr>tm_prev := tm_prev t\<rparr>) (h n)));
          h2 = (case tm_prev t of None \<Rightarrow> h1 | Some p \<Rightarrow> h1(p := map_option (\<lambda>u. u\<lparr>tm_next := tm_next t\<rparr>) (h1 p)))
      in h2)"

lemma cores_map:
  assumes "\<And>u. core (f u) = core u"
  shows "cores (h(n := map_option f (h n))) = cores h"
proof
  fix b
  show "cores (h(n := map_option f (h n))) b = cores h b"
    using assms by (cases "b = n"; cases "h n") (simp_all add: cores_def)
qed

lemma unlinked_chain:
  assumes "chain h p (us @ a # vs)" "distinct (us @ a # vs)" "h a = Some t"
  shows "chain (unlinked h t a) (if us = [] then tm_next t else p) (us @ vs)"
    "tm_next t = (case vs of [] \<Rightarrow> None | v # _ \<Rightarrow> Some v)" "tm_prev t = (if us = [] then None else Some (last us))"
    "unlinked h t a a = h a" "b \<notin> set (us @ vs) \<Longrightarrow> unlinked h t a b = h b"
    "cores (unlinked h t a) = cores h"
proof -
  obtain m fin where us: "dseg h None p us m (Some a)" and t: "tm_prev t = m" "dseg h (Some a) (tm_next t) vs fin None"
    using assms(1,3) by (auto simp: chain_def dseg_append)
  show nxt: "tm_next t = (case vs of [] \<Rightarrow> None | v # _ \<Rightarrow> Some v)"
    using t(2) by (cases vs) auto
  show prv: "tm_prev t = (if us = [] then None else Some (last us))"
    using dseg_last [OF us] t(1) by auto
  have in_last: "us \<noteq> [] \<Longrightarrow> last us \<in> set us \<and> last us \<notin> set (a # vs)"
    using assms(2) last_in_set [of us] by (auto simp del: last_in_set)
  show "b \<notin> set (us @ vs) \<Longrightarrow> unlinked h t a b = h b"
    using in_last by (cases "us = []"; cases vs) (auto simp: unlinked_def Let_def nxt prv)
  show "unlinked h t a a = h a"
    using in_last assms(2) by (cases "us = []"; cases vs) (auto simp: unlinked_def Let_def nxt prv)
  show "cores (unlinked h t a) = cores h"
    by (simp add: unlinked_def Let_def cores_map core_def split: option.split)
  have mid: "dseg (unlinked h t a) m (tm_next t) vs (if vs = [] then m else fin) None"
  proof (cases vs)
    case (Cons v vs')
    then obtain u where u: "h v = Some u" "dseg h (Some v) (tm_next u) vs' fin None"
      using t(2) by auto
    have "unlinked h t a b = h b" if "b \<in> set vs'" for b
      using that Cons assms(2) in_last by (cases "us = []") (auto simp: unlinked_def Let_def nxt prv)
    then have "dseg (unlinked h t a) (Some v) (tm_next u) vs' fin None"
      using u(2) dseg_cong by metis
    moreover have "unlinked h t a v = Some (u\<lparr>tm_prev := m\<rparr>)"
      using Cons assms(2) in_last u t(1) by (cases "us = []") (auto simp: unlinked_def Let_def nxt prv)
    ultimately show ?thesis
      using Cons nxt by simp
  qed (use nxt in simp)
  show "chain (unlinked h t a) (if us = [] then tm_next t else p) (us @ vs)"
  proof (cases us rule: rev_cases)
    case Nil
    then show ?thesis
      using mid us by (auto simp: chain_def)
  next
    case (snoc us' x)
    then obtain k y where y: "dseg h None p us' k (Some x)" "h x = Some y" "tm_prev y = k"
      using us by (auto simp: dseg_append)
    have "unlinked h t a b = h b" if "b \<in> set us'" for b
      using that snoc assms(2) by (cases vs) (auto simp: unlinked_def Let_def nxt prv)
    then have "dseg (unlinked h t a) None p us' k (Some x)"
      using y(1) dseg_cong by metis
    moreover have "unlinked h t a x = Some (y\<lparr>tm_next := tm_next t\<rparr>)"
      using snoc assms(2) y by (cases vs) (auto simp: unlinked_def Let_def nxt prv)
    moreover have "m = Some x"
      using prv t(1) snoc by simp
    ultimately show ?thesis
      using mid snoc y(3) by (auto simp: chain_def dseg_append)
  qed
qed

lemma upd_map:
  "c_heap w p \<noteq> None \<Longrightarrow> upd (Some p) f w = Ret () (w\<lparr>c_heap := (c_heap w)(p := map_option f (c_heap w p))\<rparr>)"
  by (auto simp: upd_def)

lemma chain_alloc: "chain h p as \<Longrightarrow> a \<in> set as \<Longrightarrow> h a \<noteq> None"
  unfolding chain_def using dseg_alloc by blast

lemma after_time_tw [simp]:
  "w_slots (after_time w) = w_slots w" "w_cur_slot (after_time w) = w_cur_slot w" "w_count (after_time w) = w_count w"
  by (simp_all add: after_time_def split: list.split)

lemma tw_expire_run:
  assumes ch: "chain (c_heap w) (w_slots w ! nat c) (us @ a # vs)" and dist: "distinct (us @ a # vs)"
    and t: "c_heap w a = Some t" and c: "w_cur_slot w = c" "0 \<le> c" "c < int (length (w_slots w))"
  shows "\<exists>w'. tw_expire a t w = Ret () w' \<and> c_heap w' = (unlinked (c_heap w) t a)(a := None)
    \<and> w_slots w' = (if us = [] then (w_slots w)[nat c := tm_next t] else w_slots w)
    \<and> w_cur_slot w' = c \<and> w_count w' = w_count w - 1 \<and> c_fired w' = c_fired w @ [a]"
proof -
  note un = unlinked_chain [OF ch dist t]
  let ?w = "(after_time w)\<lparr>c_fired := c_fired w @ [a]\<rparr>"
  have head: "w_slots w ! nat c = Some a \<longleftrightarrow> us = []"
    using chain_head [OF ch] dist by (cases us) auto
  have nxt: "c_heap w n \<noteq> None" "n \<noteq> a" if "tm_next t = Some n" for n
    using that un(2) chain_alloc [OF ch, of n] dist by (cases vs; auto)+
  have prv: "c_heap w p \<noteq> None" "p \<noteq> a" "tm_next t \<noteq> Some p" if "tm_prev t = Some p" for p
    using that un(2,3) chain_alloc [OF ch, of p] dist last_in_set [of us] by (cases vs; auto split: if_splits)+
  let ?h1 = "case tm_next t of None \<Rightarrow> c_heap w | Some n \<Rightarrow> (c_heap w)(n := map_option (\<lambda>u. u\<lparr>tm_prev := tm_prev t\<rparr>) (c_heap w n))"
  have link: "(if tm_next t \<noteq> None then upd (tm_next t) (\<lambda>u. u\<lparr>tm_prev := tm_prev t\<rparr>) else retp ()) ?w
      = Ret () (?w\<lparr>c_heap := ?h1\<rparr>)"
    using nxt by (cases "tm_next t") (simp_all add: upd_map)
  show ?thesis
  proof (cases "us = []")
    case True
    then have "tm_prev t = None" using un(3) by simp
    then have "tw_expire a t w = Ret () (?w\<lparr>c_heap := (unlinked (c_heap w) t a)(a := None),
        w_slots := (w_slots w)[nat c := tm_next t], w_count := w_count w - 1\<rparr>)"
      using True head link c un(4) t nxt
      by (cases "tm_next t") (simp_all add: upd_map tw_expire_def bindp_unfold thenp_unfold callback_def slot_at_def set_slot_def delete_timer_def
          unlinked_def Let_def)
    then show ?thesis
      using True c by (auto simp: after_time_def split: list.split)
  next
    case False
    then obtain p where p: "tm_prev t = Some p" using un(3) by auto
    have "?h1 p = c_heap w p"
      using prv [OF p] by (auto split: option.split)
    then have "tw_expire a t w = Ret () (?w\<lparr>c_heap := (unlinked (c_heap w) t a)(a := None), w_count := w_count w - 1\<rparr>)"
      using False head link c un(4) t p prv [OF p]
      by (simp add: tw_expire_def bindp_unfold thenp_unfold callback_def slot_at_def delete_timer_def upd_map
          unlinked_def Let_def)
    then show ?thesis
      using False c by (auto simp: after_time_def split: list.split)
  qed
qed

text \<open>The walk along the list of the current slot: \<open>us\<close> is behind it, \<open>vs\<close> ahead.\<close>

lemma tw_tick_loop_run:
  assumes "chain (c_heap w) (w_slots w ! nat c) (us @ vs)" "distinct (us @ vs)"
    and "w_cur_slot w = c" "0 \<le> c" "c < int (length (w_slots w))"
    and "cur = (case vs of [] \<Rightarrow> None | v # _ \<Rightarrow> Some v)"
  shows "\<exists>w'. tw_tick_loop cur w = Some (Ret () w')
    \<and> chain (c_heap w') (w_slots w' ! nat c) (us @ filter (\<lambda>a. 0 < rotation w a) vs)
    \<and> c_fired w' = c_fired w @ filter (\<lambda>a. \<not> 0 < rotation w a) vs
    \<and> w_count w' = w_count w - int (length (filter (\<lambda>a. \<not> 0 < rotation w a) vs))
    \<and> w_cur_slot w' = c \<and> w_slots w' = (w_slots w)[nat c := w_slots w' ! nat c]
    \<and> (\<forall>b. b \<notin> set (us @ vs) \<longrightarrow> c_heap w' b = c_heap w b)
    \<and> (\<forall>b \<in> set us. cores (c_heap w') b = cores (c_heap w) b)
    \<and> (\<forall>b \<in> set vs. 0 < rotation w b \<longrightarrow>
         cores (c_heap w') b = map_option (\<lambda>(k, e, r, s). (k, e, r - 1, s)) (cores (c_heap w) b))"
  using assms
proof (induction vs arbitrary: us w cur)
  case Nil
  then show ?case
    by (subst tw_tick_loop.simps) simp
next
  case (Cons a vs)
  have "c_heap w a \<noteq> None"
    using chain_alloc [OF Cons.prems(1)] by simp
  then obtain t where t: "c_heap w a = Some t" by blast
  have rot: "rotation w a = tm_rotation t"
    using t by (simp add: rotation_def)
  have nxt: "tm_next t = (case vs of [] \<Rightarrow> None | v # _ \<Rightarrow> Some v)"
    using unlinked_chain(2) [OF Cons.prems(1,2) t] .
  show ?case
  proof (cases "0 < tm_rotation t")
    case True
    let ?w = "w\<lparr>c_heap := (c_heap w)(a \<mapsto> t\<lparr>tm_rotation := tm_rotation t - 1\<rparr>)\<rparr>"
    have step: "tw_tick_loop cur w = tw_tick_loop (tm_next t) ?w"
      using Cons.prems(6) t True by (subst tw_tick_loop.simps) simp
    have pre: "chain (c_heap ?w) (w_slots ?w ! nat c) ((us @ [a]) @ vs)" "distinct ((us @ [a]) @ vs)"
      "w_cur_slot ?w = c" "c < int (length (w_slots ?w))"
      using Cons.prems chain_core_upd [of "c_heap w" a t] t by simp_all
    obtain w' where
      w': "tw_tick_loop (tm_next t) ?w = Some (Ret () w')"
        "chain (c_heap w') (w_slots w' ! nat c) ((us @ [a]) @ filter (\<lambda>a. 0 < rotation ?w a) vs)"
        "c_fired w' = c_fired ?w @ filter (\<lambda>a. \<not> 0 < rotation ?w a) vs"
        "w_count w' = w_count ?w - int (length (filter (\<lambda>a. \<not> 0 < rotation ?w a) vs))"
        "w_cur_slot w' = c" "w_slots w' = (w_slots ?w)[nat c := w_slots w' ! nat c]"
        "\<forall>b. b \<notin> set ((us @ [a]) @ vs) \<longrightarrow> c_heap w' b = c_heap ?w b"
        "\<forall>b \<in> set (us @ [a]). cores (c_heap w') b = cores (c_heap ?w) b"
        "\<forall>b \<in> set vs. 0 < rotation ?w b \<longrightarrow>
           cores (c_heap w') b = map_option (\<lambda>(k, e, r, s). (k, e, r - 1, s)) (cores (c_heap ?w) b)"
      using Cons.IH [OF pre(1-3) Cons.prems(4) pre(4) nxt] by blast
    have same: "rotation ?w b = rotation w b" if "b \<in> set vs" for b
      using that Cons.prems(2) by (auto simp: rotation_def)
    have f: "filter (\<lambda>a. 0 < rotation ?w a) vs = filter (\<lambda>a. 0 < rotation w a) vs"
      "filter (\<lambda>a. \<not> 0 < rotation ?w a) vs = filter (\<lambda>a. \<not> 0 < rotation w a) vs"
      using same by (auto intro: filter_cong)
    have ca: "cores (c_heap w') a = map_option (\<lambda>(k, e, r, s). (k, e, r - 1, s)) (cores (c_heap w) a)"
      using w'(8) t by (simp add: cores_def core_def)
    have cu: "\<forall>b \<in> set us. cores (c_heap w') b = cores (c_heap w) b"
      using w'(8) Cons.prems(2) by (auto simp: cores_def)
    have cv: "\<forall>b \<in> set vs. 0 < rotation w b \<longrightarrow>
        cores (c_heap w') b = map_option (\<lambda>(k, e, r, s). (k, e, r - 1, s)) (cores (c_heap w) b)"
      using w'(9) same Cons.prems(2) by (auto simp: cores_def)
    show ?thesis
      using step w'(1-7) True rot ca cu cv unfolding f by (intro exI [of _ w']) auto
  next
    case False
    obtain v where v: "tw_expire a t w = Ret () v" "c_heap v = (unlinked (c_heap w) t a)(a := None)"
        "w_slots v = (if us = [] then (w_slots w)[nat c := tm_next t] else w_slots w)"
        "w_cur_slot v = c" "w_count v = w_count w - 1" "c_fired v = c_fired w @ [a]"
      using tw_expire_run [OF Cons.prems(1,2) t Cons.prems(3-5)] by blast
    note un = unlinked_chain [OF Cons.prems(1,2) t]
    have step: "tw_tick_loop cur w = tw_tick_loop (tm_next t) v"
      using Cons.prems(6) t False v(1) by (subst tw_tick_loop.simps) simp
    have a: "a \<notin> set (us @ vs)" using Cons.prems(2) by auto
    have pre: "chain (c_heap v) (w_slots v ! nat c) (us @ vs)" "distinct (us @ vs)" "c < int (length (w_slots v))"
      using un(1) Cons.prems(2,4,5) a v(2,3) by (auto simp: chain_delete split: if_splits)
    obtain w' where
      w': "tw_tick_loop (tm_next t) v = Some (Ret () w')"
        "chain (c_heap w') (w_slots w' ! nat c) (us @ filter (\<lambda>a. 0 < rotation v a) vs)"
        "c_fired w' = c_fired v @ filter (\<lambda>a. \<not> 0 < rotation v a) vs"
        "w_count w' = w_count v - int (length (filter (\<lambda>a. \<not> 0 < rotation v a) vs))"
        "w_cur_slot w' = c" "w_slots w' = (w_slots v)[nat c := w_slots w' ! nat c]"
        "\<forall>b. b \<notin> set (us @ vs) \<longrightarrow> c_heap w' b = c_heap v b"
        "\<forall>b \<in> set us. cores (c_heap w') b = cores (c_heap v) b"
        "\<forall>b \<in> set vs. 0 < rotation v b \<longrightarrow>
           cores (c_heap w') b = map_option (\<lambda>(k, e, r, s). (k, e, r - 1, s)) (cores (c_heap v) b)"
      using Cons.IH [OF pre(1,2) v(4) Cons.prems(4) pre(3) nxt] by blast
    have cores_v: "cores (c_heap v) b = cores (c_heap w) b" if "b \<noteq> a" for b
      using that v(2) un(6) by (metis cores_def fun_upd_other)
    have cores_on: "cores (c_heap v) b = cores (c_heap w) b" if "b \<in> set (us @ vs)" for b
      using cores_v [of b] a that by (cases "b = a") auto
    have same: "rotation v b = rotation w b" if "b \<in> set vs" for b
    proof -
      have "cores (c_heap v) b = cores (c_heap w) b"
        using cores_v [of b] a that by (cases "b = a") auto
      then show ?thesis
        by (auto simp: rotation_def cores_def core_def split: option.splits)
    qed
    have f: "filter (\<lambda>a. 0 < rotation v a) vs = filter (\<lambda>a. 0 < rotation w a) vs"
      "filter (\<lambda>a. \<not> 0 < rotation v a) vs = filter (\<lambda>a. \<not> 0 < rotation w a) vs"
      using same by (auto intro: filter_cong)
    have out: "\<forall>b. b \<notin> set (us @ a # vs) \<longrightarrow> c_heap w' b = c_heap w b"
      using w'(7) v(2) un(5) by auto
    have cu: "\<forall>b \<in> set us. cores (c_heap w') b = cores (c_heap w) b"
      and cv: "\<forall>b \<in> set vs. 0 < rotation w b \<longrightarrow>
        cores (c_heap w') b = map_option (\<lambda>(k, e, r, s). (k, e, r - 1, s)) (cores (c_heap w) b)"
      using w'(8,9) same cores_on by auto
    have slots: "w_slots w' = (w_slots w)[nat c := w_slots w' ! nat c]"
      using w'(6) v(3) by (auto split: if_splits)
    show ?thesis
      using step w'(1-5) v(5,6) False rot out cu cv slots unfolding f by (intro exI [of _ w']) auto
  qed
qed

section \<open>The wheel and the ticks a timer has still to wait\<close>

definition tw_repr :: "tw \<Rightarrow> (nat \<Rightarrow> addr list) \<Rightarrow> bool" where
  "tw_repr w S \<longleftrightarrow> length (w_slots w) = N_SLOTS \<and> 0 \<le> w_cur_slot w \<and> w_cur_slot w < int N_SLOTS
     \<and> (\<forall>i<N_SLOTS. chain (c_heap w) (w_slots w ! i) (S i) \<and> distinct (S i))
     \<and> (\<forall>i<N_SLOTS. \<forall>a\<in>set (S i). \<exists>e r. cores (c_heap w) a = Some (Tw_Timer, e, r, int i) \<and> 0 \<le> r)
     \<and> w_count w = int (\<Sum>i<N_SLOTS. length (S i))"

definition wheel_timers :: "(nat \<Rightarrow> addr list) \<Rightarrow> addr set" where
  "wheel_timers S = (\<Union>i<N_SLOTS. set (S i))"

definition due :: "tw \<Rightarrow> addr \<Rightarrow> int" where
  "due w a = (case cores (c_heap w) a of None \<Rightarrow> 0
     | Some (k, e, r, s) \<Rightarrow> (s - w_cur_slot w - 1) mod int N_SLOTS + 1 + int N_SLOTS * r)"

lemma N_SLOTS_pos: "0 < N_SLOTS" by (simp add: N_SLOTS_def)

lemma tw_repr_core:
  "tw_repr w S \<Longrightarrow> i < N_SLOTS \<Longrightarrow> a \<in> set (S i) \<Longrightarrow>
     \<exists>e r. cores (c_heap w) a = Some (Tw_Timer, e, r, int i) \<and> 0 \<le> r \<and> rotation w a = r"
proof -
  assume "tw_repr w S" "i < N_SLOTS" "a \<in> set (S i)"
  then have "\<exists>e r. cores (c_heap w) a = Some (Tw_Timer, e, r, int i) \<and> 0 \<le> r"
    unfolding tw_repr_def by blast
  then show ?thesis
    by (auto simp: rotation_def cores_def core_def)
qed

lemma tw_repr_disjoint:
  "tw_repr w S \<Longrightarrow> i < N_SLOTS \<Longrightarrow> j < N_SLOTS \<Longrightarrow> a \<in> set (S i) \<Longrightarrow> a \<in> set (S j) \<Longrightarrow> i = j"
  using tw_repr_core [of w S i a] tw_repr_core [of w S j a] by auto

lemma mod_step:
  assumes "0 \<le> (c :: int)" "c < n" "0 \<le> s" "s < n" "s \<noteq> (c + 1) mod n"
  shows "(s - (c + 1) mod n - 1) mod n = (s - c - 1) mod n - 1"
proof -
  have c: "(c + 1) mod n = (if c + 1 = n then 0 else c + 1)"
    using assms(1,2) by auto
  have m: "x mod n = (if x < 0 then x + n else x)" if "- n \<le> x" "x < n" for x
    using that mod_add_self2 [of x n] mod_pos_pos_trivial [of "x + n" n] mod_pos_pos_trivial [of x n] by auto
  show ?thesis
    using assms unfolding c by (auto simp: m split: if_splits)
qed

text \<open>One tick: the timers that wait for one tick run, the others wait for one tick less.\<close>

lemma tw_tick_ok:
  assumes w: "tw_repr w S"
  shows "\<exists>w' S' xs. tw_tick w = Ret () w' \<and> tw_repr w' S' \<and> c_fired w' = c_fired w @ xs
    \<and> set xs = {a \<in> wheel_timers S. due w a = 1} \<and> distinct xs
    \<and> wheel_timers S' = wheel_timers S - set xs
    \<and> (\<forall>a \<in> wheel_timers S'. due w' a = due w a - 1)"
proof -
  define c where "c = (w_cur_slot w + 1) mod int N_SLOTS"
  have cur: "0 \<le> w_cur_slot w" "w_cur_slot w < int N_SLOTS" and len: "length (w_slots w) = N_SLOTS"
    using w by (simp_all add: tw_repr_def)
  have c: "0 \<le> c" "c < int N_SLOTS" "nat c < N_SLOTS" "c_rem (w_cur_slot w + 1) (int N_SLOTS) = c"
    using N_SLOTS_pos cur by (auto simp: c_def c_rem_nonneg nat_less_iff)
  define v where "v = w\<lparr>w_cur_slot := c\<rparr>"
  let ?L = "S (nat c)"
  have rot_v: "rotation v a = rotation w a" for a
    by (simp add: rotation_def v_def)
  have L: "chain (c_heap w) (w_slots w ! nat c) ?L" "distinct ?L"
    using w c(3) by (simp_all add: tw_repr_def)
  have pre: "chain (c_heap v) (w_slots v ! nat c) ([] @ ?L)" "distinct ([] @ ?L)" "w_cur_slot v = c" "c < int (length (w_slots v))"
    using L c len by (simp_all add: v_def)
  obtain w1 where w1: "tw_tick_loop (w_slots v ! nat c) v = Some (Ret () w1)"
      "chain (c_heap w1) (w_slots w1 ! nat c) (filter (\<lambda>a. 0 < rotation w a) ?L)"
      "c_fired w1 = c_fired w @ filter (\<lambda>a. \<not> 0 < rotation w a) ?L"
      "w_count w1 = w_count w - int (length (filter (\<lambda>a. \<not> 0 < rotation w a) ?L))"
      "w_cur_slot w1 = c" "w_slots w1 = (w_slots w)[nat c := w_slots w1 ! nat c]"
      "\<forall>b. b \<notin> set ?L \<longrightarrow> c_heap w1 b = c_heap w b"
      "\<forall>b \<in> set ?L. 0 < rotation w b \<longrightarrow>
         cores (c_heap w1) b = map_option (\<lambda>(k, e, r, s). (k, e, r - 1, s)) (cores (c_heap w) b)"
    using tw_tick_loop_run [OF pre(1,2,3) c(1) pre(4) chain_head [OF pre(1) [unfolded append_Nil]]]
    unfolding rot_v by (auto simp: v_def)
  define w2 where "w2 = w1\<lparr>c_alarm := (if w_count w1 \<noteq> 0 then 1 else 0)\<rparr>"
  have run: "tw_tick w = Ret () w2"
    using w1(1) c len
    by (simp add: tw_tick_def thenp_unfold bindp_unfold slot_at_def v_def tw_resetTimer_def sys_alarm_def SI_def w2_def)
  let ?S = "S(nat c := filter (\<lambda>a. 0 < rotation w a) ?L)"
  let ?xs = "filter (\<lambda>a. \<not> 0 < rotation w a) ?L"
  note core = tw_repr_core [OF w]
  have other: "c_heap w1 a = c_heap w a" if "i < N_SLOTS" "i \<noteq> nat c" "a \<in> set (S i)" for i a
    using w1(7) tw_repr_disjoint [OF w that(1) c(3) that(3)] that(2) by blast
  have repr: "tw_repr w2 ?S"
    unfolding tw_repr_def
  proof (intro conjI allI impI ballI)
    show "length (w_slots w2) = N_SLOTS"
      using w1(6) len by (metis length_list_update tw.ext_inject tw.surjective w2_def clocked.update_convs(4) tw.select_convs(1))
    show "0 \<le> w_cur_slot w2" "w_cur_slot w2 < int N_SLOTS"
      using w1(5) c by (simp_all add: w2_def)
    fix i assume i: "i < N_SLOTS"
    have slots: "w_slots w2 ! i = (if i = nat c then w_slots w1 ! nat c else w_slots w ! i)"
    proof (cases "i = nat c")
      case False
      then show ?thesis
        using arg_cong [OF w1(6), of "\<lambda>l. l ! i"] by (simp add: w2_def)
    qed (simp add: w2_def)
    show "chain (c_heap w2) (w_slots w2 ! i) (?S i)"
    proof (cases "i = nat c")
      case True
      then show ?thesis using w1(2) slots by (simp add: w2_def)
    next
      case False
      then show ?thesis
        using slots w i chain_cong [of "S i" "c_heap w1" "c_heap w" "w_slots w ! i"] other [OF i]
        by (simp add: w2_def tw_repr_def)
    qed
    show "distinct (?S i)"
      using w i by (simp add: tw_repr_def)
    fix a assume a: "a \<in> set (?S i)"
    show "\<exists>e r. cores (c_heap w2) a = Some (Tw_Timer, e, r, int i) \<and> 0 \<le> r"
    proof (cases "i = nat c")
      case True
      then show ?thesis
        using a core [OF i, of a] w1(8) by (auto simp: w2_def)
    next
      case False
      then show ?thesis
        using a core [OF i, of a] other [OF i False, of a] by (auto simp: w2_def cores_def)
    qed
  next
    have "length ?L = length (filter (\<lambda>a. 0 < rotation w a) ?L) + length ?xs"
      using sum_length_filter_compl [of "\<lambda>a. 0 < rotation w a" ?L] by simp
    moreover have "(\<Sum>i<N_SLOTS. length (S i)) = length ?L + (\<Sum>i\<in>{..<N_SLOTS} - {nat c}. length (S i))"
      using c(3) by (intro sum.remove) auto
    moreover have "(\<Sum>i<N_SLOTS. length (?S i)) = length (?S (nat c)) + (\<Sum>i\<in>{..<N_SLOTS} - {nat c}. length (?S i))"
      using c(3) by (intro sum.remove) auto
    moreover have "(\<Sum>i\<in>{..<N_SLOTS} - {nat c}. length (?S i)) = (\<Sum>i\<in>{..<N_SLOTS} - {nat c}. length (S i))"
      by (rule sum.cong) auto
    ultimately show "w_count w2 = int (\<Sum>i<N_SLOTS. length (?S i))"
      using w1(4) w by (simp add: w2_def tw_repr_def)
  qed
  have due_w: "due w a = (int i - w_cur_slot w - 1) mod int N_SLOTS + 1 + int N_SLOTS * rotation w a"
    if "i < N_SLOTS" "a \<in> set (S i)" for i a
    using core [OF that] by (auto simp: due_def)
  have zero: "(int i - w_cur_slot w - 1) mod int N_SLOTS = 0 \<longleftrightarrow> i = nat c" if "i < N_SLOTS" for i
  proof -
    have "(int i - w_cur_slot w - 1) mod int N_SLOTS = 0 \<longleftrightarrow> int i mod int N_SLOTS = c"
      by (simp add: c_def mod_eq_dvd_iff dvd_eq_mod_eq_0 algebra_simps)
    then show ?thesis
      using that c(1) by auto
  qed
  have pos: "0 \<le> (int i - w_cur_slot w - 1) mod int N_SLOTS" for i
    using N_SLOTS_pos by simp
  have one: "due w a = 1 \<longleftrightarrow> i = nat c \<and> \<not> 0 < rotation w a" if "i < N_SLOTS" "a \<in> set (S i)" for i a
  proof -
    have "0 \<le> rotation w a" using core [OF that] by auto
    moreover have "0 < int N_SLOTS * rotation w a" if "0 < rotation w a"
      using N_SLOTS_pos that by simp
    ultimately show ?thesis
      using due_w [OF that] zero [OF that(1)] pos [of i] by (cases "0 < rotation w a") auto
  qed
  have xs: "set ?xs = {a \<in> wheel_timers S. due w a = 1}"
    using one c(3) by (auto simp: wheel_timers_def)
  moreover have rest: "wheel_timers ?S = wheel_timers S - set ?xs"
    using tw_repr_disjoint [OF w _ c(3)] c(3) by (auto simp: wheel_timers_def split: if_splits)
  moreover have "due w2 a = due w a - 1" if wa: "a \<in> wheel_timers ?S" for a
  proof -
    obtain i where i: "i < N_SLOTS" "a \<in> set (?S i)"
      using wa unfolding wheel_timers_def by blast
    then have a: "a \<in> set (S i)" by (auto split: if_splits)
    obtain e r where e: "cores (c_heap w) a = Some (Tw_Timer, e, r, int i)" "0 \<le> r" "rotation w a = r"
      using core [OF i(1) a] by blast
    show ?thesis
    proof (cases "i = nat c")
      case True
      then have "cores (c_heap w1) a = Some (Tw_Timer, e, r - 1, c)"
        using w1(8) i(2) e c(1) by auto
      moreover have "(c - c - 1) mod int N_SLOTS = int N_SLOTS - 1"
        by (simp add: N_SLOTS_def)
      ultimately show ?thesis
        using due_w [OF i(1) a] zero [OF i(1)] True e w1(5) by (simp add: due_def w2_def algebra_simps)
    next
      case False
      then have "int i \<noteq> c" by auto
      then have "(int i - c - 1) mod int N_SLOTS = (int i - w_cur_slot w - 1) mod int N_SLOTS - 1"
        using mod_step [OF cur] i(1) unfolding c_def by simp
      moreover have "cores (c_heap w1) a = cores (c_heap w) a"
        using other [OF i(1) False a] by (simp add: cores_def)
      ultimately show ?thesis
        using due_w [OF i(1) a] e w1(5) by (simp add: due_def w2_def)
    qed
  qed
  ultimately show ?thesis
    using run repr w1(3) L(2) by (intro exI [of _ w2] exI [of _ ?S] exI [of _ ?xs]) (auto simp: w2_def)
qed

section \<open>Adding a timer\<close>

lemma chain_push:
  assumes "chain h p as" "distinct as" "a \<notin> set as" "h a = Some t" "tm_prev t = None" "tm_next t = p"
  shows "chain (case p of None \<Rightarrow> h | Some b \<Rightarrow> h(b := map_option (\<lambda>u. u\<lparr>tm_prev := Some a\<rparr>) (h b))) (Some a) (a # as)"
proof (cases as)
  case Nil
  then show ?thesis using assms chain_head [OF assms(1)] by (auto simp: chain_def)
next
  case (Cons b bs)
  then have p: "p = Some b" using chain_head [OF assms(1)] by simp
  obtain fin u where u: "h b = Some u" "dseg h (Some b) (tm_next u) bs fin None"
    using assms(1) Cons by (auto simp: chain_def)
  then show ?thesis
    using assms Cons p by (auto simp: chain_def)
qed

text \<open>The ticks for a time that is \<open>n\<close> seconds away, and when the timer runs: a whole number of turns counts one turn too many.\<close>

definition ticks_of :: "int \<Rightarrow> int" where
  "ticks_of n = (if n = 0 then 1 else n)"

lemma wheel_position:
  assumes "0 \<le> (c :: int)" "c < n" "0 < k"
  shows "((c + k) mod n - c - 1) mod n + 1 + n * (k div n) = (if k mod n = 0 then k + n else k)"
proof -
  have "((c + k) mod n - c - 1) mod n = (k - 1) mod n"
    using mod_diff_left_eq [of "c + k" n "c + 1"] by (simp add: algebra_simps)
  also have "(k - 1) mod n = (if k mod n = 0 then n - 1 else k mod n - 1)"
  proof (cases "k mod n = 0")
    case True
    then obtain q where "k = n * q" by (auto elim: dvdE simp: mod_0_imp_dvd)
    then have "(k - 1) mod n = (- 1) mod n"
      by (metis diff_conv_add_uminus mod_mult_self4)
    then show ?thesis
      using True assms by (simp add: zmod_minus1)
  next
    case False
    have "0 \<le> k mod n" "k mod n < n"
      using assms by (auto intro: pos_mod_sign pos_mod_bound)
    then have "0 < k mod n" "k mod n < n"
      using False by simp_all
    moreover have "(k - 1) mod n = (k mod n - 1) mod n" by (simp add: mod_simps)
    ultimately show ?thesis
      using False by simp
  qed
  finally show ?thesis
    using mult_div_mod_eq [of n k] by (auto split: if_splits)
qed

lemma tw_add_ok:
  assumes w: "tw_repr w S" and a: "c_heap w a = Some t" "tm_class t = Tw_Timer" "tm_prev t = None" "tm_next t = None"
    and new: "a \<notin> wheel_timers S"
    and n: "n = ticks_of (int32 (tm_expire t - next_time w))" "0 < n" "w_cur_slot w + n < 2 ^ 31"
  shows "\<exists>w' S'. tw_add_timer (Some a) w = Ret () w' \<and> tw_repr w' S' \<and> wheel_timers S' = insert a (wheel_timers S)
    \<and> c_fired w' = c_fired w \<and> due w' a = (if n mod 60 = 0 then n + 60 else n)
    \<and> (\<forall>b \<in> wheel_timers S. due w' b = due w b)"
proof -
  define c where "c = w_cur_slot w"
  define s where "s = (c + n) mod int N_SLOTS"
  define u where "u = t\<lparr>tm_rotation := n div int N_SLOTS, tm_slot_idx := s\<rparr>"
  have cur: "0 \<le> c" "c < int N_SLOTS" and len: "length (w_slots w) = N_SLOTS"
    using w by (simp_all add: tw_repr_def c_def)
  have s: "0 \<le> s" "s < int N_SLOTS" "nat s < N_SLOTS"
    using N_SLOTS_pos by (auto simp: s_def nat_less_iff)
  define p where "p = w_slots w ! nat s"
  let ?as = "S (nat s)"
  have chs: "chain (c_heap w) p ?as" "distinct ?as"
    using w s(3) by (simp_all add: tw_repr_def p_def)
  have a_out: "a \<notin> set (S i)" if "i < N_SLOTS" for i
    using new that by (auto simp: wheel_timers_def)
  define h where "h = (c_heap w)(a \<mapsto> u\<lparr>tm_next := p\<rparr>)"
  define h' where "h' = (case p of None \<Rightarrow> h | Some b \<Rightarrow> h(b := map_option (\<lambda>u. u\<lparr>tm_prev := Some a\<rparr>) (h b)))"
  have nexts: "tm_next u = None" "tm_prev u = None" "tm_slot_idx u = s"
    using a by (simp_all add: u_def)
  have ch: "chain h' (Some a) (a # ?as)"
    unfolding h'_def
    by (rule chain_push [where t = "u\<lparr>tm_next := p\<rparr>"]) (use chs a_out [OF s(3)] nexts in \<open>simp_all add: h_def chain_delete\<close>)
  have p_in: "b \<in> set ?as" "b \<noteq> a" "c_heap w b \<noteq> None" if "p = Some b" for b
    using that chain_head [OF chs(1)] chain_alloc [OF chs(1), of b] a_out [OF s(3)] by (cases ?as; auto)+
  define w' where "w' = (after_time w)\<lparr>c_heap := h', w_slots := (w_slots w)[nat s := Some a], w_count := w_count w + 1,
      c_alarm := (if w_count w + 1 \<noteq> 0 then 1 else 0)\<rparr>"
  have div: "c_div n (int N_SLOTS) = n div int N_SLOTS" "c_rem (c + n) (int N_SLOTS) = s"
    using n(2) cur N_SLOTS_pos by (simp_all add: c_div_nonneg c_rem_nonneg s_def)
  have tk: "c_div (int32 (tm_expire t - next_time w)) SI = int32 (tm_expire t - next_time w)"
    by (simp add: c_div_def SI_def sgn_mult_abs)
  have run: "tw_add_timer (Some a) w = Ret () w'"
  proof (cases p)
    case None
    have "u\<lparr>tm_next := None\<rparr> = u" using nexts by (cases u) simp
    then have "h = (c_heap w)(a \<mapsto> u)" using None by (simp add: h_def)
    then show ?thesis
      using a n(2,3) n(1) [symmetric] None nexts s len div tk c_def p_def
      by (simp add: tw_add_timer_def bindp_unfold thenp_unfold cast_timer_def at_def upd_def slot_at_def set_slot_def
          Let_def ticks_of_def[symmetric] u_def[symmetric] w'_def h'_def tw_resetTimer_def sys_alarm_def SI_def)
  next
    case (Some b)
    then show ?thesis
      using a n(2,3) n(1) [symmetric] nexts s len div tk c_def p_def p_in [OF Some]
      by (auto simp: tw_add_timer_def bindp_unfold thenp_unfold cast_timer_def at_def upd_def slot_at_def set_slot_def
          Let_def ticks_of_def[symmetric] u_def[symmetric] w'_def h'_def h_def tw_resetTimer_def sys_alarm_def SI_def)
  qed
  have cores_other: "cores h' b = cores (c_heap w) b" if "b \<noteq> a" for b
  proof -
    have "cores h' = cores h"
      by (cases p) (simp_all add: h'_def cores_map core_def)
    then show ?thesis
      using that by (simp add: h_def cores_def)
  qed
  have cores_a: "cores h' a = Some (Tw_Timer, tm_expire t, n div int N_SLOTS, s)"
    using p_in by (cases p) (auto simp: h'_def h_def cores_def core_def u_def a)
  let ?S = "S(nat s := a # ?as)"
  have repr: "tw_repr w' ?S"
    unfolding tw_repr_def
  proof (intro conjI allI impI ballI)
    show "length (w_slots w') = N_SLOTS" "0 \<le> w_cur_slot w'" "w_cur_slot w' < int N_SLOTS"
      using len cur by (simp_all add: w'_def c_def)
    fix i assume i: "i < N_SLOTS"
    show "chain (c_heap w') (w_slots w' ! i) (?S i)"
    proof (cases "i = nat s")
      case True
      then show ?thesis using ch s len by (simp add: w'_def)
    next
      case False
      have "b \<notin> set ?as" if "b \<in> set (S i)" for b
        using tw_repr_disjoint [OF w i s(3) that] False by blast
      then have "h' b = c_heap w b" if "b \<in> set (S i)" for b
        using that p_in(1) a_out [OF i] by (cases p) (auto simp: h'_def h_def)
      then show ?thesis
        using False w i chain_cong [of "S i" h' "c_heap w"] by (simp add: w'_def tw_repr_def)
    qed
    show "distinct (?S i)"
      using w i a_out by (simp add: tw_repr_def)
    fix b assume b: "b \<in> set (?S i)"
    show "\<exists>e r. cores (c_heap w') b = Some (Tw_Timer, e, r, int i) \<and> 0 \<le> r"
    proof (cases "b = a")
      case True
      then have "i = nat s" using b a_out [OF i] by (auto split: if_splits)
      then show ?thesis using True cores_a s n(2) by (simp add: w'_def pos_imp_zdiv_nonneg_iff N_SLOTS_pos)
    next
      case False
      then have "b \<in> set (S i)" using b by (auto split: if_splits)
      then show ?thesis using tw_repr_core [OF w i, of b] cores_other [OF False] by (auto simp: w'_def)
    qed
  next
    have "(\<Sum>i<N_SLOTS. length (?S i)) = length (?S (nat s)) + (\<Sum>i\<in>{..<N_SLOTS} - {nat s}. length (?S i))"
      using s(3) by (intro sum.remove) auto
    moreover have "(\<Sum>i<N_SLOTS. length (S i)) = length ?as + (\<Sum>i\<in>{..<N_SLOTS} - {nat s}. length (S i))"
      using s(3) by (intro sum.remove) auto
    moreover have "(\<Sum>i\<in>{..<N_SLOTS} - {nat s}. length (?S i)) = (\<Sum>i\<in>{..<N_SLOTS} - {nat s}. length (S i))"
      by (rule sum.cong) auto
    ultimately show "w_count w' = int (\<Sum>i<N_SLOTS. length (?S i))"
      using w by (simp add: w'_def tw_repr_def)
  qed
  have "wheel_timers ?S = insert a (wheel_timers S)"
    using s(3) by (auto simp: wheel_timers_def split: if_splits)
  moreover have "due w' a = (if n mod 60 = 0 then n + 60 else n)"
    using wheel_position [OF cur n(2)] cores_a by (simp add: due_def w'_def c_def[symmetric] s_def N_SLOTS_def)
  moreover have "due w' b = due w b" if "b \<in> wheel_timers S" for b
  proof -
    have "w_cur_slot w' = w_cur_slot w" "c_heap w' = h'"
      by (simp_all add: w'_def)
    then show ?thesis
      using cores_other [of b] that new by (cases "b = a") (auto simp: due_def split: option.split)
  qed
  ultimately show ?thesis
    using run repr by (intro exI [of _ w'] exI [of _ ?S]) (auto simp: w'_def)
qed

section \<open>The run of a wheel\<close>

text \<open>The ticks of \<open>k\<close> seconds.\<close>

primrec tw_ticks :: "nat \<Rightarrow> (tw, unit) prog" where
  "tw_ticks 0 = retp ()"
| "tw_ticks (Suc k) = thenp tw_tick (tw_ticks k)"

lemma due_pos:
  assumes "tw_repr w S" "a \<in> wheel_timers S"
  shows "1 \<le> due w a"
proof -
  obtain i where i: "i < N_SLOTS" "a \<in> set (S i)"
    using assms(2) unfolding wheel_timers_def by blast
  then obtain e r where r: "cores (c_heap w) a = Some (Tw_Timer, e, r, int i)" "0 \<le> r"
    using tw_repr_core [OF assms(1)] by blast
  have "0 \<le> int N_SLOTS * r" using r(2) by simp
  then show ?thesis
    using r(1) N_SLOTS_pos by (simp add: due_def add_increasing2)
qed

lemma tw_ticks_ok:
  "tw_repr w S \<Longrightarrow> \<exists>w' S' xs. tw_ticks k w = Ret () w' \<and> tw_repr w' S' \<and> c_fired w' = c_fired w @ xs
     \<and> set xs = {a \<in> wheel_timers S. due w a \<le> int k} \<and> distinct xs \<and> sorted (map (due w) xs)
     \<and> wheel_timers S' = wheel_timers S - set xs \<and> (\<forall>a \<in> wheel_timers S'. due w' a = due w a - int k)"
proof (induction k arbitrary: w S)
  case 0
  have "due w a \<le> 0 \<Longrightarrow> a \<notin> wheel_timers S" for a
    using due_pos [OF 0] by force
  then show ?case
    using 0 by (intro exI [of _ w] exI [of _ S] exI [of _ "[]"]) auto
next
  case (Suc k)
  obtain v T xs where v: "tw_tick w = Ret () v" "tw_repr v T" "c_fired v = c_fired w @ xs"
      "set xs = {a \<in> wheel_timers S. due w a = 1}" "distinct xs" "wheel_timers T = wheel_timers S - set xs"
      "\<forall>a \<in> wheel_timers T. due v a = due w a - 1"
    using tw_tick_ok [OF Suc.prems] by blast
  obtain w' S' ys where w': "tw_ticks k v = Ret () w'" "tw_repr w' S'" "c_fired w' = c_fired v @ ys"
      "set ys = {a \<in> wheel_timers T. due v a \<le> int k}" "distinct ys" "sorted (map (due v) ys)"
      "wheel_timers S' = wheel_timers T - set ys" "\<forall>a \<in> wheel_timers S'. due w' a = due v a - int k"
    using Suc.IH [OF v(2)] by blast
  have one: "1 \<le> due w a" if "a \<in> wheel_timers S" for a
    using due_pos [OF Suc.prems that] .
  have T: "due w a = due v a + 1" if "a \<in> set ys" for a
    using v(7) w'(4) that by auto
  have "sorted (map (due w) ys)"
  proof -
    have "map (due w) ys = map (\<lambda>d. d + 1) (map (due v) ys)"
      using T by simp
    then show ?thesis
      using w'(6) by (simp only: sorted_map) (simp add: sorted_wrt_map)
  qed
  moreover have "sorted (map (due w) xs)"
  proof -
    have "map (due w) xs = replicate (length xs) 1"
      using v(4) by (intro replicate_eqI) auto
    then show ?thesis by simp
  qed
  moreover have "due w a \<le> due w b" if "a \<in> set xs" "b \<in> set ys" for a b
    using that v(4,6) w'(4) one by auto
  ultimately have "sorted (map (due w) (xs @ ys))"
    by (auto simp: sorted_append)
  moreover have "set (xs @ ys) = {a \<in> wheel_timers S. due w a \<le> int (Suc k)}"
    using v(4,6,7) w'(4) one by force
  moreover have "distinct (xs @ ys)" using v(5,6) w'(4,5) by auto
  moreover have "due w' a = due w a - int (Suc k)" if "a \<in> wheel_timers S'" for a
    using that w'(7,8) v(7) by auto
  moreover have "wheel_timers S' = wheel_timers S - set (xs @ ys)"
    using w'(7) v(6) by auto
  ultimately show ?case
    using v(1,3) w'(1-3) by (intro exI [of _ w'] exI [of _ S'] exI [of _ "xs @ ys"]) (auto simp: thenp_unfold)
qed

section \<open>Properties\<close>

text \<open>
  C24: on a wheel whose lists are in order (\<open>tw_repr\<close>: the empty wheel, and what \<open>add_timer\<close> of a new timer and \<open>tick\<close> make of such a
  wheel; not what \<open>adjust_timer\<close> makes of it, see wheel_adjust_stale_links), \<open>k\<close> ticks run without a fault and keep the lists in order; they run the callbacks
  of exactly the timers that wait for at most \<open>k\<close> ticks, each once, those that wait for fewer
  ticks first, and the other timers stay and wait for \<open>k\<close> ticks less.
\<close>

theorem wheel_fires_when_due:
  assumes "tw_repr w S"
  shows "\<exists>w' S' xs. tw_ticks k w = Ret () w' \<and> tw_repr w' S' \<and> c_fired w' = c_fired w @ xs
     \<and> set xs = {a \<in> wheel_timers S. due w a \<le> int k} \<and> distinct xs \<and> sorted (map (due w) xs)
     \<and> wheel_timers S' = wheel_timers S - set xs \<and> (\<forall>a \<in> wheel_timers S'. due w' a = due w a - int k)"
  by (rule tw_ticks_ok [OF assms])

text \<open>
  A fresh timer that expires in \<open>n\<close> seconds (none counts as one) and is added to a wheel runs
  with the tick \<open>n\<close>, but with the tick \<open>n + 60\<close> when \<open>n\<close> is a multiple of 60: it is put into
  the current slot with a turn for every 60 seconds, and the slot is not seen before a turn is over.
\<close>

theorem wheel_add_due:
  assumes "tw_repr w S" "c_heap w a = Some t" "tm_class t = Tw_Timer" "tm_prev t = None" "tm_next t = None"
    and "a \<notin> wheel_timers S"
    and "n = ticks_of (int32 (tm_expire t - next_time w))" "0 < n" "w_cur_slot w + n < 2 ^ 31"
  shows "\<exists>w' xs. thenp (tw_add_timer (Some a)) (tw_ticks k) w = Ret () w' \<and> c_fired w' = c_fired w @ xs
    \<and> (a \<in> set xs \<longleftrightarrow> (if n mod 60 = 0 then n + 60 else n) \<le> int k)
    \<and> (\<forall>b \<in> wheel_timers S. b \<in> set xs \<longleftrightarrow> due w b \<le> int k)"
proof -
  obtain v T where v: "tw_add_timer (Some a) w = Ret () v" "tw_repr v T" "wheel_timers T = insert a (wheel_timers S)"
      "c_fired v = c_fired w" "due v a = (if n mod 60 = 0 then n + 60 else n)" "\<forall>b \<in> wheel_timers S. due v b = due w b"
    using tw_add_ok [OF assms] by blast
  obtain w' xs where w': "tw_ticks k v = Ret () w'" "c_fired w' = c_fired v @ xs"
      "set xs = {a \<in> wheel_timers T. due v a \<le> int k}"
    using tw_ticks_ok [OF v(2)] by blast
  show ?thesis
    using v w' by (intro exI [of _ w'] exI [of _ xs]) (simp add: thenp_unfold)
qed

text \<open>A process at time 0 with three timers, and an empty wheel.\<close>

definition wheel_timer :: "int \<Rightarrow> timer" where
  "wheel_timer e = \<lparr>tm_class = Tw_Timer, tm_expire = e, tm_prev = None, tm_next = None, tm_rotation = 0, tm_slot_idx = 0\<rparr>"

definition wheel_world :: tw where
  "wheel_world = timer_wheel \<lparr>c_heap = [1 \<mapsto> wheel_timer 5, 2 \<mapsto> wheel_timer 5, 3 \<mapsto> wheel_timer 60],
     c_times = [], c_now = 0, c_alarm = 0, c_blocked = False, c_fired = []\<rparr>"

lemma wheel_world_repr: "tw_repr wheel_world (\<lambda>_. [])"
  by (simp add: wheel_world_def timer_wheel_def tw_repr_def clocked.extend_def N_SLOTS_def chain_def)

theorem wheel_fires_when_due_witness:
  "\<exists>w w'. tw_add_timer (Some 1) wheel_world = Ret () w \<and> due w 1 = 5 \<and> tw_ticks 5 w = Ret () w' \<and> c_fired w' = [1]"
proof -
  have "c_heap wheel_world 1 = Some (wheel_timer 5)" "(5 :: int) = ticks_of (int32 (tm_expire (wheel_timer 5) - next_time wheel_world))"
      "w_cur_slot wheel_world + 5 < 2 ^ 31" "1 \<notin> wheel_timers (\<lambda>_. [])"
    by (simp_all add: wheel_world_def timer_wheel_def clocked.extend_def ticks_of_def wheel_timer_def next_time_def int32_def wheel_timers_def)
  then obtain w S where w: "tw_add_timer (Some 1) wheel_world = Ret () w" "tw_repr w S" "wheel_timers S = {1}"
      "c_fired w = []" "due w 1 = 5"
    using tw_add_ok [OF wheel_world_repr, of 1 "wheel_timer 5" 5]
    by (auto simp: wheel_timer_def wheel_timers_def wheel_world_def timer_wheel_def clocked.extend_def)
  then obtain w' xs where x: "tw_ticks 5 w = Ret () w'" "c_fired w' = xs" "set xs = {1}" "distinct xs"
    using wheel_fires_when_due [OF w(2), of 5] by (auto simp: Collect_conv_if)
  have "length xs = 1"
    using distinct_card [OF x(4)] x(3) by simp
  then have "xs = [1]"
    using x(3) by (cases xs) auto
  then show ?thesis using w x by blast
qed

theorem wheel_add_due_witness:
  "(\<exists>w' xs. thenp (tw_add_timer (Some 3)) (tw_ticks 119) wheel_world = Ret () w' \<and> c_fired w' = xs \<and> 3 \<notin> set xs)
   \<and> (\<exists>w' xs. thenp (tw_add_timer (Some 3)) (tw_ticks 120) wheel_world = Ret () w' \<and> c_fired w' = xs \<and> 3 \<in> set xs)"
proof -
  have pre: "c_heap wheel_world 3 = Some (wheel_timer 60)" "3 \<notin> wheel_timers (\<lambda>_. [])"
    "(60 :: int) = ticks_of (int32 (tm_expire (wheel_timer 60) - next_time wheel_world))"
    "w_cur_slot wheel_world + 60 < 2 ^ 31" "c_fired wheel_world = []"
    by (simp_all add: wheel_world_def timer_wheel_def clocked.extend_def wheel_timers_def ticks_of_def wheel_timer_def
        next_time_def int32_def)
  have t: "tm_class (wheel_timer 60) = Tw_Timer" "tm_prev (wheel_timer 60) = None" "tm_next (wheel_timer 60) = None"
    by (simp_all add: wheel_timer_def)
  note run = wheel_add_due [OF wheel_world_repr pre(1) t pre(2,3) _ pre(4)]
  show ?thesis
    using run [of 119] run [of 120] pre(5) by force
qed

declare tw_find.simps [code] tw_tick_loop.simps [code]

text \<open>
  \<open>adjust_timer\<close> moves a timer with its old links. Timers 2 and 1 expire in 5 seconds and share a slot;
  when timer 2, in front, is moved to 3 seconds, it still leads to timer 1, and 3 ticks
  run both; the slot of timer 1 is left with the deleted object, and its tick is undefined behaviour.
\<close>

theorem wheel_adjust_stale_links:
  "let moved = thenp (tw_add_timer (Some 1)) (thenp (tw_add_timer (Some 2))
                 (thenp (set_expire 2 3) (tw_adjust_timer (Some 2)))) in
   (case thenp moved (tw_ticks 3) wheel_world of Ret _ w \<Rightarrow> c_fired w = [2, 1] | _ \<Rightarrow> False)
   \<and> (case thenp moved (tw_ticks 5) wheel_world of Undef \<Rightarrow> True | _ \<Rightarrow> False)"
  by code_simp

end
