(* ===== verification/Process_Pool.thy ===== *)
theory Process_Pool
  imports Wheel_Timer
begin

text \<open>
  lib/processpool.hh: a parent that hands new connections to its children in turn, and the
  children, each with a timer for every connection in the wheel of Wheel_Timer. What the kernel
  delivers (the results of fork, epoll_wait, accept, waitpid and the signals) is the input of the
  definitions; what the processes do to the outside is a log.
\<close>

section \<open>The pool\<close>

datatype act =
    Sent int | Closed int | Killed int int | Watched int | Callback int | Handler int | Said string

record process =
  pr_pid :: int
  pr_pipe0 :: int
  pr_pipe1 :: int

definition no_process :: process where
  "no_process = \<lparr>pr_pid = - 1, pr_pipe0 = - 1, pr_pipe1 = - 1\<rparr>"

text \<open>
  The members of the pool, with its wheel, and what a child has besides: the timers of its users (None: never
  set) and the address the next \<open>new\<close> returns. \<open>pp_calls\<close> says which of the checked calls to come succeed;
  \<open>pp_reaped\<close> what waitpid returns for the SIGCHLD signals to come.
\<close>

record ppool = tw +
  pp_process :: "process list"
  pp_idx :: int
  pp_stop :: bool
  pp_counter :: nat
  pp_timeout :: bool
  pp_users :: "addr option option list"
  pp_next :: addr
  pp_calls :: "bool list"
  pp_reaped :: "int list list"
  pp_log :: "act list"

definition max_process_number :: nat where "max_process_number = 16"
definition timeslot :: int where "timeslot = 5"

definition SIGINT :: int where "SIGINT = 2"
definition SIGPIPE :: int where "SIGPIPE = 13"
definition SIGALRM :: int where "SIGALRM = 14"
definition SIGTERM :: int where "SIGTERM = 15"
definition SIGCHLD :: int where "SIGCHLD = 17"

definition logp :: "act \<Rightarrow> (ppool, unit) prog" where
  "logp a = modifyp (\<lambda>p. p\<lparr>pp_log := pp_log p @ [a]\<rparr>)"

text \<open>A call inside an \<open>assert\<close>.\<close>

definition assert_call :: "(ppool, unit) prog" where
  "assert_call p = (case pp_calls p of [] \<Rightarrow> Ret () p
     | ok # cs \<Rightarrow> if ok then Ret () (p\<lparr>pp_calls := cs\<rparr>) else Exit 134 p)"

section \<open>The constructor\<close>

text \<open>
  What one turn of the loop gets: the two ends of the socket pair and the result of fork, or
  None when socketpair fails.
\<close>

fun pool_fork :: "nat \<Rightarrow> (int \<times> int \<times> int) option list \<Rightarrow> (ppool, unit) prog" where
  "pool_fork i [] = retp ()"
| "pool_fork i (None # rest) = exitp 134"
| "pool_fork i (Some (a, b, pid) # rest) =
     (if pid < 0 then exitp 134
      else thenp (modifyp (\<lambda>p. p\<lparr>pp_process := (pp_process p)[i := \<lparr>pr_pid = pid, pr_pipe0 = a, pr_pipe1 = b\<rparr>]\<rparr>))
        (if pid = 0 then thenp (logp (Closed b)) (modifyp (\<lambda>p. p\<lparr>pp_idx := int i\<rparr>))
         else thenp (logp (Closed a)) (pool_fork (i + 1) rest)))"

definition pool_create :: "nat \<Rightarrow> (int \<times> int \<times> int) option list \<Rightarrow> (ppool, unit) prog" where
  "pool_create proc_num forks =
     (if 0 < proc_num \<and> proc_num \<le> max_process_number
      then thenp (modifyp (\<lambda>p. p\<lparr>pp_process := replicate proc_num no_process, pp_idx := - 1, pp_stop := False\<rparr>))
             (pool_fork 0 (take proc_num forks))
      else exitp 134)"

definition addsig :: "int \<Rightarrow> (ppool, unit) prog" where
  "addsig sig = thenp assert_call (logp (Handler sig))"

definition setup_sig_pipe :: "(ppool, unit) prog" where
  "setup_sig_pipe =
     thenp assert_call (thenp assert_call
     (thenp (addsig SIGCHLD) (thenp (addsig SIGTERM) (thenp (addsig SIGINT) (addsig SIGPIPE)))))"

text \<open>The results of epoll_wait: an error, an interruption, or the events that are ready.\<close>

datatype 'e wait = Wait_Error | Wait_Intr | Wait_Events "'e list"

section \<open>The parent\<close>

datatype pevent = P_Listen | P_Signals "int list option" | P_Other

text \<open>The search for a child that runs, from \<open>counter\<close> on and around.\<close>

partial_function (option) search_child :: "process list \<Rightarrow> nat \<Rightarrow> nat \<Rightarrow> nat option" where
  "search_child ps counter j =
     (if pr_pid (ps ! j) \<noteq> - 1 then Some j
      else let j' = (j + 1) mod length ps in
           if j' \<noteq> counter then search_child ps counter j' else Some j')"

text \<open>A connection is ready to be accepted: whether the loop over the events is left.\<close>

definition parent_listen :: "(ppool, bool) prog" where
  "parent_listen =
     bindp (getsp (\<lambda>p. p)) (\<lambda>p. case search_child (pp_process p) (pp_counter p) (pp_counter p) of
       None \<Rightarrow> undefp
     | Some j \<Rightarrow>
         if pr_pid (pp_process p ! j) = - 1
         then thenp (logp (Said ''None running child process''))
                (thenp (modifyp (\<lambda>p. p\<lparr>pp_stop := True\<rparr>)) (retp True))
         else thenp (modifyp (\<lambda>p. p\<lparr>pp_counter := (pp_counter p + 1) mod length (pp_process p)\<rparr>))
              (thenp (logp (Sent (pr_pipe1 (pp_process p ! j))))
              (thenp (logp (Said (''send request to child '' @ dec j))) (retp False))))"

text \<open>The first process with the pid is marked as gone; its pipe is returned.\<close>

fun mark_exit :: "int \<Rightarrow> nat \<Rightarrow> process list \<Rightarrow> process list \<times> (nat \<times> int) option" where
  "mark_exit pid k [] = ([], None)"
| "mark_exit pid k (q # qs) =
     (if pr_pid q = pid then (q\<lparr>pr_pid := - 1\<rparr> # qs, Some (k, pr_pipe1 q))
      else (case mark_exit pid (k + 1) qs of (qs', r) \<Rightarrow> (q # qs', r)))"

definition reap :: "int \<Rightarrow> (ppool, unit) prog" where
  "reap pid =
     bindp (getsp (\<lambda>p. mark_exit pid 0 (pp_process p))) (\<lambda>(qs, r). case r of
       None \<Rightarrow> retp ()
     | Some (k, fd) \<Rightarrow>
         thenp (logp (Said (''child '' @ dec k @ '' exit'')))
         (thenp (logp (Closed fd)) (modifyp (\<lambda>p. p\<lparr>pp_process := qs\<rparr>))))"

fun reap_all :: "int list \<Rightarrow> (ppool, unit) prog" where
  "reap_all [] = retp ()"
| "reap_all (pid # pids) = thenp (reap pid) (reap_all pids)"

fun kill_all :: "int \<Rightarrow> process list \<Rightarrow> (ppool, unit) prog" where
  "kill_all sig [] = retp ()"
| "kill_all sig (q # qs) = thenp (if pr_pid q \<noteq> - 1 then logp (Killed (pr_pid q) sig) else retp ()) (kill_all sig qs)"

definition next_reaped :: "(ppool, int list) prog" where
  "next_reaped p = (case pp_reaped p of [] \<Rightarrow> Ret [] p | r # rs \<Rightarrow> Ret r (p\<lparr>pp_reaped := rs\<rparr>))"

definition parent_signal :: "int \<Rightarrow> (ppool, unit) prog" where
  "parent_signal sig =
     (if sig = SIGCHLD
      then bindp next_reaped (\<lambda>pids. thenp (reap_all pids)
             (modifyp (\<lambda>p. p\<lparr>pp_stop := list_all (\<lambda>q. pr_pid q = - 1) (pp_process p)\<rparr>)))
      else if sig = SIGTERM \<or> sig = SIGINT then bindp (getsp pp_process) (kill_all sig)
      else retp ())"

fun parent_signals :: "int list \<Rightarrow> (ppool, unit) prog" where
  "parent_signals [] = retp ()"
| "parent_signals (s # ss) = thenp (parent_signal s) (parent_signals ss)"

fun parent_event :: "pevent \<Rightarrow> (ppool, bool) prog" where
  "parent_event P_Listen = parent_listen"
| "parent_event (P_Signals None) = retp False"
| "parent_event (P_Signals (Some ss)) = thenp (parent_signals ss) (retp False)"
| "parent_event P_Other = retp False"

fun parent_events :: "pevent list \<Rightarrow> (ppool, unit) prog" where
  "parent_events [] = retp ()"
| "parent_events (e # es) = bindp (parent_event e) (\<lambda>brk. if brk then retp () else parent_events es)"

text \<open>The loop: whether it has ended; otherwise the parent waits for what comes behind the list.\<close>

fun parent_loop :: "pevent wait list \<Rightarrow> (ppool, bool) prog" where
  "parent_loop [] = getsp pp_stop"
| "parent_loop (x # xs) =
     bindp (getsp pp_stop) (\<lambda>stop.
     if stop then retp True
     else (case x of
         Wait_Error \<Rightarrow> thenp (logp (Said ''epoll_wait'')) (retp True)
       | Wait_Intr \<Rightarrow> parent_loop xs
       | Wait_Events es \<Rightarrow> thenp (parent_events es) (parent_loop xs)))"

text \<open>In the parent \<open>idx\<close> is -1, and the array is read there.\<close>

definition run_parent :: "pevent wait list \<Rightarrow> (ppool, bool) prog" where
  "run_parent xs =
     thenp setup_sig_pipe
     (bindp (getsp (\<lambda>p. p)) (\<lambda>p.
      if 0 \<le> pp_idx p \<and> pp_idx p < int (length (pp_process p))
      then thenp (modifyp (\<lambda>p. p\<lparr>pp_counter := 0\<rparr>)) (bindp (parent_loop xs) (\<lambda>ended.
             if ended then thenp (logp (Said ''Parent exit'')) (retp True) else retp False))
      else undefp))"

section \<open>A child\<close>

text \<open>
  The events of a child: the parent's request, with the result of accept (None when the request
  cannot be read); signals; and data of a user, with the result of its \<open>process\<close>.
\<close>

datatype cevent = C_Request "int option" | C_Signals "int list option" | C_Data int bool | C_Other

definition user_at :: "int \<Rightarrow> (ppool, addr option option) prog" where
  "user_at fd p = (if 0 \<le> fd \<and> fd < int (length (pp_users p)) then Ret (pp_users p ! nat fd) p else Undef)"

definition lift_tw :: "(tw, unit) prog \<Rightarrow> (ppool, unit) prog" where
  "lift_tw m p = (case m (tw.truncate p) of
     Ret u w \<Rightarrow> Ret u (p\<lparr>c_heap := c_heap w, c_times := c_times w, c_now := c_now w, c_alarm := c_alarm w,
       c_blocked := c_blocked w, c_fired := c_fired w, w_slots := w_slots w, w_cur_slot := w_cur_slot w, w_count := w_count w\<rparr>)
   | Exit k w \<Rightarrow> Exit k p | Undef \<Rightarrow> Undef)"

definition new_util_timer :: "int \<Rightarrow> (ppool, addr) prog" where
  "new_util_timer e p =
     Ret (pp_next p) (p\<lparr>c_heap := (c_heap p)(pp_next p \<mapsto> \<lparr>tm_class = Util_Timer, tm_expire = e, tm_prev = None,
       tm_next = None, tm_rotation = 0, tm_slot_idx = 0\<rparr>), pp_next := pp_next p + 1\<rparr>)"

definition child_request :: "int option \<Rightarrow> (ppool, unit) prog" where
  "child_request r =
     (case r of
        None \<Rightarrow> retp ()
      | Some connfd \<Rightarrow>
          if connfd < 0 then logp (Said ''accept'')
          else thenp (logp (Watched connfd))
               (bindp (user_at connfd) (\<lambda>_.
                bindp sys_time (\<lambda>now.
                bindp (new_util_timer (now + 3 * timeslot)) (\<lambda>a.
                thenp (modifyp (\<lambda>p. p\<lparr>pp_users := (pp_users p)[nat connfd := Some (Some a)]\<rparr>))
                  (lift_tw (tw_add_timer (Some a))))))))"

definition child_signal :: "int \<Rightarrow> (ppool, unit) prog" where
  "child_signal sig =
     (if sig = SIGALRM then modifyp (\<lambda>p. p\<lparr>pp_timeout := True\<rparr>)
      else if sig = SIGCHLD then bindp next_reaped (\<lambda>_. retp ())
      else if sig = SIGTERM \<or> sig = SIGINT then modifyp (\<lambda>p. p\<lparr>pp_stop := True\<rparr>)
      else retp ())"

fun child_signals :: "int list \<Rightarrow> (ppool, unit) prog" where
  "child_signals [] = retp ()"
| "child_signals (s # ss) = thenp (child_signal s) (child_signals ss)"

definition child_data :: "int \<Rightarrow> bool \<Rightarrow> (ppool, unit) prog" where
  "child_data fd res =
     bindp (user_at fd) (\<lambda>u. case u of
       None \<Rightarrow> undefp
     | Some timer \<Rightarrow>
         if \<not> res
         then thenp (logp (Callback fd))
              (thenp (if timer \<noteq> None then lift_tw (tw_del_timer timer) else retp ())
                (logp (Said ''user close...'')))
         else (case timer of
             None \<Rightarrow> retp ()
           | Some a \<Rightarrow> bindp sys_time (\<lambda>now. thenp (set_expire a (now + 3 * timeslot))
               (thenp (logp (Said ''Adjust timer'')) (lift_tw (tw_adjust_timer timer))))))"

fun child_event :: "cevent \<Rightarrow> (ppool, unit) prog" where
  "child_event (C_Request r) = child_request r"
| "child_event (C_Signals None) = retp ()"
| "child_event (C_Signals (Some ss)) = child_signals ss"
| "child_event (C_Data fd res) = child_data fd res"
| "child_event C_Other = retp ()"

fun child_events :: "cevent list \<Rightarrow> (ppool, unit) prog" where
  "child_events [] = retp ()"
| "child_events (e # es) = thenp (child_event e) (child_events es)"

definition timer_handler :: "(ppool, unit) prog" where
  "timer_handler = lift_tw tw_tick"

definition child_timeout :: "(ppool, unit) prog" where
  "child_timeout = bindp (getsp pp_timeout) (\<lambda>t.
     if t then thenp timer_handler (modifyp (\<lambda>p. p\<lparr>pp_timeout := False\<rparr>)) else retp ())"

fun child_loop :: "cevent wait list \<Rightarrow> (ppool, bool) prog" where
  "child_loop [] = getsp pp_stop"
| "child_loop (x # xs) =
     bindp (getsp pp_stop) (\<lambda>stop.
     if stop then retp True
     else (case x of
         Wait_Error \<Rightarrow> thenp (logp (Said ''epoll_wait'')) (retp True)
       | Wait_Intr \<Rightarrow> thenp child_timeout (child_loop xs)
       | Wait_Events es \<Rightarrow> thenp (child_events es) (thenp child_timeout (child_loop xs))))"

definition run_child :: "cevent wait list \<Rightarrow> (ppool, bool) prog" where
  "run_child xs =
     thenp setup_sig_pipe (thenp (addsig SIGALRM)
     (bindp (getsp (\<lambda>p. p)) (\<lambda>p.
      if 0 \<le> pp_idx p \<and> pp_idx p < int (length (pp_process p))
      then thenp (logp (Watched (pr_pipe0 (pp_process p ! nat (pp_idx p)))))
           (thenp (modifyp (\<lambda>p. p\<lparr>pp_users := replicate max_process_number None, pp_timeout := False\<rparr>))
             (child_loop xs))
      else undefp)))"

definition run_pool :: "pevent wait list \<Rightarrow> cevent wait list \<Rightarrow> (ppool, bool) prog" where
  "run_pool ps cs = bindp (getsp pp_idx) (\<lambda>idx. if idx = - 1 then run_parent ps else run_child cs)"

section \<open>The turn of the children\<close>

definition turn_from :: "nat \<Rightarrow> nat \<Rightarrow> nat \<Rightarrow> nat list" where
  "turn_from c n m = map (\<lambda>k. (c + k) mod n) [m..<n]"

definition live_in :: "process list \<Rightarrow> nat \<Rightarrow> bool" where
  "live_in ps j \<longleftrightarrow> pr_pid (ps ! j) \<noteq> - 1"

lemma turn_from_Cons: "m < n \<Longrightarrow> turn_from c n m = (c + m) mod n # turn_from c n (Suc m)"
  by (simp add: turn_from_def upt_conv_Cons)

lemma search_child_find:
  assumes "c < length ps" "m < length ps"
  shows "search_child ps c ((c + m) mod length ps) =
    Some (case find (live_in ps) (turn_from c (length ps) m) of None \<Rightarrow> c | Some j \<Rightarrow> j)"
  using assms(2)
proof (induction "length ps - m" arbitrary: m rule: less_induct)
  case less
  let ?n = "length ps"
  let ?j = "(c + m) mod ?n"
  have j': "(?j + 1) mod ?n = (c + Suc m) mod ?n"
    by (simp add: mod_simps)
  show ?case
  proof (cases "live_in ps ?j")
    case True
    then show ?thesis
      using turn_from_Cons [OF less.prems, of c] by (subst search_child.simps) (simp add: live_in_def)
  next
    case False
    show ?thesis
    proof (cases "Suc m = ?n")
      case True
      have "(c + Suc m) mod ?n = c"
        using True assms(1) by simp
      then show ?thesis
        using False turn_from_Cons [OF less.prems, of c] True j'
        by (subst search_child.simps) (simp add: live_in_def turn_from_def Let_def)
    next
      case more: False
      then have lt: "Suc m < ?n" using less.prems by simp
      have "(c + Suc m) mod ?n \<noteq> c"
      proof
        assume "(c + Suc m) mod ?n = c"
        moreover have "(c + Suc m) mod ?n = (if c + Suc m < ?n then c + Suc m else c + Suc m - ?n)"
          using assms(1) lt by (simp add: mod_if le_mod_geq)
        ultimately show False using lt assms(1) by (auto split: if_splits)
      qed
      then show ?thesis
        using False less.hyps [of "Suc m"] lt j' turn_from_Cons [OF less.prems, of c]
        by (subst search_child.simps) (simp add: live_in_def Let_def)
    qed
  qed
qed

lemma search_child_start:
  "c < length ps \<Longrightarrow> search_child ps c c =
     Some (case find (live_in ps) (turn_from c (length ps) 0) of None \<Rightarrow> c | Some j \<Rightarrow> j)"
  using search_child_find [of c ps 0] by (cases "ps = []") auto

lemma find_live: "find (live_in ps) js = Some j \<Longrightarrow> live_in ps j"
  by (induction js) (auto split: if_splits)

lemma find_turn_None:
  assumes "find (live_in ps) (turn_from c (length ps) 0) = None" "c < length ps"
  shows "\<not> live_in ps c"
proof -
  have "c mod length ps \<in> set (turn_from c (length ps) 0)"
    using turn_from_Cons [of 0 "length ps" c] assms(2) by (cases "ps = []") auto
  then show ?thesis
    using assms by (auto simp: find_None_iff)
qed

lemma find_turn_less: "find (live_in ps) (turn_from c (length ps) 0) = Some j \<Longrightarrow> j < length ps"
  by (cases "ps = []") (auto simp: turn_from_def find_Some_iff)

lemma parent_listen_eq:
  assumes "pp_counter p < length (pp_process p)"
  shows "parent_listen p =
    (case find (live_in (pp_process p)) (turn_from (pp_counter p) (length (pp_process p)) 0) of
       None \<Rightarrow> Ret True (p\<lparr>pp_stop := True, pp_log := pp_log p @ [Said ''None running child process'']\<rparr>)
     | Some j \<Rightarrow> Ret False (p\<lparr>pp_counter := (pp_counter p + 1) mod length (pp_process p),
         pp_log := pp_log p @ [Sent (pr_pipe1 (pp_process p ! j)), Said (''send request to child '' @ dec j)]\<rparr>))"
  using assms search_child_start [OF assms] find_turn_None [OF _ assms] find_live
  by (fastforce simp: parent_listen_def bindp_unfold thenp_unfold logp_def live_in_def split: option.split)

section \<open>What the parent keeps\<close>

text \<open>The pipe of a child that runs is open; no request has been sent to a closed pipe.\<close>

definition sends_ok :: "act list \<Rightarrow> bool" where
  "sends_ok l \<longleftrightarrow> (\<forall>xs fd ys. l = xs @ Sent fd # ys \<longrightarrow> Closed fd \<notin> set xs)"

definition parent_inv :: "ppool \<Rightarrow> bool" where
  "parent_inv p \<longleftrightarrow> pp_counter p < length (pp_process p) \<and> distinct (map pr_pipe1 (pp_process p))
     \<and> (\<forall>q \<in> set (pp_process p). pr_pid q \<noteq> - 1 \<longrightarrow> Closed (pr_pipe1 q) \<notin> set (pp_log p)) \<and> sends_ok (pp_log p)"

lemma sends_ok_snoc: "sends_ok (l @ [a]) \<longleftrightarrow> sends_ok l \<and> (\<forall>fd. a = Sent fd \<longrightarrow> Closed fd \<notin> set l)"
proof
  assume s: "sends_ok (l @ [a])"
  have "sends_ok l"
    unfolding sends_ok_def
  proof (intro allI impI)
    fix xs fd ys assume "l = xs @ Sent fd # ys"
    then have "l @ [a] = xs @ Sent fd # (ys @ [a])" by simp
    then show "Closed fd \<notin> set xs" using s unfolding sends_ok_def by blast
  qed
  then show "sends_ok l \<and> (\<forall>fd. a = Sent fd \<longrightarrow> Closed fd \<notin> set l)"
    using s unfolding sends_ok_def by blast
next
  assume s: "sends_ok l \<and> (\<forall>fd. a = Sent fd \<longrightarrow> Closed fd \<notin> set l)"
  show "sends_ok (l @ [a])"
    unfolding sends_ok_def
  proof (intro allI impI)
    fix xs fd ys assume e: "l @ [a] = xs @ Sent fd # ys"
    show "Closed fd \<notin> set xs"
    proof (cases ys rule: rev_cases)
      case Nil
      then show ?thesis using e s by simp
    next
      case (snoc zs z)
      then have "l = xs @ Sent fd # zs" using e by simp
      then show ?thesis using s unfolding sends_ok_def by blast
    qed
  qed
qed

lemma parent_inv_log:
  "parent_inv p \<Longrightarrow> (\<And>fd. a \<noteq> Closed fd \<and> a \<noteq> Sent fd) \<Longrightarrow> parent_inv (p\<lparr>pp_log := pp_log p @ [a]\<rparr>)"
  by (auto simp: parent_inv_def sends_ok_snoc)

lemma parent_inv_stop [simp]: "parent_inv (p\<lparr>pp_stop := b\<rparr>) = parent_inv p" "parent_inv (p\<lparr>pp_reaped := rs\<rparr>) = parent_inv p"
  by (simp_all add: parent_inv_def)

definition keeps :: "(ppool, 'a) prog \<Rightarrow> bool" where
  "keeps m \<longleftrightarrow> (\<forall>p. parent_inv p \<longrightarrow> (\<exists>a p'. m p = Ret a p' \<and> parent_inv p'))"

lemma keeps_Ret: "keeps m \<Longrightarrow> parent_inv p \<Longrightarrow> \<exists>a p'. m p = Ret a p' \<and> parent_inv p'"
  by (simp add: keeps_def)

lemma keeps_bind:
  assumes "keeps m" "\<And>a. keeps (f a)"
  shows "keeps (bindp m f)"
  unfolding keeps_def
proof (intro allI impI)
  fix p assume "parent_inv p"
  then obtain a v where "m p = Ret a v" "parent_inv v" using keeps_Ret [OF assms(1)] by blast
  then show "\<exists>b p'. bindp m f p = Ret b p' \<and> parent_inv p'"
    using keeps_Ret [OF assms(2)] by simp
qed

lemma keeps_then: "keeps m \<Longrightarrow> keeps n \<Longrightarrow> keeps (thenp m n)"
  unfolding thenp_def by (rule keeps_bind)

lemma keeps_basic: "keeps (retp a)" "keeps (getsp f)" "keeps (logp (Said s))" "keeps (logp (Killed i j))"
  by (auto simp: keeps_def logp_def intro: parent_inv_log)

lemma mark_exit_result:
  "mark_exit pid k qs = (qs', r) \<Longrightarrow> length qs' = length qs \<and> map pr_pipe1 qs' = map pr_pipe1 qs
     \<and> (case r of None \<Rightarrow> qs' = qs
        | Some (i, fd) \<Rightarrow> \<exists>us q vs. qs = us @ q # vs \<and> qs' = us @ q\<lparr>pr_pid := - 1\<rparr> # vs \<and> fd = pr_pipe1 q)"
proof (induction pid k qs arbitrary: qs' r rule: mark_exit.induct)
  case (2 pid k q qs)
  show ?case
  proof (cases "pr_pid q = pid")
    case True
    then have r: "qs' = q\<lparr>pr_pid := - 1\<rparr> # qs" "r = Some (k, pr_pipe1 q)"
      using 2(2) by auto
    have "q # qs = [] @ q # qs \<and> qs' = [] @ q\<lparr>pr_pid := - 1\<rparr> # qs"
      using r by simp
    then show ?thesis
      using r by (simp del: append_Nil) blast
  next
    case False
    obtain ts s where t: "mark_exit pid (k + 1) qs = (ts, s)" by (cases "mark_exit pid (k + 1) qs")
    then have r: "qs' = q # ts" "r = s" using 2(2) False by auto
    show ?thesis
    proof (cases s)
      case None
      then show ?thesis using 2(1) [OF False t] r by simp
    next
      case (Some f)
      then obtain i fd us q' vs where "f = (i, fd)" "qs = us @ q' # vs" "ts = us @ q'\<lparr>pr_pid := - 1\<rparr> # vs" "fd = pr_pipe1 q'"
        using 2(1) [OF False t] by (cases f) auto
      moreover have "q # qs = (q # us) @ q' # vs" "qs' = (q # us) @ q'\<lparr>pr_pid := - 1\<rparr> # vs"
        using calculation r by simp_all
      ultimately show ?thesis
        using r Some by (auto intro!: exI [of _ "q # us"])
    qed
  qed
qed simp

lemma keeps_reap: "keeps (reap pid)"
  unfolding keeps_def
proof (intro allI impI)
  fix p assume p: "parent_inv p"
  obtain qs r where m: "mark_exit pid 0 (pp_process p) = (qs, r)" by (cases "mark_exit pid 0 (pp_process p)")
  note res = mark_exit_result [OF m]
  show "\<exists>a p'. reap pid p = Ret a p' \<and> parent_inv p'"
  proof (cases r)
    case None
    then show ?thesis using m p by (simp add: reap_def bindp_unfold)
  next
    case (Some f)
    then obtain i fd us q vs where f: "f = (i, fd)" "pp_process p = us @ q # vs" "qs = us @ q\<lparr>pr_pid := - 1\<rparr> # vs" "fd = pr_pipe1 q"
      using res by (cases f) auto
    let ?p = "p\<lparr>pp_log := (pp_log p @ [Said (''child '' @ dec i @ '' exit'')]) @ [Closed fd], pp_process := qs\<rparr>"
    have "reap pid p = Ret () ?p"
      using m Some f(1) by (simp add: reap_def bindp_unfold thenp_unfold logp_def)
    moreover have "parent_inv ?p"
      using p f by (auto simp: parent_inv_def sends_ok_snoc simp del: append_assoc) (metis image_eqI)+
    ultimately show ?thesis by blast
  qed
qed

lemma keeps_reap_all: "keeps (reap_all pids)"
  by (induction pids) (auto simp only: reap_all.simps intro!: keeps_basic keeps_then keeps_reap)

lemma keeps_kill_all: "keeps (kill_all sig qs)"
proof (induction qs)
  case (Cons q qs)
  have "keeps (if pr_pid q \<noteq> - 1 then logp (Killed (pr_pid q) sig) else retp ())"
    by (auto simp only: split: if_split intro!: keeps_basic)
  then show ?case
    unfolding kill_all.simps using Cons by (rule keeps_then)
qed (auto simp only: kill_all.simps intro!: keeps_basic)

lemma keeps_signal: "keeps (parent_signal sig)"
proof -
  have "keeps next_reaped"
    by (auto simp: keeps_def next_reaped_def split: list.split)
  moreover have "keeps (modifyp (\<lambda>p. p\<lparr>pp_stop := f p\<rparr>))" for f
    by (simp add: keeps_def)
  ultimately show ?thesis
    unfolding parent_signal_def
    by (auto simp only: split: if_split intro!: keeps_bind keeps_then keeps_basic keeps_reap_all keeps_kill_all)
qed

lemma keeps_signals: "keeps (parent_signals ss)"
  by (induction ss) (auto simp only: parent_signals.simps intro!: keeps_basic keeps_then keeps_signal)

lemma keeps_listen: "keeps parent_listen"
  unfolding keeps_def
proof (intro allI impI)
  fix p assume p: "parent_inv p"
  then have c: "pp_counter p < length (pp_process p)" by (simp add: parent_inv_def)
  show "\<exists>a p'. parent_listen p = Ret a p' \<and> parent_inv p'"
  proof (cases "find (live_in (pp_process p)) (turn_from (pp_counter p) (length (pp_process p)) 0)")
    case None
    then show ?thesis
      using parent_listen_eq [OF c] parent_inv_log [OF p, of "Said ''None running child process''"]
      by (auto simp: parent_inv_def)
  next
    case (Some j)
    have j: "j < length (pp_process p)" "pr_pid (pp_process p ! j) \<noteq> - 1"
      using find_turn_less [OF Some] find_live [OF Some] by (simp_all add: live_in_def)
    then have op: "Closed (pr_pipe1 (pp_process p ! j)) \<notin> set (pp_log p)"
      using p by (simp add: parent_inv_def)
    have s: "sends_ok ((pp_log p @ [Sent (pr_pipe1 (pp_process p ! j))]) @ [Said t])" for t
      using p op unfolding sends_ok_snoc by (auto simp: parent_inv_def)
    have "(pp_counter p + 1) mod length (pp_process p) < length (pp_process p)"
      using j(1) by (intro mod_less_divisor) auto
    then show ?thesis
      using Some parent_listen_eq [OF c] p s by (auto simp: parent_inv_def)
  qed
qed

lemma keeps_event: "keeps (parent_event e)"
  by (cases e rule: parent_event.cases)
    (auto simp only: parent_event.simps intro!: keeps_basic keeps_then keeps_listen keeps_signals)

lemma keeps_events: "keeps (parent_events es)"
  by (induction es) (auto simp only: parent_events.simps split: if_split intro!: keeps_basic keeps_bind keeps_event)

lemma keeps_loop: "keeps (parent_loop xs)"
proof (induction xs)
  case (Cons x xs)
  have "keeps (if stop then retp True else (case x of
         Wait_Error \<Rightarrow> thenp (logp (Said ''epoll_wait'')) (retp True)
       | Wait_Intr \<Rightarrow> parent_loop xs
       | Wait_Events es \<Rightarrow> thenp (parent_events es) (parent_loop xs)))" for stop
    using Cons by (cases stop; cases x)
      (auto simp only: if_True if_False wait.case intro!: keeps_then keeps_events keeps_basic)
  then show ?case
    unfolding parent_loop.simps by (intro keeps_bind keeps_basic)
qed (auto simp only: parent_loop.simps intro!: keeps_basic)

section \<open>A child and its timers\<close>

text \<open>The wheel takes no timer of the class that the child makes.\<close>

lemma tw_add_util: "c_heap w a = Some t \<Longrightarrow> tm_class t = Util_Timer \<Longrightarrow> tw_add_timer (Some a) w = Undef"
  by (simp add: tw_add_timer_def bindp_unfold cast_timer_def at_def)

lemma child_request_Undef:
  assumes "0 \<le> connfd"
  shows "child_request (Some connfd) p = Undef"
proof -
  have "lift_tw (tw_add_timer (Some a)) q = Undef" if "c_heap q a = Some t" "tm_class t = Util_Timer" for q a t
    using that tw_add_util [of "tw.truncate q" a t] by (simp add: lift_tw_def tw.truncate_def)
  then show ?thesis
    using assms
    by (simp add: child_request_def bindp_unfold thenp_unfold logp_def user_at_def new_util_timer_def)
qed

section \<open>Properties\<close>

text \<open>
  C38: a new connection goes to the first child that runs, from the counter on and around, and the counter
  moves on by one; when no child runs, the pool stops.
\<close>

theorem procpool_dispatch:
  assumes "pp_counter p < length (pp_process p)"
  shows "parent_listen p =
    (case find (live_in (pp_process p)) (turn_from (pp_counter p) (length (pp_process p)) 0) of
       None \<Rightarrow> Ret True (p\<lparr>pp_stop := True, pp_log := pp_log p @ [Said ''None running child process'']\<rparr>)
     | Some j \<Rightarrow> Ret False (p\<lparr>pp_counter := (pp_counter p + 1) mod length (pp_process p),
         pp_log := pp_log p @ [Sent (pr_pipe1 (pp_process p ! j)), Said (''send request to child '' @ dec j)]\<rparr>))"
  using parent_listen_eq [OF assms] .

text \<open>
  Whatever events, signals and exits of children come in, the loop of the parent never faults,
  keeps the pipe of every running child open, and never sends a request to a pipe that
  it has closed.
\<close>

theorem procpool_sends_open:
  assumes "parent_inv p"
  shows "\<exists>ended p'. parent_loop xs p = Ret ended p' \<and> parent_inv p' \<and> sends_ok (pp_log p')"
  using keeps_Ret [OF keeps_loop assms, of xs] by (auto simp: parent_inv_def)

text \<open>
  No run of the pool serves a connection within defined behaviour. The parent reads its array of processes at
  index -1 before its loop; and a child that accepts a connection gives its wheel a timer of another class,
  whose cast is a null pointer.
\<close>

theorem procpool_undefined:
  assumes "pp_idx p = - 1" "pp_calls p = []" "\<not> pp_stop q" "0 \<le> connfd"
  shows "run_pool ps cs p = Undef \<and> child_loop (Wait_Events (C_Request (Some connfd) # es) # xs) q = Undef"
  using assms
  by (simp add: run_pool_def run_parent_def setup_sig_pipe_def assert_call_def addsig_def bindp_unfold thenp_unfold
      logp_def child_request_Undef)

text \<open>Three children, of which the second has gone.\<close>

definition three_children :: ppool where
  "three_children = tw.extend (timer_wheel \<lparr>c_heap = Map.empty, c_times = [], c_now = 0, c_alarm = 0, c_blocked = False, c_fired = []\<rparr>)
    \<lparr>pp_process = [\<lparr>pr_pid = 11, pr_pipe0 = 4, pr_pipe1 = 5\<rparr>, \<lparr>pr_pid = - 1, pr_pipe0 = 6, pr_pipe1 = 7\<rparr>,
       \<lparr>pr_pid = 13, pr_pipe0 = 8, pr_pipe1 = 9\<rparr>], pp_idx = - 1, pp_stop = False, pp_counter = 1, pp_timeout = False,
     pp_users = [], pp_next = 1, pp_calls = [], pp_reaped = [], pp_log = [Closed 7]\<rparr>"

lemma three_children_simps:
  "pp_process three_children = [\<lparr>pr_pid = 11, pr_pipe0 = 4, pr_pipe1 = 5\<rparr>, \<lparr>pr_pid = - 1, pr_pipe0 = 6, pr_pipe1 = 7\<rparr>,
     \<lparr>pr_pid = 13, pr_pipe0 = 8, pr_pipe1 = 9\<rparr>]"
  "pp_counter three_children = 1" "pp_log three_children = [Closed 7]" "pp_idx three_children = - 1"
  "pp_calls three_children = []" "\<not> pp_stop three_children"
  by (simp_all add: three_children_def tw.extend_def)

theorem procpool_dispatch_witness:
  "\<exists>p'. parent_listen three_children = Ret False p' \<and> Sent 9 \<in> set (pp_log p') \<and> pp_counter p' = 2"
  using procpool_dispatch [of three_children]
  by (simp add: three_children_simps turn_from_def upt_rec live_in_def)

theorem procpool_undefined_witness:
  "run_pool [] [] three_children = Undef \<and> child_loop [Wait_Events [C_Request (Some 9)]] three_children = Undef"
  using procpool_undefined [of three_children three_children 9 "[]" "[]" "[]" "[]"] by (simp add: three_children_simps)

theorem procpool_sends_open_witness:
  "\<exists>ended p'. parent_loop [Wait_Events [P_Listen, P_Signals (Some [SIGTERM])], Wait_Intr] three_children = Ret ended p'
     \<and> sends_ok (pp_log p')"
proof -
  have "sends_ok []" by (simp add: sends_ok_def)
  then have "sends_ok ([] @ [Closed 7])" by (simp only: sends_ok_snoc) simp
  then have "parent_inv three_children"
    by (simp add: parent_inv_def three_children_simps)
  from procpool_sends_open [OF this] show ?thesis by blast
qed

end
