(* ===== verification/Error_Report.thy ===== *)
theory Error_Report
  imports Ulsp_Prelude
begin

text \<open>
  lib/error_functions.c and cmd/src/error.c: how the programs report errors and end. What a
  reader sees is the sequence of texts that reach standard output and standard error; what
  \<open>printf\<close> wrote stays in the buffer of standard output until a flush. A message is the text that the
  format and its arguments make; \<open>strerror\<close> of the C library is an argument.
\<close>

section \<open>The two streams\<close>

datatype chunk = OutText string | ErrText string

record console =
  con_seen :: "chunk list"
  con_pending :: string
  con_errno :: int
  con_dumpcore :: "string option"  \<comment> \<open>the environment variable \<open>EF_DUMPCORE\<close>\<close>

definition flushed :: "'z console_scheme \<Rightarrow> chunk list" where
  "flushed w = (if con_pending w = [] then con_seen w else con_seen w @ [OutText (con_pending w)])"

definition fflush_stdout :: "('z console_scheme, unit) prog" where
  "fflush_stdout = modifyp (\<lambda>w. w\<lparr>con_seen := flushed w, con_pending := []\<rparr>)"

definition printf_out :: "string \<Rightarrow> ('z console_scheme, unit) prog" where
  "printf_out s = modifyp (\<lambda>w. w\<lparr>con_pending := con_pending w @ s\<rparr>)"

definition fputs_stderr :: "string \<Rightarrow> ('z console_scheme, unit) prog" where
  "fputs_stderr s = modifyp (\<lambda>w. w\<lparr>con_seen := con_seen w @ [ErrText s]\<rparr>)"

text \<open>\<open>exit\<close> flushes what is pending; \<open>_exit\<close> and \<open>abort\<close> do not.\<close>

definition exit_process :: "int \<Rightarrow> ('z console_scheme, 'a) prog" where
  "exit_process k = thenp fflush_stdout (exitp k)"

definition sys_exit :: "int \<Rightarrow> ('z console_scheme, 'a) prog" where
  "sys_exit k = exitp k"

definition abort_process :: "('z console_scheme, 'a) prog" where
  "abort_process = exitp 134"

lemma exit_process_Exit: "exit_process k w = Exit k (w\<lparr>con_seen := flushed w, con_pending := []\<rparr>)"
  by (simp add: exit_process_def fflush_stdout_def thenp_unfold)

section \<open>The routines of lib\<close>

definition ename :: "string list" where
  "ename =
   [[], ''EPERM'', ''ENOENT'', ''ESRCH'', ''EINTR'', ''EIO'', ''ENXIO'', ''E2BIG'', ''ENOEXEC'',
    ''EBADF'', ''ECHILD'', ''EAGAIN/EWOULDBLOCK'', ''ENOMEM'', ''EACCES'', ''EFAULT'',
    ''ENOTBLK'', ''EBUSY'', ''EEXIST'', ''EXDEV'', ''ENODEV'', ''ENOTDIR'', ''EISDIR'',
    ''EINVAL'', ''ENFILE'', ''EMFILE'', ''ENOTTY'', ''ETXTBSY'', ''EFBIG'', ''ENOSPC'',
    ''ESPIPE'', ''EROFS'', ''EMLINK'', ''EPIPE'', ''EDOM'', ''ERANGE'', ''EDEADLK/EDEADLOCK'',
    ''ENAMETOOLONG'', ''ENOLCK'', ''ENOSYS'', ''ENOTEMPTY'', ''ELOOP'', [], ''ENOMSG'',
    ''EIDRM'', ''ECHRNG'', ''EL2NSYNC'', ''EL3HLT'', ''EL3RST'', ''ELNRNG'', ''EUNATCH'',
    ''ENOCSI'', ''EL2HLT'', ''EBADE'', ''EBADR'', ''EXFULL'', ''ENOANO'', ''EBADRQC'',
    ''EBADSLT'', [], ''EBFONT'', ''ENOSTR'', ''ENODATA'', ''ETIME'', ''ENOSR'', ''ENONET'',
    ''ENOPKG'', ''EREMOTE'', ''ENOLINK'', ''EADV'', ''ESRMNT'', ''ECOMM'', ''EPROTO'',
    ''EMULTIHOP'', ''EDOTDOT'', ''EBADMSG'', ''EOVERFLOW'', ''ENOTUNIQ'', ''EBADFD'',
    ''EREMCHG'', ''ELIBACC'', ''ELIBBAD'', ''ELIBSCN'', ''ELIBMAX'', ''ELIBEXEC'', ''EILSEQ'',
    ''ERESTART'', ''ESTRPIPE'', ''EUSERS'', ''ENOTSOCK'', ''EDESTADDRREQ'', ''EMSGSIZE'',
    ''EPROTOTYPE'', ''ENOPROTOOPT'', ''EPROTONOSUPPORT'', ''ESOCKTNOSUPPORT'',
    ''EOPNOTSUPP/ENOTSUP'', ''EPFNOSUPPORT'', ''EAFNOSUPPORT'', ''EADDRINUSE'',
    ''EADDRNOTAVAIL'', ''ENETDOWN'', ''ENETUNREACH'', ''ENETRESET'', ''ECONNABORTED'',
    ''ECONNRESET'', ''ENOBUFS'', ''EISCONN'', ''ENOTCONN'', ''ESHUTDOWN'', ''ETOOMANYREFS'',
    ''ETIMEDOUT'', ''ECONNREFUSED'', ''EHOSTDOWN'', ''EHOSTUNREACH'', ''EALREADY'',
    ''EINPROGRESS'', ''ESTALE'', ''EUCLEAN'', ''ENOTNAM'', ''ENAVAIL'', ''EISNAM'',
    ''EREMOTEIO'', ''EDQUOT'', ''ENOMEDIUM'', ''EMEDIUMTYPE'', ''ECANCELED'', ''ENOKEY'',
    ''EKEYEXPIRED'', ''EKEYREVOKED'', ''EKEYREJECTED'', ''EOWNERDEAD'', ''ENOTRECOVERABLE'',
    ''ERFKILL'', ''EHWPOISON'']"

definition MAX_ENAME :: int where "MAX_ENAME = 133"
definition BUF_SIZE :: nat where "BUF_SIZE = 500"

definition terminate :: "bool \<Rightarrow> ('z console_scheme, 'a) prog" where
  "terminate useExit3 =
     bindp (getsp con_dumpcore) (\<lambda>s.
     if s \<noteq> None \<and> s \<noteq> Some [] then abort_process
     else if useExit3 then exit_process 1
     else sys_exit 1)"

text \<open>\<open>snprintf(buf, n, ...)\<close> leaves at most \<open>n - 1\<close> characters and the NUL.\<close>

definition snprintf :: "nat \<Rightarrow> string \<Rightarrow> string" where
  "snprintf n s = take (n - 1) s"

definition error_text :: "(int \<Rightarrow> string) \<Rightarrow> bool \<Rightarrow> int \<Rightarrow> string \<Rightarrow> string" where
  "error_text strerror useErr err msg =
     (let userMsg = snprintf BUF_SIZE msg;
          errText = (if useErr
             then snprintf BUF_SIZE ('' ['' @ (if err > 0 \<and> err \<le> MAX_ENAME then ename ! nat err else ''?UNKNOWN?'')
                                     @ '' '' @ strerror err @ '']'')
             else snprintf BUF_SIZE '':'')
      in snprintf BUF_SIZE (''ERROR'' @ errText @ '' '' @ userMsg @ [NL]))"

definition outputError :: "(int \<Rightarrow> string) \<Rightarrow> bool \<Rightarrow> int \<Rightarrow> bool \<Rightarrow> string \<Rightarrow> ('z console_scheme, unit) prog" where
  "outputError strerror useErr err flushStdout msg =
     thenp (if flushStdout then fflush_stdout else retp ())
       (fputs_stderr (error_text strerror useErr err msg))"

definition errMsg :: "(int \<Rightarrow> string) \<Rightarrow> string \<Rightarrow> ('z console_scheme, unit) prog" where
  "errMsg strerror msg =
     bindp (getsp con_errno) (\<lambda>savedErrno.
     thenp (outputError strerror True savedErrno True msg)
       (modifyp (\<lambda>w. w\<lparr>con_errno := savedErrno\<rparr>)))"

definition errExit :: "(int \<Rightarrow> string) \<Rightarrow> string \<Rightarrow> ('z console_scheme, 'a) prog" where
  "errExit strerror msg =
     bindp (getsp con_errno) (\<lambda>e. thenp (outputError strerror True e True msg) (terminate True))"

definition err_exit :: "(int \<Rightarrow> string) \<Rightarrow> string \<Rightarrow> ('z console_scheme, 'a) prog" where
  "err_exit strerror msg =
     bindp (getsp con_errno) (\<lambda>e. thenp (outputError strerror True e False msg) (terminate False))"

definition errExitEN :: "(int \<Rightarrow> string) \<Rightarrow> int \<Rightarrow> string \<Rightarrow> ('z console_scheme, 'a) prog" where
  "errExitEN strerror errnum msg = thenp (outputError strerror True errnum True msg) (terminate True)"

definition fatal :: "(int \<Rightarrow> string) \<Rightarrow> string \<Rightarrow> ('z console_scheme, 'a) prog" where
  "fatal strerror msg = thenp (outputError strerror False 0 True msg) (terminate True)"

definition usageErr :: "string \<Rightarrow> ('z console_scheme, 'a) prog" where
  "usageErr msg =
     thenp fflush_stdout (thenp (fputs_stderr ''Usage: '') (thenp (fputs_stderr msg) (exit_process 1)))"

definition cmdLineErr :: "string \<Rightarrow> ('z console_scheme, 'a) prog" where
  "cmdLineErr msg =
     thenp fflush_stdout (thenp (fputs_stderr ''Command-line usage error: '') (thenp (fputs_stderr msg) (exit_process 1)))"

section \<open>The routines of the commands\<close>

definition MAXLINE :: nat where "MAXLINE = 4096"

text \<open>The text that \<open>err_doit\<close> makes in its buffer; None when \<open>strcat\<close> would write behind it.\<close>

definition err_line :: "(int \<Rightarrow> string) \<Rightarrow> bool \<Rightarrow> int \<Rightarrow> string \<Rightarrow> string option" where
  "err_line strerror errnoflag err msg =
     (let buf = snprintf (MAXLINE - 1) msg;
          buf1 = (if errnoflag then buf @ snprintf (MAXLINE - length buf - 1) ('': '' @ strerror err) else buf)
      in if MAXLINE \<le> length buf1 + 1 then None else Some (buf1 @ [NL]))"

definition err_doit :: "(int \<Rightarrow> string) \<Rightarrow> bool \<Rightarrow> int \<Rightarrow> string \<Rightarrow> ('z console_scheme, unit) prog" where
  "err_doit strerror errnoflag err msg =
     (case err_line strerror errnoflag err msg of
        None \<Rightarrow> undefp
      | Some s \<Rightarrow> thenp fflush_stdout (fputs_stderr s))"

definition err_ret :: "(int \<Rightarrow> string) \<Rightarrow> string \<Rightarrow> ('z console_scheme, unit) prog" where
  "err_ret strerror msg = bindp (getsp con_errno) (\<lambda>e. err_doit strerror True e msg)"

definition err_sys :: "(int \<Rightarrow> string) \<Rightarrow> string \<Rightarrow> ('z console_scheme, 'a) prog" where
  "err_sys strerror msg = bindp (getsp con_errno) (\<lambda>e. thenp (err_doit strerror True e msg) (exit_process 1))"

definition err_cont :: "(int \<Rightarrow> string) \<Rightarrow> int \<Rightarrow> string \<Rightarrow> ('z console_scheme, unit) prog" where
  "err_cont strerror err msg = err_doit strerror True err msg"

definition cmd_err_exit :: "(int \<Rightarrow> string) \<Rightarrow> int \<Rightarrow> string \<Rightarrow> ('z console_scheme, 'a) prog" where
  "cmd_err_exit strerror err msg = thenp (err_doit strerror True err msg) (exit_process 1)"

definition err_dump :: "(int \<Rightarrow> string) \<Rightarrow> string \<Rightarrow> ('z console_scheme, 'a) prog" where
  "err_dump strerror msg = bindp (getsp con_errno) (\<lambda>e. thenp (err_doit strerror True e msg) abort_process)"

definition err_msg :: "(int \<Rightarrow> string) \<Rightarrow> string \<Rightarrow> ('z console_scheme, unit) prog" where
  "err_msg strerror msg = err_doit strerror False 0 msg"

definition err_quit :: "(int \<Rightarrow> string) \<Rightarrow> string \<Rightarrow> ('z console_scheme, 'a) prog" where
  "err_quit strerror msg = thenp (err_doit strerror False 0 msg) (exit_process 1)"

section \<open>The buffers\<close>

lemma length_snprintf: "length (snprintf n s) = min (length s) (n - 1)"
  by (simp add: snprintf_def)

lemma length_ename [simp]: "length ename = 134"
  by (simp add: ename_def)

lemma error_text_short: "length (error_text strerror useErr err msg) < BUF_SIZE"
  by (simp add: error_text_def Let_def length_snprintf BUF_SIZE_def)

text \<open>A message whose parts fit comes out whole.\<close>

lemma error_text_whole:
  assumes "length (errname @ strerror err @ msg) + 11 < BUF_SIZE"
    and "errname = (if err > 0 \<and> err \<le> MAX_ENAME then ename ! nat err else ''?UNKNOWN?'')"
  shows "error_text strerror True err msg = ''ERROR ['' @ errname @ '' '' @ strerror err @ ''] '' @ msg @ [NL]"
  using assms(1) unfolding error_text_def Let_def assms(2) [symmetric]
  by (auto simp: snprintf_def BUF_SIZE_def)

lemma err_line_form:
  "\<exists>s. err_line strerror f err msg = Some (s @ [NL]) \<and> length s + 2 \<le> MAXLINE
     \<and> (\<exists>k. s = take k (msg @ (if f then '': '' @ strerror err else [])))
     \<and> (length msg + (if f then length (strerror err) + 2 else 0) + 2 \<le> MAXLINE \<longrightarrow>
          s = msg @ (if f then '': '' @ strerror err else []))"
proof -
  define b where "b = snprintf (MAXLINE - 1) msg"
  have b: "length b + 2 \<le> MAXLINE" "b = take (length b) msg"
    by (cases "length msg \<le> 4094"; simp add: b_def snprintf_def MAXLINE_def)+
  define s where "s = (if f then b @ snprintf (MAXLINE - length b - 1) ('': '' @ strerror err) else b)"
  have len: "length s + 2 \<le> MAXLINE"
    using b(1) by (auto simp: s_def length_snprintf min_def)
  moreover have "err_line strerror f err msg = (if MAXLINE \<le> length s + 1 then None else Some (s @ [NL]))"
    by (simp only: err_line_def Let_def s_def b_def)
  ultimately have "err_line strerror f err msg = Some (s @ [NL])"
    by simp
  moreover have "\<exists>k. s = take k (msg @ (if f then '': '' @ strerror err else []))"
  proof (cases "length msg + 2 \<le> MAXLINE")
    case True
    then have "b = msg" by (simp add: b_def snprintf_def)
    then show ?thesis
      by (auto simp: s_def snprintf_def intro!: exI [of _ "length msg + (MAXLINE - length msg - 1 - 1)"])
  next
    case False
    then have "length b = MAXLINE - 2"
      by (simp add: b_def length_snprintf)
    then have "s = b" "length b \<le> length msg"
      using False by (simp_all add: s_def snprintf_def MAXLINE_def)
    then show ?thesis
      using b(2) by (intro exI [of _ "length b"]) simp
  qed
  moreover have "s = msg @ (if f then '': '' @ strerror err else [])"
    if "length msg + (if f then length (strerror err) + 2 else 0) + 2 \<le> MAXLINE"
    using that by (simp add: s_def b_def snprintf_def split: if_splits)
  ultimately show ?thesis
    using len by blast
qed

section \<open>Properties\<close>

text \<open>
  ErrExit shows what standard output still holds and then one error text of less than 500 characters, and
  exits 1; err_exit shows only the error text and leaves the rest of standard output
  unwritten. When its parts fit, the text is the line ERROR [name description] message.
\<close>

theorem errExit_order:
  assumes "con_dumpcore w = None"
  shows "\<exists>s w1 w2. errExit strerror msg w = Exit 1 w1 \<and> con_seen w1 = flushed w @ [ErrText s] \<and> con_pending w1 = []
    \<and> err_exit strerror msg w = Exit 1 w2 \<and> con_seen w2 = con_seen w @ [ErrText s] \<and> con_pending w2 = con_pending w
    \<and> length s < BUF_SIZE
    \<and> (0 < con_errno w \<and> con_errno w \<le> MAX_ENAME \<and>
         length (ename ! nat (con_errno w) @ strerror (con_errno w) @ msg) + 11 < BUF_SIZE \<longrightarrow>
       s = ''ERROR ['' @ ename ! nat (con_errno w) @ '' '' @ strerror (con_errno w) @ ''] '' @ msg @ [NL])"
  using assms error_text_short [of strerror True "con_errno w" msg]
    error_text_whole [of "ename ! nat (con_errno w)" strerror "con_errno w" msg]
  by (intro exI [of _ "error_text strerror True (con_errno w) msg"])
    (auto simp: errExit_def err_exit_def bindp_unfold thenp_unfold outputError_def terminate_def fflush_stdout_def
      fputs_stderr_def exit_process_def sys_exit_def flushed_def)

text \<open>
  Whatever the message and the error, err_doit writes within its buffer of 4096 bytes: it shows pending
  output and then one text that ends in a newline, the message with the description of the
  error behind it, cut short when it does not fit. So err_sys and err_quit always exit 1.
\<close>

theorem err_doit_bounded:
  shows "\<exists>s w'. err_doit strerror f err msg w = Ret () w' \<and> con_seen w' = flushed w @ [ErrText (s @ [NL])]
    \<and> length (s @ [NL]) < MAXLINE \<and> (\<exists>k. s = take k (msg @ (if f then '': '' @ strerror err else [])))
    \<and> (\<exists>w1 w2. err_sys strerror msg w = Exit 1 w1 \<and> err_quit strerror msg w = Exit 1 w2)"
proof -
  obtain s where s: "err_line strerror f err msg = Some (s @ [NL])" "length s + 2 \<le> MAXLINE"
      "\<exists>k. s = take k (msg @ (if f then '': '' @ strerror err else []))"
    using err_line_form [of strerror f err msg] by blast
  obtain s1 s2 where "err_line strerror True (con_errno w) msg = Some s1" "err_line strerror False 0 msg = Some s2"
    using err_line_form [of strerror True "con_errno w" msg] err_line_form [of strerror False 0 msg] by blast
  then have "\<exists>w1 w2. err_sys strerror msg w = Exit 1 w1 \<and> err_quit strerror msg w = Exit 1 w2"
    by (simp add: err_sys_def err_quit_def err_doit_def bindp_unfold thenp_unfold fflush_stdout_def fputs_stderr_def exit_process_def)
  then show ?thesis
    using s by (intro exI [of _ s]) (simp add: err_doit_def thenp_unfold fflush_stdout_def fputs_stderr_def)
qed

definition console_example :: console where
  "console_example = \<lparr>con_seen = [], con_pending = ''half a line'', con_errno = 2, con_dumpcore = None\<rparr>"

theorem errExit_order_witness:
  "\<exists>w1. errExit (\<lambda>_. ''No such file'') ''open'' console_example = Exit 1 w1
     \<and> con_seen w1 = [OutText ''half a line'', ErrText (''ERROR [ENOENT No such file] open'' @ [NL])]"
  using errExit_order [of console_example "\<lambda>_. ''No such file''" "''open''"]
  by (auto simp: console_example_def flushed_def MAX_ENAME_def BUF_SIZE_def ename_def)

end
