(* ===== verification/Chat_Spec.thy ===== *)
theory Chat_Spec
  imports Ulsp_Prelude
begin

text \<open>
  What the two chat servers of net/ share: the log of what they send and close, the strings at the start of
  arrays, and their contract: a text that somebody says is sent to the others, whatever has
  been said before.
\<close>

datatype net = Sent int string | Closed int

text \<open>The string at the start of an array; None when the array holds no NUL.\<close>

definition c_string :: "string \<Rightarrow> string option" where
  "c_string b = (if NUL \<in> set b then Some (takeWhile (\<lambda>c. c \<noteq> NUL) b) else None)"

lemma c_string_nth: "i < length b \<Longrightarrow> b ! i = NUL \<Longrightarrow> \<exists>s. c_string b = Some s"
  by (auto simp: c_string_def in_set_conv_nth)

lemma c_string_append: "NUL \<notin> set s \<Longrightarrow> 0 < n \<Longrightarrow> c_string (s @ replicate n NUL) = Some s"
  by (cases n) (auto simp: c_string_def takeWhile_tail takeWhile_eq_all_conv)

text \<open>The status of a process that SIGPIPE ends.\<close>

definition PIPE_STATUS :: int where "PIPE_STATUS = 141"

section \<open>The contract of a chat room\<close>

text \<open>
  \<open>inv\<close> holds of a server at rest (nothing is pending); \<open>can s u t\<close> says that \<open>u\<close> is in the room
  and \<open>t\<close> a text that the server takes; \<open>say u t\<close> are the rounds in which it receives and delivers
  the text; \<open>hears s u t\<close> is what is to be sent then. A conversation is a list of speakers with
  their texts.
\<close>

fun talk :: "('u \<Rightarrow> string \<Rightarrow> ('s, unit) prog) \<Rightarrow> ('u \<times> string) list \<Rightarrow> ('s, unit) prog" where
  "talk say [] = retp ()"
| "talk say ((u, t) # l) = thenp (say u t) (talk say l)"

locale chat_room =
  fixes inv :: "'s \<Rightarrow> bool" and can :: "'s \<Rightarrow> 'u \<Rightarrow> string \<Rightarrow> bool"
    and say :: "'u \<Rightarrow> string \<Rightarrow> ('s, unit) prog"
    and log :: "'s \<Rightarrow> net list" and hears :: "'s \<Rightarrow> 'u \<Rightarrow> string \<Rightarrow> net list"
  assumes say_heard: "inv s \<Longrightarrow> can s u t \<Longrightarrow>
    \<exists>s'. say u t s = Ret () s' \<and> inv s' \<and> log s' = log s @ hears s u t \<and> can s' = can s \<and> hears s' = hears s"
begin

lemma talk_heard:
  "inv s \<Longrightarrow> (\<And>u t. (u, t) \<in> set l \<Longrightarrow> can s u t) \<Longrightarrow>
     \<exists>s'. talk say l s = Ret () s' \<and> inv s' \<and> log s' = log s @ concat (map (\<lambda>(u, t). hears s u t) l)"
proof (induction l arbitrary: s)
  case (Cons x l)
  obtain u t where x: "x = (u, t)" by (cases x)
  obtain s1 where s1: "say u t s = Ret () s1" "inv s1" "log s1 = log s @ hears s u t" "can s1 = can s" "hears s1 = hears s"
    using say_heard [of s u t] Cons.prems x by auto
  obtain s2 where "talk say l s1 = Ret () s2" "inv s2" "log s2 = log s1 @ concat (map (\<lambda>(u, t). hears s1 u t) l)"
    using Cons.IH [OF s1(2)] Cons.prems(2) s1(4) by auto
  then show ?case
    using s1 x by (auto simp: thenp_unfold)
qed simp

end

end
