(* ===== verification/Chat_Server.thy ===== *)
theory Chat_Server
  imports Posix_Io Error_Report Chat_Spec
begin

text \<open>
  net/chat_server_select.c: a chat room on one thread. A pool of 32 clients and the descriptor
  sets of \<open>select\<close>; each round of the main loop takes a new connection and serves the clients that
  are ready. The first text of a client is its name; every later one goes to all the others. What the
  kernel delivers in a round (who is ready, the new connection, the bytes received) is the input of the
  definitions; what is sent and closed is a log.
\<close>

section \<open>The data\<close>

definition NAMESIZE :: nat where "NAMESIZE = 16"
definition CLIENT_FD_NUMBER :: nat where "CLIENT_FD_NUMBER = 32"

text \<open>The capacity of an \<open>fd_set\<close> of glibc.\<close>

definition FD_SETSIZE :: int where "FD_SETSIZE = 1024"

text \<open>
  The pointer \<open>data\<close> is an offset into the client's own buffer; \<open>write_buf\<close> is NULL (None) or
  points to the buffer of a client, named by its index.
\<close>

record client =
  cl_welcome :: bool
  cl_connfd :: int
  cl_name :: string
  cl_buf :: string
  cl_data :: nat
  cl_write_buf :: "nat option"

record pool = console +
  po_maxfd :: int
  po_read_fds :: "int set"
  po_write_fds :: "int set"
  po_exception_fds :: "int set"
  po_ready_read_fds :: "int set"
  po_ready_write_fds :: "int set"
  po_ready_exception_fds :: "int set"
  po_nready :: int
  po_maxi :: int
  po_clients :: "client list"
  po_net :: "net list"

text \<open>
  One round: the descriptors that are ready for reading, for writing and for exceptions (None:
  \<open>select\<close> fails), what \<open>accept\<close> returns (the descriptor, the text of the address, the port), what
  the client behind a descriptor has sent (None: recv fails, []: it has closed) and whether it has gone,
  so that a write to it raises SIGPIPE.
\<close>

record round =
  rd_select :: "(int set \<times> int set \<times> int set) option"
  rd_accept :: "int \<times> string \<times> nat"
  rd_recv :: "int \<Rightarrow> string option"
  rd_gone :: "int \<Rightarrow> bool"

section \<open>Strings and sets\<close>

definition memput :: "nat \<Rightarrow> string \<Rightarrow> string \<Rightarrow> string" where
  "memput off bs b = take off b @ bs @ drop (off + length bs) b"

definition strncpy_into :: "string \<Rightarrow> string \<Rightarrow> nat \<Rightarrow> string" where
  "strncpy_into dst src n =
     (let s = takeWhile (\<lambda>c. c \<noteq> NUL) (take n src) in s @ replicate (n - length s) NUL @ drop n dst)"

definition printf_stdout :: "string \<Rightarrow> (pool, unit) prog" where
  "printf_stdout s = modifyp (\<lambda>p. p\<lparr>con_pending := con_pending p @ s\<rparr>)"

definition fd_valid :: "int \<Rightarrow> bool" where
  "fd_valid fd \<longleftrightarrow> 0 \<le> fd \<and> fd < FD_SETSIZE"

text \<open>The macros on a set, given by the update of its field; a descriptor outside is undefined.\<close>

definition FD_SET :: "int \<Rightarrow> ((int set \<Rightarrow> int set) \<Rightarrow> pool \<Rightarrow> pool) \<Rightarrow> (pool, unit) prog" where
  "FD_SET fd upd = (if fd_valid fd then modifyp (upd (insert fd)) else undefp)"

definition FD_CLR :: "int \<Rightarrow> ((int set \<Rightarrow> int set) \<Rightarrow> pool \<Rightarrow> pool) \<Rightarrow> (pool, unit) prog" where
  "FD_CLR fd upd = (if fd_valid fd then modifyp (upd (\<lambda>s. s - {fd})) else undefp)"

definition FD_ISSET :: "int \<Rightarrow> (pool \<Rightarrow> int set) \<Rightarrow> (pool, bool) prog" where
  "FD_ISSET fd f = (if fd_valid fd then getsp (\<lambda>p. fd \<in> f p) else undefp)"

definition net_log :: "net \<Rightarrow> (pool, unit) prog" where
  "net_log a = modifyp (\<lambda>p. p\<lparr>po_net := po_net p @ [a]\<rparr>)"

definition set_client :: "nat \<Rightarrow> (client \<Rightarrow> client) \<Rightarrow> (pool, unit) prog" where
  "set_client i f = modifyp (\<lambda>p. p\<lparr>po_clients := (po_clients p)[i := f (po_clients p ! i)]\<rparr>)"

definition get_client :: "nat \<Rightarrow> (pool, client) prog" where
  "get_client i = getsp (\<lambda>p. po_clients p ! i)"

section \<open>The pool\<close>

text \<open>Both calls of memset clear \<open>buf\<close>: the name stays what it was.\<close>

definition init_client :: "client \<Rightarrow> client" where
  "init_client c = c\<lparr>cl_welcome := True, cl_connfd := - 1, cl_data := 0, cl_write_buf := None,
     cl_buf := replicate BUFSIZ NUL\<rparr>"

definition init_pool :: "int \<Rightarrow> (pool, unit) prog" where
  "init_pool listenfd =
     thenp (modifyp (\<lambda>p. p\<lparr>po_maxi := - 1, po_clients := map init_client (po_clients p), po_maxfd := listenfd,
       po_read_fds := {}, po_write_fds := {}, po_exception_fds := {},
       po_ready_read_fds := {}, po_ready_write_fds := {}, po_ready_exception_fds := {}\<rparr>))
     (thenp (FD_SET listenfd po_read_fds_update) (FD_SET listenfd po_exception_fds_update))"

text \<open>The first free slot.\<close>

fun free_slot :: "nat \<Rightarrow> client list \<Rightarrow> nat option" where
  "free_slot i [] = None"
| "free_slot i (c # cs) = (if cl_connfd c < 0 then Some i else free_slot (i + 1) cs)"

definition add_client :: "(int \<Rightarrow> string) \<Rightarrow> int \<Rightarrow> (pool, unit) prog" where
  "add_client strerror connfd =
     thenp (modifyp (\<lambda>p. p\<lparr>po_nready := po_nready p - 1\<rparr>))
     (bindp (getsp (\<lambda>p. free_slot 0 (po_clients p))) (\<lambda>slot. case slot of
        None \<Rightarrow> errExit strerror ''add_client: too many clients''
      | Some i \<Rightarrow>
          thenp (set_client i (\<lambda>c. c\<lparr>cl_connfd := connfd\<rparr>))
          (thenp (FD_SET connfd po_read_fds_update)
          (thenp (FD_SET connfd po_exception_fds_update)
          (modifyp (\<lambda>p. p\<lparr>po_maxfd := max (po_maxfd p) connfd, po_maxi := max (po_maxi p) (int i)\<rparr>))))))"

section \<open>Serving a client\<close>

text \<open>The write of \<open>strlen(write_buf)\<close> bytes; its result is not looked at.\<close>

definition client_write :: "round \<Rightarrow> nat \<Rightarrow> (pool, unit) prog" where
  "client_write r i =
     bindp (get_client i) (\<lambda>pc.
     bindp (getsp (\<lambda>p. case cl_write_buf pc of None \<Rightarrow> None | Some k \<Rightarrow> c_string (cl_buf (po_clients p ! k)))) (\<lambda>s.
     case s of None \<Rightarrow> undefp
     | Some s \<Rightarrow>
         if rd_gone r (cl_connfd pc) then exitp PIPE_STATUS
         else thenp (net_log (Sent (cl_connfd pc) s))
           (thenp (set_client i (\<lambda>c. c\<lparr>cl_write_buf := None\<rparr>))
           (thenp (FD_CLR (cl_connfd pc) po_write_fds_update)
           (thenp (FD_SET (cl_connfd pc) po_read_fds_update)
             (FD_SET (cl_connfd pc) po_exception_fds_update))))))"

definition client_exit :: "nat \<Rightarrow> (pool, unit) prog" where
  "client_exit i =
     bindp (get_client i) (\<lambda>pc. case c_string (cl_name pc) of None \<Rightarrow> undefp
     | Some name \<Rightarrow>
         thenp (printf_stdout (name @ '' exit'' @ [NL]))
         (thenp (FD_CLR (cl_connfd pc) po_read_fds_update)
         (thenp (FD_CLR (cl_connfd pc) po_write_fds_update)
         (thenp (FD_CLR (cl_connfd pc) po_exception_fds_update)
         (thenp (net_log (Closed (cl_connfd pc)))
           (set_client i init_client))))))"

text \<open>The first text, of \<open>n\<close> bytes at the start of the buffer, is the name.\<close>

definition client_welcome :: "nat \<Rightarrow> nat \<Rightarrow> (pool, unit) prog" where
  "client_welcome i n =
     bindp (get_client i) (\<lambda>pc. case c_string (cl_buf pc) of None \<Rightarrow> undefp
     | Some s \<Rightarrow>
         if s = [] then undefp
         else let (buf, n') = (if cl_buf pc ! (length s - 1) = NL
                then ((cl_buf pc)[length s - 1 := NUL], n - 1) else (cl_buf pc, n)) in
           if NAMESIZE < n' then undefp
           else case c_string buf of None \<Rightarrow> undefp
             | Some shown \<Rightarrow>
                 thenp (printf_stdout (''Welcome '' @ shown @ ''!'' @ [NL]))
                   (set_client i (\<lambda>c. c\<lparr>cl_name := strncpy_into (cl_name c) buf n', cl_welcome := False,
                      cl_buf := buf[n' := CHR '':'', n' + 1 := CHR '' ''], cl_data := n' + 2\<rparr>)))"

fun broadcast :: "nat \<Rightarrow> nat list \<Rightarrow> (pool, unit) prog" where
  "broadcast i [] = retp ()"
| "broadcast i (j # js) =
     bindp (get_client j) (\<lambda>c.
       if j = i \<or> cl_connfd c = - 1 \<or> cl_welcome c then broadcast i js
       else thenp (set_client j (\<lambda>c. c\<lparr>cl_write_buf := Some i\<rparr>))
         (thenp (FD_SET (cl_connfd c) po_write_fds_update)
         (thenp (FD_CLR (cl_connfd c) po_read_fds_update)
         (thenp (FD_CLR (cl_connfd c) po_exception_fds_update)
           (broadcast i js)))))"

text \<open>\<open>recv\<close> delivers at most \<open>BUFSIZ - 1\<close> bytes, wherever \<open>data\<close> points.\<close>

definition client_recv :: "round \<Rightarrow> nat \<Rightarrow> (pool, unit) prog" where
  "client_recv r i =
     bindp (get_client i) (\<lambda>pc.
     thenp (set_client i (\<lambda>c. c\<lparr>cl_buf := memput (cl_data c) (replicate (BUFSIZ - cl_data c) NUL) (cl_buf c)\<rparr>))
     (case map_option (take (BUFSIZ - 1)) (rd_recv r (cl_connfd pc)) of
        None \<Rightarrow> abort_process
      | Some bs \<Rightarrow>
          if BUFSIZ < cl_data pc + length bs then undefp
          else thenp (set_client i (\<lambda>c. c\<lparr>cl_buf := memput (cl_data c) bs (cl_buf c)\<rparr>))
            (if bs = [] then client_exit i
             else if cl_welcome pc then client_welcome i (length bs)
             else bindp (getsp po_maxi) (\<lambda>m. broadcast i [0..<nat (m + 1)]))))"

definition check_client :: "round \<Rightarrow> nat \<Rightarrow> (pool, unit) prog" where
  "check_client r i =
     bindp (get_client i) (\<lambda>pc.
     if cl_connfd pc < 0 then retp ()
     else bindp (FD_ISSET (cl_connfd pc) po_ready_read_fds) (\<lambda>rd.
       bindp (FD_ISSET (cl_connfd pc) po_ready_write_fds) (\<lambda>wr.
       bindp (FD_ISSET (cl_connfd pc) po_ready_exception_fds) (\<lambda>ex.
       if \<not> rd \<and> \<not> wr \<and> \<not> ex then retp ()
       else thenp (modifyp (\<lambda>p. p\<lparr>po_nready := po_nready p - 1\<rparr>))
         (if wr then client_write r i else client_recv r i)))))"

fun check_from :: "round \<Rightarrow> nat list \<Rightarrow> (pool, unit) prog" where
  "check_from r [] = retp ()"
| "check_from r (i # is) =
     bindp (getsp po_nready) (\<lambda>n. if 0 < n then thenp (check_client r i) (check_from r is) else retp ())"

definition check_clients :: "round \<Rightarrow> (pool, unit) prog" where
  "check_clients r = bindp (getsp po_maxi) (\<lambda>m. check_from r [0..<nat (m + 1)])"

section \<open>The main loop\<close>

text \<open>
  \<open>select\<close> looks at the descriptors below its first argument; it leaves the ready ones of those it was
  given in the three sets and returns how many that are.
\<close>

definition sys_select :: "round \<Rightarrow> int \<Rightarrow> (pool, unit) prog" where
  "sys_select r nfds = (case rd_select r of
       None \<Rightarrow> modifyp (\<lambda>p. p\<lparr>po_nready := - 1\<rparr>)
     | Some (rs, ws, es) \<Rightarrow> modifyp (\<lambda>p.
         let rs' = {fd \<in> po_ready_read_fds p. fd < nfds \<and> fd \<in> rs};
             ws' = {fd \<in> po_ready_write_fds p. fd < nfds \<and> fd \<in> ws};
             es' = {fd \<in> po_ready_exception_fds p. fd < nfds \<and> fd \<in> es}
         in p\<lparr>po_ready_read_fds := rs', po_ready_write_fds := ws', po_ready_exception_fds := es',
              po_nready := int (card rs' + card ws' + card es')\<rparr>))"

text \<open>A new connection: whether the loop goes on.\<close>

definition accept_client :: "(int \<Rightarrow> string) \<Rightarrow> round \<Rightarrow> (pool, bool) prog" where
  "accept_client strerror r =
     (let (connfd, addr, port) = rd_accept r in
      thenp (printf_stdout (''Accept ('' @ addr @ '': '' @ dec port @ '')'' @ [NL]))
      (if connfd < 0 then thenp (fputs_stderr (''accept failure'' @ [NL])) (retp False)
       else thenp (add_client strerror connfd) (retp True)))"

definition server_round :: "(int \<Rightarrow> string) \<Rightarrow> int \<Rightarrow> round \<Rightarrow> (pool, bool) prog" where
  "server_round strerror listenfd r =
     thenp (modifyp (\<lambda>p. p\<lparr>po_ready_read_fds := po_read_fds p, po_ready_write_fds := po_write_fds p,
       po_ready_exception_fds := po_exception_fds p\<rparr>))
     (bindp (getsp po_maxfd) (\<lambda>maxfd.
      thenp (sys_select r (maxfd + 1))
      (bindp (getsp po_nready) (\<lambda>n.
       if n < 0 then thenp (fputs_stderr (''select failure'' @ [NL])) (retp False)
       else bindp (FD_ISSET listenfd po_ready_read_fds) (\<lambda>l.
         bindp (if l then accept_client strerror r else retp True) (\<lambda>go.
         if go then thenp (check_clients r) (retp True) else retp False))))))"

text \<open>After the last round given, the server waits in \<open>select\<close>.\<close>

fun serve :: "(int \<Rightarrow> string) \<Rightarrow> int \<Rightarrow> round list \<Rightarrow> (pool, unit) prog" where
  "serve strerror listenfd [] = retp ()"
| "serve strerror listenfd (r # rs) =
     bindp (server_round strerror listenfd r) (\<lambda>go.
       if go then serve strerror listenfd rs else exit_process EXIT_SUCCESS)"

text \<open>The results of socket, bind and listen, then the rounds.\<close>

definition chat_main :: "(int \<Rightarrow> string) \<Rightarrow> int \<Rightarrow> bool \<Rightarrow> bool \<Rightarrow> round list \<Rightarrow> (pool, unit) prog" where
  "chat_main strerror listenfd bound listening rs =
     (if listenfd < 0 \<or> \<not> bound \<or> \<not> listening then abort_process
      else thenp (init_pool listenfd) (serve strerror listenfd rs))"

section \<open>What serving a client leaves alone\<close>

text \<open>
  Serving client \<open>i\<close> changes nothing of the others but their \<open>write_buf\<close>, which may come to
  point to its buffer, and nothing of what \<open>select\<close> has reported.
\<close>

definition other_kept :: "nat \<Rightarrow> client \<Rightarrow> client \<Rightarrow> bool" where
  "other_kept i c c' \<longleftrightarrow> c' = c \<or> c' = c\<lparr>cl_write_buf := Some i\<rparr> \<and> cl_connfd c \<noteq> - 1 \<and> \<not> cl_welcome c"

definition frame :: "nat \<Rightarrow> pool \<Rightarrow> pool \<Rightarrow> bool" where
  "frame i p p' \<longleftrightarrow> length (po_clients p') = length (po_clients p)
     \<and> po_ready_read_fds p' = po_ready_read_fds p \<and> po_ready_write_fds p' = po_ready_write_fds p
     \<and> po_ready_exception_fds p' = po_ready_exception_fds p \<and> po_maxi p' = po_maxi p
     \<and> po_maxfd p' = po_maxfd p
     \<and> (\<forall>j. j \<noteq> i \<longrightarrow> other_kept i (po_clients p ! j) (po_clients p' ! j))"

definition framed :: "nat \<Rightarrow> (pool, 'a) prog \<Rightarrow> bool" where
  "framed i m \<longleftrightarrow> (\<forall>p a p'. m p = Ret a p' \<longrightarrow> frame i p p' \<and> po_nready p' = po_nready p)"

lemma frame_refl: "frame i p p"
  by (simp add: frame_def other_kept_def)

lemma other_kept_trans: "other_kept i a b \<Longrightarrow> other_kept i b c \<Longrightarrow> other_kept i a c"
  by (auto simp: other_kept_def)

lemma frame_trans: "frame i p q \<Longrightarrow> frame i q s \<Longrightarrow> frame i p s"
  unfolding frame_def by (auto intro: other_kept_trans)

lemma framed_bind:
  assumes "framed i m" "\<And>a. framed i (f a)"
  shows "framed i (bindp m f)"
  unfolding framed_def
proof (intro allI impI)
  fix p b p' assume r: "bindp m f p = Ret b p'"
  then obtain a q where q: "m p = Ret a q" "f a q = Ret b p'"
    by (auto simp: bindp_unfold split: result.splits)
  then show "frame i p p' \<and> po_nready p' = po_nready p"
    using assms frame_trans [of i p q p'] unfolding framed_def by metis
qed

lemma framed_then: "framed i m \<Longrightarrow> framed i n \<Longrightarrow> framed i (thenp m n)"
  unfolding thenp_def by (rule framed_bind)

lemma framed_basic:
  "framed i (retp a)" "framed i undefp" "framed i (exitp k)" "framed i (getsp f)" "framed i (get_client j)"
  "framed i (set_client i g)" "framed i (net_log x)" "framed i (printf_stdout s)" "framed i abort_process"
  "framed i (FD_SET fd po_read_fds_update)" "framed i (FD_SET fd po_write_fds_update)"
  "framed i (FD_SET fd po_exception_fds_update)" "framed i (FD_CLR fd po_read_fds_update)"
  "framed i (FD_CLR fd po_write_fds_update)" "framed i (FD_CLR fd po_exception_fds_update)"
  by (auto simp: framed_def frame_def other_kept_def get_client_def set_client_def net_log_def
        printf_stdout_def abort_process_def FD_SET_def FD_CLR_def split: if_splits)

lemma framed_pointing:
  assumes "cl_connfd (po_clients p ! j) \<noteq> - 1" "\<not> cl_welcome (po_clients p ! j)"
    "set_client j (\<lambda>c. c\<lparr>cl_write_buf := Some i\<rparr>) p = Ret a p'"
  shows "frame i p p' \<and> po_nready p' = po_nready p"
  using assms by (cases "j < length (po_clients p)")
    (auto simp: set_client_def frame_def other_kept_def nth_list_update list_update_beyond not_less split: if_splits)

lemmas framed_rules = framed_basic framed_bind framed_then

lemma framed_broadcast: "framed i (broadcast i js)"
proof (induction js)
  case (Cons j js)
  show ?case
    unfolding framed_def
  proof (intro allI impI)
    fix p a p' assume r: "broadcast i (j # js) p = Ret a p'"
    let ?c = "po_clients p ! j"
    show "frame i p p' \<and> po_nready p' = po_nready p"
    proof (cases "j = i \<or> cl_connfd ?c = - 1 \<or> cl_welcome ?c")
      case True
      then show ?thesis
        using r Cons by (simp add: get_client_def bindp_unfold framed_def)
    next
      case False
      let ?n = "thenp (FD_SET (cl_connfd ?c) po_write_fds_update) (thenp (FD_CLR (cl_connfd ?c) po_read_fds_update)
         (thenp (FD_CLR (cl_connfd ?c) po_exception_fds_update) (broadcast i js)))"
      obtain q where q: "set_client j (\<lambda>c. c\<lparr>cl_write_buf := Some i\<rparr>) p = Ret () q"
        by (simp add: set_client_def)
      have "framed i ?n"
        by (intro framed_rules Cons)
      moreover have "?n q = Ret a p'"
        using r False q by (simp add: get_client_def bindp_unfold [of _ _ p] thenp_unfold [of _ _ p])
      moreover have "frame i p q \<and> po_nready q = po_nready p"
        using framed_pointing [OF _ _ q] False by blast
      ultimately show ?thesis
        using frame_trans [of i p q p'] unfolding framed_def by metis
    qed
  qed
qed (simp only: broadcast.simps framed_basic)

lemma framed_write: "framed i (client_write r i)"
  unfolding client_write_def by (intro framed_rules) (auto split: option.split intro!: framed_rules)

lemma framed_exit: "framed i (client_exit i)"
  unfolding client_exit_def by (intro framed_rules) (auto split: option.split intro!: framed_rules)

lemma framed_welcome: "framed i (client_welcome i n)"
  unfolding client_welcome_def by (intro framed_rules) (auto simp: Let_def split: option.split intro!: framed_rules)

lemma framed_recv: "framed i (client_recv r i)"
  unfolding client_recv_def
  by (intro framed_rules) (auto split: option.split intro!: framed_rules framed_exit framed_welcome framed_broadcast)

text \<open>What \<open>select\<close> has reported of a client, and the four ways through the body of the loop.\<close>

definition conn_ok :: "client \<Rightarrow> bool" where
  "conn_ok c \<longleftrightarrow> cl_connfd c = - 1 \<or> fd_valid (cl_connfd c)"

definition client_ready :: "pool \<Rightarrow> client \<Rightarrow> bool" where
  "client_ready p c \<longleftrightarrow> cl_connfd c \<noteq> - 1 \<and>
     cl_connfd c \<in> po_ready_read_fds p \<union> po_ready_write_fds p \<union> po_ready_exception_fds p"

definition taken :: "pool \<Rightarrow> pool" where
  "taken p = p\<lparr>po_nready := po_nready p - 1\<rparr>"

lemma taken_simps [simp]:
  "po_clients (taken p) = po_clients p" "po_maxfd (taken p) = po_maxfd p" "po_maxi (taken p) = po_maxi p"
  "po_read_fds (taken p) = po_read_fds p" "po_write_fds (taken p) = po_write_fds p"
  "po_exception_fds (taken p) = po_exception_fds p" "po_nready (taken p) = po_nready p - 1"
  "po_ready_read_fds (taken p) = po_ready_read_fds p" "po_ready_write_fds (taken p) = po_ready_write_fds p"
  "po_ready_exception_fds (taken p) = po_ready_exception_fds p" "po_net (taken p) = po_net p"
  by (simp_all add: taken_def)

lemma check_client_eq:
  assumes "conn_ok (po_clients p ! i)"
  shows "check_client r i p =
    (if \<not> client_ready p (po_clients p ! i) then Ret () p
     else if cl_connfd (po_clients p ! i) \<in> po_ready_write_fds p then client_write r i (taken p)
     else client_recv r i (taken p))"
  using assms
  by (auto simp: check_client_def client_ready_def conn_ok_def fd_valid_def FD_ISSET_def get_client_def taken_def
        bindp_unfold thenp_unfold)

lemma check_client_frame:
  assumes "conn_ok (po_clients p ! i)" "check_client r i p = Ret a p'"
  shows "frame i p p' \<and> po_nready p' = po_nready p - (if client_ready p (po_clients p ! i) then 1 else 0)"
proof -
  have "frame i (taken p) p' = frame i p p'"
    by (simp add: frame_def)
  then show ?thesis
    using assms(2) framed_write [of i r] framed_recv [of i r] frame_refl [of i p] unfolding check_client_eq [OF assms(1)] framed_def
    by (auto split: if_splits)
qed

lemma frame_conn:
  "frame i p p' \<Longrightarrow> j \<noteq> i \<Longrightarrow> cl_connfd (po_clients p' ! j) = cl_connfd (po_clients p ! j)"
  by (auto simp: frame_def other_kept_def)

lemma frame_ready:
  "frame i p p' \<Longrightarrow> j \<noteq> i \<Longrightarrow> client_ready p' (po_clients p' ! j) = client_ready p (po_clients p ! j)"
  using frame_conn [of i p p' j] by (simp add: client_ready_def frame_def)

section \<open>Every ready client is served\<close>

text \<open>The loop over all the clients, without the count of those that are ready.\<close>

fun serve_each :: "round \<Rightarrow> nat list \<Rightarrow> (pool, unit) prog" where
  "serve_each r [] = retp ()"
| "serve_each r (i # is) = thenp (check_client r i) (serve_each r is)"

lemma serve_each_none:
  "(\<And>i. i \<in> set is \<Longrightarrow> conn_ok (po_clients p ! i) \<and> \<not> client_ready p (po_clients p ! i)) \<Longrightarrow>
     serve_each r is p = Ret () p"
  by (induction "is") (simp_all add: thenp_unfold check_client_eq)

definition ready_among :: "pool \<Rightarrow> nat list \<Rightarrow> nat set" where
  "ready_among p is = {i \<in> set is. client_ready p (po_clients p ! i)}"

lemma ready_among_Cons:
  assumes "frame i p p'" "i \<notin> set is"
  shows "card (ready_among p (i # is)) =
    card (ready_among p' is) + (if client_ready p (po_clients p ! i) then 1 else 0)"
proof -
  have "j \<noteq> i" if "j \<in> set is" for j
    using that assms(2) by blast
  then have "ready_among p' is = ready_among p is"
    unfolding ready_among_def using frame_ready [OF assms(1)] by blast
  moreover have "ready_among p (i # is) =
      (if client_ready p (po_clients p ! i) then insert i (ready_among p is) else ready_among p is)"
    by (auto simp: ready_among_def)
  ultimately show ?thesis
    using assms(2) by (simp add: ready_among_def)
qed

lemma check_from_all:
  assumes "distinct is" "\<And>i. i \<in> set is \<Longrightarrow> conn_ok (po_clients p ! i)"
    "int (card (ready_among p is)) \<le> po_nready p"
  shows "check_from r is p = serve_each r is p"
  using assms
proof (induction "is" arbitrary: p)
  case (Cons i "is")
  show ?case
  proof (cases "0 < po_nready p")
    case False
    then have "card (ready_among p (i # is)) = 0"
      using Cons.prems(3) by linarith
    then have "ready_among p (i # is) = {}"
      by (simp add: card_eq_0_iff) (simp add: ready_among_def)
    then have "serve_each r (i # is) p = Ret () p"
      using Cons.prems(2) by (intro serve_each_none) (auto simp: ready_among_def)
    then show ?thesis
      using False by (simp add: bindp_unfold)
  next
    case True
    have ok: "conn_ok (po_clients p ! i)"
      using Cons.prems(2) by simp
    have "check_from r is q = serve_each r is q" if "check_client r i p = Ret a q" for a q
    proof (rule Cons.IH)
      note f = check_client_frame [OF ok that]
      show "distinct is"
        using Cons.prems(1) by simp
      show "conn_ok (po_clients q ! j)" if "j \<in> set is" for j
      proof -
        have "j \<noteq> i"
          using that Cons.prems(1) by auto
        then show ?thesis
          using that Cons.prems(2) [of j] frame_conn [OF conjunct1 [OF f], of j] by (simp add: conn_ok_def)
      qed
      show "int (card (ready_among q is)) \<le> po_nready q"
        using Cons.prems(1,3) f ready_among_Cons [OF conjunct1 [OF f], of "is"] by (auto split: if_splits)
    qed
    then show ?thesis
      using True by (auto simp: bindp_unfold thenp_unfold split: result.split)
  qed
qed simp

section \<open>What holds of the pool between two rounds\<close>

text \<open>
  A client is well formed: its buffer ends with a NUL, \<open>data\<close> points to the start of the buffer until
  the client has a name and behind the name then; a free slot has no message to write, and neither has
  a client without a name. Nothing is said of what its name holds: the program does not set it before
  the first text is received.
\<close>

definition client_ok :: "int \<Rightarrow> client \<Rightarrow> bool" where
  "client_ok l c \<longleftrightarrow> conn_ok c \<and> cl_connfd c \<noteq> l
     \<and> length (cl_buf c) = BUFSIZ \<and> cl_buf c ! (BUFSIZ - 1) = NUL
     \<and> length (cl_name c) = NAMESIZE
     \<and> cl_data c \<le> NAMESIZE + 1 \<and> (cl_welcome c \<longrightarrow> cl_data c = 0 \<and> cl_write_buf c = None)
     \<and> (cl_connfd c = - 1 \<longrightarrow> cl_welcome c)
     \<and> (case cl_write_buf c of None \<Rightarrow> True | Some k \<Rightarrow> k < CLIENT_FD_NUMBER)"

text \<open>
  A client is watched for reading and for exceptions while it has nothing to be written, and for
  writing only while it has.
\<close>

definition watch_ok :: "pool \<Rightarrow> client \<Rightarrow> bool" where
  "watch_ok p c \<longleftrightarrow> cl_connfd c \<noteq> - 1 \<longrightarrow>
     (cl_connfd c \<in> po_read_fds p) = (cl_write_buf c = None)
     \<and> (cl_connfd c \<in> po_exception_fds p) = (cl_write_buf c = None)
     \<and> (cl_connfd c \<in> po_write_fds p) = (cl_write_buf c \<noteq> None)
     \<and> cl_connfd c \<le> po_maxfd p"

definition pool_inv :: "int \<Rightarrow> pool \<Rightarrow> bool" where
  "pool_inv l p \<longleftrightarrow> fd_valid l \<and> length (po_clients p) = CLIENT_FD_NUMBER
     \<and> l \<in> po_read_fds p \<and> l \<notin> po_write_fds p \<and> l \<le> po_maxfd p
     \<and> po_read_fds p \<union> po_write_fds p \<union> po_exception_fds p \<subseteq> insert l (cl_connfd ` set (po_clients p) - {- 1})
     \<and> po_maxi p < int CLIENT_FD_NUMBER
     \<and> (\<forall>i < CLIENT_FD_NUMBER. client_ok l (po_clients p ! i) \<and> watch_ok p (po_clients p ! i)
          \<and> (cl_connfd (po_clients p ! i) \<noteq> - 1 \<longrightarrow> int i \<le> po_maxi p))
     \<and> (\<forall>i j. i < CLIENT_FD_NUMBER \<longrightarrow> j < CLIENT_FD_NUMBER \<longrightarrow> cl_connfd (po_clients p ! i) \<noteq> - 1 \<longrightarrow>
          cl_connfd (po_clients p ! i) = cl_connfd (po_clients p ! j) \<longrightarrow> i = j)"

lemma pool_invI:
  assumes "fd_valid l" "length (po_clients p) = CLIENT_FD_NUMBER" "l \<in> po_read_fds p" "l \<notin> po_write_fds p"
    "l \<le> po_maxfd p" "po_maxi p < int CLIENT_FD_NUMBER"
    "\<And>x. x \<in> po_read_fds p \<union> po_write_fds p \<union> po_exception_fds p \<Longrightarrow>
       x \<in> insert l (cl_connfd ` set (po_clients p) - {- 1})"
    "\<And>i. i < CLIENT_FD_NUMBER \<Longrightarrow> client_ok l (po_clients p ! i) \<and> watch_ok p (po_clients p ! i)
       \<and> (cl_connfd (po_clients p ! i) \<noteq> - 1 \<longrightarrow> int i \<le> po_maxi p)"
    "\<And>i j. i < CLIENT_FD_NUMBER \<Longrightarrow> j < CLIENT_FD_NUMBER \<Longrightarrow> cl_connfd (po_clients p ! i) \<noteq> - 1 \<Longrightarrow>
       cl_connfd (po_clients p ! i) = cl_connfd (po_clients p ! j) \<Longrightarrow> i = j"
  shows "pool_inv l p"
  unfolding pool_inv_def using assms by (intro conjI allI impI subsetI) blast+

lemma pool_inv_cong:
  assumes "po_clients q = po_clients p" "po_read_fds q = po_read_fds p" "po_write_fds q = po_write_fds p"
    "po_exception_fds q = po_exception_fds p" "po_maxfd q = po_maxfd p" "po_maxi q = po_maxi p"
  shows "pool_inv l q = pool_inv l p"
  by (simp add: pool_inv_def watch_ok_def assms)

lemma pool_inv_taken [simp]: "pool_inv l (taken p) = pool_inv l p"
  by (rule pool_inv_cong) simp_all

lemma pool_inv_client:
  assumes "pool_inv l p" "i < CLIENT_FD_NUMBER"
  shows "client_ok l (po_clients p ! i)" "watch_ok p (po_clients p ! i)" "i < length (po_clients p)"
    "cl_connfd (po_clients p ! i) \<noteq> - 1 \<Longrightarrow> int i \<le> po_maxi p"
  using assms by (simp_all add: pool_inv_def)

lemma conn_update: "i < length cs \<Longrightarrow> cl_connfd c \<in> cl_connfd ` set (cs[i := c])"
  by (intro imageI set_update_memI)

lemma conns_update:
  assumes "x \<in> insert l (cl_connfd ` set cs - {- 1})" "x \<noteq> cl_connfd (cs ! i) \<or> cl_connfd (cs ! i) = - 1"
  shows "x \<in> insert l (cl_connfd ` set (cs[i := c]) - {- 1})"
proof -
  consider "x = l" | j where "j < length cs" "cl_connfd (cs ! j) = x" "x \<noteq> - 1"
    using assms(1) by (auto simp: in_set_conv_nth)
  then show ?thesis
  proof cases
    case (2 j)
    then have "j \<noteq> i"
      using assms(2) by blast
    then have "cl_connfd (cs[i := c] ! j) = x" "cs[i := c] ! j \<in> set (cs[i := c])"
      using 2 by (simp, intro nth_mem) simp
    then show ?thesis using 2(3) by blast
  qed simp
qed

text \<open>A change of one client, and of the sets at its descriptor.\<close>

lemma pool_inv_change:
  assumes inv: "pool_inv l p" and i: "i < CLIENT_FD_NUMBER"
    and c: "cl_connfd c' = cl_connfd (po_clients p ! i) \<or> cl_connfd c' = - 1" "cl_connfd (po_clients p ! i) \<noteq> - 1"
    and ok: "client_ok l c'" "watch_ok q c'" "po_clients q = (po_clients p)[i := c']"
    and kept: "po_maxfd q = po_maxfd p" "po_maxi q = po_maxi p"
    and sets: "po_read_fds q - {cl_connfd (po_clients p ! i)} = po_read_fds p - {cl_connfd (po_clients p ! i)}"
      "po_write_fds q - {cl_connfd (po_clients p ! i)} = po_write_fds p - {cl_connfd (po_clients p ! i)}"
      "po_exception_fds q - {cl_connfd (po_clients p ! i)} = po_exception_fds p - {cl_connfd (po_clients p ! i)}"
    and gone: "cl_connfd c' = - 1 \<Longrightarrow>
      cl_connfd (po_clients p ! i) \<notin> po_read_fds q \<union> po_write_fds q \<union> po_exception_fds q"
  shows "pool_inv l q"
proof -
  let ?f = "cl_connfd (po_clients p ! i)"
  have len: "length (po_clients p) = CLIENT_FD_NUMBER" and f: "?f \<noteq> l"
    using inv pool_inv_client(1) [OF inv i] by (simp_all add: pool_inv_def client_ok_def)
  have nth: "po_clients q ! j = (if j = i then c' else po_clients p ! j)" if "j < CLIENT_FD_NUMBER" for j
    using that i by (simp add: ok(3) nth_list_update len)
  have other: "cl_connfd (po_clients p ! j) \<noteq> ?f" if "j < CLIENT_FD_NUMBER" "j \<noteq> i" for j
    using inv i c(2) that unfolding pool_inv_def by metis
  have mem: "x \<in> po_read_fds q \<longleftrightarrow> x \<in> po_read_fds p" "x \<in> po_write_fds q \<longleftrightarrow> x \<in> po_write_fds p"
    "x \<in> po_exception_fds q \<longleftrightarrow> x \<in> po_exception_fds p" if "x \<noteq> ?f" for x
    using sets that by blast+
  have "x \<in> insert l (cl_connfd ` set (po_clients q) - {- 1})"
    if x: "x \<in> po_read_fds q \<union> po_write_fds q \<union> po_exception_fds q" for x
  proof (cases "x = ?f")
    case True
    then have "cl_connfd c' = ?f"
      using c(1) gone x by blast
    moreover have "cl_connfd c' \<in> cl_connfd ` set (po_clients q)"
      unfolding ok(3) using i len by (intro conn_update) simp
    ultimately show ?thesis
      using True c(2) by simp
  next
    case False
    have "x \<in> po_read_fds p \<union> po_write_fds p \<union> po_exception_fds p"
      using x mem [OF False] by blast
    then have "x \<in> insert l (cl_connfd ` set (po_clients p) - {- 1})"
      using inv by (auto simp only: pool_inv_def)
    then show ?thesis
      unfolding ok(3) using False by (intro conns_update disjI1)
  qed
  moreover have "l \<in> po_read_fds q" "l \<notin> po_write_fds q"
    using inv f mem by (auto simp: pool_inv_def)
  moreover have "client_ok l (po_clients q ! j) \<and> watch_ok q (po_clients q ! j)
      \<and> (cl_connfd (po_clients q ! j) \<noteq> - 1 \<longrightarrow> int j \<le> po_maxi q)" if j: "j < CLIENT_FD_NUMBER" for j
    using ok(1,2) c pool_inv_client [OF inv j] mem [OF other [OF j]] i nth [OF j] kept
    by (cases "j = i") (auto simp: watch_ok_def)
  moreover have "j = k" if jk: "j < CLIENT_FD_NUMBER" "k < CLIENT_FD_NUMBER" "cl_connfd (po_clients q ! j) \<noteq> - 1"
    "cl_connfd (po_clients q ! j) = cl_connfd (po_clients q ! k)" for j k
  proof (cases "j = i \<or> k = i")
    case True
    then show ?thesis
      using jk c other [of j] other [of k] nth [of j] nth [of k] by (cases "j = i"; cases "k = i") simp_all
  next
    case False
    then have "cl_connfd (po_clients p ! j) = cl_connfd (po_clients p ! k)" "cl_connfd (po_clients p ! j) \<noteq> - 1"
      using jk nth [of j] nth [of k] by simp_all
    then show ?thesis
      using inv jk(1,2) unfolding pool_inv_def by blast
  qed
  moreover have "length (po_clients q) = CLIENT_FD_NUMBER" "fd_valid l" "l \<le> po_maxfd q" "po_maxi q < int CLIENT_FD_NUMBER"
    using inv kept len by (simp_all add: ok(3) pool_inv_def)
  ultimately show ?thesis
    by (intro pool_invI)
qed

section \<open>The four ways to serve a client\<close>

lemma BUFSIZ_sizes: "NAMESIZE = 16" "BUFSIZ = Suc 8191" "CLIENT_FD_NUMBER = 32"
  by (simp_all add: NAMESIZE_def BUFSIZ_def CLIENT_FD_NUMBER_def)

definition moved_to_read :: "int \<Rightarrow> pool \<Rightarrow> pool" where
  "moved_to_read fd p = p\<lparr>po_write_fds := po_write_fds p - {fd}, po_read_fds := insert fd (po_read_fds p),
     po_exception_fds := insert fd (po_exception_fds p)\<rparr>"

lemma client_write_eq:
  assumes "fd_valid (cl_connfd (po_clients p ! i))" "cl_write_buf (po_clients p ! i) = Some k"
    "c_string (cl_buf (po_clients p ! k)) = Some s" "\<not> rd_gone r (cl_connfd (po_clients p ! i))"
  shows "client_write r i p = Ret () (moved_to_read (cl_connfd (po_clients p ! i))
    (p\<lparr>po_net := po_net p @ [Sent (cl_connfd (po_clients p ! i)) s],
       po_clients := (po_clients p)[i := (po_clients p ! i)\<lparr>cl_write_buf := None\<rparr>]\<rparr>))"
  using assms by (simp add: client_write_def get_client_def bindp_unfold thenp_unfold net_log_def set_client_def
      FD_SET_def FD_CLR_def moved_to_read_def)

definition unwatched :: "int \<Rightarrow> pool \<Rightarrow> pool" where
  "unwatched fd p = p\<lparr>po_read_fds := po_read_fds p - {fd}, po_write_fds := po_write_fds p - {fd},
     po_exception_fds := po_exception_fds p - {fd}\<rparr>"

lemma client_exit_eq:
  assumes "fd_valid (cl_connfd (po_clients p ! i))" "c_string (cl_name (po_clients p ! i)) = Some s"
  shows "client_exit i p = Ret () (unwatched (cl_connfd (po_clients p ! i))
    (p\<lparr>con_pending := con_pending p @ s @ '' exit'' @ [NL],
       po_net := po_net p @ [Closed (cl_connfd (po_clients p ! i))],
       po_clients := (po_clients p)[i := init_client (po_clients p ! i)]\<rparr>))"
  using assms by (simp add: client_exit_def get_client_def bindp_unfold thenp_unfold net_log_def set_client_def
      FD_CLR_def unwatched_def printf_stdout_def)

text \<open>A client whose buffer holds \<open>bs\<close> behind its name, and one that has just got its name.\<close>

definition received :: "client \<Rightarrow> string \<Rightarrow> client" where
  "received c bs = c\<lparr>cl_buf := take (cl_data c) (cl_buf c) @ bs @ replicate (BUFSIZ - cl_data c - length bs) NUL\<rparr>"

definition name_of :: "string \<Rightarrow> string" where
  "name_of bs = (if bs \<noteq> [] \<and> last bs = NL then butlast bs else bs)"

definition named :: "client \<Rightarrow> string \<Rightarrow> client" where
  "named c nm = c\<lparr>cl_name := nm @ drop (length nm) (cl_name c), cl_welcome := False,
     cl_buf := nm @ '': '' @ replicate (BUFSIZ - length nm - 2) NUL, cl_data := length nm + 2\<rparr>"

lemma client_recv_eq:
  assumes "i < length (po_clients p)" "rd_recv r (cl_connfd (po_clients p ! i)) = Some bs"
    "length (cl_buf (po_clients p ! i)) = BUFSIZ" "cl_data (po_clients p ! i) + length bs < BUFSIZ"
  shows "client_recv r i p =
    (if bs = [] then client_exit i
     else if cl_welcome (po_clients p ! i) then client_welcome i (length bs)
     else broadcast i [0..<nat (po_maxi p + 1)])
    (p\<lparr>po_clients := (po_clients p)[i := received (po_clients p ! i) bs]\<rparr>)"
proof -
  let ?c = "po_clients p ! i"
  have "memput (cl_data ?c) bs (memput (cl_data ?c) (replicate (BUFSIZ - cl_data ?c) NUL) (cl_buf ?c)) = cl_buf (received ?c bs)"
    using assms(3,4) by (simp add: memput_def received_def)
  moreover have "take (BUFSIZ - 1) bs = bs"
    using assms(4) by simp
  moreover have "received ?c bs = ?c\<lparr>cl_buf := cl_buf (received ?c bs)\<rparr>"
    by (simp add: received_def)
  ultimately show ?thesis
    using assms by (simp add: client_recv_def get_client_def set_client_def bindp_unfold [of "getsp f" for f] thenp_unfold)
qed

lemma client_welcome_eq:
  assumes "i < length (po_clients p)"
    "cl_buf (po_clients p ! i) = bs @ replicate (BUFSIZ - length bs) NUL"
    "bs \<noteq> []" "NUL \<notin> set bs" "length bs < BUFSIZ"
  shows "client_welcome i (length bs) p =
    (if NAMESIZE < length (name_of bs) then Undef
     else Ret () (p\<lparr>con_pending := con_pending p @ ''Welcome '' @ name_of bs @ ''!'' @ [NL],
       po_clients := (po_clients p)[i := named (po_clients p ! i) (name_of bs)]\<rparr>))"
proof -
  let ?c = "po_clients p ! i" and ?nm = "name_of bs"
  define b where "b = ?nm @ replicate (BUFSIZ - length ?nm) NUL"
  define n where "n = length ?nm"
  have len: "n < BUFSIZ"
    using assms(5) by (auto simp: name_of_def n_def)
  have s: "c_string (cl_buf ?c) = Some bs"
    unfolding assms(2) using assms(4,5) by (intro c_string_append) simp_all
  have nul: "NUL \<notin> set ?nm"
    using assms(4) by (auto simp: name_of_def dest: in_set_butlastD)
  have b: "c_string b = Some ?nm"
    unfolding b_def using nul len by (intro c_string_append) (simp_all add: n_def)
  have buf: "(if cl_buf ?c ! (length bs - 1) = NL then ((cl_buf ?c)[length bs - 1 := NUL], length bs - 1)
      else (cl_buf ?c, length bs)) = (b, n)"
  proof (cases bs rule: rev_cases)
    case (snoc us u)
    then have "BUFSIZ - length us = Suc (BUFSIZ - length bs)"
      using assms(5) by simp
    then show ?thesis
      using snoc by (simp add: assms(2) name_of_def b_def n_def nth_append list_update_append)
  qed (use assms(3) in simp)
  have "takeWhile (\<lambda>c. c \<noteq> NUL) (take n b) = ?nm"
    using nul by (simp add: b_def n_def takeWhile_eq_all_conv) blast
  then have name: "strncpy_into (cl_name ?c) b n = ?nm @ drop n (cl_name ?c)"
    by (simp add: strncpy_into_def n_def Let_def)
  have "b[n := CHR '':'', n + 1 := CHR '' ''] = ?nm @ '': '' @ replicate (BUFSIZ - n - 2) NUL" if "n \<le> NAMESIZE"
  proof -
    have k: "BUFSIZ - n = Suc (Suc (BUFSIZ - n - 2))"
      using that by (simp add: BUFSIZ_sizes)
    show ?thesis
      by (simp add: b_def n_def [symmetric] list_update_append) (subst k, simp add: n_def)
  qed
  then show ?thesis
    using assms(1,3) s b buf name
    by (simp add: client_welcome_def get_client_def set_client_def printf_stdout_def bindp_unfold thenp_unfold named_def
        n_def [symmetric] not_less)
qed

section \<open>The rounds keep the pool well formed\<close>

lemma client_ok_strings:
  assumes "client_ok l c"
  shows "\<exists>s. c_string (cl_buf c) = Some s"
  using assms c_string_nth [of "BUFSIZ - 1" "cl_buf c"]
  by (simp_all add: client_ok_def BUFSIZ_sizes)

lemma connected_valid:
  "client_ok l c \<Longrightarrow> cl_connfd c \<noteq> - 1 \<Longrightarrow> fd_valid (cl_connfd c)"
  by (simp add: client_ok_def conn_ok_def)

lemma client_write_safe:
  assumes inv: "pool_inv l p" and i: "i < CLIENT_FD_NUMBER" and c: "cl_connfd (po_clients p ! i) \<noteq> - 1"
    "cl_write_buf (po_clients p ! i) \<noteq> None"
  shows "safe_result (pool_inv l) (client_write r i p)"
proof -
  let ?c = "po_clients p ! i"
  obtain k where k: "cl_write_buf ?c = Some k"
    using c(2) by blast
  note ok = pool_inv_client(1,2) [OF inv i]
  have "k < CLIENT_FD_NUMBER"
    using ok(1) k by (simp add: client_ok_def)
  then obtain s where s: "c_string (cl_buf (po_clients p ! k)) = Some s"
    using client_ok_strings pool_inv_client(1) [OF inv] by blast
  show ?thesis
  proof (cases "rd_gone r (cl_connfd ?c)")
    case True
    then show ?thesis
      using k s by (simp add: client_write_def get_client_def bindp_unfold)
  next
    case False
    have "client_ok l (?c\<lparr>cl_write_buf := None\<rparr>)"
      using ok(1) by (simp add: client_ok_def conn_ok_def)
    then show ?thesis
      unfolding client_write_eq [OF connected_valid [OF ok(1) c(1)] k s False] safe_result_simps using ok(2) c(1)
      by (intro pool_inv_change [OF inv i, of "?c\<lparr>cl_write_buf := None\<rparr>"]) (auto simp: moved_to_read_def watch_ok_def)
  qed
qed

lemma client_exit_safe:
  assumes inv: "pool_inv l p" and i: "i < CLIENT_FD_NUMBER" and c: "cl_connfd (po_clients p ! i) \<noteq> - 1"
    and nm: "NUL \<in> set (cl_name (po_clients p ! i))"
  shows "safe_result (pool_inv l) (client_exit i p)"
proof -
  let ?c = "po_clients p ! i"
  note ok = pool_inv_client(1,2) [OF inv i]
  obtain s where s: "c_string (cl_name ?c) = Some s"
    using nm by (simp add: c_string_def)
  have "fd_valid l"
    using inv by (simp add: pool_inv_def)
  then have "client_ok l (init_client ?c)"
    using ok(1) by (simp add: client_ok_def conn_ok_def init_client_def fd_valid_def BUFSIZ_sizes del: replicate_Suc)
  then show ?thesis
    unfolding client_exit_eq [OF connected_valid [OF ok(1) c] s] safe_result_simps using ok(2) c
    by (intro pool_inv_change [OF inv i, of "init_client ?c"]) (auto simp: unwatched_def watch_ok_def init_client_def)
qed

text \<open>A change of one client that leaves its connection and its \<open>write_buf\<close>.\<close>

lemma pool_inv_same_watch:
  assumes inv: "pool_inv l p" and i: "i < CLIENT_FD_NUMBER" and c: "cl_connfd (po_clients p ! i) \<noteq> - 1"
    and c': "cl_connfd c' = cl_connfd (po_clients p ! i)" "cl_write_buf c' = cl_write_buf (po_clients p ! i)" "client_ok l c'"
  shows "pool_inv l (p\<lparr>po_clients := (po_clients p)[i := c']\<rparr>)"
  using pool_inv_client(2) [OF inv i] c c' by (intro pool_inv_change [OF inv i, of c']) (auto simp: watch_ok_def)

lemma received_ok:
  assumes "client_ok l c" "cl_data c + length bs < BUFSIZ"
  shows "client_ok l (received c bs)"
  using assms by (auto simp: client_ok_def conn_ok_def received_def nth_append)

lemma named_ok:
  assumes "client_ok l c" "length nm < NAMESIZE" "cl_connfd c \<noteq> - 1"
  shows "client_ok l (named c nm)"
proof -
  have "BUFSIZ - length nm - 2 = Suc (BUFSIZ - length nm - 3)"
    using assms(2) by (simp add: BUFSIZ_sizes)
  then show ?thesis
    using assms by (auto simp: client_ok_def conn_ok_def named_def nth_append BUFSIZ_sizes split: option.splits)
qed

text \<open>
  What the peers may send: a name of at most 15 characters, texts that fit in the buffer behind it. When
  a client leaves, its name is printed, and there must be a NUL in it.
\<close>

definition fine_text :: "client \<Rightarrow> string \<Rightarrow> bool" where
  "fine_text c bs \<longleftrightarrow> length bs + NAMESIZE + 2 \<le> BUFSIZ
     \<and> (cl_welcome c \<longrightarrow> NUL \<notin> set bs \<and> length (name_of bs) < NAMESIZE)
     \<and> (bs = [] \<longrightarrow> NUL \<in> set (cl_name c))"

definition fine_peer :: "round \<Rightarrow> client \<Rightarrow> bool" where
  "fine_peer r c \<longleftrightarrow> (case rd_recv r (cl_connfd c) of None \<Rightarrow> True | Some bs \<Rightarrow> fine_text c bs)"

definition addressed :: "pool \<Rightarrow> nat \<Rightarrow> nat \<Rightarrow> bool" where
  "addressed p i j \<longleftrightarrow> j \<noteq> i \<and> cl_connfd (po_clients p ! j) \<noteq> - 1 \<and> \<not> cl_welcome (po_clients p ! j)"

definition pointed :: "nat \<Rightarrow> nat \<Rightarrow> pool \<Rightarrow> pool" where
  "pointed i j p = p\<lparr>po_clients := (po_clients p)[j := (po_clients p ! j)\<lparr>cl_write_buf := Some i\<rparr>],
     po_write_fds := insert (cl_connfd (po_clients p ! j)) (po_write_fds p),
     po_read_fds := po_read_fds p - {cl_connfd (po_clients p ! j)},
     po_exception_fds := po_exception_fds p - {cl_connfd (po_clients p ! j)}\<rparr>"

lemma broadcast_Cons:
  assumes "pool_inv l p" "j < CLIENT_FD_NUMBER"
  shows "broadcast i (j # js) p = broadcast i js (if addressed p i j then pointed i j p else p)"
proof -
  let ?fd = "cl_connfd (po_clients p ! j)"
  have "po_exception_fds_update (\<lambda>s. s - {?fd}) (po_read_fds_update (\<lambda>s. s - {?fd})
      (po_write_fds_update (insert ?fd)
        (p\<lparr>po_clients := (po_clients p)[j := (po_clients p ! j)\<lparr>cl_write_buf := Some i\<rparr>]\<rparr>))) = pointed i j p"
    by (simp add: pointed_def)
  then show ?thesis
    using connected_valid [OF pool_inv_client(1) [OF assms]]
    by (simp add: addressed_def get_client_def set_client_def FD_SET_def FD_CLR_def bindp_unfold thenp_unfold)
qed

lemma pointed_inv:
  assumes inv: "pool_inv l p" and j: "j < CLIENT_FD_NUMBER" "addressed p i j" and i: "i < CLIENT_FD_NUMBER"
  shows "pool_inv l (pointed i j p)"
proof -
  let ?c = "(po_clients p ! j)\<lparr>cl_write_buf := Some i\<rparr>"
  have "client_ok l ?c"
    using pool_inv_client(1) [OF inv j(1)] i j(2) by (simp add: client_ok_def conn_ok_def addressed_def)
  then show ?thesis
    using pool_inv_client(2) [OF inv j(1)] j(2)
    by (intro pool_inv_change [OF inv j(1), of ?c]) (auto simp: pointed_def watch_ok_def addressed_def)
qed

lemma broadcast_safe:
  assumes "pool_inv l p" "\<forall>j \<in> set js. j < CLIENT_FD_NUMBER" "i < CLIENT_FD_NUMBER"
  shows "safe_result (pool_inv l) (broadcast i js p)"
  using assms
proof (induction js arbitrary: p)
  case (Cons j js)
  then show ?case
    using broadcast_Cons [of l p j i js] pointed_inv [of l p j i] by simp
qed simp

lemma client_recv_safe:
  assumes inv: "pool_inv l p" and i: "i < CLIENT_FD_NUMBER" and c: "cl_connfd (po_clients p ! i) \<noteq> - 1"
    and fine: "fine_peer r (po_clients p ! i)"
  shows "safe_result (pool_inv l) (client_recv r i p)"
proof (cases "rd_recv r (cl_connfd (po_clients p ! i))")
  case None
  then show ?thesis
    by (simp add: client_recv_def get_client_def set_client_def bindp_unfold thenp_unfold abort_process_def)
next
  case (Some bs)
  let ?c = "po_clients p ! i"
  define q where "q = p\<lparr>po_clients := (po_clients p)[i := received ?c bs]\<rparr>"
  note ok = pool_inv_client(1,3) [OF inv i]
  have fits: "cl_data ?c + length bs < BUFSIZ" "fine_text ?c bs"
    using fine ok(1) Some by (auto simp: fine_peer_def fine_text_def client_ok_def)
  have q: "pool_inv l q" "po_clients q ! i = received ?c bs" "i < length (po_clients q)" "po_maxi q = po_maxi p"
    using received_ok [OF ok(1) fits(1)] c ok(2) unfolding q_def
    by (intro pool_inv_same_watch [OF inv i], simp_all add: received_def)
  have r: "cl_connfd (received ?c bs) = cl_connfd ?c" "cl_welcome (received ?c bs) = cl_welcome ?c"
    by (simp_all add: received_def)
  have "client_recv r i p =
      (if bs = [] then client_exit i else if cl_welcome ?c then client_welcome i (length bs)
       else broadcast i [0..<nat (po_maxi p + 1)]) q"
    unfolding q_def using Some fits(1) ok by (intro client_recv_eq) (simp_all add: client_ok_def)
  moreover have "safe_result (pool_inv l) (client_exit i q)" if "bs = []"
    using q r c fits(2) that by (intro client_exit_safe [OF q(1) i]) (simp_all add: fine_text_def received_def)
  moreover have "safe_result (pool_inv l) (client_welcome i (length bs) q)" if w: "cl_welcome ?c" "bs \<noteq> []"
  proof -
    have buf: "cl_buf (po_clients q ! i) = bs @ replicate (BUFSIZ - length bs) NUL"
      using w ok(1) by (simp add: q(2) received_def client_ok_def)
    have fine: "NUL \<notin> set bs" "length (name_of bs) < NAMESIZE"
      using fits(2) w by (simp_all add: fine_text_def)
    have "client_ok l (named (received ?c bs) (name_of bs))"
      using fine(2) r c received_ok [OF ok(1) fits(1)] by (intro named_ok) simp_all
    then have "pool_inv l (q\<lparr>po_clients := (po_clients q)[i := named (received ?c bs) (name_of bs)]\<rparr>)"
      using r c q(2) by (intro pool_inv_same_watch [OF q(1) i]) (simp_all add: named_def)
    then show ?thesis
      using client_welcome_eq [OF q(3) buf w(2) fine(1)] fine(2) fits(1) by (simp add: q(2) pool_inv_def watch_ok_def)
  qed
  moreover have "safe_result (pool_inv l) (broadcast i [0..<nat (po_maxi p + 1)] q)"
    using inv i by (intro broadcast_safe [OF q(1)]) (auto simp: pool_inv_def)
  ultimately show ?thesis
    by simp
qed

definition turn_ok :: "round \<Rightarrow> pool \<Rightarrow> nat \<Rightarrow> bool" where
  "turn_ok r p i \<longleftrightarrow> cl_connfd (po_clients p ! i) \<noteq> - 1 \<longrightarrow>
     (cl_connfd (po_clients p ! i) \<in> po_ready_write_fds p \<longrightarrow> cl_write_buf (po_clients p ! i) \<noteq> None)
     \<and> (cl_connfd (po_clients p ! i) \<in> po_ready_read_fds p \<union> po_ready_exception_fds p \<longrightarrow>
          fine_peer r (po_clients p ! i))"

lemma fine_peer_kept: "other_kept i c c' \<Longrightarrow> fine_peer r c' = fine_peer r c"
  by (auto simp: other_kept_def fine_peer_def fine_text_def cong: option.case_cong)

lemma turn_ok_frame:
  assumes "frame i p p'" "j \<noteq> i" "turn_ok r p j"
  shows "turn_ok r p' j"
proof -
  have k: "other_kept i (po_clients p ! j) (po_clients p' ! j)"
    using assms(1,2) by (simp add: frame_def)
  then have "cl_connfd (po_clients p' ! j) = cl_connfd (po_clients p ! j)"
    "cl_write_buf (po_clients p ! j) \<noteq> None \<longrightarrow> cl_write_buf (po_clients p' ! j) \<noteq> None"
    by (auto simp: other_kept_def)
  then show ?thesis
    using assms(1,3) fine_peer_kept [OF k, of r] by (simp add: turn_ok_def frame_def)
qed

lemma check_client_safe:
  assumes "pool_inv l p" "i < CLIENT_FD_NUMBER" "turn_ok r p i"
  shows "safe_result (pool_inv l) (check_client r i p)"
proof -
  have ok: "conn_ok (po_clients p ! i)"
    using pool_inv_client(1) [OF assms(1,2)] by (simp add: client_ok_def)
  have "pool_inv l (taken p)"
    using assms(1) by simp
  then show ?thesis
    using assms client_write_safe [of l "taken p" i r] client_recv_safe [of l "taken p" i r]
    by (auto simp: check_client_eq [OF ok] client_ready_def turn_ok_def)
qed

lemma check_from_safe:
  assumes "pool_inv l p" "distinct is" "\<And>i. i \<in> set is \<Longrightarrow> i < CLIENT_FD_NUMBER \<and> turn_ok r p i"
  shows "safe_result (pool_inv l) (check_from r is p)"
  using assms
proof (induction "is" arbitrary: p)
  case (Cons i "is")
  have i: "i < CLIENT_FD_NUMBER" "turn_ok r p i"
    using Cons.prems(3) by simp_all
  have ok: "conn_ok (po_clients p ! i)"
    using pool_inv_client(1) [OF Cons.prems(1) i(1)] by (simp add: client_ok_def)
  have "safe_result (pool_inv l) (check_from r is q)" if q: "check_client r i p = Ret a q" "pool_inv l q" for a q
  proof (rule Cons.IH [OF q(2)])
    note f = conjunct1 [OF check_client_frame [OF ok q(1)]]
    show "j < CLIENT_FD_NUMBER \<and> turn_ok r q j" if "j \<in> set is" for j
    proof -
      have "j \<noteq> i"
        using that Cons.prems(2) by auto
      then show ?thesis
        using that Cons.prems(3) [of j] turn_ok_frame [OF f, of j r] by simp
    qed
  qed (use Cons.prems(2) in simp)
  then have "safe_result (pool_inv l) (thenp (check_client r i) (check_from r is) p)"
    unfolding thenp_def by (intro safe_result_bind check_client_safe [OF Cons.prems(1) i])
  then show ?case
    using Cons.prems(1) by (simp add: bindp_unfold)
qed simp

lemma check_clients_safe:
  assumes "pool_inv l p" "\<And>i. i < CLIENT_FD_NUMBER \<Longrightarrow> turn_ok r p i"
  shows "safe_result (pool_inv l) (check_clients r p)"
proof -
  have "po_maxi p < int CLIENT_FD_NUMBER"
    using assms(1) by (simp add: pool_inv_def)
  then have "i < CLIENT_FD_NUMBER" if "i \<in> set [0..<nat (po_maxi p + 1)]" for i
    using that by auto
  then have "safe_result (pool_inv l) (check_from r [0..<nat (po_maxi p + 1)] p)"
    by (intro check_from_safe [OF assms(1)]) (auto intro: assms(2))
  then show ?thesis
    by (simp add: check_clients_def bindp_unfold)
qed

text \<open>A new connection: its slot, and the pool when there is none left.\<close>

lemma free_slot_Some:
  "free_slot k cs = Some i \<Longrightarrow> k \<le> i \<and> i - k < length cs \<and> cl_connfd (cs ! (i - k)) < 0"
proof (induction k cs rule: free_slot.induct)
  case (2 k c cs)
  show ?case
  proof (cases "cl_connfd c < 0")
    case False
    then have "k + 1 \<le> i \<and> i - (k + 1) < length cs \<and> cl_connfd (cs ! (i - (k + 1))) < 0"
      using 2 by simp
    moreover from this have "i - k = Suc (i - (k + 1))" by arith
    ultimately show ?thesis by simp
  qed (use 2 in auto)
qed simp

lemma free_slot_None: "free_slot k cs = None \<longleftrightarrow> (\<forall>c \<in> set cs. 0 \<le> cl_connfd c)"
  by (induction k cs rule: free_slot.induct) auto

definition joined :: "nat \<Rightarrow> int \<Rightarrow> pool \<Rightarrow> pool" where
  "joined i fd p = p\<lparr>po_nready := po_nready p - 1,
     po_clients := (po_clients p)[i := (po_clients p ! i)\<lparr>cl_connfd := fd\<rparr>],
     po_read_fds := insert fd (po_read_fds p), po_exception_fds := insert fd (po_exception_fds p),
     po_maxfd := max (po_maxfd p) fd, po_maxi := max (po_maxi p) (int i)\<rparr>"

lemma joined_clients: "po_clients (joined i fd p) = (po_clients p)[i := (po_clients p ! i)\<lparr>cl_connfd := fd\<rparr>]"
  by (simp add: joined_def)

lemma add_client_eq:
  "fd_valid fd \<Longrightarrow> free_slot 0 (po_clients p) = Some i \<Longrightarrow> add_client strerror fd p = Ret () (joined i fd p)"
  by (simp add: add_client_def thenp_unfold bindp_unfold set_client_def FD_SET_def joined_def)

definition fresh_fd :: "int \<Rightarrow> pool \<Rightarrow> int \<Rightarrow> bool" where
  "fresh_fd l p fd \<longleftrightarrow> fd_valid fd \<and> fd \<noteq> l \<and> fd \<notin> cl_connfd ` set (po_clients p)"

lemma joined_inv:
  assumes inv: "pool_inv l p" and fd: "fresh_fd l p fd" and i: "free_slot 0 (po_clients p) = Some i"
  shows "pool_inv l (joined i fd p)"
proof -
  let ?q = "joined i fd p" and ?c = "(po_clients p ! i)\<lparr>cl_connfd := fd\<rparr>"
  have len: "length (po_clients p) = CLIENT_FD_NUMBER" "i < CLIENT_FD_NUMBER"
    using inv free_slot_Some [OF i] by (simp_all add: pool_inv_def)
  note ok = pool_inv_client(1) [OF inv len(2)]
  have free: "cl_connfd (po_clients p ! i) = - 1"
    using ok free_slot_Some [OF i] by (auto simp: client_ok_def conn_ok_def fd_valid_def)
  then have c: "client_ok l ?c" "cl_write_buf (po_clients p ! i) = None" "0 \<le> fd"
    using ok fd by (auto simp: client_ok_def conn_ok_def fresh_fd_def fd_valid_def)
  have new: "fd \<noteq> - 1" "fd \<noteq> l" "fd \<notin> po_read_fds p \<union> po_write_fds p \<union> po_exception_fds p"
    using inv fd c(3) unfolding pool_inv_def fresh_fd_def by auto
  have nth: "po_clients ?q ! j = (if j = i then ?c else po_clients p ! j)" if "j < CLIENT_FD_NUMBER" for j
    using that len by (simp add: joined_def nth_list_update)
  have other: "cl_connfd (po_clients p ! j) \<noteq> fd" if "j < CLIENT_FD_NUMBER" for j
    using fd that len nth_mem [of j "po_clients p"] by (auto simp: fresh_fd_def)
  show ?thesis
  proof (rule pool_invI)
    show "x \<in> insert l (cl_connfd ` set (po_clients ?q) - {- 1})"
      if "x \<in> po_read_fds ?q \<union> po_write_fds ?q \<union> po_exception_fds ?q" for x
    proof (cases "x = fd")
      case True
      have "cl_connfd ?c \<in> cl_connfd ` set ((po_clients p)[i := ?c])"
        using len by (intro conn_update) simp
      then show ?thesis using True new by (simp add: joined_def)
    next
      case False
      then have "x \<in> insert l (cl_connfd ` set (po_clients p) - {- 1})"
        using that inv unfolding pool_inv_def joined_def by auto
      then have "x \<in> insert l (cl_connfd ` set ((po_clients p)[i := ?c]) - {- 1})"
        using free by (intro conns_update) simp_all
      then show ?thesis by (simp only: joined_clients)
    qed
    show "client_ok l (po_clients ?q ! j) \<and> watch_ok ?q (po_clients ?q ! j)
        \<and> (cl_connfd (po_clients ?q ! j) \<noteq> - 1 \<longrightarrow> int j \<le> po_maxi ?q)" if j: "j < CLIENT_FD_NUMBER" for j
      using pool_inv_client [OF inv j] c new other [OF j] nth [OF j]
      by (cases "j = i") (auto simp: watch_ok_def joined_def)
    show "j = k" if jk: "j < CLIENT_FD_NUMBER" "k < CLIENT_FD_NUMBER" "cl_connfd (po_clients ?q ! j) \<noteq> - 1"
      "cl_connfd (po_clients ?q ! j) = cl_connfd (po_clients ?q ! k)" for j k
    proof (cases "j = i \<or> k = i")
      case True
      then show ?thesis
        using jk(4) other [OF jk(1)] other [OF jk(2)] by (auto simp: nth [OF jk(1)] nth [OF jk(2)] split: if_splits)
    next
      case False
      then have "cl_connfd (po_clients p ! j) = cl_connfd (po_clients p ! k)" "cl_connfd (po_clients p ! j) \<noteq> - 1"
        using jk(3,4) by (simp_all add: nth [OF jk(1)] nth [OF jk(2)])
      then show ?thesis
        using inv jk(1,2) unfolding pool_inv_def by blast
    qed
  qed (use inv new len in \<open>auto simp: pool_inv_def joined_def\<close>)
qed

section \<open>Rounds\<close>

definition asked :: "pool \<Rightarrow> pool" where
  "asked p = p\<lparr>po_ready_read_fds := po_read_fds p, po_ready_write_fds := po_write_fds p,
     po_ready_exception_fds := po_exception_fds p\<rparr>"

definition reported :: "int set \<Rightarrow> int set \<Rightarrow> int set \<Rightarrow> pool \<Rightarrow> pool" where
  "reported rs ws es p =
     (let rs' = {fd \<in> po_read_fds p. fd < po_maxfd p + 1 \<and> fd \<in> rs};
          ws' = {fd \<in> po_write_fds p. fd < po_maxfd p + 1 \<and> fd \<in> ws};
          es' = {fd \<in> po_exception_fds p. fd < po_maxfd p + 1 \<and> fd \<in> es}
      in p\<lparr>po_ready_read_fds := rs', po_ready_write_fds := ws', po_ready_exception_fds := es',
           po_nready := int (card rs' + card ws' + card es')\<rparr>)"

lemma reported_simps [simp]:
  "po_clients (reported rs ws es p) = po_clients p" "po_maxi (reported rs ws es p) = po_maxi p"
  "po_maxfd (reported rs ws es p) = po_maxfd p" "po_net (reported rs ws es p) = po_net p"
  "po_read_fds (reported rs ws es p) = po_read_fds p" "po_write_fds (reported rs ws es p) = po_write_fds p"
  "po_exception_fds (reported rs ws es p) = po_exception_fds p"
  by (simp_all add: reported_def Let_def)

lemma reported_ready:
  "po_ready_read_fds (reported rs ws es p) = {fd \<in> po_read_fds p. fd < po_maxfd p + 1 \<and> fd \<in> rs}"
  "po_ready_write_fds (reported rs ws es p) = {fd \<in> po_write_fds p. fd < po_maxfd p + 1 \<and> fd \<in> ws}"
  "po_ready_exception_fds (reported rs ws es p) = {fd \<in> po_exception_fds p. fd < po_maxfd p + 1 \<and> fd \<in> es}"
  "po_nready (reported rs ws es p) = int (card (po_ready_read_fds (reported rs ws es p))
     + card (po_ready_write_fds (reported rs ws es p)) + card (po_ready_exception_fds (reported rs ws es p)))"
  by (simp_all add: reported_def Let_def)

lemma pool_inv_reported [simp]: "pool_inv l (reported rs ws es p) = pool_inv l p"
  by (rule pool_inv_cong) simp_all

lemma server_round_eq:
  assumes "fd_valid l"
  shows "server_round strerror l r p = (case rd_select r of
      None \<Rightarrow> Ret False ((asked p)\<lparr>po_nready := - 1, con_seen := con_seen p @ [ErrText (''select failure'' @ [NL])]\<rparr>)
    | Some (rs, ws, es) \<Rightarrow>
        bindp (if l \<in> po_ready_read_fds (reported rs ws es p) then accept_client strerror r else retp True)
          (\<lambda>go. if go then thenp (check_clients r) (retp True) else retp False) (reported rs ws es p))"
proof (cases "rd_select r")
  case None
  then show ?thesis
    by (simp add: server_round_def sys_select_def bindp_unfold thenp_unfold asked_def fputs_stderr_def)
next
  case (Some x)
  obtain rs ws es where x: "x = (rs, ws, es)" by (cases x)
  let ?q = "reported rs ws es p"
  have "(\<exists>q. sys_select r (po_maxfd p + 1) (asked p) = Ret () q \<and> q = ?q)"
    using Some x by (simp add: sys_select_def asked_def reported_def Let_def)
  moreover have "0 \<le> po_nready ?q"
    by (simp add: reported_ready)
  ultimately show ?thesis
    using Some x assms by (simp add: server_round_def asked_def FD_ISSET_def bindp_unfold [of "getsp f" for f]
        thenp_unfold [of "modifyp f" for f] thenp_unfold [of "sys_select r n" for n])
qed

definition fine_round :: "int \<Rightarrow> round \<Rightarrow> pool \<Rightarrow> bool" where
  "fine_round l r p \<longleftrightarrow> (\<forall>c \<in> set (po_clients p). cl_connfd c \<noteq> - 1 \<longrightarrow> fine_peer r c)
     \<and> (0 \<le> fst (rd_accept r) \<longrightarrow> fresh_fd l p (fst (rd_accept r)))"

lemma turn_ok_reported:
  assumes "pool_inv l p" "fine_round l r p" "i < CLIENT_FD_NUMBER"
  shows "turn_ok r (reported rs ws es p) i"
  using pool_inv_client [OF assms(1,3)] assms(2) nth_mem [of i "po_clients p"]
  by (auto simp: turn_ok_def reported_ready watch_ok_def fine_round_def)

text \<open>A new connection in a round: it is not among those that are ready.\<close>

lemma joined_ready [simp]:
  "po_ready_read_fds (joined i fd p) = po_ready_read_fds p"
  "po_ready_write_fds (joined i fd p) = po_ready_write_fds p"
  "po_ready_exception_fds (joined i fd p) = po_ready_exception_fds p"
  "po_nready (joined i fd p) = po_nready p - 1" "po_net (joined i fd p) = po_net p"
  by (simp_all add: joined_def)

definition ready_watched :: "pool \<Rightarrow> bool" where
  "ready_watched p \<longleftrightarrow> po_ready_read_fds p \<subseteq> po_read_fds p \<and> po_ready_write_fds p \<subseteq> po_write_fds p
     \<and> po_ready_exception_fds p \<subseteq> po_exception_fds p"

lemma ready_watched_reported: "ready_watched (reported rs ws es p)"
  by (auto simp: ready_watched_def reported_ready)

lemma fresh_not_watched:
  assumes "pool_inv l p" "fresh_fd l p fd"
  shows "fd \<notin> po_read_fds p \<union> po_write_fds p \<union> po_exception_fds p"
  using assms unfolding pool_inv_def fresh_fd_def by auto

lemma turn_ok_joined:
  assumes "pool_inv l p" "ready_watched p" "fresh_fd l p fd" "i < length (po_clients p)" "turn_ok r p j"
  shows "turn_ok r (joined i fd p) j"
proof (cases "j = i")
  case True
  then show ?thesis
    using fresh_not_watched [OF assms(1,3)] assms(2,4) by (auto simp: turn_ok_def joined_clients ready_watched_def)
next
  case False
  then show ?thesis
    using assms(5) by (simp add: turn_ok_def joined_clients)
qed

definition printed :: "string \<Rightarrow> pool \<Rightarrow> pool" where
  "printed s p = p\<lparr>con_pending := con_pending p @ s\<rparr>"

lemma printed_simps [simp]:
  "po_clients (printed s p) = po_clients p" "po_nready (printed s p) = po_nready p" "po_net (printed s p) = po_net p"
  "po_maxi (printed s p) = po_maxi p" "po_maxfd (printed s p) = po_maxfd p"
  "ready_watched (printed s p) = ready_watched p" "turn_ok r (printed s p) i = turn_ok r p i"
  "fresh_fd l (printed s p) fd = fresh_fd l p fd"
  by (simp_all add: printed_def ready_watched_def turn_ok_def fresh_fd_def)

lemma pool_inv_printed [simp]: "pool_inv l (printed s p) = pool_inv l p"
  by (rule pool_inv_cong) (simp_all add: printed_def)

lemma errExit_exits: "\<exists>k q. errExit strerror msg p = Exit k q"
  by (simp add: errExit_def outputError_def terminate_def bindp_unfold thenp_unfold fflush_stdout_def fputs_stderr_def
      exit_process_def abort_process_def)

lemma add_client_full: "free_slot 0 (po_clients p) = None \<Longrightarrow> \<exists>k q. add_client strerror fd p = Exit k q"
  using errExit_exits [of strerror "''add_client: too many clients''" "p\<lparr>po_nready := po_nready p - 1\<rparr>"]
  by (simp add: add_client_def thenp_unfold bindp_unfold)

definition accept_line :: "round \<Rightarrow> string" where
  "accept_line r = (case rd_accept r of (fd, addr, port) \<Rightarrow> ''Accept ('' @ addr @ '': '' @ dec port @ '')'' @ [NL])"

lemma accept_client_eq:
  assumes "rd_accept r = (fd, addr, port)"
  shows "accept_client strerror r p =
    (if fd < 0 then Ret False ((printed (accept_line r) p)\<lparr>con_seen := con_seen p @ [ErrText (''accept failure'' @ [NL])]\<rparr>)
     else thenp (add_client strerror fd) (retp True) (printed (accept_line r) p))"
  using assms by (simp add: accept_client_def accept_line_def printed_def printf_stdout_def fputs_stderr_def thenp_unfold)

lemma accept_client_cases:
  assumes "accept_client strerror r p = Ret True q" "0 \<le> fst (rd_accept r) \<Longrightarrow> fd_valid (fst (rd_accept r))"
  obtains i where "free_slot 0 (po_clients p) = Some i" "0 \<le> fst (rd_accept r)"
    "q = joined i (fst (rd_accept r)) (printed (accept_line r) p)"
proof -
  obtain fd addr port where a: "rd_accept r = (fd, addr, port)" by (cases "rd_accept r")
  let ?p = "printed (accept_line r) p"
  have fd: "\<not> fd < 0" "thenp (add_client strerror fd) (retp True) ?p = Ret True q"
    using assms(1) by (auto simp: accept_client_eq [OF a] split: if_splits)
  then have ok: "fd_valid fd"
    using assms(2) by (simp add: a)
  show thesis
  proof (cases "free_slot 0 (po_clients p)")
    case None
    then show thesis
      using fd(2) add_client_full [of ?p strerror fd] by (auto simp: thenp_unfold)
  next
    case (Some i)
    then have "q = joined i fd ?p"
      using fd(2) add_client_eq [OF ok, of ?p i strerror] by (simp add: thenp_unfold)
    then show thesis
      using that Some fd(1) by (simp add: a)
  qed
qed

lemma accept_client_safe:
  assumes "pool_inv l p" "0 \<le> fst (rd_accept r) \<Longrightarrow> fd_valid (fst (rd_accept r))"
  shows "accept_client strerror r p \<noteq> Undef"
    "accept_client strerror r p = Ret False q \<Longrightarrow> pool_inv l q"
proof -
  obtain fd addr port where a: "rd_accept r = (fd, addr, port)" by (cases "rd_accept r")
  let ?p = "printed (accept_line r) p"
  have add: "add_client strerror fd ?p \<noteq> Undef" if "0 \<le> fd"
  proof (cases "free_slot 0 (po_clients p)")
    case None
    then show ?thesis
      using add_client_full [of ?p strerror fd] by auto
  next
    case (Some i)
    then show ?thesis
      using add_client_eq [of fd ?p i strerror] assms(2) that by (simp add: a)
  qed
  then show "accept_client strerror r p \<noteq> Undef"
    by (cases "fd < 0") (auto simp: accept_client_eq [OF a] thenp_unfold split: result.split)
  assume "accept_client strerror r p = Ret False q"
  then have "q = ?p\<lparr>con_seen := con_seen p @ [ErrText (''accept failure'' @ [NL])]\<rparr>"
    by (auto simp: accept_client_eq [OF a] thenp_unfold split: result.splits if_splits)
  then show "pool_inv l q"
    using assms(1) pool_inv_cong [of q ?p l] by simp
qed

lemma server_round_safe:
  assumes inv: "pool_inv l p" and fine: "fine_round l r p"
  shows "safe_result (pool_inv l) (server_round strerror l r p)"
proof -
  have l: "fd_valid l" and acc: "0 \<le> fst (rd_accept r) \<Longrightarrow> fresh_fd l p (fst (rd_accept r))"
    using inv fine by (simp_all add: pool_inv_def fine_round_def)
  show ?thesis
  proof (cases "rd_select r")
    case None
    then show ?thesis
      using inv pool_inv_cong [of "(asked p)\<lparr>po_nready := - 1, con_seen := s\<rparr>" p l for s]
      by (simp add: server_round_eq [OF l] asked_def)
  next
    case (Some x)
    obtain rs ws es where x: "x = (rs, ws, es)" by (cases x)
    let ?q = "reported rs ws es p"
    note turns = turn_ok_reported [OF inv fine, of _ rs ws es]
    let ?body = "\<lambda>go. if go then thenp (check_clients r) (retp True) else retp False"
    have check: "safe_result (pool_inv l) (thenp (check_clients r) (retp True) q)"
      if "pool_inv l q" "\<And>i. i < CLIENT_FD_NUMBER \<Longrightarrow> turn_ok r q i" for q
      unfolding thenp_def by (intro safe_result_bind check_clients_safe that) simp_all
    have fresh: "fresh_fd l ?q (fst (rd_accept r))" "fd_valid (fst (rd_accept r))" if "0 \<le> fst (rd_accept r)"
      using acc [OF that] by (simp_all add: fresh_fd_def)
    have joined: "safe_result (pool_inv l) (?body go q)" if a: "accept_client strerror r ?q = Ret go q" for go q
    proof (cases go)
      case True
      with a have "accept_client strerror r ?q = Ret True q" by simp
      then obtain i where i: "free_slot 0 (po_clients ?q) = Some i" "0 \<le> fst (rd_accept r)"
          "q = joined i (fst (rd_accept r)) (printed (accept_line r) ?q)"
        using accept_client_cases [OF _ fresh(2)] by blast
      have "pool_inv l q"
        unfolding i(3) using inv fresh(1) [OF i(2)] i(1) by (intro joined_inv) simp_all
      moreover have "turn_ok r q j" if "j < CLIENT_FD_NUMBER" for j
        unfolding i(3) using inv turns [OF that] fresh(1) [OF i(2)] free_slot_Some [OF i(1)] ready_watched_reported
        by (intro turn_ok_joined [of l]) simp_all
      ultimately show ?thesis using True check by simp
    next
      case False
      then show ?thesis
        using accept_client_safe(2) [of l ?q r strerror q] a inv fresh(2) by simp
    qed
    have "accept_client strerror r ?q \<noteq> Undef"
      using accept_client_safe(1) [of l ?q r strerror] inv fresh(2) by simp
    then show ?thesis
      using Some x inv check [OF _ turns] joined
      by (auto simp: server_round_eq [OF l] bindp_unfold split: result.split)
  qed
qed

text \<open>The rounds that the environment may produce, from the pool that each of them meets.\<close>

fun fine_rounds :: "(int \<Rightarrow> string) \<Rightarrow> int \<Rightarrow> round list \<Rightarrow> pool \<Rightarrow> bool" where
  "fine_rounds strerror l [] p \<longleftrightarrow> True"
| "fine_rounds strerror l (r # rs) p \<longleftrightarrow> fine_round l r p \<and>
     (case server_round strerror l r p of Ret True q \<Rightarrow> fine_rounds strerror l rs q | _ \<Rightarrow> True)"

lemma serve_safe:
  "pool_inv l p \<Longrightarrow> fine_rounds strerror l rs p \<Longrightarrow> safe_result (pool_inv l) (serve strerror l rs p)"
proof (induction rs arbitrary: p)
  case (Cons r rs)
  have "safe_result (pool_inv l) (server_round strerror l r p)"
    using Cons.prems by (intro server_round_safe) simp_all
  then show ?case
    unfolding serve.simps using Cons
    by (intro safe_result_bind) (auto simp: exit_process_def fflush_stdout_def thenp_unfold)
qed simp

text \<open>The memory of the pool before the server starts: 32 clients with whatever bytes in their 16 of a name.\<close>

definition pool_memory :: "pool \<Rightarrow> bool" where
  "pool_memory p \<longleftrightarrow> length (po_clients p) = CLIENT_FD_NUMBER
     \<and> (\<forall>c \<in> set (po_clients p). length (cl_name c) = NAMESIZE)"

definition started :: "int \<Rightarrow> pool \<Rightarrow> pool" where
  "started l p = p\<lparr>po_maxi := - 1, po_clients := map init_client (po_clients p), po_maxfd := l,
     po_read_fds := {l}, po_write_fds := {}, po_exception_fds := {l},
     po_ready_read_fds := {}, po_ready_write_fds := {}, po_ready_exception_fds := {}\<rparr>"

lemma init_pool_eq: "fd_valid l \<Longrightarrow> init_pool l p = Ret () (started l p)"
  by (simp add: init_pool_def FD_SET_def thenp_unfold started_def)

lemma started_inv:
  assumes "fd_valid l" "pool_memory p"
  shows "pool_inv l (started l p)"
proof -
  have "client_ok l (init_client c)" if "c \<in> set (po_clients p)" for c
    using assms that by (simp add: pool_memory_def client_ok_def conn_ok_def init_client_def fd_valid_def BUFSIZ_sizes
        del: replicate_Suc)
  moreover have "po_clients p ! i \<in> set (po_clients p)" if "i < CLIENT_FD_NUMBER" for i
    using that assms(2) by (simp add: pool_memory_def)
  ultimately show ?thesis
    using assms by (intro pool_invI) (auto simp: started_def watch_ok_def pool_memory_def init_client_def BUFSIZ_sizes)
qed

end
