(* ===== verification/Chat_Room.thy ===== *)
theory Chat_Room
  imports Chat_Server
begin

text \<open>
  What the chat server of Chat_Server does in its rounds: every ready client is served, messages
  reach everybody else in the room, and the cases in which they do not; with a room of two guests and a
  full one at which the properties are applied.
\<close>

section \<open>What a round does\<close>

lemma serve_each_one:
  assumes "\<And>j. j \<in> set us \<union> set vs \<Longrightarrow> j \<noteq> i \<and> conn_ok (po_clients p ! j) \<and> \<not> client_ready p (po_clients p ! j)"
    and ok: "conn_ok (po_clients p ! i)"
  shows "serve_each r (us @ i # vs) p = check_client r i p"
proof -
  have "serve_each r vs q = Ret () q" if "check_client r i p = Ret () q" for q
  proof (rule serve_each_none)
    note f = conjunct1 [OF check_client_frame [OF ok that]]
    show "conn_ok (po_clients q ! j) \<and> \<not> client_ready q (po_clients q ! j)" if "j \<in> set vs" for j
      using assms(1) [of j] that frame_conn [OF f, of j] frame_ready [OF f, of j] by (simp add: conn_ok_def)
  qed
  moreover have "serve_each r (us @ ws) p = serve_each r ws p" for ws
    using assms(1) by (induction us) (simp_all add: thenp_unfold check_client_eq)
  ultimately show ?thesis
    by (auto simp: thenp_unfold split: result.split)
qed

lemma inv_sets_finite:
  assumes "pool_inv l p"
  shows "finite (po_read_fds p)" "finite (po_write_fds p)" "finite (po_exception_fds p)"
proof -
  have "finite (po_read_fds p \<union> po_write_fds p \<union> po_exception_fds p)"
    by (rule finite_subset [of _ "insert l (cl_connfd ` set (po_clients p) - {- 1})"]) (use assms in \<open>auto simp: pool_inv_def\<close>)
  then show "finite (po_read_fds p)" "finite (po_write_fds p)" "finite (po_exception_fds p)"
    by simp_all
qed

lemma inj_conn:
  assumes "pool_inv l p" "\<And>i. i \<in> A \<Longrightarrow> i < CLIENT_FD_NUMBER \<and> cl_connfd (po_clients p ! i) \<noteq> - 1"
  shows "inj_on (\<lambda>i. cl_connfd (po_clients p ! i)) A"
proof (rule inj_onI)
  fix i j assume "i \<in> A" "j \<in> A" "cl_connfd (po_clients p ! i) = cl_connfd (po_clients p ! j)"
  then show "i = j"
    using assms unfolding pool_inv_def by blast
qed

text \<open>The clients that are ready are at most as many as the descriptors that are, the listening one aside.\<close>

lemma ready_count:
  assumes inv: "pool_inv l p" and w: "ready_watched p" and "is": "\<And>i. i \<in> set is \<Longrightarrow> i < CLIENT_FD_NUMBER"
  shows "card (ready_among p is) + (if l \<in> po_ready_read_fds p then 1 else 0) \<le>
    card (po_ready_read_fds p) + card (po_ready_write_fds p) + card (po_ready_exception_fds p)"
proof -
  let ?R = "po_ready_read_fds p" and ?W = "po_ready_write_fds p" and ?E = "po_ready_exception_fds p"
  let ?f = "\<lambda>i. cl_connfd (po_clients p ! i)" and ?A = "ready_among p is"
  have fin: "finite ?R" "finite ?W" "finite ?E"
    using w inv_sets_finite [OF inv] unfolding ready_watched_def by (blast intro: finite_subset)+
  have A: "i < CLIENT_FD_NUMBER \<and> ?f i \<noteq> - 1" if "i \<in> ?A" for i
    using that "is" by (simp add: ready_among_def client_ready_def)
  have "l \<notin> ?f ` ?A"
    using A pool_inv_client(1) [OF inv] by (auto simp: client_ok_def)
  moreover have "?f ` ?A \<subseteq> ?R \<union> ?W \<union> ?E"
    by (auto simp: ready_among_def client_ready_def)
  ultimately have "?f ` ?A \<union> ({l} \<inter> ?R) \<subseteq> ?R \<union> ?W \<union> ?E" "?f ` ?A \<inter> ({l} \<inter> ?R) = {}"
    by auto
  moreover have "card (?f ` ?A) = card ?A"
    using inj_conn [OF inv A] by (rule card_image)
  moreover have "card (?R \<union> ?W \<union> ?E) \<le> card ?R + card ?W + card ?E"
    using card_Un_le [of ?R ?W] card_Un_le [of "?R \<union> ?W" ?E] by linarith
  moreover have "card ({l} \<inter> ?R) = (if l \<in> ?R then 1 else 0)"
    by simp
  ultimately show ?thesis
    using card_mono [of "?R \<union> ?W \<union> ?E" "?f ` ?A \<union> ({l} \<inter> ?R)"] fin
      card_Un_disjoint [of "?f ` ?A" "{l} \<inter> ?R"]
    by (simp add: ready_among_def)
qed

definition server_round_each :: "(int \<Rightarrow> string) \<Rightarrow> int \<Rightarrow> round \<Rightarrow> (pool, bool) prog" where
  "server_round_each strerror l r p = (case rd_select r of
      None \<Rightarrow> server_round strerror l r p
    | Some (rs, ws, es) \<Rightarrow>
        bindp (if l \<in> po_ready_read_fds (reported rs ws es p) then accept_client strerror r else retp True)
          (\<lambda>go. if go then thenp (bindp (getsp po_maxi) (\<lambda>m. serve_each r [0..<nat (m + 1)])) (retp True) else retp False)
          (reported rs ws es p))"

lemma inv_range:
  assumes "pool_inv l p" "i \<in> set [0..<nat (po_maxi p + 1)]"
  shows "i < CLIENT_FD_NUMBER"
  using assms by (auto simp: pool_inv_def)

lemma check_clients_each:
  assumes inv: "pool_inv l p" and n: "int (card (ready_among p [0..<nat (po_maxi p + 1)])) \<le> po_nready p"
  shows "check_clients r p = serve_each r [0..<nat (po_maxi p + 1)] p"
proof -
  have "conn_ok (po_clients p ! i)" if "i \<in> set [0..<nat (po_maxi p + 1)]" for i
    using pool_inv_client(1) [OF inv inv_range [OF inv that]] by (simp add: client_ok_def)
  then show ?thesis
    using check_from_all [OF distinct_upt _ n, of r] by (simp add: check_clients_def bindp_unfold)
qed

lemma joined_ready_among:
  assumes "pool_inv l p" "ready_watched p" "fresh_fd l p fd" "i < length (po_clients p)"
  shows "ready_among (joined i fd p) is \<subseteq> ready_among p is"
proof
  fix j assume j: "j \<in> ready_among (joined i fd p) is"
  have "j \<noteq> i"
    using j fresh_not_watched [OF assms(1,3)] assms(2,4)
    by (auto simp: ready_among_def client_ready_def joined_clients ready_watched_def)
  then show "j \<in> ready_among p is"
    using j by (simp add: ready_among_def client_ready_def joined_clients)
qed

text \<open>
  C18: the loop over the clients stops when as many have been served as \<open>select\<close> has counted; it never
  stops too early: a round serves every client that is ready, as the loop over all of them does.
\<close>

theorem chat_serves_all:
  assumes "pool_inv l p" "0 \<le> fst (rd_accept r) \<Longrightarrow> fresh_fd l p (fst (rd_accept r))"
  shows "server_round strerror l r p = server_round_each strerror l r p"
proof (cases "rd_select r")
  case (Some x)
  obtain rs ws es where x: "x = (rs, ws, es)" by (cases x)
  let ?q = "reported rs ws es p"
  have l: "fd_valid l"
    using assms(1) by (simp add: pool_inv_def)
  have inv: "pool_inv l ?q"
    using assms(1) by simp
  note count = ready_count [OF inv ready_watched_reported, of "[0..<nat (m + 1)]" for m]
  have plain: "check_clients r ?q = serve_each r [0..<nat (po_maxi p + 1)] ?q"
    using check_clients_each [OF inv, of r] count [of "po_maxi p"] inv_range [OF inv] by (simp add: reported_ready(4))
  have new: "check_clients r q = serve_each r [0..<nat (po_maxi q + 1)] q"
    if a: "accept_client strerror r ?q = Ret True q" and rd: "l \<in> po_ready_read_fds ?q" for q
  proof -
    have fresh: "fresh_fd l ?q (fst (rd_accept r))" "fd_valid (fst (rd_accept r))" if "0 \<le> fst (rd_accept r)"
      using assms(2) [OF that] by (simp_all add: fresh_fd_def)
    obtain i where i: "free_slot 0 (po_clients ?q) = Some i" "0 \<le> fst (rd_accept r)"
        "q = joined i (fst (rd_accept r)) (printed (accept_line r) ?q)"
      using accept_client_cases [OF a fresh(2)] by blast
    have q: "pool_inv l q"
      unfolding i(3) using inv fresh(1) [OF i(2)] i(1) by (intro joined_inv) simp_all
    let ?is = "[0..<nat (po_maxi q + 1)]"
    have "ready_among q ?is \<subseteq> ready_among (printed (accept_line r) ?q) ?is"
      unfolding i(3) using inv fresh(1) [OF i(2)] free_slot_Some [OF i(1)] ready_watched_reported
      by (intro joined_ready_among [of l]) simp_all
    then have "ready_among q ?is \<subseteq> ready_among ?q ?is"
      by (simp add: ready_among_def client_ready_def printed_def)
    then have "card (ready_among q ?is) \<le> card (ready_among ?q ?is)"
      by (intro card_mono) (simp_all add: ready_among_def)
    moreover have "card (ready_among ?q ?is) + 1 \<le> nat (po_nready ?q)"
      using count [of "po_maxi q"] rd inv_range [OF q] by (simp add: reported_ready(4))
    moreover have "po_nready q = po_nready ?q - 1"
      by (simp add: i(3))
    ultimately show ?thesis
      by (intro check_clients_each [OF q]) linarith
  qed
  show ?thesis
  proof (cases "l \<in> po_ready_read_fds ?q")
    case True
    then show ?thesis
      using Some x new by (auto simp: server_round_eq [OF l] server_round_each_def bindp_unfold thenp_unfold split: result.split)
  next
    case False
    then show ?thesis
      using Some x plain by (simp add: server_round_eq [OF l] server_round_each_def bindp_unfold thenp_unfold)
  qed
qed (simp add: server_round_each_def)

text \<open>
  C9: no sequence of rounds (of new connections, names, messages, writes and clients that leave, in
  whatever order) makes the server run into undefined behaviour, and after every round the pool is well
  formed: each connected client is watched for reading or for writing, never for both and never for
  neither. What the environment has to keep to (\<open>fine_rounds\<close>): a first text is a name of at most 15
  characters without a NUL, every text fits in the buffer behind the longest name, a new connection
  gets a descriptor below FD_SETSIZE that is in use for nothing else, and nobody leaves while its name
  field holds no NUL. The last is not up to the peers: the pool is a local variable whose names the
  program never clears (\<open>pool_memory\<close> says nothing of their bytes), and \<open>strncpy\<close> ends no name, so
  that a client which leaves may make the server read behind the field (\<open>chat_exit_unnamed\<close>).
\<close>

theorem chat_safe:
  assumes "listenfd < FD_SETSIZE" "pool_memory p" "fine_rounds strerror listenfd rs (started listenfd p)"
  shows "safe_result (pool_inv listenfd) (chat_main strerror listenfd bound listening rs p)"
proof (cases "listenfd < 0 \<or> \<not> bound \<or> \<not> listening")
  case False
  then have "fd_valid listenfd"
    using assms(1) by (simp add: fd_valid_def)
  then show ?thesis
    using False serve_safe [OF started_inv assms(3)] assms(2) by (simp add: chat_main_def thenp_unfold init_pool_eq)
qed (simp add: chat_main_def abort_process_def)

text \<open>What is to be written to a client.\<close>

definition outbox :: "pool \<Rightarrow> nat \<Rightarrow> string option" where
  "outbox p j = (case cl_write_buf (po_clients p ! j) of None \<Rightarrow> None
     | Some k \<Rightarrow> c_string (cl_buf (po_clients p ! k)))"

lemma outbox_pending:
  assumes "pool_inv l p" "j < CLIENT_FD_NUMBER"
  shows "(outbox p j = None) = (cl_write_buf (po_clients p ! j) = None)"
proof (cases "cl_write_buf (po_clients p ! j)")
  case (Some k)
  then have "k < CLIENT_FD_NUMBER"
    using pool_inv_client(1) [OF assms] by (simp add: client_ok_def)
  then show ?thesis
    using Some client_ok_strings [OF pool_inv_client(1) [OF assms(1)]] by (auto simp: outbox_def)
qed (simp add: outbox_def)

lemma broadcast_effect:
  assumes "pool_inv l p" "distinct js" "\<forall>j \<in> set js. j < CLIENT_FD_NUMBER" "i < CLIENT_FD_NUMBER"
  shows "\<exists>q. broadcast i js p = Ret () q \<and> pool_inv l q \<and> po_net q = po_net p \<and> po_maxi q = po_maxi p
    \<and> (\<forall>j. po_clients q ! j = (if j \<in> set js \<and> addressed p i j
         then (po_clients p ! j)\<lparr>cl_write_buf := Some i\<rparr> else po_clients p ! j))"
  using assms
proof (induction js arbitrary: p)
  case (Cons j js)
  have j: "j < CLIENT_FD_NUMBER" "j \<notin> set js"
    using Cons.prems by simp_all
  define p1 where "p1 = (if addressed p i j then pointed i j p else p)"
  have p1: "pool_inv l p1" "po_net p1 = po_net p" "po_maxi p1 = po_maxi p" "broadcast i (j # js) p = broadcast i js p1"
    using Cons.prems(1,4) j(1) pointed_inv [of l p j i] broadcast_Cons [OF Cons.prems(1) j(1), of i js]
    by (simp_all add: p1_def) (simp_all add: pointed_def)
  have nth: "po_clients p1 ! k = (if k = j \<and> addressed p i j then (po_clients p ! k)\<lparr>cl_write_buf := Some i\<rparr> else po_clients p ! k)" for k
    using pool_inv_client(3) [OF Cons.prems(1) j(1)] by (simp add: p1_def pointed_def nth_list_update)
  then have addr: "addressed p1 i k = addressed p i k" for k
    by (simp add: addressed_def)
  obtain q where q: "broadcast i js p1 = Ret () q" "pool_inv l q" "po_net q = po_net p1" "po_maxi q = po_maxi p1"
      "\<And>k. po_clients q ! k = (if k \<in> set js \<and> addressed p1 i k then (po_clients p1 ! k)\<lparr>cl_write_buf := Some i\<rparr> else po_clients p1 ! k)"
    using Cons.IH [OF p1(1)] Cons.prems by auto
  have "po_clients q ! k = (if k \<in> set (j # js) \<and> addressed p i k then (po_clients p ! k)\<lparr>cl_write_buf := Some i\<rparr> else po_clients p ! k)" for k
    using q(5) [of k] nth [of k] addr [of k] j(2) by auto
  then show ?case
    using p1 q(1-4) by (simp del: broadcast.simps)
qed simp

text \<open>A round in which one client only is ready, for reading.\<close>

definition only_reads :: "pool \<Rightarrow> nat \<Rightarrow> round \<Rightarrow> bool" where
  "only_reads p i r \<longleftrightarrow> rd_select r = Some ({cl_connfd (po_clients p ! i)}, {}, {})"

lemma round_one_reader:
  assumes inv: "pool_inv l p" and i: "i < CLIENT_FD_NUMBER"
    and c: "cl_connfd (po_clients p ! i) \<noteq> - 1" "cl_write_buf (po_clients p ! i) = None"
    and r: "only_reads p i r"
  shows "server_round strerror l r p =
    thenp (client_recv r i) (retp True) (taken (reported {cl_connfd (po_clients p ! i)} {} {} p))"
proof -
  let ?fd = "cl_connfd (po_clients p ! i)"
  let ?q = "reported {?fd} {} {} p"
  note ok = pool_inv_client(1,2,4) [OF inv i]
  have l: "fd_valid l" "?fd \<noteq> l"
    using inv ok(1) by (simp_all add: pool_inv_def client_ok_def)
  have "?fd \<in> po_read_fds p" "?fd < po_maxfd p + 1"
    using ok(2) c by (simp_all add: watch_ok_def)
  then have rw: "po_ready_read_fds ?q = {?fd}" "po_ready_write_fds ?q = {}" "po_ready_exception_fds ?q = {}"
    by (auto simp: reported_ready)
  then have "po_nready ?q = 1"
    by (simp only: reported_ready(4)) simp
  note sets = rw this
  have conns: "conn_ok (po_clients ?q ! j)" if "j < CLIENT_FD_NUMBER" for j
    using pool_inv_client(1) [OF inv that] by (simp add: client_ok_def)
  have other: "\<not> client_ready ?q (po_clients ?q ! j)" if "j < CLIENT_FD_NUMBER" "j \<noteq> i" for j
    using inv i c(1) that unfolding pool_inv_def client_ready_def sets by auto
  have check: "check_client r i ?q = client_recv r i (taken ?q)"
    using c(1) sets check_client_eq [OF conns [OF i], of r] by (simp add: client_ready_def)
  let ?n = "nat (po_maxi p + 1)"
  have n: "i < ?n" "?n \<le> CLIENT_FD_NUMBER"
    using ok(3) [OF c(1)] inv by (auto simp: pool_inv_def)
  then have split: "[0..<?n] = [0..<i] @ i # [Suc i..<?n]"
    using upt_add_eq_append [of 0 i "?n - i"] upt_conv_Cons [of i ?n] by simp
  have "j = i" if "j \<in> ready_among ?q [0..<?n]" for j
    using that other [of j] n(2) by (cases "j = i") (simp_all add: ready_among_def)
  then have "ready_among ?q [0..<?n] \<subseteq> {i}"
    by blast
  then have "card (ready_among ?q [0..<?n]) \<le> 1"
    using card_mono [of "{i}" "ready_among ?q [0..<?n]"] by simp
  then have "check_clients r ?q = serve_each r [0..<?n] ?q"
    using inv sets(4) check_clients_each [of l ?q r] by simp
  also have "\<dots> = client_recv r i (taken ?q)"
    unfolding split check [symmetric] using n conns other i by (intro serve_each_one) auto
  finally show ?thesis
    using r l sets by (simp add: server_round_eq [OF l(1)] only_reads_def bindp_unfold thenp_unfold)
qed

text \<open>The text in front of the messages of a client: its name, a colon and a space.\<close>

definition tag :: "client \<Rightarrow> string" where
  "tag c = take (cl_data c) (cl_buf c)"

definition same_member :: "client \<Rightarrow> client \<Rightarrow> bool" where
  "same_member c d \<longleftrightarrow> cl_connfd d = cl_connfd c \<and> cl_welcome d = cl_welcome c \<and> tag d = tag c"

lemma chat_message_round:
  assumes inv: "pool_inv l p" and i: "i < CLIENT_FD_NUMBER"
    and c: "cl_connfd (po_clients p ! i) \<noteq> - 1" "cl_write_buf (po_clients p ! i) = None" "\<not> cl_welcome (po_clients p ! i)"
    and r: "only_reads p i r" "rd_recv r (cl_connfd (po_clients p ! i)) = Some bs"
    and bs: "bs \<noteq> []" "fine_text (po_clients p ! i) bs" "NUL \<notin> set (tag (po_clients p ! i) @ bs)"
  shows "\<exists>q. server_round strerror l r p = Ret True q \<and> pool_inv l q \<and> po_net q = po_net p
    \<and> (\<forall>j < CLIENT_FD_NUMBER. same_member (po_clients p ! j) (po_clients q ! j))
    \<and> (\<forall>j < CLIENT_FD_NUMBER. addressed p i j \<longrightarrow> outbox q j = Some (tag (po_clients p ! i) @ bs))
    \<and> (\<forall>j < CLIENT_FD_NUMBER. \<not> addressed p i j \<longrightarrow> cl_write_buf (po_clients q ! j) = cl_write_buf (po_clients p ! j))"
proof -
  let ?c = "po_clients p ! i" and ?n = "nat (po_maxi p + 1)"
  define p0 where "p0 = taken (reported {cl_connfd ?c} {} {} p)"
  define p1 where "p1 = p0\<lparr>po_clients := (po_clients p)[i := received ?c bs]\<rparr>"
  note ok = pool_inv_client(1,3) [OF inv i]
  have p0: "pool_inv l p0" "po_clients p0 = po_clients p" "po_maxi p0 = po_maxi p" "po_net p0 = po_net p"
    using inv by (simp_all add: p0_def)
  have fits: "cl_data ?c + length bs < BUFSIZ" "length (cl_buf ?c) = BUFSIZ"
    using bs(2) ok(1) by (simp_all add: fine_text_def client_ok_def)
  have p1: "pool_inv l p1"
    unfolding p1_def p0(2) [symmetric] using p0(1,2) c(1) received_ok [OF ok(1) fits(1)]
    by (intro pool_inv_same_watch [OF p0(1) i]) (simp_all add: received_def)
  have nth: "po_clients p1 ! j = (if j = i then received ?c bs else po_clients p ! j)" for j
    using ok(2) by (simp add: p1_def nth_list_update)
  have addr: "addressed p1 i j = addressed p i j" for j
    by (simp add: addressed_def nth)
  obtain q where q: "broadcast i [0..<?n] p1 = Ret () q" "pool_inv l q" "po_net q = po_net p1"
      "\<And>j. po_clients q ! j = (if j < ?n \<and> addressed p i j then (po_clients p1 ! j)\<lparr>cl_write_buf := Some i\<rparr> else po_clients p1 ! j)"
    using broadcast_effect [OF p1 distinct_upt _ i, of 0 ?n] inv_range [OF inv] by (auto simp: addr)
  have "client_recv r i p0 = Ret () q"
    using client_recv_eq [of i p0 r bs] r(2) ok(2) fits c(3) bs(1) q(1) by (simp add: p0(2,3) p1_def)
  then have round: "server_round strerror l r p = Ret True q"
    using round_one_reader [OF inv i c(1,2) r(1)] by (simp add: p0_def thenp_unfold)
  have low: "j < ?n" if "addressed p i j" "j < CLIENT_FD_NUMBER" for j
    using pool_inv_client(4) [OF inv that(2)] that(1) by (simp add: addressed_def nat_less_iff)
  have "cl_buf (po_clients q ! i) = (tag ?c @ bs) @ replicate (BUFSIZ - cl_data ?c - length bs) NUL"
    by (simp add: q(4) nth addressed_def received_def tag_def)
  then have str: "c_string (cl_buf (po_clients q ! i)) = Some (tag ?c @ bs)"
    using bs(3) fits(1) by (simp only:) (intro c_string_append, simp_all)
  have "outbox q j = Some (tag ?c @ bs)" if "j < CLIENT_FD_NUMBER" "addressed p i j" for j
    using low [OF that(2,1)] that(2) str by (simp add: outbox_def q(4))
  moreover have "same_member (po_clients p ! j) (po_clients q ! j)" if "j < CLIENT_FD_NUMBER" for j
    using fits by (simp add: q(4) nth received_def same_member_def tag_def)
  moreover have "cl_write_buf (po_clients q ! j) = cl_write_buf (po_clients p ! j)" if "\<not> addressed p i j" for j
    using that by (simp add: q(4) nth received_def)
  ultimately show ?thesis
    using round q(2,3) p0(4) by (auto simp: p1_def)
qed

text \<open>A round in which everybody who has something to be written can be written to.\<close>

definition letters :: "pool \<Rightarrow> nat list \<Rightarrow> net list" where
  "letters p js = concat (map (\<lambda>j. case outbox p j of None \<Rightarrow> []
     | Some s \<Rightarrow> [Sent (cl_connfd (po_clients p ! j)) s]) js)"

lemma letters_simps [simp]:
  "letters p [] = []"
  "letters p (j # js) = (case outbox p j of None \<Rightarrow> [] | Some s \<Rightarrow> [Sent (cl_connfd (po_clients p ! j)) s]) @ letters p js"
  by (simp_all add: letters_def)

lemma letters_cong:
  "(\<And>j. j \<in> set js \<Longrightarrow> outbox p j = outbox q j \<and> cl_connfd (po_clients p ! j) = cl_connfd (po_clients q ! j)) \<Longrightarrow>
     letters p js = letters q js"
  unfolding letters_def by (intro arg_cong [where f = concat] map_cong refl) (simp split: option.split)

definition writable :: "round \<Rightarrow> pool \<Rightarrow> nat \<Rightarrow> bool" where
  "writable r p j \<longleftrightarrow> (if cl_write_buf (po_clients p ! j) = None then cl_connfd (po_clients p ! j) \<notin> po_ready_write_fds p
     else cl_connfd (po_clients p ! j) \<in> po_ready_write_fds p \<and> \<not> rd_gone r (cl_connfd (po_clients p ! j)))"

lemma serve_writes:
  assumes "pool_inv l p" "distinct js" "\<And>j. j \<in> set js \<Longrightarrow> j < CLIENT_FD_NUMBER"
    "po_ready_read_fds p = {}" "po_ready_exception_fds p = {}"
    "\<And>j. j \<in> set js \<Longrightarrow> writable r p j"
  shows "\<exists>q. serve_each r js p = Ret () q \<and> pool_inv l q \<and> po_net q = po_net p @ letters p js
    \<and> (\<forall>k. po_clients q ! k = (if k \<in> set js then (po_clients p ! k)\<lparr>cl_write_buf := None\<rparr> else po_clients p ! k))"
  using assms
proof (induction js arbitrary: p)
  case (Cons j js)
  have j: "j < CLIENT_FD_NUMBER" "j \<notin> set js"
    using Cons.prems(2,3) by simp_all
  let ?c = "po_clients p ! j"
  note inv = Cons.prems(1)
  note ok = pool_inv_client(1,3) [OF inv j(1)]
  have conn: "conn_ok ?c"
    using ok(1) by (simp add: client_ok_def)
  obtain p1 where p1: "check_client r j p = Ret () p1" "pool_inv l p1"
      "po_net p1 = po_net p @ letters p [j]" "po_clients p1 = (po_clients p)[j := ?c\<lparr>cl_write_buf := None\<rparr>]"
  proof (cases "cl_write_buf ?c")
    case None
    then have "check_client r j p = Ret () p"
      using Cons.prems(4-6) by (auto simp: check_client_eq [OF conn] client_ready_def writable_def)
    moreover have "?c\<lparr>cl_write_buf := None\<rparr> = ?c"
      using None by simp
    moreover have "letters p [j] = []"
      using None by (simp add: outbox_def)
    ultimately show ?thesis
      using that [of p] inv by simp
  next
    case (Some k)
    then have up: "cl_connfd ?c \<noteq> - 1" "cl_connfd ?c \<in> po_ready_write_fds p" "\<not> rd_gone r (cl_connfd ?c)" "k < CLIENT_FD_NUMBER"
      using Cons.prems(6) [of j] ok(1) by (auto simp: client_ok_def writable_def)
    obtain s where s: "c_string (cl_buf (po_clients p ! k)) = Some s"
      using client_ok_strings [OF pool_inv_client(1) [OF inv up(4)]] by blast
    then have out: "outbox p j = Some s"
      using Some by (simp add: outbox_def)
    have w: "check_client r j p = client_write r j (taken p)"
      using up by (simp add: check_client_eq [OF conn] client_ready_def)
    have "safe_result (pool_inv l) (client_write r j (taken p))"
      using client_write_safe [of l "taken p" j r] inv j(1) up(1) Some by simp
    then show ?thesis
      using client_write_eq [of "taken p" j k s r] connected_valid [OF ok(1) up(1)] Some s up(3) out w that
      by (simp add: moved_to_read_def)
  qed
  have ready: "po_ready_read_fds p1 = {}" "po_ready_exception_fds p1 = {}" "po_ready_write_fds p1 = po_ready_write_fds p"
    using check_client_frame [OF conn p1(1)] Cons.prems(4,5) by (simp_all add: frame_def)
  have nth: "po_clients p1 ! k = (if k = j then ?c\<lparr>cl_write_buf := None\<rparr> else po_clients p ! k)" for k
    using ok(2) by (simp add: p1(4) nth_list_update)
  have bufs: "cl_buf (po_clients p1 ! k) = cl_buf (po_clients p ! k)" for k
    by (simp add: nth)
  have later: "po_clients p1 ! k = po_clients p ! k" if "k \<in> set js" for k
    using that j(2) by (auto simp: nth)
  have "letters p1 js = letters p js"
    by (intro letters_cong) (auto simp: outbox_def later bufs split: option.split)
  moreover have "\<exists>q. serve_each r js p1 = Ret () q \<and> pool_inv l q \<and> po_net q = po_net p1 @ letters p1 js
    \<and> (\<forall>k. po_clients q ! k = (if k \<in> set js then (po_clients p1 ! k)\<lparr>cl_write_buf := None\<rparr> else po_clients p1 ! k))"
    using Cons.prems(2,3,6) by (intro Cons.IH [OF p1(2)]) (simp_all add: ready later writable_def)
  ultimately obtain q where "serve_each r (j # js) p = Ret () q" "pool_inv l q" "po_net q = po_net p @ letters p (j # js)"
      "\<forall>k. po_clients q ! k = (if k \<in> set js then (po_clients p1 ! k)\<lparr>cl_write_buf := None\<rparr> else po_clients p1 ! k)"
    using p1 by (auto simp: thenp_unfold)
  then show ?case
    by (intro exI [of _ q]) (auto simp: nth)
qed simp

text \<open>
  A round in which every client with a message pending can be written to delivers each of them its
  message, in the order of the slots, and leaves nobody with a message pending; so everybody is
  watched for reading again.
\<close>

theorem chat_delivers:
  assumes inv: "pool_inv l p" and r: "rd_select r = Some ({}, ws, {})"
    and up: "\<And>j. j < CLIENT_FD_NUMBER \<Longrightarrow> cl_write_buf (po_clients p ! j) \<noteq> None \<Longrightarrow>
      cl_connfd (po_clients p ! j) \<in> ws \<and> \<not> rd_gone r (cl_connfd (po_clients p ! j))"
  shows "\<exists>q. server_round strerror l r p = Ret True q \<and> pool_inv l q
    \<and> po_net q = po_net p @ letters p [0..<CLIENT_FD_NUMBER]
    \<and> (\<forall>j < CLIENT_FD_NUMBER. po_clients q ! j = (po_clients p ! j)\<lparr>cl_write_buf := None\<rparr>)"
proof -
  let ?q = "reported {} ws {} p" and ?n = "nat (po_maxi p + 1)"
  have l: "fd_valid l" and n: "?n \<le> CLIENT_FD_NUMBER"
    using inv by (auto simp: pool_inv_def)
  have sets: "po_ready_read_fds ?q = {}" "po_ready_exception_fds ?q = {}"
    by (auto simp: reported_ready)
  have w: "writable r ?q j"
    if j: "j < CLIENT_FD_NUMBER" for j
  proof (cases "cl_connfd (po_clients p ! j) = - 1")
    case True
    then show ?thesis
      using pool_inv_client(1) [OF inv j] inv by (auto simp: writable_def client_ok_def reported_ready pool_inv_def fd_valid_def)
  next
    case False
    then show ?thesis
      using pool_inv_client(2) [OF inv j] up [OF j] by (auto simp: writable_def watch_ok_def reported_ready)
  qed
  have inv': "pool_inv l ?q"
    using inv by simp
  have each: "check_clients r ?q = serve_each r [0..<?n] ?q"
    using check_clients_each [OF inv', of r] ready_count [OF inv' ready_watched_reported, of "[0..<?n]"] inv_range [OF inv]
    by (simp add: reported_ready(4))
  obtain q where q: "serve_each r [0..<?n] ?q = Ret () q" "pool_inv l q" "po_net q = po_net ?q @ letters ?q [0..<?n]"
      "\<And>k. po_clients q ! k = (if k < ?n then (po_clients p ! k)\<lparr>cl_write_buf := None\<rparr> else po_clients p ! k)"
    using serve_writes [OF inv' distinct_upt _ sets, of 0 ?n r] w [OF inv_range [OF inv]] inv_range [OF inv]
    by auto
  have high: "cl_write_buf (po_clients p ! j) = None" if "j < CLIENT_FD_NUMBER" "\<not> j < ?n" for j
    using pool_inv_client(1,4) [OF inv that(1)] that(2) by (cases "cl_connfd (po_clients p ! j) = - 1") (auto simp: client_ok_def)
  have "letters ?q js = letters p js" for js
    by (intro letters_cong) (simp add: outbox_def cong: option.case_cong)
  moreover have "letters p [?n..<CLIENT_FD_NUMBER] = []"
    using high by (auto simp: letters_def outbox_def)
  moreover have "[0..<CLIENT_FD_NUMBER] = [0..<?n] @ [?n..<CLIENT_FD_NUMBER]"
    using n upt_add_eq_append [of 0 ?n "CLIENT_FD_NUMBER - ?n"] by simp
  then have "letters p [0..<CLIENT_FD_NUMBER] = letters p [0..<?n] @ letters p [?n..<CLIENT_FD_NUMBER]"
    by (simp add: letters_def)
  ultimately have "po_net q = po_net p @ letters p [0..<CLIENT_FD_NUMBER]"
    using q(3) by simp
  moreover have "po_clients q ! j = (po_clients p ! j)\<lparr>cl_write_buf := None\<rparr>" if "j < CLIENT_FD_NUMBER" for j
    using q(4) [of j] high [OF that] by simp
  ultimately show ?thesis
    using r sets each q by (auto simp: server_round_eq [OF l] bindp_unfold thenp_unfold)
qed

section \<open>Conversations\<close>

definition one_round :: "int set \<Rightarrow> int set \<Rightarrow> int \<Rightarrow> string \<Rightarrow> round" where
  "one_round rs ws fd bs = \<lparr>rd_select = Some (rs, ws, {}), rd_accept = (fd, ''127.0.0.1'', 5000),
     rd_recv = (\<lambda>_. Some bs), rd_gone = (\<lambda>_. False)\<rparr>"

definition chat_quiet :: "int \<Rightarrow> pool \<Rightarrow> bool" where
  "chat_quiet l p \<longleftrightarrow> pool_inv l p \<and> (\<forall>j < CLIENT_FD_NUMBER. cl_write_buf (po_clients p ! j) = None)"

definition chat_can :: "pool \<Rightarrow> nat \<Rightarrow> string \<Rightarrow> bool" where
  "chat_can p i t \<longleftrightarrow> i < CLIENT_FD_NUMBER \<and> cl_connfd (po_clients p ! i) \<noteq> - 1 \<and> \<not> cl_welcome (po_clients p ! i)
     \<and> t \<noteq> [] \<and> length t + NAMESIZE + 2 \<le> BUFSIZ \<and> NUL \<notin> set (tag (po_clients p ! i) @ t)"

text \<open>The round in which client \<open>i\<close> is received, and one in which everybody can be written to.\<close>

definition chat_say :: "(int \<Rightarrow> string) \<Rightarrow> int \<Rightarrow> nat \<Rightarrow> string \<Rightarrow> (pool, unit) prog" where
  "chat_say strerror l i t =
     bindp (get_client i) (\<lambda>c. serve strerror l [one_round {cl_connfd c} {} 0 t, one_round {} UNIV 0 []])"

definition chat_hears :: "pool \<Rightarrow> nat \<Rightarrow> string \<Rightarrow> net list" where
  "chat_hears p i t = (if i < CLIENT_FD_NUMBER
     then map (\<lambda>j. Sent (cl_connfd (po_clients p ! j)) (tag (po_clients p ! i) @ t)) (filter (addressed p i) [0..<CLIENT_FD_NUMBER])
     else [])"

lemma chat_say_heard:
  assumes quiet: "chat_quiet l p" and can: "chat_can p i t"
  shows "\<exists>q. chat_say strerror l i t p = Ret () q \<and> chat_quiet l q \<and> po_net q = po_net p @ chat_hears p i t
    \<and> chat_can q = chat_can p \<and> chat_hears q = chat_hears p"
proof -
  let ?c = "po_clients p ! i"
  let ?r = "one_round {cl_connfd ?c} {} 0 t" and ?r2 = "one_round {} UNIV 0 []"
  have inv: "pool_inv l p" and none: "\<And>j. j < CLIENT_FD_NUMBER \<Longrightarrow> cl_write_buf (po_clients p ! j) = None"
    using quiet by (simp_all add: chat_quiet_def)
  have i: "i < CLIENT_FD_NUMBER" "cl_connfd ?c \<noteq> - 1" "\<not> cl_welcome ?c" "t \<noteq> []" "fine_text ?c t" "NUL \<notin> set (tag ?c @ t)"
    using can by (simp_all add: chat_can_def fine_text_def)
  have r: "only_reads p i ?r" "rd_recv ?r (cl_connfd ?c) = Some t" "rd_select ?r2 = Some ({}, UNIV, {})"
    by (simp_all add: only_reads_def one_round_def)
  obtain p1 where p1: "server_round strerror l ?r p = Ret True p1" "pool_inv l p1" "po_net p1 = po_net p"
      "\<And>j. j < CLIENT_FD_NUMBER \<Longrightarrow> same_member (po_clients p ! j) (po_clients p1 ! j)"
      "\<And>j. j < CLIENT_FD_NUMBER \<Longrightarrow> addressed p i j \<Longrightarrow> outbox p1 j = Some (tag ?c @ t)"
      "\<And>j. j < CLIENT_FD_NUMBER \<Longrightarrow> \<not> addressed p i j \<Longrightarrow> cl_write_buf (po_clients p1 ! j) = None"
    using chat_message_round [OF inv i(1,2) none [OF i(1)] i(3) r(1,2) i(4-6)] none by metis
  obtain q where q: "server_round strerror l ?r2 p1 = Ret True q" "pool_inv l q"
      "po_net q = po_net p1 @ letters p1 [0..<CLIENT_FD_NUMBER]"
      "\<And>j. j < CLIENT_FD_NUMBER \<Longrightarrow> po_clients q ! j = (po_clients p1 ! j)\<lparr>cl_write_buf := None\<rparr>"
    using chat_delivers [OF p1(2) r(3), of strerror] by (auto simp: one_round_def)
  have same: "same_member (po_clients p ! j) (po_clients q ! j)" if "j < CLIENT_FD_NUMBER" for j
    using p1(4) [OF that] q(4) [OF that] by (simp add: same_member_def tag_def)
  have "letters p1 js = map (\<lambda>j. Sent (cl_connfd (po_clients p ! j)) (tag ?c @ t)) (filter (addressed p i) js)"
    if "\<forall>j \<in> set js. j < CLIENT_FD_NUMBER" for js
    using that p1(4-6) by (induction js) (auto simp: outbox_def same_member_def)
  then have "po_net q = po_net p @ chat_hears p i t"
    using q(3) p1(3) i(1) by (simp add: chat_hears_def)
  moreover have "chat_say strerror l i t p = Ret () q"
    using p1(1) q(1) by (simp add: chat_say_def get_client_def bindp_unfold)
  moreover have "chat_quiet l q"
    using q(2,4) by (simp add: chat_quiet_def)
  moreover have "chat_can q = chat_can p"
    using same by (auto simp: fun_eq_iff chat_can_def same_member_def)
  moreover have "chat_hears q k u = chat_hears p k u" for k u
  proof -
    have "addressed q k j = addressed p k j" if "j < CLIENT_FD_NUMBER" for j
      using same [OF that] by (simp add: addressed_def same_member_def)
    then have "filter (addressed q k) [0..<CLIENT_FD_NUMBER] = filter (addressed p k) [0..<CLIENT_FD_NUMBER]"
      by (intro filter_cong) simp_all
    then show ?thesis
      using same by (auto simp: chat_hears_def same_member_def)
  qed
  ultimately show ?thesis
    by blast
qed

interpretation select_room: chat_room "chat_quiet l" chat_can "chat_say strerror l" po_net chat_hears for l strerror
  using chat_say_heard by unfold_locales blast

text \<open>
  C5: a conversation of any length in which the clients speak one at a time is heard as it is spoken:
  every text of a client with a name is sent, behind the name, a colon and a space, once to every other
  client that has a name, in the order in which the texts were said, and nothing else is sent to anybody.
  Each text takes two rounds (\<open>chat_say\<close>): in one the speaker alone is ready and is received, in the next
  everybody addressed can be written to; texts and names hold no NUL and a text fits in the buffer behind
  the longest name. On other schedules texts can be lost: two speakers in one round, or a speaker who is
  received again or leaves before the others have been written to (\<open>chat_leaver_erases\<close>).
\<close>

theorem chat_conversation:
  assumes "chat_quiet l p" "\<And>i t. (i, t) \<in> set talks \<Longrightarrow> chat_can p i t"
  shows "\<exists>q. talk (chat_say strerror l) talks p = Ret () q \<and> chat_quiet l q
    \<and> po_net q = po_net p @ concat (map (\<lambda>(i, t). map (\<lambda>j. Sent (cl_connfd (po_clients p ! j)) (tag (po_clients p ! i) @ t))
         (filter (addressed p i) [0..<CLIENT_FD_NUMBER])) talks)"
proof -
  have "chat_hears p i t = map (\<lambda>j. Sent (cl_connfd (po_clients p ! j)) (tag (po_clients p ! i) @ t))
      (filter (addressed p i) [0..<CLIENT_FD_NUMBER])" if "(i, t) \<in> set talks" for i t
    using assms(2) [OF that] by (simp add: chat_can_def chat_hears_def)
  then have "map (\<lambda>(i, t). chat_hears p i t) talks = map (\<lambda>(i, t). map (\<lambda>j. Sent (cl_connfd (po_clients p ! j))
      (tag (po_clients p ! i) @ t)) (filter (addressed p i) [0..<CLIENT_FD_NUMBER])) talks"
    by (intro map_cong refl) (simp only: split_paired_all prod.case)
  with select_room.talk_heard [OF assms, of talks strerror] show ?thesis
    by (simp only:)
qed

section \<open>What goes wrong\<close>

text \<open>
  The room holds 32 clients; the 33rd to connect does not find it full: it ends the server, for
  everyone, with status 1.
\<close>

theorem chat_room_full:
  assumes inv: "pool_inv l p" and full: "\<And>c. c \<in> set (po_clients p) \<Longrightarrow> cl_connfd c \<noteq> - 1"
    and r: "rd_select r = Some (rs, ws, es)" "l \<in> rs" "0 \<le> fst (rd_accept r)" and core: "con_dumpcore p = None"
  shows "\<exists>q. server_round strerror l r p = Exit EXIT_FAILURE q \<and> con_seen q = con_seen p
    @ [OutText (con_pending p @ accept_line r), ErrText (error_text strerror True (con_errno p) ''add_client: too many clients'')]"
proof -
  obtain fd addr port where a: "rd_accept r = (fd, addr, port)" by (cases "rd_accept r")
  let ?q = "printed (accept_line r) (reported rs ws es p)"
  have l: "fd_valid l" "l \<in> po_ready_read_fds (reported rs ws es p)"
    using inv r(2) by (simp_all add: pool_inv_def reported_ready)
  have "0 \<le> cl_connfd c" if "c \<in> set (po_clients p)" for c
    using full [OF that] inv that unfolding pool_inv_def in_set_conv_nth
    by (auto simp: client_ok_def conn_ok_def fd_valid_def)
  then have "free_slot 0 (po_clients ?q) = None"
    by (simp add: free_slot_None)
  moreover have "con_dumpcore ?q = None" "con_errno ?q = con_errno p" "con_seen ?q = con_seen p"
    "con_pending ?q = con_pending p @ accept_line r" "accept_line r \<noteq> []"
    using core by (simp_all add: printed_def reported_def Let_def accept_line_def a)
  ultimately have "\<exists>q. add_client strerror fd ?q = Exit EXIT_FAILURE q \<and> con_seen q = con_seen p
      @ [OutText (con_pending p @ accept_line r), ErrText (error_text strerror True (con_errno p) ''add_client: too many clients'')]"
    by (simp add: add_client_def errExit_def outputError_def terminate_def bindp_unfold thenp_unfold fflush_stdout_def
        fputs_stderr_def exit_process_def flushed_def EXIT_FAILURE_def)
  then show ?thesis
    using r l a by (auto simp: server_round_eq accept_client_eq [OF a] bindp_unfold thenp_unfold)
qed

text \<open>
  A message waits in the speaker's own buffer: when the speaker leaves before the others
  have been written to, what they get is the empty text.
\<close>

theorem chat_leaver_erases:
  assumes inv: "pool_inv l p" and i: "i < CLIENT_FD_NUMBER" "cl_connfd (po_clients p ! i) \<noteq> - 1"
      "cl_write_buf (po_clients p ! i) = None"
    and r: "only_reads p i r" "rd_recv r (cl_connfd (po_clients p ! i)) = Some []"
    and nm: "NUL \<in> set (cl_name (po_clients p ! i))" and j: "cl_write_buf (po_clients p ! j) = Some i"
  shows "\<exists>q. server_round strerror l r p = Ret True q \<and> pool_inv l q \<and> outbox q j = Some []"
proof -
  let ?c = "po_clients p ! i"
  define p0 where "p0 = taken (reported {cl_connfd ?c} {} {} p)"
  define p1 where "p1 = p0\<lparr>po_clients := (po_clients p)[i := received ?c []]\<rparr>"
  note ok = pool_inv_client(1,3) [OF inv i(1)]
  have p0: "pool_inv l p0" "po_clients p0 = po_clients p"
    using inv by (simp_all add: p0_def)
  have fits: "cl_data ?c + length ([] :: string) < BUFSIZ" "length (cl_buf ?c) = BUFSIZ"
    using ok(1) by (simp_all add: client_ok_def BUFSIZ_sizes)
  have p1: "pool_inv l p1"
    unfolding p1_def p0(2) [symmetric] using p0(1,2) i(2) received_ok [OF ok(1) fits(1)]
    by (intro pool_inv_same_watch [OF p0(1) i(1)]) (simp_all add: received_def)
  have c1: "po_clients p1 ! i = received ?c []" "cl_connfd (po_clients p1 ! i) \<noteq> - 1"
    using ok(2) i(2) by (simp_all add: p1_def received_def)
  note ok1 = pool_inv_client(1) [OF p1 i(1)]
  have nm1: "NUL \<in> set (cl_name (po_clients p1 ! i))"
    using nm by (simp add: c1(1) received_def)
  then obtain s where s: "c_string (cl_name (po_clients p1 ! i)) = Some s"
    by (simp add: c_string_def)
  define q where "q = unwatched (cl_connfd (po_clients p1 ! i))
    (p1\<lparr>con_pending := con_pending p1 @ s @ '' exit'' @ [NL],
       po_net := po_net p1 @ [Closed (cl_connfd (po_clients p1 ! i))],
       po_clients := (po_clients p1)[i := init_client (po_clients p1 ! i)]\<rparr>)"
  have e: "client_exit i p1 = Ret () q"
    unfolding q_def by (rule client_exit_eq [OF connected_valid [OF ok1 c1(2)] s])
  have "client_recv r i p0 = Ret () q"
    using client_recv_eq [of i p0 r "[]"] r(2) ok(2) fits e by (simp add: p0(2) p1_def)
  then have "server_round strerror l r p = Ret True q"
    using round_one_reader [OF inv i r(1)] by (simp add: p0_def thenp_unfold)
  moreover have "pool_inv l q"
    using client_exit_safe [OF p1 i(1) c1(2) nm1] by (simp add: e)
  moreover have "po_clients q = (po_clients p)[i := init_client (received ?c [])]"
    using ok(2) by (simp add: q_def unwatched_def p1_def)
  then have "outbox q j = c_string (replicate BUFSIZ NUL)"
    using ok(2) j i(3) by (auto simp: outbox_def init_client_def nth_list_update)
  moreover have "c_string (replicate BUFSIZ NUL) = Some []"
    using c_string_append [of "[]" BUFSIZ] by simp
  ultimately show ?thesis by simp
qed

text \<open>
  The names are not cleared before they are used: the name of a client that leaves is printed up to a
  NUL, and when the 16 bytes hold none the server reads behind them.
\<close>

lemma chat_exit_unnamed:
  assumes inv: "pool_inv l p" and i: "i < CLIENT_FD_NUMBER" "cl_connfd (po_clients p ! i) \<noteq> - 1"
      "cl_write_buf (po_clients p ! i) = None"
    and r: "only_reads p i r" "rd_recv r (cl_connfd (po_clients p ! i)) = Some []"
    and nm: "NUL \<notin> set (cl_name (po_clients p ! i))"
  shows "server_round strerror l r p = Undef"
proof -
  let ?c = "po_clients p ! i"
  define p0 where "p0 = taken (reported {cl_connfd ?c} {} {} p)"
  note ok = pool_inv_client(1,3) [OF inv i(1)]
  have "length (cl_buf ?c) = BUFSIZ" "cl_data ?c < BUFSIZ"
    using ok(1) by (simp_all add: client_ok_def BUFSIZ_sizes)
  then have "client_recv r i p0 = Undef"
    using client_recv_eq [of i p0 r "[]"] r(2) ok(2) nm
    by (simp add: p0_def client_exit_def get_client_def bindp_unfold thenp_unfold received_def c_string_def)
  then show ?thesis
    using round_one_reader [OF inv i r(1)] by (simp add: p0_def thenp_unfold)
qed

text \<open>
  The first text of a client is copied into the 16 bytes for its name however long it is: a longer
  name is undefined behaviour.
\<close>

theorem chat_long_name:
  assumes inv: "pool_inv l p" and i: "i < CLIENT_FD_NUMBER" "cl_connfd (po_clients p ! i) \<noteq> - 1"
      "cl_welcome (po_clients p ! i)"
    and r: "only_reads p i r" "rd_recv r (cl_connfd (po_clients p ! i)) = Some bs"
    and bs: "NUL \<notin> set bs" "length bs < BUFSIZ" "NAMESIZE < length (name_of bs)"
  shows "server_round strerror l r p = Undef"
proof -
  let ?c = "po_clients p ! i"
  define p0 where "p0 = taken (reported {cl_connfd ?c} {} {} p)"
  define p1 where "p1 = p0\<lparr>po_clients := (po_clients p)[i := received ?c bs]\<rparr>"
  note ok = pool_inv_client(1,3) [OF inv i(1)]
  have fits: "cl_data ?c = 0" "length (cl_buf ?c) = BUFSIZ" "cl_write_buf ?c = None" "bs \<noteq> []"
    using ok(1) i(3) bs(3) by (auto simp: client_ok_def name_of_def)
  have "client_welcome i (length bs) p1 = Undef"
    using client_welcome_eq [of i p1 bs] bs ok(2) fits by (simp add: p1_def received_def)
  then have "client_recv r i p0 = Undef"
    using client_recv_eq [of i p0 r bs] r(2) ok(2) fits bs(2) i(3) by (simp add: p0_def p1_def)
  then show ?thesis
    using round_one_reader [OF inv i(1,2) fits(3) r(1)] by (simp add: p0_def thenp_unfold)
qed

text \<open>
  The name of a new client is written over the old bytes of its slot: when the slot was used
  before by somebody with a longer name, the rest of that name stays behind it.
\<close>

lemma chat_stale_name:
  assumes "NUL \<notin> set nm" "NUL \<in> set (drop (length nm) (cl_name c))"
  shows "c_string (cl_name (named (init_client c) nm)) =
    Some (nm @ takeWhile (\<lambda>x. x \<noteq> NUL) (drop (length nm) (cl_name c)))"
proof -
  have "takeWhile (\<lambda>x. x \<noteq> NUL) (nm @ s) = nm @ takeWhile (\<lambda>x. x \<noteq> NUL) s" for s
    using assms(1) by (intro takeWhile_append2) auto
  then show ?thesis
    using assms(2) by (simp add: c_string_def named_def init_client_def)
qed

section \<open>A room\<close>

definition blank :: client where
  "blank = \<lparr>cl_welcome = False, cl_connfd = 0, cl_name = replicate NAMESIZE NUL, cl_buf = [], cl_data = 0, cl_write_buf = None\<rparr>"

definition chat_world :: pool where
  "chat_world = \<lparr>con_seen = [], con_pending = [], con_errno = 0, con_dumpcore = None, po_maxfd = 0,
     po_read_fds = {}, po_write_fds = {}, po_exception_fds = {}, po_ready_read_fds = {}, po_ready_write_fds = {},
     po_ready_exception_fds = {}, po_nready = 0, po_maxi = 0, po_clients = blank # blank # replicate 30 blank, po_net = []\<rparr>"

lemma chat_world_memory: "pool_memory chat_world"
  by (simp add: pool_memory_def chat_world_def blank_def BUFSIZ_sizes)

definition guest :: "int \<Rightarrow> client" where
  "guest fd = (init_client blank)\<lparr>cl_connfd := fd\<rparr>"

lemma guest_simps [simp]:
  "cl_connfd (guest fd) = fd" "cl_welcome (guest fd)" "cl_write_buf (guest fd) = None" "cl_data (guest fd) = 0"
  by (simp_all add: guest_def init_client_def)

lemma named_simps [simp]:
  "cl_connfd (named c nm) = cl_connfd c" "\<not> cl_welcome (named c nm)" "cl_write_buf (named c nm) = cl_write_buf c"
  by (simp_all add: named_def)

lemma init_client_simps [simp]:
  "cl_connfd (init_client c) = - 1" "cl_welcome (init_client c)" "cl_write_buf (init_client c) = None"
  by (simp_all add: init_client_def)

definition one_guest :: pool where
  "one_guest = joined 0 4 (started 3 chat_world)"

lemma fd_valid_small: "0 \<le> fd \<Longrightarrow> fd < 100 \<Longrightarrow> fd_valid fd"
  by (simp add: fd_valid_def FD_SETSIZE_def)

lemma one_guest_inv: "pool_inv 3 one_guest"
  unfolding one_guest_def
  by (intro joined_inv started_inv chat_world_memory fd_valid_small)
    (auto simp: fresh_fd_def fd_valid_small started_def chat_world_def init_client_def)

lemma one_guest_clients: "po_clients one_guest = guest 4 # init_client blank # replicate 30 (init_client blank)"
  by (simp add: one_guest_def joined_clients started_def chat_world_def guest_def)

lemma alice_name: "NUL \<in> set (cl_name (named (guest 4) ''alice''))"
  by (simp add: named_def guest_def init_client_def blank_def NAMESIZE_def)

definition two_guests :: pool where
  "two_guests = joined 1 5 one_guest"

lemma two_guests_inv: "pool_inv 3 two_guests"
  unfolding two_guests_def
  by (intro joined_inv one_guest_inv) (auto simp: fresh_fd_def fd_valid_small one_guest_clients guest_def init_client_def)

definition room :: pool where
  "room = two_guests\<lparr>po_clients := named (guest 4) ''alice'' # named (guest 5) ''bob'' # replicate 30 (init_client blank)\<rparr>"

lemma room_inv: "pool_inv 3 room"
proof -
  have clients: "po_clients two_guests = guest 4 # guest 5 # replicate 30 (init_client blank)"
    by (simp add: two_guests_def joined_clients one_guest_clients guest_def)
  have ok: "client_ok 3 (guest 4)" "client_ok 3 (guest 5)"
    using pool_inv_client(1) [OF two_guests_inv, of 0] pool_inv_client(1) [OF two_guests_inv, of 1]
    by (simp_all add: clients CLIENT_FD_NUMBER_def)
  define p where "p = two_guests\<lparr>po_clients := (po_clients two_guests)[0 := named (guest 4) ''alice'']\<rparr>"
  have "pool_inv 3 p"
    unfolding p_def using ok by (intro pool_inv_same_watch two_guests_inv named_ok)
      (simp_all add: clients CLIENT_FD_NUMBER_def NAMESIZE_def)
  moreover have p: "po_clients p = named (guest 4) ''alice'' # guest 5 # replicate 30 (init_client blank)"
    by (simp add: p_def clients)
  ultimately have "pool_inv 3 (p\<lparr>po_clients := (po_clients p)[1 := named (guest 5) ''bob'']\<rparr>)"
    using ok by (intro pool_inv_same_watch named_ok) (simp_all add: p CLIENT_FD_NUMBER_def NAMESIZE_def)
  then show ?thesis
    by (simp add: room_def p) (simp add: p_def)
qed

lemma room_clients:
  "po_clients room = named (guest 4) ''alice'' # named (guest 5) ''bob'' # replicate 30 (init_client blank)"
  "po_net room = []"
  by (simp_all add: room_def two_guests_def one_guest_def started_def chat_world_def)

lemma room_quiet: "j < CLIENT_FD_NUMBER \<Longrightarrow> cl_write_buf (po_clients room ! j) = None"
  by (auto simp: room_clients CLIENT_FD_NUMBER_def nth_Cons')

lemma room_addressed: "filter (addressed room 0) [0..<CLIENT_FD_NUMBER] = [1]"
proof -
  have "\<not> addressed room 0 j" if "j \<in> set [2..<CLIENT_FD_NUMBER]" for j
    using that by (auto simp: addressed_def room_clients CLIENT_FD_NUMBER_def nth_Cons')
  then have "filter (addressed room 0) [2..<CLIENT_FD_NUMBER] = []"
    by (simp only: filter_empty_conv) blast
  moreover have "[0..<CLIENT_FD_NUMBER] = 0 # 1 # [2..<CLIENT_FD_NUMBER]"
    by (simp add: CLIENT_FD_NUMBER_def upt_conv_Cons)
  moreover have "\<not> addressed room 0 0" "addressed room 0 1"
    by (simp_all add: addressed_def room_clients)
  ultimately show ?thesis by simp
qed

lemma tag_alice: "tag (po_clients room ! 0) = ''alice: ''"
  by (simp add: tag_def room_clients named_def)

lemma alice: "cl_connfd (po_clients room ! 0) = 4" "\<not> cl_welcome (po_clients room ! 0)" "cl_connfd (po_clients room ! 1) = 5"
  by (simp_all add: room_clients)

text \<open>Bob has a message of Alice pending.\<close>

definition pending_room :: pool where
  "pending_room = pointed 0 1 room"

lemma pending_room_inv: "pool_inv 3 pending_room"
  unfolding pending_room_def
  by (rule pointed_inv [OF room_inv]) (simp_all add: CLIENT_FD_NUMBER_def addressed_def room_clients)

lemma pending_room_clients:
  "po_clients pending_room ! 0 = named (guest 4) ''alice''"
  "cl_write_buf (po_clients pending_room ! 1) = Some 0" "cl_connfd (po_clients pending_room ! 1) = 5" "po_net pending_room = []"
  by (simp_all add: pending_room_def pointed_def room_clients)

lemma pending_room_others: "j < CLIENT_FD_NUMBER \<Longrightarrow> j \<noteq> 1 \<Longrightarrow> cl_write_buf (po_clients pending_room ! j) = None"
  using room_quiet [of j] by (simp add: pending_room_def pointed_def)

definition full_room :: pool where
  "full_room = (started 3 chat_world)\<lparr>po_clients := map (\<lambda>i. guest (4 + int i)) [0..<CLIENT_FD_NUMBER], po_maxi := 31,
     po_maxfd := 35, po_read_fds := insert 3 {4..35}, po_exception_fds := insert 3 {4..35}\<rparr>"

lemma full_room_inv: "pool_inv 3 full_room"
proof -
  have nth: "po_clients full_room ! i = guest (4 + int i)" if "i < CLIENT_FD_NUMBER" for i
    using that by (simp add: full_room_def)
  have valid: "fd_valid 3" "fd_valid (4 + int i)" if "i < CLIENT_FD_NUMBER" for i
    using that by (simp_all add: fd_valid_small CLIENT_FD_NUMBER_def)
  have ok: "client_ok 3 (guest (4 + int i))" if "i < CLIENT_FD_NUMBER" for i
    using valid [OF that] by (simp add: client_ok_def conn_ok_def guest_def init_client_def blank_def NAMESIZE_def)
  have watch: "watch_ok full_room (guest (4 + int i)) \<and> int i \<le> po_maxi full_room" if "i < CLIENT_FD_NUMBER" for i
    using that by (simp add: watch_ok_def full_room_def started_def CLIENT_FD_NUMBER_def)
  have len: "length (po_clients full_room) = CLIENT_FD_NUMBER"
    by (simp add: full_room_def)
  have conn: "x \<in> insert 3 (cl_connfd ` set (po_clients full_room) - {- 1})" if "x \<in> insert 3 {4..35}" for x
  proof (cases "x = 3")
    case False
    then have "x = cl_connfd (po_clients full_room ! nat (x - 4))" "nat (x - 4) < CLIENT_FD_NUMBER"
      using that nth [of "nat (x - 4)"] by (auto simp: CLIENT_FD_NUMBER_def)
    then have "x \<in> cl_connfd ` set (po_clients full_room)"
      using nth_mem [of "nat (x - 4)" "po_clients full_room"] len by simp
    then show ?thesis using that by auto
  qed simp
  show ?thesis
  proof (rule pool_invI)
    show "x \<in> insert 3 (cl_connfd ` set (po_clients full_room) - {- 1})"
      if "x \<in> po_read_fds full_room \<union> po_write_fds full_room \<union> po_exception_fds full_room" for x
      using that by (intro conn) (simp add: full_room_def started_def)
    show "client_ok 3 (po_clients full_room ! i) \<and> watch_ok full_room (po_clients full_room ! i) \<and>
        (cl_connfd (po_clients full_room ! i) \<noteq> - 1 \<longrightarrow> int i \<le> po_maxi full_room)" if "i < CLIENT_FD_NUMBER" for i
      using ok [OF that] watch [OF that] by (simp add: nth [OF that])
  qed (simp_all add: len nth, simp_all add: fd_valid_small full_room_def started_def CLIENT_FD_NUMBER_def)
qed

section \<open>The properties at this room\<close>

lemma fine_text_small:
  "bs \<noteq> [] \<Longrightarrow> length bs < 100 \<Longrightarrow> \<not> cl_welcome c \<Longrightarrow> fine_text c bs"
  by (simp add: fine_text_def BUFSIZ_sizes)

theorem chat_serves_all_witness:
  "server_round (\<lambda>_. []) 3 (one_round {3, 4} {} 6 ''hi'') room = server_round_each (\<lambda>_. []) 3 (one_round {3, 4} {} 6 ''hi'') room"
  by (rule chat_serves_all [OF room_inv])
    (auto simp: one_round_def fresh_fd_def fd_valid_small room_clients)

theorem chat_safe_witness:
  "safe_result (pool_inv 3) (chat_main (\<lambda>_. ''Success'') 3 True True [one_round {3} {} 4 []] chat_world)"
proof (rule chat_safe)
  have "fine_round 3 (one_round {3} {} 4 []) (started 3 chat_world)"
    by (auto simp: fine_round_def fresh_fd_def fd_valid_small one_round_def started_def chat_world_def)
  then show "fine_rounds (\<lambda>_. ''Success'') 3 [one_round {3} {} 4 []] (started 3 chat_world)"
    by (auto split: result.split bool.split)
qed (simp_all add: FD_SETSIZE_def chat_world_memory)

theorem chat_delivers_witness:
  "\<exists>q. server_round (\<lambda>_. []) 3 (one_round {} {5} 0 []) pending_room = Ret True q \<and> po_net q = [Sent 5 ''alice: '']"
proof -
  have "\<exists>q. server_round (\<lambda>_. []) 3 (one_round {} {5} 0 []) pending_room = Ret True q \<and> pool_inv 3 q
      \<and> po_net q = po_net pending_room @ letters pending_room [0..<CLIENT_FD_NUMBER]
      \<and> (\<forall>j < CLIENT_FD_NUMBER. po_clients q ! j = (po_clients pending_room ! j)\<lparr>cl_write_buf := None\<rparr>)"
  proof (rule chat_delivers [OF pending_room_inv])
    show "rd_select (one_round {} {5} 0 []) = Some ({}, {5}, {})"
      by (simp add: one_round_def)
    show "cl_connfd (po_clients pending_room ! j) \<in> {5} \<and> \<not> rd_gone (one_round {} {5} 0 []) (cl_connfd (po_clients pending_room ! j))"
      if "j < CLIENT_FD_NUMBER" "cl_write_buf (po_clients pending_room ! j) \<noteq> None" for j
      using pending_room_others [OF that(1)] that(2) pending_room_clients(3) by (cases "j = 1") (auto simp: one_round_def)
  qed
  moreover have "letters pending_room [0..<CLIENT_FD_NUMBER] = [Sent 5 ''alice: '']"
  proof -
    have "c_string (cl_buf (po_clients pending_room ! 0)) = Some ''alice: ''"
      using c_string_append [of "''alice: ''" "BUFSIZ - 7"] by (simp add: pending_room_clients(1) named_def NUL_def BUFSIZ_sizes)
    then have "outbox pending_room 1 = Some ''alice: ''"
      by (simp add: outbox_def pending_room_clients(2) del: One_nat_def)
    moreover have "outbox pending_room j = None" if "j < CLIENT_FD_NUMBER" "j \<noteq> 1" for j
      using pending_room_others [OF that] by (simp add: outbox_def)
    then have "letters pending_room [2..<CLIENT_FD_NUMBER] = []" "outbox pending_room 0 = None"
      by (auto simp: letters_def CLIENT_FD_NUMBER_def)
    moreover have "[0..<CLIENT_FD_NUMBER] = 0 # 1 # [2..<CLIENT_FD_NUMBER]"
      by (simp add: CLIENT_FD_NUMBER_def upt_conv_Cons)
    ultimately show ?thesis
      using pending_room_clients(3) by simp
  qed
  ultimately show ?thesis
    using pending_room_clients(4) by auto
qed

lemma room_addressed_bob: "filter (addressed room 1) [0..<CLIENT_FD_NUMBER] = [0]"
proof -
  have "\<not> addressed room 1 j" if "j \<in> set [2..<CLIENT_FD_NUMBER]" for j
    using that by (auto simp: addressed_def room_clients CLIENT_FD_NUMBER_def nth_Cons')
  then have "filter (addressed room 1) [2..<CLIENT_FD_NUMBER] = []"
    by (simp only: filter_empty_conv) blast
  moreover have "[0..<CLIENT_FD_NUMBER] = 0 # 1 # [2..<CLIENT_FD_NUMBER]"
    by (simp add: CLIENT_FD_NUMBER_def upt_conv_Cons)
  moreover have "addressed room 1 0" "\<not> addressed room 1 1"
    by (simp_all add: addressed_def room_clients)
  ultimately show ?thesis by simp
qed

theorem chat_conversation_witness:
  "\<exists>q. talk (chat_say (\<lambda>_. []) 3) [(0, ''hi''), (1, ''hello'')] room = Ret () q
    \<and> po_net q = [Sent 5 ''alice: hi'', Sent 4 ''bob: hello'']"
proof -
  have bob: "tag (po_clients room ! 1) = ''bob: ''" "\<not> cl_welcome (po_clients room ! 1)"
    by (simp_all add: tag_def room_clients) (simp_all add: named_def)
  have "chat_can room i t" if "(i, t) \<in> set [(0, ''hi''), (1, ''hello'')]" for i t
    using that alice bob by (auto simp: chat_can_def tag_alice CLIENT_FD_NUMBER_def BUFSIZ_sizes NUL_def)
  moreover have "chat_quiet 3 room"
    using room_inv room_quiet by (simp add: chat_quiet_def)
  ultimately have "\<exists>q. talk (chat_say (\<lambda>_. []) 3) [(0, ''hi''), (1, ''hello'')] room = Ret () q \<and> chat_quiet 3 q
    \<and> po_net q = po_net room @ concat (map (\<lambda>(i, t). map (\<lambda>j. Sent (cl_connfd (po_clients room ! j)) (tag (po_clients room ! i) @ t))
         (filter (addressed room i) [0..<CLIENT_FD_NUMBER])) [(0, ''hi''), (1, ''hello'')])"
    by (intro chat_conversation)
  then show ?thesis
    using alice bob by (auto simp: room_addressed room_addressed_bob tag_alice room_clients(2) simp del: talk.simps One_nat_def)
qed

theorem chat_room_full_witness:
  "\<exists>q. server_round (\<lambda>_. []) 3 (one_round {3} {} 36 []) full_room = Exit EXIT_FAILURE q"
proof -
  have r: "rd_select (one_round {3} {} 36 []) = Some ({3}, {}, {})" "0 \<le> fst (rd_accept (one_round {3} {} 36 []))"
    by (simp_all add: one_round_def)
  have "cl_connfd c \<noteq> - 1" if "c \<in> set (po_clients full_room)" for c
    using that by (auto simp: full_room_def)
  moreover have "con_dumpcore full_room = None"
    by (simp add: full_room_def started_def chat_world_def)
  ultimately show ?thesis
    using chat_room_full [OF full_room_inv _ r(1) _ r(2), of "\<lambda>_. []"] by blast
qed

theorem chat_leaver_erases_witness:
  "\<exists>q. server_round (\<lambda>_. []) 3 (one_round {4} {} 0 []) pending_room = Ret True q \<and> outbox q 1 = Some []"
  using chat_leaver_erases [OF pending_room_inv, of 0 "one_round {4} {} 0 []" 1 "\<lambda>_. []"] pending_room_clients
  by (auto simp: CLIENT_FD_NUMBER_def only_reads_def one_round_def alice_name)

theorem chat_long_name_witness:
  "server_round (\<lambda>_. []) 3 (one_round {4} {} 0 (replicate 17 (CHR ''x''))) one_guest = Undef"
  using chat_long_name [OF one_guest_inv, of 0 "one_round {4} {} 0 (replicate 17 (CHR ''x''))" "replicate 17 (CHR ''x'')" "\<lambda>_. []"]
  by (simp add: one_guest_clients only_reads_def one_round_def CLIENT_FD_NUMBER_def NUL_def NL_def name_of_def BUFSIZ_sizes)

end
