(* ===== verification/Chat_Poll.thy ===== *)
theory Chat_Poll
  imports Posix_Io Error_Report Chat_Spec
begin

text \<open>
  net/chat_server_poll.c: the chat room over \<open>poll\<close>, for five users without names. The users are
  kept in an array indexed by descriptor; the entries of \<open>poll\<close> are packed at the front of a second array.
  What the kernel delivers in a round is the input of the definitions; what is sent and closed is a log.
\<close>

section \<open>The data\<close>

definition USER_LIMIT :: int where "USER_LIMIT = 5"
definition BUFSIZE :: nat where "BUFSIZE = 64"
definition FD_LIMIT :: nat where "FD_LIMIT = 64"
definition EAGAIN :: int where "EAGAIN = 11"

text \<open>The flags of \<open>poll\<close> that the source uses; a short of flags is the set of them.\<close>

datatype flag = POLLIN | POLLOUT | POLLERR | POLLRDHUP

record pollfd =
  pf_fd :: int
  pf_events :: "flag set"
  pf_revents :: "flag set"

text \<open>\<open>write_buf\<close> is NULL (None) or points to the buffer of a user, named by its index.\<close>

record client_data =
  cd_address :: "string \<times> nat"
  cd_write_buf :: "nat option"
  cd_buf :: string

record poll_server = console +
  ps_users :: "client_data list"
  ps_fds :: "pollfd list"
  ps_count :: int
  ps_net :: "net list"

text \<open>
  One round: what is ready at a descriptor (None: \<open>poll\<close> fails), what \<open>accept\<close> returns (an error number
  or the descriptor and the peer's address), what the user behind a descriptor has sent (an error
  number, or the bytes; []: it has closed), whether it has gone, so that a write to it raises SIGPIPE, and
  the error number with which getsockopt fails, if it does.
\<close>

record poll_round =
  pr_ready :: "(int \<Rightarrow> flag set) option"
  pr_accept :: "int + int \<times> string \<times> nat"
  pr_recv :: "int \<Rightarrow> int + string"
  pr_gone :: "int \<Rightarrow> bool"
  pr_sockopt :: "int \<Rightarrow> int option"

section \<open>Arrays and calls\<close>

definition printf_stdout :: "string \<Rightarrow> (poll_server, unit) prog" where
  "printf_stdout s = modifyp (\<lambda>p. p\<lparr>con_pending := con_pending p @ s\<rparr>)"

definition perror :: "(int \<Rightarrow> string) \<Rightarrow> string \<Rightarrow> int \<Rightarrow> (poll_server, unit) prog" where
  "perror strerror s err = fputs_stderr (s @ '': '' @ strerror err @ [NL])"

definition net_log :: "net \<Rightarrow> (poll_server, unit) prog" where
  "net_log a = modifyp (\<lambda>p. p\<lparr>ps_net := ps_net p @ [a]\<rparr>)"

definition get_user :: "int \<Rightarrow> (poll_server, client_data) prog" where
  "get_user fd = (if 0 \<le> fd \<and> fd < int FD_LIMIT then getsp (\<lambda>p. ps_users p ! nat fd) else undefp)"

definition set_user :: "int \<Rightarrow> (client_data \<Rightarrow> client_data) \<Rightarrow> (poll_server, unit) prog" where
  "set_user fd f = (if 0 \<le> fd \<and> fd < int FD_LIMIT
     then modifyp (\<lambda>p. p\<lparr>ps_users := (ps_users p)[nat fd := f (ps_users p ! nat fd)]\<rparr>) else undefp)"

definition get_entry :: "int \<Rightarrow> (poll_server, pollfd) prog" where
  "get_entry i = (if 0 \<le> i \<and> i \<le> USER_LIMIT then getsp (\<lambda>p. ps_fds p ! nat i) else undefp)"

definition set_entry :: "int \<Rightarrow> (pollfd \<Rightarrow> pollfd) \<Rightarrow> (poll_server, unit) prog" where
  "set_entry i f = (if 0 \<le> i \<and> i \<le> USER_LIMIT
     then modifyp (\<lambda>p. p\<lparr>ps_fds := (ps_fds p)[nat i := f (ps_fds p ! nat i)]\<rparr>) else undefp)"

section \<open>Serving an entry\<close>

text \<open>A new connection. \<open>setnonblocking\<close> only sets the flags of the descriptor.\<close>

definition accept_user :: "(int \<Rightarrow> string) \<Rightarrow> poll_round \<Rightarrow> (poll_server, unit) prog" where
  "accept_user strerror r = (case pr_accept r of
       Inl err \<Rightarrow> perror strerror ''accept'' err
     | Inr (connfd, address) \<Rightarrow>
         bindp (getsp ps_count) (\<lambda>n.
         if USER_LIMIT \<le> n then
           thenp (printf_stdout (''too many users'' @ [NL]))
           (if pr_gone r connfd then exitp PIPE_STATUS
            else thenp (net_log (Sent connfd (''too many users'' @ [NL]))) (net_log (Closed connfd)))
         else thenp (modifyp (\<lambda>p. p\<lparr>ps_count := n + 1\<rparr>))
           (thenp (set_user connfd (\<lambda>u. u\<lparr>cd_address := address\<rparr>))
           (thenp (set_entry (n + 1) (\<lambda>_. \<lparr>pf_fd = connfd, pf_events = {POLLIN, POLLRDHUP, POLLERR}, pf_revents = {}\<rparr>))
             (printf_stdout (''comes a new user, now have '' @ dec_int (n + 1) @ '' users'' @ [NL]))))))"

definition user_error :: "(int \<Rightarrow> string) \<Rightarrow> poll_round \<Rightarrow> int \<Rightarrow> (poll_server, unit) prog" where
  "user_error strerror r fd =
     thenp (printf_stdout (''get an error from '' @ dec_int fd @ [NL]))
       (case pr_sockopt r fd of None \<Rightarrow> retp () | Some err \<Rightarrow> perror strerror ''getsockopt'' err)"

text \<open>
  The user of entry \<open>i\<close> is removed: its slot among the users gets a copy of that of the last entry,
  and the last entry takes the place of \<open>i\<close>.
\<close>

definition drop_user :: "int \<Rightarrow> (poll_server, unit) prog" where
  "drop_user i =
     bindp (get_entry i) (\<lambda>e. bindp (getsp ps_count) (\<lambda>n.
     bindp (get_entry n) (\<lambda>e'. bindp (get_user (pf_fd e')) (\<lambda>u.
     thenp (net_log (Closed (pf_fd e)))
     (thenp (set_user (pf_fd e) (\<lambda>_. u))
     (thenp (set_entry i (\<lambda>_. e'))
       (modifyp (\<lambda>p. p\<lparr>ps_count := n - 1\<rparr>))))))))"

fun broadcast :: "int \<Rightarrow> int list \<Rightarrow> (poll_server, unit) prog" where
  "broadcast connfd [] = retp ()"
| "broadcast connfd (j # js) =
     bindp (get_entry j) (\<lambda>e.
       if pf_fd e = connfd then broadcast connfd js
       else thenp (set_entry j (\<lambda>e. e\<lparr>pf_events := insert POLLOUT (pf_events e - {POLLIN})\<rparr>))
         (thenp (set_user (pf_fd e) (\<lambda>u. u\<lparr>cd_write_buf := Some (nat connfd)\<rparr>))
           (broadcast connfd js)))"

definition broadcast_all :: "int \<Rightarrow> (poll_server, unit) prog" where
  "broadcast_all connfd = bindp (getsp ps_count) (\<lambda>n. broadcast connfd [1..n])"

definition got_line :: "int \<Rightarrow> string \<Rightarrow> int \<Rightarrow> string" where
  "got_line n s fd = ''get '' @ dec_int n @ '' bytes of client data '' @ s @ '' from '' @ dec_int fd @ [NL]"

text \<open>Whether the turn of the loop ends with \<open>--i\<close> is what these return: the index of the next turn.\<close>

definition recv_user :: "poll_round \<Rightarrow> int \<Rightarrow> (poll_server, int) prog" where
  "recv_user r i =
     bindp (get_entry i) (\<lambda>e. let connfd = pf_fd e in
     thenp (set_user connfd (\<lambda>u. u\<lparr>cd_buf := replicate BUFSIZE NUL\<rparr>))
     (case pr_recv r connfd of
        Inl err \<Rightarrow>
          thenp (printf_stdout (got_line (- 1) [] connfd))
          (if err \<noteq> EAGAIN then thenp (drop_user i) (thenp (broadcast_all connfd) (retp i))
           else thenp (broadcast_all connfd) (retp (i + 1)))
      | Inr data \<Rightarrow> let bs = take (BUFSIZE - 1) data in
          thenp (set_user connfd (\<lambda>u. u\<lparr>cd_buf := bs @ replicate (BUFSIZE - length bs) NUL\<rparr>))
          (thenp (printf_stdout (got_line (int (length bs)) (takeWhile (\<lambda>c. c \<noteq> NUL) bs) connfd))
          (if bs = [] then retp (i + 1) else thenp (broadcast_all connfd) (retp (i + 1))))))"

definition send_user :: "poll_round \<Rightarrow> int \<Rightarrow> (poll_server, unit) prog" where
  "send_user r i =
     bindp (get_entry i) (\<lambda>e. bindp (get_user (pf_fd e)) (\<lambda>u.
     case cd_write_buf u of None \<Rightarrow> retp ()
     | Some k \<Rightarrow> bindp (get_user (int k)) (\<lambda>v. case c_string (cd_buf v) of None \<Rightarrow> undefp
       | Some s \<Rightarrow>
           if pr_gone r (pf_fd e) then exitp PIPE_STATUS
           else thenp (net_log (Sent (pf_fd e) s))
             (thenp (set_user (pf_fd e) (\<lambda>u. u\<lparr>cd_write_buf := None\<rparr>))
               (set_entry i (\<lambda>e. e\<lparr>pf_events := insert POLLIN (pf_events e - {POLLOUT})\<rparr>))))))"

definition serve_entry :: "(int \<Rightarrow> string) \<Rightarrow> int \<Rightarrow> poll_round \<Rightarrow> int \<Rightarrow> (poll_server, int) prog" where
  "serve_entry strerror listenfd r i =
     bindp (get_entry i) (\<lambda>e.
       if pf_fd e = listenfd \<and> POLLIN \<in> pf_revents e then thenp (accept_user strerror r) (retp (i + 1))
       else if POLLERR \<in> pf_revents e then thenp (user_error strerror r (pf_fd e)) (retp (i + 1))
       else if POLLRDHUP \<in> pf_revents e then
         thenp (drop_user i) (thenp (printf_stdout (''a client left'' @ [NL])) (retp i))
       else if POLLIN \<in> pf_revents e then recv_user r i
       else if POLLOUT \<in> pf_revents e then thenp (send_user r i) (retp (i + 1))
       else retp (i + 1))"

section \<open>The main loop\<close>

text \<open>
  The loop over the entries. A turn moves on or takes an entry away, and at most five can be added; the
  fuel is larger than the number of turns.
\<close>

fun scan :: "(int \<Rightarrow> string) \<Rightarrow> int \<Rightarrow> poll_round \<Rightarrow> nat \<Rightarrow> int \<Rightarrow> (poll_server, unit) prog" where
  "scan strerror listenfd r 0 i = undefp"
| "scan strerror listenfd r (Suc k) i =
     bindp (getsp ps_count) (\<lambda>n.
       if i \<le> n then bindp (serve_entry strerror listenfd r i) (\<lambda>i'. scan strerror listenfd r k i') else retp ())"

definition SCAN_FUEL :: nat where "SCAN_FUEL = 20"

text \<open>\<open>poll\<close> looks at the entries up to \<open>user_count\<close>; an error is reported whether it was asked for or not.\<close>

definition sys_poll :: "(int \<Rightarrow> flag set) \<Rightarrow> (poll_server, unit) prog" where
  "sys_poll ready = modifyp (\<lambda>p. p\<lparr>ps_fds :=
     map (\<lambda>e. e\<lparr>pf_revents := ready (pf_fd e) \<inter> insert POLLERR (pf_events e)\<rparr>) (take (nat (ps_count p + 1)) (ps_fds p))
       @ drop (nat (ps_count p + 1)) (ps_fds p)\<rparr>)"

definition poll_server_round :: "(int \<Rightarrow> string) \<Rightarrow> int \<Rightarrow> poll_round \<Rightarrow> (poll_server, bool) prog" where
  "poll_server_round strerror listenfd r = (case pr_ready r of
       None \<Rightarrow> thenp (fputs_stderr (''poll failed'' @ [NL])) (retp False)
     | Some ready \<Rightarrow> thenp (sys_poll ready) (thenp (scan strerror listenfd r SCAN_FUEL 0) (retp True)))"

fun poll_serve :: "(int \<Rightarrow> string) \<Rightarrow> int \<Rightarrow> poll_round list \<Rightarrow> (poll_server, unit) prog" where
  "poll_serve strerror listenfd [] = retp ()"
| "poll_serve strerror listenfd (r # rs) =
     bindp (poll_server_round strerror listenfd r) (\<lambda>go.
       if go then poll_serve strerror listenfd rs
       else thenp (net_log (Closed listenfd)) (exit_process EXIT_SUCCESS))"

definition no_user :: client_data where
  "no_user = \<lparr>cd_address = ([], 0), cd_write_buf = None, cd_buf = replicate BUFSIZE NUL\<rparr>"

definition poll_init :: "int \<Rightarrow> (poll_server, unit) prog" where
  "poll_init listenfd = modifyp (\<lambda>p. p\<lparr>ps_users := replicate FD_LIMIT no_user, ps_count := 0,
     ps_fds := \<lparr>pf_fd = listenfd, pf_events = {POLLIN, POLLERR}, pf_revents = {}\<rparr>
       # replicate (nat USER_LIMIT) \<lparr>pf_fd = - 1, pf_events = {}, pf_revents = {}\<rparr>\<rparr>)"

text \<open>The results of socket, bind and listen, then the rounds.\<close>

definition poll_main :: "(int \<Rightarrow> string) \<Rightarrow> int \<Rightarrow> bool \<Rightarrow> bool \<Rightarrow> poll_round list \<Rightarrow> (poll_server, unit) prog" where
  "poll_main strerror listenfd bound listening rs =
     (if listenfd < 0 \<or> \<not> bound \<or> \<not> listening then abort_process
      else thenp (poll_init listenfd) (poll_serve strerror listenfd rs))"

section \<open>The arrays after an update\<close>

abbreviation usr :: "poll_server \<Rightarrow> int \<Rightarrow> client_data" where
  "usr s fd \<equiv> ps_users s ! nat fd"

abbreviation ent :: "poll_server \<Rightarrow> int \<Rightarrow> pollfd" where
  "ent s i \<equiv> ps_fds s ! nat i"

definition put_user :: "int \<Rightarrow> (client_data \<Rightarrow> client_data) \<Rightarrow> poll_server \<Rightarrow> poll_server" where
  "put_user fd f s = s\<lparr>ps_users := (ps_users s)[nat fd := f (usr s fd)]\<rparr>"

definition put_entry :: "int \<Rightarrow> (pollfd \<Rightarrow> pollfd) \<Rightarrow> poll_server \<Rightarrow> poll_server" where
  "put_entry i f s = s\<lparr>ps_fds := (ps_fds s)[nat i := f (ent s i)]\<rparr>"

definition sized :: "poll_server \<Rightarrow> bool" where
  "sized s \<longleftrightarrow> length (ps_users s) = FD_LIMIT \<and> length (ps_fds s) = 6 \<and> 0 \<le> ps_count s \<and> ps_count s \<le> USER_LIMIT"

definition user_fd :: "int \<Rightarrow> bool" where
  "user_fd fd \<longleftrightarrow> 0 \<le> fd \<and> fd < int FD_LIMIT"

lemma put_simps [simp]:
  "ps_fds (put_user fd f s) = ps_fds s" "ps_count (put_user fd f s) = ps_count s" "ps_net (put_user fd f s) = ps_net s"
  "ps_users (put_entry i g s) = ps_users s" "ps_count (put_entry i g s) = ps_count s" "ps_net (put_entry i g s) = ps_net s"
  "sized (put_user fd f s) = sized s" "sized (put_entry i g s) = sized s"
  by (simp_all add: put_user_def put_entry_def sized_def)

lemma usr_put:
  assumes "sized s" "user_fd fd" "user_fd k"
  shows "usr (put_user fd f s) k = (if k = fd then f (usr s fd) else usr s k)"
  using assms by (auto simp: put_user_def sized_def user_fd_def nth_list_update)

lemma ent_put:
  assumes "sized s" "0 \<le> i" "i \<le> USER_LIMIT" "0 \<le> j" "j \<le> USER_LIMIT"
  shows "ent (put_entry i f s) j = (if j = i then f (ent s i) else ent s j)"
  using assms by (auto simp: put_entry_def sized_def nth_list_update USER_LIMIT_def)

lemma put_commute: "put_user fd f (put_entry i g s) = put_entry i g (put_user fd f s)"
  by (simp add: put_user_def put_entry_def)

lemma set_get_eq:
  "user_fd fd \<Longrightarrow> set_user fd f s = Ret () (put_user fd f s)" "user_fd fd \<Longrightarrow> get_user fd s = Ret (usr s fd) s"
  "0 \<le> i \<Longrightarrow> i \<le> USER_LIMIT \<Longrightarrow> set_entry i g s = Ret () (put_entry i g s)"
  "0 \<le> i \<Longrightarrow> i \<le> USER_LIMIT \<Longrightarrow> get_entry i s = Ret (ent s i) s"
  by (simp_all add: set_user_def get_user_def set_entry_def get_entry_def put_user_def put_entry_def user_fd_def)

section \<open>What holds of the server between two turns\<close>

definition good_user :: "client_data \<Rightarrow> bool" where
  "good_user u \<longleftrightarrow> length (cd_buf u) = BUFSIZE \<and> cd_buf u ! (BUFSIZE - 1) = NUL
     \<and> (case cd_write_buf u of None \<Rightarrow> True | Some k \<Rightarrow> k < FD_LIMIT)"

definition good_entry :: "int \<Rightarrow> poll_server \<Rightarrow> pollfd \<Rightarrow> bool" where
  "good_entry l s e \<longleftrightarrow> user_fd (pf_fd e) \<and> pf_fd e \<noteq> l
     \<and> (pf_events e = {POLLIN, POLLRDHUP, POLLERR}
        \<or> pf_events e = {POLLOUT, POLLRDHUP, POLLERR} \<and> cd_write_buf (usr s (pf_fd e)) \<noteq> None)"

text \<open>
  The listening entry is the first; each user has one entry, watched for reading or, when it has something to
  be written, for writing.
\<close>

definition poll_inv :: "int \<Rightarrow> poll_server \<Rightarrow> bool" where
  "poll_inv l s \<longleftrightarrow> user_fd l \<and> sized s \<and> (\<forall>k. user_fd k \<longrightarrow> good_user (usr s k))
     \<and> pf_fd (ent s 0) = l \<and> pf_events (ent s 0) = {POLLIN, POLLERR} \<and> pf_revents (ent s 0) \<subseteq> {POLLIN, POLLERR}
     \<and> (\<forall>j. 1 \<le> j \<longrightarrow> j \<le> ps_count s \<longrightarrow> good_entry l s (ent s j))
     \<and> (\<forall>j k. 1 \<le> j \<longrightarrow> j \<le> ps_count s \<longrightarrow> 1 \<le> k \<longrightarrow> k \<le> ps_count s \<longrightarrow> pf_fd (ent s j) = pf_fd (ent s k) \<longrightarrow> j = k)"

lemma poll_inv_cong:
  "ps_users q = ps_users s \<Longrightarrow> ps_fds q = ps_fds s \<Longrightarrow> ps_count q = ps_count s \<Longrightarrow> poll_inv l q = poll_inv l s"
  by (simp add: poll_inv_def sized_def good_entry_def)

lemma poll_inv_update [simp]:
  "poll_inv l (s\<lparr>con_pending := x\<rparr>) = poll_inv l s" "poll_inv l (s\<lparr>con_seen := y\<rparr>) = poll_inv l s"
  "poll_inv l (s\<lparr>ps_net := z\<rparr>) = poll_inv l s"
  by (rule poll_inv_cong; simp)+

lemma poll_invD:
  assumes "poll_inv l s"
  shows "user_fd l" "sized s" "user_fd k \<Longrightarrow> good_user (usr s k)" "0 \<le> ps_count s" "ps_count s \<le> USER_LIMIT"
    "1 \<le> j \<Longrightarrow> j \<le> ps_count s \<Longrightarrow> good_entry l s (ent s j)" "pf_fd (ent s 0) = l"
    "1 \<le> j \<Longrightarrow> j \<le> ps_count s \<Longrightarrow> user_fd (pf_fd (ent s j))"
  using assms by (simp_all add: poll_inv_def sized_def good_entry_def)

lemma poll_invI:
  assumes "user_fd l" "sized s" "\<And>k. user_fd k \<Longrightarrow> good_user (usr s k)" "pf_fd (ent s 0) = l"
    "pf_events (ent s 0) = {POLLIN, POLLERR}" "pf_revents (ent s 0) \<subseteq> {POLLIN, POLLERR}"
    "\<And>j. 1 \<le> j \<Longrightarrow> j \<le> ps_count s \<Longrightarrow> good_entry l s (ent s j)"
    "\<And>j k. 1 \<le> j \<Longrightarrow> j \<le> ps_count s \<Longrightarrow> 1 \<le> k \<Longrightarrow> k \<le> ps_count s \<Longrightarrow>
       pf_fd (ent s j) = pf_fd (ent s k) \<Longrightarrow> j = k"
  shows "poll_inv l s"
  unfolding poll_inv_def using assms by (intro conjI allI impI) assumption+

lemma poll_inv_first:
  assumes "poll_inv l s"
  shows "pf_fd (ent s 0) = l" "pf_events (ent s 0) = {POLLIN, POLLERR}" "pf_revents (ent s 0) \<subseteq> {POLLIN, POLLERR}"
  using assms by (simp_all add: poll_inv_def)

lemma poll_inv_distinct:
  assumes "poll_inv l s" "1 \<le> j" "j \<le> ps_count s" "1 \<le> k" "k \<le> ps_count s" "j \<noteq> k"
  shows "pf_fd (ent s j) \<noteq> pf_fd (ent s k)"
  using assms unfolding poll_inv_def by blast

lemma put_user_inv:
  assumes inv: "poll_inv l s" and fd: "user_fd fd" and u: "good_user (f (usr s fd))"
    and w: "cd_write_buf (f (usr s fd)) = None \<Longrightarrow> cd_write_buf (usr s fd) = None
      \<or> (\<forall>j. 1 \<le> j \<longrightarrow> j \<le> ps_count s \<longrightarrow> pf_fd (ent s j) = fd \<longrightarrow> pf_events (ent s j) = {POLLIN, POLLRDHUP, POLLERR})"
  shows "poll_inv l (put_user fd f s)"
proof -
  have "good_entry l (put_user fd f s) (ent s j)" if "1 \<le> j" "j \<le> ps_count s" for j
    using poll_invD(6) [OF inv that] usr_put [OF poll_invD(2) [OF inv] fd, of "pf_fd (ent s j)" f] w that
    by (auto simp: good_entry_def)
  then show ?thesis
    using inv u usr_put [OF poll_invD(2) [OF inv] fd] by (simp add: poll_inv_def)
qed

lemma put_entry_inv:
  assumes inv: "poll_inv l s" and i: "1 \<le> i" "i \<le> ps_count s" and e: "pf_fd (f (ent s i)) = pf_fd (ent s i)" "good_entry l s (f (ent s i))"
  shows "poll_inv l (put_entry i f s)"
proof -
  have u: "ps_count s \<le> USER_LIMIT"
    by (rule poll_invD(5) [OF inv])
  have ent: "ent (put_entry i f s) j = (if j = i then f (ent s i) else ent s j)" if "0 \<le> j" "j \<le> ps_count s" for j
    using ent_put [OF poll_invD(2) [OF inv], of i j f] i u that by simp
  have fds: "pf_fd (ent (put_entry i f s) j) = pf_fd (ent s j)" if "0 \<le> j" "j \<le> ps_count s" for j
    using ent [OF that] e(1) by simp
  show ?thesis
  proof (rule poll_invI)
    show "good_entry l (put_entry i f s) (ent (put_entry i f s) j)" if "1 \<le> j" "j \<le> ps_count (put_entry i f s)" for j
      using ent [of j] poll_invD(6) [OF inv, of j] e(2) that by (simp add: good_entry_def)
    show "j = k" if "1 \<le> j" "j \<le> ps_count (put_entry i f s)" "1 \<le> k" "k \<le> ps_count (put_entry i f s)"
        "pf_fd (ent (put_entry i f s) j) = pf_fd (ent (put_entry i f s) k)" for j k
      using that fds [of j] fds [of k] poll_inv_distinct [OF inv, of j k] by (cases "j = k") simp_all
  qed (use poll_invD(1-3) [OF inv] poll_inv_first [OF inv] ent [of 0] i poll_invD(4) [OF inv] in simp_all)
qed

text \<open>A fragment that does not run into undefined behaviour, and what holds when it returns.\<close>

definition ends :: "('a \<Rightarrow> 's \<Rightarrow> bool) \<Rightarrow> ('s, 'a) result \<Rightarrow> bool" where
  "ends P r = (case r of Ret a s \<Rightarrow> P a s | Exit _ _ \<Rightarrow> True | Undef \<Rightarrow> False)"

lemma ends_simps [simp]: "ends P (Ret a s) = P a s" "ends P (Exit k s)" "\<not> ends P Undef"
  by (simp_all add: ends_def)

lemma ends_bind: "ends Q (m s) \<Longrightarrow> (\<And>a s'. m s = Ret a s' \<Longrightarrow> Q a s' \<Longrightarrow> ends P (f a s')) \<Longrightarrow> ends P (bindp m f s)"
  by (cases "m s") (auto simp: bindp_unfold)

lemma ends_then: "ends Q (m s) \<Longrightarrow> (\<And>a s'. Q a s' \<Longrightarrow> ends P (n s')) \<Longrightarrow> ends P (thenp m n s)"
  unfolding thenp_def by (rule ends_bind)

section \<open>What a text does to the others\<close>

definition pending_events :: "flag set" where
  "pending_events = {POLLOUT, POLLRDHUP, POLLERR}"

definition pointed :: "int \<Rightarrow> int \<Rightarrow> poll_server \<Rightarrow> poll_server" where
  "pointed connfd j s = put_user (pf_fd (ent s j)) (\<lambda>u. u\<lparr>cd_write_buf := Some (nat connfd)\<rparr>)
     (put_entry j (\<lambda>e. e\<lparr>pf_events := insert POLLOUT (pf_events e - {POLLIN})\<rparr>) s)"

lemma users_broadcast_Cons:
  assumes "poll_inv l s" "1 \<le> j" "j \<le> ps_count s"
  shows "broadcast connfd (j # js) s = broadcast connfd js (if pf_fd (ent s j) = connfd then s else pointed connfd j s)"
  using poll_invD(5) [OF assms(1)] poll_invD(8) [OF assms] assms(2,3)
  by (simp add: bindp_unfold thenp_unfold set_get_eq pointed_def)

lemma pending_after:
  assumes "poll_inv l s" "1 \<le> j" "j \<le> ps_count s"
  shows "insert POLLOUT (pf_events (ent s j) - {POLLIN}) = pending_events"
  using poll_invD(6) [OF assms] by (auto simp: good_entry_def pending_events_def)

lemma users_pointed_inv:
  assumes inv: "poll_inv l s" and j: "1 \<le> j" "j \<le> ps_count s" and c: "user_fd connfd"
  shows "poll_inv l (pointed connfd j s)"
proof -
  let ?f = "\<lambda>u. u\<lparr>cd_write_buf := Some (nat connfd)\<rparr>" and ?fd = "pf_fd (ent s j)"
  note fd = poll_invD(8) [OF inv j]
  have s1: "poll_inv l (put_user ?fd ?f s)"
    using poll_invD(3) [OF inv fd] c by (intro put_user_inv [OF inv fd]) (auto simp: good_user_def user_fd_def)
  have "good_entry l (put_user ?fd ?f s) ((ent s j)\<lparr>pf_events := pending_events\<rparr>)"
    using poll_invD(6) [OF inv j] fd usr_put [OF poll_invD(2) [OF inv] fd fd, of ?f]
    by (simp add: good_entry_def pending_events_def)
  then have "poll_inv l (put_entry j (\<lambda>e. e\<lparr>pf_events := insert POLLOUT (pf_events e - {POLLIN})\<rparr>) (put_user ?fd ?f s))"
    using j pending_after [OF inv j] by (intro put_entry_inv [OF s1]) simp_all
  then show ?thesis
    by (simp add: pointed_def put_commute)
qed

definition addressed :: "poll_server \<Rightarrow> int \<Rightarrow> int list \<Rightarrow> int \<Rightarrow> bool" where
  "addressed s connfd js k \<longleftrightarrow> k \<noteq> connfd \<and> (\<exists>j \<in> set js. pf_fd (ent s j) = k)"

lemma users_broadcast_effect:
  assumes "poll_inv l s" "distinct js" "\<forall>j \<in> set js. 1 \<le> j \<and> j \<le> ps_count s" "user_fd connfd"
  shows "\<exists>q. broadcast connfd js s = Ret () q \<and> poll_inv l q \<and> ps_net q = ps_net s \<and> ps_count q = ps_count s
    \<and> (\<forall>j. 0 \<le> j \<longrightarrow> j \<le> ps_count s \<longrightarrow> ent q j =
         (if j \<in> set js \<and> pf_fd (ent s j) \<noteq> connfd then (ent s j)\<lparr>pf_events := pending_events\<rparr> else ent s j))
    \<and> (\<forall>k. user_fd k \<longrightarrow> usr q k =
         (if addressed s connfd js k then (usr s k)\<lparr>cd_write_buf := Some (nat connfd)\<rparr> else usr s k))"
  using assms
proof (induction js arbitrary: s)
  case (Cons j js)
  note inv = Cons.prems(1)
  have j: "1 \<le> j" "j \<le> ps_count s" "j \<notin> set js"
    using Cons.prems(2,3) by simp_all
  have u: "ps_count s \<le> USER_LIMIT"
    by (rule poll_invD(5) [OF inv])
  note fd = poll_invD(8) [OF inv j(1,2)]
  define s1 where "s1 = (if pf_fd (ent s j) = connfd then s else pointed connfd j s)"
  have s1: "poll_inv l s1" "ps_net s1 = ps_net s" "ps_count s1 = ps_count s"
    using inv users_pointed_inv [OF inv j(1,2) Cons.prems(4)] by (simp_all add: s1_def pointed_def)
  have ent1: "ent s1 k = (if k = j \<and> pf_fd (ent s j) \<noteq> connfd then (ent s k)\<lparr>pf_events := pending_events\<rparr> else ent s k)"
    if "0 \<le> k" "k \<le> ps_count s" for k
    using ent_put [OF poll_invD(2) [OF inv], of j k "\<lambda>e. e\<lparr>pf_events := insert POLLOUT (pf_events e - {POLLIN})\<rparr>"]
      that j u pending_after [OF inv j(1,2)] by (cases "k = j") (simp_all add: s1_def pointed_def)
  have usr1: "usr s1 k = (if k = pf_fd (ent s j) \<and> k \<noteq> connfd then (usr s k)\<lparr>cd_write_buf := Some (nat connfd)\<rparr> else usr s k)"
    if "user_fd k" for k
    using usr_put [of "put_entry j g s" "pf_fd (ent s j)" k f for f g] that fd poll_invD(2) [OF inv]
    by (cases "k = pf_fd (ent s j)") (simp_all add: s1_def pointed_def)
  have fds: "pf_fd (ent s1 k) = pf_fd (ent s k)" if "k \<in> set js" for k
  proof -
    have "0 \<le> k" "k \<le> ps_count s"
      using that Cons.prems(3) by auto
    then show ?thesis
      using ent1 [of k] by simp
  qed
  obtain q where q: "broadcast connfd js s1 = Ret () q" "poll_inv l q" "ps_net q = ps_net s1" "ps_count q = ps_count s1"
      "\<And>k. 0 \<le> k \<Longrightarrow> k \<le> ps_count s1 \<Longrightarrow> ent q k =
         (if k \<in> set js \<and> pf_fd (ent s1 k) \<noteq> connfd then (ent s1 k)\<lparr>pf_events := pending_events\<rparr> else ent s1 k)"
      "\<And>k. user_fd k \<Longrightarrow> usr q k =
         (if addressed s1 connfd js k then (usr s1 k)\<lparr>cd_write_buf := Some (nat connfd)\<rparr> else usr s1 k)"
    using Cons.IH [OF s1(1)] Cons.prems s1(3) by auto
  have addr: "addressed s1 connfd js k = addressed s connfd js k" for k
    using fds by (auto simp: addressed_def)
  have "ent q k = (if k \<in> set (j # js) \<and> pf_fd (ent s k) \<noteq> connfd then (ent s k)\<lparr>pf_events := pending_events\<rparr> else ent s k)"
    if "0 \<le> k" "k \<le> ps_count s" for k
    using q(5) [of k] ent1 [OF that] that s1(3) j(3) by auto
  moreover have "usr q k = (if addressed s connfd (j # js) k then (usr s k)\<lparr>cd_write_buf := Some (nat connfd)\<rparr> else usr s k)"
    if "user_fd k" for k
    using q(6) [OF that] usr1 [OF that] by (auto simp: addr) (auto simp: addressed_def)
  moreover have "broadcast connfd (j # js) s = Ret () q"
    using q(1) users_broadcast_Cons [OF inv j(1,2), of connfd js] by (simp add: s1_def del: broadcast.simps)
  ultimately show ?case
    using q(2-4) s1(2,3) by (intro exI [of _ q]) (simp del: broadcast.simps)
qed (simp add: addressed_def)

section \<open>No turn runs into undefined behaviour\<close>

definition dropped :: "int \<Rightarrow> poll_server \<Rightarrow> poll_server" where
  "dropped i s = (put_entry i (\<lambda>_. ent s (ps_count s)) (put_user (pf_fd (ent s i)) (\<lambda>_. usr s (pf_fd (ent s (ps_count s))))
     (s\<lparr>ps_net := ps_net s @ [Closed (pf_fd (ent s i))]\<rparr>)))\<lparr>ps_count := ps_count s - 1\<rparr>"

lemma drop_user_eq:
  assumes inv: "poll_inv l s" and i: "1 \<le> i" "i \<le> ps_count s"
  shows "drop_user i s = Ret () (dropped i s)"
proof -
  have n: "1 \<le> ps_count s" "ps_count s \<le> USER_LIMIT"
    using i poll_invD(5) [OF inv] by simp_all
  note fds = poll_invD(8) [OF inv i] poll_invD(8) [OF inv n(1) order_refl]
  show ?thesis
    using n i fds by (simp add: drop_user_def bindp_unfold thenp_unfold set_get_eq net_log_def dropped_def put_user_def)
qed

lemma dropped_ent:
  assumes inv: "poll_inv l s" and i: "1 \<le> i" "i \<le> ps_count s" and j: "0 \<le> j" "j \<le> ps_count s"
  shows "ent (dropped i s) j = (if j = i then ent s (ps_count s) else ent s j)"
proof -
  let ?s1 = "put_user (pf_fd (ent s i)) (\<lambda>_. usr s (pf_fd (ent s (ps_count s)))) (s\<lparr>ps_net := ps_net s @ [Closed (pf_fd (ent s i))]\<rparr>)"
  have "sized ?s1"
    using poll_invD(2) [OF inv] by (simp add: sized_def put_user_def)
  then show ?thesis
    using ent_put [of ?s1 i j "\<lambda>_. ent s (ps_count s)"] i j poll_invD(5) [OF inv] by (cases "j = i") (simp_all add: dropped_def)
qed

lemma dropped_inv:
  assumes inv: "poll_inv l s" and i: "1 \<le> i" "i \<le> ps_count s"
  shows "poll_inv l (dropped i s)"
proof -
  let ?q = "dropped i s" and ?n = "ps_count s"
  note s = poll_invD(2) [OF inv]
  have n: "?n \<le> USER_LIMIT"
    by (rule poll_invD(5) [OF inv])
  note fds = poll_invD(8) [OF inv i] poll_invD(8) [OF inv order_trans [OF i] order_refl]
  have distinct: "pf_fd (ent s j) \<noteq> pf_fd (ent s k)" if "1 \<le> j" "j \<le> ?n" "1 \<le> k" "k \<le> ?n" "j \<noteq> k" for j k
    using poll_inv_distinct [OF inv that(1-5)] .
  have sz: "sized (s\<lparr>ps_net := ps_net s @ [Closed (pf_fd (ent s i))]\<rparr>)"
    using s by (simp add: sized_def)
  note ent = dropped_ent [OF inv i]
  have usr: "usr ?q k = (if k = pf_fd (ent s i) then usr s (pf_fd (ent s ?n)) else usr s k)" if "user_fd k" for k
    using usr_put [OF sz fds(1) that] by (simp add: dropped_def)
  have entry: "good_entry l ?q (ent ?q j)" if j: "1 \<le> j" "j \<le> ?n - 1" for j
  proof -
    define m where "m = (if j = i then ?n else j)"
    have m: "1 \<le> m" "m \<le> ?n" "m \<noteq> i" "ent ?q j = ent s m"
      using j i ent [of j] by (auto simp: m_def)
    then have "usr ?q (pf_fd (ent s m)) = usr s (pf_fd (ent s m))"
      using distinct [OF m(1,2) i m(3)] poll_invD(8) [OF inv m(1,2)] usr by simp
    then show ?thesis
      using poll_invD(6) [OF inv m(1,2)] by (simp add: good_entry_def m(4))
  qed
  have count: "ps_count ?q = ?n - 1"
    by (simp add: dropped_def)
  show ?thesis
  proof (rule poll_invI)
    show "j = k" if jk: "1 \<le> j" "j \<le> ps_count ?q" "1 \<le> k" "k \<le> ps_count ?q" "pf_fd (ent ?q j) = pf_fd (ent ?q k)" for j k
    proof (rule ccontr)
      assume "j \<noteq> k"
      then show False
        using jk i count ent [of j] ent [of k] distinct [of ?n j] distinct [of ?n k] distinct [of j k]
        by (auto split: if_splits)
    qed
    show "good_user (usr ?q k)" if "user_fd k" for k
      using usr [OF that] poll_invD(3) [OF inv that] poll_invD(3) [OF inv fds(2)] by simp
    show "sized ?q"
      using s i by (simp add: dropped_def sized_def put_entry_def put_user_def)
    show "good_entry l ?q (ent ?q j)" if "1 \<le> j" "j \<le> ps_count ?q" for j
      using entry that by (simp only: count)
  qed (use poll_invD(1) [OF inv] poll_inv_first [OF inv] ent [of 0] i in simp_all)
qed

text \<open>A new user is neither the listening descriptor nor that of anybody else.\<close>

definition fresh_user :: "int \<Rightarrow> poll_server \<Rightarrow> int \<Rightarrow> bool" where
  "fresh_user l s fd \<longleftrightarrow> user_fd fd \<and> fd \<noteq> l \<and> (\<forall>j. 1 \<le> j \<longrightarrow> j \<le> ps_count s \<longrightarrow> pf_fd (ent s j) \<noteq> fd)"

definition admitted :: "int \<Rightarrow> string \<times> nat \<Rightarrow> poll_server \<Rightarrow> poll_server" where
  "admitted fd addr s = put_entry (ps_count s + 1) (\<lambda>_. \<lparr>pf_fd = fd, pf_events = {POLLIN, POLLRDHUP, POLLERR}, pf_revents = {}\<rparr>)
     (put_user fd (\<lambda>u. u\<lparr>cd_address := addr\<rparr>) (s\<lparr>ps_count := ps_count s + 1\<rparr>))"

lemma admitted_inv:
  assumes inv: "poll_inv l s" and fd: "fresh_user l s fd" and n: "ps_count s < USER_LIMIT"
  shows "poll_inv l (admitted fd addr s)"
proof -
  let ?q = "admitted fd addr s" and ?n = "ps_count s + 1"
  let ?e = "\<lparr>pf_fd = fd, pf_events = {POLLIN, POLLRDHUP, POLLERR}, pf_revents = {}\<rparr>"
  let ?s1 = "s\<lparr>ps_count := ?n\<rparr>"
  have sz: "sized ?s1"
    using poll_invD(2) [OF inv] n by (simp add: sized_def)
  have u: "user_fd fd"
    using fd by (simp add: fresh_user_def)
  have ent: "ent ?q j = (if j = ?n then ?e else ent s j)" if "0 \<le> j" "j \<le> ?n" for j
    using ent_put [of "put_user fd (\<lambda>u. u\<lparr>cd_address := addr\<rparr>) ?s1" ?n j "\<lambda>_. ?e"] sz that n poll_invD(4) [OF inv]
    by (simp add: admitted_def)
  have usr: "usr ?q k = (if k = fd then (usr s k)\<lparr>cd_address := addr\<rparr> else usr s k)" if "user_fd k" for k
    using usr_put [OF sz u that] by (simp add: admitted_def)
  have new: "pf_fd (ent s j) \<noteq> fd" if "1 \<le> j" "j \<le> ps_count s" for j
    using fd that by (simp add: fresh_user_def)
  have sq: "sized ?q" "ps_count ?q = ?n"
    using sz by (simp_all add: admitted_def)
  show ?thesis
  proof (rule poll_invI)
    show "good_entry l ?q (ent ?q j)" if "1 \<le> j" "j \<le> ps_count ?q" for j
      using ent [of j] that poll_invD(6,8) [OF inv, of j] usr [of "pf_fd (ent s j)"] fd
      by (cases "j = ?n") (auto simp: good_entry_def fresh_user_def sq(2))
    show "good_user (usr ?q k)" if "user_fd k" for k
      using usr [OF that] poll_invD(3) [OF inv that] by (cases "k = fd") (simp_all add: good_user_def)
    show "j = k" if jk: "1 \<le> j" "j \<le> ps_count ?q" "1 \<le> k" "k \<le> ps_count ?q" "pf_fd (ent ?q j) = pf_fd (ent ?q k)" for j k
    proof (cases "j = ?n \<or> k = ?n")
      case True
      then show ?thesis
        using jk ent [of j] ent [of k] new [of j] new [of k] unfolding sq(2) by (cases "j = ?n"; cases "k = ?n") auto
    next
      case False
      then have "pf_fd (ent s j) = pf_fd (ent s k)" "j \<le> ps_count s" "k \<le> ps_count s"
        using jk ent [of j] ent [of k] by (simp_all add: sq(2))
      then show ?thesis
        using jk(1,3) poll_inv_distinct [OF inv, of j k] by blast
    qed
  qed (use sq poll_invD(1,4) [OF inv] poll_inv_first [OF inv] ent [of 0] in simp_all)
qed

lemma broadcast_all_ends:
  assumes "poll_inv l s" "user_fd connfd"
  shows "ends (\<lambda>_ q. poll_inv l q \<and> ps_count q = ps_count s) (broadcast_all connfd s)"
  using users_broadcast_effect [OF assms(1), of "[1..ps_count s]" connfd] assms(2)
  by (auto simp: broadcast_all_def bindp_unfold)

lemma broadcast_then:
  assumes "poll_inv l s" "user_fd c" "\<And>q. poll_inv l q \<Longrightarrow> ps_count q = ps_count s \<Longrightarrow> ends P (n q)"
  shows "ends P (thenp (broadcast_all c) n s)"
  by (rule ends_then [where Q = "\<lambda>_ q. poll_inv l q \<and> ps_count q = ps_count s"])
    (use assms broadcast_all_ends [OF assms(1,2)] in simp_all)

lemma printf_stdout_eq: "printf_stdout t s = Ret () (s\<lparr>con_pending := con_pending s @ t\<rparr>)"
  by (simp add: printf_stdout_def)

lemma net_log_eq: "net_log a s = Ret () (s\<lparr>ps_net := ps_net s @ [a]\<rparr>)"
  by (simp add: net_log_def)

lemma perror_eq: "perror strerror t err s = Ret () (s\<lparr>con_seen := con_seen s @ [ErrText (t @ '': '' @ strerror err @ [NL])]\<rparr>)"
  by (simp add: perror_def fputs_stderr_def)

lemmas out_eqs = printf_stdout_eq net_log_eq perror_eq

definition kept_or_one :: "poll_server \<Rightarrow> poll_server \<Rightarrow> bool" where
  "kept_or_one s q \<longleftrightarrow> ps_count q = ps_count s \<or> ps_count q = ps_count s + 1"

lemma accept_user_ends:
  assumes inv: "poll_inv l s" and fresh: "\<And>fd addr. pr_accept r = Inr (fd, addr) \<Longrightarrow> fresh_user l s fd"
  shows "ends (\<lambda>_ q. poll_inv l q \<and> kept_or_one s q) (accept_user strerror r s)"
proof (cases "pr_accept r")
  case (Inl err)
  then show ?thesis
    using inv by (simp add: accept_user_def out_eqs kept_or_one_def)
next
  case (Inr x)
  obtain fd addr where x: "x = (fd, addr)" by (cases x)
  show ?thesis
  proof (cases "USER_LIMIT \<le> ps_count s")
    case True
    then show ?thesis
      using inv Inr x by (simp add: accept_user_def bindp_unfold thenp_unfold out_eqs kept_or_one_def)
  next
    case False
    then have "user_fd fd" "0 \<le> ps_count s + 1" "ps_count s + 1 \<le> USER_LIMIT"
      using fresh Inr x poll_invD(4) [OF inv] by (auto simp: fresh_user_def)
    then have "accept_user strerror r s = Ret () ((admitted fd addr s)\<lparr>con_pending := con_pending (admitted fd addr s)
        @ ''comes a new user, now have '' @ dec_int (ps_count s + 1) @ '' users'' @ [NL]\<rparr>)"
      using False Inr x by (simp add: accept_user_def bindp_unfold thenp_unfold set_get_eq out_eqs admitted_def)
    then show ?thesis
      using admitted_inv [OF inv, of fd addr] fresh Inr x False by (simp add: admitted_def kept_or_one_def)
  qed
qed

lemma good_buf:
  assumes "good_user u" "length bs < BUFSIZE"
  shows "good_user (u\<lparr>cd_buf := bs @ replicate (BUFSIZE - length bs) NUL\<rparr>)"
  using assms by (auto simp: good_user_def nth_append)

lemma put_buf_inv:
  assumes "poll_inv l s" "user_fd fd" "length bs < BUFSIZE"
  shows "poll_inv l (put_user fd (\<lambda>u. u\<lparr>cd_buf := bs @ replicate (BUFSIZE - length bs) NUL\<rparr>) s)"
  using assms good_buf [OF poll_invD(3) [OF assms(1,2)] assms(3)] by (intro put_user_inv) simp_all

definition turn_post :: "int \<Rightarrow> poll_server \<Rightarrow> int \<Rightarrow> int \<Rightarrow> poll_server \<Rightarrow> bool" where
  "turn_post l s i i' q \<longleftrightarrow> poll_inv l q \<and> 1 \<le> i' \<and> i' \<le> ps_count q + 1 \<and> 2 * (6 - i') + ps_count q < 2 * (6 - i) + ps_count s"

lemma turn_post_next:
  "poll_inv l q \<Longrightarrow> 0 \<le> i \<Longrightarrow> i \<le> ps_count s \<Longrightarrow> kept_or_one s q \<Longrightarrow> turn_post l s i (i + 1) q"
  by (auto simp: turn_post_def kept_or_one_def)

lemma turn_post_drop:
  "poll_inv l q \<Longrightarrow> 1 \<le> i \<Longrightarrow> i \<le> ps_count s \<Longrightarrow> ps_count q = ps_count s - 1 \<Longrightarrow> turn_post l s i i q"
  by (simp add: turn_post_def)

lemma dropped_count: "ps_count (dropped i s) = ps_count s - 1"
  by (simp add: dropped_def)

definition put_buf :: "int \<Rightarrow> string \<Rightarrow> poll_server \<Rightarrow> poll_server" where
  "put_buf fd bs = put_user fd (\<lambda>u. u\<lparr>cd_buf := bs @ replicate (BUFSIZE - length bs) NUL\<rparr>)"

definition received :: "int \<Rightarrow> string \<Rightarrow> poll_server \<Rightarrow> poll_server" where
  "received fd bs s = (put_buf fd bs (put_buf fd [] s))\<lparr>con_pending := con_pending s
     @ got_line (int (length bs)) (takeWhile (\<lambda>c. c \<noteq> NUL) bs) fd\<rparr>"

lemma received_inv:
  assumes "poll_inv l s" "user_fd fd" "length bs < BUFSIZE"
  shows "poll_inv l (received fd bs s)"
  using put_buf_inv [OF put_buf_inv [OF assms(1,2), of "[]"] assms(2,3)] by (simp add: received_def put_buf_def BUFSIZE_def)

lemma received_simps [simp]:
  "ps_count (received fd bs s) = ps_count s" "ps_net (received fd bs s) = ps_net s" "ps_fds (received fd bs s) = ps_fds s"
  by (simp_all add: received_def put_buf_def)

lemma recv_user_text:
  assumes inv: "poll_inv l s" and i: "1 \<le> i" "i \<le> ps_count s"
    and r: "pr_recv r (pf_fd (ent s i)) = Inr data" "take (BUFSIZE - 1) data = bs"
  shows "recv_user r i s = (if bs = [] then retp (i + 1) else thenp (broadcast_all (pf_fd (ent s i))) (retp (i + 1)))
    (received (pf_fd (ent s i)) bs s)"
proof -
  have n: "0 \<le> i" "i \<le> USER_LIMIT"
    using i poll_invD(5) [OF inv] by simp_all
  have bs: "take (BUFSIZE - Suc 0) data = bs"
    using r(2) by simp
  show ?thesis
    using r(1) n poll_invD(8) [OF inv i]
    by (simp add: recv_user_def bindp_unfold [of "get_entry i"] thenp_unfold [of "set_user fd f" for fd f]
        thenp_unfold [of "printf_stdout t" for t] set_get_eq out_eqs received_def put_buf_def put_user_def bs Let_def)
qed

lemma recv_user_ends:
  assumes inv: "poll_inv l s" and i: "1 \<le> i" "i \<le> ps_count s"
  shows "ends (turn_post l s i) (recv_user r i s)"
proof -
  let ?fd = "pf_fd (ent s i)"
  have n: "0 \<le> i" "i \<le> USER_LIMIT"
    using i poll_invD(5) [OF inv] by simp_all
  note fd = poll_invD(8) [OF inv i]
  let ?buf = "\<lambda>bs. put_user ?fd (\<lambda>u. u\<lparr>cd_buf := bs @ replicate (BUFSIZE - length bs) NUL\<rparr>)"
  have s1: "poll_inv l (?buf [] s)"
    using put_buf_inv [OF inv fd, of "[]"] by (simp add: BUFSIZE_def)
  show ?thesis
  proof (cases "pr_recv r ?fd")
    case (Inl err)
    define q where "q = (?buf [] s)\<lparr>con_pending := con_pending s @ got_line (- 1) [] ?fd\<rparr>"
    have q: "poll_inv l q" "ps_count q = ps_count s" "ps_fds q = ps_fds s"
      using s1 by (simp_all add: q_def) 
    have start: "recv_user r i s = (if err \<noteq> EAGAIN then thenp (drop_user i) (thenp (broadcast_all ?fd) (retp i)) q
        else thenp (broadcast_all ?fd) (retp (i + 1)) q)"
      using Inl n fd by (simp add: recv_user_def bindp_unfold [of "get_entry i"] thenp_unfold [of "set_user fd f" for fd f]
          thenp_unfold [of "printf_stdout t" for t] set_get_eq out_eqs q_def put_user_def Let_def)
    show ?thesis
    proof (cases "err = EAGAIN")
      case True
      then show ?thesis
        unfolding start using q i by (auto intro!: broadcast_then [OF q(1) fd] turn_post_next simp: kept_or_one_def)
    next
      case False
      have d: "drop_user i q = Ret () (dropped i q)" "poll_inv l (dropped i q)"
        using drop_user_eq [of l q i] dropped_inv [of l q i] q i by simp_all
      show ?thesis
        unfolding start using False d q i
        by (auto simp: thenp_unfold [of "drop_user i"] dropped_count
            intro!: broadcast_then [OF d(2) fd] turn_post_drop)
    qed
  next
    case (Inr data)
    define bs where "bs = take (BUFSIZE - 1) data"
    have q: "poll_inv l (received ?fd bs s)"
      by (intro received_inv inv fd) (simp add: bs_def BUFSIZE_def)
    then show ?thesis
      using recv_user_text [OF inv i Inr bs_def [symmetric]] i
      by (auto simp: kept_or_one_def intro!: broadcast_then [OF q fd] turn_post_next)
  qed
qed

definition delivered :: "int \<Rightarrow> string \<Rightarrow> poll_server \<Rightarrow> poll_server" where
  "delivered i t s = put_entry i (\<lambda>e. e\<lparr>pf_events := insert POLLIN (pf_events e - {POLLOUT})\<rparr>)
     (put_user (pf_fd (ent s i)) (\<lambda>u. u\<lparr>cd_write_buf := None\<rparr>) (s\<lparr>ps_net := ps_net s @ [Sent (pf_fd (ent s i)) t]\<rparr>))"

lemma good_user_string: "good_user u \<Longrightarrow> \<exists>t. c_string (cd_buf u) = Some t"
  by (rule c_string_nth [of "BUFSIZE - 1"]) (simp_all add: good_user_def BUFSIZE_def)

lemma pending_string:
  assumes "poll_inv l s" "user_fd fd" "cd_write_buf (usr s fd) = Some k"
  shows "user_fd (int k)" "\<exists>t. c_string (cd_buf (usr s (int k))) = Some t"
proof -
  show "user_fd (int k)"
    using poll_invD(3) [OF assms(1,2)] assms(3) by (simp add: good_user_def user_fd_def)
  then show "\<exists>t. c_string (cd_buf (usr s (int k))) = Some t"
    by (intro good_user_string poll_invD(3) [OF assms(1)])
qed

lemma send_user_eq:
  assumes inv: "poll_inv l s" and i: "1 \<le> i" "i \<le> ps_count s"
    and k: "cd_write_buf (usr s (pf_fd (ent s i))) = Some k" "c_string (cd_buf (usr s (int k))) = Some t"
      "\<not> pr_gone r (pf_fd (ent s i))"
  shows "send_user r i s = Ret () (delivered i t s)"
proof -
  have n: "0 \<le> i" "i \<le> USER_LIMIT"
    using i poll_invD(5) [OF inv] by simp_all
  note fd = poll_invD(8) [OF inv i]
  show ?thesis
    using n fd k pending_string(1) [OF inv fd k(1)]
    by (simp add: send_user_def bindp_unfold thenp_unfold set_get_eq out_eqs delivered_def put_user_def)
qed

lemma reading_after:
  assumes "poll_inv l s" "1 \<le> i" "i \<le> ps_count s"
  shows "insert POLLIN (pf_events (ent s i) - {POLLOUT}) = {POLLIN, POLLRDHUP, POLLERR}"
  using poll_invD(6) [OF assms] by (auto simp: good_entry_def)

lemma delivered_inv:
  assumes inv: "poll_inv l s" and i: "1 \<le> i" "i \<le> ps_count s"
  shows "poll_inv l (delivered i t s)"
proof -
  let ?s = "s\<lparr>ps_net := ps_net s @ [Sent (pf_fd (ent s i)) t]\<rparr>" and ?fd = "pf_fd (ent s i)"
  let ?g = "\<lambda>e. e\<lparr>pf_events := insert POLLIN (pf_events e - {POLLOUT})\<rparr>" and ?f = "\<lambda>u. u\<lparr>cd_write_buf := None\<rparr>"
  have inv': "poll_inv l ?s"
    using inv by simp
  have i': "1 \<le> i" "i \<le> ps_count ?s"
    using i by simp_all
  note fd = poll_invD(8) [OF inv i] and n = poll_invD(5) [OF inv]
  have s1: "poll_inv l (put_entry i ?g ?s)"
    using poll_invD(6) [OF inv i] reading_after [OF inv i] i
    by (intro put_entry_inv [OF inv']) (auto simp: good_entry_def)
  have "ent (put_entry i ?g ?s) j = (if j = i then ?g (ent s i) else ent s j)" if "1 \<le> j" "j \<le> ps_count s" for j
    using ent_put [OF poll_invD(2) [OF inv'], of i j ?g] that i n by simp
  then have "pf_events (ent (put_entry i ?g ?s) j) = {POLLIN, POLLRDHUP, POLLERR}"
    if "1 \<le> j" "j \<le> ps_count s" "pf_fd (ent (put_entry i ?g ?s) j) = ?fd" for j
    using that i poll_inv_distinct [OF inv, of j i] reading_after [OF inv i] by (cases "j = i") simp_all
  then have "poll_inv l (put_user ?fd ?f (put_entry i ?g ?s))"
    using poll_invD(3) [OF inv fd] fd by (intro put_user_inv [OF s1]) (auto simp: good_user_def)
  then show ?thesis
    by (simp add: delivered_def put_commute)
qed

lemma send_user_ends:
  assumes inv: "poll_inv l s" and i: "1 \<le> i" "i \<le> ps_count s"
  shows "ends (\<lambda>_ q. poll_inv l q \<and> ps_count q = ps_count s) (send_user r i s)"
proof (cases "cd_write_buf (usr s (pf_fd (ent s i)))")
  case None
  then show ?thesis
    using i inv poll_invD(5) [OF inv] poll_invD(8) [OF inv i] by (simp add: send_user_def bindp_unfold set_get_eq)
next
  case (Some k)
  obtain t where t: "c_string (cd_buf (usr s (int k))) = Some t"
    using pending_string(2) [OF inv poll_invD(8) [OF inv i] Some] by blast
  show ?thesis
  proof (cases "pr_gone r (pf_fd (ent s i))")
    case True
    then show ?thesis
      using Some t i poll_invD(5) [OF inv] poll_invD(8) [OF inv i] pending_string(1) [OF inv poll_invD(8) [OF inv i] Some]
      by (simp add: send_user_def bindp_unfold set_get_eq)
  next
    case False
    then show ?thesis
      using send_user_eq [OF inv i Some t] delivered_inv [OF inv i] by (simp add: delivered_def)
  qed
qed

lemma serve_entry_ends:
  assumes inv: "poll_inv l s" and i: "0 \<le> i" "i \<le> ps_count s"
    and fresh: "\<And>fd addr. i = 0 \<Longrightarrow> pr_accept r = Inr (fd, addr) \<Longrightarrow> fresh_user l s fd"
  shows "ends (turn_post l s i) (serve_entry strerror l r i s)"
proof -
  let ?e = "ent s i"
  have e: "get_entry i s = Ret ?e s"
    using i poll_invD(5) [OF inv] by (simp add: set_get_eq)
  have err: "ends (\<lambda>_ q. poll_inv l q \<and> kept_or_one s q) (user_error strerror r fd s)" for fd
    using inv by (simp add: user_error_def thenp_unfold out_eqs kept_or_one_def split: option.split)
  have next_turn: "ends (turn_post l s i) (thenp m (retp (i + 1)) s)"
    if "ends (\<lambda>_ q. poll_inv l q \<and> kept_or_one s q) (m s)" for m :: "(poll_server, unit) prog"
    using that i by (cases "m s") (simp_all add: thenp_unfold turn_post_next)
  have idle: "turn_post l s i (i + 1) s"
    using inv i by (intro turn_post_next) (simp_all add: kept_or_one_def)
  have err': "ends (turn_post l s i) (thenp (user_error strerror r fd) (retp (i + 1)) s)" for fd
    by (rule next_turn [of "user_error strerror r fd", OF err])
  show ?thesis
  proof (cases "i = 0")
    case True
    then have "pf_fd ?e = l" "pf_revents ?e \<subseteq> {POLLIN, POLLERR}"
      using inv by (simp_all add: poll_inv_def)
    moreover have "ends (turn_post l s i) (thenp (accept_user strerror r) (retp (i + 1)) s)"
      using fresh True by (intro next_turn accept_user_ends [OF inv]) blast
    ultimately show ?thesis
      using e err' True idle
      by (auto simp: serve_entry_def bindp_unfold)
  next
    case False
    then have i': "1 \<le> i" "i \<le> ps_count s"
      using i by simp_all
    have l: "pf_fd ?e \<noteq> l"
      using poll_invD(6) [OF inv i'] by (simp add: good_entry_def)
    have drop: "ends (turn_post l s i) (thenp (drop_user i) (thenp (printf_stdout t) (retp i)) s)" for t
      using drop_user_eq [OF inv i'] dropped_inv [OF inv i'] i'
      by (simp add: thenp_unfold out_eqs turn_post_def dropped_count)
    have "ends (\<lambda>_ q. poll_inv l q \<and> kept_or_one s q) (send_user r i s)"
      using send_user_ends [OF inv i', of r] by (cases "send_user r i s") (simp_all add: kept_or_one_def)
    then have send: "ends (turn_post l s i) (thenp (send_user r i) (retp (i + 1)) s)"
      by (rule next_turn [of "send_user r i"])
    show ?thesis
      using e l err' drop recv_user_ends [OF inv i'] send idle
      by (auto simp: serve_entry_def bindp_unfold)
  qed
qed

lemma scan_ends:
  assumes "poll_inv l s" "0 \<le> i" "i \<le> ps_count s + 1" "2 * (6 - i) + ps_count s < int k"
    "\<And>fd addr. i = 0 \<Longrightarrow> pr_accept r = Inr (fd, addr) \<Longrightarrow> fresh_user l s fd"
  shows "ends (\<lambda>_. poll_inv l) (scan strerror l r k i s)"
  using assms
proof (induction k arbitrary: i s)
  case 0
  then show ?case
    using poll_invD(5) [OF 0(1)] by (simp add: USER_LIMIT_def)
next
  case (Suc k)
  have "ends (\<lambda>_. poll_inv l) (bindp (serve_entry strerror l r i) (scan strerror l r k) s)" if "i \<le> ps_count s"
  proof (rule ends_bind [where Q = "turn_post l s i"])
    show "ends (turn_post l s i) (serve_entry strerror l r i s)"
      using Suc.prems that by (intro serve_entry_ends) simp_all
    show "ends (\<lambda>_. poll_inv l) (scan strerror l r k i' q)" if "turn_post l s i i' q" for i' q
      using that Suc.prems by (intro Suc.IH) (simp_all add: turn_post_def)
  qed
  then show ?case
    using Suc.prems(1) by (simp add: bindp_unfold [of "getsp f" for f])
qed

definition polled :: "(int \<Rightarrow> flag set) \<Rightarrow> poll_server \<Rightarrow> poll_server" where
  "polled ready s = s\<lparr>ps_fds :=
     map (\<lambda>e. e\<lparr>pf_revents := ready (pf_fd e) \<inter> insert POLLERR (pf_events e)\<rparr>) (take (nat (ps_count s + 1)) (ps_fds s))
       @ drop (nat (ps_count s + 1)) (ps_fds s)\<rparr>"

lemma polled_ent:
  assumes "poll_inv l s" "0 \<le> j" "j \<le> ps_count s"
  shows "ent (polled ready s) j = (ent s j)\<lparr>pf_revents := ready (pf_fd (ent s j)) \<inter> insert POLLERR (pf_events (ent s j))\<rparr>"
proof -
  have "length (ps_fds s) = 6" "ps_count s \<le> 5"
    using poll_invD(2,5) [OF assms(1)] by (simp_all add: sized_def USER_LIMIT_def)
  then show ?thesis
    using assms(2,3) by (simp add: polled_def nth_append nat_less_iff)
qed

lemma polled_simps [simp]:
  "ps_users (polled ready s) = ps_users s" "ps_count (polled ready s) = ps_count s" "ps_net (polled ready s) = ps_net s"
  by (simp_all add: polled_def)

lemma polled_inv:
  assumes inv: "poll_inv l s"
  shows "poll_inv l (polled ready s)"
proof -
  show ?thesis
  proof (rule poll_invI)
    show "sized (polled ready s)"
      using poll_invD(2) [OF inv] by (simp add: polled_def sized_def)
    show "good_entry l (polled ready s) (ent (polled ready s) j)" if "1 \<le> j" "j \<le> ps_count (polled ready s)" for j
      using polled_ent [OF inv, of j ready] poll_invD(6) [OF inv, of j] that by (simp add: good_entry_def)
    show "j = k" if "1 \<le> j" "j \<le> ps_count (polled ready s)" "1 \<le> k" "k \<le> ps_count (polled ready s)"
        "pf_fd (ent (polled ready s) j) = pf_fd (ent (polled ready s) k)" for j k
      using that polled_ent [OF inv, of j ready] polled_ent [OF inv, of k ready] poll_inv_distinct [OF inv, of j k]
      by (cases "j = k") simp_all
    show "pf_revents (ent (polled ready s) 0) \<subseteq> {POLLIN, POLLERR}"
      using polled_ent [OF inv order_refl poll_invD(4) [OF inv], of ready] poll_inv_first(2) [OF inv] by auto
  qed (use poll_invD(1,3) [OF inv] poll_inv_first [OF inv] polled_ent [OF inv order_refl poll_invD(4) [OF inv], of ready] in simp_all)
qed

lemma poll_server_round_eq:
  "poll_server_round strerror l r s = (case pr_ready r of
      None \<Rightarrow> Ret False (s\<lparr>con_seen := con_seen s @ [ErrText (''poll failed'' @ [NL])]\<rparr>)
    | Some ready \<Rightarrow> thenp (scan strerror l r SCAN_FUEL 0) (retp True) (polled ready s))"
  by (simp add: poll_server_round_def thenp_unfold fputs_stderr_def sys_poll_def polled_def split: option.split)

definition fresh_round :: "int \<Rightarrow> poll_round \<Rightarrow> poll_server \<Rightarrow> bool" where
  "fresh_round l r s \<longleftrightarrow> (case pr_accept r of Inl _ \<Rightarrow> True | Inr (fd, _) \<Rightarrow> fresh_user l s fd)"

lemma poll_round_safe:
  assumes inv: "poll_inv l s" and fresh: "fresh_round l r s"
  shows "safe_result (poll_inv l) (poll_server_round strerror l r s)"
proof (cases "pr_ready r")
  case (Some ready)
  have "fresh_user l (polled ready s) fd" if "pr_accept r = Inr (fd, addr)" for fd addr
    using fresh that polled_ent [OF inv, of _ ready] by (auto simp: fresh_round_def fresh_user_def)
  then have "ends (\<lambda>_. poll_inv l) (scan strerror l r SCAN_FUEL 0 (polled ready s))"
    using poll_invD(4,5) [OF inv] by (intro scan_ends polled_inv [OF inv]) (simp_all add: SCAN_FUEL_def USER_LIMIT_def)
  then show ?thesis
    using Some by (cases "scan strerror l r SCAN_FUEL 0 (polled ready s)") (simp_all add: poll_server_round_eq thenp_unfold)
qed (use inv in \<open>simp add: poll_server_round_eq\<close>)

text \<open>Each connection that the kernel accepts has a descriptor that is not in use.\<close>

fun fresh_rounds :: "(int \<Rightarrow> string) \<Rightarrow> int \<Rightarrow> poll_round list \<Rightarrow> poll_server \<Rightarrow> bool" where
  "fresh_rounds strerror l [] s \<longleftrightarrow> True"
| "fresh_rounds strerror l (r # rs) s \<longleftrightarrow> fresh_round l r s \<and>
     (case poll_server_round strerror l r s of Ret True q \<Rightarrow> fresh_rounds strerror l rs q | _ \<Rightarrow> True)"

lemma poll_serve_safe:
  "poll_inv l s \<Longrightarrow> fresh_rounds strerror l rs s \<Longrightarrow> safe_result (poll_inv l) (poll_serve strerror l rs s)"
proof (induction rs arbitrary: s)
  case (Cons r rs)
  have "safe_result (poll_inv l) (poll_server_round strerror l r s)"
    using Cons.prems by (intro poll_round_safe) simp_all
  then show ?case
    unfolding poll_serve.simps using Cons
    by (intro safe_result_bind) (auto simp: exit_process_def fflush_stdout_def thenp_unfold out_eqs)
qed simp

definition opened_room :: "int \<Rightarrow> poll_server \<Rightarrow> poll_server" where
  "opened_room l s = s\<lparr>ps_users := replicate FD_LIMIT no_user, ps_count := 0,
     ps_fds := \<lparr>pf_fd = l, pf_events = {POLLIN, POLLERR}, pf_revents = {}\<rparr>
       # replicate (nat USER_LIMIT) \<lparr>pf_fd = - 1, pf_events = {}, pf_revents = {}\<rparr>\<rparr>"

lemma opened_room_inv: "user_fd l \<Longrightarrow> poll_inv l (opened_room l s)"
  by (auto simp: poll_inv_def opened_room_def sized_def user_fd_def good_user_def no_user_def BUFSIZE_def FD_LIMIT_def
      USER_LIMIT_def)

text \<open>
  C10: whatever the users of the server over poll send, and whenever they come and go, no sequence of rounds
  runs into undefined behaviour, as long as descriptors stay below 64; the scan of the entries ends
  in every round, and after it each user has one entry, watched for reading or, with a text to be
  written, for writing.
\<close>

theorem poll_safe:
  assumes "listenfd < int FD_LIMIT" "fresh_rounds strerror listenfd rs (opened_room listenfd s)"
  shows "safe_result (poll_inv listenfd) (poll_main strerror listenfd bound listening rs s)"
proof (cases "listenfd < 0 \<or> \<not> bound \<or> \<not> listening")
  case False
  then have "poll_inv listenfd (opened_room listenfd s)"
    using assms(1) by (intro opened_room_inv) (simp add: user_fd_def)
  then show ?thesis
    using False poll_serve_safe [OF _ assms(2)] by (simp add: poll_main_def poll_init_def opened_room_def thenp_unfold)
qed (simp add: poll_main_def abort_process_def)

section \<open>A text reaches everybody else\<close>

lemma serve_entry_idle:
  assumes "poll_inv l s" "0 \<le> i" "i \<le> ps_count s" "pf_revents (ent s i) = {}"
  shows "serve_entry strerror l r i s = Ret (i + 1) s"
  using assms poll_invD(5) [OF assms(1)] by (simp add: serve_entry_def bindp_unfold set_get_eq)

lemma scan_idle:
  assumes "poll_inv l s" "0 \<le> i" "i + int m \<le> ps_count s + 1" "\<And>j. i \<le> j \<Longrightarrow> j < i + int m \<Longrightarrow> pf_revents (ent s j) = {}"
  shows "scan strerror l r (m + k) i s = scan strerror l r k (i + int m) s"
  using assms(2-)
proof (induction m arbitrary: i)
  case (Suc m)
  have "serve_entry strerror l r i s = Ret (i + 1) s"
    using Suc.prems by (intro serve_entry_idle [OF assms(1)]) simp_all
  then have "scan strerror l r (Suc m + k) i s = scan strerror l r (m + k) (i + 1) s"
    using Suc.prems(2) by (simp add: bindp_unfold)
  then show ?case
    using Suc.IH [of "i + 1"] Suc.prems by (simp add: add.assoc)
qed simp

lemma scan_end: "ps_count s < i \<Longrightarrow> scan strerror l r (Suc k) i s = Ret () s"
  by (simp add: bindp_unfold)

definition reading_events :: "flag set" where
  "reading_events = {POLLIN, POLLRDHUP, POLLERR}"

definition pending :: "poll_server \<Rightarrow> int \<Rightarrow> bool" where
  "pending s j \<longleftrightarrow> POLLOUT \<in> pf_events (ent s j)"

lemma entry_events:
  assumes "poll_inv l s" "1 \<le> j" "j \<le> ps_count s"
  shows "pf_events (ent s j) = (if pending s j then pending_events else reading_events)"
  using poll_invD(6) [OF assms] by (auto simp: good_entry_def pending_def pending_events_def reading_events_def)

text \<open>What is to be written for an entry.\<close>

definition outbox :: "poll_server \<Rightarrow> int \<Rightarrow> string option" where
  "outbox s j = (if pending s j then (case cd_write_buf (usr s (pf_fd (ent s j))) of None \<Rightarrow> None
     | Some k \<Rightarrow> c_string (cd_buf (usr s (int k)))) else None)"

definition letters :: "poll_server \<Rightarrow> int list \<Rightarrow> net list" where
  "letters s js = concat (map (\<lambda>j. case outbox s j of None \<Rightarrow> [] | Some t \<Rightarrow> [Sent (pf_fd (ent s j)) t]) js)"

text \<open>The entries before \<open>m\<close> have been served, those from \<open>m\<close> on are as they were.\<close>

definition same_user :: "client_data \<Rightarrow> client_data \<Rightarrow> bool" where
  "same_user u v \<longleftrightarrow> cd_buf v = cd_buf u \<and> cd_address v = cd_address u"

definition written :: "poll_server \<Rightarrow> int \<Rightarrow> poll_server \<Rightarrow> bool" where
  "written s m q \<longleftrightarrow> ps_count q = ps_count s \<and> ps_net q = ps_net s @ letters s [1..m - 1]
     \<and> (\<forall>j. 0 \<le> j \<longrightarrow> j \<le> ps_count s \<longrightarrow> ent q j = (if 1 \<le> j \<and> j < m then (ent s j)\<lparr>pf_events := reading_events\<rparr> else ent s j))
     \<and> (\<forall>k. user_fd k \<longrightarrow> same_user (usr s k) (usr q k))
     \<and> (\<forall>j. m \<le> j \<longrightarrow> j \<le> ps_count s \<longrightarrow> cd_write_buf (usr q (pf_fd (ent s j))) = cd_write_buf (usr s (pf_fd (ent s j))))"

lemma written_step:
  assumes inv: "poll_inv l s" and q: "poll_inv l q" "written s m q" and m: "1 \<le> m" "m \<le> ps_count s"
    and rev: "pf_revents (ent s m) = (if pending s m then {POLLOUT} else {})"
    and up: "pending s m \<Longrightarrow> \<not> pr_gone r (pf_fd (ent s m))"
  shows "\<exists>q'. serve_entry strerror l r m q = Ret (m + 1) q' \<and> poll_inv l q' \<and> written s (m + 1) q'"
proof -
  have e: "ent q m = ent s m" and c: "ps_count q = ps_count s" and m': "m \<le> ps_count q"
    using q(2) m by (simp_all add: written_def)
  have snoc: "[1..m] = [1..m - 1] @ [m]"
    using m(1) by (simp add: upto_rec2)
  show ?thesis
  proof (cases "pending s m")
    case False
    then have "serve_entry strerror l r m q = Ret (m + 1) q"
      using rev e m c by (intro serve_entry_idle [OF q(1)]) simp_all
    moreover have "letters s [1..m] = letters s [1..m - 1]"
      using False by (simp add: snoc letters_def outbox_def)
    moreover have "(ent s m)\<lparr>pf_events := reading_events\<rparr> = ent s m"
      using entry_events [OF inv m] False by simp
    ultimately show ?thesis
      using q by (intro exI [of _ q]) (auto simp: written_def)
  next
    case True
    let ?fd = "pf_fd (ent s m)"
    note fd = poll_invD(8) [OF inv m]
    obtain k where k: "cd_write_buf (usr s ?fd) = Some k"
      using poll_invD(6) [OF inv m] True by (auto simp: good_entry_def pending_def)
    obtain t where t: "c_string (cd_buf (usr s (int k))) = Some t" "user_fd (int k)"
      using pending_string [OF inv fd k] by blast
    have wb: "cd_write_buf (usr q (pf_fd (ent q m))) = Some k" "c_string (cd_buf (usr q (int k))) = Some t"
    proof -
      have "cd_buf (usr q (int k)) = cd_buf (usr s (int k))"
        using q(2) t(2) unfolding written_def same_user_def by blast
      then show "cd_write_buf (usr q (pf_fd (ent q m))) = Some k" "c_string (cd_buf (usr q (int k))) = Some t"
        using q(2) m k t(1) by (simp_all add: e written_def)
    qed
    let ?q = "delivered m t q"
    have "send_user r m q = Ret () ?q"
      using send_user_eq [OF q(1) m(1) m' wb] up [OF True] by (simp add: e)
    then have step: "serve_entry strerror l r m q = Ret (m + 1) ?q"
      using True rev e m c poll_invD(5) [OF q(1)] poll_invD(6) [OF inv m]
      by (simp add: serve_entry_def bindp_unfold set_get_eq thenp_unfold good_entry_def)
    let ?q1 = "q\<lparr>ps_net := ps_net q @ [Sent ?fd t]\<rparr>"
    have sz: "sized ?q1"
      using poll_invD(2) [OF q(1)] by (simp add: sized_def)
    have ent: "ent ?q j = (if j = m then (ent s m)\<lparr>pf_events := reading_events\<rparr> else ent q j)" if "0 \<le> j" "j \<le> ps_count s" for j
      using ent_put [of "put_user ?fd (\<lambda>u. u\<lparr>cd_write_buf := None\<rparr>) ?q1" m j] sz that m poll_invD(5) [OF inv]
        reading_after [OF inv m] by (cases "j = m") (simp_all add: delivered_def e reading_events_def)
    have usr: "usr ?q i = (if i = ?fd then (usr q i)\<lparr>cd_write_buf := None\<rparr> else usr q i)" if "user_fd i" for i
      using usr_put [OF sz fd that] by (cases "i = ?fd") (simp_all add: delivered_def e)
    have other: "pf_fd (ent s j) \<noteq> ?fd" if "m + 1 \<le> j" "j \<le> ps_count s" for j
      using poll_inv_distinct [OF inv _ that(2) m] that(1) m(1) by simp
    have "ps_net ?q = ps_net s @ letters s [1..m]"
      using q(2) True k t(1) by (simp add: delivered_def e written_def snoc letters_def outbox_def)
    moreover have "ent ?q j = (if 1 \<le> j \<and> j < m + 1 then (ent s j)\<lparr>pf_events := reading_events\<rparr> else ent s j)"
      if "0 \<le> j" "j \<le> ps_count s" for j
      using ent [OF that] q(2) m that by (cases "j = m") (simp_all add: written_def)
    moreover have "same_user (usr s i) (usr ?q i)" if "user_fd i" for i
      using usr [OF that] q(2) that by (cases "i = ?fd") (simp_all add: written_def same_user_def)
    moreover have "cd_write_buf (usr ?q (pf_fd (ent s j))) = cd_write_buf (usr s (pf_fd (ent s j)))" if "m + 1 \<le> j" "j \<le> ps_count s" for j
      using usr [of "pf_fd (ent s j)"] poll_invD(8) [OF inv, of j] other [OF that] q(2) m that by (simp add: written_def)
    moreover have "ps_count ?q = ps_count s"
      using c by (simp add: delivered_def)
    ultimately show ?thesis
      using step delivered_inv [OF q(1) m(1) m', of t] by (intro exI [of _ ?q]) (simp add: written_def)
  qed
qed

lemma written_scan:
  assumes inv: "poll_inv l s"
    and rev: "\<And>j. 1 \<le> j \<Longrightarrow> j \<le> ps_count s \<Longrightarrow> pf_revents (ent s j) = (if pending s j then {POLLOUT} else {})"
    and up: "\<And>j. 1 \<le> j \<Longrightarrow> j \<le> ps_count s \<Longrightarrow> pending s j \<Longrightarrow> \<not> pr_gone r (pf_fd (ent s j))"
    and q: "poll_inv l q" "written s m q" "1 \<le> m" "m + int n = ps_count s + 1"
  shows "\<exists>q'. scan strerror l r (n + Suc k) m q = Ret () q' \<and> poll_inv l q' \<and> written s (ps_count s + 1) q'"
  using q
proof (induction n arbitrary: m q)
  case 0
  have "ps_count q = ps_count s"
    using 0(2) by (simp add: written_def)
  then have "scan strerror l r (0 + Suc k) m q = Ret () q"
    using 0 by (simp add: bindp_unfold)
  moreover have "m = ps_count s + 1"
    using 0 by simp
  ultimately show ?case
    using 0(1,2) by auto
next
  case (Suc n)
  have m: "m \<le> ps_count s" "ps_count q = ps_count s"
    using Suc.prems by (simp_all add: written_def)
  obtain q1 where q1: "serve_entry strerror l r m q = Ret (m + 1) q1" "poll_inv l q1" "written s (m + 1) q1"
    using written_step [OF inv Suc.prems(1,2,3) m(1) rev [OF Suc.prems(3) m(1)] up [OF Suc.prems(3) m(1)]] by blast
  have "scan strerror l r (Suc n + Suc k) m q = scan strerror l r (n + Suc k) (m + 1) q1"
    using q1(1) m by (simp add: bindp_unfold)
  then show ?case
    using Suc.IH [OF q1(2,3)] Suc.prems by simp
qed

text \<open>
  A round in which every user with a text to be written can be written to sends each of them its
  text, in the order of the entries, and leaves nobody with one.
\<close>

lemma poll_delivers:
  assumes inv: "poll_inv l s" and r: "pr_ready r = Some (\<lambda>fd. if fd \<in> ws then {POLLOUT} else {})"
    and up: "\<And>j. 1 \<le> j \<Longrightarrow> j \<le> ps_count s \<Longrightarrow> pending s j \<Longrightarrow> pf_fd (ent s j) \<in> ws \<and> \<not> pr_gone r (pf_fd (ent s j))"
  shows "\<exists>q. poll_server_round strerror l r s = Ret True q \<and> poll_inv l q
    \<and> ps_net q = ps_net s @ letters s [1..ps_count s] \<and> ps_count q = ps_count s
    \<and> (\<forall>j. 1 \<le> j \<longrightarrow> j \<le> ps_count s \<longrightarrow> \<not> pending q j \<and> pf_fd (ent q j) = pf_fd (ent s j))"
proof -
  let ?ready = "\<lambda>fd. if fd \<in> ws then {POLLOUT} else {}"
  define p where "p = polled ?ready s"
  have p: "poll_inv l p" "ps_count p = ps_count s" "ps_net p = ps_net s" "ps_users p = ps_users s"
    using polled_inv [OF inv] by (simp_all add: p_def)
  have ent: "ent p j = (ent s j)\<lparr>pf_revents := ?ready (pf_fd (ent s j)) \<inter> insert POLLERR (pf_events (ent s j))\<rparr>"
    if "0 \<le> j" "j \<le> ps_count s" for j
    using polled_ent [OF inv that] by (simp add: p_def)
  have pend: "pending p j = pending s j" if "0 \<le> j" "j \<le> ps_count s" for j
    using ent [OF that] by (simp add: pending_def)
  have rev: "pf_revents (ent p j) = (if pending p j then {POLLOUT} else {})" if "1 \<le> j" "j \<le> ps_count p" for j
    using ent [of j] pend [of j] that up [of j] p(2) by (auto simp: pending_def)
  have up': "\<not> pr_gone r (pf_fd (ent p j))" if "1 \<le> j" "j \<le> ps_count p" "pending p j" for j
    using ent [of j] pend [of j] that up [of j] p(2) by simp
  have zero: "serve_entry strerror l r 0 p = Ret (0 + 1) p"
  proof (rule serve_entry_idle [OF p(1)])
    show "pf_revents (ent p 0) = {}"
      using ent [of 0] poll_invD(4) [OF inv] inv unfolding poll_inv_def by auto
  qed (use poll_invD(4) [OF p(1)] in simp_all)
  have n: "0 \<le> ps_count p" "ps_count p \<le> 5"
    using poll_invD(4,5) [OF p(1)] by (simp_all add: USER_LIMIT_def)
  have "written p 1 p"
    by (auto simp: written_def letters_def same_user_def)
  then obtain q where q: "scan strerror l r (nat (ps_count p) + Suc (18 - nat (ps_count p))) 1 p = Ret () q" "poll_inv l q"
      "written p (ps_count p + 1) q"
    using written_scan [OF p(1) rev up' p(1), of 1 "nat (ps_count p)" strerror "18 - nat (ps_count p)"] n by auto
  have "nat (ps_count p) + Suc (18 - nat (ps_count p)) = 19"
    using n by linarith
  then have "scan strerror l r (Suc 19) 0 p = Ret () q"
    using q(1) zero n by (subst scan.simps(2)) (simp add: bindp_unfold)
  then have "poll_server_round strerror l r s = Ret True q"
    using r by (simp add: poll_server_round_eq thenp_unfold p_def SCAN_FUEL_def del: scan.simps)
  moreover have "letters p [1..ps_count s] = letters s [1..ps_count s]"
    unfolding letters_def by (intro arg_cong [where f = concat] map_cong refl)
      (simp add: outbox_def ent pend p(4) split: option.split)
  ultimately show ?thesis
    using q(2,3) p ent by (auto simp: written_def pending_def reading_events_def)
qed

lemma scan_one:
  assumes inv: "poll_inv l s" and i: "1 \<le> i" "i \<le> ps_count s"
    and idle: "\<And>j. 0 \<le> j \<Longrightarrow> j \<le> ps_count s \<Longrightarrow> j \<noteq> i \<Longrightarrow> pf_revents (ent s j) = {}"
  shows "scan strerror l r SCAN_FUEL 0 s = bindp (serve_entry strerror l r i) (scan strerror l r (19 - nat i)) s"
proof -
  have n: "i \<le> 5"
    using i poll_invD(5) [OF inv] by (simp add: USER_LIMIT_def)
  have "SCAN_FUEL = nat i + Suc (19 - nat i)"
    using n i by (simp add: SCAN_FUEL_def)
  then have "scan strerror l r SCAN_FUEL 0 s = scan strerror l r (Suc (19 - nat i)) i s"
    using scan_idle [OF inv, of 0 "nat i" strerror r "Suc (19 - nat i)"] idle i by simp
  then show ?thesis
    using i by (simp add: bindp_unfold [of "getsp f" for f])
qed

text \<open>A round in which the user of entry \<open>i\<close> only is ready, and has sent a text.\<close>

definition says :: "int \<Rightarrow> string \<Rightarrow> poll_round" where
  "says fd t = \<lparr>pr_ready = Some (\<lambda>k. if k = fd then {POLLIN} else {}), pr_accept = Inl EAGAIN,
     pr_recv = (\<lambda>_. Inr t), pr_gone = (\<lambda>_. False), pr_sockopt = (\<lambda>_. None)\<rparr>"

definition text_ok :: "string \<Rightarrow> bool" where
  "text_ok t \<longleftrightarrow> t \<noteq> [] \<and> length t < BUFSIZE \<and> NUL \<notin> set t"

lemma says_round:
  assumes inv: "poll_inv l s" and i: "1 \<le> i" "i \<le> ps_count s" "\<not> pending s i" and t: "text_ok t"
  shows "\<exists>q. poll_server_round strerror l (says (pf_fd (ent s i)) t) s = Ret True q \<and> poll_inv l q
    \<and> ps_net q = ps_net s \<and> ps_count q = ps_count s
    \<and> (\<forall>j. 1 \<le> j \<longrightarrow> j \<le> ps_count s \<longrightarrow> pf_fd (ent q j) = pf_fd (ent s j)
         \<and> (if j = i then \<not> pending q j else outbox q j = Some t))"
proof -
  let ?fd = "pf_fd (ent s i)" and ?r = "says (pf_fd (ent s i)) t"
  let ?ready = "\<lambda>k. if k = ?fd then {POLLIN} else {}"
  define p where "p = polled ?ready s"
  have p: "poll_inv l p" "ps_count p = ps_count s" "ps_net p = ps_net s" "ps_users p = ps_users s"
    using polled_inv [OF inv] by (simp_all add: p_def)
  have ent: "ent p j = (ent s j)\<lparr>pf_revents := ?ready (pf_fd (ent s j)) \<inter> insert POLLERR (pf_events (ent s j))\<rparr>"
    if "0 \<le> j" "j \<le> ps_count s" for j
    using polled_ent [OF inv that] by (simp add: p_def)
  note fd = poll_invD(8) [OF inv i(1,2)]
  have l: "?fd \<noteq> l"
    using poll_invD(6) [OF inv i(1,2)] by (simp add: good_entry_def)
  have idle: "pf_revents (ent p j) = {}" if "0 \<le> j" "j \<le> ps_count p" "j \<noteq> i" for j
    using that ent [of j] p(2) poll_inv_distinct [OF inv _ _ i(1,2), of j] poll_inv_first(1) [OF inv] l
    by (cases "j = 0") simp_all
  have ei: "pf_fd (ent p i) = ?fd" "pf_revents (ent p i) = {POLLIN}"
    using ent [of i] entry_events [OF inv i(1,2)] i by (simp_all add: reading_events_def)
  define p1 where "p1 = received ?fd t p"
  have t': "length t < BUFSIZE" "take (BUFSIZE - 1) t = t" "t \<noteq> []"
    using t by (auto simp: text_ok_def)
  have p1: "poll_inv l p1" "ps_count p1 = ps_count s" "ps_net p1 = ps_net s" "ps_fds p1 = ps_fds p"
    using received_inv [OF p(1) fd t'(1)] p(2,3) by (simp_all add: p1_def)
  obtain q where q: "broadcast ?fd [1..ps_count p1] p1 = Ret () q" "poll_inv l q" "ps_net q = ps_net p1" "ps_count q = ps_count p1"
      "\<And>j. 0 \<le> j \<Longrightarrow> j \<le> ps_count p1 \<Longrightarrow> ent q j = (if j \<in> set [1..ps_count p1] \<and> pf_fd (ent p1 j) \<noteq> ?fd
         then (ent p1 j)\<lparr>pf_events := pending_events\<rparr> else ent p1 j)"
      "\<And>k. user_fd k \<Longrightarrow> usr q k = (if addressed p1 ?fd [1..ps_count p1] k
         then (usr p1 k)\<lparr>cd_write_buf := Some (nat ?fd)\<rparr> else usr p1 k)"
    using users_broadcast_effect [OF p1(1), of "[1..ps_count p1]" ?fd] fd by auto
  have "recv_user ?r i p = Ret (i + 1) q"
    using recv_user_text [OF p(1) i(1) _ _ t'(2), of ?r] i(2) p(2) ei(1) t'(3) q(1)
    by (simp add: says_def broadcast_all_def bindp_unfold thenp_unfold p1_def)
  then have serve: "serve_entry strerror l ?r i p = Ret (i + 1) q"
    using ei l i p(2) poll_invD(5) [OF p(1)] by (simp add: serve_entry_def bindp_unfold set_get_eq)
  have ent_q: "ent q j = (if j = i then ent p j else (ent p j)\<lparr>pf_events := pending_events\<rparr>)" if "1 \<le> j" "j \<le> ps_count s" for j
    using q(5) [of j] that p1(2,4) ei(1) ent [of j] poll_inv_distinct [OF inv that i(1,2)] by (cases "j = i") simp_all
  have rest: "scan strerror l ?r (19 - nat i) (i + 1) q = Ret () q"
  proof -
    have m: "i + 1 + int (nat (ps_count s - i)) = ps_count s + 1" "nat (ps_count s - i) \<le> 18 - nat i"
      using i poll_invD(5) [OF inv] by (simp_all add: USER_LIMIT_def)
    have "pf_revents (ent q j) = {}" if "i + 1 \<le> j" "j < ps_count s + 1" for j
      using ent_q [of j] idle [of j] that i p(2) by simp
    then have "scan strerror l ?r (nat (ps_count s - i) + Suc (18 - nat i - nat (ps_count s - i))) (i + 1) q = Ret () q"
      using m(1) i p1(2) q(4) by (subst scan_idle [OF q(2)]) (simp_all add: bindp_unfold)
    moreover have "nat (ps_count s - i) + Suc (18 - nat i - nat (ps_count s - i)) = 19 - nat i"
      using m(2) i poll_invD(5) [OF inv] by (simp add: USER_LIMIT_def)
    ultimately show ?thesis by (simp only:)
  qed
  have round: "poll_server_round strerror l ?r s = Ret True q"
    using scan_one [OF p(1) i(1) _ idle, of strerror ?r] i(2) p(2) serve rest
    by (simp add: poll_server_round_eq thenp_unfold p_def says_def bindp_unfold)
  have buf: "cd_buf (usr q ?fd) = t @ replicate (BUFSIZE - length t) NUL"
    using q(6) [OF fd] usr_put [OF _ fd fd, of "put_buf ?fd [] p"] poll_invD(2) [OF p(1)]
    by (simp add: p1_def received_def put_buf_def addressed_def)
  then have str: "c_string (cd_buf (usr q ?fd)) = Some t"
    unfolding buf using t t'(1) by (intro c_string_append) (simp_all add: text_ok_def)
  have "outbox q j = Some t" if j: "1 \<le> j" "j \<le> ps_count s" "j \<noteq> i" for j
  proof -
    note fdj = poll_invD(8) [OF inv j(1,2)]
    have "addressed p1 ?fd [1..ps_count p1] (pf_fd (ent s j))"
      using j p1(2,4) ent [of j] poll_inv_distinct [OF inv j(1,2) i(1,2) j(3)] unfolding addressed_def
      by (intro conjI bexI [of _ j]) simp_all
    then show ?thesis
      using ent_q [OF j(1,2)] j ent [of j] q(6) [OF fdj] str fd
      by (simp add: outbox_def pending_def pending_events_def user_fd_def)
  qed
  moreover have "pf_fd (ent q j) = pf_fd (ent s j)" if "1 \<le> j" "j \<le> ps_count s" for j
    using ent_q [OF that] ent [of j] that by (cases "j = i") simp_all
  moreover have "\<not> pending q i"
    using ent_q [OF i(1,2)] ent [of i] i by (simp add: pending_def)
  ultimately show ?thesis
    using round q(2-4) p1(2,3) by auto
qed

section \<open>Conversations\<close>

text \<open>Everybody is written to who has something pending.\<close>

definition writes :: poll_round where
  "writes = \<lparr>pr_ready = Some (\<lambda>fd. if fd \<in> UNIV then {POLLOUT} else {}), pr_accept = Inl EAGAIN,
     pr_recv = (\<lambda>_. Inr []), pr_gone = (\<lambda>_. False), pr_sockopt = (\<lambda>_. None)\<rparr>"

text \<open>The descriptors of the users in the room, in the order of the entries.\<close>

definition members :: "poll_server \<Rightarrow> int list" where
  "members s = map (\<lambda>j. pf_fd (ent s j)) [1..ps_count s]"

definition poll_quiet :: "int \<Rightarrow> poll_server \<Rightarrow> bool" where
  "poll_quiet l s \<longleftrightarrow> poll_inv l s \<and> (\<forall>j. 1 \<le> j \<longrightarrow> j \<le> ps_count s \<longrightarrow> \<not> pending s j)"

definition poll_can :: "poll_server \<Rightarrow> int \<Rightarrow> string \<Rightarrow> bool" where
  "poll_can s fd t \<longleftrightarrow> fd \<in> set (members s) \<and> text_ok t"

definition poll_say :: "(int \<Rightarrow> string) \<Rightarrow> int \<Rightarrow> int \<Rightarrow> string \<Rightarrow> (poll_server, unit) prog" where
  "poll_say strerror l fd t = poll_serve strerror l [says fd t, writes]"

definition poll_hears :: "poll_server \<Rightarrow> int \<Rightarrow> string \<Rightarrow> net list" where
  "poll_hears s fd t = map (\<lambda>k. Sent k t) (filter (\<lambda>k. k \<noteq> fd) (members s))"

lemma poll_say_heard:
  assumes quiet: "poll_quiet l s" and can: "poll_can s fd t"
  shows "\<exists>q. poll_say strerror l fd t s = Ret () q \<and> poll_quiet l q \<and> ps_net q = ps_net s @ poll_hears s fd t
    \<and> poll_can q = poll_can s \<and> poll_hears q = poll_hears s"
proof -
  have inv: "poll_inv l s" and t: "text_ok t"
    using quiet can by (simp_all add: poll_quiet_def poll_can_def)
  obtain i where i: "1 \<le> i" "i \<le> ps_count s" "pf_fd (ent s i) = fd"
    using can by (auto simp: poll_can_def members_def)
  have "\<not> pending s i"
    using quiet i by (simp add: poll_quiet_def)
  then obtain s1 where s1: "poll_server_round strerror l (says fd t) s = Ret True s1" "poll_inv l s1"
      "ps_net s1 = ps_net s" "ps_count s1 = ps_count s"
      "\<And>j. 1 \<le> j \<Longrightarrow> j \<le> ps_count s \<Longrightarrow> pf_fd (ent s1 j) = pf_fd (ent s j)
         \<and> (if j = i then \<not> pending s1 j else outbox s1 j = Some t)"
    using says_round [OF inv i(1,2) _ t, of strerror] i(3) by auto
  obtain q where q: "poll_server_round strerror l writes s1 = Ret True q" "poll_inv l q"
      "ps_net q = ps_net s1 @ letters s1 [1..ps_count s1]" "ps_count q = ps_count s1"
      "\<And>j. 1 \<le> j \<Longrightarrow> j \<le> ps_count s1 \<Longrightarrow> \<not> pending q j \<and> pf_fd (ent q j) = pf_fd (ent s1 j)"
    using poll_delivers [OF s1(2), of writes UNIV strerror] by (auto simp: writes_def)
  have "letters s1 js = map (\<lambda>k. Sent k t) (filter (\<lambda>k. k \<noteq> fd) (map (\<lambda>j. pf_fd (ent s j)) js))"
    if "\<forall>j \<in> set js. 1 \<le> j \<and> j \<le> ps_count s" for js
    using that
  proof (induction js)
    case (Cons j js)
    have j: "1 \<le> j" "j \<le> ps_count s"
      using Cons.prems by simp_all
    have "(pf_fd (ent s j) = fd) = (j = i)"
      using poll_inv_distinct [OF inv j i(1,2)] i(3) by auto
    then show ?case
      using Cons s1(5) [OF j] by (cases "j = i") (simp_all add: letters_def outbox_def)
  qed (simp add: letters_def)
  then have "letters s1 [1..ps_count s1] = poll_hears s fd t"
    by (simp add: s1(4) poll_hears_def members_def)
  moreover have "members q = members s"
    using q(4,5) s1(4,5) by (auto simp: members_def)
  moreover have "poll_say strerror l fd t s = Ret () q"
    using s1(1) q(1) by (simp add: poll_say_def bindp_unfold)
  moreover have "poll_quiet l q"
    using q(2,4,5) by (simp add: poll_quiet_def)
  ultimately show ?thesis
    using q(3) s1(3) by (auto simp: poll_can_def poll_hears_def fun_eq_iff)
qed

interpretation poll_room: chat_room "poll_quiet l" poll_can "poll_say strerror l" ps_net poll_hears for l strerror
  using poll_say_heard by unfold_locales blast

text \<open>
  C6: a conversation over poll of any length in which the users speak one at a time is heard as it is
  spoken: every text of a user goes, once and whole, to every other user, in the order in which the texts
  were said, and nothing else is sent. Each text, of 1 to 63 bytes without a NUL, takes two rounds
  (\<open>poll_say\<close>): in one the speaker alone is ready and is received, in the next everybody addressed can
  be written to. On other schedules texts can be lost (\<open>poll_last_words_lost\<close>, \<open>poll_leaver_replaced\<close>).
\<close>

theorem poll_conversation:
  assumes "poll_quiet l s" "\<And>fd t. (fd, t) \<in> set talks \<Longrightarrow> fd \<in> set (members s) \<and> text_ok t"
  shows "\<exists>q. talk (poll_say strerror l) talks s = Ret () q \<and> poll_quiet l q
    \<and> ps_net q = ps_net s @ concat (map (\<lambda>(fd, t). map (\<lambda>k. Sent k t) (filter (\<lambda>k. k \<noteq> fd) (members s))) talks)"
  using poll_room.talk_heard [OF assms(1), of talks strerror] assms(2) by (simp add: poll_can_def poll_hears_def)

section \<open>What goes wrong\<close>

text \<open>
  A user that sends a text and hangs up before the next round is only seen to hang up: the text is
  never read, and nobody hears it.
\<close>

theorem poll_last_words_lost:
  assumes inv: "poll_inv l s" and i: "1 \<le> i" "i \<le> ps_count s" "\<not> pending s i"
    and r: "pr_ready r = Some (\<lambda>k. if k = pf_fd (ent s i) then {POLLIN, POLLRDHUP} else {})"
  shows "\<exists>q. poll_server_round strerror l r s = Ret True q \<and> poll_inv l q \<and> ps_count q = ps_count s - 1
    \<and> ps_net q = ps_net s @ [Closed (pf_fd (ent s i))]"
proof -
  let ?fd = "pf_fd (ent s i)"
  let ?ready = "\<lambda>k. if k = ?fd then {POLLIN, POLLRDHUP} else {}"
  define p where "p = polled ?ready s"
  have p: "poll_inv l p" "ps_count p = ps_count s" "ps_net p = ps_net s"
    using polled_inv [OF inv] by (simp_all add: p_def)
  have ent: "ent p j = (ent s j)\<lparr>pf_revents := ?ready (pf_fd (ent s j)) \<inter> insert POLLERR (pf_events (ent s j))\<rparr>"
    if "0 \<le> j" "j \<le> ps_count s" for j
    using polled_ent [OF inv that] by (simp add: p_def)
  have l: "?fd \<noteq> l"
    using poll_invD(6) [OF inv i(1,2)] by (simp add: good_entry_def)
  have idle: "pf_revents (ent p j) = {}" if "0 \<le> j" "j \<le> ps_count p" "j \<noteq> i" for j
    using that ent [of j] p(2) poll_inv_distinct [OF inv _ _ i(1,2), of j] poll_inv_first(1) [OF inv] l
    by (cases "j = 0") simp_all
  have ei: "pf_fd (ent p i) = ?fd" "pf_revents (ent p i) = {POLLIN, POLLRDHUP}"
    using ent [of i] entry_events [OF inv i(1,2)] i by (simp_all add: reading_events_def)
  define d where "d = (dropped i p)\<lparr>con_pending := con_pending (dropped i p) @ ''a client left'' @ [NL]\<rparr>"
  have i': "1 \<le> i" "i \<le> ps_count p"
    using i p(2) by simp_all
  have d: "poll_inv l d" "ps_count d = ps_count s - 1" "ps_net d = ps_net s @ [Closed ?fd]"
    using dropped_inv [OF p(1) i'] p(2,3) ei(1) by (simp_all add: d_def dropped_count) (simp add: dropped_def)
  have serve: "serve_entry strerror l r i p = Ret i d"
    using drop_user_eq [OF p(1) i'] ei l i' poll_invD(5) [OF p(1)]
    by (simp add: serve_entry_def bindp_unfold thenp_unfold set_get_eq out_eqs d_def)
  have rest: "pf_revents (ent d j) = {}" if "i \<le> j" "j \<le> ps_count d" for j
  proof -
    have "ent d j = ent p (if j = i then ps_count p else j)"
      using dropped_ent [OF p(1) i', of j] that d(2) p(2) i by (cases "j = i") (simp_all add: d_def)
    then show ?thesis
      using idle [of "if j = i then ps_count p else j"] that d(2) p(2) i by (cases "j = i") simp_all
  qed
  have "scan strerror l r (19 - nat i) i d = Ret () d"
  proof -
    have n: "nat (ps_count s - i) + Suc (18 - nat i - nat (ps_count s - i)) = 19 - nat i"
      "i + int (nat (ps_count s - i)) = ps_count d + 1"
      using i d(2) poll_invD(5) [OF inv] by (simp_all add: USER_LIMIT_def)
    have "scan strerror l r (nat (ps_count s - i) + Suc (18 - nat i - nat (ps_count s - i))) i d = Ret () d"
      using n(2) i rest by (subst scan_idle [OF d(1)]) (simp_all add: bindp_unfold)
    then show ?thesis
      by (simp only: n(1))
  qed
  then have "poll_server_round strerror l r s = Ret True d"
    using scan_one [OF p(1) i' idle, of strerror r] serve r by (simp add: poll_server_round_eq thenp_unfold p_def bindp_unfold)
  then show ?thesis
    using d by blast
qed

text \<open>
  A text that is still to be written when its speaker leaves: the slot of the speaker gets a copy of that of
  the last entry, so the others are sent what the user of that entry has said last.
\<close>

lemma poll_leaver_replaced:
  assumes inv: "poll_inv l s" and i: "1 \<le> i" "i \<le> ps_count s"
    and k: "user_fd k" "k \<noteq> pf_fd (ent s i)" "cd_write_buf (usr s k) = Some (nat (pf_fd (ent s i)))"
  shows "cd_write_buf (usr (dropped i s) k) = Some (nat (pf_fd (ent s i)))"
    "cd_buf (usr (dropped i s) (pf_fd (ent s i))) = cd_buf (usr s (pf_fd (ent s (ps_count s))))"
proof -
  note fd = poll_invD(8) [OF inv i]
  have "sized (s\<lparr>ps_net := x\<rparr>)" for x
    using poll_invD(2) [OF inv] by (simp add: sized_def)
  then have "usr (dropped i s) m = (if m = pf_fd (ent s i) then usr s (pf_fd (ent s (ps_count s))) else usr s m)" if "user_fd m" for m
    using usr_put [OF _ fd that] by (simp add: dropped_def)
  then show "cd_write_buf (usr (dropped i s) k) = Some (nat (pf_fd (ent s i)))"
    "cd_buf (usr (dropped i s) (pf_fd (ent s i))) = cd_buf (usr s (pf_fd (ent s (ps_count s))))"
    using k fd by simp_all
qed

section \<open>A room of three\<close>

definition empty_server :: poll_server where
  "empty_server = \<lparr>con_seen = [], con_pending = [], con_errno = 0, con_dumpcore = None, ps_users = [], ps_fds = [],
     ps_count = 0, ps_net = []\<rparr>"

definition three :: poll_server where
  "three = admitted 6 ([], 0) (admitted 5 ([], 0) (admitted 4 ([], 0) (opened_room 3 empty_server)))"

lemma three_fds:
  "ps_fds three = [\<lparr>pf_fd = 3, pf_events = {POLLIN, POLLERR}, pf_revents = {}\<rparr>,
     \<lparr>pf_fd = 4, pf_events = {POLLIN, POLLRDHUP, POLLERR}, pf_revents = {}\<rparr>,
     \<lparr>pf_fd = 5, pf_events = {POLLIN, POLLRDHUP, POLLERR}, pf_revents = {}\<rparr>,
     \<lparr>pf_fd = 6, pf_events = {POLLIN, POLLRDHUP, POLLERR}, pf_revents = {}\<rparr>,
     \<lparr>pf_fd = - 1, pf_events = {}, pf_revents = {}\<rparr>, \<lparr>pf_fd = - 1, pf_events = {}, pf_revents = {}\<rparr>]"
  "ps_count three = 3" "ps_net three = []"
  by (simp_all add: three_def admitted_def opened_room_def put_entry_def put_user_def empty_server_def USER_LIMIT_def
      numeral_eq_Suc)

lemma three_inv: "poll_inv 3 three"
proof -
  have u: "user_fd 3" "user_fd 4" "user_fd 5" "user_fd 6"
    by (simp_all add: user_fd_def FD_LIMIT_def)
  let ?s0 = "opened_room 3 empty_server"
  let ?s1 = "admitted 4 ([], 0) ?s0"
  let ?s2 = "admitted 5 ([], 0) ?s1"
  have s0: "poll_inv 3 ?s0"
    using u by (intro opened_room_inv)
  have s1: "poll_inv 3 ?s1"
    using u by (intro admitted_inv [OF s0]) (auto simp: fresh_user_def opened_room_def USER_LIMIT_def)
  have s2: "poll_inv 3 ?s2"
    using u by (intro admitted_inv [OF s1])
      (auto simp: fresh_user_def admitted_def put_entry_def put_user_def opened_room_def USER_LIMIT_def)
  have "fresh_user 3 ?s2 6"
    unfolding fresh_user_def
  proof (intro conjI allI impI)
    fix j :: int assume j: "1 \<le> j" "j \<le> ps_count ?s2"
    have "j = 1 \<or> j = 2"
      using j by (auto simp: admitted_def opened_room_def)
    then show "pf_fd (ent ?s2 j) \<noteq> 6"
      by (auto simp: admitted_def put_entry_def put_user_def opened_room_def USER_LIMIT_def numeral_eq_Suc)
  qed (use u in simp_all)
  then show ?thesis
    unfolding three_def by (rule admitted_inv [OF s2]) (simp add: admitted_def opened_room_def USER_LIMIT_def)
qed

lemma three_entries: "1 \<le> j \<Longrightarrow> j \<le> 3 \<Longrightarrow> ent three j = \<lparr>pf_fd = j + 3, pf_events = reading_events, pf_revents = {}\<rparr>"
proof -
  assume "1 \<le> j" "j \<le> 3"
  then have "j = 1 \<or> j = 2 \<or> j = 3" by auto
  then show ?thesis
    by (auto simp: three_fds reading_events_def numeral_eq_Suc)
qed

lemma three_quiet: "poll_quiet 3 three" "members three = [4, 5, 6]"
proof -
  have "\<not> pending three j" if "1 \<le> j" "j \<le> 3" for j
    using three_entries [OF that] by (simp add: pending_def reading_events_def)
  then show "poll_quiet 3 three"
    using three_inv by (simp add: poll_quiet_def three_fds(2))
  have "[1..3] = [1, 2, 3 :: int]"
    by (simp add: upto.simps)
  then show "members three = [4, 5, 6]"
    using three_entries [of 1] three_entries [of 2] three_entries [of 3] by (simp add: members_def three_fds(2))
qed

theorem poll_safe_witness:
  "safe_result (poll_inv 3) (poll_main (\<lambda>_. []) 3 True True
     [\<lparr>pr_ready = Some (\<lambda>_. {POLLIN}), pr_accept = Inr (4, [], 0), pr_recv = (\<lambda>_. Inr []), pr_gone = (\<lambda>_. True),
       pr_sockopt = (\<lambda>_. None)\<rparr>] empty_server)"
  by (rule poll_safe) (auto simp: FD_LIMIT_def fresh_round_def fresh_user_def user_fd_def opened_room_def
      split: result.split bool.split)

theorem poll_conversation_witness:
  "\<exists>q. talk (poll_say (\<lambda>_. []) 3) [(4, ''hello''), (5, ''hi'')] three = Ret () q
     \<and> ps_net q = [Sent 5 ''hello'', Sent 6 ''hello'', Sent 4 ''hi'', Sent 6 ''hi'']"
proof -
  have "fd \<in> set (members three) \<and> text_ok t" if "(fd, t) \<in> set [(4, ''hello''), (5, ''hi'')]" for fd t
    using that by (auto simp: three_quiet(2) text_ok_def BUFSIZE_def NUL_def)
  then have "\<exists>q. talk (poll_say (\<lambda>_. []) 3) [(4, ''hello''), (5, ''hi'')] three = Ret () q \<and> poll_quiet 3 q
    \<and> ps_net q = ps_net three @ concat (map (\<lambda>(fd, t). map (\<lambda>k. Sent k t) (filter (\<lambda>k. k \<noteq> fd) (members three)))
        [(4, ''hello''), (5, ''hi'')])"
    by (intro poll_conversation three_quiet(1))
  then show ?thesis
    by (auto simp: three_quiet(2) three_fds(3) simp del: talk.simps)
qed

theorem poll_last_words_lost_witness:
  "\<exists>q. poll_server_round (\<lambda>_. []) 3 \<lparr>pr_ready = Some (\<lambda>k. if k = 4 then {POLLIN, POLLRDHUP} else {}), pr_accept = Inl 0,
       pr_recv = (\<lambda>_. Inr ''bye''), pr_gone = (\<lambda>_. False), pr_sockopt = (\<lambda>_. None)\<rparr> three = Ret True q
     \<and> ps_net q = [Closed 4]"
proof -
  let ?r = "\<lparr>pr_ready = Some (\<lambda>k. if k = 4 then {POLLIN, POLLRDHUP} else {}), pr_accept = Inl 0,
       pr_recv = (\<lambda>_. Inr ''bye''), pr_gone = (\<lambda>_. False), pr_sockopt = (\<lambda>_. None)\<rparr>"
  have e: "ent three 1 = \<lparr>pf_fd = 4, pf_events = reading_events, pf_revents = {}\<rparr>"
    using three_entries [of 1] by simp
  have "\<not> pending three 1" "1 \<le> ps_count three"
    by (simp_all add: pending_def e reading_events_def three_fds(2) del: One_nat_def nat_1)
  then show ?thesis
    using poll_last_words_lost [OF three_inv, of 1 ?r "\<lambda>_. []"] by (auto simp: e three_fds(3) simp del: One_nat_def nat_1)
qed

end
