(* ===== verification/Get_Num.thy ===== *)
theory Get_Num
  imports Error_Report
begin

text \<open>
  lib/get_num.c: numeric command-line arguments. \<open>strtol\<close> of the C library is written out for the bases
  that the source asks for: blanks, a sign, a prefix, digits, and the first character that is
  none; a \<open>long\<close> is 64 bits wide and a value outside is cut to its range with \<open>ERANGE\<close>.
\<close>

unbundle bit_operations_syntax

section \<open>strtol\<close>

definition is_blank :: "char \<Rightarrow> bool" where
  "is_blank c = (c = CHR '' '' \<or> 9 \<le> (of_char c :: nat) \<and> (of_char c :: nat) \<le> 13)"

definition digit_of :: "char \<Rightarrow> nat option" where
  "digit_of c = (let n = of_char c :: nat in
     if 48 \<le> n \<and> n \<le> 57 then Some (n - 48)
     else if 65 \<le> n \<and> n \<le> 90 then Some (n - 55)
     else if 97 \<le> n \<and> n \<le> 122 then Some (n - 87)
     else None)"

definition is_digit_in :: "nat \<Rightarrow> char \<Rightarrow> bool" where
  "is_digit_in base c = (case digit_of c of None \<Rightarrow> False | Some d \<Rightarrow> d < base)"

definition digits_value :: "nat \<Rightarrow> string \<Rightarrow> nat" where
  "digits_value base s = foldl (\<lambda>v c. v * base + (case digit_of c of None \<Rightarrow> 0 | Some d \<Rightarrow> d)) 0 s"

definition LONG_MAX :: int where "LONG_MAX = 2 ^ 63 - 1"
definition LONG_MIN :: int where "LONG_MIN = - (2 ^ 63)"
definition ERANGE :: int where "ERANGE = 34"

text \<open>The base that is used and where its digits begin, behind blanks and sign.\<close>

definition number_base :: "nat \<Rightarrow> string \<Rightarrow> nat \<times> string" where
  "number_base base s =
     (if (base = 0 \<or> base = 16) \<and> (take 2 s = ''0x'' \<or> take 2 s = ''0X'') \<and> drop 2 s \<noteq> [] \<and> is_digit_in 16 (s ! 2)
      then (16, drop 2 s)
      else if base = 0 then (if take 1 s = ''0'' then 8 else 10, s)
      else (base, s))"

text \<open>The result, the rest of the string at \<open>endptr\<close>, and what \<open>errno\<close> is set to, if it is.\<close>

definition strtol :: "nat \<Rightarrow> string \<Rightarrow> int \<times> string \<times> int option" where
  "strtol base arg =
     (let s = dropWhile is_blank arg;
          neg = (take 1 s = ''-'');
          s1 = (if take 1 s = ''-'' \<or> take 1 s = ''+'' then drop 1 s else s);
          (b, s2) = number_base base s1;
          ds = takeWhile (is_digit_in b) s2;
          v = (if neg then - int (digits_value b ds) else int (digits_value b ds))
      in if ds = [] then (0, arg, None)
         else if v > LONG_MAX then (LONG_MAX, dropWhile (is_digit_in b) s2, Some ERANGE)
         else if v < LONG_MIN then (LONG_MIN, dropWhile (is_digit_in b) s2, Some ERANGE)
         else (v, dropWhile (is_digit_in b) s2, None))"

section \<open>The arguments\<close>

definition GN_NONNEG :: "32 word" where "GN_NONNEG = 1"
definition GN_GT_0 :: "32 word" where "GN_GT_0 = 2"
definition GN_ANY_BASE :: "32 word" where "GN_ANY_BASE = 64"
definition GN_BASE_8 :: "32 word" where "GN_BASE_8 = 128"
definition GN_BASE_16 :: "32 word" where "GN_BASE_16 = 256"

text \<open>A pointer to a string is None for a null pointer.\<close>

definition gnFail :: "string \<Rightarrow> string \<Rightarrow> string option \<Rightarrow> string option \<Rightarrow> ('z console_scheme, 'a) prog" where
  "gnFail fname msg arg name =
     thenp (fputs_stderr (fname @ '' error''))
     (thenp (case name of None \<Rightarrow> retp () | Some n \<Rightarrow> fputs_stderr ('' (in '' @ n @ '')''))
     (thenp (fputs_stderr ('': '' @ msg @ [NL]))
     (thenp (case arg of None \<Rightarrow> retp ()
             | Some a \<Rightarrow> if a \<noteq> [] then fputs_stderr (''        offending text: '' @ a @ [NL]) else retp ())
       (exit_process 1))))"

definition getNum :: "string \<Rightarrow> string option \<Rightarrow> 32 word \<Rightarrow> string option \<Rightarrow> ('z console_scheme, int) prog" where
  "getNum fname arg flags name =
     (case arg of
        None \<Rightarrow> gnFail fname ''null or empty string'' arg name
      | Some a \<Rightarrow>
          if a = [] then gnFail fname ''null or empty string'' arg name
          else
            let base = (if flags AND GN_ANY_BASE \<noteq> 0 then 0 else if flags AND GN_BASE_8 \<noteq> 0 then 8
                        else if flags AND GN_BASE_16 \<noteq> 0 then 16 else 10);
                (res, rest, err) = strtol base a in
            thenp (modifyp (\<lambda>w. w\<lparr>con_errno := (case err of None \<Rightarrow> 0 | Some e \<Rightarrow> e)\<rparr>))
            (if err \<noteq> None then gnFail fname ''strtol() failed'' arg name
             else if rest \<noteq> [] then gnFail fname ''nonnumeric characters'' arg name
             else if flags AND GN_NONNEG \<noteq> 0 \<and> res < 0 then gnFail fname ''negative value not allowed'' arg name
             else if flags AND GN_GT_0 \<noteq> 0 \<and> res \<le> 0 then gnFail fname ''value must be > 0'' arg name
             else retp res))"

definition getLong :: "string option \<Rightarrow> 32 word \<Rightarrow> string option \<Rightarrow> ('z console_scheme, int) prog" where
  "getLong arg flags name = getNum ''getLong'' arg flags name"

definition INT_MAX :: int where "INT_MAX = 2 ^ 31 - 1"
definition INT_MIN :: int where "INT_MIN = - (2 ^ 31)"

definition getInt :: "string option \<Rightarrow> 32 word \<Rightarrow> string option \<Rightarrow> ('z console_scheme, int) prog" where
  "getInt arg flags name =
     bindp (getNum ''getInt'' arg flags name) (\<lambda>res.
       if res > INT_MAX \<or> res < INT_MIN then gnFail ''getInt'' ''integer out of range'' arg name
       else retp res)"

section \<open>Digits\<close>

lemma gnFail_Exit: "\<exists>w'. gnFail f m arg name w = Exit 1 w'"
  by (cases name; cases arg) (simp_all add: gnFail_def thenp_unfold fputs_stderr_def exit_process_def fflush_stdout_def)

lemma digit_of_char: "d < 10 \<Longrightarrow> digit_of (char_of (48 + d :: nat)) = Some d"
  by (simp add: digit_of_def of_char_digit)

lemma digit_in_char: "d < b \<Longrightarrow> d < 10 \<Longrightarrow> is_digit_in b (char_of (48 + d :: nat))"
  by (simp add: is_digit_in_def digit_of_char)

lemma digits_value_snoc:
  "digits_value b (s @ [c]) = digits_value b s * b + (case digit_of c of None \<Rightarrow> 0 | Some d \<Rightarrow> d)"
  by (simp add: digits_value_def)

lemma dec_reads: "digits_value 10 (dec n) = n \<and> list_all (is_digit_in 10) (dec n)"
proof (induction n rule: dec.induct)
  case (1 n)
  show ?case
  proof (cases "n < 10")
    case True
    then show ?thesis
      by (subst (1 2) dec.simps) (simp add: digits_value_def digit_in_char digit_of_char)
  next
    case False
    then show ?thesis
      using 1 digit_of_char [of "n mod 10"]
      by (subst (1 2) dec.simps) (simp add: digits_value_snoc digit_in_char)
  qed
qed

lemma oct_reads: "digits_value 8 (octs n) = n \<and> list_all (is_digit_in 8) (octs n)"
proof (induction n rule: octs.induct)
  case (1 n)
  show ?case
  proof (cases "n < 8")
    case True
    then show ?thesis
      by (subst (1 2) octs.simps) (simp add: digits_value_def digit_in_char digit_of_char)
  next
    case False
    have "n mod 8 < 10" by (rule less_le_trans [of _ 8]) simp_all
    with False show ?thesis
      using 1 digit_of_char [of "n mod 8"]
      by (subst (1 2) octs.simps) (simp add: digits_value_snoc digit_in_char)
  qed
qed

text \<open>Digits of a base do not look like blanks or signs.\<close>

lemma digit_plain:
  assumes "is_digit_in b c"
  shows "\<not> is_blank c" "c \<noteq> CHR ''-''" "c \<noteq> CHR ''+''"
proof -
  have "48 \<le> (of_char c :: nat)"
    using assms by (auto simp: is_digit_in_def digit_of_def Let_def split: option.splits if_splits)
  then show "\<not> is_blank c" "c \<noteq> CHR ''-''" "c \<noteq> CHR ''+''"
    by (auto simp: is_blank_def)
qed

lemma strtol_digits:
  assumes "list_all (is_digit_in b) ds" "ds \<noteq> []" "b = 8 \<or> b = 10" "base = b"
  shows "int (digits_value b ds) \<le> LONG_MAX \<Longrightarrow> strtol base ds = (int (digits_value b ds), [], None)"
    and "LONG_MIN \<le> - int (digits_value b ds) \<Longrightarrow> strtol base (CHR ''-'' # ds) = (- int (digits_value b ds), [], None)"
proof -
  obtain c cs where ds: "ds = c # cs" using assms(2) by (cases ds) auto
  then have c: "\<not> is_blank c" "c \<noteq> CHR ''-''" "c \<noteq> CHR ''+''"
    using digit_plain [of b c] assms(1) by auto
  have all: "takeWhile (is_digit_in b) ds = ds" "dropWhile (is_digit_in b) ds = []"
    using assms(1) by (simp_all add: list_all_iff takeWhile_eq_all_conv dropWhile_eq_Nil_conv)
  have nb: "number_base base ds = (b, ds)"
    using assms(3,4) by (auto simp: number_base_def)
  have minus: "\<not> is_blank (CHR ''-'')"
    by (simp add: is_blank_def)
  show "strtol base ds = (int (digits_value b ds), [], None)" if "int (digits_value b ds) \<le> LONG_MAX"
    using that c all nb ds by (simp add: strtol_def Let_def LONG_MIN_def)
  show "strtol base (CHR ''-'' # ds) = (- int (digits_value b ds), [], None)" if "LONG_MIN \<le> - int (digits_value b ds)"
    using that c all nb ds minus by (simp add: strtol_def Let_def LONG_MAX_def)
qed

lemma strtol_dec_int:
  assumes "LONG_MIN \<le> i" "i \<le> LONG_MAX"
  shows "strtol 10 (dec_int i) = (i, [], None)"
proof -
  have ds: "list_all (is_digit_in 10) (dec n)" "dec n \<noteq> []" "digits_value 10 (dec n) = n" for n
    using dec_reads [of n] by auto
  show ?thesis
    using strtol_digits [OF ds(1,2), of 10] ds(3) assms by (auto simp: dec_int_def)
qed

lemma dec_int_no_option: "LONG_MIN \<le> i \<Longrightarrow> i \<le> LONG_MAX \<Longrightarrow> dec_int i \<noteq> ''--help''"
proof
  assume i: "LONG_MIN \<le> i" "i \<le> LONG_MAX" "dec_int i = ''--help''"
  have "strtol 10 ''--help'' = (0, ''--help'', None)" by code_simp
  then show False using strtol_dec_int [OF i(1,2)] i(3) by simp
qed

lemma getInt_dec:
  assumes "INT_MIN \<le> i" "i \<le> INT_MAX" "flags = 0 \<or> flags = GN_GT_0 \<and> 0 < i"
  shows "getInt (Some (dec_int i)) flags name w = Ret i (w\<lparr>con_errno := 0\<rparr>)"
proof -
  have "strtol 10 (dec_int i) = (i, [], None)" "dec_int i \<noteq> []"
    using strtol_dec_int [of i] assms by (auto simp: dec_int_def INT_MIN_def INT_MAX_def LONG_MIN_def LONG_MAX_def)
  then show ?thesis
    using assms by (auto simp: getInt_def getNum_def bindp_unfold thenp_unfold GN_NONNEG_def GN_GT_0_def GN_ANY_BASE_def GN_BASE_8_def GN_BASE_16_def)
qed

text \<open>What \<open>getNum\<close> can do.\<close>

lemma getNum_cases:
  obtains v where "getNum f arg flags name w = Exit 1 v"
  | i a v base where "getNum f arg flags name w = Ret i v" "arg = Some a" "a \<noteq> []" "strtol base a = (i, [], None)"
    "flags AND GN_NONNEG = 0 \<or> 0 \<le> i" "flags AND GN_GT_0 = 0 \<or> 0 < i"
proof (cases "arg = None \<or> arg = Some []")
  case True
  then have "getNum f arg flags name w = gnFail f ''null or empty string'' arg name w"
    by (auto simp: getNum_def)
  then show ?thesis using that(1) gnFail_Exit by metis
next
  case False
  then obtain a where a: "arg = Some a" "a \<noteq> []" by (cases arg) auto
  define base :: nat where "base = (if flags AND GN_ANY_BASE \<noteq> 0 then 0 else if flags AND GN_BASE_8 \<noteq> 0 then 8
                        else if flags AND GN_BASE_16 \<noteq> 0 then 16 else 10)"
  obtain res rest err where s: "strtol base a = (res, rest, err)" by (cases "strtol base a")
  define v where "v = w\<lparr>con_errno := (case err of None \<Rightarrow> 0 | Some e \<Rightarrow> e)\<rparr>"
  have run: "getNum f arg flags name w =
     (if err \<noteq> None then gnFail f ''strtol() failed'' arg name
      else if rest \<noteq> [] then gnFail f ''nonnumeric characters'' arg name
      else if flags AND GN_NONNEG \<noteq> 0 \<and> res < 0 then gnFail f ''negative value not allowed'' arg name
      else if flags AND GN_GT_0 \<noteq> 0 \<and> res \<le> 0 then gnFail f ''value must be > 0'' arg name
      else retp res) v"
    using a s by (simp add: getNum_def base_def [symmetric] thenp_unfold v_def)
  show ?thesis
  proof (cases "err \<noteq> None \<or> rest \<noteq> [] \<or> flags AND GN_NONNEG \<noteq> 0 \<and> res < 0 \<or> flags AND GN_GT_0 \<noteq> 0 \<and> res \<le> 0")
    case True
    then obtain m where "getNum f arg flags name w = gnFail f m arg name v"
      using run by (auto split: if_splits)
    then show ?thesis using that(1) gnFail_Exit by metis
  next
    case False
    then show ?thesis using that(2) [of res v a base] run a s by auto
  qed
qed

section \<open>Properties\<close>

text \<open>
  C36: an integer that is printed in decimal is read back: by getInt when it fits an int, by
  getLong when it fits a long; and an octal number is read back with \<open>GN_BASE_8\<close>.
\<close>

theorem getnum_roundtrip:
  assumes "LONG_MIN \<le> i" "i \<le> LONG_MAX" "int n \<le> LONG_MAX"
  shows "getLong (Some (dec_int i)) 0 name w = Ret i (w\<lparr>con_errno := 0\<rparr>)
    \<and> (INT_MIN \<le> i \<and> i \<le> INT_MAX \<longrightarrow> getInt (Some (dec_int i)) 0 name w = Ret i (w\<lparr>con_errno := 0\<rparr>))
    \<and> getLong (Some (octs n)) GN_BASE_8 name w = Ret (int n) (w\<lparr>con_errno := 0\<rparr>)"
proof -
  have "strtol 8 (octs n) = (int n, [], None)"
    using strtol_digits(1) [of 8 "octs n" 8] oct_reads [of n] assms(3) by simp
  moreover have "dec_int i \<noteq> []"
    by (simp add: dec_int_def)
  ultimately show ?thesis
    using strtol_dec_int [OF assms(1,2)]
    by (simp add: getLong_def getInt_def getNum_def bindp_unfold thenp_unfold GN_BASE_8_def GN_ANY_BASE_def
        GN_NONNEG_def GN_GT_0_def)
qed

text \<open>The base that lib/get_num.h documents for the flags, bit by bit, and the integers that they allow.\<close>

definition flag_base :: "32 word \<Rightarrow> nat" where
  "flag_base flags = (if bit flags 6 then 0 else if bit flags 7 then 8 else if bit flags 8 then 16 else 10)"

definition flag_allows :: "32 word \<Rightarrow> int \<Rightarrow> bool" where
  "flag_allows flags i = (- (2 ^ 31) \<le> i \<and> i < 2 ^ 31 \<and> (bit flags 0 \<longrightarrow> 0 \<le> i) \<and> (bit flags 1 \<longrightarrow> 0 < i))"

text \<open>
  C37: getInt as a whole. The base follows from the flags as lib/get_num.h documents them, bit by bit: any base as the prefix says, else 8, else 16, else 10. A string that
  is the number \<open>i\<close> in this base, whole and without rest, in the range of an \<open>int\<close> and of the sign that the flags ask for is returned as \<open>i\<close>,
  and every other argument, a null pointer included, ends the process with status 1.
\<close>

theorem getint_type:
  "if arg \<noteq> None \<and> the arg \<noteq> [] \<and> (\<exists>i. strtol (flag_base flags) (the arg) = (i, [], None) \<and> flag_allows flags i)
     then getInt arg flags name w = Ret (fst (strtol (flag_base flags) (the arg))) (w\<lparr>con_errno := 0\<rparr>)
     else \<exists>w'. getInt arg flags name w = Exit 1 w'"
proof -
  define base where "base = flag_base flags"
  have fl: "flags AND GN_ANY_BASE \<noteq> 0 \<longleftrightarrow> bit flags 6" "flags AND GN_BASE_8 \<noteq> 0 \<longleftrightarrow> bit flags 7" "flags AND GN_BASE_16 \<noteq> 0 \<longleftrightarrow> bit flags 8"
      "flags AND GN_NONNEG \<noteq> 0 \<longleftrightarrow> bit flags 0" "flags AND GN_GT_0 \<noteq> 0 \<longleftrightarrow> bit flags 1"
    using and_exp_eq_0_iff_not_bit [of flags 6] and_exp_eq_0_iff_not_bit [of flags 7] and_exp_eq_0_iff_not_bit [of flags 8]
      and_exp_eq_0_iff_not_bit [of flags 0] and_exp_eq_0_iff_not_bit [of flags 1]
    by (simp_all add: GN_ANY_BASE_def GN_BASE_8_def GN_BASE_16_def GN_NONNEG_def GN_GT_0_def)
  have failing: "\<exists>w'. getInt arg flags name w = Exit 1 w'" if "getNum ''getInt'' arg flags name w = gnFail ''getInt'' t arg name v" for t v
  proof -
    obtain w' where "(gnFail ''getInt'' t arg name v :: (_, int) result) = Exit 1 w'"
      using gnFail_Exit by blast
    then show ?thesis using that by (auto simp: getInt_def bindp_unfold)
  qed
  show ?thesis
  proof (cases "arg = None \<or> arg = Some []")
    case True
    then have "getNum ''getInt'' arg flags name w = gnFail ''getInt'' ''null or empty string'' arg name w"
      by (auto simp: getNum_def)
    then have "\<exists>w'. getInt arg flags name w = Exit 1 w'"
      by (rule failing)
    then show ?thesis using True by (subst if_not_P) auto
  next
    case False
    then obtain a where a: "arg = Some a" "a \<noteq> []" by (cases arg) auto
    obtain i rest err where s: "strtol base a = (i, rest, err)" by (cases "strtol base a")
    have b: "(if flags AND GN_ANY_BASE \<noteq> 0 then 0 else if flags AND GN_BASE_8 \<noteq> 0 then 8
        else if flags AND GN_BASE_16 \<noteq> 0 then 16 else 10) = base"
      by (simp only: fl base_def flag_base_def)
    define v where "v = w\<lparr>con_errno := (case err of None \<Rightarrow> 0 | Some e \<Rightarrow> e)\<rparr>"
    have run: "getNum ''getInt'' arg flags name w =
       (if err \<noteq> None then gnFail ''getInt'' ''strtol() failed'' arg name
        else if rest \<noteq> [] then gnFail ''getInt'' ''nonnumeric characters'' arg name
        else if bit flags 0 \<and> i < 0 then gnFail ''getInt'' ''negative value not allowed'' arg name
        else if bit flags 1 \<and> i \<le> 0 then gnFail ''getInt'' ''value must be > 0'' arg name
        else retp i) v"
      using a s unfolding getNum_def b by (simp add: thenp_unfold v_def fl [simplified])
    note bad = failing
    have big: "\<exists>w'. getInt arg flags name w = Exit 1 w'" if "getNum ''getInt'' arg flags name w = Ret i v" "i > INT_MAX \<or> i < INT_MIN"
    proof -
      obtain w' where "(gnFail ''getInt'' ''integer out of range'' arg name v :: (_, int) result) = Exit 1 w'"
        using gnFail_Exit by blast
      then show ?thesis using that by (auto simp: getInt_def bindp_unfold)
    qed
    have good: "getInt arg flags name w = Ret i v" if "getNum ''getInt'' arg flags name w = Ret i v" "\<not> (i > INT_MAX \<or> i < INT_MIN)"
      using that by (auto simp: getInt_def bindp_unfold)
    show ?thesis
    proof (cases "err = None \<and> rest = [] \<and> flag_allows flags i")
      case True
      moreover from True have "getInt arg flags name w = Ret i v"
        using run by (intro good) (auto simp: INT_MAX_def INT_MIN_def flag_allows_def)
      ultimately show ?thesis
        using a s unfolding base_def by (subst if_P) (simp_all add: v_def)
    next
      case False
      then have "\<exists>w'. getInt arg flags name w = Exit 1 w'"
        using run by (cases "getNum ''getInt'' arg flags name w = Ret i v")
          (auto intro: bad big simp: INT_MAX_def INT_MIN_def flag_allows_def split: if_splits)
      then show ?thesis
        using a s False unfolding base_def by (subst if_not_P) auto
    qed
  qed
qed

theorem getint_type_witness:
  "getInt (Some ''1f'') GN_BASE_16 None console_example = Ret 31 (console_example\<lparr>con_errno := 0\<rparr>)
     \<and> (\<exists>w'. getInt (Some ''-5'') GN_NONNEG None console_example = Exit 1 w')"
proof -
  have "strtol 16 ''1f'' = (31, [], None)" "strtol 10 ''-5'' = (- 5, [], None)"
    by code_simp+
  then show ?thesis
    using getint_type [of "Some ''1f''" GN_BASE_16 None console_example] getint_type [of "Some ''-5''" GN_NONNEG None console_example]
    by (simp add: flag_base_def flag_allows_def GN_BASE_16_def GN_NONNEG_def bit_numeral_rec)
qed

theorem getnum_roundtrip_witness:
  "getInt (Some (dec_int (- 42))) 0 None console_example = Ret (- 42) (console_example\<lparr>con_errno := 0\<rparr>)"
  using getnum_roundtrip [of "- 42" 0 None console_example]
  by (simp add: LONG_MIN_def LONG_MAX_def INT_MIN_def INT_MAX_def)

end
