(* ===== verification/Interleaving.thy ===== *)
theory Interleaving
  imports Ulsp_Prelude
begin

text \<open>
  Programs of several threads or processes. One turn of an agent maps the state that all of them share
  to a result, or to None when the agent is not there, has ended or has to wait; the turns of the agents may follow
  each other in any order. Behind it the locks: a mutex, a semaphore, and what both promise.
\<close>

type_synonym ('a, 'm) turns = "'a \<Rightarrow> 'm \<Rightarrow> ('m, unit) result option"

section \<open>Runs\<close>

text \<open>A run, with the agents whose turn it was.\<close>

inductive run :: "('a, 'm) turns \<Rightarrow> 'a list \<Rightarrow> ('m, unit) result \<Rightarrow> ('m, unit) result \<Rightarrow> bool" for moves where
  stay: "run moves [] r r"
| turn: "moves a m = Some r \<Longrightarrow> run moves as r r' \<Longrightarrow> run moves (a # as) (Ret () m) r'"

inductive_simps run_Nil [simp]: "run moves [] r r'"
inductive_simps run_Cons: "run moves (a # as) r r'"
inductive_simps run_ended [simp]: "run moves as (Exit k m) r" "run moves as Undef r"

lemma run_append: "run moves as r r' \<Longrightarrow> run moves bs r' r'' \<Longrightarrow> run moves (as @ bs) r r''"
  by (induction rule: run.induct) (auto intro: run.turn)

lemma run_one: "moves a m = Some r \<Longrightarrow> run moves [a] (Ret () m) r"
  by (auto intro: run.intros)

lemma run_appendD: "run moves (as @ bs) r r'' \<Longrightarrow> \<exists>r'. run moves as r r' \<and> run moves bs r' r''"
  by (induction as arbitrary: r) (auto simp: run_Cons)

text \<open>The result of a given order of turns; None when an agent in it cannot take its turn.\<close>

fun follow :: "('a, 'm) turns \<Rightarrow> 'a list \<Rightarrow> ('m, unit) result \<Rightarrow> ('m, unit) result option" where
  "follow moves [] r = Some r"
| "follow moves (a # as) (Ret u m) = (case moves a m of None \<Rightarrow> None | Some r \<Rightarrow> follow moves as r)"
| "follow moves (a # as) (Exit k m) = None"
| "follow moves (a # as) Undef = None"

lemma run_follow: "run moves as r r' \<longleftrightarrow> follow moves as r = Some r'"
  by (induction moves as r rule: follow.induct) (auto simp: run_Cons split: option.splits)

lemma run_det: "run moves as r r1 \<Longrightarrow> run moves as r r2 \<Longrightarrow> r1 = r2"
  by (simp add: run_follow)

section \<open>What holds of all runs\<close>

definition outcome :: "('m \<Rightarrow> bool) \<Rightarrow> (int \<Rightarrow> 'm \<Rightarrow> bool) \<Rightarrow> ('m, unit) result \<Rightarrow> bool" where
  "outcome P Q r = (case r of Ret _ m \<Rightarrow> P m | Exit k m \<Rightarrow> Q k m | Undef \<Rightarrow> False)"

lemma outcome_simps [simp]: "outcome P Q (Ret u m) = P m" "outcome P Q (Exit k m) = Q k m" "\<not> outcome P Q Undef"
  by (simp_all add: outcome_def)

text \<open>
  The contract of a program: an invariant that every turn keeps; a bound that the turns of the agents
  that are tame lower and that the others raise by at most \<open>slack\<close>; and some tame agent can
  take a turn unless all is \<open>idle\<close>. A turn that is not tame stands for a call that fails or a wakeup without reason.
\<close>

locale program =
  fixes moves :: "('a, 'm) turns" and inv :: "'m \<Rightarrow> bool" and final :: "bool \<Rightarrow> int \<Rightarrow> 'm \<Rightarrow> bool"
    and idle :: "'m \<Rightarrow> bool" and bound :: "'m \<Rightarrow> nat" and tame :: "'a \<Rightarrow> bool" and slack :: nat
  assumes keeps: "inv m \<Longrightarrow> moves a m = Some r \<Longrightarrow> outcome inv (final (tame a)) r"
    and lowers: "inv m \<Longrightarrow> moves a m = Some (Ret () m') \<Longrightarrow>
      (if tame a then bound m' < bound m else bound m' \<le> bound m + slack)"
    and lives: "inv m \<Longrightarrow> \<not> idle m \<Longrightarrow> \<exists>a r. tame a \<and> moves a m = Some r"
begin

lemma always:
  "run moves as r r' \<Longrightarrow> outcome inv (\<lambda>k m. \<exists>b. final b k m) r \<Longrightarrow> outcome inv (\<lambda>k m. \<exists>b. final b k m) r'"
proof (induction rule: run.induct)
  case (turn a m r as r')
  then show ?case
    using keeps [of m a r] by (cases r) auto
qed simp

text \<open>What each of some turns keeps, a run of them keeps.\<close>

lemma along:
  assumes "run moves as (Ret () m) (Ret () m')" "inv m" "P m"
    and "\<And>a m m'. a \<in> set as \<Longrightarrow> inv m \<Longrightarrow> P m \<Longrightarrow> moves a m = Some (Ret () m') \<Longrightarrow> P m'"
  shows "P m'"
  using assms
proof (induction as arbitrary: m)
  case (Cons a as)
  obtain r where r: "moves a m = Some r" "run moves as r (Ret () m')"
    using Cons.prems(1) by (auto simp: run_Cons)
  obtain m1 where m1: "r = Ret () m1"
    using r(2) by (cases r) auto
  then have "inv m1" "P m1"
    using keeps [OF Cons.prems(2) r(1)] Cons.prems(4) [OF _ Cons.prems(2,3), of a m1] r(1) by auto
  then show ?case
  proof (rule Cons.IH [OF r(2) [unfolded m1]])
    show "P w'" if "b \<in> set as" "inv w" "P w" "moves b w = Some (Ret () w')" for b w w'
      using Cons.prems(4) [of b w w'] that by simp
  qed
qed simp

text \<open>No run is longer than the bound allows, and every run can be completed by tame turns.\<close>

lemma short:
  "run moves as (Ret () m) r \<Longrightarrow> inv m \<Longrightarrow>
     length (filter tame as) \<le> Suc (bound m) + slack * length (filter (\<lambda>a. \<not> tame a) as)"
proof (induction as arbitrary: m)
  case (Cons a as)
  obtain r1 where r1: "moves a m = Some r1" "run moves as r1 r"
    using Cons.prems(1) by (auto simp: run_Cons)
  have k: "outcome inv (final (tame a)) r1"
    using keeps [OF Cons.prems(2) r1(1)] .
  show ?case
  proof (cases r1)
    case (Ret u m1)
    then have "inv m1" "run moves as (Ret () m1) r"
      "(if tame a then bound m1 < bound m else bound m1 \<le> bound m + slack)"
      using k r1 lowers [OF Cons.prems(2), of a m1] by auto
    with Cons.IH [of m1] show ?thesis
      by (cases "tame a") auto
  next
    case (Exit j m1)
    then show ?thesis using r1 by simp
  next
    case Undef
    then show ?thesis using k by simp
  qed
qed simp

lemma brief:
  "run moves as (Ret () m) (Ret () m') \<Longrightarrow> inv m \<Longrightarrow> list_all tame as \<Longrightarrow> length as + bound m' \<le> bound m"
proof (induction as arbitrary: m)
  case (Cons a as)
  obtain r where r: "moves a m = Some r" "run moves as r (Ret () m')"
    using Cons.prems(1) by (auto simp: run_Cons)
  obtain m1 where m1: "r = Ret () m1"
    using r(2) by (cases r) auto
  then have "inv m1" "bound m1 < bound m"
    using keeps [OF Cons.prems(2) r(1)] lowers [OF Cons.prems(2), of a m1] r(1) Cons.prems(3) by auto
  then show ?case
    using Cons.IH [OF r(2) [unfolded m1]] Cons.prems(3) by simp
qed simp

lemma ends:
  assumes "inv m"
  shows "\<exists>as r. list_all tame as \<and> run moves as (Ret () m) r \<and> outcome (\<lambda>m'. inv m' \<and> idle m') (final True) r"
  using assms
proof (induction "bound m" arbitrary: m rule: less_induct)
  case less
  show ?case
  proof (cases "idle m")
    case True
    then show ?thesis
      using less.prems by (intro exI [of _ "[]"] exI [of _ "Ret () m"]) simp
  next
    case False
    obtain a r where a: "tame a" "moves a m = Some r"
      using lives [OF less.prems False] by blast
    have k: "outcome inv (final True) r"
      using keeps [OF less.prems a(2)] a(1) by simp
    show ?thesis
    proof (cases r)
      case (Ret u m1)
      then have "bound m1 < bound m" "inv m1"
        using lowers [OF less.prems, of a m1] a k by auto
      from less.hyps [OF this] obtain as r' where
        "list_all tame as" "run moves as (Ret () m1) r'" "outcome (\<lambda>m'. inv m' \<and> idle m') (final True) r'" by blast
      then show ?thesis
        using a Ret by (intro exI [of _ "a # as"] exI [of _ r']) (auto intro: run.turn)
    next
      case (Exit j m1)
      then show ?thesis
        using a k by (intro exI [of _ "[a]"] exI [of _ r]) (auto intro: run_one)
    next
      case Undef
      then show ?thesis using k by simp
    qed
  qed
qed

lemma completes:
  assumes "inv m" "run moves as (Ret () m) (Ret () m1)"
  shows "\<exists>bs r. list_all tame bs \<and> run moves (as @ bs) (Ret () m) r \<and> outcome (\<lambda>m'. inv m' \<and> idle m') (final True) r"
proof -
  have "inv m1"
    using always [OF assms(2)] assms(1) by simp
  from ends [OF this] show ?thesis
    using run_append [OF assms(2)] by blast
qed

text \<open>A program in which some agent can always take a turn ends by itself.\<close>

lemma exits:
  assumes "inv m" "run moves as (Ret () m) (Ret () m1)" "\<And>m. \<not> idle m"
  shows "\<exists>bs k m'. list_all tame bs \<and> run moves (as @ bs) (Ret () m) (Exit k m') \<and> final True k m'"
proof -
  obtain bs r where "list_all tame bs" "run moves (as @ bs) (Ret () m) r" "outcome (\<lambda>m'. inv m' \<and> idle m') (final True) r"
    using completes [OF assms(1,2)] by blast
  then show ?thesis
    using assms(3) by (cases r) auto
qed

end

lemma sum_list_map_update:
  fixes f :: "'b \<Rightarrow> nat"
  shows "k < length xs \<Longrightarrow> sum_list (map f (xs[k := x])) + f (xs ! k) = sum_list (map f xs) + f x"
proof (induction xs arbitrary: k)
  case (Cons y ys)
  then show ?case by (cases k) auto
qed simp

lemma member_le_sum_list_map:
  fixes f :: "'b \<Rightarrow> nat"
  shows "k < length xs \<Longrightarrow> f (xs ! k) \<le> sum_list (map f xs)"
proof (induction xs arbitrary: k)
  case (Cons y ys)
  then show ?case by (cases k) (auto intro: trans_le_add2)
qed simp

lemma count_list_update:
  "k < length xs \<Longrightarrow> count_list (xs[k := x]) y + (if xs ! k = y then 1 else 0) = count_list xs y + (if x = y then 1 else 0)"
proof (induction xs arbitrary: k)
  case (Cons z zs)
  show ?case
  proof (cases k)
    case (Suc j)
    then show ?thesis
      using Cons.IH [of j] Cons.prems by (auto split: if_splits)
  qed simp
qed simp

lemma count_card: "count_list xs y = card {k. k < length xs \<and> xs ! k = y}"
proof -
  have "(\<lambda>z. y = z) = (\<lambda>z. z = y)" by auto
  then show ?thesis
    by (simp add: count_list_eq_length_filter length_filter_conv_card)
qed

lemma count_all: "length xs = n \<Longrightarrow> count_list xs y = n \<Longrightarrow> k < n \<Longrightarrow> xs ! k = y"
  using card_subset_eq [of "{..<n}" "{k. k < length xs \<and> xs ! k = y}"] by (auto simp: count_card)

section \<open>Locks\<close>

text \<open>A mutex is locked or not; \<open>sem_wait\<close> waits while the semaphore is zero.\<close>

definition mutex_lock :: "bool \<Rightarrow> bool option" where
  "mutex_lock locked = (if locked then None else Some True)"

definition mutex_unlock :: "bool \<Rightarrow> bool" where
  "mutex_unlock locked = False"

definition sem_wait :: "nat \<Rightarrow> nat option" where
  "sem_wait n = (if n = 0 then None else Some (n - 1))"

definition sem_post :: "nat \<Rightarrow> nat" where
  "sem_post n = n + 1"

text \<open>What a critical section relies on.\<close>

locale lock =
  fixes acquire :: "'l \<Rightarrow> 'l option" and release :: "'l \<Rightarrow> 'l" and free held :: 'l
  assumes acquire_free: "acquire free = Some held"
    and acquire_held: "acquire held = None"
    and release_held: "release held = free"
begin

lemma free_not_held: "free \<noteq> held"
  using acquire_free acquire_held by auto

lemma acquire_iff: "l = free \<or> l = held \<Longrightarrow> acquire l = (if l = free then Some held else None)"
  using acquire_free acquire_held free_not_held by auto

end

interpretation mutex: lock mutex_lock mutex_unlock False True
  by unfold_locales (simp_all add: mutex_lock_def mutex_unlock_def)

interpretation binary_semaphore: lock sem_wait sem_post 1 0
  by unfold_locales (simp_all add: sem_wait_def sem_post_def)

end
