(* ===== verification/Thread_Incr.thy ===== *)
theory Thread_Incr
  imports Posix_Io Get_Num Interleaving
begin

text \<open>
  threads/thread_incr.c, threads/thread_incr_mutex.c and ipc/thread_incr_psem.c: two threads that each
  add one to a global variable \<open>loops\<close> times, without a lock, under a mutex and under a semaphore. A turn is one
  access to what the threads share; memory is sequentially consistent.
\<close>

section \<open>The shared state\<close>

text \<open>Where a thread is, with its local variables: those of its loop control, and \<open>loc\<close>.\<close>

datatype 'c pc = Start | Test 'c | Enter 'c | Load 'c | Add 'c int | Store 'c int | Leave 'c | Done

datatype mpc = MCreate nat | MJoin nat | MPrint

record ('c, 'l) machine = console +
  m_glob :: int
  m_lock :: 'l
  m_loops :: int
  m_threads :: "'c pc list"
  m_main :: mpc

text \<open>A turn of \<open>main\<close> comes with what \<open>pthread_create\<close> returns, if it is called in it.\<close>

datatype agent = Main int | Thread nat

section \<open>The thread functions\<close>


text \<open>
  The threads with a lock differ in the lock and in the control of the loop: how it begins, its test
  (None: it ends) and what is done behind the body.
\<close>

fun locked_thread :: "(int \<Rightarrow> 'c) \<Rightarrow> ('c \<Rightarrow> 'c option) \<Rightarrow> ('c \<Rightarrow> 'c) \<Rightarrow> ('l \<Rightarrow> 'l option) \<Rightarrow> ('l \<Rightarrow> 'l)
    \<Rightarrow> 'c pc \<Rightarrow> ('c, 'l) machine \<Rightarrow> (('c, 'l) machine, 'c pc) result option" where
  "locked_thread init test again acquire release Start m = Some (Ret (Test (init (m_loops m))) m)"
| "locked_thread init test again acquire release (Test c) m =
     Some (Ret (case test c of None \<Rightarrow> Done | Some c' \<Rightarrow> Enter c') m)"
| "locked_thread init test again acquire release (Enter c) m =
     (case acquire (m_lock m) of None \<Rightarrow> None | Some l \<Rightarrow> Some (Ret (Load c) (m\<lparr>m_lock := l\<rparr>)))"
| "locked_thread init test again acquire release (Load c) m = Some (Ret (Add c (m_glob m)) m)"
| "locked_thread init test again acquire release (Add c loc) m =
     Some (if loc < INT_MAX then Ret (Store c (loc + 1)) m else Undef)"
| "locked_thread init test again acquire release (Store c loc) m = Some (Ret (Leave c) (m\<lparr>m_glob := loc\<rparr>))"
| "locked_thread init test again acquire release (Leave c) m =
     Some (Ret (Test (again c)) (m\<lparr>m_lock := release (m_lock m)\<rparr>))"
| "locked_thread init test again acquire release Done m = None"

text \<open>\<open>while (loops--)\<close> of thread_incr_mutex.c.\<close>

definition down_test :: "int \<Rightarrow> int option" where
  "down_test loops = (if loops = 0 then None else Some (loops - 1))"

definition mutex_thread :: "int pc \<Rightarrow> (int, bool) machine \<Rightarrow> ((int, bool) machine, int pc) result option" where
  "mutex_thread = locked_thread (\<lambda>loops. loops) down_test (\<lambda>loops. loops) mutex_lock mutex_unlock"

text \<open>\<open>for (j = 0; j < loops; ++j)\<close> of thread_incr_psem.c.\<close>

definition up_init :: "int \<Rightarrow> int \<times> int" where
  "up_init loops = (loops, 0)"

definition up_test :: "int \<times> int \<Rightarrow> (int \<times> int) option" where
  "up_test c = (case c of (loops, j) \<Rightarrow> if j < loops then Some (loops, j) else None)"

definition up_again :: "int \<times> int \<Rightarrow> int \<times> int" where
  "up_again c = (case c of (loops, j) \<Rightarrow> (loops, j + 1))"

definition psem_thread :: "(int \<times> int) pc \<Rightarrow> (int \<times> int, nat) machine
    \<Rightarrow> ((int \<times> int, nat) machine, (int \<times> int) pc) result option" where
  "psem_thread = locked_thread up_init up_test up_again sem_wait sem_post"

section \<open>The main function\<close>

text \<open>\<open>pthread_join\<close> waits for the thread; it does not fail for a thread that is joined once.\<close>

fun main_turn :: "(int \<Rightarrow> string) \<Rightarrow> string \<Rightarrow> int \<Rightarrow> mpc \<Rightarrow> ('c, 'l) machine \<Rightarrow> (('c, 'l) machine, unit) result option" where
  "main_turn strerror label s (MCreate k) m =
     Some (if s \<noteq> 0 then errExitEN strerror s ''pthread_create'' m
       else Ret () (m\<lparr>m_threads := m_threads m @ [Start], m_main := (if k = 0 then MCreate 1 else MJoin 0)\<rparr>))"
| "main_turn strerror label s (MJoin k) m =
     (if m_threads m ! k = Done then Some (Ret () (m\<lparr>m_main := (if k = 0 then MJoin 1 else MPrint)\<rparr>)) else None)"
| "main_turn strerror label s MPrint m =
     Some (thenp (printf_out (label @ dec_int (m_glob m) @ [NL])) (exit_process EXIT_SUCCESS) m)"

definition thread_turn :: "('c pc \<Rightarrow> ('c, 'l) machine \<Rightarrow> (('c, 'l) machine, 'c pc) result option) \<Rightarrow> nat
    \<Rightarrow> ('c, 'l) machine \<Rightarrow> (('c, 'l) machine, unit) result option" where
  "thread_turn f k m =
     (if k < length (m_threads m)
      then (case f (m_threads m ! k) m of
          None \<Rightarrow> None
        | Some (Ret pc m') \<Rightarrow> Some (Ret () (m'\<lparr>m_threads := (m_threads m')[k := pc]\<rparr>))
        | Some (Exit j m') \<Rightarrow> Some (Exit j m')
        | Some Undef \<Rightarrow> Some Undef)
      else None)"

fun counter_turn :: "(int \<Rightarrow> string) \<Rightarrow> string \<Rightarrow> ('c pc \<Rightarrow> ('c, 'l) machine \<Rightarrow> (('c, 'l) machine, 'c pc) result option)
    \<Rightarrow> (agent, ('c, 'l) machine) turns" where
  "counter_turn strerror label f (Main s) m = main_turn strerror label s (m_main m) m"
| "counter_turn strerror label f (Thread k) m = thread_turn f k m"


definition mutex_turn :: "(int \<Rightarrow> string) \<Rightarrow> (agent, (int, bool) machine) turns" where
  "mutex_turn strerror = counter_turn strerror ''glob = '' mutex_thread"

definition psem_turn :: "(int \<Rightarrow> string) \<Rightarrow> (agent, (int \<times> int, nat) machine) turns" where
  "psem_turn strerror = counter_turn strerror ''glob='' psem_thread"

text \<open>The number of loops: the first argument, if there is one. The lock is initialised, the global zero.\<close>

definition num_loops :: "int \<Rightarrow> string list \<Rightarrow> ('z console_scheme, int) prog" where
  "num_loops dflt argv =
     (if 1 < length argv then getInt (Some (argv ! 1)) GN_GT_0 (Some ''num-loops'') else retp dflt)"

definition machine_start :: "'l \<Rightarrow> int \<Rightarrow> console \<Rightarrow> ('c, 'l) machine" where
  "machine_start l loops w = console.extend w (machine.fields 0 l loops [] (MCreate 0))"


definition mutex_start :: "int \<Rightarrow> console \<Rightarrow> (int, bool) machine" where
  "mutex_start loops w = machine_start False loops w"

definition psem_start :: "int \<Rightarrow> console \<Rightarrow> (int \<times> int, nat) machine" where
  "psem_start loops w = machine_start 1 loops w"

section \<open>What main does\<close>

definition shape :: "int \<Rightarrow> console \<Rightarrow> ('c, 'l) machine \<Rightarrow> bool" where
  "shape L w m \<longleftrightarrow> m_loops m = L \<and> con_seen m = con_seen w \<and> con_pending m = con_pending w
     \<and> (case m_main m of
          MCreate k \<Rightarrow> k \<le> 1 \<and> length (m_threads m) = k
        | MJoin k \<Rightarrow> k \<le> 1 \<and> length (m_threads m) = 2 \<and> (k = 1 \<longrightarrow> m_threads m ! 0 = Done)
        | MPrint \<Rightarrow> length (m_threads m) = 2 \<and> m_threads m ! 0 = Done \<and> m_threads m ! 1 = Done)"

definition rank :: "mpc \<Rightarrow> nat" where
  "rank p = (case p of MCreate k \<Rightarrow> 5 - k | MJoin k \<Rightarrow> 3 - k | MPrint \<Rightarrow> 1)"

definition printed :: "string \<Rightarrow> int \<Rightarrow> console \<Rightarrow> ('c, 'l) machine \<Rightarrow> bool" where
  "printed label v w m \<longleftrightarrow> con_seen m = con_seen w @ [OutText (con_pending w @ label @ dec_int v @ [NL])]"

definition tame :: "agent \<Rightarrow> bool" where
  "tame a = (case a of Main s \<Rightarrow> s = 0 | Thread k \<Rightarrow> True)"

text \<open>An ending: the value is printed and the status is 0, or a thread could not be created.\<close>

definition counted :: "string \<Rightarrow> (int \<Rightarrow> bool) \<Rightarrow> console \<Rightarrow> bool \<Rightarrow> int \<Rightarrow> ('c, 'l) machine \<Rightarrow> bool" where
  "counted label R w b k m \<longleftrightarrow> (if k = EXIT_SUCCESS then R (m_glob m) \<and> printed label (m_glob m) w m else \<not> b)"

lemma errExitEN_Exit: "\<exists>k w'. errExitEN strerror s t w = Exit k w' \<and> k \<noteq> 0"
  by (simp add: errExitEN_def outputError_def terminate_def thenp_unfold bindp_unfold fputs_stderr_def abort_process_def
      exit_process_def sys_exit_def fflush_stdout_def)

text \<open>A turn of \<open>main\<close>: a thread is created, a thread is joined, or the program ends.\<close>

lemma main_turn_cases:
  assumes "shape L w m" "main_turn strerror label s (m_main m) m = Some r"
  obtains (create) m' where "r = Ret () m'" "shape L w m'" "m_glob m' = m_glob m" "m_lock m' = m_lock m"
      "m_threads m' = m_threads m @ [Start]" "length (m_threads m) < 2" "rank (m_main m') < rank (m_main m)"
  | (join) m' where "r = Ret () m'" "shape L w m'" "m_glob m' = m_glob m" "m_lock m' = m_lock m"
      "m_threads m' = m_threads m" "rank (m_main m') < rank (m_main m)"
  | (fails) k m' where "r = Exit k m'" "k \<noteq> 0" "s \<noteq> 0"
  | (prints) m' where "r = Exit EXIT_SUCCESS m'" "printed label (m_glob m') w m'" "m_glob m' = m_glob m"
      "length (m_threads m) = 2" "m_threads m ! 0 = Done" "m_threads m ! 1 = Done"
proof (cases "m_main m")
  case (MCreate k)
  show ?thesis
  proof (cases "s = 0")
    case True
    then show ?thesis
      using assms MCreate
      by (intro create [of "m\<lparr>m_threads := m_threads m @ [Start], m_main := (if k = 0 then MCreate 1 else MJoin 0)\<rparr>"])
        (auto simp: shape_def rank_def)
  next
    case False
    then show ?thesis
      using assms MCreate errExitEN_Exit [of strerror s "''pthread_create''" m] fails by auto
  qed
next
  case (MJoin k)
  then show ?thesis
    using assms by (intro join [of "m\<lparr>m_main := (if k = 0 then MJoin 1 else MPrint)\<rparr>"])
      (auto simp: shape_def rank_def le_Suc_eq split: if_splits)
next
  case MPrint
  let ?m = "m\<lparr>con_seen := con_seen m @ [OutText (con_pending m @ label @ dec_int (m_glob m) @ [NL])], con_pending := []\<rparr>"
  have "r = Exit EXIT_SUCCESS ?m"
    using assms(2) MPrint
    by (auto simp: thenp_unfold printf_out_def exit_process_def fflush_stdout_def flushed_def)
  then show ?thesis
    using assms MPrint by (intro prints [of ?m]) (auto simp: shape_def printed_def)
qed

text \<open>Unless a thread has to be waited for, \<open>main\<close> can go on.\<close>

lemma main_turn_lives:
  assumes "shape L w m"
  shows "(\<exists>r. main_turn strerror label 0 (m_main m) m = Some r)
    \<or> (\<exists>k. k < length (m_threads m) \<and> m_threads m ! k \<noteq> Done)"
proof (cases "m_main m")
  case (MJoin k)
  then have "k < length (m_threads m)"
    using assms by (simp add: shape_def)
  then show ?thesis
    using MJoin by (cases "m_threads m ! k = Done") auto
qed simp_all

lemma thread_turnE:
  assumes "thread_turn f k m = Some r"
  obtains (moves) pc m' where "k < length (m_threads m)" "f (m_threads m ! k) m = Some (Ret pc m')"
      "r = Ret () (m'\<lparr>m_threads := (m_threads m')[k := pc]\<rparr>)"
  | (leaves) j m' where "k < length (m_threads m)" "f (m_threads m ! k) m = Some (Exit j m')"
  | (undefined) "k < length (m_threads m)" "f (m_threads m ! k) m = Some Undef"
  using assms by (auto simp: thread_turn_def split: if_splits option.splits result.splits)

lemma shape_thread:
  assumes "shape L w m" "k < length (m_threads m)" "m_threads m ! k \<noteq> Done"
  shows "shape L w (m\<lparr>m_glob := g, m_lock := l, m_threads := (m_threads m)[k := pc]\<rparr>)"
    and "shape L w (m\<lparr>m_glob := g, m_threads := (m_threads m)[k := pc]\<rparr>)"
  using assms by (auto simp: shape_def nth_list_update less_Suc_eq numeral_2_eq_2 split: mpc.splits)

section \<open>Threads with a lock\<close>

definition inside :: "'c pc \<Rightarrow> bool" where
  "inside p = (case p of Load _ \<Rightarrow> True | Add _ _ \<Rightarrow> True | Store _ _ \<Rightarrow> True | Leave _ \<Rightarrow> True | _ \<Rightarrow> False)"

text \<open>At most one thread is inside, and it holds the lock; what it has read is still there.\<close>

definition exclusive :: "'l \<Rightarrow> 'l \<Rightarrow> ('c, 'l) machine \<Rightarrow> bool" where
  "exclusive free held m \<longleftrightarrow> (\<exists>ow. m_lock m = (if ow = None then free else held)
     \<and> (\<forall>k<length (m_threads m). inside (m_threads m ! k) = (ow = Some k)) \<and> (\<forall>j. ow = Some j \<longrightarrow> j < length (m_threads m)))"

definition sees :: "int \<Rightarrow> 'c pc \<Rightarrow> bool" where
  "sees g p = (case p of Add _ loc \<Rightarrow> loc = g | Store _ loc \<Rightarrow> loc = g + 1 | _ \<Rightarrow> True)"

lemma sees_simps [simp]:
  "sees g (Add c loc) = (loc = g)" "sees g (Store c loc) = (loc = g + 1)" "sees g Start" "sees g (Test c)"
  "sees g (Enter c)" "sees g (Load c)" "sees g (Leave c)" "sees g Done"
  by (simp_all add: sees_def)

lemma outside_sees: "\<not> inside p \<Longrightarrow> sees g p"
  by (cases p) (simp_all add: inside_def sees_def)

definition current :: "('c, 'l) machine \<Rightarrow> bool" where
  "current m \<longleftrightarrow> (\<forall>k<length (m_threads m). sees (m_glob m) (m_threads m ! k))"

text \<open>A lock, and a loop control that counts down to the end of the loop.\<close>

locale locked_loop = lock acquire release free held
  for acquire :: "'l \<Rightarrow> 'l option" and release :: "'l \<Rightarrow> 'l" and free held :: 'l +
  fixes init :: "int \<Rightarrow> 'c" and test :: "'c \<Rightarrow> 'c option" and again :: "'c \<Rightarrow> 'c" and rounds :: "'c \<Rightarrow> nat"
    and ok :: "'c \<Rightarrow> bool"
  assumes rounds_init: "0 \<le> i \<Longrightarrow> ok (init i) \<and> rounds (init i) = nat i"
    and test_None: "ok c \<Longrightarrow> test c = None \<Longrightarrow> rounds c = 0"
    and test_Some: "ok c \<Longrightarrow> test c = Some c' \<Longrightarrow> ok (again c') \<and> rounds c = Suc (rounds (again c'))"
begin

text \<open>What a thread has still to add, and how many turns it takes at most; \<open>n\<close> is the number of loops.\<close>

fun todo :: "nat \<Rightarrow> 'c pc \<Rightarrow> nat" where
  "todo n Start = n"
| "todo n (Test c) = rounds c"
| "todo n (Enter c) = Suc (rounds (again c))"
| "todo n (Load c) = Suc (rounds (again c))"
| "todo n (Add c loc) = Suc (rounds (again c))"
| "todo n (Store c loc) = Suc (rounds (again c))"
| "todo n (Leave c) = rounds (again c)"
| "todo n Done = 0"

fun cost :: "nat \<Rightarrow> 'c pc \<Rightarrow> nat" where
  "cost n Start = 6 * n + 2"
| "cost n (Test c) = 6 * rounds c + 1"
| "cost n (Enter c) = 6 * rounds (again c) + 6"
| "cost n (Load c) = 6 * rounds (again c) + 5"
| "cost n (Add c loc) = 6 * rounds (again c) + 4"
| "cost n (Store c loc) = 6 * rounds (again c) + 3"
| "cost n (Leave c) = 6 * rounds (again c) + 2"
| "cost n Done = 0"

fun valid :: "'c pc \<Rightarrow> bool" where
  "valid (Test c) = ok c"
| "valid (Enter c) = ok (again c)"
| "valid (Load c) = ok (again c)"
| "valid (Add c loc) = ok (again c)"
| "valid (Store c loc) = ok (again c)"
| "valid (Leave c) = ok (again c)"
| "valid Start = True"
| "valid Done = True"

definition pending :: "nat \<Rightarrow> ('c, 'l) machine \<Rightarrow> nat" where
  "pending n m = sum_list (map (todo n) (m_threads m)) + (2 - length (m_threads m)) * n"

definition locked_bound :: "nat \<Rightarrow> ('c, 'l) machine \<Rightarrow> nat" where
  "locked_bound n m = rank (m_main m) + sum_list (map (cost n) (m_threads m)) + (2 - length (m_threads m)) * (6 * n + 2)"

definition locked_inv :: "int \<Rightarrow> console \<Rightarrow> ('c, 'l) machine \<Rightarrow> bool" where
  "locked_inv L w m \<longleftrightarrow> shape L w m \<and> 0 < L \<and> 2 * L \<le> INT_MAX \<and> m_glob m + int (pending (nat L) m) = 2 * L
     \<and> exclusive free held m \<and> current m \<and> list_all valid (m_threads m)"

abbreviation turn_of where
  "turn_of \<equiv> locked_thread init test again acquire release"

lemma todo_pos: "k < length (m_threads m) \<Longrightarrow> todo n (m_threads m ! k) \<le> pending n m"
  using member_le_sum_list_map [of k "m_threads m" "todo n"] by (simp add: pending_def)

text \<open>A turn changes the global variable and what is left to do by the same amount, and lowers the cost.\<close>

lemma turn_counts:
  assumes inv: "locked_inv L w m" and k: "k < length (m_threads m)" "turn_of (m_threads m ! k) m = Some r"
  shows "\<exists>pc m'. r = Ret pc m' \<and> valid pc \<and> m_glob m' + int (todo (nat L) pc) = m_glob m + int (todo (nat L) (m_threads m ! k))
    \<and> cost (nat L) pc < cost (nat L) (m_threads m ! k)
    \<and> m' = m\<lparr>m_glob := m_glob m', m_lock := m_lock m'\<rparr>"
proof -
  have L: "m_loops m = L" "0 < L" "2 * L \<le> INT_MAX" "m_glob m + int (pending (nat L) m) = 2 * L"
    using inv by (simp_all add: locked_inv_def shape_def)
  have v: "valid (m_threads m ! k)"
    using inv k(1) by (simp add: locked_inv_def list_all_length)
  have cur: "m_threads m ! k = Add c loc \<Longrightarrow> loc = m_glob m" "m_threads m ! k = Store c loc \<Longrightarrow> loc = m_glob m + 1"
    for c loc using inv k by (auto simp: locked_inv_def current_def split: pc.splits)
  show ?thesis
  proof (cases "m_threads m ! k")
    case (Test c)
    then show ?thesis
      using k v test_None [of c] test_Some [of c] by (auto split: option.splits)
  next
    case (Add c loc)
    then have "loc < INT_MAX"
      using todo_pos [OF k(1), of "nat L"] cur(1) L by simp
    then show ?thesis
      using k v Add by auto
  next
    case (Store c loc)
    then show ?thesis
      using k v cur(2) by auto
  qed (use k v L rounds_init [of L] in \<open>auto split: option.splits\<close>)
qed

lemma inside_simps [simp]:
  "\<not> inside Start" "\<not> inside (Test c)" "\<not> inside (Enter c)" "inside (Load c)" "inside (Add c l)" "inside (Store c l)"
  "inside (Leave c)" "\<not> inside Done"
  by (simp_all add: inside_def)

text \<open>Only a thread that is inside writes; it leaves the others outside.\<close>

lemma turn_excludes:
  assumes inv: "exclusive free held m" "current m" and k: "k < length (m_threads m)"
    "turn_of (m_threads m ! k) m = Some (Ret pc m')" "m' = m\<lparr>m_glob := m_glob m', m_lock := m_lock m'\<rparr>"
  shows "exclusive free held (m'\<lparr>m_threads := (m_threads m')[k := pc]\<rparr>) \<and> current (m'\<lparr>m_threads := (m_threads m')[k := pc]\<rparr>)"
proof -
  obtain ow where ow: "m_lock m = (if ow = None then free else held)"
    "\<And>j. j < length (m_threads m) \<Longrightarrow> inside (m_threads m ! j) = (ow = Some j)"
    "\<And>j. ow = Some j \<Longrightarrow> j < length (m_threads m)"
    using inv(1) unfolding exclusive_def by blast
  have th: "m_threads m' = m_threads m"
    by (subst k(3)) simp
  define ow' where "ow' = (if inside pc then Some k else if inside (m_threads m ! k) then None else ow)"
  have enter: "inside pc \<Longrightarrow> \<not> inside (m_threads m ! k) \<Longrightarrow> ow = None"
    using k(2) ow(1) acquire_held by (cases "m_threads m ! k") (auto split: option.splits if_splits)
  have "m_lock m' = (if ow' = None then free else held)"
    using k(1,2) ow(1) ow(2) [OF k(1)] acquire_free acquire_held release_held
    by (cases "m_threads m ! k") (auto simp: ow'_def split: option.splits if_splits)
  moreover have "inside ((m_threads m)[k := pc] ! j) = (ow' = Some j)" if "j < length (m_threads m)" for j
    using that ow(2) [OF that] ow(2) [OF k(1)] enter k(1) by (auto simp: ow'_def nth_list_update)
  moreover have "j < length (m_threads m)" if "ow' = Some j" for j
    using that ow(3) [of j] k(1) by (auto simp: ow'_def split: if_splits)
  ultimately have "exclusive free held (m'\<lparr>m_threads := (m_threads m')[k := pc]\<rparr>)"
    unfolding exclusive_def using th by (intro exI [of _ ow']) simp
  moreover have "current (m'\<lparr>m_threads := (m_threads m')[k := pc]\<rparr>)"
  proof -
    have "\<not> inside (m_threads m ! j)" if "j < length (m_threads m)" "j \<noteq> k" "inside (m_threads m ! k)" for j
      using that ow(2) [of j] ow(2) [OF k(1)] by auto
    moreover have "m_glob m' = m_glob m" if "\<not> inside (m_threads m ! k)"
      using that k(2) by (cases "m_threads m ! k") (auto split: option.splits)
    ultimately have "sees (m_glob m') (m_threads m ! j)" if "j < length (m_threads m)" "j \<noteq> k" for j
      using that inv(2) outside_sees by (cases "inside (m_threads m ! k)") (auto simp: current_def)
    moreover have "sees (m_glob m') pc"
      using k(1,2) inv(2) unfolding current_def
      by (cases "m_threads m ! k") (auto simp: outside_sees split: option.splits if_splits)
    ultimately show ?thesis
      using th k(1) by (auto simp: current_def nth_list_update)
  qed
  ultimately show ?thesis by blast
qed

lemma exclusive_cong: "m_lock m' = m_lock m \<Longrightarrow> m_threads m' = m_threads m \<Longrightarrow> exclusive free held m' = exclusive free held m"
  by (simp add: exclusive_def)

lemma exclusive_create:
  assumes "exclusive free held m" "m_lock m' = m_lock m" "m_threads m' = m_threads m @ [Start]"
  shows "exclusive free held m'"
proof -
  obtain ow where "m_lock m = (if ow = None then free else held)"
    "\<And>j. j < length (m_threads m) \<Longrightarrow> inside (m_threads m ! j) = (ow = Some j)"
    "\<And>j. ow = Some j \<Longrightarrow> j < length (m_threads m)"
    using assms(1) unfolding exclusive_def by blast
  then show ?thesis
    using assms(2,3) unfolding exclusive_def
    by (intro exI [of _ ow]) (auto simp: nth_append less_Suc_eq)
qed

text \<open>Main's turns and those of the threads keep the invariant and lower the bound.\<close>

abbreviation counting :: "(int \<Rightarrow> string) \<Rightarrow> string \<Rightarrow> (agent, ('c, 'l) machine) turns" where
  "counting strerror label \<equiv> counter_turn strerror label turn_of"

lemma locked_main:
  assumes inv: "locked_inv L w m" and r: "main_turn strerror label s (m_main m) m = Some r"
  shows "outcome (\<lambda>m'. locked_inv L w m' \<and> locked_bound (nat L) m' < locked_bound (nat L) m)
    (counted label (\<lambda>v. v = 2 * L) w (s = 0)) r"
proof -
  have i: "shape L w m" "0 < L" "2 * L \<le> INT_MAX" "m_glob m + int (pending (nat L) m) = 2 * L"
    "exclusive free held m" "current m" "list_all valid (m_threads m)"
    using inv by (simp_all add: locked_inv_def)
  from i(1) r show ?thesis
  proof (cases rule: main_turn_cases)
    case (create m')
    have "current m'"
      using i(6) create(3,5) by (auto simp: current_def nth_append less_Suc_eq)
    moreover have "length (m_threads m) = 0 \<or> length (m_threads m) = 1"
      using create(6) by arith
    ultimately show ?thesis
      using create i exclusive_create [OF i(5) create(4,5)]
      by (auto simp: locked_inv_def locked_bound_def pending_def)
  next
    case (join m')
    then show ?thesis
      using i exclusive_cong [OF join(4,5)] by (simp add: locked_inv_def locked_bound_def pending_def current_def)
  next
    case (fails k m')
    then show ?thesis by (simp add: counted_def EXIT_SUCCESS_def)
  next
    case (prints m')
    have "m_threads m = [Done, Done]"
      using prints(4-6) by (auto simp: numeral_2_eq_2 length_Suc_conv)
    then have "m_glob m' = 2 * L"
      using i(4) prints(3) by (simp add: pending_def)
    then show ?thesis
      using prints by (simp add: counted_def)
  qed
qed

lemma locked_turn:
  assumes inv: "locked_inv L w m" and r: "thread_turn turn_of k m = Some r"
  shows "\<exists>m'. r = Ret () m' \<and> locked_inv L w m' \<and> locked_bound (nat L) m' < locked_bound (nat L) m"
proof -
  have i: "shape L w m" "0 < L" "2 * L \<le> INT_MAX" "m_glob m + int (pending (nat L) m) = 2 * L"
    "exclusive free held m" "current m" "list_all valid (m_threads m)"
    using inv by (simp_all add: locked_inv_def)
  obtain r0 where k: "k < length (m_threads m)" "turn_of (m_threads m ! k) m = Some r0"
    using r by (cases rule: thread_turnE) auto
  obtain pc m1 where t: "r0 = Ret pc m1" "m_glob m1 + int (todo (nat L) pc) = m_glob m + int (todo (nat L) (m_threads m ! k))"
    "cost (nat L) pc < cost (nat L) (m_threads m ! k)" "m1 = m\<lparr>m_glob := m_glob m1, m_lock := m_lock m1\<rparr>"
    and pc: "valid pc"
    using turn_counts [OF inv k] by blast
  let ?m' = "m1\<lparr>m_threads := (m_threads m1)[k := pc]\<rparr>"
  have r': "r = Ret () ?m'"
    using r k t(1) by (auto simp: thread_turn_def)
  have m': "?m' = m\<lparr>m_glob := m_glob m1, m_lock := m_lock m1, m_threads := (m_threads m)[k := pc]\<rparr>"
    by (subst (1 2) t(4)) simp
  have "m_threads m ! k \<noteq> Done"
    using k(2) by auto
  then have "shape L w ?m'"
    unfolding m' using shape_thread(1) [OF i(1) k(1)] by blast
  moreover have "exclusive free held ?m' \<and> current ?m'"
    using turn_excludes [OF i(5,6) k(1), of pc m1] k(2) t(1,4) by simp
  moreover have "m_glob ?m' + int (pending (nat L) ?m') = 2 * L"
  proof -
    have th: "m_threads ?m' = (m_threads m)[k := pc]" "m_glob ?m' = m_glob m1"
      by (simp_all add: m')
    have "int (sum_list (map (todo (nat L)) ((m_threads m)[k := pc]))) + int (todo (nat L) (m_threads m ! k))
      = int (sum_list (map (todo (nat L)) (m_threads m))) + int (todo (nat L) pc)"
      using sum_list_map_update [OF k(1), of "todo (nat L)" pc] by linarith
    then show ?thesis
      using i(4) t(2) unfolding pending_def th by simp
  qed
  moreover have "locked_bound (nat L) ?m' < locked_bound (nat L) m"
  proof -
    have th: "m_threads ?m' = (m_threads m)[k := pc]" "m_main ?m' = m_main m"
      by (simp_all add: m')
    show ?thesis
      using sum_list_map_update [OF k(1), of "cost (nat L)" pc] t(3) unfolding locked_bound_def th by simp
  qed
  moreover have "list_all valid (m_threads ?m')"
  proof -
    have "m_threads ?m' = (m_threads m)[k := pc]"
      by (simp add: m')
    then show ?thesis
      using i(7) pc set_update_subset_insert [of "m_threads m" k pc] by (auto simp: list_all_iff)
  qed
  ultimately show ?thesis
    using r' i(2,3) unfolding locked_inv_def by blast
qed

lemma locked_keeps:
  assumes "locked_inv L w m" "counting strerror label a m = Some r"
  shows "outcome (\<lambda>m'. locked_inv L w m' \<and> locked_bound (nat L) m' < locked_bound (nat L) m)
       (counted label (\<lambda>v. v = 2 * L) w (tame a)) r"
proof (cases a)
  case (Main s)
  then show ?thesis
    using assms locked_main [of L w m strerror label s r] by (simp add: tame_def)
next
  case (Thread k)
  then show ?thesis
    using assms locked_turn [of L w m k r] by auto
qed

text \<open>No deadlock: a thread that waits for the lock waits for one that can go on.\<close>

lemma locked_lives:
  assumes inv: "locked_inv L w m"
  shows "\<exists>a r. tame a \<and> counting strerror label a m = Some r"
proof -
  have i: "shape L w m" "exclusive free held m"
    using inv by (simp_all add: locked_inv_def)
  have go: "\<exists>r. thread_turn turn_of k m = Some r" if "k < length (m_threads m)" "turn_of (m_threads m ! k) m \<noteq> None" for k
    using that by (auto simp: thread_turn_def split: result.splits)
  consider "\<exists>r. main_turn strerror label 0 (m_main m) m = Some r"
    | k where "k < length (m_threads m)" "m_threads m ! k \<noteq> Done"
    using main_turn_lives [OF i(1)] by blast
  then show ?thesis
  proof cases
    case 1
    then show ?thesis
      by (intro exI [of _ "Main 0"]) (auto simp: tame_def)
  next
    case 2
    have "\<exists>j. j < length (m_threads m) \<and> turn_of (m_threads m ! j) m \<noteq> None"
    proof (cases "turn_of (m_threads m ! k) m = None")
      case True
      then obtain c where c: "m_threads m ! k = Enter c" "acquire (m_lock m) = None"
        using 2 by (cases "m_threads m ! k") (auto split: option.splits)
      obtain ow where ow: "m_lock m = (if ow = None then free else held)"
        "\<And>j. j < length (m_threads m) \<Longrightarrow> inside (m_threads m ! j) = (ow = Some j)"
        "\<And>j. ow = Some j \<Longrightarrow> j < length (m_threads m)"
        using i(2) unfolding exclusive_def by blast
      then obtain j where "ow = Some j"
        using c(2) acquire_free by (cases ow) auto
      then have "j < length (m_threads m)" "inside (m_threads m ! j)"
        using ow(2,3) by auto
      then show ?thesis
        by (intro exI [of _ j]) (cases "m_threads m ! j"; simp add: inside_def)
    qed (use 2 in blast)
    then obtain j r where "thread_turn turn_of j m = Some r"
      using go by blast
    then show ?thesis
      by (intro exI [of _ "Thread j"] exI [of _ r]) (simp add: tame_def)
  qed
qed

end

sublocale locked_loop \<subseteq> counted: program "counter_turn strerror label (locked_thread init test again acquire release)"
    "locked_inv L w" "counted label (\<lambda>v. v = 2 * L) w" "\<lambda>m. False" "locked_bound (nat L)" tame 0
  for strerror label L w
proof unfold_locales
  fix m a r
  assume "locked_inv L w m" "counting strerror label a m = Some r"
  then show "outcome (locked_inv L w) (counted label (\<lambda>v. v = 2 * L) w (tame a)) r"
    using locked_keeps [of L w m strerror label a r] by (cases r) simp_all
next
  fix m a m'
  assume "locked_inv L w m" "counting strerror label a m = Some (Ret () m')"
  then show "if tame a then locked_bound (nat L) m' < locked_bound (nat L) m
      else locked_bound (nat L) m' \<le> locked_bound (nat L) m + 0"
    using locked_keeps [of L w m strerror label a "Ret () m'"] by simp
next
  fix m
  assume "locked_inv L w m"
  then show "\<exists>a r. tame a \<and> counting strerror label a m = Some r"
    by (rule locked_lives)
qed

section \<open>The programs with a lock\<close>

text \<open>Both control the loop by what is left to do.\<close>

interpretation mutex_loop: locked_loop mutex_lock mutex_unlock False True "\<lambda>loops. loops" down_test "\<lambda>loops. loops" nat "\<lambda>c. 0 \<le> c"
  by unfold_locales (auto simp: down_test_def split: if_splits)

interpretation psem_loop: locked_loop sem_wait sem_post 1 0 up_init up_test up_again "\<lambda>(loops, j). nat (loops - j)" "\<lambda>c. True"
  by unfold_locales (auto simp: up_init_def up_test_def up_again_def split: if_splits)

lemma machine_start_simps [simp]:
  "m_glob (machine_start l L w) = 0" "m_lock (machine_start l L w) = l" "m_loops (machine_start l L w) = L"
  "m_threads (machine_start l L w) = []" "m_main (machine_start l L w) = MCreate 0"
  "con_seen (machine_start l L w) = con_seen w" "con_pending (machine_start l L w) = con_pending w"
  by (simp_all add: machine_start_def console.defs machine.defs)

lemma start_shape: "shape L w (machine_start l L w)"
  by (simp add: shape_def)

context locked_loop
begin

lemma start_inv: "0 < L \<Longrightarrow> 2 * L \<le> INT_MAX \<Longrightarrow> locked_inv L w (machine_start free L w)"
  by (auto simp: locked_inv_def start_shape pending_def current_def exclusive_def intro!: exI [of _ None])

text \<open>What a run from the start can come to.\<close>

lemma locked_run:
  fixes L :: int
  assumes L: "0 < L" "2 * L \<le> INT_MAX"
    and r: "run (counting strerror label) as (Ret () (machine_start free L w)) r"
  shows "r \<noteq> Undef"
    and "r = Exit EXIT_SUCCESS m \<Longrightarrow> m_glob m = 2 * L \<and> printed label (2 * L) w m"
    and "r = Ret () m \<Longrightarrow>
      \<exists>bs m'. list_all tame bs \<and> run (counting strerror label) (as @ bs) (Ret () (machine_start free L w)) (Exit EXIT_SUCCESS m')"
    and "list_all tame as \<Longrightarrow> length as \<le> 12 * nat L + 10"
proof -
  let ?m = "machine_start free L w"
  have inv: "locked_inv L w ?m"
    using start_inv L by blast
  have o: "outcome (locked_inv L w) (\<lambda>k m. \<exists>b. counted label (\<lambda>v. v = 2 * L) w b k m) r"
    using counted.always [OF r] inv by simp
  show "r \<noteq> Undef"
    using o by auto
  show "m_glob m = 2 * L \<and> printed label (2 * L) w m" if "r = Exit EXIT_SUCCESS m"
    using o that by (auto simp: counted_def)
  show "\<exists>bs m'. list_all tame bs \<and> run (counting strerror label) (as @ bs) (Ret () ?m) (Exit EXIT_SUCCESS m')"
    if "r = Ret () m"
    using counted.exits [OF inv r [unfolded that]] by (auto simp: counted_def split: if_splits)
  have "filter tame as = as \<and> filter (\<lambda>a. \<not> tame a) as = []" if "list_all tame as"
    using that by (induction as) auto
  moreover have "locked_bound (nat L) ?m = 12 * nat L + 9"
    by (simp add: locked_bound_def rank_def)
  ultimately show "length as \<le> 12 * nat L + 10" if "list_all tame as"
    using counted.short [OF r inv] that by simp
qed

end

lemma num_loops_pos:
  assumes "num_loops dflt argv w = Ret L w'" "0 < dflt"
  shows "0 < L"
proof (cases "1 < length argv")
  case True
  have g: "getInt (Some (argv ! 1)) GN_GT_0 (Some ''num-loops'') w = Ret L w'"
    using assms(1) True by (simp add: num_loops_def)
  show ?thesis
  proof (rule getNum_cases [of "''getInt''" "Some (argv ! 1)" GN_GT_0 "Some ''num-loops''" w])
    fix v
    assume "getNum ''getInt'' (Some (argv ! 1)) GN_GT_0 (Some ''num-loops'') w = Exit 1 v"
    then show ?thesis
      using g by (simp add: getInt_def bindp_unfold)
  next
    fix i a v base
    assume n: "getNum ''getInt'' (Some (argv ! 1)) GN_GT_0 (Some ''num-loops'') w = Ret i v"
      "GN_GT_0 AND GN_GT_0 = 0 \<or> 0 < i"
    have "gnFail ''getInt'' ''integer out of range'' (Some (argv ! 1)) (Some ''num-loops'') v \<noteq> Ret L w'"
      by (metis gnFail_Exit result.distinct(1))
    then have "i = L"
      using g n(1) by (auto simp: getInt_def bindp_unfold split: if_splits)
    then show ?thesis
      using n(2) by (simp add: GN_GT_0_def)
  qed
qed (use assms in \<open>simp add: num_loops_def\<close>)

text \<open>
  C12: under the mutex no addition is lost. For every number of loops that the argument can give, as long as twice
  the number fits an int, and for every order of turns: nothing is undefined, the program ends after at most
  12 turns for each loop and 10 more when the threads can be created, it can always be carried on
  to its end, and what it prints is twice the number of loops.
\<close>

theorem mutex_counts:
  assumes "num_loops 1000 argv w = Ret L w'" "2 * L \<le> INT_MAX"
    and "run (mutex_turn strerror) as (Ret () (mutex_start L w')) r"
  shows "r \<noteq> Undef
    \<and> (\<forall>m. r = Exit EXIT_SUCCESS m \<longrightarrow> con_seen m = con_seen w' @ [OutText (con_pending w' @ ''glob = '' @ dec_int (2 * L) @ [NL])])
    \<and> (\<forall>m. r = Ret () m \<longrightarrow> (\<exists>bs m'. run (mutex_turn strerror) (as @ bs) (Ret () (mutex_start L w')) (Exit EXIT_SUCCESS m')))
    \<and> (list_all tame as \<longrightarrow> length as \<le> 12 * nat L + 10)"
proof -
  have L: "0 < L"
    using num_loops_pos [OF assms(1)] by simp
  note facts = mutex_loop.locked_run [OF L assms(2) assms(3) [unfolded mutex_turn_def mutex_thread_def mutex_start_def]]
  show ?thesis
    using facts(1) facts(2) facts(3) facts(4)
    unfolding mutex_turn_def mutex_thread_def mutex_start_def printed_def by blast
qed

text \<open>The same under the semaphore.\<close>

theorem psem_counts:
  assumes "num_loops 10000000 argv w = Ret L w'" "2 * L \<le> INT_MAX"
    and "run (psem_turn strerror) as (Ret () (psem_start L w')) r"
  shows "r \<noteq> Undef
    \<and> (\<forall>m. r = Exit EXIT_SUCCESS m \<longrightarrow> con_seen m = con_seen w' @ [OutText (con_pending w' @ ''glob='' @ dec_int (2 * L) @ [NL])])
    \<and> (\<forall>m. r = Ret () m \<longrightarrow> (\<exists>bs m'. run (psem_turn strerror) (as @ bs) (Ret () (psem_start L w')) (Exit EXIT_SUCCESS m')))
    \<and> (list_all tame as \<longrightarrow> length as \<le> 12 * nat L + 10)"
proof -
  have L: "0 < L"
    using num_loops_pos [OF assms(1)] by simp
  note facts = psem_loop.locked_run [OF L assms(2) assms(3) [unfolded psem_turn_def psem_thread_def psem_start_def]]
  show ?thesis
    using facts(1) facts(2) facts(3) facts(4)
    unfolding psem_turn_def psem_thread_def psem_start_def printed_def by blast
qed

section \<open>The program without a lock\<close>


fun turns :: "nat \<Rightarrow> int pc \<Rightarrow> nat" where
  "turns n Start = 4 * n + 2"
| "turns n (Test c) = 4 * nat c + 1"
| "turns n (Load c) = 4 * nat c + 4"
| "turns n (Add c loc) = 4 * nat c + 3"
| "turns n (Store c loc) = 4 * nat c + 2"
| "turns n p = 0"

















section \<open>How much can get lost\<close>

text \<open>A thread on its own.\<close>

definition pair :: "(int, unit) machine \<Rightarrow> int \<Rightarrow> int pc \<Rightarrow> int pc \<Rightarrow> (int, unit) machine" where
  "pair m g p q = m\<lparr>m_glob := g, m_threads := [p, q]\<rparr>"


lemma pair_glob [simp]: "m_glob (pair m g p q) = g" "(pair m g p q)\<lparr>m_glob := h\<rparr> = pair m h p q" "m_loops (pair m g p q) = m_loops m"
  by (simp_all add: pair_def)





section \<open>Examples\<close>

definition no_output :: console where
  "no_output = \<lparr>con_seen = [], con_pending = [], con_errno = 0, con_dumpcore = None\<rparr>"

lemma thousand: "num_loops 1000 [''thread_incr''] w = Ret 1000 w" "num_loops 10000000 [''thread_incr_psem''] w = Ret 10000000 w"
  by (simp_all add: num_loops_def)

theorem mutex_counts_witness:
  "\<exists>bs m. run (mutex_turn (\<lambda>_. [])) bs (Ret () (mutex_start 1000 no_output)) (Exit EXIT_SUCCESS m)
     \<and> con_seen m = [OutText (''glob = 2000'' @ [NL])]"
proof -
  note facts = mutex_counts [OF thousand(1), where strerror = "\<lambda>_. []" and w = no_output]
  have "run (mutex_turn (\<lambda>_. [])) [] (Ret () (mutex_start 1000 no_output)) (Ret () (mutex_start 1000 no_output))"
    by simp
  from facts [OF _ this] obtain bs m where b:
    "run (mutex_turn (\<lambda>_. [])) bs (Ret () (mutex_start 1000 no_output)) (Exit EXIT_SUCCESS m)"
    by (auto simp: INT_MAX_def)
  have "dec_int 2000 = ''2000''"
    by code_simp
  with facts [OF _ b] have "con_seen m = [OutText (''glob = 2000'' @ [NL])]"
    by (simp add: INT_MAX_def no_output_def)
  with b show ?thesis by blast
qed

theorem psem_counts_witness:
  "\<exists>bs m. run (psem_turn (\<lambda>_. [])) bs (Ret () (psem_start 10000000 no_output)) (Exit EXIT_SUCCESS m)
     \<and> con_seen m = [OutText (''glob='' @ dec_int 20000000 @ [NL])]"
proof -
  note facts = psem_counts [OF thousand(2), where strerror = "\<lambda>_. []" and w = no_output]
  have "run (psem_turn (\<lambda>_. [])) [] (Ret () (psem_start 10000000 no_output)) (Ret () (psem_start 10000000 no_output))"
    by simp
  from facts [OF _ this] obtain bs m where b:
    "run (psem_turn (\<lambda>_. [])) bs (Ret () (psem_start 10000000 no_output)) (Exit EXIT_SUCCESS m)"
    by (auto simp: INT_MAX_def)
  with facts [OF _ b] have "con_seen m = [OutText (''glob='' @ dec_int 20000000 @ [NL])]"
    by (simp add: INT_MAX_def no_output_def)
  with b show ?thesis by blast
qed


end
