(* ===== verification/Thread_Multijoin.thy ===== *)
theory Thread_Multijoin
  imports Posix_Io Get_Num Interleaving
begin

text \<open>
  threads/thread_multijoin.c: \<open>main\<close> starts a thread for each argument and joins them in the order in which they
  end, told by a condition variable under a mutex. A turn is what a thread does between two
  synchronisation points.
\<close>

section \<open>The shared state\<close>

datatype tstate = TS_ALIVE | TS_TERMINATED | TS_JOINED

text \<open>
  Where a thread is in \<open>threadFunc\<close>: asleep, at the lock, in the critical section, about to unlock, to
  signal, to return; it has ended.
\<close>

datatype tpc = T_Sleep | T_Lock | T_Update | T_Unlock | T_Signal | T_Return | T_Ended

text \<open>
  Where \<open>main\<close> is: about to create a thread, at the outer loop, at the lock, at the test of
  \<open>numUnjoined\<close>, in \<open>pthread_cond_wait\<close> before and behind the wakeup, at an entry of the array, in \<open>pthread_join\<close>,
  about to unlock.
\<close>

datatype jpc = J_Create nat | J_Loop | J_Lock | J_Test | J_Wait | J_Wake | J_Scan nat | J_Join nat | J_Unlock

text \<open>The fields \<open>state\<close> and \<open>sleepTime\<close> of the array are two lists; the program counters stand for the tids.\<close>

record joiner = console +
  j_state :: "tstate list"
  j_sleepTime :: "int list"
  j_numLive :: int
  j_totThreads :: nat
  j_numUnjoined :: int
  j_mutex :: bool
  j_threads :: "tpc list"
  j_main :: jpc

text \<open>
  A turn of \<open>main\<close> comes with what \<open>pthread_create\<close> returns, if it is called in it; \<open>pthread_cond_wait\<close> may
  return without a signal.
\<close>

datatype jagent = JMain int | JThread nat | Spurious

section \<open>The turns\<close>

definition jprintf :: "string \<Rightarrow> joiner \<Rightarrow> joiner" where
  "jprintf s m = m\<lparr>con_pending := con_pending m @ s\<rparr>"

definition terminating_text :: "nat \<Rightarrow> string" where
  "terminating_text idx = ''Thread ['' @ dec idx @ ''] terminating'' @ [NL]"

definition reaped_text :: "nat \<Rightarrow> int \<Rightarrow> string" where
  "reaped_text idx live = ''Reaped thread '' @ dec idx @ '' (numLive='' @ dec_int live @ '')'' @ [NL]"

text \<open>\<open>pthread_cond_signal\<close>: only \<open>main\<close> waits.\<close>

definition signal_died :: "joiner \<Rightarrow> joiner" where
  "signal_died m = (if j_main m = J_Wait then m\<lparr>j_main := J_Wake\<rparr> else m)"

definition set_thread :: "nat \<Rightarrow> tpc \<Rightarrow> joiner \<Rightarrow> joiner" where
  "set_thread k p m = m\<lparr>j_threads := (j_threads m)[k := p]\<rparr>"

fun thread_func :: "nat \<Rightarrow> tpc \<Rightarrow> joiner \<Rightarrow> joiner option" where
  "thread_func k T_Sleep m = Some (set_thread k T_Lock (jprintf (terminating_text k) m))"
| "thread_func k T_Lock m = (case mutex_lock (j_mutex m) of None \<Rightarrow> None
     | Some l \<Rightarrow> Some (set_thread k T_Update (m\<lparr>j_mutex := l\<rparr>)))"
| "thread_func k T_Update m =
     Some (set_thread k T_Unlock (m\<lparr>j_numUnjoined := j_numUnjoined m + 1, j_state := (j_state m)[k := TS_TERMINATED]\<rparr>))"
| "thread_func k T_Unlock m = Some (set_thread k T_Signal (m\<lparr>j_mutex := mutex_unlock (j_mutex m)\<rparr>))"
| "thread_func k T_Signal m = Some (set_thread k T_Return (signal_died m))"
| "thread_func k T_Return m = Some (set_thread k T_Ended m)"
| "thread_func k T_Ended m = None"

definition create_thread :: "(int \<Rightarrow> string) \<Rightarrow> string list \<Rightarrow> nat \<Rightarrow> int \<Rightarrow> (joiner, unit) prog" where
  "create_thread strerror args idx s =
     bindp (getInt (Some (args ! idx)) GN_NONNEG None) (\<lambda>t.
     thenp (modifyp (\<lambda>m. m\<lparr>j_sleepTime := (j_sleepTime m)[idx := t], j_state := (j_state m)[idx := TS_ALIVE]\<rparr>))
       (if s \<noteq> 0 then errExitEN strerror s ''pthread_create''
        else modifyp (\<lambda>m. m\<lparr>j_threads := j_threads m @ [T_Sleep], j_main := J_Create (idx + 1)\<rparr>)))"

fun joiner_main :: "(int \<Rightarrow> string) \<Rightarrow> string list \<Rightarrow> int \<Rightarrow> jpc \<Rightarrow> joiner \<Rightarrow> (joiner, unit) result option" where
  "joiner_main strerror args s (J_Create idx) m = Some (
     if idx < length args then create_thread strerror args idx s m
     else Ret () (m\<lparr>j_numLive := int (length args), j_totThreads := length args, j_main := J_Loop\<rparr>))"
| "joiner_main strerror args s J_Loop m = Some (
     if j_numLive m \<noteq> 0 then Ret () (m\<lparr>j_main := J_Lock\<rparr>) else exit_process EXIT_SUCCESS m)"
| "joiner_main strerror args s J_Lock m = (case mutex_lock (j_mutex m) of None \<Rightarrow> None
     | Some l \<Rightarrow> Some (Ret () (m\<lparr>j_mutex := l, j_main := J_Test\<rparr>)))"
| "joiner_main strerror args s J_Test m = Some (Ret () (
     if j_numUnjoined m = 0 then m\<lparr>j_mutex := mutex_unlock (j_mutex m), j_main := J_Wait\<rparr> else m\<lparr>j_main := J_Scan 0\<rparr>))"
| "joiner_main strerror args s J_Wait m = None"
| "joiner_main strerror args s J_Wake m = (case mutex_lock (j_mutex m) of None \<Rightarrow> None
     | Some l \<Rightarrow> Some (Ret () (m\<lparr>j_mutex := l, j_main := J_Test\<rparr>)))"
| "joiner_main strerror args s (J_Scan idx) m = Some (Ret () (
     if idx < j_totThreads m
     then (if j_state m ! idx = TS_TERMINATED then m\<lparr>j_main := J_Join idx\<rparr> else m\<lparr>j_main := J_Scan (idx + 1)\<rparr>)
     else m\<lparr>j_main := J_Unlock\<rparr>))"
| "joiner_main strerror args s (J_Join idx) m =
     (if j_threads m ! idx = T_Ended
      then Some (Ret () (jprintf (reaped_text idx (j_numLive m - 1)) (m\<lparr>j_state := (j_state m)[idx := TS_JOINED],
             j_numLive := j_numLive m - 1, j_numUnjoined := j_numUnjoined m - 1, j_main := J_Scan (idx + 1)\<rparr>)))
      else None)"
| "joiner_main strerror args s J_Unlock m =
     Some (Ret () (m\<lparr>j_mutex := mutex_unlock (j_mutex m), j_main := J_Loop\<rparr>))"

fun multijoin_turn :: "(int \<Rightarrow> string) \<Rightarrow> string list \<Rightarrow> (jagent, joiner) turns" where
  "multijoin_turn strerror args (JMain s) m = joiner_main strerror args s (j_main m) m"
| "multijoin_turn strerror args (JThread k) m =
     (if k < length (j_threads m) then map_option (Ret ()) (thread_func k (j_threads m ! k) m) else None)"
| "multijoin_turn strerror args Spurious m = (if j_main m = J_Wait then Some (Ret () (m\<lparr>j_main := J_Wake\<rparr>)) else None)"

text \<open>\<open>main\<close> up to the creation of the threads; the memory that calloc returns is zero, which is TS_ALIVE.\<close>

definition joiner_start :: "nat \<Rightarrow> console \<Rightarrow> joiner" where
  "joiner_start n w = console.extend w (joiner.fields (replicate n TS_ALIVE) (replicate n 0) 0 0 0 False [] (J_Create 0))"

definition multijoin :: "(int \<Rightarrow> string) \<Rightarrow> bool \<Rightarrow> string list \<Rightarrow> (console, joiner) prog" where
  "multijoin strerror calloc_ok argv =
     (if length argv < 2 \<or> argv ! 1 = ''--help'' then usageErr (argv ! 0 @ '' nsecs...'' @ [NL])
      else if \<not> calloc_ok then errExit strerror ''calloc''
      else getsp (joiner_start (length argv - 1)))"

section \<open>What holds between two turns\<close>

text \<open>The entry of a thread follows from where the thread is, except that \<open>main\<close> turns TERMINATED into JOINED.\<close>

fun matches :: "tpc \<Rightarrow> tstate \<Rightarrow> bool" where
  "matches T_Sleep s = (s = TS_ALIVE)"
| "matches T_Lock s = (s = TS_ALIVE)"
| "matches T_Update s = (s = TS_ALIVE)"
| "matches T_Unlock s = (s = TS_TERMINATED)"
| "matches T_Signal s = (s = TS_TERMINATED)"
| "matches T_Return s = (s = TS_TERMINATED)"
| "matches T_Ended s = (s \<noteq> TS_ALIVE)"

definition states_ok :: "nat \<Rightarrow> tpc list \<Rightarrow> tstate list \<Rightarrow> int \<Rightarrow> bool" where
  "states_ok n pcs sts u \<longleftrightarrow> length sts = n \<and> length pcs \<le> n \<and> u = int (count_list sts TS_TERMINATED)
     \<and> (\<forall>k<n. if k < length pcs then matches (pcs ! k) (sts ! k) else sts ! k = TS_ALIVE)"

text \<open>The mutex is held by \<open>main\<close> (\<open>Some None\<close>), by a thread, or by nobody.\<close>

definition main_holds :: "jpc \<Rightarrow> bool" where
  "main_holds p = (case p of J_Test \<Rightarrow> True | J_Scan _ \<Rightarrow> True | J_Join _ \<Rightarrow> True | J_Unlock \<Rightarrow> True | _ \<Rightarrow> False)"

definition thread_holds :: "tpc \<Rightarrow> bool" where
  "thread_holds p = (p = T_Update \<or> p = T_Unlock)"

definition mutex_ok :: "bool \<Rightarrow> jpc \<Rightarrow> tpc list \<Rightarrow> bool" where
  "mutex_ok mx mp pcs \<longleftrightarrow> (\<exists>ow. mx = (ow \<noteq> None) \<and> main_holds mp = (ow = Some None)
     \<and> (\<forall>k<length pcs. thread_holds (pcs ! k) = (ow = Some (Some k))) \<and> (\<forall>k. ow = Some (Some k) \<longrightarrow> k < length pcs))"

definition main_ok :: "nat \<Rightarrow> jpc \<Rightarrow> tpc list \<Rightarrow> tstate list \<Rightarrow> int \<Rightarrow> int \<Rightarrow> nat \<Rightarrow> bool" where
  "main_ok n mp pcs sts u live tot \<longleftrightarrow> (case mp of
       J_Create i \<Rightarrow> length pcs = i \<and> count_list sts TS_JOINED = 0
     | _ \<Rightarrow> length pcs = n \<and> tot = n \<and> live = int n - int (count_list sts TS_JOINED)
        \<and> (case mp of
             J_Scan i \<Rightarrow> i \<le> n \<and> (\<forall>k<i. sts ! k \<noteq> TS_TERMINATED)
           | J_Join i \<Rightarrow> i < n \<and> sts ! i = TS_TERMINATED \<and> (\<forall>k<i. sts ! k \<noteq> TS_TERMINATED)
           | J_Unlock \<Rightarrow> u = 0
           | J_Loop \<Rightarrow> True
           | J_Wait \<Rightarrow> 0 < live \<and> (u = 0 \<or> (\<exists>k<n. pcs ! k = T_Unlock \<or> pcs ! k = T_Signal))
           | _ \<Rightarrow> 0 < live))"

text \<open>What has been printed.\<close>

datatype event = Terminating nat | Reaped nat int

fun event_text :: "event \<Rightarrow> string" where
  "event_text (Terminating k) = terminating_text k"
| "event_text (Reaped k live) = reaped_text k live"

definition said :: "event list \<Rightarrow> string" where
  "said evs = concat (map event_text evs)"

fun terminatings :: "event list \<Rightarrow> nat list" where
  "terminatings [] = []"
| "terminatings (Terminating k # evs) = k # terminatings evs"
| "terminatings (Reaped k live # evs) = terminatings evs"

fun reapings :: "event list \<Rightarrow> (nat \<times> int) list" where
  "reapings [] = []"
| "reapings (Terminating k # evs) = reapings evs"
| "reapings (Reaped k live # evs) = (k, live) # reapings evs"

lemma said_append [simp]: "said (evs @ [e]) = said evs @ event_text e"
  by (simp add: said_def)

lemma terminatings_append [simp]: "terminatings (evs @ evs') = terminatings evs @ terminatings evs'"
  by (induction evs rule: terminatings.induct) auto

lemma reapings_append [simp]: "reapings (evs @ evs') = reapings evs @ reapings evs'"
  by (induction evs rule: reapings.induct) auto

text \<open>Every thread ends once, is reaped once, after it has ended, and the count goes down by one.\<close>

definition in_order :: "nat \<Rightarrow> event list \<Rightarrow> bool" where
  "in_order n evs \<longleftrightarrow> distinct (terminatings evs) \<and> distinct (map fst (reapings evs))
     \<and> map snd (reapings evs) = map (\<lambda>i. int n - 1 - int i) [0..<length (reapings evs)]
     \<and> (\<forall>pre k live post. evs = pre @ Reaped k live # post \<longrightarrow> Terminating k \<in> set pre)"

definition log_ok :: "console \<Rightarrow> nat \<Rightarrow> joiner \<Rightarrow> bool" where
  "log_ok w n m \<longleftrightarrow> con_seen m = con_seen w \<and> (\<exists>evs. con_pending m = con_pending w @ said evs \<and> in_order n evs
     \<and> set (terminatings evs) = {k. k < length (j_threads m) \<and> j_threads m ! k \<noteq> T_Sleep}
     \<and> set (map fst (reapings evs)) = {k. k < n \<and> j_state m ! k = TS_JOINED})"

definition join_inv :: "console \<Rightarrow> nat \<Rightarrow> joiner \<Rightarrow> bool" where
  "join_inv w n m \<longleftrightarrow> states_ok n (j_threads m) (j_state m) (j_numUnjoined m) \<and> mutex_ok (j_mutex m) (j_main m) (j_threads m)
     \<and> main_ok n (j_main m) (j_threads m) (j_state m) (j_numUnjoined m) (j_numLive m) (j_totThreads m) \<and> log_ok w n m"

section \<open>Turns of the threads\<close>

lemma states_thread:
  assumes "states_ok n pcs sts u" "k < length pcs" "matches p (sts ! k)"
  shows "states_ok n (pcs[k := p]) sts u"
  using assms by (auto simp: states_ok_def nth_list_update)

lemma states_terminated:
  assumes "states_ok n pcs sts u" "k < length pcs" "pcs ! k = T_Update"
  shows "states_ok n (pcs[k := T_Unlock]) (sts[k := TS_TERMINATED]) (u + 1)"
proof -
  have "k < n" "matches (pcs ! k) (sts ! k)"
    using assms(1,2) unfolding states_ok_def by (fastforce dest: spec [of _ k])+
  then have k: "k < length sts" "sts ! k = TS_ALIVE"
    using assms by (simp_all add: states_ok_def)
  have "count_list (sts[k := TS_TERMINATED]) TS_TERMINATED = count_list sts TS_TERMINATED + 1"
    using count_list_update [OF k(1), of TS_TERMINATED TS_TERMINATED] k(2) by simp
  then show ?thesis
    using assms k by (auto simp: states_ok_def nth_list_update)
qed

lemma mutex_thread_ok:
  assumes "mutex_ok mx mp pcs" "k < length pcs"
  shows "thread_holds p = thread_holds (pcs ! k) \<Longrightarrow> mutex_ok mx mp (pcs[k := p])"
    and "\<not> mx \<Longrightarrow> thread_holds p \<Longrightarrow> mutex_ok True mp (pcs[k := p])"
    and "thread_holds (pcs ! k) \<Longrightarrow> \<not> thread_holds p \<Longrightarrow> mutex_ok False mp (pcs[k := p])"
    and "thread_holds (pcs ! k) \<Longrightarrow> mx \<and> \<not> main_holds mp"
proof -
  obtain ow where ow: "mx = (ow \<noteq> None)" "main_holds mp = (ow = Some None)"
    "\<And>k. k < length pcs \<Longrightarrow> thread_holds (pcs ! k) = (ow = Some (Some k))" "\<And>k. ow = Some (Some k) \<Longrightarrow> k < length pcs"
    using assms(1) unfolding mutex_ok_def by blast
  show "mutex_ok mx mp (pcs[k := p])" if "thread_holds p = thread_holds (pcs ! k)"
    unfolding mutex_ok_def using ow assms(2) that by (intro exI [of _ ow]) (auto simp: nth_list_update)
  show "mutex_ok True mp (pcs[k := p])" if "\<not> mx" "thread_holds p"
    unfolding mutex_ok_def using ow assms(2) that by (intro exI [of _ "Some (Some k)"]) (auto simp: nth_list_update)
  show "mutex_ok False mp (pcs[k := p])" if "thread_holds (pcs ! k)" "\<not> thread_holds p"
    unfolding mutex_ok_def using ow assms(2) that by (intro exI [of _ None]) (auto simp: nth_list_update)
  show "mx \<and> \<not> main_holds mp" if "thread_holds (pcs ! k)"
    using ow assms(2) that by auto
qed

lemma mutex_main_ok:
  assumes "mutex_ok mx mp pcs"
  shows "main_holds mp' = main_holds mp \<Longrightarrow> mutex_ok mx mp' pcs"
    and "\<not> mx \<Longrightarrow> main_holds mp' \<Longrightarrow> mutex_ok True mp' pcs"
    and "main_holds mp \<Longrightarrow> \<not> main_holds mp' \<Longrightarrow> mutex_ok False mp' pcs"
    and "main_holds mp \<Longrightarrow> mx \<and> (\<forall>k<length pcs. \<not> thread_holds (pcs ! k))"
proof -
  obtain ow where ow: "mx = (ow \<noteq> None)" "main_holds mp = (ow = Some None)"
    "\<And>k. k < length pcs \<Longrightarrow> thread_holds (pcs ! k) = (ow = Some (Some k))" "\<And>k. ow = Some (Some k) \<Longrightarrow> k < length pcs"
    using assms(1) unfolding mutex_ok_def by blast
  show "mutex_ok mx mp' pcs" if "main_holds mp' = main_holds mp"
    unfolding mutex_ok_def using ow that by (intro exI [of _ ow]) auto
  show "mutex_ok True mp' pcs" if "\<not> mx" "main_holds mp'"
    unfolding mutex_ok_def using ow that by (intro exI [of _ "Some None"]) auto
  show "mutex_ok False mp' pcs" if "main_holds mp" "\<not> main_holds mp'"
    unfolding mutex_ok_def using ow that by (intro exI [of _ None]) auto
  show "mx \<and> (\<forall>k<length pcs. \<not> thread_holds (pcs ! k))" if "main_holds mp"
    using ow that by auto
qed

lemma terminatings_set: "k \<in> set (terminatings evs) \<longleftrightarrow> Terminating k \<in> set evs"
  by (induction evs rule: terminatings.induct) auto

lemma snoc_split: "xs @ [x] = pre @ y # post \<longleftrightarrow> (xs = pre \<and> x = y \<and> post = []) \<or> (\<exists>post'. xs = pre @ y # post' \<and> post = post' @ [x])"
  by (cases post rule: rev_cases) auto

lemma in_order_terminating: "in_order n evs \<Longrightarrow> k \<notin> set (terminatings evs) \<Longrightarrow> in_order n (evs @ [Terminating k])"
  by (auto simp: in_order_def snoc_split)

lemma in_order_reaped:
  "in_order n evs \<Longrightarrow> k \<in> set (terminatings evs) \<Longrightarrow> k \<notin> set (map fst (reapings evs)) \<Longrightarrow>
     live = int n - 1 - int (length (reapings evs)) \<Longrightarrow> in_order n (evs @ [Reaped k live])"
  by (auto simp: in_order_def snoc_split terminatings_set)

lemma log_same:
  assumes "log_ok w n m" "con_seen m' = con_seen m" "con_pending m' = con_pending m"
    "{k. k < length (j_threads m') \<and> j_threads m' ! k \<noteq> T_Sleep} = {k. k < length (j_threads m) \<and> j_threads m ! k \<noteq> T_Sleep}"
    "{k. k < n \<and> j_state m' ! k = TS_JOINED} = {k. k < n \<and> j_state m ! k = TS_JOINED}"
  shows "log_ok w n m'"
  using assms unfolding log_ok_def by simp

lemma log_terminating:
  assumes "log_ok w n m" "k < length (j_threads m)" "j_threads m ! k = T_Sleep"
  shows "log_ok w n (set_thread k T_Lock (jprintf (terminating_text k) m))"
proof -
  obtain evs where e: "con_seen m = con_seen w" "con_pending m = con_pending w @ said evs" "in_order n evs"
    "set (terminatings evs) = {k. k < length (j_threads m) \<and> j_threads m ! k \<noteq> T_Sleep}"
    "set (map fst (reapings evs)) = {k. k < n \<and> j_state m ! k = TS_JOINED}"
    using assms(1) unfolding log_ok_def by blast
  have "in_order n (evs @ [Terminating k])"
    using in_order_terminating [OF e(3)] e(4) assms(3) by simp
  moreover have "set (terminatings (evs @ [Terminating k]))
      = {j. j < length (j_threads m) \<and> (j_threads m)[k := T_Lock] ! j \<noteq> T_Sleep}"
    using e(4) assms(2,3) by (auto simp: nth_list_update)
  ultimately show ?thesis
    unfolding log_ok_def using e
    by (intro conjI exI [of _ "evs @ [Terminating k]"]) (simp_all add: set_thread_def jprintf_def)
qed

text \<open>What a thread needs at most; a turn of \<open>main\<close> back to the mutex is paid for by the signal.\<close>

fun thread_cost :: "tpc \<Rightarrow> nat" where
  "thread_cost T_Sleep = 8"
| "thread_cost T_Lock = 7"
| "thread_cost T_Update = 6"
| "thread_cost T_Unlock = 5"
| "thread_cost T_Signal = 4"
| "thread_cost T_Return = 1"
| "thread_cost T_Ended = 0"

text \<open>
  What \<open>main\<close> needs: for each thread that is not joined a round of the loop; what it joins in this
  round, it does not have to wait for again.
\<close>

fun main_cost :: "nat \<Rightarrow> nat \<Rightarrow> nat \<Rightarrow> jpc \<Rightarrow> nat" where
  "main_cost n live u (J_Create i) = n * (2 * n + 8) + 2 + (n - i) * 9"
| "main_cost n live u J_Loop = live * (2 * n + 8) + 1"
| "main_cost n live u J_Lock = live * (2 * n + 8)"
| "main_cost n live u J_Test = live * (2 * n + 8) - 1"
| "main_cost n live u J_Wait = live * (2 * n + 8) - 2"
| "main_cost n live u J_Wake = live * (2 * n + 8)"
| "main_cost n live u (J_Scan i) = (live - u) * (2 * n + 8) + 3 + 2 * (n - i)"
| "main_cost n live u (J_Join i) = (live - u) * (2 * n + 8) + 2 + 2 * (n - i)"
| "main_cost n live u J_Unlock = live * (2 * n + 8) + 2"

definition join_bound :: "nat \<Rightarrow> joiner \<Rightarrow> nat" where
  "join_bound n m = sum_list (map thread_cost (j_threads m))
     + main_cost n (nat (j_numLive m)) (nat (j_numUnjoined m)) (j_main m)"

lemma main_cost_u: "\<not> main_holds p \<Longrightarrow> main_cost n live u p = main_cost n live u' p"
  by (cases p) (simp_all add: main_holds_def)

lemma thread_func_ok:
  assumes inv: "join_inv w n m" and k: "k < length (j_threads m)" and t: "thread_func k (j_threads m ! k) m = Some m'"
  shows "join_inv w n m' \<and> join_bound n m' < join_bound n m"
proof -
  let ?pc = "j_threads m ! k"
  have i: "states_ok n (j_threads m) (j_state m) (j_numUnjoined m)" "mutex_ok (j_mutex m) (j_main m) (j_threads m)"
    "main_ok n (j_main m) (j_threads m) (j_state m) (j_numUnjoined m) (j_numLive m) (j_totThreads m)" "log_ok w n m"
    using inv by (simp_all add: join_inv_def)
  have kn: "k < n" "length (j_state m) = n" "matches ?pc (j_state m ! k)"
    using i(1) k by (auto simp: states_ok_def)
  have cost: "sum_list (map thread_cost ((j_threads m)[k := p])) + thread_cost ?pc = sum_list (map thread_cost (j_threads m)) + thread_cost p" for p
    using sum_list_map_update [OF k] .
  have moved: "{j. j < length ((j_threads m)[k := p]) \<and> (j_threads m)[k := p] ! j \<noteq> T_Sleep}
      = {j. j < length (j_threads m) \<and> j_threads m ! j \<noteq> T_Sleep}" if "?pc \<noteq> T_Sleep" "p \<noteq> T_Sleep" for p
    using that k by (auto simp: nth_list_update)
  have quiet: "main_ok n (j_main m) ((j_threads m)[k := p]) (j_state m) (j_numUnjoined m) (j_numLive m) (j_totThreads m)"
    if "?pc \<in> {T_Unlock, T_Signal} \<Longrightarrow> p \<in> {T_Unlock, T_Signal} \<or> j_main m \<noteq> J_Wait" for p
  proof (cases "j_main m = J_Wait")
    case True
    have "\<exists>j<n. (j_threads m)[k := p] ! j = T_Unlock \<or> (j_threads m)[k := p] ! j = T_Signal"
      if "j < n" "j_threads m ! j = T_Unlock \<or> j_threads m ! j = T_Signal" for j
      using that \<open>_ \<Longrightarrow> p \<in> _ \<or> _\<close> True k by (intro exI [of _ j]) (cases "j = k"; auto)
    then show ?thesis
      using i(3) True by (auto simp: main_ok_def)
  next
    case False
    then show ?thesis
      using i(3) by (cases "j_main m") (auto simp: main_ok_def)
  qed
  show ?thesis
  proof (cases ?pc)
    case T_Sleep
    then show ?thesis
      using t i(2) kn cost [of T_Lock] quiet [of T_Lock] log_terminating [OF i(4) k T_Sleep] states_thread [OF i(1) k, of T_Lock]
        mutex_thread_ok(1) [OF i(2) k, of T_Lock]
      by (auto simp: join_inv_def join_bound_def set_thread_def jprintf_def thread_holds_def)
  next
    case T_Lock
    then have mx: "\<not> j_mutex m" "m' = set_thread k T_Update (m\<lparr>j_mutex := True\<rparr>)"
      using t by (auto simp: mutex_lock_def split: if_splits)
    then show ?thesis
      using T_Lock kn cost [of T_Update] quiet [of T_Update] states_thread [OF i(1) k, of T_Update]
        mutex_thread_ok(2) [OF i(2) k, of T_Update] log_same [OF i(4), of m'] moved [of T_Update]
      by (auto simp: join_inv_def join_bound_def set_thread_def thread_holds_def)
  next
    case T_Update
    have m': "m' = set_thread k T_Unlock (m\<lparr>j_numUnjoined := j_numUnjoined m + 1, j_state := (j_state m)[k := TS_TERMINATED]\<rparr>)"
      using t T_Update by simp
    have idle: "\<not> main_holds (j_main m)"
      using mutex_thread_ok(4) [OF i(2) k] T_Update by (simp add: thread_holds_def)
    have alive: "j_state m ! k = TS_ALIVE"
      using kn(3) T_Update by simp
    then have "count_list ((j_state m)[k := TS_TERMINATED]) TS_JOINED = count_list (j_state m) TS_JOINED"
      using count_list_update [of k "j_state m" TS_TERMINATED TS_JOINED] kn by simp
    then have "main_ok n (j_main m) ((j_threads m)[k := T_Unlock]) ((j_state m)[k := TS_TERMINATED]) (j_numUnjoined m + 1)
        (j_numLive m) (j_totThreads m)"
      using i(3) idle kn k by (cases "j_main m") (auto simp: main_ok_def main_holds_def intro!: exI [of _ k])
    moreover have "{j. j < n \<and> (j_state m)[k := TS_TERMINATED] ! j = TS_JOINED} = {j. j < n \<and> j_state m ! j = TS_JOINED}"
      using alive kn by (auto simp: nth_list_update)
    ultimately show ?thesis
      using m' T_Update kn cost [of T_Unlock] states_terminated [OF i(1) k T_Update] mutex_thread_ok(1) [OF i(2) k, of T_Unlock]
        log_same [OF i(4), of m'] moved [of T_Unlock]
        main_cost_u [OF idle, of n "nat (j_numLive m)" "nat (j_numUnjoined m + 1)" "nat (j_numUnjoined m)"]
      by (auto simp: join_inv_def join_bound_def set_thread_def thread_holds_def)
  next
    case T_Unlock
    then have m': "m' = set_thread k T_Signal (m\<lparr>j_mutex := False\<rparr>)"
      using t by (auto simp: mutex_unlock_def)
    then show ?thesis
      using T_Unlock kn cost [of T_Signal] quiet [of T_Signal] states_thread [OF i(1) k, of T_Signal]
        mutex_thread_ok(3) [OF i(2) k, of T_Signal] log_same [OF i(4), of m'] moved [of T_Signal]
      by (auto simp: join_inv_def join_bound_def set_thread_def thread_holds_def)
  next
    case T_Signal
    show ?thesis
    proof (cases "j_main m = J_Wait")
      case True
      have m': "m' = set_thread k T_Return (m\<lparr>j_main := J_Wake\<rparr>)"
        using t T_Signal True by (auto simp: signal_died_def)
      have "main_ok n J_Wake ((j_threads m)[k := T_Return]) (j_state m) (j_numUnjoined m) (j_numLive m) (j_totThreads m)"
        using i(3) True by (simp add: main_ok_def)
      moreover have "mutex_ok (j_mutex m) J_Wake ((j_threads m)[k := T_Return])"
        using mutex_main_ok(1) [OF mutex_thread_ok(1) [OF i(2) k, of T_Return], of J_Wake] T_Signal True
        by (simp add: thread_holds_def main_holds_def)
      ultimately show ?thesis
        using m' T_Signal True kn cost [of T_Return] states_thread [OF i(1) k, of T_Return] log_same [OF i(4), of m'] moved [of T_Return]
        by (auto simp: join_inv_def join_bound_def set_thread_def)
    next
      case False
      then have m': "m' = set_thread k T_Return m"
        using t T_Signal by (auto simp: signal_died_def)
      then show ?thesis
        using T_Signal False kn cost [of T_Return] quiet [of T_Return] states_thread [OF i(1) k, of T_Return]
          mutex_thread_ok(1) [OF i(2) k, of T_Return] log_same [OF i(4), of m'] moved [of T_Return]
        by (auto simp: join_inv_def join_bound_def set_thread_def thread_holds_def)
    qed
  next
    case T_Return
    then have m': "m' = set_thread k T_Ended m"
      using t by simp
    then show ?thesis
      using T_Return kn cost [of T_Ended] quiet [of T_Ended] states_thread [OF i(1) k, of T_Ended]
        mutex_thread_ok(1) [OF i(2) k, of T_Ended] log_same [OF i(4), of m'] moved [of T_Ended]
      by (auto simp: join_inv_def join_bound_def set_thread_def thread_holds_def)
  qed (use t in simp)
qed

section \<open>Turns of main\<close>

definition arg_ok :: "string \<Rightarrow> bool" where
  "arg_ok a \<longleftrightarrow> a \<noteq> [] \<and> (case strtol 10 a of (t, rest, err) \<Rightarrow> rest = [] \<and> err = None \<and> 0 \<le> t \<and> t \<le> INT_MAX)"

lemma getInt_nonneg: "arg_ok a \<Longrightarrow> \<exists>t. getInt (Some a) GN_NONNEG name w = Ret t (w\<lparr>con_errno := 0\<rparr>)"
  by (auto simp: arg_ok_def getInt_def getNum_def bindp_unfold thenp_unfold GN_NONNEG_def GN_ANY_BASE_def GN_BASE_8_def
      GN_BASE_16_def GN_GT_0_def INT_MAX_def INT_MIN_def)

definition all_joined :: "console \<Rightarrow> nat \<Rightarrow> joiner \<Rightarrow> bool" where
  "all_joined w n m \<longleftrightarrow> (\<exists>evs. con_seen m = con_seen w @ [OutText (con_pending w @ said evs)] \<and> in_order n evs
     \<and> set (terminatings evs) = {..<n} \<and> set (map fst (reapings evs)) = {..<n})"

definition joined :: "console \<Rightarrow> nat \<Rightarrow> bool \<Rightarrow> int \<Rightarrow> joiner \<Rightarrow> bool" where
  "joined w n b k m \<longleftrightarrow> (if k = EXIT_SUCCESS then all_joined w n m else \<not> b)"

lemma count_none: "length xs = n \<Longrightarrow> (\<And>k. k < n \<Longrightarrow> xs ! k \<noteq> y) \<Longrightarrow> count_list xs y = 0"
  by (simp add: count_card)

lemma text_not_empty: "event_text e \<noteq> []"
  by (cases e) (simp_all add: terminating_text_def reaped_text_def)

lemma loop_exit:
  assumes inv: "join_inv w n m" and n: "0 < n" and at: "j_main m = J_Loop" "j_numLive m = 0"
  shows "\<exists>m'. (exit_process EXIT_SUCCESS :: (joiner, unit) prog) m = Exit EXIT_SUCCESS m' \<and> all_joined w n m'"
proof -
  have i: "states_ok n (j_threads m) (j_state m) (j_numUnjoined m)" "length (j_threads m) = n"
    "count_list (j_state m) TS_JOINED = n" "log_ok w n m"
    using inv at by (auto simp: join_inv_def main_ok_def)
  have all: "j_state m ! k = TS_JOINED" if "k < n" for k
    using count_all [OF _ i(3) that] i(1) by (simp add: states_ok_def)
  have ended: "j_threads m ! k \<noteq> T_Sleep" if "k < n" for k
    using i(1,2) all [OF that] that unfolding states_ok_def by fastforce
  obtain evs where e: "con_seen m = con_seen w" "con_pending m = con_pending w @ said evs" "in_order n evs"
    "set (terminatings evs) = {k. k < length (j_threads m) \<and> j_threads m ! k \<noteq> T_Sleep}"
    "set (map fst (reapings evs)) = {k. k < n \<and> j_state m ! k = TS_JOINED}"
    using i(4) unfolding log_ok_def by blast
  have "set (terminatings evs) = {..<n}" "set (map fst (reapings evs)) = {..<n}"
    using e(4,5) all ended i(2) by auto
  moreover have "said evs \<noteq> []"
    using \<open>set (terminatings evs) = {..<n}\<close> n text_not_empty by (cases evs) (auto simp: said_def)
  ultimately show ?thesis
    using e by (auto simp: exit_process_def thenp_unfold fflush_stdout_def flushed_def all_joined_def)
qed

lemma create_ok:
  assumes inv: "join_inv w (length args) m" and at: "j_main m = J_Create i" "i < length args" and args: "list_all arg_ok args"
  shows "outcome (\<lambda>m'. join_inv w (length args) m' \<and> join_bound (length args) m' < join_bound (length args) m)
    (joined w (length args) (s = 0)) (create_thread strerror args i s m)"
proof -
  let ?n = "length args"
  have i: "states_ok ?n (j_threads m) (j_state m) (j_numUnjoined m)" "mutex_ok (j_mutex m) (J_Create i) (j_threads m)"
    "length (j_threads m) = i" "count_list (j_state m) TS_JOINED = 0" "log_ok w ?n m"
    using inv at by (auto simp: join_inv_def main_ok_def)
  have "arg_ok (args ! i)"
    using args at(2) by (simp add: list_all_length)
  then obtain t where t: "getInt (Some (args ! i)) GN_NONNEG None m = Ret t (m\<lparr>con_errno := 0\<rparr>)"
    using getInt_nonneg by blast
  have st: "(j_state m)[i := TS_ALIVE] = j_state m"
    using i(1,3) at(2) by (auto simp: states_ok_def list_update_same_conv)
  show ?thesis
  proof (cases "s = 0")
    case True
    let ?m = "m\<lparr>con_errno := 0, j_sleepTime := (j_sleepTime m)[i := t], j_threads := j_threads m @ [T_Sleep], j_main := J_Create (i + 1)\<rparr>"
    have run: "create_thread strerror args i s m = Ret () ?m"
      using t True st by (simp add: create_thread_def bindp_unfold thenp_unfold)
    have "states_ok ?n (j_threads m @ [T_Sleep]) (j_state m) (j_numUnjoined m)"
      using i(1,3) at(2) by (auto simp: states_ok_def nth_append less_Suc_eq)
    moreover have "mutex_ok (j_mutex m) (J_Create (i + 1)) (j_threads m @ [T_Sleep])"
    proof -
      obtain ow where ow: "j_mutex m = (ow \<noteq> None)" "ow \<noteq> Some None"
        "\<And>k. k < i \<Longrightarrow> thread_holds (j_threads m ! k) = (ow = Some (Some k))" "\<And>k. ow = Some (Some k) \<Longrightarrow> k < i"
        using i(2,3) unfolding mutex_ok_def by (auto simp: main_holds_def)
      then show ?thesis
        unfolding mutex_ok_def using i(3)
        by (intro exI [of _ ow]) (auto simp: main_holds_def thread_holds_def nth_append less_Suc_eq)
    qed
    moreover have "{k. k < length (j_threads m @ [T_Sleep]) \<and> (j_threads m @ [T_Sleep]) ! k \<noteq> T_Sleep}
        = {k. k < length (j_threads m) \<and> j_threads m ! k \<noteq> T_Sleep}"
      by (auto simp: nth_append less_Suc_eq)
    moreover have "9 * (?n - i) = 9 * (?n - Suc i) + 9"
      using at(2) by simp
    ultimately show ?thesis
      using run i at(2) log_same [OF i(5), of ?m] at(1)
      by (simp add: join_inv_def main_ok_def join_bound_def)
  next
    case False
    then show ?thesis
      using t st by (auto simp: create_thread_def bindp_unfold thenp_unfold joined_def EXIT_SUCCESS_def errExitEN_def outputError_def
          terminate_def fputs_stderr_def abort_process_def exit_process_def sys_exit_def fflush_stdout_def)
  qed
qed

lemma join_ok:
  assumes inv: "join_inv w n m" and at: "j_main m = J_Join i" "j_threads m ! i = T_Ended"
    and m': "m' = jprintf (reaped_text i (j_numLive m - 1)) (m\<lparr>j_state := (j_state m)[i := TS_JOINED],
             j_numLive := j_numLive m - 1, j_numUnjoined := j_numUnjoined m - 1, j_main := J_Scan (i + 1)\<rparr>)"
  shows "join_inv w n m' \<and> join_bound n m' < join_bound n m"
proof -
  have inv': "states_ok n (j_threads m) (j_state m) (j_numUnjoined m)" "mutex_ok (j_mutex m) (J_Join i) (j_threads m)"
    "length (j_threads m) = n" "j_totThreads m = n" "j_numLive m = int n - int (count_list (j_state m) TS_JOINED)"
    "i < n" "j_state m ! i = TS_TERMINATED" "\<forall>k<i. j_state m ! k \<noteq> TS_TERMINATED" "log_ok w n m"
    using inv at by (auto simp: join_inv_def main_ok_def)
  have len: "length (j_state m) = n" "j_numUnjoined m = int (count_list (j_state m) TS_TERMINATED)"
    using inv'(1) by (simp_all add: states_ok_def)
  let ?sts = "(j_state m)[i := TS_JOINED]"
  have counts: "count_list ?sts TS_JOINED = Suc (count_list (j_state m) TS_JOINED)"
    "Suc (count_list ?sts TS_TERMINATED) = count_list (j_state m) TS_TERMINATED"
    using count_list_update [of i "j_state m" TS_JOINED TS_JOINED] count_list_update [of i "j_state m" TS_JOINED TS_TERMINATED]
      inv'(6,7) len(1) by simp_all
  have "count_list ?sts TS_JOINED \<le> n"
    using count_le_length [of ?sts TS_JOINED] len(1) by simp
  then have live: "1 \<le> j_numLive m" "1 \<le> j_numUnjoined m"
    using inv'(5) counts len(2) by simp_all
  have "states_ok n (j_threads m) ?sts (j_numUnjoined m - 1)"
    using inv'(1,3,6) at(2) counts(2) len by (auto simp: states_ok_def nth_list_update)
  moreover have "mutex_ok (j_mutex m) (J_Scan (i + 1)) (j_threads m)"
    using mutex_main_ok(1) [OF inv'(2), of "J_Scan (i + 1)"] by (simp add: main_holds_def)
  moreover have "main_ok n (J_Scan (i + 1)) (j_threads m) ?sts (j_numUnjoined m - 1) (j_numLive m - 1) (j_totThreads m)"
    using inv'(3-8) counts(1) len(1) by (auto simp: main_ok_def nth_list_update less_Suc_eq)
  moreover have "log_ok w n m'"
  proof -
    obtain evs where e: "con_seen m = con_seen w" "con_pending m = con_pending w @ said evs" "in_order n evs"
      "set (terminatings evs) = {k. k < length (j_threads m) \<and> j_threads m ! k \<noteq> T_Sleep}"
      "set (map fst (reapings evs)) = {k. k < n \<and> j_state m ! k = TS_JOINED}"
      using inv'(9) unfolding log_ok_def by blast
    have "length (reapings evs) = card (set (map fst (reapings evs)))"
      using e(3) distinct_card [of "map fst (reapings evs)"] by (simp add: in_order_def)
    then have "int (length (reapings evs)) = int (count_list (j_state m) TS_JOINED)"
      using e(5) len(1) by (simp add: count_card)
    then have "in_order n (evs @ [Reaped i (j_numLive m - 1)])"
      using in_order_reaped [OF e(3), of i "j_numLive m - 1"] e(4,5) inv'(3,5,6,7) at(2) by simp
    moreover have "set (map fst (reapings (evs @ [Reaped i (j_numLive m - 1)]))) = {k. k < n \<and> ?sts ! k = TS_JOINED}"
      using e(5) inv'(6) len(1) by (auto simp: nth_list_update)
    ultimately show ?thesis
      unfolding log_ok_def using e
      by (intro conjI exI [of _ "evs @ [Reaped i (j_numLive m - 1)]"]) (simp_all add: m' jprintf_def)
  qed
  moreover have "nat (j_numLive m - 1) - nat (j_numUnjoined m - 1) = nat (j_numLive m) - nat (j_numUnjoined m)"
    using live by simp
  ultimately show ?thesis
    using at(1) inv'(6) by (simp add: m' jprintf_def join_inv_def join_bound_def)
qed

lemma main_ok_turn:
  assumes inv: "join_inv w (length args) m" and args: "list_all arg_ok args" "args \<noteq> []"
    and r: "joiner_main strerror args s (j_main m) m = Some r"
  shows "outcome (\<lambda>m'. join_inv w (length args) m' \<and> join_bound (length args) m' < join_bound (length args) m)
    (joined w (length args) (s = 0)) r"
proof -
  let ?n = "length args" and ?W = "2 * length args + 8"
  have i: "states_ok ?n (j_threads m) (j_state m) (j_numUnjoined m)" "mutex_ok (j_mutex m) (j_main m) (j_threads m)"
    "main_ok ?n (j_main m) (j_threads m) (j_state m) (j_numUnjoined m) (j_numLive m) (j_totThreads m)" "log_ok w ?n m"
    using inv by (simp_all add: join_inv_def)
  have len: "length (j_state m) = ?n" "j_numUnjoined m = int (count_list (j_state m) TS_TERMINATED)"
    using i(1) by (simp_all add: states_ok_def)
  have log: "log_ok w ?n m'" if "con_seen m' = con_seen m" "con_pending m' = con_pending m" "j_threads m' = j_threads m"
    "j_state m' = j_state m" for m'
    using log_same [OF i(4), of m'] that by simp
  have count: "count_list (j_state m) TS_JOINED \<le> ?n"
    using count_le_length [of "j_state m" TS_JOINED] len(1) by simp
  show ?thesis
  proof (cases "j_main m")
    case (J_Create k)
    show ?thesis
    proof (cases "k < ?n")
      case True
      then show ?thesis
        using create_ok [OF inv J_Create True args(1)] r J_Create by auto
    next
      case False
      have "k = ?n"
        using False i(1,3) J_Create by (simp add: main_ok_def states_ok_def)
      moreover have "mutex_ok (j_mutex m) J_Loop (j_threads m)"
        using mutex_main_ok(1) [OF i(2), of J_Loop] J_Create by (simp add: main_holds_def)
      ultimately show ?thesis
        using r J_Create i log [of "m\<lparr>j_numLive := int ?n, j_totThreads := ?n, j_main := J_Loop\<rparr>"]
        by (auto simp: join_inv_def main_ok_def join_bound_def)
    qed
  next
    case J_Loop
    show ?thesis
    proof (cases "j_numLive m = 0")
      case True
      then show ?thesis
        using loop_exit [OF inv _ J_Loop True] args(2) r J_Loop by (auto simp: joined_def)
    next
      case False
      have "mutex_ok (j_mutex m) J_Lock (j_threads m)"
        using mutex_main_ok(1) [OF i(2), of J_Lock] J_Loop by (simp add: main_holds_def)
      then show ?thesis
        using False r J_Loop i log [of "m\<lparr>j_main := J_Lock\<rparr>"] count
        by (auto simp: join_inv_def main_ok_def join_bound_def)
    qed
  next
    case J_Lock
    then have mx: "\<not> j_mutex m" "r = Ret () (m\<lparr>j_mutex := True, j_main := J_Test\<rparr>)"
      using r by (auto simp: mutex_lock_def split: if_splits)
    have "mutex_ok True J_Test (j_threads m)"
      using mutex_main_ok(2) [OF i(2) mx(1), of J_Test] by (simp add: main_holds_def)
    then show ?thesis
      using mx J_Lock i log [of "m\<lparr>j_mutex := True, j_main := J_Test\<rparr>"]
      by (auto simp: join_inv_def main_ok_def join_bound_def)
  next
    case J_Wake
    then have mx: "\<not> j_mutex m" "r = Ret () (m\<lparr>j_mutex := True, j_main := J_Test\<rparr>)"
      using r by (auto simp: mutex_lock_def split: if_splits)
    have "mutex_ok True J_Test (j_threads m)"
      using mutex_main_ok(2) [OF i(2) mx(1), of J_Test] by (simp add: main_holds_def)
    then show ?thesis
      using mx J_Wake i log [of "m\<lparr>j_mutex := True, j_main := J_Test\<rparr>"]
      by (auto simp: join_inv_def main_ok_def join_bound_def)
  next
    case J_Test
    have "0 < j_numLive m"
      using i(3) J_Test by (simp add: main_ok_def)
    then have live: "1 \<le> nat (j_numLive m)"
      by simp
    then have W: "?W \<le> nat (j_numLive m) * ?W"
      by simp
    show ?thesis
    proof (cases "j_numUnjoined m = 0")
      case True
      have "mutex_ok False J_Wait (j_threads m)"
        using mutex_main_ok(3) [OF i(2), of J_Wait] J_Test by (simp add: main_holds_def)
      moreover have "r = Ret () (m\<lparr>j_mutex := False, j_main := J_Wait\<rparr>)"
        using r J_Test True by (simp add: mutex_unlock_def)
      moreover have "nat (j_numLive m) * ?W - 2 < nat (j_numLive m) * ?W - 1"
        using W by linarith
      ultimately show ?thesis
        using J_Test True i log [of "m\<lparr>j_mutex := False, j_main := J_Wait\<rparr>"]
        by (auto simp: join_inv_def main_ok_def join_bound_def)
    next
      case False
      have "mutex_ok (j_mutex m) (J_Scan 0) (j_threads m)"
        using mutex_main_ok(1) [OF i(2), of "J_Scan 0"] J_Test by (simp add: main_holds_def)
      moreover have "r = Ret () (m\<lparr>j_main := J_Scan 0\<rparr>)"
        using r J_Test False by simp
      moreover have "(nat (j_numLive m) - nat (j_numUnjoined m)) * ?W + 3 + 2 * ?n < nat (j_numLive m) * ?W - 1"
      proof -
        have "nat (j_numLive m) - nat (j_numUnjoined m) \<le> nat (j_numLive m) - 1"
          using False len(2) by simp
        then have "(nat (j_numLive m) - nat (j_numUnjoined m)) * ?W \<le> (nat (j_numLive m) - 1) * ?W"
          by (rule mult_le_mono1)
        moreover have "(nat (j_numLive m) - 1) * ?W = nat (j_numLive m) * ?W - ?W"
          by (simp add: diff_mult_distrib)
        ultimately show ?thesis
          using W by linarith
      qed
      ultimately show ?thesis
        using J_Test i log [of "m\<lparr>j_main := J_Scan 0\<rparr>"]
        by (auto simp: join_inv_def main_ok_def join_bound_def)
    qed
  next
    case (J_Scan k)
    have tot: "j_totThreads m = ?n" "k \<le> ?n" "\<forall>j<k. j_state m ! j \<noteq> TS_TERMINATED"
      using i(3) J_Scan by (simp_all add: main_ok_def)
    define p where "p = (if k < ?n then if j_state m ! k = TS_TERMINATED then J_Join k else J_Scan (k + 1) else J_Unlock)"
    have "r = Ret () (m\<lparr>j_main := p\<rparr>)"
      using r J_Scan tot(1) by (auto simp: p_def)
    moreover have "mutex_ok (j_mutex m) p (j_threads m)"
      using mutex_main_ok(1) [OF i(2), of p] J_Scan by (simp add: main_holds_def p_def)
    moreover have none: "j_numUnjoined m = 0" if "\<not> k < ?n"
      using count_none [OF len(1), of TS_TERMINATED] tot(2,3) that len(2) by simp
    moreover have "main_ok ?n p (j_threads m) (j_state m) (j_numUnjoined m) (j_numLive m) (j_totThreads m)"
      using i(3) J_Scan none tot by (auto simp: main_ok_def p_def less_Suc_eq)
    moreover have "main_cost ?n (nat (j_numLive m)) (nat (j_numUnjoined m)) p
        < main_cost ?n (nat (j_numLive m)) (nat (j_numUnjoined m)) (J_Scan k)"
      using none tot(2) by (auto simp: p_def)
    ultimately show ?thesis
      using J_Scan i log [of "m\<lparr>j_main := p\<rparr>"] by (simp add: join_inv_def join_bound_def)
  next
    case (J_Join k)
    then have "j_threads m ! k = T_Ended" "r = Ret () (jprintf (reaped_text k (j_numLive m - 1))
        (m\<lparr>j_state := (j_state m)[k := TS_JOINED], j_numLive := j_numLive m - 1, j_numUnjoined := j_numUnjoined m - 1,
           j_main := J_Scan (k + 1)\<rparr>))"
      using r by (simp_all split: if_splits)
    then show ?thesis
      using join_ok [OF inv J_Join] by simp
  next
    case J_Unlock
    have "mutex_ok False J_Loop (j_threads m)"
      using mutex_main_ok(3) [OF i(2), of J_Loop] J_Unlock by (simp add: main_holds_def)
    then show ?thesis
      using r J_Unlock i log [of "m\<lparr>j_mutex := False, j_main := J_Loop\<rparr>"]
      by (auto simp: join_inv_def main_ok_def join_bound_def mutex_unlock_def)
  qed (use r in simp)
qed

section \<open>No turn is missing\<close>

definition jtame :: "jagent \<Rightarrow> bool" where
  "jtame a = (case a of JMain s \<Rightarrow> s = 0 | JThread k \<Rightarrow> True | Spurious \<Rightarrow> False)"

lemma thread_moves:
  assumes "k < length (j_threads m)" "thread_func k (j_threads m ! k) m \<noteq> None"
  shows "\<exists>a r. jtame a \<and> multijoin_turn strerror args a m = Some r"
  using assms by (intro exI [of _ "JThread k"]) (auto simp: jtame_def)

lemma holder_moves:
  assumes "mutex_ok True mp (j_threads m)" "\<not> main_holds mp"
  shows "\<exists>a r. jtame a \<and> multijoin_turn strerror args a m = Some r"
proof -
  obtain k where "k < length (j_threads m)" "thread_holds (j_threads m ! k)"
    using assms unfolding mutex_ok_def by (metis not_None_eq)
  then show ?thesis
    by (intro thread_moves [of k]) (auto simp: thread_holds_def)
qed

lemma main_moves:
  "joiner_main strerror args 0 (j_main m) m \<noteq> None \<Longrightarrow> \<exists>a r. jtame a \<and> multijoin_turn strerror args a m = Some r"
  by (intro exI [of _ "JMain 0"]) (auto simp: jtame_def)

lemma join_lives:
  assumes inv: "join_inv w n m"
  shows "\<exists>a r. jtame a \<and> multijoin_turn strerror args a m = Some r"
proof -
  have i: "states_ok n (j_threads m) (j_state m) (j_numUnjoined m)" "mutex_ok (j_mutex m) (j_main m) (j_threads m)"
    "main_ok n (j_main m) (j_threads m) (j_state m) (j_numUnjoined m) (j_numLive m) (j_totThreads m)"
    using inv by (simp_all add: join_inv_def)
  have len: "length (j_state m) = n" "j_numUnjoined m = int (count_list (j_state m) TS_TERMINATED)"
    using i(1) by (simp_all add: states_ok_def)
  have st: "matches (j_threads m ! k) (j_state m ! k)" if "k < n" "length (j_threads m) = n" for k
    using i(1) that by (auto simp: states_ok_def)
  have blocked: ?thesis if "j_mutex m" "\<not> main_holds (j_main m)"
    using holder_moves [of "j_main m" m] i(2) that by simp
  show ?thesis
  proof (cases "j_main m")
    case J_Lock
    then show ?thesis
      using blocked main_moves [of strerror args m] by (cases "j_mutex m") (simp_all add: mutex_lock_def main_holds_def)
  next
    case J_Wake
    then show ?thesis
      using blocked main_moves [of strerror args m] by (cases "j_mutex m") (simp_all add: mutex_lock_def main_holds_def)
  next
    case J_Wait
    then have w: "length (j_threads m) = n" "0 < int n - int (count_list (j_state m) TS_JOINED)"
      "j_numUnjoined m = 0 \<or> (\<exists>k<n. j_threads m ! k = T_Unlock \<or> j_threads m ! k = T_Signal)"
      using i(3) by (simp_all add: main_ok_def)
    show ?thesis
    proof (cases "\<exists>k<n. j_threads m ! k = T_Unlock \<or> j_threads m ! k = T_Signal")
      case True
      then obtain k where "k < n" "j_threads m ! k = T_Unlock \<or> j_threads m ! k = T_Signal"
        by blast
      then show ?thesis
        using w(1) by (intro thread_moves [of k]) auto
    next
      case False
      then have "count_list (j_state m) TS_TERMINATED = 0"
        using w(3) len(2) by auto
      moreover have "\<exists>k<n. j_state m ! k \<noteq> TS_JOINED"
      proof (rule ccontr)
        assume "\<not> ?thesis"
        then have "{k. k < length (j_state m) \<and> j_state m ! k = TS_JOINED} = {..<n}"
          using len(1) by auto
        then show False
          using w(2) by (simp add: count_card)
      qed
      ultimately obtain k where k: "k < n" "j_state m ! k = TS_ALIVE"
        using len(1) by (metis count_list_0_iff nth_mem tstate.exhaust)
      then have alive: "j_threads m ! k \<in> {T_Sleep, T_Lock, T_Update}"
        using st [OF k(1) w(1)] by (cases "j_threads m ! k") auto
      show ?thesis
      proof (cases "j_mutex m")
        case True
        then show ?thesis
          using blocked J_Wait by (simp add: main_holds_def)
      next
        case False
        then show ?thesis
          using alive k w(1) by (intro thread_moves [of k]) (auto simp: mutex_lock_def)
      qed
    qed
  next
    case (J_Join k)
    then have w: "length (j_threads m) = n" "k < n" "j_state m ! k = TS_TERMINATED"
      using i(3) by (simp_all add: main_ok_def)
    show ?thesis
    proof (cases "j_threads m ! k = T_Ended")
      case True
      then show ?thesis
        using J_Join main_moves [of strerror args m] by simp
    next
      case False
      then show ?thesis
        using st [OF w(2,1)] w by (intro thread_moves [of k]) (cases "j_threads m ! k"; simp)+
    qed
  qed (use main_moves [of strerror args m] in simp_all)
qed

lemma multijoin_keeps:
  assumes inv: "join_inv w (length args) m" and args: "list_all arg_ok args" "args \<noteq> []"
    and r: "multijoin_turn strerror args a m = Some r" "a \<noteq> Spurious"
  shows "outcome (\<lambda>m'. join_inv w (length args) m' \<and> join_bound (length args) m' < join_bound (length args) m)
    (joined w (length args) (jtame a)) r"
  using r main_ok_turn [OF inv args, of strerror _ r] thread_func_ok [OF inv]
  by (cases a) (auto simp: jtame_def split: if_splits)

lemma spurious_keeps:
  assumes inv: "join_inv w n m" and "j_main m = J_Wait"
  shows "join_inv w n (m\<lparr>j_main := J_Wake\<rparr>) \<and> join_bound n (m\<lparr>j_main := J_Wake\<rparr>) \<le> join_bound n m + 2"
proof -
  have i: "states_ok n (j_threads m) (j_state m) (j_numUnjoined m)" "mutex_ok (j_mutex m) J_Wait (j_threads m)"
    "main_ok n J_Wait (j_threads m) (j_state m) (j_numUnjoined m) (j_numLive m) (j_totThreads m)" "log_ok w n m"
    using assms by (simp_all add: join_inv_def)
  then show ?thesis
    using mutex_main_ok(1) [OF i(2), of J_Wake] log_same [OF i(4), of "m\<lparr>j_main := J_Wake\<rparr>"] assms(2)
    by (auto simp: join_inv_def main_ok_def main_holds_def join_bound_def)
qed

interpretation multijoin_program: program "multijoin_turn strerror args"
    "\<lambda>m. list_all arg_ok args \<and> args \<noteq> [] \<and> join_inv w (length args) m" "joined w (length args)" "\<lambda>m. False" "join_bound (length args)" jtame 2
  for strerror args w
proof unfold_locales
  fix m a r
  assume m: "list_all arg_ok args \<and> args \<noteq> [] \<and> join_inv w (length args) m" "multijoin_turn strerror args a m = Some r"
  show "outcome (\<lambda>m. list_all arg_ok args \<and> args \<noteq> [] \<and> join_inv w (length args) m) (joined w (length args) (jtame a)) r"
  proof (cases "a = Spurious")
    case True
    then show ?thesis
      using m spurious_keeps [of w "length args" m] by (auto split: if_splits)
  next
    case False
    then show ?thesis
      using m multijoin_keeps [of w args m strerror a r] by (cases r) simp_all
  qed
next
  fix m a m'
  assume m: "list_all arg_ok args \<and> args \<noteq> [] \<and> join_inv w (length args) m" "multijoin_turn strerror args a m = Some (Ret () m')"
  show "if jtame a then join_bound (length args) m' < join_bound (length args) m
      else join_bound (length args) m' \<le> join_bound (length args) m + 2"
  proof (cases "a = Spurious")
    case True
    then show ?thesis
      using m spurious_keeps [of w "length args" m] by (auto simp: jtame_def split: if_splits)
  next
    case False
    then show ?thesis
      using m multijoin_keeps [of w args m strerror a "Ret () m'"] by simp
  qed
next
  fix m
  assume "list_all arg_ok args \<and> args \<noteq> [] \<and> join_inv w (length args) m"
  then show "\<exists>a r. jtame a \<and> multijoin_turn strerror args a m = Some r"
    using join_lives [of w "length args" m] by blast
qed

lemma joiner_start_simps [simp]:
  "j_state (joiner_start n w) = replicate n TS_ALIVE" "j_numUnjoined (joiner_start n w) = 0" "j_mutex (joiner_start n w) = False"
  "j_threads (joiner_start n w) = []" "j_main (joiner_start n w) = J_Create 0" "con_seen (joiner_start n w) = con_seen w"
  "con_pending (joiner_start n w) = con_pending w" "j_numLive (joiner_start n w) = 0"
  by (simp_all add: joiner_start_def console.defs joiner.defs)

lemma joiner_start_inv: "join_inv w n (joiner_start n w)"
proof -
  have "log_ok w n (joiner_start n w)"
    unfolding log_ok_def by (intro conjI exI [of _ "[]"]) (simp_all add: said_def in_order_def)
  moreover have "mutex_ok False (J_Create 0) []"
    unfolding mutex_ok_def by (intro exI [of _ None]) (simp add: main_holds_def)
  ultimately show ?thesis
    by (simp add: join_inv_def states_ok_def main_ok_def count_none)
qed

text \<open>
  C13: when the arguments are numbers of seconds, then for every order of turns, spurious wakeups included:
  nothing is undefined; the program can always be carried on to its end, and in at most 2 n^2 + 17 n + 3
  turns, two more for each spurious wakeup, when the n threads can be created; and at its end it
  has printed that every thread terminates, once, and later, once, that it is reaped, with a count that goes down
  from n - 1 to 0.
\<close>

theorem multijoin_reaps:
  assumes "multijoin strerror calloc_ok argv w = Ret m0 w'" "list_all arg_ok (tl argv)"
    and "run (multijoin_turn strerror (tl argv)) as (Ret () m0) r"
  shows "r \<noteq> Undef
    \<and> (\<forall>m. r = Exit EXIT_SUCCESS m \<longrightarrow> (\<exists>evs. con_seen m = con_seen w @ [OutText (con_pending w @ said evs)]
          \<and> distinct (terminatings evs) \<and> set (terminatings evs) = {..<length argv - 1}
          \<and> distinct (map fst (reapings evs)) \<and> set (map fst (reapings evs)) = {..<length argv - 1}
          \<and> map snd (reapings evs) = rev (map int [0..<length argv - 1])
          \<and> (\<forall>pre k live post. evs = pre @ Reaped k live # post \<longrightarrow> Terminating k \<in> set pre)))
    \<and> (\<forall>m. r = Ret () m \<longrightarrow>
          (\<exists>bs m'. list_all jtame bs \<and> run (multijoin_turn strerror (tl argv)) (as @ bs) (Ret () m0) (Exit EXIT_SUCCESS m')))
    \<and> length (filter jtame as) \<le> 2 * (length argv - 1) ^ 2 + 17 * (length argv - 1) + 3 + 2 * length (filter (\<lambda>a. \<not> jtame a) as)"
proof -
  let ?n = "length argv - 1" and ?args = "tl argv"
  have "\<not> length argv < 2" "m0 = joiner_start ?n w"
    using assms(1) by (auto simp: multijoin_def usageErr_def errExit_def outputError_def terminate_def thenp_unfold bindp_unfold
        fputs_stderr_def abort_process_def exit_process_def sys_exit_def fflush_stdout_def split: if_splits)
  then have m0: "m0 = joiner_start ?n w" "length ?args = ?n" "?args \<noteq> []"
    by (cases argv; force)+
  have inv: "list_all arg_ok ?args \<and> ?args \<noteq> [] \<and> join_inv w (length ?args) m0"
    using assms(2) m0 joiner_start_inv [of w ?n] by simp
  have o: "outcome (\<lambda>m. list_all arg_ok ?args \<and> ?args \<noteq> [] \<and> join_inv w (length ?args) m)
      (\<lambda>k m. \<exists>b. joined w (length ?args) b k m) r"
    using multijoin_program.always [OF assms(3)] inv by simp
  have down: "map snd (reapings evs) = rev (map int [0..<?n])" if "in_order ?n evs" "set (map fst (reapings evs)) = {..<?n}" for evs
  proof -
    have "length (reapings evs) = ?n"
      using that distinct_card [of "map fst (reapings evs)"] by (simp add: in_order_def)
    then show ?thesis
      using that(1) by (auto simp: in_order_def rev_nth intro!: nth_equalityI)
  qed
  have fin: "\<exists>evs. con_seen m = con_seen w @ [OutText (con_pending w @ said evs)]
          \<and> distinct (terminatings evs) \<and> set (terminatings evs) = {..<?n}
          \<and> distinct (map fst (reapings evs)) \<and> set (map fst (reapings evs)) = {..<?n}
          \<and> map snd (reapings evs) = rev (map int [0..<?n])
          \<and> (\<forall>pre k live post. evs = pre @ Reaped k live # post \<longrightarrow> Terminating k \<in> set pre)"
    if "r = Exit EXIT_SUCCESS m" for m
  proof -
    have "all_joined w ?n m"
      using o that m0(2) by (auto simp: joined_def)
    then obtain evs where "con_seen m = con_seen w @ [OutText (con_pending w @ said evs)]" "in_order ?n evs"
      "set (terminatings evs) = {..<?n}" "set (map fst (reapings evs)) = {..<?n}"
      unfolding all_joined_def by blast
    then show ?thesis
      using down [of evs] unfolding in_order_def by (intro exI [of _ evs]) blast
  qed
  have "\<exists>bs m'. list_all jtame bs \<and> run (multijoin_turn strerror ?args) (as @ bs) (Ret () m0) (Exit EXIT_SUCCESS m')"
    if "r = Ret () m" for m
    using multijoin_program.exits [OF inv assms(3) [unfolded that]] by (auto simp: joined_def split: if_splits)
  moreover have "join_bound ?n m0 = 2 * ?n ^ 2 + 17 * ?n + 2"
    by (simp add: join_bound_def m0(1) power2_eq_square algebra_simps)
  ultimately show ?thesis
    using o fin multijoin_program.short [OF assms(3) inv] m0(2) by auto
qed

theorem multijoin_reaps_witness:
  "\<exists>bs m. run (multijoin_turn (\<lambda>_. []) [''0'', ''7'']) bs (Ret () (joiner_start 2 console_example)) (Exit EXIT_SUCCESS m)
     \<and> (\<exists>evs. con_seen m = [OutText (''half a line'' @ said evs)] \<and> map snd (reapings evs) = [1, 0])"
proof -
  have start: "multijoin (\<lambda>_. []) True [''multijoin'', ''0'', ''7''] console_example = Ret (joiner_start 2 console_example) console_example"
    by (simp add: multijoin_def numeral_2_eq_2)
  have args: "list_all arg_ok (tl [''multijoin'', ''0'', ''7''])"
    by code_simp
  have "run (multijoin_turn (\<lambda>_. []) (tl [''multijoin'', ''0'', ''7''])) [] (Ret () (joiner_start 2 console_example))
      (Ret () (joiner_start 2 console_example))"
    by simp
  from multijoin_reaps [OF start args this] obtain bs m where b:
    "run (multijoin_turn (\<lambda>_. []) (tl [''multijoin'', ''0'', ''7''])) bs (Ret () (joiner_start 2 console_example)) (Exit EXIT_SUCCESS m)"
    by auto
  from multijoin_reaps [OF start args b] obtain evs where
    "con_seen m = con_seen console_example @ [OutText (con_pending console_example @ said evs)]"
    "map snd (reapings evs) = rev (map int [0..<length [''multijoin'', ''0'', ''7''] - 1])"
    by blast
  moreover have "rev (map int [0..<length [''multijoin'', ''0'', ''7''] - 1]) = [1, 0]"
    by (simp add: upt_conv_Cons)
  moreover have "con_seen console_example = []" "con_pending console_example = ''half a line''"
    by (simp_all add: console_example_def)
  ultimately show ?thesis
    using b by (intro exI [of _ bs] exI [of _ m] conjI exI [of _ evs]) simp_all
qed

end
