(* ===== verification/Shared_Ring.thy ===== *)
theory Shared_Ring
  imports Interleaving
begin

text \<open>
  ipc/mem.h, memwrite.c, memread.c: a ring of five integers in shared memory. One process writes ten numbers,
  others read five each; two named semaphores count the full and the empty places, a third one in the memory
  protects the ring. A turn is an access to what is shared.
\<close>

section \<open>The shared memory\<close>

definition BUFSIZE :: nat where "BUFSIZE = 5"

text \<open>
  Where the writer is, with its \<open>i\<close>: at the loop, at \<open>sem_wait(empty)\<close>, in \<open>mem_write\<close> (at the lock, at the
  store, at the update of \<open>head\<close>, about to unlock), at \<open>sem_post(full)\<close>; at \<open>destroy\<close>; it has ended. The same for a
  reader and \<open>mem_read\<close>.
\<close>

datatype wpc = W_Loop nat | W_Wait nat | W_Lock nat | W_Put nat | W_Bump nat | W_Unlock nat | W_Post nat | W_Destroy | W_Done

datatype rpc = R_Loop nat | R_Wait nat | R_Lock nat | R_Get nat | R_Bump nat | R_Unlock nat | R_Post nat | R_Done

text \<open>
  \<open>struct Mem\<close>, the named semaphores, and the processes with what they have printed. The last field does
  not exist in the program: who has read what, in order.
\<close>

record ring =
  g_lock :: nat
  g_destroyed :: bool
  g_head :: nat
  g_tail :: nat
  g_nums :: "int list"
  g_full :: nat
  g_empty :: nat
  g_writer :: wpc
  g_wout :: string
  g_readers :: "(rpc \<times> string) list"
  g_taken :: "(nat \<times> int) list"

datatype ragent = Writer | Reader nat

section \<open>The turns\<close>

definition read_line :: "int \<Rightarrow> int \<Rightarrow> string" where
  "read_line pid v = dec_int pid @ '' read '' @ dec_int v @ [NL]"

definition write_line :: "int \<Rightarrow> int \<Rightarrow> string" where
  "write_line pid v = dec_int pid @ '' write '' @ dec_int v @ [NL]"

text \<open>A lock that has been destroyed must not be used.\<close>

definition ring_lock :: "ring \<Rightarrow> (ring \<Rightarrow> ring) \<Rightarrow> (ring, unit) result option" where
  "ring_lock m f = (if g_destroyed m then Some Undef
     else (case sem_wait (g_lock m) of None \<Rightarrow> None | Some l \<Rightarrow> Some (Ret () (f (m\<lparr>g_lock := l\<rparr>)))))"

definition ring_unlock :: "ring \<Rightarrow> (ring \<Rightarrow> ring) \<Rightarrow> (ring, unit) result option" where
  "ring_unlock m f = (if g_destroyed m then Some Undef else Some (Ret () (f (m\<lparr>g_lock := sem_post (g_lock m)\<rparr>))))"

definition set_writer :: "wpc \<Rightarrow> ring \<Rightarrow> ring" where
  "set_writer p m = m\<lparr>g_writer := p\<rparr>"

definition set_reader :: "nat \<Rightarrow> rpc \<Rightarrow> ring \<Rightarrow> ring" where
  "set_reader k p m = m\<lparr>g_readers := (g_readers m)[k := (p, snd (g_readers m ! k))]\<rparr>"

definition reader_says :: "nat \<Rightarrow> string \<Rightarrow> ring \<Rightarrow> ring" where
  "reader_says k s m = m\<lparr>g_readers := (g_readers m)[k := (fst (g_readers m ! k), snd (g_readers m ! k) @ s)]\<rparr>"

fun writer_turn :: "int \<Rightarrow> wpc \<Rightarrow> ring \<Rightarrow> (ring, unit) result option" where
  "writer_turn pid (W_Loop i) m = Some (Ret () (set_writer (if i < 10 then W_Wait i else W_Destroy) m))"
| "writer_turn pid (W_Wait i) m = (case sem_wait (g_empty m) of None \<Rightarrow> None
     | Some e \<Rightarrow> Some (Ret () (set_writer (W_Lock i) (m\<lparr>g_empty := e\<rparr>))))"
| "writer_turn pid (W_Lock i) m = ring_lock m (set_writer (W_Put i))"
| "writer_turn pid (W_Put i) m = (if g_head m < BUFSIZE
     then Some (Ret () (set_writer (W_Bump i)
       (m\<lparr>g_nums := (g_nums m)[g_head m := int i], g_wout := g_wout m @ write_line pid (int i)\<rparr>)))
     else Some Undef)"
| "writer_turn pid (W_Bump i) m = Some (Ret () (set_writer (W_Unlock i) (m\<lparr>g_head := (g_head m + 1) mod BUFSIZE\<rparr>)))"
| "writer_turn pid (W_Unlock i) m = ring_unlock m (set_writer (W_Post i))"
| "writer_turn pid (W_Post i) m = Some (Ret () (set_writer (W_Loop (i + 1)) (m\<lparr>g_full := sem_post (g_full m)\<rparr>)))"
| "writer_turn pid W_Destroy m = Some (Ret () (set_writer W_Done
     (m\<lparr>g_destroyed := True, g_wout := g_wout m @ ''close'' @ [NL] @ ''unlink'' @ [NL]\<rparr>)))"
| "writer_turn pid W_Done m = None"

fun reader_turn :: "int \<Rightarrow> nat \<Rightarrow> rpc \<Rightarrow> ring \<Rightarrow> (ring, unit) result option" where
  "reader_turn pid k (R_Loop i) m = Some (Ret () (set_reader k (if i < 5 then R_Wait i else R_Done) m))"
| "reader_turn pid k (R_Wait i) m = (case sem_wait (g_full m) of None \<Rightarrow> None
     | Some f \<Rightarrow> Some (Ret () (set_reader k (R_Lock i) (m\<lparr>g_full := f\<rparr>))))"
| "reader_turn pid k (R_Lock i) m = ring_lock m (set_reader k (R_Get i))"
| "reader_turn pid k (R_Get i) m = (if g_tail m < BUFSIZE
     then Some (Ret () (set_reader k (R_Bump i) (reader_says k (read_line pid (g_nums m ! g_tail m))
       (m\<lparr>g_taken := g_taken m @ [(k, g_nums m ! g_tail m)]\<rparr>))))
     else Some Undef)"
| "reader_turn pid k (R_Bump i) m = Some (Ret () (set_reader k (R_Unlock i) (m\<lparr>g_tail := (g_tail m + 1) mod BUFSIZE\<rparr>)))"
| "reader_turn pid k (R_Unlock i) m = ring_unlock m (set_reader k (R_Post i))"
| "reader_turn pid k (R_Post i) m = Some (Ret () (set_reader k (R_Loop (i + 1)) (m\<lparr>g_empty := sem_post (g_empty m)\<rparr>)))"
| "reader_turn pid k R_Done m = None"

text \<open>The pids of the writer and of the readers.\<close>

fun ring_turn :: "int \<Rightarrow> (nat \<Rightarrow> int) \<Rightarrow> (ragent, ring) turns" where
  "ring_turn wpid rpid Writer m = writer_turn wpid (g_writer m) m"
| "ring_turn wpid rpid (Reader k) m =
     (if k < length (g_readers m) then reader_turn (rpid k) k (fst (g_readers m ! k)) m else None)"

text \<open>
  The memory after \<open>init\<close>, which leaves the numbers alone, with the semaphores as they are created, and a number of readers
  at their loops.
\<close>

definition ring_start :: "int list \<Rightarrow> nat \<Rightarrow> ring" where
  "ring_start nums n = \<lparr>g_lock = 1, g_destroyed = False, g_head = 0, g_tail = 0, g_nums = nums, g_full = 0, g_empty = 5,
     g_writer = W_Loop 0, g_wout = [], g_readers = replicate n (R_Loop 0, []), g_taken = []\<rparr>"

section \<open>The counts\<close>

text \<open>
  Of a process: the rounds it has completed; whether it has taken its first semaphore in this round, is inside
  the lock, has written or read, is between that and the update of the index.
\<close>

fun w_rounds :: "wpc \<Rightarrow> nat" where
  "w_rounds (W_Loop i) = i" | "w_rounds (W_Wait i) = i" | "w_rounds (W_Lock i) = i" | "w_rounds (W_Put i) = i"
| "w_rounds (W_Bump i) = i" | "w_rounds (W_Unlock i) = i" | "w_rounds (W_Post i) = i" | "w_rounds W_Destroy = 10" | "w_rounds W_Done = 10"

fun r_rounds :: "rpc \<Rightarrow> nat" where
  "r_rounds (R_Loop i) = i" | "r_rounds (R_Wait i) = i" | "r_rounds (R_Lock i) = i" | "r_rounds (R_Get i) = i"
| "r_rounds (R_Bump i) = i" | "r_rounds (R_Unlock i) = i" | "r_rounds (R_Post i) = i" | "r_rounds R_Done = 5"

definition w_took :: "wpc \<Rightarrow> nat" where
  "w_took p = (case p of W_Lock _ \<Rightarrow> 1 | W_Put _ \<Rightarrow> 1 | W_Bump _ \<Rightarrow> 1 | W_Unlock _ \<Rightarrow> 1 | W_Post _ \<Rightarrow> 1 | _ \<Rightarrow> 0)"
definition w_put :: "wpc \<Rightarrow> nat" where
  "w_put p = (case p of W_Bump _ \<Rightarrow> 1 | W_Unlock _ \<Rightarrow> 1 | W_Post _ \<Rightarrow> 1 | _ \<Rightarrow> 0)"
definition w_in :: "wpc \<Rightarrow> nat" where
  "w_in p = (case p of W_Put _ \<Rightarrow> 1 | W_Bump _ \<Rightarrow> 1 | W_Unlock _ \<Rightarrow> 1 | _ \<Rightarrow> 0)"
definition w_bump :: "wpc \<Rightarrow> nat" where
  "w_bump p = (case p of W_Bump _ \<Rightarrow> 1 | _ \<Rightarrow> 0)"

definition r_took :: "rpc \<Rightarrow> nat" where
  "r_took p = (case p of R_Lock _ \<Rightarrow> 1 | R_Get _ \<Rightarrow> 1 | R_Bump _ \<Rightarrow> 1 | R_Unlock _ \<Rightarrow> 1 | R_Post _ \<Rightarrow> 1 | _ \<Rightarrow> 0)"
definition r_got :: "rpc \<Rightarrow> nat" where
  "r_got p = (case p of R_Bump _ \<Rightarrow> 1 | R_Unlock _ \<Rightarrow> 1 | R_Post _ \<Rightarrow> 1 | _ \<Rightarrow> 0)"
definition r_in :: "rpc \<Rightarrow> nat" where
  "r_in p = (case p of R_Get _ \<Rightarrow> 1 | R_Bump _ \<Rightarrow> 1 | R_Unlock _ \<Rightarrow> 1 | _ \<Rightarrow> 0)"
definition r_bump :: "rpc \<Rightarrow> nat" where
  "r_bump p = (case p of R_Bump _ \<Rightarrow> 1 | _ \<Rightarrow> 0)"

lemmas w_counts = w_took_def w_put_def w_in_def w_bump_def
lemmas r_counts = r_took_def r_got_def r_in_def r_bump_def

definition total :: "(rpc \<Rightarrow> nat) \<Rightarrow> ring \<Rightarrow> nat" where
  "total f m = sum_list (map (f \<circ> fst) (g_readers m))"

definition puts :: "ring \<Rightarrow> nat" where
  "puts m = w_rounds (g_writer m) + w_put (g_writer m)"

definition w_valid :: "wpc \<Rightarrow> bool" where
  "w_valid p = (case p of W_Loop i \<Rightarrow> i \<le> 10 | W_Destroy \<Rightarrow> True | W_Done \<Rightarrow> True | _ \<Rightarrow> w_rounds p < 10)"

definition r_valid :: "rpc \<Rightarrow> bool" where
  "r_valid p = (case p of R_Loop i \<Rightarrow> i \<le> 5 | R_Done \<Rightarrow> True | _ \<Rightarrow> r_rounds p < 5)"

text \<open>The semaphores count; the ring holds what has been put and not yet been read, in its place.\<close>

definition counts_ok :: "ring \<Rightarrow> bool" where
  "counts_ok m \<longleftrightarrow> g_empty m + w_rounds (g_writer m) + w_took (g_writer m) = 5 + total r_rounds m
     \<and> g_full m + total r_rounds m + total r_took m = w_rounds (g_writer m)
     \<and> g_lock m + w_in (g_writer m) + total r_in m = 1
     \<and> length (g_taken m) = total r_rounds m + total r_got m"

definition ring_ok :: "ring \<Rightarrow> bool" where
  "ring_ok m \<longleftrightarrow> length (g_nums m) = 5 \<and> g_head m = (puts m - w_bump (g_writer m)) mod 5
     \<and> g_tail m = (length (g_taken m) - total r_bump m) mod 5
     \<and> (\<forall>k. length (g_taken m) \<le> k \<longrightarrow> k < puts m \<longrightarrow> g_nums m ! (k mod 5) = int k)
     \<and> map snd (g_taken m) = map int [0..<length (g_taken m)]"

definition lines_of :: "(nat \<Rightarrow> int) \<Rightarrow> nat \<Rightarrow> (nat \<times> int) list \<Rightarrow> string" where
  "lines_of rpid k l = concat (map (\<lambda>(j, v). read_line (rpid k) v) (filter (\<lambda>(j, v). j = k) l))"

definition written_by :: "int \<Rightarrow> ring \<Rightarrow> string" where
  "written_by wpid m = concat (map (\<lambda>i. write_line wpid (int i)) [0..<puts m])
     @ (if g_writer m = W_Done then ''close'' @ [NL] @ ''unlink'' @ [NL] else [])"

definition ring_inv :: "int \<Rightarrow> (nat \<Rightarrow> int) \<Rightarrow> nat \<Rightarrow> ring \<Rightarrow> bool" where
  "ring_inv wpid rpid n m \<longleftrightarrow> length (g_readers m) = n \<and> w_valid (g_writer m) \<and> (\<forall>k<n. r_valid (fst (g_readers m ! k)))
     \<and> counts_ok m \<and> ring_ok m \<and> (g_destroyed m \<longleftrightarrow> g_writer m = W_Done) \<and> g_wout m = written_by wpid m
     \<and> (\<forall>k<n. snd (g_readers m ! k) = lines_of rpid k (g_taken m)) \<and> (\<forall>k v. (k, v) \<in> set (g_taken m) \<longrightarrow> k < n)"

lemma total_set:
  assumes "k < length (g_readers m)" "g_readers m' = (g_readers m)[k := (p, s)]"
  shows "total f m' + f (fst (g_readers m ! k)) = total f m + f p"
  using sum_list_map_update [OF assms(1), of "f \<circ> fst" "(p, s)"] assms(2) by (simp add: total_def)

lemma total_same: "g_readers m' = g_readers m \<Longrightarrow> total f m' = total f m"
  by (simp add: total_def)

lemma sum_list_diff:
  fixes f g :: "'b \<Rightarrow> nat"
  assumes "\<And>x. g x \<le> f x"
  shows "sum_list (map f xs) = sum_list (map g xs) + sum_list (map (\<lambda>x. f x - g x) xs)"
proof (induction xs)
  case (Cons a xs)
  then show ?case
    using assms [of a] by simp
qed simp

text \<open>If one process counts for \<open>f\<close> and not for \<open>g\<close>, the total of \<open>g\<close> is smaller.\<close>

lemma total_le:
  assumes "\<And>p. g p \<le> f p"
  shows "total g m \<le> total f m"
    and "k < length (g_readers m) \<Longrightarrow> g (fst (g_readers m ! k)) + 1 = f (fst (g_readers m ! k)) \<Longrightarrow> total g m < total f m"
proof -
  have d: "total f m = total g m + total (\<lambda>p. f p - g p) m"
    using sum_list_diff [of "g \<circ> fst" "f \<circ> fst" "g_readers m"] assms by (simp add: total_def comp_def)
  then show "total g m \<le> total f m" by simp
  show "total g m < total f m" if "k < length (g_readers m)" "g (fst (g_readers m ! k)) + 1 = f (fst (g_readers m ! k))"
    using d member_le_sum_list_map [OF that(1), of "(\<lambda>p. f p - g p) \<circ> fst"] that(2) by (simp add: total_def)
qed

lemma total_pos: "k < length (g_readers m) \<Longrightarrow> f (fst (g_readers m ! k)) \<le> total f m"
  using member_le_sum_list_map [of k "g_readers m" "f \<circ> fst"] by (simp add: total_def)

lemma r_le: "r_got p \<le> r_took p" "r_bump p \<le> r_got p" "r_bump p \<le> r_in p" "r_in p \<le> r_took p"
  by (cases p; simp add: r_counts)+

lemma w_le: "w_put p \<le> w_took p" "w_bump p \<le> w_put p"
  by (cases p; simp add: w_counts)+

text \<open>Never more than five numbers are in the ring.\<close>

lemma ring_bounds:
  assumes "counts_ok m"
  shows "length (g_taken m) \<le> puts m" "puts m \<le> length (g_taken m) + 5" "total r_bump m \<le> length (g_taken m)"
  using assms total_le(1) [of r_got r_took m, OF r_le(1)] total_le(1) [of r_bump r_got m, OF r_le(2)] w_le(1) [of "g_writer m"]
  by (simp_all add: counts_ok_def puts_def)

section \<open>What a turn keeps\<close>

fun w_cost :: "wpc \<Rightarrow> nat" where
  "w_cost (W_Loop i) = 7 * (10 - i) + 2" | "w_cost (W_Wait i) = 7 * (10 - i) + 1" | "w_cost (W_Lock i) = 7 * (10 - i)"
| "w_cost (W_Put i) = 7 * (10 - i) - 1" | "w_cost (W_Bump i) = 7 * (10 - i) - 2" | "w_cost (W_Unlock i) = 7 * (10 - i) - 3"
| "w_cost (W_Post i) = 7 * (10 - i) - 4" | "w_cost W_Destroy = 1" | "w_cost W_Done = 0"

fun r_cost :: "rpc \<Rightarrow> nat" where
  "r_cost (R_Loop i) = 7 * (5 - i) + 1" | "r_cost (R_Wait i) = 7 * (5 - i)" | "r_cost (R_Lock i) = 7 * (5 - i) - 1"
| "r_cost (R_Get i) = 7 * (5 - i) - 2" | "r_cost (R_Bump i) = 7 * (5 - i) - 3" | "r_cost (R_Unlock i) = 7 * (5 - i) - 4"
| "r_cost (R_Post i) = 7 * (5 - i) - 5" | "r_cost R_Done = 0"

definition ring_bound :: "ring \<Rightarrow> nat" where
  "ring_bound m = w_cost (g_writer m) + total r_cost m"

lemma reader_invI:
  assumes inv: "ring_inv wpid rpid n m" "k < n"
    and m': "g_readers m' = (g_readers m)[k := (p, s)]" "g_writer m' = g_writer m" "g_destroyed m' = g_destroyed m" "g_wout m' = g_wout m"
    and ok: "r_valid p" "counts_ok m'" "ring_ok m'" "r_cost p < r_cost (fst (g_readers m ! k))"
    and taken: "g_taken m' = g_taken m \<and> s = snd (g_readers m ! k)
      \<or> (\<exists>v. g_taken m' = g_taken m @ [(k, v)] \<and> s = snd (g_readers m ! k) @ read_line (rpid k) v)"
  shows "ring_inv wpid rpid n m' \<and> ring_bound m' < ring_bound m"
proof -
  have i: "length (g_readers m) = n" "w_valid (g_writer m)" "\<And>j. j < n \<Longrightarrow> r_valid (fst (g_readers m ! j))"
    "g_destroyed m \<longleftrightarrow> g_writer m = W_Done" "g_wout m = written_by wpid m"
    "\<And>j. j < n \<Longrightarrow> snd (g_readers m ! j) = lines_of rpid j (g_taken m)" "\<And>j v. (j, v) \<in> set (g_taken m) \<Longrightarrow> j < n"
    using inv(1) unfolding ring_inv_def by blast+
  have "snd (g_readers m' ! j) = lines_of rpid j (g_taken m')" if "j < n" for j
    using that taken i(1,6) inv(2) by (cases "j = k") (auto simp: m'(1) lines_of_def)
  moreover have "r_valid (fst (g_readers m' ! j))" if "j < n" for j
    using that i(1,3) ok(1) inv(2) by (cases "j = k") (auto simp: m'(1))
  moreover have "written_by wpid m' = written_by wpid m"
    by (simp add: written_by_def puts_def m'(2))
  moreover have "j < n" if "(j, v) \<in> set (g_taken m')" for j v
    using that taken i(7) inv(2) by auto
  moreover have "total r_cost m' < total r_cost m"
    using total_set [OF _ m'(1), of r_cost] i(1) inv(2) ok(4) by simp
  ultimately show ?thesis
    unfolding ring_inv_def ring_bound_def using i ok(2,3) m' by simp
qed

lemma reader_simps [simp]:
  "g_readers (set_reader k p m) = (g_readers m)[k := (p, snd (g_readers m ! k))]" "g_writer (set_reader k p m) = g_writer m"
  "g_destroyed (set_reader k p m) = g_destroyed m" "g_wout (set_reader k p m) = g_wout m" "g_taken (set_reader k p m) = g_taken m"
  "g_lock (set_reader k p m) = g_lock m" "g_full (set_reader k p m) = g_full m" "g_empty (set_reader k p m) = g_empty m"
  "g_nums (set_reader k p m) = g_nums m" "g_head (set_reader k p m) = g_head m" "g_tail (set_reader k p m) = g_tail m"
  by (simp_all add: set_reader_def)

lemma reader_turn_ok:
  assumes inv: "ring_inv wpid rpid n m" and k: "k < n" and t: "reader_turn (rpid k) k (fst (g_readers m ! k)) m = Some r"
  shows "r = Undef \<and> g_destroyed m \<and> (\<exists>i<5. fst (g_readers m ! k) = R_Lock i \<or> fst (g_readers m ! k) = R_Unlock i)
    \<or> (\<exists>m'. r = Ret () m' \<and> ring_inv wpid rpid n m' \<and> ring_bound m' < ring_bound m)"
proof -
  let ?p = "fst (g_readers m ! k)" and ?s = "snd (g_readers m ! k)"
  have i: "length (g_readers m) = n" "r_valid ?p" "counts_ok m" "ring_ok m"
    using inv k by (auto simp: ring_inv_def)
  have kl: "k < length (g_readers m)"
    using i(1) k by simp
  note T = total_set [OF kl]
  have quiet: "ring_inv wpid rpid n m' \<and> ring_bound m' < ring_bound m"
    if "g_readers m' = (g_readers m)[k := (p, ?s)]" "g_writer m' = g_writer m" "g_destroyed m' = g_destroyed m" "g_wout m' = g_wout m"
      "r_valid p" "counts_ok m'" "r_cost p < r_cost ?p" "g_taken m' = g_taken m" "g_nums m' = g_nums m" "g_head m' = g_head m"
      "g_tail m' = g_tail m" "r_bump p = r_bump ?p" for m' p
  proof (rule reader_invI [OF inv k that(1-6) _ that(7)])
    show "ring_ok m'"
      using i(4) that T [OF that(1), of r_bump] by (simp add: ring_ok_def puts_def)
  qed (use that(8) in simp)
  show ?thesis
  proof (cases ?p)
    case (R_Loop j)
    define p where "p = (if j < 5 then R_Wait j else R_Done)"
    have "j \<le> 5"
      using i(2) R_Loop by (simp add: r_valid_def)
    then have p: "r_valid p" "r_cost p < r_cost ?p" "r_rounds p = r_rounds ?p" "r_took p = 0" "r_got p = 0" "r_in p = 0" "r_bump p = 0"
      using R_Loop by (auto simp: p_def r_valid_def r_counts)
    have "counts_ok (set_reader k p m)"
      using i(3) T [of "set_reader k p m" p ?s r_rounds] T [of "set_reader k p m" p ?s r_took] T [of "set_reader k p m" p ?s r_got]
        T [of "set_reader k p m" p ?s r_in] R_Loop p by (simp add: counts_ok_def r_counts)
    moreover have "r = Ret () (set_reader k p m)" "r_bump ?p = 0"
      using t R_Loop by (auto simp: p_def r_counts)
    ultimately show ?thesis
      using p quiet [of "set_reader k p m" p] by simp
  next
    case (R_Wait j)
    then have f: "g_full m \<noteq> 0" "r = Ret () (set_reader k (R_Lock j) (m\<lparr>g_full := g_full m - 1\<rparr>))"
      using t by (auto simp: sem_wait_def split: if_splits)
    let ?m = "set_reader k (R_Lock j) (m\<lparr>g_full := g_full m - 1\<rparr>)"
    have "counts_ok ?m"
      using i(3) T [of ?m "R_Lock j" ?s r_rounds] T [of ?m "R_Lock j" ?s r_took] T [of ?m "R_Lock j" ?s r_got] T [of ?m "R_Lock j" ?s r_in]
        R_Wait f(1) by (simp add: counts_ok_def r_counts)
    then show ?thesis
      using f(2) i(2) R_Wait quiet [of ?m "R_Lock j"] by (simp add: r_counts r_valid_def)
  next
    case (R_Lock j)
    let ?m = "set_reader k (R_Get j) (m\<lparr>g_lock := g_lock m - 1\<rparr>)"
    have j: "j < 5"
      using i(2) R_Lock by (simp add: r_valid_def)
    show ?thesis
    proof (cases "g_destroyed m")
      case True
      then show ?thesis
        using t R_Lock j by (simp add: ring_lock_def)
    next
      case False
      then have f: "g_lock m \<noteq> 0" "r = Ret () ?m"
        using t R_Lock by (auto simp: ring_lock_def sem_wait_def split: if_splits)
      have "counts_ok ?m"
        using i(3) T [of ?m "R_Get j" ?s r_rounds] T [of ?m "R_Get j" ?s r_took] T [of ?m "R_Get j" ?s r_got] T [of ?m "R_Get j" ?s r_in]
          R_Lock f(1) by (simp add: counts_ok_def r_counts)
      then show ?thesis
        using f(2) i(2) R_Lock quiet [of ?m "R_Get j"] by (simp add: r_counts r_valid_def)
    qed
  next
    case (R_Unlock j)
    let ?m = "set_reader k (R_Post j) (m\<lparr>g_lock := g_lock m + 1\<rparr>)"
    have j: "j < 5"
      using i(2) R_Unlock by (simp add: r_valid_def)
    show ?thesis
    proof (cases "g_destroyed m")
      case True
      then show ?thesis
        using t R_Unlock j by (simp add: ring_unlock_def)
    next
      case False
      then have f: "r = Ret () ?m"
        using t R_Unlock by (auto simp: ring_unlock_def sem_post_def)
      have "counts_ok ?m"
        using i(3) T [of ?m "R_Post j" ?s r_rounds] T [of ?m "R_Post j" ?s r_took] T [of ?m "R_Post j" ?s r_got] T [of ?m "R_Post j" ?s r_in]
          R_Unlock by (simp add: counts_ok_def r_counts)
      then show ?thesis
        using f i(2) R_Unlock quiet [of ?m "R_Post j"] by (simp add: r_counts r_valid_def)
    qed
  next
    case (R_Post j)
    let ?m = "set_reader k (R_Loop (j + 1)) (m\<lparr>g_empty := g_empty m + 1\<rparr>)"
    have f: "r = Ret () ?m"
      using t R_Post by (simp add: sem_post_def)
    have "counts_ok ?m"
      using i(3) T [of ?m "R_Loop (j + 1)" ?s r_rounds] T [of ?m "R_Loop (j + 1)" ?s r_took] T [of ?m "R_Loop (j + 1)" ?s r_got]
        T [of ?m "R_Loop (j + 1)" ?s r_in] R_Post by (simp add: counts_ok_def r_counts)
    then show ?thesis
      using f i(2) R_Post quiet [of ?m "R_Loop (j + 1)"] by (simp add: r_counts r_valid_def)
  next
    case (R_Get j)
    let ?v = "int (length (g_taken m))"
    have b: "total r_bump m = 0" "length (g_taken m) < puts m"
    proof -
      have "total r_bump m < total r_in m"
        using total_le(2) [of r_bump r_in k m, OF r_le(3) kl] R_Get by (simp add: r_counts)
      then show "total r_bump m = 0"
        using i(3) by (simp add: counts_ok_def)
      have "total r_got m < total r_took m"
        using total_le(2) [of r_got r_took k m, OF r_le(1) kl] R_Get by (simp add: r_counts)
      then show "length (g_taken m) < puts m"
        using i(3) by (simp add: counts_ok_def puts_def)
    qed
    have tl: "g_tail m = length (g_taken m) mod 5" "g_nums m ! (length (g_taken m) mod 5) = ?v"
      using i(4) b by (simp_all add: ring_ok_def)
    let ?m = "set_reader k (R_Bump j) (reader_says k (read_line (rpid k) ?v) (m\<lparr>g_taken := g_taken m @ [(k, ?v)]\<rparr>))"
    have f: "r = Ret () ?m"
      using t R_Get tl by (simp add: BUFSIZE_def split: if_splits)
    have gm: "g_readers ?m = (g_readers m)[k := (R_Bump j, ?s @ read_line (rpid k) ?v)]" "g_taken ?m = g_taken m @ [(k, ?v)]"
      "g_writer ?m = g_writer m" "g_destroyed ?m = g_destroyed m" "g_wout ?m = g_wout m" "g_nums ?m = g_nums m" "g_head ?m = g_head m"
      "g_tail ?m = g_tail m" "g_lock ?m = g_lock m" "g_full ?m = g_full m" "g_empty ?m = g_empty m"
      using kl by (simp_all add: reader_says_def)
    have "counts_ok ?m"
      using i(3) T [OF gm(1), of r_rounds] T [OF gm(1), of r_took] T [OF gm(1), of r_got] T [OF gm(1), of r_in] R_Get gm
      by (simp add: counts_ok_def r_counts)
    moreover have "ring_ok ?m"
      using i(4) T [OF gm(1), of r_bump] b R_Get tl gm by (simp add: ring_ok_def puts_def r_counts)
    ultimately have "ring_inv wpid rpid n ?m \<and> ring_bound ?m < ring_bound m"
      using gm i(2) R_Get by (intro reader_invI [OF inv k gm(1)]) (simp_all add: r_valid_def)
    then show ?thesis
      using f by blast
  next
    case (R_Bump j)
    let ?m = "set_reader k (R_Unlock j) (m\<lparr>g_tail := (g_tail m + 1) mod 5\<rparr>)"
    have f: "r = Ret () ?m"
      using t R_Bump by (simp add: BUFSIZE_def)
    have gm: "g_readers ?m = (g_readers m)[k := (R_Unlock j, ?s)]"
      by simp
    have "1 \<le> total r_bump m" "total r_bump ?m + 1 = total r_bump m"
      using T [OF gm, of r_bump] R_Bump total_pos [OF kl, of r_bump] by (simp_all add: r_counts)
    moreover have "total r_bump m \<le> length (g_taken m)"
      using ring_bounds(3) [OF i(3)] .
    ultimately have "length (g_taken m) - total r_bump ?m = Suc (length (g_taken m) - total r_bump m)"
      by simp
    then have "ring_ok ?m"
      using i(4) by (simp add: ring_ok_def puts_def mod_Suc_eq)
    moreover have "counts_ok ?m"
      using i(3) T [OF gm, of r_rounds] T [OF gm, of r_took] T [OF gm, of r_got] T [OF gm, of r_in] R_Bump
      by (simp add: counts_ok_def r_counts)
    ultimately have "ring_inv wpid rpid n ?m \<and> ring_bound ?m < ring_bound m"
      using i(2) R_Bump by (intro reader_invI [OF inv k gm]) (simp_all add: r_valid_def)
    then show ?thesis
      using f by blast
  qed (use t in simp)
qed

lemma writer_simps [simp]:
  "g_readers (set_writer p m) = g_readers m" "g_writer (set_writer p m) = p"
  "g_destroyed (set_writer p m) = g_destroyed m" "g_wout (set_writer p m) = g_wout m" "g_taken (set_writer p m) = g_taken m"
  "g_lock (set_writer p m) = g_lock m" "g_full (set_writer p m) = g_full m" "g_empty (set_writer p m) = g_empty m"
  "g_nums (set_writer p m) = g_nums m" "g_head (set_writer p m) = g_head m" "g_tail (set_writer p m) = g_tail m"
  by (simp_all add: set_writer_def)

lemma writer_invI:
  assumes inv: "ring_inv wpid rpid n m" and m': "g_readers m' = g_readers m" "g_taken m' = g_taken m" "g_destroyed m' \<longleftrightarrow> g_writer m' = W_Done"
    and ok: "w_valid (g_writer m')" "counts_ok m'" "ring_ok m'" "g_wout m' = written_by wpid m'" "w_cost (g_writer m') < w_cost (g_writer m)"
  shows "ring_inv wpid rpid n m' \<and> ring_bound m' < ring_bound m"
  using inv ok total_same [OF m'(1), of r_cost] unfolding ring_inv_def ring_bound_def m' by auto

lemma slots_differ:
  assumes "k < p" "p < k + (5::nat)"
  shows "k mod 5 \<noteq> p mod 5"
proof
  assume "k mod 5 = p mod 5"
  then have "5 dvd p - k"
    using assms(1) mod_eq_dvd_iff_nat [of k p 5] by simp
  then show False
    using assms by (auto dest: dvd_imp_le)
qed

lemma total_simps [simp]:
  "total f (set_writer p m) = total f m" "total f (m\<lparr>g_empty := x\<rparr>) = total f m" "total f (m\<lparr>g_full := x\<rparr>) = total f m"
  "total f (m\<lparr>g_lock := x\<rparr>) = total f m" "total f (m\<lparr>g_nums := ns\<rparr>) = total f m" "total f (m\<lparr>g_wout := t\<rparr>) = total f m"
  "total f (m\<lparr>g_head := x\<rparr>) = total f m" "total f (m\<lparr>g_destroyed := b\<rparr>) = total f m"
  by (simp_all add: total_def)

lemma writer_turn_ok:
  assumes inv: "ring_inv wpid rpid n m" and t: "writer_turn wpid (g_writer m) m = Some r"
  shows "\<exists>m'. r = Ret () m' \<and> ring_inv wpid rpid n m' \<and> ring_bound m' < ring_bound m"
proof -
  let ?p = "g_writer m"
  have i: "w_valid ?p" "counts_ok m" "ring_ok m" "g_destroyed m \<longleftrightarrow> ?p = W_Done" "g_wout m = written_by wpid m"
    using inv by (auto simp: ring_inv_def)
  have quiet: ?thesis
    if "r = Ret () m'" "g_readers m' = g_readers m" "g_taken m' = g_taken m" "g_destroyed m' = g_destroyed m" "g_wout m' = g_wout m"
      "g_nums m' = g_nums m" "g_head m' = g_head m" "g_tail m' = g_tail m" "w_valid (g_writer m')" "counts_ok m'"
      "w_cost (g_writer m') < w_cost ?p" "puts m' = puts m" "w_bump (g_writer m') = w_bump ?p" "g_writer m' \<noteq> W_Done" "?p \<noteq> W_Done" for m'
  proof -
    have "ring_inv wpid rpid n m' \<and> ring_bound m' < ring_bound m"
      using that i total_same [OF that(2), of r_bump]
      by (intro writer_invI [OF inv]) (simp_all add: ring_ok_def written_by_def)
    then show ?thesis
      using that(1) by blast
  qed
  note counts = counts_ok_def w_counts puts_def
  show ?thesis
  proof (cases ?p)
    case (W_Loop j)
    define p where "p = (if j < 10 then W_Wait j else W_Destroy)"
    have p: "w_valid p" "w_cost p < w_cost ?p" "w_rounds p = j" "w_took p = 0" "w_put p = 0" "w_in p = 0" "w_bump p = 0" "p \<noteq> W_Done"
      "r = Ret () (set_writer p m)"
      using W_Loop i(1) t by (auto simp: p_def w_valid_def w_counts)
    moreover have "w_took ?p = 0" "w_put ?p = 0" "w_in ?p = 0" "w_bump ?p = 0"
      using W_Loop by (simp_all add: w_counts)
    ultimately show ?thesis
      using W_Loop i(2) by (intro quiet [of "set_writer p m"]) (simp_all add: counts_ok_def puts_def)
  next
    case (W_Wait j)
    then have f: "g_empty m \<noteq> 0" "r = Ret () (set_writer (W_Lock j) (m\<lparr>g_empty := g_empty m - 1\<rparr>))"
      using t by (auto simp: sem_wait_def split: if_splits)
    then show ?thesis
      using W_Wait i by (intro quiet [OF f(2)]) (simp_all add: counts w_valid_def)
  next
    case (W_Lock j)
    then have f: "g_lock m \<noteq> 0" "r = Ret () (set_writer (W_Put j) (m\<lparr>g_lock := g_lock m - 1\<rparr>))"
      using t i(4) by (auto simp: ring_lock_def sem_wait_def split: if_splits)
    then show ?thesis
      using W_Lock i by (intro quiet [OF f(2)]) (simp_all add: counts w_valid_def)
  next
    case (W_Put j)
    have b: "puts m = j" "puts m + 1 \<le> length (g_taken m) + 5" "length (g_taken m) \<le> puts m"
      using W_Put i(2) ring_bounds(1) [OF i(2)] by (simp_all add: counts)
    have h: "g_head m = j mod 5" "length (g_nums m) = 5"
      using i(3) W_Put b(1) by (simp_all add: ring_ok_def w_counts)
    let ?m = "set_writer (W_Bump j) (m\<lparr>g_nums := (g_nums m)[g_head m := int j], g_wout := g_wout m @ write_line wpid (int j)\<rparr>)"
    have f: "r = Ret () ?m"
      using t W_Put h(1) by (simp add: BUFSIZE_def)
    have "(g_nums m)[j mod 5 := int j] ! (k mod 5) = int k" if "length (g_taken m) \<le> k" "k < Suc j" for k
    proof (cases "k = j")
      case True
      then show ?thesis using h(2) by simp
    next
      case False
      then have "k mod 5 \<noteq> j mod 5"
        using slots_differ [of k j] that b by simp
      then show ?thesis
        using i(3) False that b(1) by (simp add: ring_ok_def)
    qed
    then have "ring_ok ?m"
      using i(3) W_Put h b(1) total_same [of ?m m r_bump] by (simp add: ring_ok_def puts_def w_counts)
    moreover have "counts_ok ?m"
      using i(2) W_Put by (simp add: counts)
    moreover have "g_wout ?m = written_by wpid ?m"
      using i(5) W_Put b(1) by (simp add: written_by_def puts_def w_counts)
    ultimately have "ring_inv wpid rpid n ?m \<and> ring_bound ?m < ring_bound m"
      using W_Put i by (intro writer_invI [OF inv]) (simp_all add: w_valid_def)
    then show ?thesis using f by blast
  next
    case (W_Bump j)
    let ?m = "set_writer (W_Unlock j) (m\<lparr>g_head := (g_head m + 1) mod 5\<rparr>)"
    have f: "r = Ret () ?m"
      using t W_Bump by (simp add: BUFSIZE_def)
    have "ring_ok ?m"
      using i(3) W_Bump total_same [of ?m m r_bump] by (simp add: ring_ok_def puts_def w_counts mod_Suc_eq)
    moreover have "counts_ok ?m"
      using i(2) W_Bump by (simp add: counts)
    ultimately have "ring_inv wpid rpid n ?m \<and> ring_bound ?m < ring_bound m"
      using W_Bump i by (intro writer_invI [OF inv]) (simp_all add: w_valid_def written_by_def puts_def w_counts)
    then show ?thesis using f by blast
  next
    case (W_Unlock j)
    then have f: "r = Ret () (set_writer (W_Post j) (m\<lparr>g_lock := g_lock m + 1\<rparr>))"
      using t i(4) by (auto simp: ring_unlock_def sem_post_def)
    then show ?thesis
      using W_Unlock i by (intro quiet [OF f]) (simp_all add: counts w_valid_def)
  next
    case (W_Post j)
    then have f: "r = Ret () (set_writer (W_Loop (j + 1)) (m\<lparr>g_full := g_full m + 1\<rparr>))"
      using t by (simp add: sem_post_def)
    then show ?thesis
      using W_Post i by (intro quiet [OF f]) (simp_all add: counts w_valid_def)
  next
    case W_Destroy
    let ?m = "set_writer W_Done (m\<lparr>g_destroyed := True, g_wout := g_wout m @ ''close'' @ [NL] @ ''unlink'' @ [NL]\<rparr>)"
    have f: "r = Ret () ?m"
      using t W_Destroy by simp
    have "ring_inv wpid rpid n ?m \<and> ring_bound ?m < ring_bound m"
      using W_Destroy i total_same [of ?m m r_bump]
      by (intro writer_invI [OF inv]) (simp_all add: w_valid_def written_by_def puts_def w_counts counts_ok_def ring_ok_def)
    then show ?thesis using f by blast
  qed (use t in simp)
qed

section \<open>All runs\<close>

text \<open>A run keeps the invariant, until a reader uses the lock that the writer has destroyed.\<close>

lemma ring_turn_ok:
  assumes "ring_inv wpid rpid n m" "ring_turn wpid rpid a m = Some r"
  shows "r = Undef \<and> g_destroyed m \<and> (\<exists>k i. a = Reader k \<and> k < n \<and> i < 5
        \<and> (fst (g_readers m ! k) = R_Lock i \<or> fst (g_readers m ! k) = R_Unlock i))
    \<or> (\<exists>m'. r = Ret () m' \<and> ring_inv wpid rpid n m' \<and> ring_bound m' < ring_bound m)"
proof (cases a)
  case Writer
  then show ?thesis
    using writer_turn_ok [OF assms(1), of r] assms(2) by simp
next
  case (Reader k)
  then have "k < n" "reader_turn (rpid k) k (fst (g_readers m ! k)) m = Some r"
    using assms by (auto simp: ring_inv_def split: if_splits)
  then show ?thesis
    using reader_turn_ok [OF assms(1), of k r] Reader by blast
qed

lemma ring_run_inv:
  assumes "run (ring_turn wpid rpid) as r r'" "r = Ret () m" "ring_inv wpid rpid n m"
  shows "(\<exists>m'. r' = Ret () m' \<and> ring_inv wpid rpid n m')
    \<or> r' = Undef \<and> (\<exists>pre a m'. as = pre @ [a] \<and> run (ring_turn wpid rpid) pre r (Ret () m') \<and> g_destroyed m')"
  using assms
proof (induction arbitrary: m rule: run.induct)
  case (turn a m0 r1 as r')
  then have m: "m0 = m" "ring_turn wpid rpid a m = Some r1"
    by auto
  consider (bad) "r1 = Undef" "g_destroyed m" | (good) m' where "r1 = Ret () m'" "ring_inv wpid rpid n m'"
    using ring_turn_ok [OF turn.prems(2) m(2)] by blast
  then show ?case
  proof cases
    case bad
    then have "as = []" "r' = Undef"
      using turn.hyps(2) by simp_all
    then show ?thesis
      using m(1) bad(2) by (intro disjI2 conjI exI [of _ "[]"] exI [of _ a] exI [of _ m]) simp_all
  next
    case good
    from turn.IH [OF good] show ?thesis
      using turn.hyps(1) by (metis append_Cons run.turn)
  qed
qed auto

lemma ring_start_inv: "length nums = 5 \<Longrightarrow> ring_inv wpid rpid n (ring_start nums n)"
proof -
  assume "length nums = 5"
  have "total f (ring_start nums n) = n * f (R_Loop 0)" for f
    unfolding total_def ring_start_def by (induction n) simp_all
  then show ?thesis
    using \<open>length nums = 5\<close>
    by (simp add: ring_inv_def ring_start_def w_valid_def r_valid_def counts_ok_def ring_ok_def written_by_def puts_def
        w_counts r_counts lines_of_def)
qed

text \<open>
  C17: the numbers come out of the ring in the order in which they went in, whatever the number of readers and the
  order of turns, as long as nobody uses the lock after the writer has destroyed it: the n-th number that is read is n, each
  is read by one reader, which prints it, and there are never more than five in the ring.
\<close>

theorem ring_order:
  assumes "length nums = 5" "run (ring_turn wpid rpid) as (Ret () (ring_start nums n)) r"
  shows "(\<exists>m. r = Ret () m \<and> map snd (g_taken m) = map int [0..<length (g_taken m)]
      \<and> (\<forall>k<n. snd (g_readers m ! k) = lines_of rpid k (g_taken m))
      \<and> length (g_taken m) \<le> puts m \<and> puts m \<le> length (g_taken m) + 5 \<and> g_wout m = written_by wpid m)
    \<or> r = Undef \<and> (\<exists>pre a m. as = pre @ [a] \<and> run (ring_turn wpid rpid) pre (Ret () (ring_start nums n)) (Ret () m) \<and> g_destroyed m)"
  using ring_run_inv [OF assms(2) refl ring_start_inv [OF assms(1)]]
proof (elim disjE exE conjE)
  fix m
  assume m: "r = Ret () m" "ring_inv wpid rpid n m"
  then have "counts_ok m" "ring_ok m" "g_wout m = written_by wpid m"
    by (simp_all add: ring_inv_def)
  then show ?thesis
    using m ring_bounds [of m] by (auto simp: ring_inv_def ring_ok_def)
qed blast

section \<open>One reader\<close>

definition ring_idle :: "ring \<Rightarrow> bool" where
  "ring_idle m \<longleftrightarrow> g_writer m = W_Done \<and> (\<forall>k<length (g_readers m). fst (g_readers m ! k) = R_Done)"

lemma single: "length (g_readers m) = 1 \<Longrightarrow> total f m = f (fst (g_readers m ! 0))"
  by (auto simp: total_def length_Suc_conv)

lemma reader_can_move:
  assumes "p \<noteq> R_Done" "\<And>i. p = R_Wait i \<Longrightarrow> g_full m \<noteq> 0" "\<And>i. p = R_Lock i \<Longrightarrow> g_lock m \<noteq> 0 \<or> g_destroyed m"
  shows "\<exists>r. reader_turn pid k p m = Some r"
  using assms by (cases p) (auto simp: sem_wait_def ring_lock_def ring_unlock_def)

lemma one_reader_safe:
  assumes "ring_inv wpid rpid 1 m" "i < 5" "fst (g_readers m ! 0) = R_Lock i \<or> fst (g_readers m ! 0) = R_Unlock i"
  shows "\<not> g_destroyed m"
proof
  assume "g_destroyed m"
  then have "g_writer m = W_Done" "counts_ok m" "length (g_readers m) = 1"
    using assms(1) by (simp_all add: ring_inv_def)
  then show False
    using assms(2,3) by (auto simp: counts_ok_def single w_counts)
qed

lemma one_reader_lives:
  assumes inv: "ring_inv wpid rpid 1 m" and idle: "\<not> ring_idle m"
  shows "\<exists>a r. ring_turn wpid rpid a m = Some r"
proof -
  let ?p = "fst (g_readers m ! 0)"
  have i: "length (g_readers m) = 1" "w_valid (g_writer m)" "r_valid ?p" "counts_ok m" "g_destroyed m \<longleftrightarrow> g_writer m = W_Done"
    using inv by (simp_all add: ring_inv_def)
  have c: "g_empty m + w_rounds (g_writer m) + w_took (g_writer m) = 5 + r_rounds ?p"
    "g_full m + r_rounds ?p + r_took ?p = w_rounds (g_writer m)" "g_lock m + w_in (g_writer m) + r_in ?p = 1"
    using i(4) by (simp_all add: counts_ok_def single [OF i(1)])
  have reader: ?thesis if "\<exists>r. reader_turn (rpid 0) 0 ?p m = Some r"
    using that i(1) by (intro exI [of _ "Reader 0"]) simp
  have writer: ?thesis if "\<exists>r. writer_turn wpid (g_writer m) m = Some r"
    using that by (intro exI [of _ Writer]) simp
  show ?thesis
  proof (cases "\<exists>r. writer_turn wpid (g_writer m) m = Some r")
    case True
    then show ?thesis by (rule writer)
  next
    case False
    then consider (wait) j where "g_writer m = W_Wait j" "g_empty m = 0" | (lock) j where "g_writer m = W_Lock j" "g_lock m = 0"
      | (ended) "g_writer m = W_Done"
      using i(5) by (cases "g_writer m") (auto simp: sem_wait_def ring_lock_def ring_unlock_def split: if_splits)
    then show ?thesis
    proof cases
      case wait
      then have "j < 10" using i(2) by (simp add: w_valid_def)
      then have "?p \<noteq> R_Done" "\<And>k. ?p = R_Wait k \<Longrightarrow> g_full m \<noteq> 0" "\<And>k. ?p = R_Lock k \<Longrightarrow> g_lock m \<noteq> 0"
        using c wait by (auto simp: w_counts r_counts)
      then show ?thesis
        by (intro reader reader_can_move) auto
    next
      case lock
      then have "r_in ?p = 1"
        using c by (simp add: w_counts)
      then show ?thesis
        by (intro reader reader_can_move) (auto simp: r_counts)
    next
      case ended
      then have "?p \<noteq> R_Done"
        using idle i(1) by (simp add: ring_idle_def)
      moreover have "5 \<le> r_rounds ?p"
        using c(1) ended by (simp add: w_counts)
      ultimately show ?thesis
        using i(3) by (intro reader reader_can_move) (auto simp: r_valid_def)
    qed
  qed
qed

interpretation one_reader: program "ring_turn wpid rpid" "ring_inv wpid rpid 1" "\<lambda>b k m. False" ring_idle ring_bound "\<lambda>a. True" 0
  for wpid rpid
proof unfold_locales
  fix m a r
  assume m: "ring_inv wpid rpid 1 m" "ring_turn wpid rpid a m = Some r"
  from ring_turn_ok [OF m] show "outcome (ring_inv wpid rpid 1) (\<lambda>k m. False) r"
    using one_reader_safe [OF m(1)] by auto
next
  fix m a m'
  assume "ring_inv wpid rpid 1 m" "ring_turn wpid rpid a m = Some (Ret () m')"
  from ring_turn_ok [OF this] show "if True then ring_bound m' < ring_bound m else ring_bound m' \<le> ring_bound m + 0"
    by auto
next
  fix m
  assume "ring_inv wpid rpid 1 m" "\<not> ring_idle m"
  then show "\<exists>a r. True \<and> ring_turn wpid rpid a m = Some r"
    using one_reader_lives by blast
qed

text \<open>
  C22: with one reader, in every order of turns: nothing is undefined; there is no deadlock, and the two processes end after at most
  109 turns; then the reader has printed the numbers 0 to 4 and the writer 0 to 9.
\<close>

theorem ring_one_reader:
  assumes "length nums = 5" "run (ring_turn wpid rpid) as (Ret () (ring_start nums 1)) r"
  shows "length as \<le> 109
    \<and> (\<exists>m bs m'. r = Ret () m \<and> run (ring_turn wpid rpid) (as @ bs) (Ret () (ring_start nums 1)) (Ret () m') \<and> ring_idle m'
        \<and> map snd (g_readers m') = [concat (map (read_line (rpid 0)) [0, 1, 2, 3, 4])]
        \<and> g_wout m' = concat (map (write_line wpid) [0, 1, 2, 3, 4, 5, 6, 7, 8, 9]) @ ''close'' @ [NL] @ ''unlink'' @ [NL])"
proof -
  have inv: "ring_inv wpid rpid 1 (ring_start nums 1)"
    using ring_start_inv [OF assms(1)] .
  have "outcome (ring_inv wpid rpid 1) (\<lambda>k m. False) r"
    using one_reader.always [OF assms(2)] inv by simp
  then obtain m where m: "r = Ret () m"
    by (cases r) auto
  obtain bs r' where r': "run (ring_turn wpid rpid) (as @ bs) (Ret () (ring_start nums 1)) r'"
    "outcome (\<lambda>m'. ring_inv wpid rpid 1 m' \<and> ring_idle m') (\<lambda>k m. False) r'"
    using one_reader.completes [OF inv assms(2) [unfolded m]] by blast
  then obtain m' where m': "r' = Ret () m'" "ring_inv wpid rpid 1 m'" "ring_idle m'"
    by (cases r') auto
  have i: "length (g_readers m') = 1" "fst (g_readers m' ! 0) = R_Done" "g_writer m' = W_Done" "counts_ok m'" "ring_ok m'"
    "snd (g_readers m' ! 0) = lines_of rpid 0 (g_taken m')" "\<And>k v. (k, v) \<in> set (g_taken m') \<Longrightarrow> k < 1" "g_wout m' = written_by wpid m'"
    using m'(2,3) unfolding ring_inv_def ring_idle_def by auto
  have "length (g_taken m') = 5"
    using i(4) by (simp add: counts_ok_def single [OF i(1)] i(2) r_counts)
  then have v: "map snd (g_taken m') = [0, 1, 2, 3, 4]"
    using i(5) by (simp add: ring_ok_def upt_conv_Cons)
  have "filter (\<lambda>(j, v). j = 0) (g_taken m') = g_taken m'"
    using i(7) by (auto simp: filter_id_conv)
  then have "snd (g_readers m' ! 0) = concat (map (read_line (rpid 0)) (map snd (g_taken m')))"
    by (simp add: i(6) lines_of_def case_prod_unfold comp_def)
  moreover have "g_readers m' = [g_readers m' ! 0]"
    using i(1) by (auto simp: length_Suc_conv)
  ultimately have "map snd (g_readers m') = [concat (map (read_line (rpid 0)) [0, 1, 2, 3, 4])]"
    using v by (metis list.simps(8) list.simps(9))
  moreover have "g_wout m' = concat (map (write_line wpid) [0, 1, 2, 3, 4, 5, 6, 7, 8, 9]) @ ''close'' @ [NL] @ ''unlink'' @ [NL]"
    using i(3,8) by (simp add: written_by_def puts_def w_counts upt_conv_Cons)
  moreover have "length as \<le> 109"
    using one_reader.short [OF assms(2) inv] by (simp add: ring_bound_def ring_start_def total_def)
  ultimately show ?thesis
    using m r'(1) [unfolded m'(1)] m'(3) by (intro conjI exI [of _ m] exI [of _ bs] exI [of _ m']) assumption+
qed

text \<open>
  With two readers the writer can be done, because the first reader has emptied five places, and destroy the lock
  before the second reader has read anything: the second reader then uses a semaphore that does not exist any more.
\<close>

theorem ring_destroyed_in_use:
  "\<exists>as. run (ring_turn 1 (\<lambda>k. 2 + int k)) as (Ret () (ring_start [0, 0, 0, 0, 0] 2)) Undef"
proof -
  let ?as = "replicate 35 Writer @ replicate 35 (Reader 0) @ replicate 37 Writer @ replicate 3 (Reader 1)"
  have "follow (ring_turn 1 (\<lambda>k. 2 + int k)) ?as (Ret () (ring_start [0, 0, 0, 0, 0] 2)) = Some Undef"
    by code_simp
  then show ?thesis
    unfolding run_follow by blast
qed

section \<open>Examples\<close>

theorem ring_order_witness:
  "\<exists>m. run (ring_turn 1 (\<lambda>k. 2)) (replicate 7 Writer @ replicate 7 (Reader 1)) (Ret () (ring_start [0, 0, 0, 0, 0] 2)) (Ret () m)
     \<and> map snd (g_taken m) = map int [0..<length (g_taken m)]"
proof -
  have "case follow (ring_turn 1 (\<lambda>k. 2)) (replicate 7 Writer @ replicate 7 (Reader 1)) (Ret () (ring_start [0, 0, 0, 0, 0] 2)) of
      Some (Ret u m) \<Rightarrow> True | _ \<Rightarrow> False"
    by code_simp
  then obtain m where m: "run (ring_turn 1 (\<lambda>k. 2)) (replicate 7 Writer @ replicate 7 (Reader 1)) (Ret () (ring_start [0, 0, 0, 0, 0] 2)) (Ret () m)"
    unfolding run_follow by (auto simp del: follow.simps replicate.simps split: option.splits result.splits)
  from ring_order [OF _ m] show ?thesis
    using m by auto
qed

theorem ring_one_reader_witness:
  "\<exists>bs m. run (ring_turn 1 (\<lambda>k. 2)) bs (Ret () (ring_start [0, 0, 0, 0, 0] 1)) (Ret () m) \<and> ring_idle m
     \<and> map snd (g_readers m) = [concat (map (read_line 2) [0, 1, 2, 3, 4])]"
proof -
  have "run (ring_turn 1 (\<lambda>k. 2)) [] (Ret () (ring_start [0, 0, 0, 0, 0] 1)) (Ret () (ring_start [0, 0, 0, 0, 0] 1))"
    by simp
  from ring_one_reader [OF _ this] show ?thesis
    by (elim meta_impE conjE exE, simp) (intro exI conjI, assumption+)
qed

end
