(* ===== verification/Seqnum.thy ===== *)
theory Seqnum
  imports Get_Num Interleaving
begin

text \<open>
  ipc/fifo_seqnum.h, fifo_seqnum_server.c, fifo_seqnum_client.c: a server hands out ranges of numbers. A client
  sends its pid and the length of the range through the FIFO of the server and reads the first number from a FIFO
  of its own, whose name is made of its pid. A turn is one system call on something that is shared.
\<close>

section \<open>The processes\<close>

text \<open>The requests that fit into the FIFO of the server: 64 KiB of 8 bytes each.\<close>

definition PIPE_REQUESTS :: nat where "PIPE_REQUESTS = 8192"

definition CLIENT_FIFO_NAME_LEN :: nat where "CLIENT_FIFO_NAME_LEN = length ''/tmp/seqnum_cl.%ld'' + 1 + 20"

text \<open>\<open>snprintf\<close> with CLIENT_FIFO_TEMPLATE.\<close>

definition client_fifo_name :: "int \<Rightarrow> string" where
  "client_fifo_name pid = take (CLIENT_FIFO_NAME_LEN - 1) (''/tmp/seqnum_cl.'' @ dec_int pid)"

text \<open>\<open>atoi\<close> of a pointer to a string; None: a null pointer.\<close>

definition atoi :: "string option \<Rightarrow> int option" where
  "atoi arg = map_option (\<lambda>s. int32 (fst (strtol 10 s))) arg"

text \<open>
  Where a client is: at \<open>mkfifo\<close>, at the open of the FIFO of the server, at the write of the request, at the open of its own
  FIFO, at the read of the response, at \<open>printf\<close> with the number; it has ended; a signal has killed it.
\<close>

datatype cpc = C_Make | C_Open | C_Send | C_Wait | C_Read | C_Print int | C_Done | C_Killed

record sclient =
  c_pid :: int
  c_arg :: "string option"
  c_pc :: cpc
  c_made :: bool
  c_fifo :: "int list"
  c_out :: string

text \<open>Where the server is: at the read, at the open, at the write, at the addition; it has ended. It holds
  the request and, at the write, the client whose FIFO is open.\<close>

datatype spc = S_Read | S_Open int int | S_Write nat int | S_Add int | S_Ended

record seqnum =
  s_pc :: spc
  s_seqNum :: int
  s_fifo :: "(int \<times> int) list"
  s_clients :: "sclient list"

datatype sagent = Server | Client nat | Kill nat

section \<open>The turns\<close>

definition upd_client :: "nat \<Rightarrow> (sclient \<Rightarrow> sclient) \<Rightarrow> seqnum \<Rightarrow> seqnum" where
  "upd_client k f m = m\<lparr>s_clients := (s_clients m)[k := f (s_clients m ! k)]\<rparr>"

text \<open>The client whose FIFO has a name.\<close>

definition owner :: "string \<Rightarrow> sclient list \<Rightarrow> nat option" where
  "owner name cs = find (\<lambda>k. c_made (cs ! k) \<and> client_fifo_name (c_pid (cs ! k)) = name) [0..<length cs]"

text \<open>
  \<open>open\<close> for writing waits for a reader and the other way round, so the two open the FIFO together. If there is no
  such FIFO the server ends, and its FIFO is deleted. The write fails with EPIPE when the client has been killed meanwhile; that is
  ignored.
\<close>

fun server_turn :: "spc \<Rightarrow> seqnum \<Rightarrow> (seqnum, unit) result option" where
  "server_turn S_Read m = (case s_fifo m of [] \<Rightarrow> None
     | (pid, len) # rest \<Rightarrow> Some (Ret () (m\<lparr>s_pc := S_Open pid len, s_fifo := rest\<rparr>)))"
| "server_turn (S_Open pid len) m =
     (case owner (client_fifo_name pid) (s_clients m) of
        None \<Rightarrow> Some (Ret () (m\<lparr>s_pc := S_Ended\<rparr>))
      | Some k \<Rightarrow> if c_pc (s_clients m ! k) = C_Wait
          then Some (Ret () (upd_client k (\<lambda>c. c\<lparr>c_pc := C_Read\<rparr>) (m\<lparr>s_pc := S_Write k len\<rparr>)))
          else None)"
| "server_turn (S_Write k len) m = Some (Ret ()
     ((if c_pc (s_clients m ! k) = C_Read then upd_client k (\<lambda>c. c\<lparr>c_fifo := c_fifo c @ [s_seqNum m]\<rparr>) else id)
        (m\<lparr>s_pc := S_Add len\<rparr>)))"
| "server_turn (S_Add len) m =
     (if s_seqNum m + len < INT_MIN \<or> INT_MAX < s_seqNum m + len then Some Undef
      else Some (Ret () (m\<lparr>s_pc := S_Read, s_seqNum := s_seqNum m + len\<rparr>)))"
| "server_turn S_Ended m = None"

text \<open>At the end \<open>deleteFifo\<close> runs; not so when a signal kills the client.\<close>

definition client_exit :: "nat \<Rightarrow> seqnum \<Rightarrow> seqnum" where
  "client_exit k m = upd_client k (\<lambda>c. c\<lparr>c_pc := C_Done, c_made := False\<rparr>) m"

fun client_turn :: "nat \<Rightarrow> cpc \<Rightarrow> seqnum \<Rightarrow> (seqnum, unit) result option" where
  "client_turn k C_Make m = Some (Ret () (upd_client k (\<lambda>c. c\<lparr>c_made := True, c_pc := C_Open\<rparr>) m))"
| "client_turn k C_Open m = Some (Ret ()
     (if s_pc m = S_Ended then client_exit k m else upd_client k (\<lambda>c. c\<lparr>c_pc := C_Send\<rparr>) m))"
| "client_turn k C_Send m =
     (case atoi (c_arg (s_clients m ! k)) of
        None \<Rightarrow> Some Undef
      | Some len \<Rightarrow>
          if s_pc m = S_Ended then Some (Ret () (upd_client k (\<lambda>c. c\<lparr>c_pc := C_Killed\<rparr>) m))
          else if length (s_fifo m) < PIPE_REQUESTS
          then Some (Ret () (upd_client k (\<lambda>c. c\<lparr>c_pc := C_Wait\<rparr>) (m\<lparr>s_fifo := s_fifo m @ [(c_pid (s_clients m ! k), len)]\<rparr>)))
          else None)"
| "client_turn k C_Wait m = None"
| "client_turn k C_Read m =
     (case c_fifo (s_clients m ! k) of [] \<Rightarrow> None
      | v # vs \<Rightarrow> Some (Ret () (upd_client k (\<lambda>c. c\<lparr>c_pc := C_Print v, c_fifo := vs\<rparr>) m)))"
| "client_turn k (C_Print v) m = Some (Ret () (client_exit k (upd_client k (\<lambda>c. c\<lparr>c_out := c_out c @ dec_int v @ [NL]\<rparr>) m)))"
| "client_turn k C_Done m = None"
| "client_turn k C_Killed m = None"

fun seqnum_turn :: "(sagent, seqnum) turns" where
  "seqnum_turn Server m = server_turn (s_pc m) m"
| "seqnum_turn (Client k) m = (if k < length (s_clients m) then client_turn k (c_pc (s_clients m ! k)) m else None)"
| "seqnum_turn (Kill k) m = (if k < length (s_clients m) \<and> c_pc (s_clients m ! k) \<noteq> C_Done \<and> c_pc (s_clients m ! k) \<noteq> C_Killed
     then Some (Ret () (upd_client k (\<lambda>c. c\<lparr>c_pc := C_Killed\<rparr>) m)) else None)"

text \<open>The server at its loop, with its FIFO; clients that are started with pids and arguments.\<close>

definition new_client :: "int \<times> string option \<Rightarrow> sclient" where
  "new_client x = \<lparr>c_pid = fst x, c_arg = snd x, c_pc = C_Make, c_made = False, c_fifo = [], c_out = []\<rparr>"

definition seqnum_start :: "(int \<times> string option) list \<Rightarrow> seqnum" where
  "seqnum_start xs = \<lparr>s_pc = S_Read, s_seqNum = 0, s_fifo = [], s_clients = map new_client xs\<rparr>"

section \<open>Names\<close>

lemma dec_int_inj: "dec_int i = dec_int j \<Longrightarrow> i = j"
proof -
  have d: "dec n \<noteq> CHR ''-'' # s" for n s
    using dec_reads [of n] digit_plain(2) [of 10 "CHR ''-''"] by auto
  have n: "dec m = dec n \<Longrightarrow> m = n" for m n
    using dec_reads [of m] dec_reads [of n] by metis
  assume "dec_int i = dec_int j"
  then show "i = j"
    using d n [of "nat i" "nat j"] n [of "nat (- i)" "nat (- j)"] d [of _ "dec _"]
    by (auto simp: dec_int_def split: if_splits dest: sym)
qed

lemma dec_length: "n < 10 ^ k \<Longrightarrow> 0 < k \<Longrightarrow> length (dec n) \<le> k"
proof (induction n arbitrary: k rule: dec.induct)
  case (1 n)
  show ?case
  proof (cases "n < 10")
    case True
    then show ?thesis
      using 1(3) by (subst dec.simps) simp
  next
    case False
    then obtain k' where k: "k = Suc k'" "0 < k'"
      using 1(2,3) by (cases k; cases "k - 1") auto
    then have "length (dec (n div 10)) \<le> k'"
      using 1 False by (simp add: less_mult_imp_div_less mult.commute)
    then show ?thesis
      using False k by (subst dec.simps) simp
  qed
qed

text \<open>A pid fits into the buffer, so different clients have different FIFOs.\<close>

definition pid_ok :: "int \<Rightarrow> bool" where
  "pid_ok p \<longleftrightarrow> 0 \<le> p \<and> p \<le> INT_MAX"

lemma fifo_name_inj:
  assumes "pid_ok p" "pid_ok q" "client_fifo_name p = client_fifo_name q"
  shows "p = q"
proof -
  have "length (dec_int p) \<le> 10" if "pid_ok p" for p
  proof -
    have "nat p < 10 ^ 10"
      using that by (simp add: pid_ok_def INT_MAX_def nat_less_iff)
    then show ?thesis
      using dec_length that by (simp add: dec_int_def pid_ok_def)
  qed
  note this [OF assms(1)] this [OF assms(2)]
  then show ?thesis
    using assms(3) by (intro dec_int_inj) (simp add: client_fifo_name_def CLIENT_FIFO_NAME_LEN_def)
qed

section \<open>What is granted\<close>

text \<open>The ranges in the order in which they are handed out: client, first number, length.\<close>

type_synonym grants = "(nat \<times> int \<times> int) list"

fun chain :: "int \<Rightarrow> grants \<Rightarrow> bool" where
  "chain v [] = True"
| "chain v ((k, s, l) # gs) = (s = v \<and> chain (v + l) gs)"

definition granted :: "grants \<Rightarrow> int" where
  "granted gs = sum_list (map (snd \<circ> snd) gs)"

lemma granted_simps [simp]: "granted [] = 0" "granted ((k, s, l) # gs) = l + granted gs" "granted (gs @ gs') = granted gs + granted gs'"
  by (simp_all add: granted_def)

lemma chain_append: "chain v (gs @ [(k, s, l)]) \<longleftrightarrow> chain v gs \<and> s = v + granted gs"
  by (induction v gs rule: chain.induct) (auto simp: algebra_simps)

lemma chain_bounds:
  assumes "chain v gs" "\<forall>(k, s, l)\<in>set gs. 0 \<le> l" "(i, a, x) \<in> set gs"
  shows "v \<le> a \<and> a + x \<le> v + granted gs"
  using assms
proof (induction v gs rule: chain.induct)
  case (2 v k s l gs)
  have "0 \<le> granted gs"
    using 2(3) unfolding granted_def by (intro sum_list_nonneg) auto
  then show ?case
    using 2 by fastforce
qed simp

lemma chain_disjoint:
  assumes "chain v gs" "\<forall>(k, s, l)\<in>set gs. 0 \<le> l" "(i, a, x) \<in> set gs" "(j, b, y) \<in> set gs" "i \<noteq> j"
  shows "a + x \<le> b \<or> b + y \<le> a"
  using assms
proof (induction v gs rule: chain.induct)
  case (2 v k s l gs)
  have c: "chain (v + l) gs" "\<forall>(k, s, l)\<in>set gs. 0 \<le> l"
    using 2(2,3) by auto
  have later: "s + l \<le> b'" if "(j', b', y') \<in> set gs" for j' b' y'
    using chain_bounds [OF c that] 2(2) by simp
  consider "(i, a, x) = (k, s, l)" "(j, b, y) \<in> set gs" | "(j, b, y) = (k, s, l)" "(i, a, x) \<in> set gs"
    | "(i, a, x) \<in> set gs" "(j, b, y) \<in> set gs"
    using 2(4,5,6) by auto
  then show ?case
    using later 2(1) [OF c _ _ 2(6)] by cases auto
qed simp

section \<open>The invariant\<close>

definition ask :: "(int \<times> string option) list \<Rightarrow> nat \<Rightarrow> int" where
  "ask xs k = the (atoi (snd (xs ! k)))"

text \<open>The requests on their way, the one that the server works on first; the client whose FIFO it has open; the
  number that a client was granted.\<close>

definition requests :: "seqnum \<Rightarrow> (int \<times> int) list" where
  "requests m = (case s_pc m of S_Open pid len \<Rightarrow> [(pid, len)] | _ \<Rightarrow> []) @ s_fifo m"

definition queued :: "int \<Rightarrow> seqnum \<Rightarrow> bool" where
  "queued pid m \<longleftrightarrow> pid \<in> fst ` set (requests m)"

definition writing :: "nat \<Rightarrow> seqnum \<Rightarrow> bool" where
  "writing k m \<longleftrightarrow> (case s_pc m of S_Write j len \<Rightarrow> j = k | _ \<Rightarrow> False)"

definition grant :: "grants \<Rightarrow> nat \<Rightarrow> int option" where
  "grant gs k = map_option fst (map_of gs k)"

definition adding :: "spc \<Rightarrow> int" where
  "adding pc = (case pc of S_Add len \<Rightarrow> len | _ \<Rightarrow> 0)"

definition client_ok :: "sclient \<Rightarrow> bool \<Rightarrow> bool \<Rightarrow> int option \<Rightarrow> bool" where
  "client_ok c qd wr g = (case c_pc c of
     C_Make \<Rightarrow> \<not> qd \<and> \<not> wr \<and> g = None \<and> c_fifo c = [] \<and> c_out c = []
   | C_Open \<Rightarrow> c_made c \<and> \<not> qd \<and> \<not> wr \<and> g = None \<and> c_fifo c = [] \<and> c_out c = []
   | C_Send \<Rightarrow> c_made c \<and> \<not> qd \<and> \<not> wr \<and> g = None \<and> c_fifo c = [] \<and> c_out c = []
   | C_Wait \<Rightarrow> c_made c \<and> qd \<and> \<not> wr \<and> g = None \<and> c_fifo c = [] \<and> c_out c = []
   | C_Read \<Rightarrow> c_made c \<and> \<not> qd \<and> c_out c = [] \<and> (if wr then g = None \<and> c_fifo c = [] else \<exists>v. g = Some v \<and> c_fifo c = [v])
   | C_Print v \<Rightarrow> c_made c \<and> \<not> qd \<and> \<not> wr \<and> g = Some v \<and> c_fifo c = [] \<and> c_out c = []
   | C_Done \<Rightarrow> \<not> qd \<and> \<not> wr \<and> (\<exists>v. g = Some v \<and> c_out c = dec_int v @ [NL])
   | C_Killed \<Rightarrow> c_out c = [] \<and> (qd \<longrightarrow> c_made c \<and> \<not> wr \<and> g = None) \<and> (wr \<longrightarrow> g = None))"

definition grants_ok :: "(int \<times> string option) list \<Rightarrow> grants \<Rightarrow> bool" where
  "grants_ok xs gs \<longleftrightarrow> chain 0 gs \<and> distinct (map fst gs) \<and> (\<forall>(k, v, l)\<in>set gs. k < length xs \<and> l = ask xs k)"

definition server_ok :: "(int \<times> string option) list \<Rightarrow> grants \<Rightarrow> seqnum \<Rightarrow> bool" where
  "server_ok xs gs m \<longleftrightarrow> s_pc m \<noteq> S_Ended \<and> granted gs = s_seqNum m + adding (s_pc m) \<and>
     distinct (map fst (requests m)) \<and>
     (\<forall>(p, l)\<in>set (requests m). \<exists>k<length xs. p = fst (xs ! k) \<and> l = ask xs k) \<and>
     (\<forall>k len. s_pc m = S_Write k len \<longrightarrow> k < length xs \<and> len = ask xs k)"

definition seqnum_ok :: "(int \<times> string option) list \<Rightarrow> grants \<Rightarrow> seqnum \<Rightarrow> bool" where
  "seqnum_ok xs gs m \<longleftrightarrow> grants_ok xs gs \<and> server_ok xs gs m \<and>
     map (\<lambda>c. (c_pid c, c_arg c)) (s_clients m) = xs \<and>
     (\<forall>k<length xs. client_ok (s_clients m ! k) (queued (fst (xs ! k)) m) (writing k m) (grant gs k))"

text \<open>Clients with different pids and lengths that are numbers and fit together into an \<open>int\<close>.\<close>

definition orderly :: "(int \<times> string option) list \<Rightarrow> bool" where
  "orderly xs \<longleftrightarrow> distinct (map fst xs) \<and> list_all (\<lambda>x. pid_ok (fst x) \<and> atoi (snd x) \<noteq> None \<and> 0 \<le> the (atoi (snd x))) xs \<and>
     sum_list (map (\<lambda>x. the (atoi (snd x))) xs) \<le> INT_MAX"

lemma orderly_ask: "orderly xs \<Longrightarrow> k < length xs \<Longrightarrow> 0 \<le> ask xs k"
  by (simp add: orderly_def ask_def list_all_length)

lemma orderly_atoi: "orderly xs \<Longrightarrow> k < length xs \<Longrightarrow> atoi (snd (xs ! k)) = Some (ask xs k)"
  by (auto simp: orderly_def ask_def list_all_length)

lemma orderly_pid: "orderly xs \<Longrightarrow> k < length xs \<Longrightarrow> pid_ok (fst (xs ! k))"
  by (simp add: orderly_def list_all_length)

lemma orderly_pid_inj: "orderly xs \<Longrightarrow> k < length xs \<Longrightarrow> j < length xs \<Longrightarrow> fst (xs ! k) = fst (xs ! j) \<longleftrightarrow> k = j"
  by (auto simp: orderly_def distinct_conv_nth)

lemma granted_le:
  assumes "orderly xs" "grants_ok xs gs"
  shows "granted gs \<le> INT_MAX"
proof -
  have l: "snd (snd g) = ask xs (fst g)" "fst g < length xs" if "g \<in> set gs" for g
    using assms(2) that unfolding grants_ok_def by auto
  have "granted gs = sum_list (map (ask xs) (map fst gs))"
    unfolding granted_def map_map using l by (intro arg_cong [of _ _ sum_list] map_cong) auto
  also have "\<dots> = sum (ask xs) (set (map fst gs))"
    using assms(2) by (simp add: grants_ok_def sum_list_distinct_conv_sum_set del: map_map)
  also have "\<dots> \<le> sum (ask xs) {..<length xs}"
    using l assms(1) by (intro sum_mono2) (auto intro: orderly_ask)
  also have "\<dots> = sum_list (map (\<lambda>x. the (atoi (snd x))) xs)"
    by (simp add: sum_list_sum_nth ask_def atLeast0LessThan)
  finally show ?thesis
    using assms(1) by (simp add: orderly_def)
qed

lemma granted_nonneg:
  assumes "orderly xs" "grants_ok xs gs"
  shows "0 \<le> granted gs"
  using assms orderly_ask unfolding granted_def grants_ok_def by (intro sum_list_nonneg) fastforce

lemma seqnum_ok_client:
  assumes "seqnum_ok xs gs m" "k < length xs"
  shows "k < length (s_clients m)" "c_pid (s_clients m ! k) = fst (xs ! k)" "c_arg (s_clients m ! k) = snd (xs ! k)"
    "client_ok (s_clients m ! k) (queued (fst (xs ! k)) m) (writing k m) (grant gs k)"
  using assms unfolding seqnum_ok_def by auto

lemma seqnum_ok_length: "seqnum_ok xs gs m \<Longrightarrow> length (s_clients m) = length xs"
  unfolding seqnum_ok_def by auto

lemma upd_client_ids:
  assumes "c_pid (f (s_clients m ! k)) = c_pid (s_clients m ! k)" "c_arg (f (s_clients m ! k)) = c_arg (s_clients m ! k)"
  shows "map (\<lambda>c. (c_pid c, c_arg c)) (s_clients (upd_client k f m)) = map (\<lambda>c. (c_pid c, c_arg c)) (s_clients m)"
proof (cases "k < length (s_clients m)")
  case True
  then show ?thesis
    using assms by (simp add: upd_client_def map_update list_update_same_conv)
qed (simp add: upd_client_def list_update_beyond)

text \<open>A turn that changes one client only.\<close>

lemma seqnum_ok_upd:
  assumes "seqnum_ok xs gs m" "k < length xs" "c_pid (f (s_clients m ! k)) = c_pid (s_clients m ! k)"
    "c_arg (f (s_clients m ! k)) = c_arg (s_clients m ! k)"
    "client_ok (f (s_clients m ! k)) (queued (fst (xs ! k)) m) (writing k m) (grant gs k)"
  shows "seqnum_ok xs gs (upd_client k f m)"
proof -
  have "map (\<lambda>c. (c_pid c, c_arg c)) (s_clients (upd_client k f m)) = xs"
    using assms by (simp add: seqnum_ok_def upd_client_ids)
  moreover have "client_ok (s_clients (upd_client k f m) ! j) (queued (fst (xs ! j)) m) (writing j m) (grant gs j)"
    if "j < length xs" for j
    using assms that seqnum_ok_client(1,4) [OF assms(1) that] by (cases "j = k") (simp_all add: upd_client_def)
  ultimately show ?thesis
    using assms(1) by (simp add: seqnum_ok_def server_ok_def requests_def queued_def writing_def upd_client_def)
qed

section \<open>The turns keep it\<close>

lemma own_turn_ok:
  assumes "orderly xs" "seqnum_ok xs gs m" "k < length xs" "client_turn k (c_pc (s_clients m ! k)) m = Some r"
    "c_pc (s_clients m ! k) \<noteq> C_Send"
  shows "outcome (seqnum_ok xs gs) (\<lambda>_ _. False) r"
proof -
  note c = seqnum_ok_client [OF assms(2,3)]
  have e: "s_pc m \<noteq> S_Ended"
    using assms(2) by (simp add: seqnum_ok_def server_ok_def)
  have u: "upd_client k g (upd_client k f m) = upd_client k (g \<circ> f) m" for f g
    using c(1) by (simp add: upd_client_def)
  show ?thesis
    using assms(4,5) c e
    by (cases "c_pc (s_clients m ! k)")
      (auto simp: client_exit_def u client_ok_def intro!: seqnum_ok_upd [OF assms(2,3)] split: list.splits if_splits)
qed

lemma kill_ok:
  assumes "seqnum_ok xs gs m" "k < length xs" "c_pc (s_clients m ! k) \<noteq> C_Done"
  shows "seqnum_ok xs gs (upd_client k (\<lambda>c. c\<lparr>c_pc := C_Killed\<rparr>) m)"
  using seqnum_ok_client(4) [OF assms(1,2)] assms(3)
  by (intro seqnum_ok_upd [OF assms(1,2)]) (auto simp: client_ok_def split: cpc.splits if_splits)

lemma send_ok:
  assumes o: "orderly xs" and m: "seqnum_ok xs gs m" and k: "k < length xs" and pc: "c_pc (s_clients m ! k) = C_Send"
  shows "seqnum_ok xs gs (upd_client k (\<lambda>c. c\<lparr>c_pc := C_Wait\<rparr>) (m\<lparr>s_fifo := s_fifo m @ [(fst (xs ! k), ask xs k)]\<rparr>))" (is "seqnum_ok xs gs ?m")
proof -
  note c = seqnum_ok_client [OF m k]
  have r: "requests ?m = requests m @ [(fst (xs ! k), ask xs k)]"
    by (simp add: requests_def upd_client_def)
  have nq: "\<not> queued (fst (xs ! k)) m"
    using c(4) pc by (simp add: client_ok_def)
  have q: "queued (fst (xs ! j)) ?m \<longleftrightarrow> (if j = k then True else queued (fst (xs ! j)) m)" if "j < length xs" for j
    using orderly_pid_inj [OF o that k] by (auto simp: queued_def r)
  have w: "writing j ?m = writing j m" for j
    by (simp add: writing_def upd_client_def)
  have "server_ok xs gs ?m"
    using m k nq unfolding seqnum_ok_def server_ok_def r by (auto simp: upd_client_def queued_def)
  moreover have "map (\<lambda>c. (c_pid c, c_arg c)) (s_clients ?m) = xs"
    using m c(1) by (simp add: seqnum_ok_def upd_client_ids)
  moreover have "client_ok (s_clients ?m ! j) (queued (fst (xs ! j)) ?m) (writing j ?m) (grant gs j)" if "j < length xs" for j
    using q [OF that] w c pc seqnum_ok_client(1,4) [OF m that]
    by (cases "j = k") (simp_all add: upd_client_def client_ok_def)
  ultimately show ?thesis
    using m by (simp add: seqnum_ok_def)
qed

lemma client_turn_ok:
  assumes "orderly xs" "seqnum_ok xs gs m" "k < length xs" "client_turn k (c_pc (s_clients m ! k)) m = Some r"
  shows "outcome (seqnum_ok xs gs) (\<lambda>_ _. False) r"
proof (cases "c_pc (s_clients m ! k) = C_Send")
  case True
  have "s_pc m \<noteq> S_Ended"
    using assms(2) by (simp add: seqnum_ok_def server_ok_def)
  then show ?thesis
    using assms(4) True orderly_atoi [OF assms(1,3)] seqnum_ok_client [OF assms(2,3)] send_ok [OF assms(1-3) True]
    by (auto split: if_splits)
qed (rule own_turn_ok [OF assms])

text \<open>The FIFO of a request belongs to the client that sent it.\<close>

lemma owner_queued:
  assumes o: "orderly xs" and m: "seqnum_ok xs gs m" and k: "k < length xs" and q: "queued (fst (xs ! k)) m"
  shows "owner (client_fifo_name (fst (xs ! k))) (s_clients m) = Some k" (is "owner ?n ?cs = _")
    "c_pc (s_clients m ! k) = C_Wait \<or> c_pc (s_clients m ! k) = C_Killed" "grant gs k = None" "\<not> writing k m"
proof -
  note c = seqnum_ok_client [OF m k]
  have made: "c_made (?cs ! k)"
    using c(4) q by (auto simp: client_ok_def split: cpc.splits if_splits)
  show "c_pc (s_clients m ! k) = C_Wait \<or> c_pc (s_clients m ! k) = C_Killed" "grant gs k = None" "\<not> writing k m"
    using c(4) q by (auto simp: client_ok_def split: cpc.splits if_splits)
  have only: "j = k" if "j < length xs" "client_fifo_name (c_pid (?cs ! j)) = ?n" for j
    using that fifo_name_inj orderly_pid [OF o] k orderly_pid_inj [OF o] seqnum_ok_client(2) [OF m that(1)] by metis
  obtain j where j: "owner ?n ?cs = Some j"
    using made c(1,2) unfolding owner_def by (cases "find (\<lambda>k. c_made (?cs ! k) \<and> client_fifo_name (c_pid (?cs ! k)) = ?n) [0..<length ?cs]")
      (auto simp: find_None_iff)
  then have "j < length xs" "client_fifo_name (c_pid (?cs ! j)) = ?n"
    using seqnum_ok_length [OF m] unfolding owner_def by (auto simp: find_Some_iff)
  then show "owner ?n ?cs = Some k"
    using only j by simp
qed

lemma read_ok:
  assumes "seqnum_ok xs gs m" "s_pc m = S_Read" "s_fifo m = (pid, len) # rest"
  shows "seqnum_ok xs gs (m\<lparr>s_pc := S_Open pid len, s_fifo := rest\<rparr>)" (is "seqnum_ok xs gs ?m")
proof -
  have r: "requests ?m = requests m"
    using assms by (simp add: requests_def)
  have "queued p ?m = queued p m" "writing k ?m = writing k m" for p k
    using assms(2) by (simp_all add: queued_def r writing_def)
  then show ?thesis
    using assms(1,2) by (simp add: seqnum_ok_def server_ok_def r adding_def)
qed

lemma add_ok:
  assumes "seqnum_ok xs gs m" "s_pc m = S_Add len"
  shows "seqnum_ok xs gs (m\<lparr>s_pc := S_Read, s_seqNum := s_seqNum m + len\<rparr>)" (is "seqnum_ok xs gs ?m")
proof -
  have r: "requests ?m = requests m"
    using assms by (simp add: requests_def)
  have "queued p ?m = queued p m" "writing k ?m = writing k m" for p k
    using assms(2) by (simp_all add: queued_def r writing_def)
  then show ?thesis
    using assms by (simp add: seqnum_ok_def server_ok_def r adding_def)
qed

lemma open_ok:
  assumes o: "orderly xs" and m: "seqnum_ok xs gs m" and pc: "s_pc m = S_Open (fst (xs ! k)) (ask xs k)" and k: "k < length xs"
    and wait: "c_pc (s_clients m ! k) = C_Wait"
  shows "seqnum_ok xs gs (upd_client k (\<lambda>c. c\<lparr>c_pc := C_Read\<rparr>) (m\<lparr>s_pc := S_Write k (ask xs k)\<rparr>))" (is "seqnum_ok xs gs ?m")
proof -
  note c = seqnum_ok_client [OF m k]
  have r: "requests m = (fst (xs ! k), ask xs k) # requests ?m"
    by (simp add: requests_def pc upd_client_def)
  have d: "distinct (map fst (requests m))"
    using m by (simp add: seqnum_ok_def server_ok_def)
  have q: "queued (fst (xs ! j)) ?m \<longleftrightarrow> j \<noteq> k \<and> queued (fst (xs ! j)) m" if "j < length xs" for j
    using orderly_pid_inj [OF o that k] d by (auto simp: queued_def r)
  have w: "writing j ?m \<longleftrightarrow> j = k" "\<not> writing j m" for j
    by (auto simp: writing_def upd_client_def pc)
  have "server_ok xs gs ?m"
    using m k d unfolding seqnum_ok_def server_ok_def r by (simp add: pc adding_def upd_client_def)
  moreover have "map (\<lambda>c. (c_pid c, c_arg c)) (s_clients ?m) = xs"
    using m by (simp add: seqnum_ok_def upd_client_ids)
  moreover have "client_ok (s_clients ?m ! j) (queued (fst (xs ! j)) ?m) (writing j ?m) (grant gs j)" if "j < length xs" for j
    using q [OF that] w c wait seqnum_ok_client(1,4) [OF m that]
    by (cases "j = k") (simp_all add: upd_client_def client_ok_def)
  ultimately show ?thesis
    using m by (simp add: seqnum_ok_def)
qed

lemma grant_append: "grant gs k = None \<Longrightarrow> grant (gs @ [(k, v, l)]) j = (if j = k then Some v else grant gs j)"
  by (auto simp: grant_def map_add_def split: option.splits)

lemma write_ok:
  assumes m: "seqnum_ok xs gs m" and pc: "s_pc m = S_Write k len"
    and f: "f = (if c_pc (s_clients m ! k) = C_Read then upd_client k (\<lambda>c. c\<lparr>c_fifo := c_fifo c @ [s_seqNum m]\<rparr>) else id)"
  shows "seqnum_ok xs (gs @ [(k, s_seqNum m, len)]) (f (m\<lparr>s_pc := S_Add len\<rparr>))" (is "seqnum_ok xs ?gs ?m")
proof -
  have k: "k < length xs" "len = ask xs k" and g: "grants_ok xs gs" "granted gs = s_seqNum m" and s: "server_ok xs gs m"
    using m pc by (auto simp: seqnum_ok_def server_ok_def adding_def)
  note c = seqnum_ok_client [OF m k(1)]
  have wr: "writing j m \<longleftrightarrow> j = k" for j
    by (auto simp: writing_def pc)
  have no: "grant gs k = None"
    using c(4) wr by (auto simp: client_ok_def split: cpc.splits if_splits)
  then have new: "k \<notin> fst ` set gs"
    by (simp add: grant_def map_of_eq_None_iff)
  have r: "requests ?m = requests m" "\<not> writing j ?m" "s_pc ?m = S_Add len" "s_seqNum ?m = s_seqNum m" for j
    by (simp_all add: f requests_def writing_def pc upd_client_def)
  have q: "queued p ?m = queued p m" for p
    by (simp add: queued_def r)
  have "grants_ok xs ?gs"
    using g new k by (auto simp: grants_ok_def chain_append)
  moreover have "server_ok xs ?gs ?m"
    using s unfolding server_ok_def r by (simp add: adding_def pc)
  moreover have "map (\<lambda>c. (c_pid c, c_arg c)) (s_clients ?m) = xs"
    using m by (simp add: f seqnum_ok_def upd_client_ids)
  moreover have "client_ok (s_clients ?m ! j) (queued (fst (xs ! j)) ?m) (writing j ?m) (grant ?gs j)" if "j < length xs" for j
  proof (cases "j = k")
    case True
    have "client_ok (s_clients ?m ! k) (queued (fst (xs ! k)) m) False (Some (s_seqNum m))"
      using c wr no by (simp add: f upd_client_def client_ok_def split: cpc.splits)
    then show ?thesis
      using True grant_append [OF no] by (simp add: q r)
  next
    case False
    then have "s_clients ?m ! j = s_clients m ! j"
      by (simp add: f upd_client_def)
    then show ?thesis
      using False grant_append [OF no] seqnum_ok_client(4) [OF m that] wr by (simp add: q r)
  qed
  ultimately show ?thesis
    by (simp add: seqnum_ok_def)
qed

lemma server_turn_ok:
  assumes o: "orderly xs" and m: "seqnum_ok xs gs m" and t: "server_turn (s_pc m) m = Some r"
  shows "\<exists>gs. outcome (seqnum_ok xs gs) (\<lambda>_ _. False) r"
proof (cases "s_pc m")
  case S_Read
  then obtain x rest where "s_fifo m = x # rest"
    using t by (cases "s_fifo m") auto
  then show ?thesis
    using t S_Read read_ok [OF m S_Read] by (cases x) auto
next
  case (S_Open pid len)
  then obtain k where k: "k < length xs" "pid = fst (xs ! k)" "len = ask xs k" "queued pid m"
    using m by (auto simp: seqnum_ok_def server_ok_def requests_def queued_def)
  then show ?thesis
    using t S_Open owner_queued(1) [OF o m k(1)] open_ok [OF o m _ k(1)] by (auto split: if_splits)
next
  case (S_Write k len)
  have "outcome (seqnum_ok xs (gs @ [(k, s_seqNum m, len)])) (\<lambda>_ _. False) r"
    using t S_Write write_ok [OF m S_Write refl] by auto
  then show ?thesis ..
next
  case (S_Add len)
  have g: "granted gs = s_seqNum m + len" "grants_ok xs gs"
    using m S_Add by (simp_all add: seqnum_ok_def server_ok_def adding_def)
  then have "INT_MIN \<le> s_seqNum m + len" "s_seqNum m + len \<le> INT_MAX"
    using granted_le [OF o, of gs] granted_nonneg [OF o, of gs] by (simp_all add: INT_MIN_def)
  then show ?thesis
    using t S_Add add_ok [OF m S_Add] by (auto split: if_splits)
next
  case S_Ended
  then show ?thesis
    using t by simp
qed

section \<open>All runs\<close>

definition seqnum_inv :: "(int \<times> string option) list \<Rightarrow> seqnum \<Rightarrow> bool" where
  "seqnum_inv xs m \<longleftrightarrow> orderly xs \<and> (\<exists>gs. seqnum_ok xs gs m)"

fun cost :: "cpc \<Rightarrow> nat" where
  "cost C_Make = 10"
| "cost C_Open = 9"
| "cost C_Send = 8"
| "cost C_Wait = 3"
| "cost C_Read = 2"
| "cost (C_Print v) = 1"
| "cost C_Done = 0"
| "cost C_Killed = 0"

fun server_cost :: "spc \<Rightarrow> nat" where
  "server_cost S_Read = 0"
| "server_cost (S_Open p l) = 3"
| "server_cost (S_Write k l) = 2"
| "server_cost (S_Add l) = 1"
| "server_cost S_Ended = 0"

definition seqnum_bound :: "seqnum \<Rightarrow> nat" where
  "seqnum_bound m = sum_list (map (\<lambda>c. cost (c_pc c)) (s_clients m)) + 4 * length (s_fifo m) + server_cost (s_pc m)"

definition seqnum_idle :: "seqnum \<Rightarrow> bool" where
  "seqnum_idle m \<longleftrightarrow> (\<exists>c\<in>set (s_clients m). c_pc c = C_Killed) \<or> (\<forall>c\<in>set (s_clients m). c_pc c = C_Done)"

fun is_kill :: "sagent \<Rightarrow> bool" where
  "is_kill (Kill k) = True"
| "is_kill _ = False"

lemma bound_upd:
  assumes "k < length (s_clients m)"
  shows "seqnum_bound (upd_client k f m) + cost (c_pc (s_clients m ! k)) = seqnum_bound m + cost (c_pc (f (s_clients m ! k)))"
  using sum_list_map_update [of k "s_clients m" "\<lambda>c. cost (c_pc c)" "f (s_clients m ! k)"] assms
  by (simp add: seqnum_bound_def upd_client_def)

lemma client_lowers:
  assumes "k < length (s_clients m)" "client_turn k (c_pc (s_clients m ! k)) m = Some (Ret () m')"
  shows "seqnum_bound m' < seqnum_bound m"
proof -
  have u: "upd_client k g (upd_client k f m) = upd_client k (g \<circ> f) m" for f g
    using assms(1) by (simp add: upd_client_def)
  have s: "seqnum_bound (m\<lparr>s_fifo := s_fifo m @ [x]\<rparr>) = seqnum_bound m + 4" for x
    by (simp add: seqnum_bound_def)
  note b = bound_upd [of k m] bound_upd [of k "m\<lparr>s_fifo := s_fifo m @ [(c_pid (s_clients m ! k), l)]\<rparr>" for l, simplified s]
  show ?thesis
  proof (cases "c_pc (s_clients m ! k)")
    case C_Send
    then obtain len where "atoi (c_arg (s_clients m ! k)) = Some len"
      using assms(2) by (auto split: option.splits)
    then show ?thesis
      using C_Send assms b(1) [of "\<lambda>c. c\<lparr>c_pc := C_Killed\<rparr>"] b(2) [of len "\<lambda>c. c\<lparr>c_pc := C_Wait\<rparr>"]
      by (auto split: if_splits)
  next
    case C_Make
    then show ?thesis
      using assms b(1) [of "\<lambda>c. c\<lparr>c_made := True, c_pc := C_Open\<rparr>"] by simp
  next
    case C_Open
    then show ?thesis
      using assms b(1) [of "\<lambda>c. c\<lparr>c_pc := C_Done, c_made := False\<rparr>"] b(1) [of "\<lambda>c. c\<lparr>c_pc := C_Send\<rparr>"]
      by (auto simp: client_exit_def split: if_splits)
  next
    case C_Read
    then obtain v vs where "c_fifo (s_clients m ! k) = v # vs"
      using assms(2) by (cases "c_fifo (s_clients m ! k)") auto
    then show ?thesis
      using C_Read assms b(1) [of "\<lambda>c. c\<lparr>c_pc := C_Print v, c_fifo := vs\<rparr>"] by simp
  next
    case (C_Print v)
    then have "m' = upd_client k ((\<lambda>c. c\<lparr>c_pc := C_Done, c_made := False\<rparr>) \<circ> (\<lambda>c. c\<lparr>c_out := c_out c @ dec_int v @ [NL]\<rparr>)) m"
      using assms(2) by (simp add: client_exit_def u)
    then show ?thesis
      using C_Print assms(1) b(1) [of "(\<lambda>c. c\<lparr>c_pc := C_Done, c_made := False\<rparr>) \<circ> (\<lambda>c. c\<lparr>c_out := c_out c @ dec_int v @ [NL]\<rparr>)"] by simp
  qed (use assms in simp_all)
qed

lemma server_lowers:
  assumes "seqnum_inv xs m" "server_turn (s_pc m) m = Some (Ret () m')"
  shows "seqnum_bound m' < seqnum_bound m"
proof (cases "s_pc m")
  case (S_Open pid len)
  obtain gs where o: "orderly xs" and m: "seqnum_ok xs gs m"
    using assms(1) by (auto simp: seqnum_inv_def)
  then obtain k where k: "k < length xs" "pid = fst (xs ! k)" "len = ask xs k" "queued pid m"
    using S_Open by (auto simp: seqnum_ok_def server_ok_def requests_def queued_def)
  show ?thesis
    using assms(2) S_Open owner_queued(1) [OF o m k(1)] k seqnum_ok_client(1) [OF m k(1)]
      bound_upd [of k "m\<lparr>s_pc := S_Write k len\<rparr>" "\<lambda>c. c\<lparr>c_pc := C_Read\<rparr>"]
    by (simp add: seqnum_bound_def split: if_splits)
next
  case (S_Write k len)
  have b: "seqnum_bound (upd_client k (\<lambda>c. c\<lparr>c_fifo := c_fifo c @ [v]\<rparr>) (m\<lparr>s_pc := S_Add len\<rparr>)) = seqnum_bound (m\<lparr>s_pc := S_Add len\<rparr>)" for v
  proof (cases "k < length (s_clients m)")
    case True
    then show ?thesis
      using bound_upd [of k "m\<lparr>s_pc := S_Add len\<rparr>" "\<lambda>c. c\<lparr>c_fifo := c_fifo c @ [v]\<rparr>"] by simp
  qed (simp add: upd_client_def seqnum_bound_def list_update_beyond)
  show ?thesis
    using assms(2) S_Write b by (auto simp: seqnum_bound_def [of m] split: if_splits) (simp_all add: seqnum_bound_def)
qed (use assms in \<open>auto simp: seqnum_bound_def split: list.splits if_splits\<close>)

lemma kill_lowers:
  "k < length (s_clients m) \<Longrightarrow> seqnum_bound (upd_client k (\<lambda>c. c\<lparr>c_pc := C_Killed\<rparr>) m) \<le> seqnum_bound m"
  using bound_upd [of k m "\<lambda>c. c\<lparr>c_pc := C_Killed\<rparr>"] by simp

lemma someone_moves:
  assumes "seqnum_inv xs m" "\<not> seqnum_idle m"
  shows "\<exists>a r. \<not> is_kill a \<and> seqnum_turn a m = Some r"
proof -
  obtain gs where o: "orderly xs" and m: "seqnum_ok xs gs m"
    using assms(1) by (auto simp: seqnum_inv_def)
  obtain k where k: "k < length xs" "c_pc (s_clients m ! k) \<noteq> C_Done"
    using assms(2) seqnum_ok_length [OF m] by (auto simp: seqnum_idle_def in_set_conv_nth)
  have alive: "c_pc (s_clients m ! j) \<noteq> C_Killed" if "j < length xs" for j
    using assms(2) that seqnum_ok_length [OF m] by (auto simp: seqnum_idle_def)
  show ?thesis
  proof (cases "server_turn (s_pc m) m")
    case (Some r)
    then show ?thesis
      by (intro exI [of _ Server] exI [of _ r]) simp
  next
    case None
    have s: "s_pc m = S_Read"
    proof (cases "s_pc m")
      case (S_Open pid len)
      then obtain j where j: "j < length xs" "pid = fst (xs ! j)" "queued pid m"
        using m by (auto simp: seqnum_ok_def server_ok_def requests_def queued_def)
      then show ?thesis
        using None S_Open owner_queued(1,2) [OF o m j(1)] alive [OF j(1)] by auto
    qed (use None m in \<open>auto simp: seqnum_ok_def server_ok_def split: if_splits\<close>)
    then have e: "s_fifo m = []"
      using None by (cases "s_fifo m") auto
    have q: "\<not> queued (fst (xs ! k)) m" "\<not> writing k m"
      using s e by (simp_all add: queued_def requests_def writing_def)
    have "\<exists>r. client_turn k (c_pc (s_clients m ! k)) m = Some r"
      using seqnum_ok_client [OF m k(1)] k(2) alive [OF k(1)] q s e orderly_atoi [OF o k(1)]
      by (cases "c_pc (s_clients m ! k)") (auto simp: client_ok_def PIPE_REQUESTS_def)
    then show ?thesis
      using seqnum_ok_client(1) [OF m k(1)] by (intro exI [of _ "Client k"]) simp
  qed
qed

interpretation sq: program seqnum_turn "seqnum_inv xs" "\<lambda>_ _ _. False" seqnum_idle seqnum_bound "\<lambda>a. \<not> is_kill a" 0 for xs
proof
  fix m a r
  assume m: "seqnum_inv xs m" and t: "seqnum_turn a m = Some r"
  obtain gs where o: "orderly xs" and ok: "seqnum_ok xs gs m"
    using m by (auto simp: seqnum_inv_def)
  have "\<exists>gs. outcome (seqnum_ok xs gs) (\<lambda>_ _. False) r"
  proof (cases a)
    case Server
    then show ?thesis
      using t server_turn_ok [OF o ok] by simp
  next
    case (Client k)
    then show ?thesis
      using t client_turn_ok [OF o ok, of k] seqnum_ok_length [OF ok] by (auto split: if_splits)
  next
    case (Kill k)
    then show ?thesis
      using t kill_ok [OF ok, of k] seqnum_ok_length [OF ok] by (auto split: if_splits)
  qed
  then show "outcome (seqnum_inv xs) (\<lambda>_ _. False) r"
    using o by (cases r) (auto simp: seqnum_inv_def)
next
  fix m a m'
  assume m: "seqnum_inv xs m" and t: "seqnum_turn a m = Some (Ret () m')"
  show "if \<not> is_kill a then seqnum_bound m' < seqnum_bound m else seqnum_bound m' \<le> seqnum_bound m + 0"
    using t server_lowers [OF m] client_lowers kill_lowers by (cases a) (auto split: if_splits)
next
  fix m
  assume "seqnum_inv xs m" "\<not> seqnum_idle m"
  then show "\<exists>a r. \<not> is_kill a \<and> seqnum_turn a m = Some r"
    by (rule someone_moves)
qed

lemma start_ok: "orderly xs \<Longrightarrow> seqnum_inv xs (seqnum_start xs)"
  unfolding seqnum_inv_def seqnum_ok_def
  by (auto simp: seqnum_start_def new_client_def grants_ok_def server_ok_def requests_def adding_def client_ok_def queued_def writing_def
    grant_def comp_def intro!: exI [of _ "[]"])

text \<open>Nobody is killed but by a signal.\<close>

definition unkilled :: "seqnum \<Rightarrow> bool" where
  "unkilled m = list_all (\<lambda>c. c_pc c \<noteq> C_Killed) (s_clients m)"

lemma unkilled_upd: "unkilled m \<Longrightarrow> (\<And>c. c_pc c \<noteq> C_Killed \<Longrightarrow> c_pc (f c) \<noteq> C_Killed) \<Longrightarrow> unkilled (upd_client k f m)"
  by (cases "k < length (s_clients m)") (auto simp: unkilled_def list_all_length upd_client_def nth_list_update list_update_beyond)

lemma unkilled_more [simp]:
  "unkilled (m\<lparr>s_pc := pc\<rparr>) = unkilled m" "unkilled (m\<lparr>s_fifo := q\<rparr>) = unkilled m" "unkilled (m\<lparr>s_seqNum := i\<rparr>) = unkilled m"
  by (simp_all add: unkilled_def)

lemma unkilled_turn:
  assumes "seqnum_turn a m = Some (Ret () m')" "\<not> is_kill a" "unkilled m" "s_pc m \<noteq> S_Ended"
  shows "unkilled m'"
proof (cases a)
  case Server
  then have "server_turn (s_pc m) m = Some (Ret () m')"
    using assms(1) by simp
  then show ?thesis
    using assms(3) by (cases "s_pc m") (auto intro!: unkilled_upd split: list.splits option.splits if_splits)
next
  case (Client k)
  then have "client_turn k (c_pc (s_clients m ! k)) m = Some (Ret () m')"
    using assms(1) by (simp split: if_splits)
  then show ?thesis
    using assms(3,4) by (cases "c_pc (s_clients m ! k)")
      (auto simp: client_exit_def intro!: unkilled_upd split: list.splits option.splits if_splits)
qed (use assms in simp)

lemma nobody_killed:
  "run seqnum_turn as (Ret () m) (Ret () m') \<Longrightarrow> seqnum_inv xs m \<Longrightarrow> list_all (\<lambda>a. \<not> is_kill a) as \<Longrightarrow> unkilled m \<Longrightarrow> unkilled m'"
proof (erule sq.along [where P = unkilled])
  fix a m m'
  assume "seqnum_inv xs m" "unkilled m" "seqnum_turn a m = Some (Ret () m')" "a \<in> set as" "list_all (\<lambda>a. \<not> is_kill a) as"
  then show "unkilled m'"
    using unkilled_turn [of a m m'] by (auto simp: list_all_iff seqnum_inv_def seqnum_ok_def server_ok_def)
qed

section \<open>What the program guarantees\<close>

lemma ok_printed:
  assumes o: "orderly xs" and m: "seqnum_ok xs gs m" and k: "k < length xs" and pc: "c_pc (s_clients m ! k) = C_Done"
  shows "\<exists>v. grant gs k = Some v \<and> c_out (s_clients m ! k) = dec_int v @ [NL] \<and> 0 \<le> v \<and> v + ask xs k \<le> INT_MAX"
proof -
  obtain v where v: "grant gs k = Some v" "c_out (s_clients m ! k) = dec_int v @ [NL]"
    using seqnum_ok_client(4) [OF m k] pc by (auto simp: client_ok_def)
  have g: "grants_ok xs gs" "chain 0 gs"
    using m by (simp_all add: seqnum_ok_def grants_ok_def)
  then have "(k, v, ask xs k) \<in> set gs" "\<forall>(k, s, l)\<in>set gs. 0 \<le> l"
    using v(1) orderly_ask [OF o] by (auto simp: grant_def grants_ok_def dest!: map_of_SomeD)
  then show ?thesis
    using chain_bounds [OF g(2)] granted_le [OF o g(1)] v by fastforce
qed

lemma ok_disjoint:
  assumes o: "orderly xs" and m: "seqnum_ok xs gs m" and "i \<noteq> j" "grant gs i = Some a" "grant gs j = Some b"
  shows "a + ask xs i \<le> b \<or> b + ask xs j \<le> a"
proof -
  have g: "grants_ok xs gs" "chain 0 gs"
    using m by (simp_all add: seqnum_ok_def grants_ok_def)
  then have "(i, a, ask xs i) \<in> set gs" "(j, b, ask xs j) \<in> set gs" "\<forall>(k, s, l)\<in>set gs. 0 \<le> l"
    using assms(4,5) orderly_ask [OF o] by (auto simp: grant_def grants_ok_def dest!: map_of_SomeD)
  then show ?thesis
    using chain_disjoint [OF g(2)] assms(3) by blast
qed

lemma ok_ranges:
  assumes "orderly xs" "seqnum_ok xs gs m"
  shows "\<exists>start.
      (\<forall>k<length xs. c_pc (s_clients m ! k) = C_Done \<longrightarrow>
         c_out (s_clients m ! k) = dec_int (start k) @ [NL] \<and> 0 \<le> start k \<and> start k + ask xs k \<le> INT_MAX)
    \<and> (\<forall>i<length xs. \<forall>j<length xs. i \<noteq> j \<and> c_pc (s_clients m ! i) = C_Done \<and> c_pc (s_clients m ! j) = C_Done \<longrightarrow>
         start i + ask xs i \<le> start j \<or> start j + ask xs j \<le> start i)"
proof -
  note p = ok_printed [OF assms]
  define start where "start k = the (grant gs k)" for k
  have "start i + ask xs i \<le> start j \<or> start j + ask xs j \<le> start i"
    if "i < length xs" "j < length xs" "i \<noteq> j" "c_pc (s_clients m ! i) = C_Done" "c_pc (s_clients m ! j) = C_Done" for i j
    using p [OF that(1,4)] p [OF that(2,5)] ok_disjoint [OF assms that(3)] by (auto simp: start_def)
  moreover have "c_out (s_clients m ! k) = dec_int (start k) @ [NL] \<and> 0 \<le> start k \<and> start k + ask xs k \<le> INT_MAX"
    if "k < length xs" "c_pc (s_clients m ! k) = C_Done" for k
    using p [OF that] by (auto simp: start_def)
  ultimately show ?thesis by blast
qed


definition two_clients :: "(int \<times> string option) list" where
  "two_clients = [(100, Some ''3''), (200, Some ''4'')]"


lemma two_clients_orderly: "orderly two_clients"
  by code_simp



text \<open>
  C19: for clients as above (\<open>orderly\<close>) of which none is killed: a run has at most ten turns for
  each client, and every run can be completed, without killing any, to one in which every client has ended and has printed the first number of a range of the length
  it asked for, and no two of these ranges overlap.
\<close>

theorem seqnum_serves:
  assumes "orderly xs" "run seqnum_turn as (Ret () (seqnum_start xs)) r" "list_all (\<lambda>a. \<not> is_kill a) as"
  shows "length as \<le> 10 * length xs
    \<and> (\<exists>bs m start. list_all (\<lambda>a. \<not> is_kill a) bs \<and> run seqnum_turn (as @ bs) (Ret () (seqnum_start xs)) (Ret () m)
         \<and> length (s_clients m) = length xs
         \<and> (\<forall>k<length xs. c_pc (s_clients m ! k) = C_Done
              \<and> c_out (s_clients m ! k) = dec_int (start k) @ [NL] \<and> 0 \<le> start k \<and> start k + ask xs k \<le> INT_MAX)
         \<and> (\<forall>i<length xs. \<forall>j<length xs. i \<noteq> j \<longrightarrow> start i + ask xs i \<le> start j \<or> start j + ask xs j \<le> start i))"
proof -
  note s = start_ok [OF assms(1)]
  obtain m1 where m1: "r = Ret () m1"
    using sq.always [OF assms(2), of xs] s by (cases r) auto
  have "seqnum_bound (seqnum_start xs) = 10 * length xs"
    by (simp add: seqnum_bound_def seqnum_start_def new_client_def comp_def sum_list_triv)
  then have "length as \<le> 10 * length xs"
    using sq.brief [OF assms(2) [unfolded m1] s assms(3)] by simp
  moreover obtain bs r' where b: "list_all (\<lambda>a. \<not> is_kill a) bs" "run seqnum_turn (as @ bs) (Ret () (seqnum_start xs)) r'"
    "outcome (\<lambda>m'. seqnum_inv xs m' \<and> seqnum_idle m') (\<lambda>_ _. False) r'"
    using sq.completes [OF s assms(2) [unfolded m1]] by blast
  then obtain m where m: "r' = Ret () m" "seqnum_inv xs m" "seqnum_idle m"
    by (cases r') auto
  have "unkilled (seqnum_start xs)"
    by (simp add: unkilled_def seqnum_start_def new_client_def list_all_length)
  then have "unkilled m"
    using nobody_killed [OF b(2) [unfolded m(1)] s] assms(3) b(1) by simp
  then have d: "\<forall>c\<in>set (s_clients m). c_pc c = C_Done"
    using m(3) by (auto simp: seqnum_idle_def unkilled_def list_all_iff)
  obtain gs where gs: "seqnum_ok xs gs m"
    using m(2) by (auto simp: seqnum_inv_def)
  then have l: "length (s_clients m) = length xs" "\<forall>k<length xs. c_pc (s_clients m ! k) = C_Done"
    using d seqnum_ok_length [OF gs] by simp_all
  ultimately show ?thesis
    using b(1) b(2) [unfolded m(1)] ok_ranges [OF assms(1) gs] by meson
qed

lemma seqnum_serves_witness:
  "\<exists>bs m start. run seqnum_turn ([Client 0, Client 1, Client 1, Client 1, Server] @ bs) (Ret () (seqnum_start two_clients)) (Ret () m)
     \<and> map c_out (s_clients m) = [dec_int (start 0) @ [NL], dec_int (start 1) @ [NL]] \<and> (start 0 + 3 \<le> start 1 \<or> start 1 + 4 \<le> start (0 :: nat))"
proof -
  have "case follow seqnum_turn [Client 0, Client 1, Client 1, Client 1, Server] (Ret () (seqnum_start two_clients)) of Some r \<Rightarrow> True | None \<Rightarrow> False"
    by code_simp
  then obtain r where "run seqnum_turn [Client 0, Client 1, Client 1, Client 1, Server] (Ret () (seqnum_start two_clients)) r"
    by (auto simp: run_follow split: option.splits)
  from seqnum_serves [OF two_clients_orderly this] obtain bs m start where
    m: "run seqnum_turn ([Client 0, Client 1, Client 1, Client 1, Server] @ bs) (Ret () (seqnum_start two_clients)) (Ret () m)"
      "length (s_clients m) = length two_clients"
      "\<forall>k<length two_clients. c_pc (s_clients m ! k) = C_Done
          \<and> c_out (s_clients m ! k) = dec_int (start k) @ [NL] \<and> 0 \<le> start k \<and> start k + ask two_clients k \<le> INT_MAX"
      "\<forall>i<length two_clients. \<forall>j<length two_clients. i \<noteq> j \<longrightarrow> start i + ask two_clients i \<le> start j \<or> start j + ask two_clients j \<le> start i"
    using that by auto
  have l: "length two_clients = 2"
    by (simp add: two_clients_def)
  have "ask two_clients 0 = 3" "ask two_clients 1 = 4"
    by code_simp+
  then have "start 0 + 3 \<le> start 1 \<or> start 1 + 4 \<le> start 0"
    using m(4) [rule_format, of 0 1] l by simp
  moreover have "c_out (s_clients m ! 0) = dec_int (start 0) @ [NL]" "c_out (s_clients m ! 1) = dec_int (start 1) @ [NL]"
    using m(3) l by simp_all
  moreover obtain c d where "s_clients m = [c, d]"
    using m(2) l by (auto simp: numeral_2_eq_2 length_Suc_conv)
  ultimately show ?thesis
    using m(1) by (intro exI [of _ bs] exI [of _ m] exI [of _ start]) simp
qed

lemma stuck_server:
  assumes "seqnum_inv xs m" "k < length xs" "s_pc m = S_Open (fst (xs ! k)) len" "c_pc (s_clients m ! k) = C_Killed"
  shows "seqnum_turn Server m = None"
proof -
  obtain gs where "orderly xs" "seqnum_ok xs gs m"
    using assms(1) by (auto simp: seqnum_inv_def)
  then show ?thesis
    using owner_queued(1) [of xs gs m k] assms(2-4) by (simp add: queued_def requests_def)
qed

lemma stuck_turn:
  assumes "seqnum_turn a m = Some (Ret () m')" "a \<noteq> Server" "c_pc (s_clients m ! k) = C_Killed"
  shows "s_pc m' = s_pc m \<and> c_pc (s_clients m' ! k) = C_Killed"
proof -
  have u: "s_pc (upd_client j f m) = s_pc m" "c_pc (s_clients (upd_client j f m) ! k) = C_Killed"
    if "c_pc (s_clients m ! k) = C_Killed" "j \<noteq> k" for j f and m :: seqnum
    using that by (simp_all add: upd_client_def)
  show ?thesis
  proof (cases a)
    case (Client j)
    then have "j \<noteq> k" "client_turn j (c_pc (s_clients m ! j)) m = Some (Ret () m')"
      using assms by (auto split: if_splits)
    then show ?thesis
      using assms(3) u by (cases "c_pc (s_clients m ! j)") (auto simp: client_exit_def split: list.splits option.splits if_splits)
  next
    case (Kill j)
    then show ?thesis
      using assms u [of m j] by (auto split: if_splits)
  qed (use assms in simp)
qed

text \<open>
  C40: a client that is killed between its request and the open of its FIFO blocks the server for good: it waits in \<open>open\<close>, and no
  turn of any other client changes that.
\<close>

theorem seqnum_stuck:
  assumes "orderly xs" "run seqnum_turn as (Ret () (seqnum_start xs)) (Ret () m)" "k < length xs" "s_pc m = S_Open (fst (xs ! k)) len"
    "c_pc (s_clients m ! k) = C_Killed" "run seqnum_turn bs (Ret () m) r"
  shows "\<exists>m'. r = Ret () m' \<and> s_pc m' = S_Open (fst (xs ! k)) len \<and> seqnum_turn Server m' = None"
proof -
  let ?P = "\<lambda>w. s_pc w = S_Open (fst (xs ! k)) len \<and> c_pc (s_clients w ! k) = C_Killed"
  have m: "seqnum_inv xs m"
    using sq.always [OF assms(2), of xs] start_ok [OF assms(1)] by simp
  obtain m' where m': "r = Ret () m'" "seqnum_inv xs m'"
    using sq.always [OF assms(6), of xs] m by (cases r) auto
  have "?P m'"
  proof (rule sq.along [OF assms(6) [unfolded m'(1)] m])
    show "?P w'" if "seqnum_inv xs w" "?P w" "seqnum_turn b w = Some (Ret () w')" for b w w'
    proof -
      have "seqnum_turn Server w = None"
        using stuck_server [OF that(1) assms(3)] that(2) by simp
      then have "b \<noteq> Server"
        using that(3) by auto
      then show ?thesis
        using stuck_turn [OF that(3), of k] that(2) by simp
    qed
  qed (use assms(4,5) in simp)
  then show ?thesis
    using m' stuck_server [OF m'(2) assms(3)] by simp
qed

definition killed_turns :: "sagent list" where
  "killed_turns = [Client 0, Client 0, Client 0, Server, Kill 0]"

lemma seqnum_stuck_witness:
  "\<exists>r m'. run seqnum_turn (killed_turns @ [Client 1, Client 1, Client 1]) (Ret () (seqnum_start two_clients)) r
     \<and> r = Ret () m' \<and> s_pc m' = S_Open 100 3 \<and> seqnum_turn Server m' = None"
proof -
  have "case follow seqnum_turn killed_turns (Ret () (seqnum_start two_clients)) of
      Some (Ret u m) \<Rightarrow> s_pc m = S_Open 100 3 \<and> c_pc (s_clients m ! 0) = C_Killed
        \<and> follow seqnum_turn [Client 1, Client 1, Client 1] (Ret () m) \<noteq> None | _ \<Rightarrow> False"
    by code_simp
  then obtain m r where m: "run seqnum_turn killed_turns (Ret () (seqnum_start two_clients)) (Ret () m)" "s_pc m = S_Open 100 3"
    "c_pc (s_clients m ! 0) = C_Killed" "run seqnum_turn [Client 1, Client 1, Client 1] (Ret () m) r"
    by (auto simp: run_follow split: option.splits result.splits)
  have "\<exists>m'. r = Ret () m' \<and> s_pc m' = S_Open (fst (two_clients ! 0)) 3 \<and> seqnum_turn Server m' = None"
    using seqnum_stuck [OF two_clients_orderly m(1), of 0 3 "[Client 1, Client 1, Client 1]" r] m(2-4)
    by (simp add: two_clients_def)
  then show ?thesis
    using run_append [OF m(1,4)] by (auto simp: two_clients_def)
qed

end
