(* ===== verification/File_Server.thy ===== *)
theory File_Server
  imports Get_Num Interleaving
begin

text \<open>
  net/file_server_epoll.c and file_client_epoll.c: the user of a client types the name of a file, the server sends
  the file, the client prints it. A turn is the handling of an event, one call of \<open>recv\<close> in the loop of the
  client, or a step of the network. A user may type a name at any time, also before the last one is answered.
\<close>

section \<open>Server and clients\<close>

definition BUFSIZE :: nat where "BUFSIZE = 512"

text \<open>
  A client is not connected, waits to be accepted, is accepted, has left, has left and the server has closed the connection. Its
  \<open>fc_up\<close> is what the server has still to receive, \<open>fc_flight\<close> what the server has sent and has not arrived,
  \<open>fc_in\<close> what it can receive. With edge-triggered events \<open>epoll_wait\<close> reports a descriptor when something new has
  come, \<open>fc_key\<close> and \<open>fc_edge\<close>.
\<close>

datatype link = L_New | L_Pending | L_Linked | L_Gone | L_Closed

datatype shown = Chunk string | Later

record fclient =
  fc_link :: link
  fc_todo :: "string list"
  fc_typed :: string
  fc_key :: bool
  fc_stdin :: bool
  fc_up :: string
  fc_flight :: string
  fc_in :: string
  fc_eof :: bool
  fc_edge :: bool
  fc_open :: bool
  fc_drain :: bool
  fc_out :: "shown list"

record fserver =
  fs_alive :: bool
  fs_pending :: "nat list"
  fs_edge :: bool
  fs_out :: string
  fs_clients :: "fclient list"

text \<open>
  The agents: client i connects; the server has an event on its listening socket; the user types a name; client i has an event on
  its standard input; the server has an event on the connection (with the connection reset by a client that has left, or not);
  bytes arrive at the client; it has an event on the connection; it is in the loop over \<open>recv\<close>; it leaves.
\<close>

datatype fagent = Connect nat | Accept | Type nat | Input nat | Serve nat bool | Deliver nat nat | Poll nat | Recv nat | Quit nat

definition upd_fc :: "nat \<Rightarrow> (fclient \<Rightarrow> fclient) \<Rightarrow> fserver \<Rightarrow> fserver" where
  "upd_fc i f m = m\<lparr>fs_clients := (fs_clients m)[i := f (fs_clients m ! i)]\<rparr>"

definition here :: "fclient \<Rightarrow> bool" where
  "here c \<longleftrightarrow> fc_link c = L_Pending \<or> fc_link c = L_Linked"

text \<open>Nothing is on its way.\<close>

definition still :: "fclient \<Rightarrow> bool" where
  "still c \<longleftrightarrow> \<not> fc_key c \<and> fc_up c = [] \<and> fc_flight c = [] \<and> fc_in c = [] \<and> \<not> fc_edge c \<and> \<not> fc_drain c"

section \<open>The client\<close>

text \<open>\<open>%s\<close> of \<open>scanf\<close>: the word and what stays in the stream.\<close>

definition scan_word :: "string \<Rightarrow> string \<times> string" where
  "scan_word s = (let t = dropWhile is_blank s in (takeWhile (\<lambda>c. \<not> is_blank c) t, dropWhile (\<lambda>c. \<not> is_blank c) t))"

definition c_str :: "string \<Rightarrow> string" where
  "c_str s = takeWhile (\<lambda>c. c \<noteq> NUL) s"

text \<open>
  The event on standard input. A word that does not fit into \<open>buf\<close> is written behind it (None). \<open>send\<close> of no byte returns 0,
  which counts as a failure.
\<close>

definition client_input :: "fclient \<Rightarrow> fclient option" where
  "client_input c =
     (let (w, rest) = scan_word (fc_typed c) in
      if BUFSIZE \<le> length w then None
      else if c_str w = [] \<or> \<not> fc_open c then Some (c\<lparr>fc_typed := rest, fc_key := False, fc_stdin := False\<rparr>)
      else Some (c\<lparr>fc_typed := rest, fc_key := False, fc_up := fc_up c @ c_str w\<rparr>))"

text \<open>One \<open>recv\<close> of the loop. At the end of the connection the client closes it and goes on; the next call fails.\<close>

definition client_recv :: "fclient \<Rightarrow> fclient" where
  "client_recv c =
     (if \<not> fc_open c then c\<lparr>fc_drain := False\<rparr>
      else if fc_in c \<noteq> [] then c\<lparr>fc_in := drop (BUFSIZE - 1) (fc_in c), fc_out := fc_out c @ [Chunk (c_str (take (BUFSIZE - 1) (fc_in c)))]\<rparr>
      else if fc_eof c then c\<lparr>fc_open := False\<rparr>
      else c\<lparr>fc_out := fc_out c @ [Later], fc_drain := False\<rparr>)"

definition client_poll :: "fclient \<Rightarrow> fclient option" where
  "client_poll c = (if fc_edge c \<and> \<not> fc_drain c \<and> fc_open c then Some (c\<lparr>fc_edge := False, fc_drain := True\<rparr>) else None)"

section \<open>The server\<close>

text \<open>The listening socket is edge-triggered, and one connection is accepted for each event.\<close>

definition accept_one :: "fserver \<Rightarrow> fserver" where
  "accept_one m =
     (let m = m\<lparr>fs_edge := False, fs_out := fs_out m @ ''Now accept'' @ [NL]\<rparr> in
      case fs_pending m of [] \<Rightarrow> m
      | j # js \<Rightarrow> upd_fc j (\<lambda>c. c\<lparr>fc_link := L_Linked\<rparr>) (m\<lparr>fs_pending := js\<rparr>))"

text \<open>
  The event on a connection, level-triggered. If the file cannot be opened, \<open>send\<close> reads 100 bytes of a literal of 14: undefined.
  \<open>sendfile\<close> sends what there is room for, and SIGPIPE ends the server when the connection has been reset.
\<close>

definition serve_one :: "(string \<Rightarrow> string option) \<Rightarrow> nat \<Rightarrow> bool \<Rightarrow> nat \<Rightarrow> fserver \<Rightarrow> (fserver, unit) result" where
  "serve_one files room reset i m =
     (let c = fs_clients m ! i;
          bs = take (BUFSIZE - 1) (fc_up c);
          name = c_str bs;
          m1 = m\<lparr>fs_out := fs_out m @ ''event trigger once'' @ [NL]\<rparr> in
      if bs = [] then Ret () (upd_fc i (\<lambda>c. c\<lparr>fc_link := L_Closed\<rparr>) m1)
      else let m2 = upd_fc i (\<lambda>c. c\<lparr>fc_up := drop (BUFSIZE - 1) (fc_up c)\<rparr>) (m1\<lparr>fs_out := fs_out m1 @ ''Request file '' @ name @ [NL]\<rparr>) in
        case files name of None \<Rightarrow> Undef
        | Some content \<Rightarrow> Ret ()
            (if fc_link c = L_Gone then (if reset \<and> content \<noteq> [] then m2\<lparr>fs_alive := False\<rparr> else m2)
             else upd_fc i (\<lambda>c. c\<lparr>fc_flight := fc_flight c @ take (room - length (fc_flight c)) content\<rparr>) m2))"

section \<open>The turns\<close>

text \<open>Typing, the network, and a client that leaves.\<close>

definition type_name :: "fclient \<Rightarrow> fclient option" where
  "type_name c = (if here c \<and> fc_stdin c then
     (case fc_todo c of [] \<Rightarrow> None
      | n # ns \<Rightarrow> Some (c\<lparr>fc_todo := ns, fc_typed := fc_typed c @ n @ [NL], fc_key := True\<rparr>)) else None)"

definition deliver :: "bool \<Rightarrow> nat \<Rightarrow> fclient \<Rightarrow> fclient option" where
  "deliver alive k c =
     (if fc_flight c \<noteq> [] then Some (c\<lparr>fc_flight := drop (Suc k) (fc_flight c), fc_in := fc_in c @ take (Suc k) (fc_flight c), fc_edge := True\<rparr>)
      else if \<not> alive \<and> \<not> fc_eof c then Some (c\<lparr>fc_eof := True, fc_edge := True\<rparr>)
      else None)"

text \<open>What a client does by itself, as its new state (None: it is not its turn).\<close>

definition own_turn :: "nat \<Rightarrow> (fclient \<Rightarrow> fclient option) \<Rightarrow> fserver \<Rightarrow> (fserver, unit) result option" where
  "own_turn i f m = (if i < length (fs_clients m)
     then map_option (\<lambda>c. Ret () (upd_fc i (\<lambda>_. c) m)) (f (fs_clients m ! i)) else None)"

definition client_of :: "fserver \<Rightarrow> nat \<Rightarrow> (fclient \<Rightarrow> bool) \<Rightarrow> bool" where
  "client_of m i P \<longleftrightarrow> i < length (fs_clients m) \<and> P (fs_clients m ! i)"

fun file_turn :: "(string \<Rightarrow> string option) \<Rightarrow> nat \<Rightarrow> (fagent, fserver) turns" where
  "file_turn files room (Connect i) m =
     (if fs_alive m \<and> client_of m i (\<lambda>c. fc_link c = L_New)
      then Some (Ret () (upd_fc i (\<lambda>c. c\<lparr>fc_link := L_Pending\<rparr>) (m\<lparr>fs_pending := fs_pending m @ [i], fs_edge := True\<rparr>))) else None)"
| "file_turn files room Accept m = (if fs_alive m \<and> fs_edge m then Some (Ret () (accept_one m)) else None)"
| "file_turn files room (Type i) m = own_turn i type_name m"
| "file_turn files room (Input i) m =
     (if fs_alive m \<and> client_of m i (\<lambda>c. here c \<and> fc_key c \<and> fc_stdin c)
      then (case client_input (fs_clients m ! i) of None \<Rightarrow> Some Undef | Some c \<Rightarrow> Some (Ret () (upd_fc i (\<lambda>_. c) m))) else None)"
| "file_turn files room (Serve i reset) m =
     (if fs_alive m \<and> client_of m i (\<lambda>c. fc_link c = L_Linked \<and> fc_up c \<noteq> [] \<or> fc_link c = L_Gone)
      then Some (serve_one files room reset i m) else None)"
| "file_turn files room (Deliver i k) m = own_turn i (\<lambda>c. if here c then deliver (fs_alive m) k c else None) m"
| "file_turn files room (Poll i) m = own_turn i (\<lambda>c. if here c then client_poll c else None) m"
| "file_turn files room (Recv i) m = own_turn i (\<lambda>c. if here c \<and> fc_drain c then Some (client_recv c) else None) m"
| "file_turn files room (Quit i) m = own_turn i (\<lambda>c. if fc_link c = L_Linked then Some (c\<lparr>fc_link := L_Gone\<rparr>) else None) m"

definition new_fclient :: "string list \<Rightarrow> fclient" where
  "new_fclient ns = \<lparr>fc_link = L_New, fc_todo = ns, fc_typed = [], fc_key = False, fc_stdin = True, fc_up = [], fc_flight = [],
     fc_in = [], fc_eof = False, fc_edge = False, fc_open = True, fc_drain = False, fc_out = []\<rparr>"

definition files_start :: "string list list \<Rightarrow> fserver" where
  "files_start nss = \<lparr>fs_alive = True, fs_pending = [], fs_edge = False, fs_out = [], fs_clients = map new_fclient nss\<rparr>"

end
