(* ===== verification/File_Transfer.thy ===== *)
theory File_Transfer
  imports File_Server "HOL-Library.Sublist"
begin

text \<open>
  What the file server and its clients guarantee. The invariant follows each client: the names that its
  user has typed split into those that are answered, the one that is on its way, and those still to come; what the client has printed, can
  receive and waits for is the contents of the answered ones. All this is for users who wait for the answer before they type the next
  name (\<open>patient_turn\<close>): names have no end in the stream, so that two that arrive together are one (\<open>impatient_user_undefined\<close>).
\<close>

section \<open>Patient users\<close>

definition patient :: "fagent \<Rightarrow> fserver \<Rightarrow> bool" where
  "patient a m = (case a of Type i \<Rightarrow> still (fs_clients m ! i) | _ \<Rightarrow> True)"

definition patient_turn :: "(string \<Rightarrow> string option) \<Rightarrow> nat \<Rightarrow> (fagent, fserver) turns" where
  "patient_turn files room a m = (if patient a m then file_turn files room a m else None)"

lemma patient_turnD: "patient_turn files room a m = Some r \<Longrightarrow> patient a m \<and> file_turn files room a m = Some r"
  by (simp add: patient_turn_def split: if_splits)

section \<open>What a client keeps\<close>

definition content :: "(string \<Rightarrow> string option) \<Rightarrow> string \<Rightarrow> string" where
  "content files n = (case files n of None \<Rightarrow> [] | Some s \<Rightarrow> s)"

fun chunk :: "shown \<Rightarrow> string" where
  "chunk (Chunk s) = s"
| "chunk Later = []"

definition texts :: "shown list \<Rightarrow> string" where
  "texts out = concat (map chunk out)"

text \<open>The names that users may type: words that fit, of files that fit into the buffers of the network and hold no NUL.\<close>

definition fair :: "(string \<Rightarrow> string option) \<Rightarrow> nat \<Rightarrow> string \<Rightarrow> bool" where
  "fair files room n \<longleftrightarrow> n \<noteq> [] \<and> length n < BUFSIZE \<and> list_all (\<lambda>c. \<not> is_blank c \<and> c \<noteq> NUL) n \<and>
     (case files n of None \<Rightarrow> False | Some s \<Rightarrow> NUL \<notin> set s \<and> length s \<le> room)"

text \<open>The name that the client is asking for, if any.\<close>

definition asking :: "fclient \<Rightarrow> string list \<Rightarrow> bool" where
  "asking c cur \<longleftrightarrow> (\<exists>bl. list_all is_blank bl \<and> (case cur of
       [] \<Rightarrow> fc_typed c = bl \<and> \<not> fc_key c \<and> fc_up c = []
     | [n] \<Rightarrow> fc_in c = [] \<and> fc_flight c = [] \<and>
         (fc_typed c = bl @ n @ [NL] \<and> fc_key c \<and> fc_up c = [] \<or> fc_typed c = bl \<and> \<not> fc_key c \<and> fc_up c = n)
     | _ \<Rightarrow> False))"

definition received :: "fclient \<Rightarrow> string" where
  "received c = texts (fc_out c) @ fc_in c @ fc_flight c"

definition fclient_ok :: "(string \<Rightarrow> string option) \<Rightarrow> bool \<Rightarrow> string list \<Rightarrow> fclient \<Rightarrow> bool" where
  "fclient_ok files alive ns c \<longleftrightarrow> (\<exists>done cur. ns = done @ cur @ fc_todo c \<and> asking c cur \<and>
     (if fc_link c = L_Gone \<or> fc_link c = L_Closed then prefix (received c) (concat (map (content files) done))
      else received c = concat (map (content files) done))) \<and>
     (fc_link c = L_New \<longrightarrow> still c) \<and> (fc_open c \<and> fc_in c \<noteq> [] \<longrightarrow> fc_edge c \<or> fc_drain c) \<and> (alive \<longrightarrow> fc_open c \<and> \<not> fc_eof c) \<and> fc_stdin c"

lemma scan_word_name:
  assumes "list_all is_blank bl" "list_all (\<lambda>c. \<not> is_blank c) n" "n \<noteq> []"
  shows "scan_word (bl @ n @ [NL]) = (n, [NL])"
proof -
  have d: "dropWhile is_blank (bl @ n @ [NL]) = n @ [NL]"
    using assms by (cases n) (auto simp: dropWhile_append2 list_all_iff)
  have b: "is_blank NL"
    by (simp add: is_blank_def NL_def)
  have "takeWhile (\<lambda>c. \<not> is_blank c) (n @ [NL]) = n" "dropWhile (\<lambda>c. \<not> is_blank c) (n @ [NL]) = [NL]"
    using assms(2) b by (auto simp: takeWhile_append2 dropWhile_append2 list_all_iff)
  then show ?thesis
    by (simp add: scan_word_def d)
qed

lemma c_str_id: "NUL \<notin> set s \<Longrightarrow> c_str s = s"
  by (auto simp: c_str_def takeWhile_eq_all_conv)

lemma texts_append [simp]: "texts (out @ [x]) = texts out @ chunk x"
  by (simp add: texts_def)

lemma fair_name:
  assumes "fair files room n"
  shows "n \<noteq> []" "length n < BUFSIZE" "c_str n = n" "list_all (\<lambda>c. \<not> is_blank c) n" "files n = Some (content files n)"
    "NUL \<notin> set (content files n)" "length (content files n) \<le> room"
  using assms unfolding fair_def
  by (auto simp: list_all_iff content_def intro!: c_str_id split: option.splits)

lemma asking_cases:
  assumes "asking c cur"
  obtains "cur = []" "list_all is_blank (fc_typed c)" "\<not> fc_key c" "fc_up c = []"
    | n bl where "cur = [n]" "fc_in c = []" "fc_flight c = []" "list_all is_blank bl" "fc_typed c = bl @ n @ [NL]" "fc_key c" "fc_up c = []"
    | n where "cur = [n]" "fc_in c = []" "fc_flight c = []" "list_all is_blank (fc_typed c)" "\<not> fc_key c" "fc_up c = n"
proof (cases cur)
  case Nil
  then show ?thesis
    using assms that(1) by (auto simp: asking_def)
next
  case (Cons n ns)
  then show ?thesis
    using assms that(2,3) by (cases ns) (auto simp: asking_def)
qed

lemma fclient_okE:
  assumes "fclient_ok files alive ns c"
  obtains dn cur where "ns = dn @ cur @ fc_todo c" "asking c cur"
    "if fc_link c = L_Gone \<or> fc_link c = L_Closed then prefix (received c) (concat (map (content files) dn))
     else received c = concat (map (content files) dn)"
    "fc_link c = L_New \<longrightarrow> still c" "fc_open c \<and> fc_in c \<noteq> [] \<longrightarrow> fc_edge c \<or> fc_drain c" "alive \<longrightarrow> fc_open c \<and> \<not> fc_eof c" "fc_stdin c"
  using assms unfolding fclient_ok_def by blast

lemma fclient_okI:
  assumes "ns = dn @ cur @ fc_todo c" "asking c cur"
    "if fc_link c = L_Gone \<or> fc_link c = L_Closed then prefix (received c) (concat (map (content files) dn))
     else received c = concat (map (content files) dn)"
    "fc_link c = L_New \<longrightarrow> still c" "fc_open c \<and> fc_in c \<noteq> [] \<longrightarrow> fc_edge c \<or> fc_drain c" "alive \<longrightarrow> fc_open c \<and> \<not> fc_eof c" "fc_stdin c"
  shows "fclient_ok files alive ns c"
  using assms unfolding fclient_ok_def by blast

lemma type_ok:
  assumes f: "list_all (fair files room) ns" and c: "fclient_ok files alive ns c" and t: "type_name c = Some c'" and w: "still c"
  shows "fclient_ok files alive ns c'" "fc_link c' = fc_link c"
proof -
  obtain n todo where n: "fc_todo c = n # todo" "here c" "still c"
    and c': "c' = c\<lparr>fc_todo := todo, fc_typed := fc_typed c @ n @ [NL], fc_key := True\<rparr>"
    using t w by (auto simp: type_name_def split: list.splits if_splits)
  show "fc_link c' = fc_link c"
    by (simp add: c')
  obtain dn cur where d: "ns = dn @ cur @ fc_todo c" "asking c cur"
    "if fc_link c = L_Gone \<or> fc_link c = L_Closed then prefix (received c) (concat (map (content files) dn))
     else received c = concat (map (content files) dn)"
    "fc_open c \<and> fc_in c \<noteq> [] \<longrightarrow> fc_edge c \<or> fc_drain c" "alive \<longrightarrow> fc_open c \<and> \<not> fc_eof c" "fc_stdin c"
    using c by (rule fclient_okE)
  have "cur = [] \<and> list_all is_blank (fc_typed c)"
    using d(2)
  proof (cases rule: asking_cases)
    case (3 x)
    then show ?thesis
      using n(3) f d(1) by (simp add: still_def fair_def)
  qed (use n(3) in \<open>simp_all add: still_def\<close>)
  then have "asking c' [n]"
    using n(3) by (auto simp: asking_def c' still_def)
  then show "fclient_ok files alive ns c'"
    using d n \<open>cur = [] \<and> _\<close> by (intro fclient_okI [of _ dn "[n]"]) (auto simp: c' received_def here_def)
qed

lemma input_ok:
  assumes f: "list_all (fair files room) ns" and c: "fclient_ok files True ns c" and k: "fc_key c"
  obtains c' where "client_input c = Some c'" "fclient_ok files True ns c'" "fc_link c' = fc_link c"
proof -
  obtain dn cur where d: "ns = dn @ cur @ fc_todo c" "asking c cur"
    "if fc_link c = L_Gone \<or> fc_link c = L_Closed then prefix (received c) (concat (map (content files) dn))
     else received c = concat (map (content files) dn)" "fc_link c = L_New \<longrightarrow> still c"
    "fc_open c \<and> fc_in c \<noteq> [] \<longrightarrow> fc_edge c \<or> fc_drain c" "True \<longrightarrow> fc_open c \<and> \<not> fc_eof c" "fc_stdin c"
    using c by (rule fclient_okE)
  obtain n bl where n: "cur = [n]" "fc_in c = []" "fc_flight c = []" "list_all is_blank bl" "fc_typed c = bl @ n @ [NL]" "fc_up c = []"
    using d(2) k by (cases rule: asking_cases) auto
  note fn = fair_name [of files room n]
  have fair: "fair files room n"
    using f d(1) n(1) by simp
  have i: "client_input c = Some (c\<lparr>fc_typed := [NL], fc_key := False, fc_up := n\<rparr>)"
    using fn [OF fair] d(6) n by (simp add: client_input_def scan_word_name)
  have b: "is_blank NL"
    by (simp add: is_blank_def NL_def)
  have "asking (c\<lparr>fc_typed := [NL], fc_key := False, fc_up := n\<rparr>) [n]"
    using n b by (auto simp: asking_def)
  then have "fclient_ok files True ns (c\<lparr>fc_typed := [NL], fc_key := False, fc_up := n\<rparr>)"
    using d k n(1) by (intro fclient_okI [of _ dn "[n]"]) (auto simp: received_def still_def)
  then show ?thesis
    using i that by simp
qed

lemma served_ok:
  assumes f: "list_all (fair files room) ns" and c: "fclient_ok files True ns c" and u: "fc_up c \<noteq> []"
  obtains n where "c_str (take (BUFSIZE - 1) (fc_up c)) = n" "fc_up c = n" "drop (BUFSIZE - 1) n = []" "files n = Some (content files n)"
    "length (content files n) \<le> room" "fc_flight c = []"
    "fc_link c = L_Linked \<Longrightarrow> fclient_ok files True ns (c\<lparr>fc_up := [], fc_flight := content files n\<rparr>)"
    "fc_link c = L_Gone \<Longrightarrow> fclient_ok files True ns (c\<lparr>fc_up := []\<rparr>)"
proof -
  obtain dn cur where d: "ns = dn @ cur @ fc_todo c" "asking c cur"
    "if fc_link c = L_Gone \<or> fc_link c = L_Closed then prefix (received c) (concat (map (content files) dn))
     else received c = concat (map (content files) dn)" "fc_link c = L_New \<longrightarrow> still c"
    "fc_open c \<and> fc_in c \<noteq> [] \<longrightarrow> fc_edge c \<or> fc_drain c" "True \<longrightarrow> fc_open c \<and> \<not> fc_eof c" "fc_stdin c"
    using c by (rule fclient_okE)
  obtain n where n: "cur = [n]" "fc_in c = []" "fc_flight c = []" "list_all is_blank (fc_typed c)" "\<not> fc_key c" "fc_up c = n"
    using d(2) u by (cases rule: asking_cases) auto
  have fair: "fair files room n"
    using f d(1) n(1) by simp
  note fn = fair_name [OF fair]
  have "c_str (take (BUFSIZE - 1) (fc_up c)) = n" "drop (BUFSIZE - 1) n = []"
    using fn(2,3) n by (auto simp: BUFSIZE_def)
  moreover have "fclient_ok files True ns (c\<lparr>fc_up := [], fc_flight := content files n\<rparr>)" if "fc_link c = L_Linked"
    using d n u that by (intro fclient_okI [of _ "dn @ [n]" "[]"]) (auto simp: received_def asking_def still_def prefix_def)
  moreover have "fclient_ok files True ns (c\<lparr>fc_up := []\<rparr>)" if "fc_link c = L_Gone"
    using d n u that by (intro fclient_okI [of _ "dn @ [n]" "[]"]) (auto simp: received_def asking_def)
  ultimately show ?thesis
    using that n fn by blast
qed

text \<open>A turn by which nothing is lost and no name is read.\<close>

lemma fclient_ok_same:
  assumes "fclient_ok files alive ns c" "here c" "fc_link c' = fc_link c" "fc_todo c' = fc_todo c" "fc_stdin c' = fc_stdin c"
    "received c' = received c" "\<And>cur. asking c cur \<Longrightarrow> asking c' cur"
    "fc_open c' \<and> fc_in c' \<noteq> [] \<longrightarrow> fc_edge c' \<or> fc_drain c'" "alive \<Longrightarrow> fc_open c \<Longrightarrow> \<not> fc_eof c \<Longrightarrow> fc_open c' \<and> \<not> fc_eof c'"
  shows "fclient_ok files alive ns c'"
  using assms(1)
proof (rule fclient_okE)
  fix dn cur
  assume "ns = dn @ cur @ fc_todo c" "asking c cur" "alive \<longrightarrow> fc_open c \<and> \<not> fc_eof c" "fc_stdin c"
    "if fc_link c = L_Gone \<or> fc_link c = L_Closed then prefix (received c) (concat (map (content files) dn))
     else received c = concat (map (content files) dn)"
  then show ?thesis
    using assms(2-9) by (intro fclient_okI [of _ dn cur]) (auto simp: here_def)
qed

lemma deliver_ok:
  assumes "fclient_ok files alive ns c" "here c" "deliver alive k c = Some c'"
  shows "fclient_ok files alive ns c'" "fc_link c' = fc_link c"
proof -
  have s: "received c' = received c"
    using assms(3) by (auto simp: deliver_def received_def split: if_splits)
  have a: "asking c' cur" if "asking c cur" for cur
    using that assms(3) by (cases rule: asking_cases) (auto simp: deliver_def asking_def split: if_splits)
  show "fclient_ok files alive ns c'"
    using assms(3) by (intro fclient_ok_same [OF assms(1,2) _ _ _ s a]) (auto simp: deliver_def split: if_splits)
  show "fc_link c' = fc_link c"
    using assms(3) by (auto simp: deliver_def split: if_splits)
qed

lemma poll_ok:
  assumes "fclient_ok files alive ns c" "here c" "client_poll c = Some c'"
  shows "fclient_ok files alive ns c'" "fc_link c' = fc_link c"
proof -
  have c': "c' = c\<lparr>fc_edge := False, fc_drain := True\<rparr>"
    using assms(3) by (simp add: client_poll_def split: if_splits)
  have a: "asking c' cur" if "asking c cur" for cur
    using that by (cases rule: asking_cases) (auto simp: c' asking_def)
  show "fclient_ok files alive ns c'"
    by (rule fclient_ok_same [OF assms(1,2) _ _ _ _ a]) (simp_all add: c' received_def)
  show "fc_link c' = fc_link c"
    by (simp add: c')
qed

lemma no_NUL_in:
  assumes "list_all (fair files room) ns" "fclient_ok files alive ns c" "here c"
  shows "NUL \<notin> set (fc_in c)"
  using assms(2)
proof (rule fclient_okE)
  fix dn cur
  assume d: "ns = dn @ cur @ fc_todo c" "if fc_link c = L_Gone \<or> fc_link c = L_Closed then prefix (received c) (concat (map (content files) dn))
     else received c = concat (map (content files) dn)"
  have "NUL \<notin> set (concat (map (content files) dn))"
    using assms(1) d(1) by (auto simp: list_all_iff dest: fair_name(6))
  moreover have "received c = concat (map (content files) dn)"
    using d(2) assms(3) by (auto simp: here_def)
  ultimately have "NUL \<notin> set (received c)"
    by simp
  then show ?thesis
    by (simp add: received_def)
qed

lemma recv_ok:
  assumes "list_all (fair files room) ns" "fclient_ok files alive ns c" "here c" "fc_drain c"
  shows "fclient_ok files alive ns (client_recv c)" "fc_link (client_recv c) = fc_link c"
proof -
  have "NUL \<notin> set (take (BUFSIZE - 1) (fc_in c))"
    using no_NUL_in [OF assms(1-3)] by (meson in_set_takeD)
  moreover have "take k xs @ drop k xs @ ys = xs @ ys" for k and xs ys :: string
    by (simp flip: append_assoc)
  ultimately have r: "received (client_recv c) = received c"
    by (simp add: client_recv_def received_def c_str_id)
  have a: "asking (client_recv c) cur" if "asking c cur" for cur
    using that by (cases rule: asking_cases) (auto simp: client_recv_def asking_def)
  show "fclient_ok files alive ns (client_recv c)"
    using assms(4) by (intro fclient_ok_same [OF assms(2,3) _ _ _ r a]) (auto simp: client_recv_def)
  show "fc_link (client_recv c) = fc_link c"
    by (simp add: client_recv_def)
qed

section \<open>The program\<close>

definition pending_ok :: "fserver \<Rightarrow> bool" where
  "pending_ok m \<longleftrightarrow> distinct (fs_pending m) \<and> (\<forall>j\<in>set (fs_pending m). j < length (fs_clients m) \<and> fc_link (fs_clients m ! j) = L_Pending)"

definition files_inv :: "(string \<Rightarrow> string option) \<Rightarrow> nat \<Rightarrow> string list list \<Rightarrow> fserver \<Rightarrow> bool" where
  "files_inv files room nss m \<longleftrightarrow> list_all (list_all (fair files room)) nss \<and> length (fs_clients m) = length nss \<and>
     (\<forall>i<length nss. fclient_ok files (fs_alive m) (nss ! i) (fs_clients m ! i)) \<and> pending_ok m \<and>
     (\<not> fs_alive m \<longrightarrow> (\<exists>i<length nss. fc_link (fs_clients m ! i) = L_Gone))"

lemma files_invD:
  assumes "files_inv files room nss m" "i < length (fs_clients m)"
  shows "list_all (fair files room) (nss ! i)" "fclient_ok files (fs_alive m) (nss ! i) (fs_clients m ! i)" "i < length nss"
  using assms unfolding files_inv_def by (auto simp: list_all_length)

lemma files_inv_upd:
  assumes "files_inv files room nss m" "i < length (fs_clients m)" "fclient_ok files (fs_alive m) (nss ! i) (f (fs_clients m ! i))"
    "fc_link (f (fs_clients m ! i)) = fc_link (fs_clients m ! i) \<or> fs_alive m \<and> fc_link (fs_clients m ! i) \<noteq> L_Pending
     \<or> fc_link (f (fs_clients m ! i)) = L_Gone \<and> fc_link (fs_clients m ! i) \<noteq> L_Pending"
  shows "files_inv files room nss (upd_fc i f m)"
proof -
  let ?c = "\<lambda>j. fs_clients (upd_fc i f m) ! j"
  have n: "?c j = (if j = i then f (fs_clients m ! i) else fs_clients m ! j)" for j
    using assms(2) by (simp add: upd_fc_def)
  have s: "length (fs_clients (upd_fc i f m)) = length (fs_clients m)" "fs_pending (upd_fc i f m) = fs_pending m"
    "fs_alive (upd_fc i f m) = fs_alive m"
    by (simp_all add: upd_fc_def)
  have "pending_ok (upd_fc i f m)"
    using assms(1,4) unfolding files_inv_def pending_ok_def s n by auto
  moreover have "\<forall>j<length nss. fclient_ok files (fs_alive m) (nss ! j) (?c j)"
    using assms(1,3) unfolding files_inv_def n by auto
  moreover have "\<exists>j<length nss. fc_link (?c j) = L_Gone" if "\<not> fs_alive m"
  proof -
    obtain j where "j < length nss" "fc_link (fs_clients m ! j) = L_Gone"
      using assms(1) \<open>\<not> fs_alive m\<close> unfolding files_inv_def by auto
    then show ?thesis
      using assms(4) \<open>\<not> fs_alive m\<close> unfolding n by (intro exI [of _ j]) auto
  qed
  ultimately show ?thesis
    using assms(1) unfolding files_inv_def s by simp
qed

lemma files_inv_print [simp]: "files_inv files room nss (m\<lparr>fs_out := s\<rparr>) = files_inv files room nss m"
  "files_inv files room nss (m\<lparr>fs_edge := b\<rparr>) = files_inv files room nss m"
  by (simp_all add: files_inv_def pending_ok_def)

lemma upd_fc_twice [simp]: "upd_fc i g (upd_fc i f m) = upd_fc i (g \<circ> f) m"
  by (cases "i < length (fs_clients m)") (simp_all add: upd_fc_def list_update_beyond)

text \<open>A turn that a client takes by itself.\<close>

lemma own_turn_keeps:
  assumes "files_inv files room nss m" "own_turn i f m = Some r"
    and "\<And>c c'. f c = Some c' \<Longrightarrow> list_all (fair files room) (nss ! i) \<Longrightarrow> fclient_ok files (fs_alive m) (nss ! i) c \<Longrightarrow>
       fclient_ok files (fs_alive m) (nss ! i) c' \<and> (fc_link c' = fc_link c \<or> fc_link c' = L_Gone \<and> fc_link c \<noteq> L_Pending)"
  shows "outcome (files_inv files room nss) (\<lambda>_ _. False) r"
proof -
  obtain c' where c': "i < length (fs_clients m)" "f (fs_clients m ! i) = Some c'" "r = Ret () (upd_fc i (\<lambda>_. c') m)"
    using assms(2) by (auto simp: own_turn_def split: if_splits)
  then show ?thesis
    using assms(3) [OF c'(2)] files_invD [OF assms(1) c'(1)] by (auto intro!: files_inv_upd [OF assms(1) c'(1)])
qed

lemma link_simps [simp]:
  "asking (c\<lparr>fc_link := l\<rparr>) cur = asking c cur" "received (c\<lparr>fc_link := l\<rparr>) = received c" "still (c\<lparr>fc_link := l\<rparr>) = still c"
  by (simp_all add: asking_def received_def still_def cong: list.case_cong)

lemma linked_ok:
  assumes "fclient_ok files alive ns c" "fc_link c = L_New \<and> l = L_Pending \<or> fc_link c = L_Pending \<and> l = L_Linked \<or>
    fc_link c = L_Linked \<and> l = L_Gone \<or> fc_link c = L_Gone \<and> l = L_Closed"
  shows "fclient_ok files alive ns (c\<lparr>fc_link := l\<rparr>)"
  using assms(1)
proof (rule fclient_okE)
  fix dn cur
  assume "ns = dn @ cur @ fc_todo c" "asking c cur" "alive \<longrightarrow> fc_open c \<and> \<not> fc_eof c" "fc_stdin c"
    "if fc_link c = L_Gone \<or> fc_link c = L_Closed then prefix (received c) (concat (map (content files) dn))
     else received c = concat (map (content files) dn)" "fc_open c \<and> fc_in c \<noteq> [] \<longrightarrow> fc_edge c \<or> fc_drain c"
  then show ?thesis
    using assms(2) by (intro fclient_okI [of _ dn cur]) (auto split: if_splits)
qed

lemma link_turn:
  assumes m: "files_inv files room nss m" and i: "i < length (fs_clients m)" and a: "fs_alive m"
    and l: "fc_link (fs_clients m ! i) = L_New \<and> l = L_Pending \<and> q = fs_pending m @ [i] \<or> fc_link (fs_clients m ! i) = L_Pending \<and> l = L_Linked \<and> fs_pending m = i # q"
  shows "files_inv files room nss (upd_fc i (\<lambda>c. c\<lparr>fc_link := l\<rparr>) (m\<lparr>fs_pending := q\<rparr>))" (is "files_inv _ _ _ ?m")
proof -
  have n: "fs_clients ?m ! j = (if j = i then (fs_clients m ! i)\<lparr>fc_link := l\<rparr> else fs_clients m ! j)" for j
    using i by (simp add: upd_fc_def)
  have s: "length (fs_clients ?m) = length (fs_clients m)" "fs_pending ?m = q" "fs_alive ?m = fs_alive m"
    by (simp_all add: upd_fc_def)
  have "pending_ok ?m"
    using m l i unfolding files_inv_def pending_ok_def s n by auto
  moreover have "fclient_ok files (fs_alive m) (nss ! i) ((fs_clients m ! i)\<lparr>fc_link := l\<rparr>)"
    using files_invD(2) [OF m i] l by (intro linked_ok) auto
  then have "\<forall>j<length nss. fclient_ok files (fs_alive m) (nss ! j) (fs_clients ?m ! j)"
    using m unfolding files_inv_def n by auto
  ultimately show ?thesis
    using m a unfolding files_inv_def s by simp
qed

lemma accept_ok:
  assumes m: "files_inv files room nss m" and a: "fs_alive m"
  shows "files_inv files room nss (accept_one m)"
proof (cases "fs_pending m")
  case Nil
  then show ?thesis
    using m by (simp add: accept_one_def)
next
  case (Cons j js)
  have "files_inv files room nss (upd_fc j (\<lambda>c. c\<lparr>fc_link := L_Linked\<rparr>) (m\<lparr>fs_edge := False, fs_out := fs_out m @ ''Now accept'' @ [NL], fs_pending := js\<rparr>))"
    using m a Cons by (intro link_turn) (auto simp: files_inv_def pending_ok_def)
  then show ?thesis
    using Cons by (simp add: accept_one_def)
qed

lemma serve_ok:
  assumes m: "files_inv files room nss m" and i: "i < length (fs_clients m)" and a: "fs_alive m"
    and l: "fc_link (fs_clients m ! i) = L_Linked \<and> fc_up (fs_clients m ! i) \<noteq> [] \<or> fc_link (fs_clients m ! i) = L_Gone"
  shows "outcome (files_inv files room nss) (\<lambda>_ _. False) (serve_one files room reset i m)"
proof -
  let ?c = "fs_clients m ! i"
  note c = files_invD [OF m i]
  show ?thesis
  proof (cases "fc_up ?c = []")
    case True
    then have g: "fc_link ?c = L_Gone"
      using l by auto
    have "files_inv files room nss (upd_fc i (\<lambda>c. c\<lparr>fc_link := L_Closed\<rparr>) (m\<lparr>fs_out := s\<rparr>))" for s
      using m a i g c(2) by (intro files_inv_upd) (auto intro: linked_ok)
    then show ?thesis
      using True by (simp add: serve_one_def)
  next
    case False
    obtain n where n: "c_str (take (BUFSIZE - 1) (fc_up ?c)) = n" "fc_up ?c = n" "drop (BUFSIZE - 1) n = []" "files n = Some (content files n)"
      "length (content files n) \<le> room" "fc_flight ?c = []"
      "fc_link ?c = L_Linked \<Longrightarrow> fclient_ok files True (nss ! i) (?c\<lparr>fc_up := [], fc_flight := content files n\<rparr>)"
      "fc_link ?c = L_Gone \<Longrightarrow> fclient_ok files True (nss ! i) (?c\<lparr>fc_up := []\<rparr>)"
      using served_ok [OF c(1) _ False] c(2) a by auto
    have u: "files_inv files room nss (upd_fc i f (m\<lparr>fs_out := s\<rparr>))"
      if "fclient_ok files True (nss ! i) (f ?c)" "fc_link (f ?c) = fc_link ?c" for f s
      using m a i that by (intro files_inv_upd) auto
    have d: "files_inv files room nss (m1\<lparr>fs_alive := False\<rparr>)" if "files_inv files room nss m1" "\<exists>j<length nss. fc_link (fs_clients m1 ! j) = L_Gone" for m1
      using that by (auto simp: files_inv_def pending_ok_def fclient_ok_def)
    show ?thesis
    proof (cases "fc_link ?c = L_Gone")
      case True
      have f: "fclient_ok files True (nss ! i) (?c\<lparr>fc_up := drop (BUFSIZE - 1) (fc_up ?c)\<rparr>)"
        using n True by simp
      have "\<exists>j<length nss. fc_link (fs_clients (upd_fc i (\<lambda>c. c\<lparr>fc_up := drop (BUFSIZE - 1) (fc_up c)\<rparr>) (m\<lparr>fs_out := s\<rparr>)) ! j) = L_Gone" for s
        using True i c(3) by (intro exI [of _ i]) (simp add: upd_fc_def)
      then show ?thesis
        using False n(1,2,4) True u [of "\<lambda>c. c\<lparr>fc_up := drop (BUFSIZE - 1) (fc_up c)\<rparr>", OF f] d
        by (simp add: serve_one_def Let_def BUFSIZE_def)
    next
      case False
      then have "fclient_ok files True (nss ! i) (?c\<lparr>fc_up := drop (BUFSIZE - 1) (fc_up ?c), fc_flight := fc_flight ?c @ take (room - length (fc_flight ?c)) (content files n)\<rparr>)"
        using n l by simp
      then show ?thesis
        using False \<open>fc_up ?c \<noteq> []\<close> n(1,2,4) u [of "(\<lambda>c. c\<lparr>fc_flight := fc_flight c @ take (room - length (fc_flight c)) (content files n)\<rparr>) \<circ> (\<lambda>c. c\<lparr>fc_up := drop (BUFSIZE - 1) (fc_up c)\<rparr>)"]
        by (simp add: serve_one_def Let_def BUFSIZE_def)
    qed
  qed
qed

section \<open>No run goes on for ever\<close>

fun link_cost :: "link \<Rightarrow> nat" where
  "link_cost L_New = 5"
| "link_cost L_Pending = 3"
| "link_cost L_Linked = 2"
| "link_cost L_Gone = 1"
| "link_cost L_Closed = 0"

text \<open>A byte of a name may bring up to \<open>room\<close> bytes of a file, and each of these up to five turns.\<close>

definition name_cost :: "nat \<Rightarrow> nat" where
  "name_cost room = 5 * room + 5"

lemma name_cost_pos [simp]: "0 < name_cost room"
  by (simp add: name_cost_def)

fun flag :: "bool \<Rightarrow> nat" where
  "flag True = 1"
| "flag False = 0"

lemma flag_le: "flag b \<le> 1"
  by (cases b) simp_all

definition fcost :: "nat \<Rightarrow> fclient \<Rightarrow> nat" where
  "fcost room c = sum_list (map (\<lambda>n. (length n + 2) * (name_cost room + 1)) (fc_todo c)) + length (fc_typed c) * (name_cost room + 1)
     + flag (fc_key c) + length (fc_up c) * name_cost room + 5 * length (fc_flight c) + length (fc_in c) + 4 * flag (\<not> fc_eof c)
     + 3 * flag (fc_edge c) + flag (fc_drain c) + flag (fc_open c) + link_cost (fc_link c)"

definition files_bound :: "nat \<Rightarrow> fserver \<Rightarrow> nat" where
  "files_bound room m = sum_list (map (fcost room) (fs_clients m)) + flag (fs_edge m)"

lemma files_bound_upd:
  "i < length (fs_clients m) \<Longrightarrow>
     files_bound room (upd_fc i f m) + fcost room (fs_clients m ! i) = files_bound room m + fcost room (f (fs_clients m ! i))"
  using sum_list_map_update [of i "fs_clients m" "fcost room" "f (fs_clients m ! i)"] by (simp add: files_bound_def upd_fc_def)

lemma files_bound_less:
  "i < length (fs_clients m) \<Longrightarrow> fcost room (f (fs_clients m ! i)) < fcost room (fs_clients m ! i) \<Longrightarrow> files_bound room (upd_fc i f m) < files_bound room m"
  using files_bound_upd [of i m room f] by simp

lemma own_turn_lowers:
  assumes "own_turn i f m = Some (Ret () m')" "\<And>c c'. f c = Some c' \<Longrightarrow> fcost room c' < fcost room c"
  shows "files_bound room m' < files_bound room m"
  using assms by (auto simp: own_turn_def intro!: files_bound_less split: if_splits)

lemma type_lowers: "type_name c = Some c' \<Longrightarrow> fcost room c' < fcost room c"
  using flag_le [of "fc_key c"] by (auto simp: type_name_def fcost_def algebra_simps split: if_splits list.splits)

lemma deliver_lowers:
  assumes "deliver alive k c = Some c'"
  shows "fcost room c' < fcost room c"
proof (cases "fc_flight c = []")
  case False
  obtain x y where xy: "take (Suc k) (fc_flight c) = x" "drop (Suc k) (fc_flight c) = y" "length (fc_flight c) = length x + length y"
    using append_take_drop_id [of "Suc k" "fc_flight c"] by (metis length_append)
  have c': "c' = c\<lparr>fc_flight := y, fc_in := fc_in c @ x, fc_edge := True\<rparr>"
    using assms False xy by (simp add: deliver_def)
  have "0 < length x"
    using False xy(1) by auto
  moreover have "fcost room c' + 4 * length x + 3 * flag (fc_edge c) = fcost room c + 3"
    unfolding c' fcost_def by (simp add: xy(3))
  ultimately show ?thesis
    by linarith
qed (use assms in \<open>auto simp: deliver_def fcost_def split: if_splits\<close>)

lemma poll_lowers: "client_poll c = Some c' \<Longrightarrow> fcost room c' < fcost room c"
  by (auto simp: client_poll_def fcost_def split: if_splits)

lemma recv_lowers: "fc_drain c \<Longrightarrow> fcost room (client_recv c) < fcost room c"
  by (auto simp: client_recv_def fcost_def BUFSIZE_def)

lemma input_lowers:
  assumes "client_input c = Some c'" "fc_key c"
  shows "fcost room c' < fcost room c"
proof -
  obtain w rest where w: "scan_word (fc_typed c) = (w, rest)"
    by (cases "scan_word (fc_typed c)")
  let ?t = "dropWhile is_blank (fc_typed c)"
  have "length w + length rest = length ?t"
    using w takeWhile_dropWhile_id [of "\<lambda>c. \<not> is_blank c" ?t] by (auto simp: scan_word_def Let_def simp flip: length_append)
  then have l: "length w + length rest \<le> length (fc_typed c)"
    using length_dropWhile_le [of is_blank "fc_typed c"] by simp
  have "length (c_str w) \<le> length w"
    by (simp add: c_str_def length_takeWhile_le)
  then have "length (c_str w) * name_cost room + length rest * (name_cost room + 1) \<le> (length w + length rest) * (name_cost room + 1)"
    by (simp add: algebra_simps trans_le_add2)
  also have "\<dots> \<le> length (fc_typed c) * (name_cost room + 1)"
    using l by (rule mult_le_mono1)
  finally show ?thesis
    using assms w by (auto simp: client_input_def fcost_def algebra_simps split: if_splits)
qed

lemma serve_lowers:
  assumes "serve_one files room reset i m = Ret () m'" "i < length (fs_clients m)" "fc_up (fs_clients m ! i) \<noteq> [] \<or> fc_link (fs_clients m ! i) = L_Gone"
  shows "files_bound room m' < files_bound room m"
proof -
  let ?c = "fs_clients m ! i"
  have b: "files_bound room (upd_fc i f (m\<lparr>fs_out := s\<rparr>)) < files_bound room m" if "fcost room (f ?c) < fcost room ?c" for f s
    using that assms(2) files_bound_less [of i "m\<lparr>fs_out := s\<rparr>" room f] by (simp add: files_bound_def)
  have a: "files_bound room (m\<lparr>fs_alive := False\<rparr>) = files_bound room m" for m
    by (simp add: files_bound_def)
  show ?thesis
  proof (cases "fc_up ?c = []")
    case True
    then have "fcost room (?c\<lparr>fc_link := L_Closed\<rparr>) < fcost room ?c"
      using assms(3) by (simp add: fcost_def)
    then show ?thesis
      using assms(1) True b [of "\<lambda>c. c\<lparr>fc_link := L_Closed\<rparr>"] by (auto simp: serve_one_def)
  next
    case False
    then have dl: "length (drop (BUFSIZE - 1) (fc_up ?c)) + 1 \<le> length (fc_up ?c)"
      by (cases "fc_up ?c") (simp_all add: BUFSIZE_def)
    have u: "length (drop (BUFSIZE - 1) (fc_up ?c)) * name_cost room + name_cost room \<le> length (fc_up ?c) * name_cost room"
      using mult_le_mono1 [OF dl, of "name_cost room"] by (simp add: algebra_simps)
    have f: "5 * length (take (room - n) s) < name_cost room" for n and s :: string
      by (simp add: name_cost_def)
    have "fcost room (?c\<lparr>fc_up := drop (BUFSIZE - 1) (fc_up ?c)\<rparr>) < fcost room ?c"
      using u dl name_cost_pos [of room] unfolding fcost_def by (simp del: length_drop)
    moreover have "fcost room (?c\<lparr>fc_up := drop (BUFSIZE - 1) (fc_up ?c), fc_flight := fc_flight ?c @ take (room - length (fc_flight ?c)) s\<rparr>) < fcost room ?c" for s
      using u f [of "length (fc_flight ?c)" s] unfolding fcost_def by (simp del: length_drop length_take)
    ultimately show ?thesis
      using assms(1) False
        b [of "\<lambda>c. c\<lparr>fc_up := drop (BUFSIZE - 1) (fc_up c)\<rparr>"]
        b [of "(\<lambda>c. c\<lparr>fc_flight := fc_flight c @ take (room - length (fc_flight c)) s\<rparr>) \<circ> (\<lambda>c. c\<lparr>fc_up := drop (BUFSIZE - 1) (fc_up c)\<rparr>)" for s]
      by (auto simp: serve_one_def Let_def a BUFSIZE_def split: option.splits if_splits)
  qed
qed

lemma file_turn_lowers:
  assumes "file_turn files room a m = Some (Ret () m')" "pending_ok m"
  shows "files_bound room m' < files_bound room m"
proof (cases a)
  case (Connect i)
  have "files_bound room m' + fcost room (fs_clients m ! i) \<le> files_bound room m + 1 + fcost room ((fs_clients m ! i)\<lparr>fc_link := L_Pending\<rparr>)"
    using assms flag_le [of "fs_edge m"] Connect files_bound_upd [of i "m\<lparr>fs_pending := fs_pending m @ [i], fs_edge := True\<rparr>" room "\<lambda>c. c\<lparr>fc_link := L_Pending\<rparr>"]
    by (auto simp: client_of_def files_bound_def split: if_splits)
  then show ?thesis
    using assms Connect by (auto simp: fcost_def client_of_def split: if_splits)
next
  case Accept
  show ?thesis
  proof (cases "fs_pending m")
    case Nil
    then show ?thesis
      using assms Accept by (auto simp: accept_one_def files_bound_def split: if_splits)
  next
    case (Cons j js)
    then have "j < length (fs_clients m)" "fc_link (fs_clients m ! j) = L_Pending"
      using assms(2) by (auto simp: pending_ok_def)
    then show ?thesis
      using assms Accept Cons files_bound_upd [of j "m\<lparr>fs_edge := False, fs_out := fs_out m @ ''Now accept'' @ [NL], fs_pending := js\<rparr>" room "\<lambda>c. c\<lparr>fc_link := L_Linked\<rparr>"]
      by (auto simp: accept_one_def files_bound_def fcost_def split: if_splits)
  qed
next
  case (Type i)
  then show ?thesis
    using assms type_lowers by (auto intro: own_turn_lowers)
next
  case (Input i)
  then obtain c where "client_input (fs_clients m ! i) = Some c" "m' = upd_fc i (\<lambda>_. c) m" "i < length (fs_clients m)" "fc_key (fs_clients m ! i)"
    using assms(1) by (auto simp: client_of_def split: if_splits option.splits)
  then show ?thesis
    by (auto intro: files_bound_less input_lowers)
next
  case (Serve i reset)
  then show ?thesis
    using assms(1) by (auto simp: client_of_def intro: serve_lowers split: if_splits)
next
  case (Deliver i k)
  then show ?thesis
    using assms by (auto intro!: own_turn_lowers deliver_lowers split: if_splits)
next
  case (Poll i)
  then show ?thesis
    using assms by (auto intro!: own_turn_lowers poll_lowers split: if_splits)
next
  case (Recv i)
  then show ?thesis
    using assms by (auto intro!: own_turn_lowers recv_lowers split: if_splits)
next
  case (Quit i)
  then show ?thesis
    using assms by (auto intro!: own_turn_lowers simp: fcost_def split: if_splits)
qed

section \<open>All runs\<close>

fun calm :: "fagent \<Rightarrow> bool" where
  "calm (Quit i) = False"
| "calm (Serve i reset) = (\<not> reset)"
| "calm _ = True"

definition satisfied :: "fclient \<Rightarrow> bool" where
  "satisfied c \<longleftrightarrow> fc_todo c = [] \<and> still c"

definition files_idle :: "fserver \<Rightarrow> bool" where
  "files_idle m \<longleftrightarrow> (fs_alive m \<longrightarrow> (\<forall>c\<in>set (fs_clients m). fc_link c = L_Linked \<longrightarrow> satisfied c))"

lemma patient_turn_keeps:
  assumes m: "files_inv files room nss m" and p: "patient_turn files room a m = Some r"
  shows "outcome (files_inv files room nss) (\<lambda>_ _. False) r"
proof -
  have t: "file_turn files room a m = Some r" and w: "patient a m"
    using patient_turnD [OF p] by simp_all
  show ?thesis
  proof (cases a)
    case (Connect i)
    have e: "files_inv files room nss (m\<lparr>fs_edge := True\<rparr>)"
      using m by simp
    have "files_inv files room nss (upd_fc i (\<lambda>c. c\<lparr>fc_link := L_Pending\<rparr>) (m\<lparr>fs_edge := True, fs_pending := fs_pending m @ [i]\<rparr>))"
      if "i < length (fs_clients m)" "fc_link (fs_clients m ! i) = L_New" "fs_alive m"
      using that by (intro link_turn [OF e]) auto
    moreover have "m\<lparr>fs_edge := True, fs_pending := q\<rparr> = m\<lparr>fs_pending := q, fs_edge := True\<rparr>" for q
      by simp
    ultimately show ?thesis
      using t Connect by (auto simp: client_of_def split: if_splits)
  next
    case Accept
    then show ?thesis
      using t accept_ok [OF m] by (auto split: if_splits)
  next
    case (Type i)
    have "own_turn i (\<lambda>c. if still c then type_name c else None) m = Some r"
      using t w Type by (simp add: own_turn_def patient_def split: if_splits)
    then show ?thesis
      by (rule own_turn_keeps [OF m]) (auto dest: type_ok split: if_splits)
  next
    case (Input i)
    then have i: "fs_alive m" "i < length (fs_clients m)" "fc_key (fs_clients m ! i)"
      using t by (auto simp: client_of_def split: if_splits)
    then obtain c where c: "client_input (fs_clients m ! i) = Some c" "fclient_ok files True (nss ! i) c" "fc_link c = fc_link (fs_clients m ! i)"
      using input_ok [of files room "nss ! i" "fs_clients m ! i"] files_invD [OF m i(2)] by auto
    have "files_inv files room nss (upd_fc i (\<lambda>_. c) m)"
      using i c by (intro files_inv_upd [OF m]) auto
    then show ?thesis
      using t Input c by (auto split: if_splits)
  next
    case (Serve i reset)
    then have "fs_alive m \<and> client_of m i (\<lambda>c. fc_link c = L_Linked \<and> fc_up c \<noteq> [] \<or> fc_link c = L_Gone)" "r = serve_one files room reset i m"
      using t by (auto split: if_splits)
    then show ?thesis
      using serve_ok [OF m, of i reset] by (auto simp: client_of_def)
  next
    case (Deliver i k)
    have "own_turn i (\<lambda>c. if here c then deliver (fs_alive m) k c else None) m = Some r"
      using t Deliver by simp
    then show ?thesis
      by (rule own_turn_keeps [OF m]) (auto dest: deliver_ok split: if_splits)
  next
    case (Poll i)
    have "own_turn i (\<lambda>c. if here c then client_poll c else None) m = Some r"
      using t Poll by simp
    then show ?thesis
      by (rule own_turn_keeps [OF m]) (auto dest: poll_ok split: if_splits)
  next
    case (Recv i)
    have "own_turn i (\<lambda>c. if here c \<and> fc_drain c then Some (client_recv c) else None) m = Some r"
      using t Recv by simp
    then show ?thesis
      by (rule own_turn_keeps [OF m]) (auto dest: recv_ok split: if_splits)
  next
    case (Quit i)
    have "own_turn i (\<lambda>c. if fc_link c = L_Linked then Some (c\<lparr>fc_link := L_Gone\<rparr>) else None) m = Some r"
      using t Quit by simp
    then show ?thesis
      by (rule own_turn_keeps [OF m]) (auto intro: linked_ok split: if_splits)
  qed
qed

lemma client_goes_on:
  assumes m: "files_inv files room nss m" and a: "fs_alive m" and i: "i < length (fs_clients m)"
    and l: "fc_link (fs_clients m ! i) = L_Linked" and s: "\<not> satisfied (fs_clients m ! i)"
  shows "\<exists>b r. calm b \<and> patient_turn files room b m = Some r"
proof -
  let ?c = "fs_clients m ! i"
  have h: "here ?c"
    using l by (simp add: here_def)
  have c: "fc_open ?c" "fc_stdin ?c" "fc_open ?c \<and> fc_in ?c \<noteq> [] \<longrightarrow> fc_edge ?c \<or> fc_drain ?c"
    using files_invD(2) [OF m i] a by (simp_all add: fclient_ok_def)
  have go: "\<exists>b r. calm b \<and> patient_turn files room b m = Some r" if "calm b" "patient_turn files room b m \<noteq> None" for b
    using that by auto
  consider "fc_key ?c" | "fc_up ?c \<noteq> []" | "fc_flight ?c \<noteq> []" | "fc_drain ?c" | "fc_edge ?c" "\<not> fc_drain ?c"
    | n ns where "still ?c" "fc_todo ?c = n # ns"
    using s c(1,3) unfolding satisfied_def still_def by (cases "fc_todo ?c") auto
  then show ?thesis
  proof cases
    case 1
    then show ?thesis
      using go [of "Input i"] a i h c(2) by (auto simp: patient_turn_def patient_def client_of_def split: option.splits)
  next
    case 2
    then show ?thesis
      using go [of "Serve i False"] a i l by (auto simp: patient_turn_def patient_def client_of_def)
  next
    case 3
    then show ?thesis
      using go [of "Deliver i 0"] i h by (auto simp: patient_turn_def patient_def own_turn_def deliver_def)
  next
    case 4
    then show ?thesis
      using go [of "Recv i"] i h by (auto simp: patient_turn_def patient_def own_turn_def)
  next
    case 5
    then show ?thesis
      using go [of "Poll i"] i h c(1) by (auto simp: patient_turn_def patient_def own_turn_def client_poll_def)
  next
    case 6
    then show ?thesis
      using go [of "Type i"] i h c(2) by (auto simp: patient_turn_def patient_def own_turn_def type_name_def)
  qed
qed

interpretation ft: program "patient_turn files room" "files_inv files room nss" "\<lambda>_ _ _. False" files_idle "files_bound room" calm 0 for files room nss
proof
  fix m a r
  assume "files_inv files room nss m" "patient_turn files room a m = Some r"
  then show "outcome (files_inv files room nss) (\<lambda>_ _. False) r"
    by (rule patient_turn_keeps)
next
  fix m a m'
  assume "files_inv files room nss m" "patient_turn files room a m = Some (Ret () m')"
  then show "if calm a then files_bound room m' < files_bound room m else files_bound room m' \<le> files_bound room m + 0"
    using file_turn_lowers [of files room a m m'] by (auto simp: files_inv_def dest: patient_turnD)
next
  fix m
  assume "files_inv files room nss m" "\<not> files_idle m"
  then show "\<exists>a r. calm a \<and> patient_turn files room a m = Some r"
    using client_goes_on by (auto simp: files_idle_def in_set_conv_nth)
qed

lemma files_start_inv:
  assumes "list_all (list_all (fair files room)) nss"
  shows "files_inv files room nss (files_start nss)"
proof -
  have "fclient_ok files True ns (new_fclient ns)" for ns
    by (intro fclient_okI [of _ "[]" "[]"]) (simp_all add: new_fclient_def asking_def received_def texts_def still_def)
  then show ?thesis
    using assms by (simp add: files_inv_def files_start_def pending_ok_def)
qed


text \<open>Nobody has left.\<close>

definition all_stay :: "fserver \<Rightarrow> bool" where
  "all_stay m = list_all (\<lambda>c. fc_link c \<noteq> L_Gone) (fs_clients m)"


lemma all_stay_more [simp]:
  "all_stay (m\<lparr>fs_out := s\<rparr>) = all_stay m" "all_stay (m\<lparr>fs_edge := b\<rparr>) = all_stay m" "all_stay (m\<lparr>fs_pending := q\<rparr>) = all_stay m"
  "all_stay (m\<lparr>fs_alive := b\<rparr>) = all_stay m"
  by (simp_all add: all_stay_def)






section \<open>Two connections at a time\<close>

text \<open>A client that waits to be accepted and has nothing to print.\<close>

fun is_connect :: "fagent \<Rightarrow> bool" where
  "is_connect (Connect i) = True"
| "is_connect _ = False"

definition waits :: "fclient \<Rightarrow> bool" where
  "waits c \<longleftrightarrow> fc_link c = L_Pending \<and> fc_flight c = [] \<and> fc_in c = [] \<and> fc_out c = [] \<and> (fc_edge c \<or> fc_drain c \<longrightarrow> fc_eof c)"

definition waiting :: "nat \<Rightarrow> fserver \<Rightarrow> bool" where
  "waiting b m \<longleftrightarrow> \<not> fs_edge m \<and> b < length (fs_clients m) \<and> waits (fs_clients m ! b)"

lemma waiting_upd:
  "waiting b m \<Longrightarrow> (i = b \<Longrightarrow> waits (f (fs_clients m ! b))) \<Longrightarrow> waiting b (upd_fc i f m)"
  by (cases "i = b") (simp_all add: waiting_def upd_fc_def)

lemma waiting_more [simp]:
  "waiting b (m\<lparr>fs_out := s\<rparr>) = waiting b m" "waiting b (m\<lparr>fs_alive := l\<rparr>) = waiting b m"
  by (simp_all add: waiting_def)

lemma waiting_own:
  assumes "waiting b m" "own_turn i f m = Some (Ret () m')" "\<And>c c'. waits c \<Longrightarrow> f c = Some c' \<Longrightarrow> waits c'"
  shows "waiting b m'"
proof -
  obtain c' where "f (fs_clients m ! i) = Some c'" "m' = upd_fc i (\<lambda>_. c') m"
    using assms(2) by (auto simp: own_turn_def split: if_splits)
  moreover have "waits (fs_clients m ! b)"
    using assms(1) by (simp add: waiting_def)
  ultimately show ?thesis
    using waiting_upd [OF assms(1), of i "\<lambda>_. c'"] assms(3) by blast
qed

lemma waits_own:
  "waits c \<Longrightarrow> type_name c = Some c' \<Longrightarrow> waits c'" "waits c \<Longrightarrow> client_input c = Some c' \<Longrightarrow> waits c'"
  "waits c \<Longrightarrow> deliver alive k c = Some c' \<Longrightarrow> waits c'" "waits c \<Longrightarrow> client_poll c = Some c' \<Longrightarrow> waits c'"
  "waits c \<Longrightarrow> fc_drain c \<Longrightarrow> waits (client_recv c)"
  by (auto simp: waits_def type_name_def client_input_def deliver_def client_poll_def client_recv_def Let_def split: if_splits list.splits prod.splits)

lemma waiting_turn:
  assumes "file_turn files room a m = Some (Ret () m')" "\<not> is_connect a" "waiting b m"
  shows "waiting b m'"
proof (cases a)
  case Accept
  then show ?thesis
    using assms by (simp add: waiting_def)
next
  case (Input i)
  then obtain c where "client_input (fs_clients m ! i) = Some c" "m' = upd_fc i (\<lambda>_. c) m"
    using assms(1) by (auto split: if_splits option.splits)
  moreover have "waits (fs_clients m ! b)"
    using assms(3) by (simp add: waiting_def)
  ultimately show ?thesis
    using waiting_upd [OF assms(3), of i "\<lambda>_. c"] waits_own(2) by blast
next
  case (Serve i reset)
  then have "i \<noteq> b" "serve_one files room reset i m = Ret () m'"
    using assms by (auto simp: client_of_def waiting_def waits_def split: if_splits)
  then show ?thesis
    using assms(3) by (auto simp: serve_one_def Let_def intro!: waiting_upd split: if_splits option.splits)
next
  case (Type i)
  have "own_turn i type_name m = Some (Ret () m')"
    using assms(1) Type by simp
  then show ?thesis
    by (rule waiting_own [OF assms(3)]) (auto dest: waits_own(1) split: if_splits)
next
  case (Deliver i k)
  have "own_turn i (\<lambda>c. if here c then deliver (fs_alive m) k c else None) m = Some (Ret () m')"
    using assms(1) Deliver by simp
  then show ?thesis
    by (rule waiting_own [OF assms(3)]) (auto dest: waits_own(3) split: if_splits)
next
  case (Poll i)
  have "own_turn i (\<lambda>c. if here c then client_poll c else None) m = Some (Ret () m')"
    using assms(1) Poll by simp
  then show ?thesis
    by (rule waiting_own [OF assms(3)]) (auto dest: waits_own(4) split: if_splits)
next
  case (Recv i)
  have "own_turn i (\<lambda>c. if here c \<and> fc_drain c then Some (client_recv c) else None) m = Some (Ret () m')"
    using assms(1) Recv by simp
  then show ?thesis
    by (rule waiting_own [OF assms(3)]) (auto dest: waits_own(5) split: if_splits)
next
  case (Quit i)
  have "own_turn i (\<lambda>c. if fc_link c = L_Linked then Some (c\<lparr>fc_link := L_Gone\<rparr>) else None) m = Some (Ret () m')"
    using assms(1) Quit by simp
  then show ?thesis
    by (rule waiting_own [OF assms(3)]) (auto simp: waits_def split: if_splits)
qed (use assms in simp)

text \<open>
  Of two clients that connect before the server has come to accept, only one is served: the other one gets nothing until somebody
  else connects.
\<close>

theorem second_client_waits:
  assumes "list_all (list_all (fair files room)) nss" "a < length nss" "b < length nss" "a \<noteq> b" "list_all (\<lambda>x. \<not> is_connect x) as"
    "run (patient_turn files room) ([Connect a, Connect b, Accept] @ as) (Ret () (files_start nss)) r"
  shows "\<exists>m. r = Ret () m \<and> fc_link (fs_clients m ! b) = L_Pending \<and> fc_out (fs_clients m ! b) = []"
proof -
  note s = files_start_inv [OF assms(1)]
  obtain m where m: "r = Ret () m"
    using ft.always [OF assms(6), of nss] s by (cases r) auto
  obtain r1 where r1: "run (patient_turn files room) [Connect a, Connect b, Accept] (Ret () (files_start nss)) r1" "run (patient_turn files room) as r1 r"
    using run_appendD [OF assms(6)] by blast
  let ?m1 = "upd_fc a (\<lambda>c. c\<lparr>fc_link := L_Pending\<rparr>) ((files_start nss)\<lparr>fs_pending := [a], fs_edge := True\<rparr>)"
  let ?m2 = "upd_fc b (\<lambda>c. c\<lparr>fc_link := L_Pending\<rparr>) (?m1\<lparr>fs_pending := [a, b], fs_edge := True\<rparr>)"
  have fresh: "fs_clients (files_start nss) ! i = new_fclient (nss ! i)" if "i < length nss" for i
    using that by (simp add: files_start_def)
  have f: "fs_alive (files_start nss)" "fs_pending (files_start nss) = []" "length (fs_clients (files_start nss)) = length nss"
    by (simp_all add: files_start_def)
  have t1: "patient_turn files room (Connect a) (files_start nss) = Some (Ret () ?m1)"
    using assms(2) f fresh by (simp add: patient_turn_def patient_def client_of_def new_fclient_def)
  have t2: "patient_turn files room (Connect b) ?m1 = Some (Ret () ?m2)"
    using assms(2-4) f fresh by (simp add: patient_turn_def patient_def client_of_def new_fclient_def upd_fc_def)
  have t3: "patient_turn files room Accept ?m2 = Some (Ret () (accept_one ?m2))"
    using f by (simp add: patient_turn_def patient_def upd_fc_def)
  have "waiting b (accept_one ?m2)"
    using assms(2-4) f fresh by (simp add: accept_one_def upd_fc_def waiting_def waits_def new_fclient_def)
  moreover have "r1 = Ret () (accept_one ?m2)"
    using r1(1) by (simp add: run_Cons t1 t2 t3 del: file_turn.simps)
  ultimately obtain m1 where m1: "r1 = Ret () m1" "waiting b m1"
    by blast
  have "waiting b m"
  proof (rule ft.along [OF r1(2) [unfolded m m1(1)], of nss])
    show "files_inv files room nss m1"
      using ft.always [OF r1(1), of nss] s m1(1) by simp
    show "waiting b w'" if "x \<in> set as" "waiting b w" "patient_turn files room x w = Some (Ret () w')" for x w w'
      using waiting_turn [OF conjunct2 [OF patient_turnD [OF that(3)]] _ that(2)] that(1) assms(5) by (simp add: list_all_iff)
  qed (rule m1(2))
  then show ?thesis
    using m by (simp add: waiting_def waits_def)
qed

section \<open>Examples\<close>

definition two_files :: "string \<Rightarrow> string option" where
  "two_files n = (if n = ''a'' then Some ''hello'' else if n = ''b'' then Some ''world'' else None)"

definition two_users :: "string list list" where
  "two_users = [[''a'', ''b''], [''b'']]"

lemma two_users_fair: "list_all (list_all (fair two_files 100)) two_users"
  by code_simp






lemma second_client_waits_witness:
  "\<exists>r m. run (patient_turn two_files 100) ([Connect 0, Connect 1, Accept] @ [Type 1, Input 1]) (Ret () (files_start two_users)) r
     \<and> r = Ret () m \<and> fc_out (fs_clients m ! 1) = []"
proof -
  have "case follow (patient_turn two_files 100) ([Connect 0, Connect 1, Accept] @ [Type 1, Input 1]) (Ret () (files_start two_users)) of Some r \<Rightarrow> True | None \<Rightarrow> False"
    by code_simp
  then obtain r where r: "run (patient_turn two_files 100) ([Connect 0, Connect 1, Accept] @ [Type 1, Input 1]) (Ret () (files_start two_users)) r"
    by (auto simp: run_follow split: option.splits)
  have "\<exists>m. r = Ret () m \<and> fc_link (fs_clients m ! 1) = L_Pending \<and> fc_out (fs_clients m ! 1) = []"
    using second_client_waits [OF two_users_fair _ _ _ _ r] by (simp add: two_users_def)
  then show ?thesis
    using r by blast
qed

section \<open>What goes wrong with one name\<close>

text \<open>A file that cannot be opened is undefined behaviour of the server; an empty line ends the input of the client.\<close>

lemma missing_file_undefined:
  assumes "fs_alive m" "i < length (fs_clients m)" "fc_link (fs_clients m ! i) = L_Linked" "fc_up (fs_clients m ! i) \<noteq> []"
    "files (c_str (take (BUFSIZE - 1) (fc_up (fs_clients m ! i)))) = None"
  shows "file_turn files room (Serve i reset) m = Some Undef"
  using assms by (simp add: client_of_def serve_one_def Let_def BUFSIZE_def)

lemma empty_line_ends_input:
  assumes "list_all is_blank (fc_typed c)"
  shows "client_input c = Some (c\<lparr>fc_typed := [], fc_key := False, fc_stdin := False\<rparr>)"
proof -
  have "scan_word (fc_typed c) = ([], [])"
    using assms by (simp add: scan_word_def Let_def list_all_iff flip: dropWhile_eq_Nil_conv)
  then show ?thesis
    by (simp add: client_input_def c_str_def BUFSIZE_def)
qed

text \<open>A user who types a second name before the first is read: the server takes the two for one.\<close>

lemma impatient_user_undefined:
  "\<exists>as. run (file_turn two_files 100) as (Ret () (files_start two_users)) Undef"
proof (rule exI)
  show "run (file_turn two_files 100) [Connect 0, Accept, Type 0, Input 0, Type 0, Input 0, Serve 0 False]
      (Ret () (files_start two_users)) Undef"
    unfolding run_follow by code_simp
qed

end
