(* ===== verification/Pool_Events.thy ===== *)
theory Pool_Events
  imports Process_Pool Posix_Io
begin

text \<open>
  The helpers of lib/processpool.hh: descriptors and their flags, what an \<open>epoll\<close> descriptor watches, the pipe
  through which the signal handler passes the signals on to the event loop, and the single instance of the pool.
\<close>

unbundle bit_operations_syntax

section \<open>Descriptors\<close>

definition O_NONBLOCK :: "32 word" where "O_NONBLOCK = 0x800"
definition EPOLLIN :: "32 word" where "EPOLLIN = 1"
definition EPOLLET :: "32 word" where "EPOLLET = 0x80000000"
definition EAGAIN :: int where "EAGAIN = 11"
definition EEXIST :: int where "EEXIST = 17"

text \<open>
  The open descriptors, their flags, the events that are watched (of an \<open>epoll\<close> descriptor and another one), \<open>errno\<close>, and the
  bytes in the signal pipe with its capacity.
\<close>

record kern =
  kn_open :: "int set"
  kn_flags :: "int \<Rightarrow> 32 word"
  kn_watch :: "int \<times> int \<Rightarrow> 32 word option"
  kn_errno :: int
  kn_pipe :: string
  kn_room :: nat

definition set_kn_errno :: "int \<Rightarrow> ('z kern_scheme, unit) prog" where
  "set_kn_errno e = modifyp (\<lambda>k. k\<lparr>kn_errno := e\<rparr>)"

definition fcntl_getfl :: "int \<Rightarrow> ('z kern_scheme, 32 word) prog" where
  "fcntl_getfl fd k = (if fd \<in> kn_open k then Ret (kn_flags k fd) k else Ret (- 1) (k\<lparr>kn_errno := EBADF\<rparr>))"

definition fcntl_setfl :: "int \<Rightarrow> 32 word \<Rightarrow> ('z kern_scheme, unit) prog" where
  "fcntl_setfl fd fl k = Ret () (if fd \<in> kn_open k then k\<lparr>kn_flags := (kn_flags k)(fd := fl)\<rparr> else k\<lparr>kn_errno := EBADF\<rparr>)"

definition epoll_add :: "int \<Rightarrow> int \<Rightarrow> 32 word \<Rightarrow> ('z kern_scheme, unit) prog" where
  "epoll_add epollfd fd events k = Ret ()
     (if epollfd \<notin> kn_open k \<or> fd \<notin> kn_open k then k\<lparr>kn_errno := EBADF\<rparr>
      else if kn_watch k (epollfd, fd) \<noteq> None then k\<lparr>kn_errno := EEXIST\<rparr>
      else k\<lparr>kn_watch := (kn_watch k)((epollfd, fd) := Some events)\<rparr>)"

definition epoll_del :: "int \<Rightarrow> int \<Rightarrow> ('z kern_scheme, unit) prog" where
  "epoll_del epollfd fd k = Ret ()
     (if epollfd \<notin> kn_open k \<or> fd \<notin> kn_open k then k\<lparr>kn_errno := EBADF\<rparr>
      else if kn_watch k (epollfd, fd) = None then k\<lparr>kn_errno := ENOENT\<rparr>
      else k\<lparr>kn_watch := (kn_watch k)((epollfd, fd) := None)\<rparr>)"

text \<open>A descriptor that is closed is no longer watched.\<close>

definition close_fd :: "int \<Rightarrow> ('z kern_scheme, unit) prog" where
  "close_fd fd k = Ret ()
     (if fd \<in> kn_open k then k\<lparr>kn_open := kn_open k - {fd}, kn_watch := (\<lambda>(e, f). if e = fd \<or> f = fd then None else kn_watch k (e, f))\<rparr>
      else k\<lparr>kn_errno := EBADF\<rparr>)"

definition setnonblocking :: "int \<Rightarrow> ('z kern_scheme, 32 word) prog" where
  "setnonblocking fd = bindp (fcntl_getfl fd) (\<lambda>option. thenp (fcntl_setfl fd (option OR O_NONBLOCK)) (retp option))"

definition addfd :: "int \<Rightarrow> int \<Rightarrow> ('z kern_scheme, unit) prog" where
  "addfd epollfd fd = thenp (epoll_add epollfd fd (EPOLLIN OR EPOLLET)) (thenp (setnonblocking fd) (retp ()))"

definition removefd :: "int \<Rightarrow> int \<Rightarrow> ('z kern_scheme, unit) prog" where
  "removefd epollfd fd = thenp (epoll_del epollfd fd) (close_fd fd)"

section \<open>Signals as events\<close>

text \<open>An \<open>int\<close> in memory, the low byte first.\<close>

definition int_bytes :: "int \<Rightarrow> string" where
  "int_bytes i = map (\<lambda>k. char_of (nat (i mod 2 ^ 32) div 256 ^ k)) [0..<4]"

fun bytes_ints :: "string \<Rightarrow> int list" where
  "bytes_ints (a # b # c # d # s) =
     int32 (int (of_char a + 256 * of_char b + 256 ^ 2 * of_char c + 256 ^ 3 * of_char d :: nat)) # bytes_ints s"
| "bytes_ints _ = []"

text \<open>The socket of the handler does not block: when it is full, \<open>send\<close> fails.\<close>

definition send_pipe :: "string \<Rightarrow> ('z kern_scheme, unit) prog" where
  "send_pipe bs k = Ret () (if length (kn_pipe k) + length bs \<le> kn_room k then k\<lparr>kn_pipe := kn_pipe k @ bs\<rparr> else k\<lparr>kn_errno := EAGAIN\<rparr>)"

definition sig_handler :: "int \<Rightarrow> ('z kern_scheme, unit) prog" where
  "sig_handler sig = bindp (getsp kn_errno) (\<lambda>olderr. thenp (send_pipe (int_bytes sig)) (set_kn_errno olderr))"

fun handle_all :: "int list \<Rightarrow> ('z kern_scheme, unit) prog" where
  "handle_all [] = retp ()"
| "handle_all (s # ss) = thenp (sig_handler s) (handle_all ss)"

text \<open>The read of the loops: an array of 1024 ints; None when there is nothing.\<close>

definition MAX_SIGNALS :: nat where "MAX_SIGNALS = 1024"

definition recv_signals :: "('z kern_scheme, int list option) prog" where
  "recv_signals k =
     (let bs = take (4 * MAX_SIGNALS) (kn_pipe k); k' = k\<lparr>kn_pipe := drop (4 * MAX_SIGNALS) (kn_pipe k)\<rparr> in
      if bs = [] then Ret None (k\<lparr>kn_errno := EAGAIN\<rparr>) else Ret (Some (bytes_ints bs)) k')"

section \<open>The instance\<close>

text \<open>\<open>create\<close> makes the pool once; later calls return it whatever their arguments. The destructor does not forget the instance.\<close>

definition create :: "nat \<Rightarrow> (int \<times> int \<times> int) option list \<Rightarrow> ppool option \<Rightarrow> (ppool, ppool option) prog" where
  "create process_number forks inst =
     (case inst of None \<Rightarrow> thenp (pool_create process_number forks) (getsp Some) | Some p \<Rightarrow> retp inst)"

definition pool_delete :: "(ppool, unit) prog" where
  "pool_delete = modifyp (\<lambda>p. p\<lparr>pp_process := []\<rparr>)"

section \<open>What they do\<close>

lemma int_bytes_length [simp]: "length (int_bytes i) = 4"
  by (simp add: int_bytes_def)

lemma bytes_nat:
  fixes n :: nat
  assumes "n < 256 ^ 4"
  shows "n mod 256 + 256 * (n div 256 mod 256) + 256 ^ 2 * (n div 256 ^ 2 mod 256) + 256 ^ 3 * (n div 256 ^ 3 mod 256) = n"
proof -
  have d: "n div 256 ^ 2 = n div 256 div 256" "n div 256 ^ 3 = n div 256 div 256 div 256"
    by (simp_all add: power2_eq_square power3_eq_cube flip: div_mult2_eq)
  define a b c where abc: "a = n div 256" "b = a div 256" "c = b div 256"
  have "c = n div 256 ^ 3"
    by (simp add: abc d)
  then have "c mod 256 = c"
    using assms by (simp add: less_mult_imp_div_less)
  moreover have "n = 256 * a + n mod 256" "a = 256 * b + a mod 256" "b = 256 * c + b mod 256"
    unfolding abc by simp_all
  ultimately show ?thesis
    unfolding d abc(1) [symmetric] abc(2) [symmetric] abc(3) [symmetric] by (simp add: power2_eq_square power3_eq_cube)
qed

lemma int_bytes_eq:
  "int_bytes i = (let n = nat (i mod 2 ^ 32) in [char_of n, char_of (n div 256), char_of (n div 256 ^ 2), char_of (n div 256 ^ 3)])"
proof -
  have "[0..<4] = [0, 1, 2, 3 :: nat]"
    by code_simp
  then show ?thesis
    by (simp add: int_bytes_def Let_def)
qed

lemma bytes_ints_Cons:
  assumes "- (2 ^ 31) \<le> i" "i < 2 ^ 31"
  shows "bytes_ints (int_bytes i @ s) = i # bytes_ints s"
proof -
  define n where "n = nat (i mod 2 ^ 32)"
  have n: "n < 256 ^ 4" "int n = i mod 2 ^ 32"
    by (simp_all add: n_def nat_less_iff)
  have "int32 (int n) = i"
    using int32_id [of i] assms by (simp add: n(2) int32_def mod_simps)
  moreover have "int_bytes i = [char_of n, char_of (n div 256), char_of (n div 256 ^ 2), char_of (n div 256 ^ 3)]"
    by (simp only: int_bytes_eq n_def Let_def)
  moreover have "n div 16777216 mod 256 = n div 16777216"
    using n(1) by (simp add: less_mult_imp_div_less)
  ultimately show ?thesis
    using bytes_nat [OF n(1)] by (simp del: of_nat_add of_nat_mult)
qed

lemma bytes_ints_concat:
  "\<forall>i\<in>set sigs. - (2 ^ 31) \<le> i \<and> i < 2 ^ 31 \<Longrightarrow> bytes_ints (concat (map int_bytes sigs)) = sigs"
proof (induction sigs)
  case (Cons i sigs)
  then show ?case
    using bytes_ints_Cons [of i "concat (map int_bytes sigs)"] by simp
qed simp

lemma length_bytes [simp]: "length (concat (map int_bytes sigs)) = 4 * length sigs"
  by (induction sigs) simp_all

lemma bytes_Nil: "concat (map int_bytes sigs) = [] \<longleftrightarrow> sigs = []"
  using length_bytes [of sigs] by (metis length_0_conv mult_eq_0_iff zero_neq_numeral)

lemma take_bytes: "take (4 * n) (concat (map int_bytes sigs)) = concat (map int_bytes (take n sigs))"
proof (induction sigs arbitrary: n)
  case (Cons i sigs)
  then show ?case
    by (cases n) simp_all
qed simp

lemma drop_bytes: "drop (4 * n) (concat (map int_bytes sigs)) = concat (map int_bytes (drop n sigs))"
proof (induction sigs arbitrary: n)
  case (Cons i sigs)
  then show ?case
    by (cases n) simp_all
qed simp

lemma sig_handler_eq:
  "sig_handler s k = Ret () (if length (kn_pipe k) + 4 \<le> kn_room k then k\<lparr>kn_pipe := kn_pipe k @ int_bytes s\<rparr> else k)"
  by (simp add: sig_handler_def send_pipe_def set_kn_errno_def bindp_unfold thenp_unfold)

text \<open>The handler keeps what there is room for, in order; later signals leave no trace.\<close>

lemma handle_all_eq:
  assumes "kn_pipe k = concat (map int_bytes ss)"
  shows "handle_all sigs k = Ret () (k\<lparr>kn_pipe := concat (map int_bytes (ss @ take (kn_room k div 4 - length ss) sigs))\<rparr>)"
  using assms
proof (induction sigs arbitrary: k ss)
  case (Cons s sigs)
  show ?case
  proof (cases "length (kn_pipe k) + 4 \<le> kn_room k")
    case True
    then have n: "kn_room k div 4 - length ss = Suc (kn_room k div 4 - length (ss @ [s]))"
      using Cons.prems by simp
    show ?thesis
      using Cons.IH [of "k\<lparr>kn_pipe := kn_pipe k @ int_bytes s\<rparr>" "ss @ [s]"] Cons.prems True
      by (simp add: sig_handler_eq thenp_unfold n)
  next
    case False
    then have "kn_room k div 4 - length ss = 0"
      using Cons.prems by simp
    then show ?thesis
      using Cons.IH [of k ss] Cons.prems False by (simp add: sig_handler_eq thenp_unfold)
  qed
qed simp

text \<open>
  C33: signals come out of the pipe in the order in which they came, each once, up to what the socket and the array hold; the handler
  leaves \<open>errno\<close> and everything else as it was.
\<close>

theorem signals_round_trip:
  fixes k :: "'z kern_scheme"
  assumes "kn_pipe k = []" "4 \<le> kn_room k" "sigs \<noteq> []" "\<forall>i\<in>set sigs. - (2 ^ 31) \<le> i \<and> i < 2 ^ 31"
  shows "bindp (handle_all sigs) (\<lambda>_. recv_signals) k =
    Ret (Some (take (min MAX_SIGNALS (kn_room k div 4)) sigs))
      (k\<lparr>kn_pipe := concat (map int_bytes (drop MAX_SIGNALS (take (kn_room k div 4) sigs)))\<rparr>)"
proof -
  let ?s = "take (kn_room k div 4) sigs"
  have h: "handle_all sigs k = Ret () (k\<lparr>kn_pipe := concat (map int_bytes ?s)\<rparr>)"
    using handle_all_eq [of k "[]"] assms(1) by simp
  have "take MAX_SIGNALS ?s \<noteq> []"
    using assms(2,3) by (auto simp: MAX_SIGNALS_def)
  moreover have "\<forall>i\<in>set (take MAX_SIGNALS ?s). - (2 ^ 31) \<le> i \<and> i < 2 ^ 31"
    using assms(4) by (auto dest!: in_set_takeD)
  ultimately have "recv_signals (k\<lparr>kn_pipe := concat (map int_bytes ?s)\<rparr>) =
      Ret (Some (take MAX_SIGNALS ?s)) (k\<lparr>kn_pipe := concat (map int_bytes (drop MAX_SIGNALS ?s))\<rparr>)"
    using bytes_ints_concat [of "take MAX_SIGNALS ?s"]
    by (simp add: recv_signals_def Let_def take_bytes drop_bytes bytes_Nil del: take_take take_eq_Nil concat_eq_Nil_conv)
  then show ?thesis
    by (simp add: bindp_unfold h)
qed

definition quiet_kern :: kern where
  "quiet_kern = \<lparr>kn_open = {3, 4}, kn_flags = (\<lambda>_. 2), kn_watch = (\<lambda>_. None), kn_errno = 4, kn_pipe = [], kn_room = 8\<rparr>"

lemma signals_round_trip_witness:
  "bindp (handle_all [SIGCHLD, SIGTERM, SIGINT]) (\<lambda>_. recv_signals) quiet_kern = Ret (Some [17, 15]) quiet_kern"
  using signals_round_trip [of quiet_kern "[SIGCHLD, SIGTERM, SIGINT]"]
  by (simp add: quiet_kern_def SIGCHLD_def SIGTERM_def SIGINT_def MAX_SIGNALS_def)

text \<open>A descriptor that is added is watched for edges and does not block; what else is set stays. Removing it undoes that.\<close>

lemma addfd_watches:
  assumes "epollfd \<in> kn_open k" "fd \<in> kn_open k" "kn_watch k (epollfd, fd) = None"
  shows "addfd epollfd fd k = Ret () (k\<lparr>kn_watch := (kn_watch k)((epollfd, fd) \<mapsto> EPOLLIN OR EPOLLET),
    kn_flags := (kn_flags k)(fd := kn_flags k fd OR O_NONBLOCK)\<rparr>)"
  using assms by (simp add: addfd_def epoll_add_def setnonblocking_def fcntl_getfl_def fcntl_setfl_def bindp_unfold thenp_unfold)

lemma removefd_forgets:
  assumes "epollfd \<in> kn_open k" "fd \<in> kn_open k" "epollfd \<noteq> fd"
  shows "\<exists>k'. removefd epollfd fd k = Ret () k' \<and> kn_open k' = kn_open k - {fd} \<and> kn_watch k' (e, fd) = None
    \<and> (f \<noteq> fd \<and> e \<noteq> fd \<longrightarrow> kn_watch k' (e, f) = kn_watch k (e, f))"
  using assms by (auto simp: removefd_def epoll_del_def close_fd_def thenp_unfold)

lemma create_once:
  "create n forks (Some p) q = Ret (Some p) q"
  "create n forks None q = (case pool_create n forks q of Ret u r \<Rightarrow> Ret (Some r) r | Exit k r \<Rightarrow> Exit k r | Undef \<Rightarrow> Undef)"
  by (simp_all add: create_def thenp_unfold split: result.splits)

end
