(* ===== verification/File_Conn.thy ===== *)
theory File_Conn
  imports Pool_Events
begin

text \<open>
  net/file_server_procpool.cc: the task class FileConn that the file server gives to the process pool. A request is the name of
  a file; the answer is the file. What \<open>recv\<close> returns, whether \<open>fstat\<close> succeeds and how much the socket takes
  is the input; \<open>nk_sent\<close> is what has been sent on each socket. What goes to standard error is left out.
\<close>

section \<open>Connections\<close>

record conn =
  cn_epollfd :: int
  cn_sockfd :: int
  cn_address :: string

text \<open>The buffer is part of the object; a byte that was never written is None.\<close>

record file_conn = conn +
  cn_inbuf :: "char option list"

record net_kern = kern +
  nk_sent :: "int \<Rightarrow> string"

definition bufsize :: nat where "bufsize = 1024"

definition errinfo :: string where "errinfo = ''No such file'' @ [NL]"

definition conn_init :: "int \<Rightarrow> int \<Rightarrow> string \<Rightarrow> 'z conn_scheme \<Rightarrow> 'z conn_scheme" where
  "conn_init epfd sockfd addr c = c\<lparr>cn_epollfd := epfd, cn_sockfd := sockfd, cn_address := addr\<rparr>"

definition sock_send :: "int \<Rightarrow> string \<Rightarrow> (net_kern, unit) prog" where
  "sock_send fd bs = modifyp (\<lambda>k. k\<lparr>nk_sent := (nk_sent k)(fd := nk_sent k fd @ bs)\<rparr>)"

text \<open>The string at the start of the buffer; None when it reads a byte that was never written, or runs over the end.\<close>

fun stored_name :: "char option list \<Rightarrow> string option" where
  "stored_name [] = None"
| "stored_name (None # s) = None"
| "stored_name (Some c # s) = (if c = NUL then Some [] else map_option ((#) c) (stored_name s))"

section \<open>A request\<close>

definition received_into :: "string \<Rightarrow> char option list \<Rightarrow> char option list" where
  "received_into bs inbuf = map Some (take bufsize bs) @ drop (length (take bufsize bs)) inbuf"

definition conn_process :: "(string \<Rightarrow> string option) \<Rightarrow> nat \<Rightarrow> string option \<Rightarrow> bool \<Rightarrow> file_conn \<Rightarrow> (net_kern, bool \<times> file_conn) prog" where
  "conn_process files room recvd fstat_ok c =
     (case recvd of
        None \<Rightarrow> retp (False, c)
      | Some bs \<Rightarrow>
          if bs = [] then retp (False, c)
          else let c' = c\<lparr>cn_inbuf := received_into bs (cn_inbuf c)\<rparr> in
            case stored_name (cn_inbuf c') of
              None \<Rightarrow> undefp
            | Some name \<Rightarrow>
                thenp (case files name of
                    None \<Rightarrow> sock_send (cn_sockfd c) errinfo
                  | Some content \<Rightarrow> if fstat_ok then sock_send (cn_sockfd c) (take room content) else retp ())
                  (retp (True, c')))"

definition cb_func :: "'z conn_scheme \<Rightarrow> (net_kern, unit) prog" where
  "cb_func c = thenp (sock_send (cn_sockfd c) (''Bye'' @ [NL])) (removefd (cn_epollfd c) (cn_sockfd c))"

text \<open>
  What the loop of a child does with the data events of a connection (the timers are in Process_Pool): when \<open>process\<close> returns false,
  \<open>cb_func\<close> follows.
\<close>

fun serve_conn :: "(string \<Rightarrow> string option) \<Rightarrow> nat \<Rightarrow> string option list \<Rightarrow> file_conn \<Rightarrow> (net_kern, file_conn) prog" where
  "serve_conn files room [] c = retp c"
| "serve_conn files room (r # rs) c =
     bindp (conn_process files room r True c) (\<lambda>(res, c').
       if res then serve_conn files room rs c' else thenp (cb_func c') (retp c'))"

section \<open>What is answered\<close>

definition answer :: "(string \<Rightarrow> string option) \<Rightarrow> nat \<Rightarrow> string \<Rightarrow> string" where
  "answer files room n = (case files n of None \<Rightarrow> errinfo | Some s \<Rightarrow> take room s)"

definition put_sent :: "int \<Rightarrow> string \<Rightarrow> net_kern \<Rightarrow> net_kern" where
  "put_sent fd s k = k\<lparr>nk_sent := (nk_sent k)(fd := nk_sent k fd @ s)\<rparr>"

lemma stored_name_NUL: "NUL \<notin> set n \<Longrightarrow> stored_name (map Some n @ Some NUL # s) = Some n"
  by (induction n) auto

lemma received_NUL: "NUL \<notin> set n \<Longrightarrow> length n < bufsize \<Longrightarrow> stored_name (received_into (n @ [NUL]) b) = Some n"
  by (simp add: received_into_def stored_name_NUL)

lemma process_answers:
  assumes "NUL \<notin> set n" "length n < bufsize"
  shows "conn_process files room (Some (n @ [NUL])) True c k =
    Ret (True, c\<lparr>cn_inbuf := received_into (n @ [NUL]) (cn_inbuf c)\<rparr>) (put_sent (cn_sockfd c) (answer files room n) k)"
  using received_NUL [OF assms] by (simp add: conn_process_def Let_def thenp_unfold sock_send_def answer_def put_sent_def split: option.split)

lemma put_sent_twice [simp]: "put_sent fd t (put_sent fd s k) = put_sent fd (s @ t) k"
  by (simp add: put_sent_def)

text \<open>
  A client that ends each name with a NUL gets the answers in the order of its requests, and a farewell when it has
  closed the connection, which is then closed and no longer watched.
\<close>

theorem conn_answers:
  assumes "list_all (\<lambda>n. NUL \<notin> set n \<and> length n < bufsize) names" "cn_epollfd c \<in> kn_open k" "cn_sockfd c \<in> kn_open k" "cn_epollfd c \<noteq> cn_sockfd c"
  shows "\<exists>c' k'. serve_conn files room (map (\<lambda>n. Some (n @ [NUL])) names @ [Some []]) c k = Ret c' k'
    \<and> nk_sent k' (cn_sockfd c) = nk_sent k (cn_sockfd c) @ concat (map (answer files room) names) @ ''Bye'' @ [NL]
    \<and> (\<forall>f. f \<noteq> cn_sockfd c \<longrightarrow> nk_sent k' f = nk_sent k f)
    \<and> kn_open k' = kn_open k - {cn_sockfd c} \<and> kn_watch k' (cn_epollfd c, cn_sockfd c) = None"
  using assms
proof (induction names arbitrary: c k)
  case Nil
  then show ?case
    by (auto simp: conn_process_def cb_func_def sock_send_def removefd_def epoll_del_def close_fd_def bindp_unfold thenp_unfold fun_upd_def)
next
  case (Cons n names)
  let ?c = "c\<lparr>cn_inbuf := received_into (n @ [NUL]) (cn_inbuf c)\<rparr>"
  let ?k = "put_sent (cn_sockfd c) (answer files room n) k"
  have k: "kn_open ?k = kn_open k" "nk_sent ?k (cn_sockfd c) = nk_sent k (cn_sockfd c) @ answer files room n"
    "f \<noteq> cn_sockfd c \<Longrightarrow> nk_sent ?k f = nk_sent k f" for f
    by (simp_all add: put_sent_def)
  obtain c' k' where "serve_conn files room (map (\<lambda>n. Some (n @ [NUL])) names @ [Some []]) ?c ?k = Ret c' k'"
    "nk_sent k' (cn_sockfd ?c) = nk_sent ?k (cn_sockfd ?c) @ concat (map (answer files room) names) @ ''Bye'' @ [NL]"
    "\<forall>f. f \<noteq> cn_sockfd ?c \<longrightarrow> nk_sent k' f = nk_sent ?k f"
    "kn_open k' = kn_open ?k - {cn_sockfd ?c}" "kn_watch k' (cn_epollfd ?c, cn_sockfd ?c) = None"
    using Cons.IH [of ?c ?k] Cons.prems k by auto
  then show ?case
    using Cons.prems process_answers [of n files room c k] by (simp add: bindp_unfold k)
qed

text \<open>
  Without the NUL the name goes on with what is in the buffer: the rest of an earlier one, or bytes that were never written.
\<close>

lemma conn_unterminated:
  assumes "NUL \<notin> set n" "NUL \<notin> set old" "n \<noteq> []" "length n \<le> length old" "length old < bufsize" "cn_inbuf c = map Some (old @ [NUL]) @ rest"
  shows "conn_process files room (Some n) True c k =
    Ret (True, c\<lparr>cn_inbuf := received_into n (cn_inbuf c)\<rparr>) (put_sent (cn_sockfd c) (answer files room (n @ drop (length n) old)) k)"
proof -
  have "received_into n (cn_inbuf c) = map Some (n @ drop (length n) old) @ Some NUL # rest"
    using assms(4-6) by (simp add: received_into_def drop_map)
  then have "stored_name (received_into n (cn_inbuf c)) = Some (n @ drop (length n) old)"
    using assms(1,2) stored_name_NUL [of "n @ drop (length n) old" rest] by (auto dest: in_set_dropD)
  then show ?thesis
    using assms(3) by (simp add: conn_process_def Let_def thenp_unfold sock_send_def answer_def put_sent_def split: option.split)
qed

lemma conn_first_unterminated:
  assumes "NUL \<notin> set n" "n \<noteq> []" "length n < bufsize" "cn_inbuf c = replicate bufsize None"
  shows "conn_process files room (Some n) fstat_ok c k = Undef"
proof -
  have "stored_name (map Some n @ None # b) = None" for b
    using assms(1) by (induction n) auto
  moreover have "received_into n (cn_inbuf c) = map Some n @ None # replicate (bufsize - length n - 1) None"
    using assms(3,4) by (simp add: received_into_def Suc_diff_Suc flip: replicate_Suc)
  ultimately show ?thesis
    using assms(2) by (simp add: conn_process_def Let_def)
qed

definition one_file_conn :: file_conn where
  "one_file_conn = \<lparr>cn_epollfd = 3, cn_sockfd = 4, cn_address = [], cn_inbuf = replicate bufsize None\<rparr>"

definition conn_kern :: net_kern where
  "conn_kern = \<lparr>kn_open = {3, 4}, kn_flags = (\<lambda>_. 2), kn_watch = (\<lambda>_. None), kn_errno = 4, kn_pipe = [], kn_room = 8, nk_sent = (\<lambda>_. [])\<rparr>"

lemma conn_answers_witness:
  "\<exists>c' k'. serve_conn [''a'' \<mapsto> ''hello''] 100 (map (\<lambda>n. Some (n @ [NUL])) [''a'', ''b'', ''a''] @ [Some []]) one_file_conn conn_kern = Ret c' k'
     \<and> nk_sent k' 4 = ''hello'' @ errinfo @ ''hello'' @ ''Bye'' @ [NL]"
proof -
  have "list_all (\<lambda>n. NUL \<notin> set n \<and> length n < bufsize) [''a'', ''b'', ''a'']"
    by (simp add: NUL_def bufsize_def)
  from conn_answers [OF this, of one_file_conn conn_kern "[''a'' \<mapsto> ''hello'']" 100] show ?thesis
    by (auto simp: one_file_conn_def conn_kern_def answer_def)
qed

end
