(* ===== verification/Echo_Server.thy ===== *)
theory Echo_Server
  imports Ulsp_Prelude "HOL-Library.Sublist"
begin

text \<open>
  net/echo_server_epoll.c: one server for TCP and UDP that sends back what it receives. The events of a round
  and what the network brings are steps; the bytes of a connection come out of \<open>recv\<close> in portions of any size, \<open>recv\<close>
  may fail, and \<open>send\<close> may take all of a portion, a part of it or nothing, or end the server with SIGPIPE.
\<close>

section \<open>The server\<close>

definition BUFSIZE :: nat where "BUFSIZE = 512"

text \<open>
  A connection: what can be received, whether the peer has finished, what was sent back; \<open>so_all\<close>, not in the program, is all that has
  arrived.
\<close>

record sock =
  so_in :: string
  so_eof :: bool
  so_open :: bool
  so_sent :: string
  so_all :: string

record echo =
  ec_alive :: bool
  ec_socks :: "int \<Rightarrow> sock option"
  ec_replies :: "string list"
  ec_out :: string

definition new_sock :: sock where
  "new_sock = \<lparr>so_in = [], so_eof = False, so_open = True, so_sent = [], so_all = []\<rparr>"

text \<open>
  What a call of \<open>recv\<close> does: it gives at most \<open>k + 1\<close> bytes of those that are there (none: the end of the stream, or EAGAIN),
  or it fails with another error. What \<open>send\<close> does with a portion: it takes the whole or, on a non-blocking socket, some bytes of
  it, none when it fails; or the connection is broken and SIGPIPE ends the server.
\<close>

datatype recv_does = Portion nat | Broken

datatype send_does = Whole | Part nat | Sigpipe

type_synonym call = "recv_does \<times> send_does"

definition smooth :: call where "smooth = (Portion (BUFSIZE - 2), Whole)"

text \<open>
  The loop over \<open>recv\<close> for an event: whether the server lives on, and the connection. The calls behind the list are smooth. The result
  of \<open>send\<close> is not looked at. At the end of the stream the descriptor is closed and the loop goes on: the next call fails, and the
  descriptor is closed once more.
\<close>

function echo_loop :: "call list \<Rightarrow> sock \<Rightarrow> bool \<times> sock" where
  "echo_loop plan s =
     (if \<not> so_open s then (True, s)
      else let (rc, sd) = (case plan of [] \<Rightarrow> smooth | x # _ \<Rightarrow> x) in
        case rc of
          Broken \<Rightarrow> (True, s\<lparr>so_open := False\<rparr>)
        | Portion k \<Rightarrow>
            if so_in s \<noteq> [] then
              let n = min (BUFSIZE - 1) (Suc k); bs = take n (so_in s); s = s\<lparr>so_in := drop n (so_in s)\<rparr> in
              (case sd of
                 Whole \<Rightarrow> echo_loop (tl plan) (s\<lparr>so_sent := so_sent s @ bs\<rparr>)
               | Part j \<Rightarrow> echo_loop (tl plan) (s\<lparr>so_sent := so_sent s @ take j bs\<rparr>)
               | Sigpipe \<Rightarrow> (False, s))
            else if so_eof s then echo_loop (tl plan) (s\<lparr>so_open := False\<rparr>)
            else (True, s))"
  by pat_completeness auto
termination
  by (relation "measure (\<lambda>(plan, s). length (so_in s) + (if so_open s then 1 else 0))") (auto simp: BUFSIZE_def)

declare echo_loop.simps [simp del]

text \<open>
  A datagram: the buffer is cleared and sent back whole. The length of the address is given as a pointer to it; the kernel
  takes \<open>addrlen\<close>, its low half, and refuses what is no length of an address.
\<close>

definition sendto_ok :: "int \<Rightarrow> bool" where
  "sendto_ok addrlen \<longleftrightarrow> 16 \<le> addrlen \<and> addrlen \<le> 128"

definition udp_reply :: "string \<Rightarrow> string" where
  "udp_reply d = (let r = take (BUFSIZE - 1) d in r @ replicate (BUFSIZE - 1 - length r) NUL)"

text \<open>
  The events, with the results of \<open>accept\<close>, \<open>recvfrom\<close> and of the calls of the loop; a failure of \<open>epoll_wait\<close>, which ends the server;
  bytes that arrive, and the end of a stream.
\<close>

datatype estep = E_Listen int | E_Udp "string option" | E_Conn int "call list" | E_Other | E_Fail | Arrive int string | Finish int

definition on_sock :: "int \<Rightarrow> (sock \<Rightarrow> bool \<times> sock) \<Rightarrow> echo \<Rightarrow> echo" where
  "on_sock fd f e = (case ec_socks e fd of None \<Rightarrow> e
     | Some s \<Rightarrow> let (alive, s') = f s in e\<lparr>ec_alive := alive, ec_socks := (ec_socks e)(fd \<mapsto> s')\<rparr>)"

fun echo_step :: "int \<Rightarrow> estep \<Rightarrow> echo \<Rightarrow> echo" where
  "echo_step addrlen (E_Listen connfd) e = (if connfd < 0 then e else e\<lparr>ec_socks := (ec_socks e)(connfd \<mapsto> new_sock)\<rparr>)"
| "echo_step addrlen (E_Udp d) e = (case d of None \<Rightarrow> e
     | Some bs \<Rightarrow> if bs \<noteq> [] \<and> sendto_ok addrlen then e\<lparr>ec_replies := ec_replies e @ [udp_reply bs]\<rparr> else e)"
| "echo_step addrlen (E_Conn fd plan) e = on_sock fd (echo_loop plan) e"
| "echo_step addrlen E_Other e = e\<lparr>ec_out := ec_out e @ ''sth else happened'' @ [NL]\<rparr>"
| "echo_step addrlen E_Fail e = e\<lparr>ec_alive := False\<rparr>"
| "echo_step addrlen (Arrive fd bs) e = on_sock fd (\<lambda>s. (True, if so_eof s then s else s\<lparr>so_in := so_in s @ bs, so_all := so_all s @ bs\<rparr>)) e"
| "echo_step addrlen (Finish fd) e = on_sock fd (\<lambda>s. (True, s\<lparr>so_eof := True\<rparr>)) e"

fun echo_steps :: "int \<Rightarrow> estep list \<Rightarrow> echo \<Rightarrow> echo" where
  "echo_steps addrlen [] e = e"
| "echo_steps addrlen (x # xs) e = (if ec_alive e then echo_steps addrlen xs (echo_step addrlen x e) else e)"

definition echo_start :: echo where
  "echo_start = \<lparr>ec_alive = True, ec_socks = (\<lambda>_. None), ec_replies = [], ec_out = []\<rparr>"

section \<open>What is sent back\<close>

text \<open>Calls whose \<open>send\<close> takes all, calls whose \<open>recv\<close> fails, and the events of a descriptor with only, and with such, calls.\<close>

definition whole :: "call \<Rightarrow> bool" where "whole c = (snd c = Whole)"

definition broken :: "call \<Rightarrow> bool" where "broken c = (fst c = Broken)"

fun whole_event :: "int \<Rightarrow> estep \<Rightarrow> bool" where
  "whole_event fd (E_Conn fd' plan) = (fd' = fd \<longrightarrow> list_all whole plan)"
| "whole_event fd _ = True"

fun broken_event :: "int \<Rightarrow> estep \<Rightarrow> bool" where
  "broken_event fd (E_Conn fd' plan) = (fd' = fd \<and> list_ex broken plan)"
| "broken_event fd _ = False"

text \<open>
  What a connection keeps, given that its sends were whole (\<open>W\<close>) and that a receive has failed (\<open>B\<close>): what was sent is,
  in order, of what was read, and what was read and what can be read is what has arrived.
\<close>

definition sock_ok :: "bool \<Rightarrow> bool \<Rightarrow> sock \<Rightarrow> bool" where
  "sock_ok W B s \<longleftrightarrow> (\<exists>rd. so_all s = rd @ so_in s \<and> subseq (so_sent s) rd \<and> (W \<longrightarrow> so_sent s = rd))
     \<and> (so_open s \<or> so_eof s \<or> B)"

lemma sock_ok_weaken: "sock_ok W B s \<Longrightarrow> (W' \<Longrightarrow> W) \<Longrightarrow> (B \<Longrightarrow> B') \<Longrightarrow> sock_ok W' B' s"
  unfolding sock_ok_def by blast

lemma sock_ok_portion:
  assumes "sock_ok W B s" "bs @ ys = so_in s" "subseq cs bs" "W' \<Longrightarrow> W \<and> cs = bs"
  shows "sock_ok W' B (s\<lparr>so_in := ys, so_sent := so_sent s @ cs\<rparr>)"
proof -
  obtain rd where rd: "so_all s = rd @ so_in s" "subseq (so_sent s) rd" "W \<longrightarrow> so_sent s = rd"
    using assms(1) unfolding sock_ok_def by blast
  have "so_all s = (rd @ bs) @ ys"
    using rd(1) assms(2) by simp
  moreover have "subseq (so_sent s @ cs) (rd @ bs)"
    using rd(2) assms(3) by (rule list_emb_append_mono)
  moreover have "W' \<longrightarrow> so_sent s @ cs = rd @ bs"
    using rd(3) assms(4) by simp
  ultimately have "\<exists>rd. so_all s = rd @ ys \<and> subseq (so_sent s @ cs) rd \<and> (W' \<longrightarrow> so_sent s @ cs = rd)"
    by blast
  then show ?thesis
    using assms(1) by (simp add: sock_ok_def)
qed

lemma echo_loop_ok:
  "sock_ok W B s \<Longrightarrow> sock_ok (W \<and> list_all whole plan) (B \<or> list_ex broken plan) (snd (echo_loop plan s))"
proof (induction plan s arbitrary: W rule: echo_loop.induct)
  case (1 plan s)
  define c where "c = (case plan of [] \<Rightarrow> smooth | x # _ \<Rightarrow> x)"
  obtain rc sd where c: "c = (rc, sd)" by (cases c)
  have all: "list_all whole plan \<Longrightarrow> sd = Whole \<and> list_all whole (tl plan)" "list_ex broken (tl plan) \<Longrightarrow> list_ex broken plan"
    "rc = Broken \<Longrightarrow> list_ex broken plan"
    using c unfolding c_def by (cases plan; simp add: whole_def broken_def smooth_def)+
  let ?W = "W \<and> list_all whole plan" and ?B = "B \<or> list_ex broken plan"
  have same: "sock_ok ?W ?B s"
    by (rule sock_ok_weaken [OF 1(4)]) simp_all
  show ?case
  proof (cases "so_open s")
    case False
    then show ?thesis
      using same by (simp add: echo_loop.simps)
  next
    case True
    note loop = echo_loop.simps [of plan s, unfolded c_def [symmetric] c]
    show ?thesis
    proof (cases rc)
      case Broken
      then show ?thesis
        using True all(3) same by (simp add: loop sock_ok_def)
    next
      case (Portion k)
      let ?n = "min (BUFSIZE - 1) (Suc k)"
      let ?bs = "take ?n (so_in s)" and ?s = "s\<lparr>so_in := drop ?n (so_in s)\<rparr>"
      show ?thesis
      proof (cases "so_in s = []")
        case False
        have sent: "sock_ok ?W B (?s\<lparr>so_sent := so_sent s @ cs\<rparr>)" if "subseq cs ?bs" "?W \<Longrightarrow> cs = ?bs" for cs
          using sock_ok_portion [OF 1(4), of ?bs "drop ?n (so_in s)" cs ?W] that by simp
        show ?thesis
        proof (cases sd)
          case Whole
          have "sock_ok (?W \<and> list_all whole (tl plan)) (B \<or> list_ex broken (tl plan)) (snd (echo_loop (tl plan) (?s\<lparr>so_sent := so_sent s @ ?bs\<rparr>)))"
            using 1(1) [OF _ c_def c [symmetric] Portion False refl refl refl Whole, where W = ?W] sent [of ?bs] True
            by (simp del: conj_assoc)
          then show ?thesis
            using True False Portion Whole all(1,2) by (simp add: loop Let_def) (erule sock_ok_weaken; blast)
        next
          case (Part j)
          have part: "subseq (take j ?bs) ?bs" "\<not> list_all whole plan"
            by (rule prefix_imp_subseq [OF take_is_prefix]) (use all(1) Part in auto)
          have "sock_ok (?W \<and> list_all whole (tl plan)) (B \<or> list_ex broken (tl plan)) (snd (echo_loop (tl plan) (?s\<lparr>so_sent := so_sent s @ take j ?bs\<rparr>)))"
            using 1(2) [OF _ c_def c [symmetric] Portion False refl refl refl Part, where W = ?W] sent [of "take j ?bs"] part True
            by (simp del: conj_assoc)
          then show ?thesis
            using True False Portion Part all(1,2) by (simp add: loop Let_def) (erule sock_ok_weaken; blast)
        next
          case Sigpipe
          have "sock_ok ?W ?B (?s\<lparr>so_sent := so_sent s @ []\<rparr>)"
            by (rule sock_ok_weaken [OF sent [of "[]"]]) (use all(1) Sigpipe in simp_all)
          then show ?thesis
            using True False Portion Sigpipe by (simp add: loop Let_def)
        qed
      next
        case empty: True
        then show ?thesis
          using True Portion same by (auto simp: loop echo_loop.simps [of _ "s\<lparr>so_open := False\<rparr>"] sock_ok_def)
      qed
    qed
  qed
qed

text \<open>An event without failures.\<close>

lemma echo_loop_drains:
  "so_open s \<Longrightarrow> list_all (\<lambda>c. whole c \<and> \<not> broken c) plan \<Longrightarrow>
     echo_loop plan s = (True, s\<lparr>so_in := [], so_sent := so_sent s @ so_in s, so_open := \<not> so_eof s\<rparr>)"
proof (induction plan s rule: echo_loop.induct)
  case (1 plan s)
  define c where "c = (case plan of [] \<Rightarrow> smooth | x # _ \<Rightarrow> x)"
  obtain k where c: "c = (Portion k, Whole)" "list_all (\<lambda>c. whole c \<and> \<not> broken c) (tl plan)"
    using 1(5) unfolding c_def by (cases plan; cases "fst (hd plan)") (auto simp: whole_def broken_def smooth_def)
  note loop = echo_loop.simps [of plan s, unfolded c_def [symmetric] c(1)]
  show ?case
  proof (cases "so_in s = []")
    case True
    then show ?thesis
      using 1(4) by (simp add: loop echo_loop.simps [of _ "s\<lparr>so_open := False\<rparr>"])
  next
    case False
    then show ?thesis
      using 1(1) [OF _ c_def c(1) [symmetric] refl False refl refl refl refl] 1(4) c(2) by (simp add: loop Let_def)
  qed
qed

definition socks_ok :: "int \<Rightarrow> bool \<Rightarrow> bool \<Rightarrow> echo \<Rightarrow> bool" where
  "socks_ok fd W B e \<longleftrightarrow> (case ec_socks e fd of None \<Rightarrow> True | Some s \<Rightarrow> sock_ok W B s)"

lemma on_sock_ok:
  assumes "socks_ok fd W B e" "\<And>s. sock_ok W B s \<Longrightarrow> fd' = fd \<Longrightarrow> sock_ok W' B' (snd (f s))" "W' \<Longrightarrow> W" "B \<Longrightarrow> B'"
  shows "socks_ok fd W' B' (on_sock fd' f e)"
proof (cases "ec_socks e fd'")
  case None
  then show ?thesis
    using assms sock_ok_weaken by (simp add: on_sock_def socks_ok_def split: option.splits)
next
  case (Some s)
  obtain b s' where s': "f s = (b, s')" by (cases "f s")
  show ?thesis
  proof (cases "fd' = fd")
    case True
    then show ?thesis
      using assms(1,2) Some s' assms(2) [of s] by (simp add: on_sock_def socks_ok_def)
  next
    case False
    then show ?thesis
      using assms(1) Some s' sock_ok_weaken [OF _ assms(3,4)] by (auto simp: on_sock_def socks_ok_def split: option.splits)
  qed
qed

lemma echo_step_ok:
  assumes "socks_ok fd W B e"
  shows "socks_ok fd (W \<and> whole_event fd x) (B \<or> broken_event fd x) (echo_step addrlen x e)"
proof (cases x)
  case (E_Conn fd' plan)
  have "sock_ok (W \<and> whole_event fd x) (B \<or> broken_event fd x) (snd (echo_loop plan s))" if "sock_ok W B s" "fd' = fd" for s
    using echo_loop_ok [OF that(1), of plan] that(2) E_Conn by simp
  then show ?thesis
    unfolding E_Conn echo_step.simps using on_sock_ok [OF assms] E_Conn by simp
next
  case (Arrive fd' bs)
  show ?thesis
    unfolding Arrive echo_step.simps by (rule on_sock_ok [OF assms]) (auto simp: sock_ok_def)
next
  case (Finish fd')
  show ?thesis
    unfolding Finish echo_step.simps by (rule on_sock_ok [OF assms]) (auto simp: sock_ok_def)
qed (use assms in \<open>auto simp: socks_ok_def sock_ok_def new_sock_def split: option.splits\<close>)

lemma echo_steps_ok:
  "socks_ok fd W B e \<Longrightarrow> socks_ok fd (W \<and> list_all (whole_event fd) xs) (B \<or> list_ex (broken_event fd) xs) (echo_steps addrlen xs e)"
proof (induction xs arbitrary: W B e)
  case (Cons x xs)
  have weak: "socks_ok fd (W \<and> P) (B \<or> Q) e" for P Q
    using Cons.prems by (auto simp: socks_ok_def split: option.splits elim!: sock_ok_weaken)
  show ?case
    using Cons.IH [OF echo_step_ok [OF Cons.prems, of x addrlen]] weak by (simp add: conj_assoc disj_assoc del: echo_step.simps)
qed simp

lemma echo_steps_snoc:
  "ec_alive (echo_steps addrlen xs e) \<Longrightarrow> echo_steps addrlen (xs @ [y]) e = echo_step addrlen y (echo_steps addrlen xs e)"
  by (induction addrlen xs e rule: echo_steps.induct) (simp_all split: if_splits)

text \<open>
  C34: whatever happens on the connections, in whatever portions the bytes come, whatever \<open>send\<close> takes of them and whichever calls
  fail: what has arrived on a connection is what was read from it and what can still be read, and what has been sent back is taken, in order,
  from what was read, all of it when every \<open>send\<close> on it took its portion whole. A connection is closed only when its peer has finished or
  a \<open>recv\<close> on it has failed. While the server lives, an event of an open connection whose calls neither fail nor fall short sends back all
  that is there, and closes the connection exactly when the peer has finished.
\<close>

theorem echo_faithful:
  assumes "ec_socks (echo_steps addrlen xs echo_start) fd = Some s"
  shows "(\<exists>rd. so_all s = rd @ so_in s \<and> subseq (so_sent s) rd \<and> (list_all (whole_event fd) xs \<longrightarrow> so_sent s = rd))
    \<and> (so_open s \<or> so_eof s \<or> list_ex (broken_event fd) xs)
    \<and> (ec_alive (echo_steps addrlen xs echo_start) \<and> so_open s \<and> list_all (\<lambda>c. whole c \<and> \<not> broken c) plan \<longrightarrow>
         (\<exists>s'. ec_socks (echo_steps addrlen (xs @ [E_Conn fd plan]) echo_start) fd = Some s' \<and> so_in s' = []
            \<and> so_sent s' = so_sent s @ so_in s \<and> so_open s' = (\<not> so_eof s)))"
proof -
  have "socks_ok fd True False echo_start"
    by (simp add: socks_ok_def echo_start_def)
  from echo_steps_ok [OF this, of xs addrlen] have "sock_ok (list_all (whole_event fd) xs) (list_ex (broken_event fd) xs) s"
    using assms by (simp add: socks_ok_def)
  moreover have "\<exists>s'. ec_socks (echo_steps addrlen (xs @ [E_Conn fd plan]) echo_start) fd = Some s' \<and> so_in s' = []
      \<and> so_sent s' = so_sent s @ so_in s \<and> so_open s' = (\<not> so_eof s)"
    if "ec_alive (echo_steps addrlen xs echo_start)" "so_open s" "list_all (\<lambda>c. whole c \<and> \<not> broken c) plan"
    using assms echo_loop_drains [OF that(2,3)] by (simp add: echo_steps_snoc [OF that(1)] on_sock_def)
  ultimately show ?thesis
    unfolding sock_ok_def by blast
qed

lemma echo_faithful_witness:
  "\<exists>s'. ec_socks (echo_steps 0 ([E_Listen 5, Arrive 5 ''abc'', E_Conn 5 [(Portion 1, Part 1)], Arrive 5 ''de''] @ [E_Conn 5 []]) echo_start) 5 = Some s'
     \<and> so_sent s' = ''acde'' \<and> so_open s'"
proof -
  let ?xs = "[E_Listen 5, Arrive 5 ''abc'', E_Conn 5 [(Portion 1, Part 1)], Arrive 5 ''de'']"
  have "ec_alive (echo_steps 0 ?xs echo_start) \<and> ec_socks (echo_steps 0 ?xs echo_start) 5 =
      Some \<lparr>so_in = ''de'', so_eof = False, so_open = True, so_sent = ''ac'', so_all = ''abcde''\<rparr>"
    by (simp add: echo_start_def new_sock_def on_sock_def echo_loop.simps smooth_def BUFSIZE_def Let_def)
  with echo_faithful [of 0 ?xs 5 _ "[]"] show ?thesis
    by (auto simp del: echo_steps.simps)
qed

text \<open>A \<open>recv\<close> that fails closes the connection with bytes of the peer unread; a broken connection can end the server for all.\<close>

lemma echo_reset_loses:
  "so_open s \<Longrightarrow> echo_loop ((Broken, sd) # plan) s = (True, s\<lparr>so_open := False\<rparr>)"
  by (simp add: echo_loop.simps)

lemma echo_sigpipe_ends:
  "so_open s \<Longrightarrow> so_in s \<noteq> [] \<Longrightarrow> \<not> fst (echo_loop ((Portion k, Sigpipe) # plan) s)"
  by (simp add: echo_loop.simps Let_def)

text \<open>An answer to a datagram always has 511 bytes; and none is sent when the address in memory is above 128.\<close>

lemma udp_reply_length: "length (udp_reply d) = BUFSIZE - 1"
  by (simp add: udp_reply_def Let_def)

lemma udp_never_answered:
  assumes "\<not> sendto_ok addrlen"
  shows "ec_replies (echo_steps addrlen xs e) = ec_replies e"
proof (induction xs arbitrary: e)
  case (Cons x xs)
  have "ec_replies (echo_step addrlen x e) = ec_replies e"
    using assms by (cases x) (auto simp: on_sock_def split: option.splits prod.splits)
  then show ?case
    using Cons.IH by (simp del: echo_step.simps)
qed simp

end
