(* ===== verification/Chat_Client.thy ===== *)
theory Chat_Client
  imports Posix_Io
begin

text \<open>
  net/chat_client_select.c and chat_client_poll.c: the clients of the chat rooms. The events of each round of the
  main loop are the input; what is written to the connection and to standard output is kept.
\<close>

definition chars :: "string \<Rightarrow> string" where
  "chars s = takeWhile (\<lambda>c. c \<noteq> NUL) s"

section \<open>The client with select\<close>

definition BUFSIZE :: nat where "BUFSIZE = 512"

text \<open>\<open>sc_send_buf\<close> is the string in the array; \<open>sc_writes\<close> says whether the connection is in \<open>write_fds\<close>.\<close>

record sclient =
  sc_name :: string
  sc_send_buf :: string
  sc_welcome :: bool
  sc_writes :: bool
  sc_sent :: "string list"
  sc_out :: string

text \<open>
  A round: whether \<open>select\<close> finds the connection writable; the line on standard input, if there is one, and whether it ends in a newline;
  what can be read from the connection, if anything. \<open>select\<close> may fail; SIGINT may come.
\<close>

datatype sround = Failed | Interrupted | Round bool "(string \<times> bool) option" "string option"

definition sc_print :: "string \<Rightarrow> sclient \<Rightarrow> sclient" where
  "sc_print s c = c\<lparr>sc_out := sc_out c @ s\<rparr>"

definition write_pending :: "bool \<Rightarrow> sclient \<Rightarrow> sclient" where
  "write_pending writable c =
     (if writable \<and> sc_writes c
      then (if sc_welcome c then c\<lparr>sc_sent := sc_sent c @ [sc_name c], sc_welcome := False\<rparr>
            else c\<lparr>sc_sent := sc_sent c @ [chars (sc_send_buf c)]\<rparr>)\<lparr>sc_writes := False\<rparr>
      else c)"

text \<open>The conversion of \<open>scanf\<close> up to a newline, which knows no limit, and the newline behind it.\<close>

definition read_line :: "(string \<times> bool) option \<Rightarrow> (sclient, unit) prog" where
  "read_line l = (case l of
     None \<Rightarrow> modifyp (\<lambda>c. c\<lparr>sc_writes := False\<rparr>)
   | Some (s, newline) \<Rightarrow>
       if BUFSIZE \<le> length s then undefp
       else if \<not> newline then thenp (modifyp (\<lambda>c. c\<lparr>sc_send_buf := s\<rparr>)) (exitp ABORT_STATUS)
       else modifyp (\<lambda>c. c\<lparr>sc_send_buf := s, sc_writes := True\<rparr>))"

text \<open>The text is printed with \<open>%s\<close>: an array without NUL is read past its end. The result: whether the loop ends.\<close>

definition show_message :: "string option \<Rightarrow> (sclient, bool) prog" where
  "show_message r = (case r of
     None \<Rightarrow> retp False
   | Some bs \<Rightarrow>
       let s = take BUFSIZE bs in
       if s = [] then retp True
       else if length s = BUFSIZE \<and> NUL \<notin> set s then undefp
       else thenp (modifyp (sc_print (dec (length s) @ '' '' @ chars s @ [NL]))) (retp False))"

fun client_round :: "sround \<Rightarrow> (sclient, bool) prog" where
  "client_round Failed = retp True"
| "client_round Interrupted = thenp (getsp id) (\<lambda>c. Exit EXIT_SUCCESS (sc_print (sc_name c @ '' is offline'' @ [NL]) c))"
| "client_round (Round writable line msg) =
     thenp (modifyp (write_pending writable)) (thenp (read_line line) (show_message msg))"

text \<open>The result: whether the loop has ended.\<close>

fun client_loop :: "sround list \<Rightarrow> (sclient, bool) prog" where
  "client_loop [] = retp False"
| "client_loop (r # rs) = bindp (client_round r) (\<lambda>ended. if ended then retp True else client_loop rs)"

definition client_start :: "string \<Rightarrow> sclient" where
  "client_start name = \<lparr>sc_name = name, sc_send_buf = [], sc_welcome = True, sc_writes = True, sc_sent = [], sc_out = name @ '' is online'' @ [NL]\<rparr>"

section \<open>What is said\<close>

fun lines_of :: "sround list \<Rightarrow> string list" where
  "lines_of [] = []"
| "lines_of (Round w (Some (s, n)) m # rs) = chars s # lines_of rs"
| "lines_of (r # rs) = lines_of rs"

text \<open>The connection takes what is written at once, lines are short, messages too.\<close>

fun smooth :: "sround \<Rightarrow> bool" where
  "smooth (Round w l m) \<longleftrightarrow> w \<and> (case l of None \<Rightarrow> True | Some (s, n) \<Rightarrow> n \<and> length s < BUFSIZE)
     \<and> (case m of None \<Rightarrow> True | Some bs \<Rightarrow> bs \<noteq> [] \<and> length bs < BUFSIZE)"
| "smooth r = False"

definition pending :: "sclient \<Rightarrow> string list" where
  "pending c = (if sc_writes c then [if sc_welcome c then sc_name c else chars (sc_send_buf c)] else [])"

lemma smooth_round:
  assumes "smooth r" "sc_welcome c \<longrightarrow> sc_writes c"
  shows "\<exists>c'. client_round r c = Ret False c' \<and> sc_sent c' = sc_sent c @ pending c \<and> pending c' = lines_of [r] \<and> \<not> sc_welcome c'"
proof -
  obtain l m where r: "r = Round True l m" and l: "case l of None \<Rightarrow> True | Some (s, n) \<Rightarrow> n \<and> length s < BUFSIZE"
    and m: "case m of None \<Rightarrow> True | Some bs \<Rightarrow> bs \<noteq> [] \<and> length bs < BUFSIZE"
    using assms(1) by (cases r) auto
  have shown: "\<exists>c'. show_message m c = Ret False c' \<and> sc_sent c' = sc_sent c \<and> sc_writes c' = sc_writes c \<and> sc_welcome c' = sc_welcome c
      \<and> sc_send_buf c' = sc_send_buf c \<and> sc_name c' = sc_name c" for c
    using m by (auto simp: show_message_def sc_print_def thenp_unfold split: option.splits)
  let ?c1 = "write_pending True c"
  have c1: "sc_sent ?c1 = sc_sent c @ pending c" "\<not> sc_welcome ?c1" "\<not> sc_writes ?c1"
    using assms(2) by (auto simp: write_pending_def pending_def)
  show ?thesis
  proof (cases l)
    case None
    obtain c' where "show_message m (?c1\<lparr>sc_writes := False\<rparr>) = Ret False c'" "sc_sent c' = sc_sent ?c1" "\<not> sc_writes c'" "\<not> sc_welcome c'"
      using shown [of "?c1\<lparr>sc_writes := False\<rparr>"] c1 by auto
    then show ?thesis
      using None c1 by (simp add: r thenp_unfold read_line_def pending_def)
  next
    case (Some sn)
    obtain s where s: "sn = (s, True)" "length s < BUFSIZE"
      using Some l by auto
    obtain c' where "show_message m (?c1\<lparr>sc_send_buf := s, sc_writes := True\<rparr>) = Ret False c'" "sc_sent c' = sc_sent ?c1" "sc_writes c'"
      "\<not> sc_welcome c'" "sc_send_buf c' = s"
      using shown [of "?c1\<lparr>sc_send_buf := s, sc_writes := True\<rparr>"] c1 by auto
    then show ?thesis
      using Some s c1 by (simp add: r thenp_unfold read_line_def pending_def)
  qed
qed

text \<open>
  While the connection takes what is written, a client says its name and then every line that is typed, in order, each once; the last line is
  still to be written.
\<close>

theorem client_says:
  assumes "list_all smooth rs" "rs \<noteq> []"
  shows "\<exists>c. client_loop rs (client_start name) = Ret False c \<and> sc_sent c @ pending c = name # lines_of rs"
proof -
  have go: "\<exists>c'. client_loop rs c = Ret False c' \<and> sc_sent c' @ pending c' = sc_sent c @ pending c @ lines_of rs"
    if "list_all smooth rs" "sc_welcome c \<longrightarrow> sc_writes c" for rs c
    using that
  proof (induction rs arbitrary: c)
    case (Cons r rs)
    obtain c1 where c1: "client_round r c = Ret False c1" "sc_sent c1 = sc_sent c @ pending c" "pending c1 = lines_of [r]" "\<not> sc_welcome c1"
      using smooth_round [of r c] Cons.prems by auto
    have "lines_of (r # rs) = lines_of [r] @ lines_of rs"
      using Cons.prems(1) by (cases r; cases "case r of Round w l m \<Rightarrow> l | _ \<Rightarrow> None") auto
    then show ?case
      using Cons.IH [of c1] Cons.prems(1) c1 by (auto simp: bindp_unfold)
  qed simp
  show ?thesis
    using go [OF assms(1), of "client_start name"] by (simp add: client_start_def pending_def)
qed

lemma client_says_witness:
  "\<exists>c. client_loop [Round True None None, Round True (Some (''hi'', True)) (Some ''bob: hello''), Round True None None] (client_start ''amy'') = Ret False c
     \<and> sc_sent c @ pending c = [''amy'', ''hi'']"
  using client_says [of "[Round True None None, Round True (Some (''hi'', True)) (Some ''bob: hello''), Round True None None]" "''amy''"]
  by (simp add: BUFSIZE_def chars_def NUL_def)

text \<open>A line is lost when the connection is not writable in the next round and something else makes \<open>select\<close> return.\<close>

lemma line_lost:
  assumes "\<not> sc_welcome c" "sc_writes c" "0 < length bs" "length bs < BUFSIZE"
  shows "\<exists>c'. client_round (Round False None (Some bs)) c = Ret False c' \<and> sc_sent c' = sc_sent c \<and> pending c' = []"
  using assms by (auto simp: write_pending_def read_line_def show_message_def sc_print_def thenp_unfold pending_def)

section \<open>The client with poll\<close>

definition POLL_BUFSIZE :: nat where "POLL_BUFSIZE = 64"

text \<open>Standard input, the pipe between the two splices, what has been sent and printed.\<close>

record pclient =
  pl_stdin :: string
  pl_pipe :: string
  pl_sent :: string
  pl_out :: string

text \<open>
  A round: whether the server has closed; what can be read; whether there is input, with how much the two splices move (None: one of them
  fails).
\<close>

datatype pround = P_Failed | P_Round bool "string option" "(nat \<times> nat) option option"

definition receive_text :: "string option \<Rightarrow> (pclient, unit) prog" where
  "receive_text r = (case r of None \<Rightarrow> retp ()
     | Some bs \<Rightarrow> modifyp (\<lambda>c. c\<lparr>pl_out := pl_out c @ chars (take (POLL_BUFSIZE - 1) bs)\<rparr>))"

definition splice_input :: "(nat \<times> nat) option option \<Rightarrow> (pclient, unit) prog" where
  "splice_input s = (case s of None \<Rightarrow> retp ()
     | Some None \<Rightarrow> exitp ABORT_STATUS
     | Some (Some (i, j)) \<Rightarrow>
         thenp (modifyp (\<lambda>c. let n = min i POLL_BUFSIZE in c\<lparr>pl_stdin := drop n (pl_stdin c), pl_pipe := pl_pipe c @ take n (pl_stdin c)\<rparr>))
           (modifyp (\<lambda>c. let n = min j POLL_BUFSIZE in c\<lparr>pl_pipe := drop n (pl_pipe c), pl_sent := pl_sent c @ take n (pl_pipe c)\<rparr>)))"

fun poll_client_round :: "pround \<Rightarrow> (pclient, bool) prog" where
  "poll_client_round P_Failed = retp True"
| "poll_client_round (P_Round hup r s) =
     (if hup then thenp (modifyp (\<lambda>c. c\<lparr>pl_out := pl_out c @ ''server close the connection'' @ [NL]\<rparr>)) (retp True)
      else thenp (receive_text r) (thenp (splice_input s) (retp False)))"

fun poll_client_loop :: "pround list \<Rightarrow> (pclient, bool) prog" where
  "poll_client_loop [] = retp False"
| "poll_client_loop (r # rs) = bindp (poll_client_round r) (\<lambda>ended. if ended then retp True else poll_client_loop rs)"

definition pl_result :: "(pclient, bool) result \<Rightarrow> pclient option" where
  "pl_result r = (case r of Ret b c \<Rightarrow> Some c | Exit k c \<Rightarrow> Some c | Undef \<Rightarrow> None)"

lemma poll_client_round_order:
  "\<exists>c'. pl_result (poll_client_round r c) = Some c' \<and> pl_sent c' @ pl_pipe c' @ pl_stdin c' = pl_sent c @ pl_pipe c @ pl_stdin c"
proof -
  have td: "take n xs @ drop n xs @ ys = xs @ ys" for n and xs ys :: string
    by (simp flip: append_assoc)
  show ?thesis
    by (cases r) (auto simp: pl_result_def receive_text_def splice_input_def thenp_unfold Let_def td simp del: take_append drop_append split: option.splits)
qed

text \<open>
  However much the splices move, what has been sent, is in the pipe and is still to be read is at all times the input, in order.
\<close>

theorem poll_client_order:
  "\<exists>c'. pl_result (poll_client_loop rs c) = Some c' \<and> pl_sent c' @ pl_pipe c' @ pl_stdin c' = pl_sent c @ pl_pipe c @ pl_stdin c"
proof (induction rs arbitrary: c)
  case Nil
  then show ?case
    by (simp add: pl_result_def)
next
  case (Cons r rs)
  obtain c1 where c1: "pl_result (poll_client_round r c) = Some c1" "pl_sent c1 @ pl_pipe c1 @ pl_stdin c1 = pl_sent c @ pl_pipe c @ pl_stdin c"
    using poll_client_round_order by blast
  show ?case
  proof (cases "poll_client_round r c")
    case (Ret b c2)
    then show ?thesis
      using c1 Cons.IH [of c1] by (cases b) (auto simp: pl_result_def bindp_unfold)
  next
    case (Exit k c2)
    then show ?thesis
      using c1 by (auto simp: pl_result_def bindp_unfold)
  next
    case Undef
    then show ?thesis
      using c1 by (simp add: pl_result_def)
  qed
qed

end
