(* ===== verification/Sigchld.thy ===== *)
theory Sigchld
  imports Posix_Io Interleaving
begin

text \<open>
  procexec/multi_SIGCHLD.c: the parent starts a child for each argument and waits in \<open>sigsuspend\<close> until the handler of
  SIGCHLD has reaped them all. Signals do not queue: that one is pending is all that is known. A turn
  is what happens between two points at which something else can happen. The times in the output are left out.
\<close>

section \<open>The processes\<close>

datatype child = Running | Zombie | Reaped

text \<open>
  Where the parent is: at \<open>fork\<close>, at the loop, in \<open>sigsuspend\<close>, in the handler at \<open>waitpid\<close>, behind its loop. SIGCHLD is blocked but in
  \<open>sigsuspend\<close>, and in the handler.
\<close>

datatype ppc = P_Fork | P_Loop | P_Suspend | P_Reap | P_Leave

datatype line = Exiting nat | Caught | Reaping nat | Returning | All_Done nat nat

record family =
  fa_children :: "child list"
  fa_numLive :: int
  fa_sigCnt :: nat
  fa_pending :: bool
  fa_pc :: ppc
  fa_out :: "line list"

text \<open>A turn of the parent comes with the success of \<open>fork\<close>, if it is called in it; \<open>waitpid\<close> may return any child that has ended.\<close>

datatype fagent = Parent bool | Wait nat | Ends nat

definition fprintf_line :: "line \<Rightarrow> family \<Rightarrow> family" where
  "fprintf_line l m = m\<lparr>fa_out := fa_out m @ [l]\<rparr>"

fun parent_turn :: "nat \<Rightarrow> bool \<Rightarrow> ppc \<Rightarrow> family \<Rightarrow> (family, unit) result option" where
  "parent_turn n ok P_Fork m = Some
     (if length (fa_children m) < n
      then (if ok then Ret () (m\<lparr>fa_children := fa_children m @ [Running]\<rparr>) else Exit EXIT_FAILURE m)
      else Ret () (m\<lparr>fa_pc := P_Loop\<rparr>))"
| "parent_turn n ok P_Loop m = Some
     (if 0 < fa_numLive m then Ret () (m\<lparr>fa_pc := P_Suspend\<rparr>)
      else Exit EXIT_SUCCESS (fprintf_line (All_Done n (fa_sigCnt m)) m))"
| "parent_turn n ok P_Suspend m =
     (if fa_pending m then Some (Ret () (fprintf_line Caught (m\<lparr>fa_pending := False, fa_pc := P_Reap\<rparr>))) else None)"
| "parent_turn n ok P_Reap m =
     (if Zombie \<in> set (fa_children m) then None else Some (Ret () (m\<lparr>fa_pc := P_Leave\<rparr>)))"
| "parent_turn n ok P_Leave m = Some (Ret () (fprintf_line Returning (m\<lparr>fa_sigCnt := fa_sigCnt m + 1, fa_pc := P_Loop\<rparr>)))"

fun family_turn :: "nat \<Rightarrow> (fagent, family) turns" where
  "family_turn n (Parent ok) m = parent_turn n ok (fa_pc m) m"
| "family_turn n (Wait k) m =
     (if fa_pc m = P_Reap \<and> k < length (fa_children m) \<and> fa_children m ! k = Zombie
      then Some (Ret () (fprintf_line (Reaping k) (m\<lparr>fa_children := (fa_children m)[k := Reaped], fa_numLive := fa_numLive m - 1\<rparr>)))
      else None)"
| "family_turn n (Ends k) m =
     (if k < length (fa_children m) \<and> fa_children m ! k = Running
      then Some (Ret () (fprintf_line (Exiting k) (m\<lparr>fa_children := (fa_children m)[k := Zombie], fa_pending := True\<rparr>)))
      else None)"

definition family_start :: "nat \<Rightarrow> family" where
  "family_start n = \<lparr>fa_children = [], fa_numLive = int n, fa_sigCnt = 0, fa_pending = False, fa_pc = P_Fork, fa_out = []\<rparr>"

section \<open>What holds between two turns\<close>

fun reaped :: "line list \<Rightarrow> nat list" where
  "reaped [] = []"
| "reaped (Reaping k # ls) = k # reaped ls"
| "reaped (l # ls) = reaped ls"

lemma reaped_append [simp]: "reaped (ls @ [l]) = reaped ls @ reaped [l]"
  by (induction ls rule: reaped.induct) (cases l; simp)+

definition handling :: "ppc \<Rightarrow> nat" where
  "handling pc = (if pc = P_Reap \<or> pc = P_Leave then 1 else 0)"

text \<open>A child that has ended and is not reaped keeps a signal pending, or the handler has still to find it. No more
  signals are caught than children have ended.\<close>

definition family_inv :: "nat \<Rightarrow> family \<Rightarrow> bool" where
  "family_inv n m \<longleftrightarrow> length (fa_children m) \<le> n \<and> (fa_pc m \<noteq> P_Fork \<longrightarrow> length (fa_children m) = n)
     \<and> fa_numLive m = int n - int (count_list (fa_children m) Reaped)
     \<and> (Zombie \<in> set (fa_children m) \<longrightarrow> fa_pending m \<or> fa_pc m = P_Reap)
     \<and> fa_sigCnt m + handling (fa_pc m) + (if fa_pending m then 1 else 0) + count_list (fa_children m) Running \<le> length (fa_children m)
     \<and> (fa_pc m = P_Fork \<longrightarrow> Reaped \<notin> set (fa_children m)) \<and> (fa_pc m = P_Suspend \<longrightarrow> 0 < fa_numLive m)
     \<and> (fa_sigCnt m = 0 \<longrightarrow> fa_pc m \<noteq> P_Reap \<longrightarrow> fa_pc m \<noteq> P_Leave \<longrightarrow> Reaped \<notin> set (fa_children m))
     \<and> distinct (reaped (fa_out m)) \<and> set (reaped (fa_out m)) = {k. k < length (fa_children m) \<and> fa_children m ! k = Reaped}"

definition family_final :: "nat \<Rightarrow> bool \<Rightarrow> int \<Rightarrow> family \<Rightarrow> bool" where
  "family_final n tame k m \<longleftrightarrow> (if k = EXIT_SUCCESS
     then fa_children m = replicate n Reaped \<and> fa_numLive m = 0 \<and> distinct (reaped (fa_out m)) \<and> set (reaped (fa_out m)) = {..<n}
       \<and> fa_sigCnt m \<le> n \<and> (0 < n \<longrightarrow> 0 < fa_sigCnt m)
     else \<not> tame)"

fun pc_cost :: "ppc \<Rightarrow> nat" where
  "pc_cost P_Fork = 2"
| "pc_cost P_Loop = 1"
| "pc_cost P_Suspend = 0"
| "pc_cost P_Reap = 3"
| "pc_cost P_Leave = 2"

fun child_cost :: "child \<Rightarrow> nat" where
  "child_cost Running = 7"
| "child_cost Zombie = 1"
| "child_cost Reaped = 0"

definition family_bound :: "nat \<Rightarrow> family \<Rightarrow> nat" where
  "family_bound n m = 8 * (n - length (fa_children m)) + sum_list (map child_cost (fa_children m)) + (if fa_pending m then 5 else 0) + pc_cost (fa_pc m)"

lemma count_update:
  "k < length cs \<Longrightarrow> cs ! k = x \<Longrightarrow> x \<noteq> y \<Longrightarrow> count_list (cs[k := y]) x + 1 = count_list cs x"
  "k < length cs \<Longrightarrow> cs ! k = x \<Longrightarrow> x \<noteq> y \<Longrightarrow> count_list (cs[k := y]) y = count_list cs y + 1"
  "k < length cs \<Longrightarrow> cs ! k = x \<Longrightarrow> x \<noteq> z \<Longrightarrow> y \<noteq> z \<Longrightarrow> count_list (cs[k := y]) z = count_list cs z"
  using count_list_update [of k cs y x] count_list_update [of k cs y y] count_list_update [of k cs y z] by auto

lemma count_replicate [simp]: "count_list (replicate n x) x = n"
  by (induction n) simp_all

lemma parent_keeps:
  assumes m: "family_inv n m" and t: "parent_turn n ok (fa_pc m) m = Some r"
  shows "outcome (family_inv n) (family_final n ok) r"
proof (cases "fa_pc m")
  case P_Fork
  have "{k. k < Suc (length cs) \<and> (cs @ [Running]) ! k = Reaped} = {k. k < length cs \<and> cs ! k = Reaped}" for cs
    by (auto simp: nth_append less_Suc_eq)
  then show ?thesis
    using m t P_Fork by (auto simp: family_inv_def family_final_def handling_def EXIT_SUCCESS_def EXIT_FAILURE_def split: if_splits)
next
  case P_Loop
  show ?thesis
  proof (cases "0 < fa_numLive m")
    case True
    then have "r = Ret () (m\<lparr>fa_pc := P_Suspend\<rparr>)"
      using t P_Loop by simp
    then show ?thesis
      using m P_Loop True by (simp add: family_inv_def handling_def)
  next
    case False
    then have c: "count_list (fa_children m) Reaped = n" and n: "length (fa_children m) = n"
      using m P_Loop count_le_length [of "fa_children m" Reaped] by (simp_all add: family_inv_def)
    have r: "fa_children m = replicate n Reaped"
      using count_all [OF n c] n by (intro nth_equalityI) simp_all
    have f: "fa_numLive m = 0" "fa_sigCnt m \<le> n" "fa_sigCnt m = 0 \<longrightarrow> Reaped \<notin> set (replicate n Reaped)" "distinct (reaped (fa_out m))"
      "set (reaped (fa_out m)) = {k. k < n \<and> replicate n Reaped ! k = Reaped}"
      using m P_Loop c unfolding family_inv_def r by simp_all
    have "set (reaped (fa_out m)) = {..<n}"
      unfolding f(5) by auto
    moreover have "0 < n \<longrightarrow> 0 < fa_sigCnt m"
      using f(3) by (cases "fa_sigCnt m") simp_all
    moreover have "r = Exit EXIT_SUCCESS (fprintf_line (All_Done n (fa_sigCnt m)) m)"
      using t P_Loop False by simp
    ultimately show ?thesis
      using f r by (simp add: family_final_def fprintf_line_def)
  qed
next
  case P_Suspend
  then have "r = Ret () (fprintf_line Caught (m\<lparr>fa_pending := False, fa_pc := P_Reap\<rparr>))" "fa_pending m"
    using t by (simp_all split: if_splits)
  then show ?thesis
    using m P_Suspend by (simp add: family_inv_def fprintf_line_def handling_def)
next
  case P_Reap
  then have "r = Ret () (m\<lparr>fa_pc := P_Leave\<rparr>)" "Zombie \<notin> set (fa_children m)"
    using t by (simp_all split: if_splits)
  then show ?thesis
    using m P_Reap by (simp add: family_inv_def handling_def)
next
  case P_Leave
  then have "r = Ret () (fprintf_line Returning (m\<lparr>fa_sigCnt := fa_sigCnt m + 1, fa_pc := P_Loop\<rparr>))"
    using t by simp
  then show ?thesis
    using m P_Leave by (simp add: family_inv_def fprintf_line_def handling_def)
qed

lemma wait_keeps:
  assumes m: "family_inv n m" and t: "family_turn n (Wait k) m = Some r"
  shows "outcome (family_inv n) (family_final n tame) r"
proof -
  have k: "fa_pc m = P_Reap" "k < length (fa_children m)" "fa_children m ! k = Zombie"
    and r: "r = Ret () (fprintf_line (Reaping k) (m\<lparr>fa_children := (fa_children m)[k := Reaped], fa_numLive := fa_numLive m - 1\<rparr>))"
    using t by (auto split: if_splits)
  note c = count_update [OF k(2,3)]
  have "{j. j < length (fa_children m) \<and> (fa_children m)[k := Reaped] ! j = Reaped} = insert k {j. j < length (fa_children m) \<and> fa_children m ! j = Reaped}"
    using k(2) by (auto simp: nth_list_update)
  moreover have "k \<notin> set (reaped (fa_out m))"
    using m k by (simp add: family_inv_def)
  ultimately show ?thesis
    using m k c(2) [of Reaped] c(3) [of Running Reaped] unfolding r
    by (simp add: family_inv_def fprintf_line_def handling_def)
qed

lemma ends_keeps:
  assumes m: "family_inv n m" and t: "family_turn n (Ends k) m = Some r"
  shows "outcome (family_inv n) (family_final n tame) r"
proof -
  have k: "k < length (fa_children m)" "fa_children m ! k = Running"
    and r: "r = Ret () (fprintf_line (Exiting k) (m\<lparr>fa_children := (fa_children m)[k := Zombie], fa_pending := True\<rparr>))"
    using t by (auto split: if_splits)
  note c = count_update [OF k]
  have "{j. j < length (fa_children m) \<and> (fa_children m)[k := Zombie] ! j = Reaped} = {j. j < length (fa_children m) \<and> fa_children m ! j = Reaped}"
    using k by (auto simp: nth_list_update)
  moreover have n: "count_list ((fa_children m)[k := Zombie]) Reaped = count_list (fa_children m) Reaped"
    using c(3) [of Reaped Zombie] by simp
  moreover have "Reaped \<in> set ((fa_children m)[k := Zombie]) \<longleftrightarrow> Reaped \<in> set (fa_children m)"
    using n by (metis count_list_0_iff)
  ultimately show ?thesis
    using m c(1) [of Zombie] unfolding r by (simp add: family_inv_def fprintf_line_def split: if_splits) linarith+
qed

lemma family_lowers:
  assumes m: "family_inv n m" and t: "family_turn n a m = Some (Ret () m')"
  shows "family_bound n m' < family_bound n m"
proof (cases a)
  case (Parent ok)
  then have p: "parent_turn n ok (fa_pc m) m = Some (Ret () m')"
    using t by simp
  show ?thesis
    using p by (cases "fa_pc m") (auto simp: family_bound_def fprintf_line_def split: if_splits)
next
  case (Wait k)
  then show ?thesis
    using t sum_list_map_update [of k "fa_children m" child_cost Reaped]
    by (auto simp: family_bound_def fprintf_line_def split: if_splits)
next
  case (Ends k)
  then show ?thesis
    using t sum_list_map_update [of k "fa_children m" child_cost Zombie]
    by (auto simp: family_bound_def fprintf_line_def split: if_splits)
qed

lemma family_lives:
  assumes m: "family_inv n m"
  shows "\<exists>a r. a \<noteq> Parent False \<and> family_turn n a m = Some r"
proof (cases "parent_turn n True (fa_pc m) m")
  case (Some r)
  then show ?thesis
    by (intro exI [of _ "Parent True"] exI [of _ r]) simp
next
  case None
  have "fa_pc m = P_Suspend \<and> \<not> fa_pending m \<or> fa_pc m = P_Reap \<and> Zombie \<in> set (fa_children m)"
    using None by (cases "fa_pc m") (auto split: if_splits)
  then consider "fa_pc m = P_Suspend" "\<not> fa_pending m" | "fa_pc m = P_Reap" "Zombie \<in> set (fa_children m)"
    by blast
  then show ?thesis
  proof cases
    case 1
    then have c: "0 < fa_numLive m" "length (fa_children m) = n" "Zombie \<notin> set (fa_children m)" "fa_numLive m = int n - int (count_list (fa_children m) Reaped)"
      using m by (auto simp: family_inv_def)
    have "\<exists>k<n. fa_children m ! k \<noteq> Reaped"
    proof (rule ccontr)
      assume "\<not> ?thesis"
      then have "fa_children m = replicate n Reaped"
        using c(2) by (intro nth_equalityI) simp_all
      then show False
        using c(1,4) by simp
    qed
    then obtain k where k: "k < n" "fa_children m ! k \<noteq> Reaped"
      by blast
    then have "fa_children m ! k = Running"
      using c(2,3) by (cases "fa_children m ! k") (auto dest: nth_mem)
    then show ?thesis
      using k(1) c(2) by (intro exI [of _ "Ends k"]) simp
  next
    case 2
    then obtain k where "k < length (fa_children m)" "fa_children m ! k = Zombie"
      by (auto simp: in_set_conv_nth)
    then show ?thesis
      using 2 by (intro exI [of _ "Wait k"]) simp
  qed
qed

interpretation fam: program "family_turn n" "family_inv n" "family_final n" "\<lambda>_. False" "family_bound n" "\<lambda>a. a \<noteq> Parent False" 0 for n
proof
  fix m a r
  assume m: "family_inv n m" and t: "family_turn n a m = Some r"
  show "outcome (family_inv n) (family_final n (a \<noteq> Parent False)) r"
  proof (cases a)
    case (Parent ok)
    then show ?thesis
      using parent_keeps [OF m, of ok r] t by (cases ok) simp_all
  next
    case (Wait k)
    then show ?thesis
      using wait_keeps [OF m] t by blast
  next
    case (Ends k)
    then show ?thesis
      using ends_keeps [OF m] t by blast
  qed
next
  fix m a m'
  assume "family_inv n m" "family_turn n a m = Some (Ret () m')"
  then show "if a \<noteq> Parent False then family_bound n m' < family_bound n m else family_bound n m' \<le> family_bound n m + 0"
    using family_lowers by (simp add: less_imp_le)
next
  fix m
  assume "family_inv n m"
  then show "\<exists>a r. a \<noteq> Parent False \<and> family_turn n a m = Some r"
    by (rule family_lives)
qed

lemma family_start_inv: "family_inv n (family_start n)"
  by (simp add: family_inv_def family_start_def handling_def)

text \<open>
  C21: whenever the children end, also several at a time or during the handler, so that signals are lost, no run has more than 8 turns for each child
  and 3 more; it can be completed to one that exits; and a run that exits with success has reaped every child once, with
  at least one and at most as many signals caught as there are children.
\<close>

theorem children_reaped:
  assumes "0 < n" "run (family_turn n) as (Ret () (family_start n)) r" "list_all (\<lambda>a. a \<noteq> Parent False) as"
  shows "length as \<le> 8 * n + 3
    \<and> (case r of
         Ret u m \<Rightarrow> \<exists>bs k m'. list_all (\<lambda>a. a \<noteq> Parent False) bs \<and> run (family_turn n) (as @ bs) (Ret () (family_start n)) (Exit k m')
       | Exit k m \<Rightarrow> k = EXIT_SUCCESS \<longrightarrow> fa_children m = replicate n Reaped \<and> distinct (reaped (fa_out m)) \<and> set (reaped (fa_out m)) = {..<n}
           \<and> 1 \<le> fa_sigCnt m \<and> fa_sigCnt m \<le> n
       | Undef \<Rightarrow> False)"
proof -
  have o: "outcome (family_inv n) (\<lambda>k m. \<exists>b. family_final n b k m) r"
    using fam.always [OF assms(2)] family_start_inv by simp
  have "filter (\<lambda>a. a \<noteq> Parent False) as = as"
    using assms(3) by (simp add: filter_id_conv list_all_iff)
  moreover have "family_bound n (family_start n) = 8 * n + 2"
    by (simp add: family_bound_def family_start_def)
  ultimately have b: "length as \<le> 8 * n + 3"
    using fam.short [OF assms(2) family_start_inv] by simp
  show ?thesis
  proof (cases r)
    case (Ret u m)
    then show ?thesis
      using b fam.exits [OF family_start_inv, of n as m] assms(2) by auto
  next
    case (Exit k m)
    then show ?thesis
      using b o assms(1) by (auto simp: family_final_def)
  next
    case Undef
    then show ?thesis
      using o by simp
  qed
qed

text \<open>Two children that end while the first is being reaped: one more signal, and the handler finds nothing the second time.\<close>

definition crowded :: "fagent list" where
  "crowded = [Parent True, Parent True, Parent True, Parent True, Ends 0, Parent True, Ends 1, Wait 1, Wait 0, Parent True, Parent True, Parent True]"

lemma children_reaped_witness:
  "\<exists>m. run (family_turn 2) crowded (Ret () (family_start 2)) (Exit EXIT_SUCCESS m) \<and> reaped (fa_out m) = [1, 0] \<and> fa_sigCnt m \<le> 2"
proof -
  have "case follow (family_turn 2) crowded (Ret () (family_start 2)) of Some (Exit k m) \<Rightarrow> k = EXIT_SUCCESS \<and> reaped (fa_out m) = [1, 0] | _ \<Rightarrow> False"
    by code_simp
  then obtain m where m: "run (family_turn 2) crowded (Ret () (family_start 2)) (Exit EXIT_SUCCESS m)" "reaped (fa_out m) = [1, 0]"
    by (auto simp: run_follow split: option.splits result.splits)
  have "list_all (\<lambda>a. a \<noteq> Parent False) crowded"
    by (simp add: crowded_def)
  from children_reaped [OF _ m(1) this] show ?thesis
    using m by auto
qed

end
