(* ===== verification/Strerror.thy ===== *)
theory Strerror
  imports Posix_Io
begin

text \<open>
  threads/strerror.c and strerror_tsd.c: \<open>strerror\<close> with one static buffer, and with a buffer for each thread, kept
  under a key and freed by a destructor when the thread ends. The list of messages of the C library is a parameter.
\<close>

definition MAX_ERROR_LEN :: nat where "MAX_ERROR_LEN = 256"
definition EPERM :: int where "EPERM = 1"

definition unknown_text :: "int \<Rightarrow> string" where
  "unknown_text err = take (MAX_ERROR_LEN - 1) (''Unknown error '' @ dec_int err)"

section \<open>One buffer\<close>

text \<open>The string in \<open>buf\<close>. Every call returns the address of \<open>buf\<close>.\<close>

definition static_text :: "string option list \<Rightarrow> int \<Rightarrow> string" where
  "static_text errlist err =
     (if err < 0 \<or> int (length errlist) \<le> err then unknown_text err
      else case errlist ! nat err of None \<Rightarrow> unknown_text err | Some s \<Rightarrow> take (MAX_ERROR_LEN - 1) s)"

definition static_strerror :: "string option list \<Rightarrow> int \<Rightarrow> string \<Rightarrow> string" where
  "static_strerror errlist err buf = static_text errlist err"

section \<open>A buffer for each thread\<close>

text \<open>Whether the key exists, the values of the threads under it, the heap of buffers, the next address that \<open>malloc\<close>
  returns, what is printed: buffers that are added and freed.\<close>

datatype remark = Added nat nat | Freed nat

record tsd =
  ts_key :: bool
  ts_value :: "nat \<Rightarrow> nat option"
  ts_heap :: "nat \<Rightarrow> string option"
  ts_next :: nat
  ts_out :: "remark list"

definition createKey :: "(tsd, unit) prog" where
  "createKey = modifyp (\<lambda>m. m\<lparr>ts_key := True\<rparr>)"

text \<open>\<open>pthread_once\<close>: the first caller, of all threads, runs the function.\<close>

definition once_key :: "(tsd, unit) prog" where
  "once_key = bindp (getsp ts_key) (\<lambda>k. if k then retp () else createKey)"

definition new_buffer :: "nat \<Rightarrow> (tsd, nat) prog" where
  "new_buffer t m = (let a = ts_next m in
     Ret a (m\<lparr>ts_heap := (ts_heap m)(a \<mapsto> []), ts_next := a + 1, ts_value := (ts_value m)(t \<mapsto> a), ts_out := ts_out m @ [Added t a]\<rparr>))"

definition tsd_text :: "int \<Rightarrow> string" where
  "tsd_text err = (if err = EINVAL then ''EINVAL'' @ [NL] else if err = EPERM then ''EPERM'' @ [NL] else unknown_text err)"

definition write_buffer :: "nat \<Rightarrow> string \<Rightarrow> (tsd, unit) prog" where
  "write_buffer a s m = (if ts_heap m a = None then Undef else Ret () (m\<lparr>ts_heap := (ts_heap m)(a \<mapsto> s)\<rparr>))"

definition tsd_strerror :: "nat \<Rightarrow> int \<Rightarrow> (tsd, nat) prog" where
  "tsd_strerror t err =
     thenp once_key
     (bindp (getsp (\<lambda>m. ts_value m t)) (\<lambda>v.
      bindp (case v of None \<Rightarrow> new_buffer t | Some a \<Rightarrow> retp a) (\<lambda>a.
      thenp (write_buffer a (tsd_text err)) (retp a))))"

text \<open>The end of a thread: the destructor gets the value if there is one.\<close>

definition dest :: "nat \<Rightarrow> (tsd, unit) prog" where
  "dest a m = (if ts_heap m a = None then Undef else Ret () (m\<lparr>ts_heap := (ts_heap m)(a := None), ts_out := ts_out m @ [Freed a]\<rparr>))"

definition thread_ends :: "nat \<Rightarrow> (tsd, unit) prog" where
  "thread_ends t =
     bindp (getsp (\<lambda>m. ts_value m t)) (\<lambda>v. case v of None \<Rightarrow> retp ()
       | Some a \<Rightarrow> thenp (modifyp (\<lambda>m. m\<lparr>ts_value := (ts_value m)(t := None)\<rparr>)) (dest a))"

text \<open>Calls and ends of threads, in any order.\<close>

datatype act = Call nat int | Leave nat

fun tsd_acts :: "act list \<Rightarrow> (tsd, unit) prog" where
  "tsd_acts [] = retp ()"
| "tsd_acts (Call t err # xs) = bindp (tsd_strerror t err) (\<lambda>a. tsd_acts xs)"
| "tsd_acts (Leave t # xs) = thenp (thread_ends t) (tsd_acts xs)"

definition tsd_start :: tsd where
  "tsd_start = \<lparr>ts_key = False, ts_value = (\<lambda>_. None), ts_heap = (\<lambda>_. None), ts_next = 0, ts_out = []\<rparr>"

section \<open>What a thread reads\<close>

text \<open>The string of each thread, without addresses.\<close>

definition strings :: "tsd \<Rightarrow> nat \<Rightarrow> string option" where
  "strings m t = (case ts_value m t of None \<Rightarrow> None | Some a \<Rightarrow> ts_heap m a)"

fun spec :: "act list \<Rightarrow> (nat \<Rightarrow> string option) \<Rightarrow> (nat \<Rightarrow> string option)" where
  "spec [] f = f"
| "spec (Call t err # xs) f = spec xs (f(t \<mapsto> tsd_text err))"
| "spec (Leave t # xs) f = spec xs (f(t := None))"

text \<open>Threads have different buffers, all allocated, and nothing else is.\<close>

definition tsd_inv :: "tsd \<Rightarrow> bool" where
  "tsd_inv m \<longleftrightarrow> (\<forall>t u a. ts_value m t = Some a \<longrightarrow> ts_value m u = Some a \<longrightarrow> t = u)
     \<and> dom (ts_heap m) = ran (ts_value m) \<and> (\<forall>a. ts_heap m a \<noteq> None \<longrightarrow> a < ts_next m)"

lemma value_allocated: "tsd_inv m \<Longrightarrow> ts_value m t = Some a \<Longrightarrow> ts_heap m a \<noteq> None \<and> a < ts_next m"
  unfolding tsd_inv_def by (metis domIff ranI)

lemma tsd_strerror_ok:
  assumes "tsd_inv m"
  shows "\<exists>a m'. tsd_strerror t err m = Ret a m' \<and> tsd_inv m' \<and> strings m' = (strings m)(t \<mapsto> tsd_text err)
    \<and> (\<forall>u. u \<noteq> t \<longrightarrow> ts_value m' u = ts_value m u) \<and> ts_value m' t = Some a \<and> (ts_value m t = None \<or> ts_value m t = Some a)"
proof (cases "ts_value m t")
  case None
  let ?m = "m\<lparr>ts_key := True, ts_heap := (ts_heap m)(ts_next m \<mapsto> tsd_text err), ts_next := ts_next m + 1,
    ts_value := (ts_value m)(t \<mapsto> ts_next m), ts_out := ts_out m @ [Added t (ts_next m)]\<rparr>"
  have "tsd_strerror t err m = Ret (ts_next m) ?m"
    using None by (simp add: tsd_strerror_def once_key_def createKey_def new_buffer_def write_buffer_def bindp_unfold thenp_unfold Let_def)
  moreover have fresh: "ts_value m u \<noteq> Some (ts_next m)" for u
    using value_allocated [OF assms, of u "ts_next m"] by auto
  then have "tsd_inv ?m"
    using assms None unfolding tsd_inv_def by (auto simp: less_Suc_eq)
  moreover have "strings ?m = (strings m)(t \<mapsto> tsd_text err)"
    using fresh by (auto simp: strings_def fun_eq_iff split: option.split)
  ultimately show ?thesis
    using None by auto
next
  case (Some a)
  note v = value_allocated [OF assms Some]
  let ?m = "m\<lparr>ts_key := True, ts_heap := (ts_heap m)(a \<mapsto> tsd_text err)\<rparr>"
  have "tsd_strerror t err m = Ret a ?m"
    using Some v by (cases m) (auto simp: tsd_strerror_def once_key_def createKey_def write_buffer_def bindp_unfold thenp_unfold)
  moreover have "tsd_inv ?m"
    using assms v Some unfolding tsd_inv_def by (auto intro: ranI)
  moreover have "strings ?m = (strings m)(t \<mapsto> tsd_text err)"
    using assms Some unfolding tsd_inv_def by (auto simp: strings_def fun_eq_iff split: option.split)
  ultimately show ?thesis
    using Some by auto
qed

lemma thread_ends_ok:
  assumes "tsd_inv m"
  shows "\<exists>m'. thread_ends t m = Ret () m' \<and> tsd_inv m' \<and> strings m' = (strings m)(t := None) \<and> (\<forall>u. u \<noteq> t \<longrightarrow> ts_value m' u = ts_value m u)"
proof (cases "ts_value m t")
  case None
  then show ?thesis
    using assms by (auto simp: thread_ends_def bindp_unfold strings_def fun_eq_iff)
next
  case (Some a)
  note v = value_allocated [OF assms Some]
  let ?m = "m\<lparr>ts_value := (ts_value m)(t := None), ts_heap := (ts_heap m)(a := None), ts_out := ts_out m @ [Freed a]\<rparr>"
  have "thread_ends t m = Ret () ?m"
    using Some v by (simp add: thread_ends_def dest_def bindp_unfold thenp_unfold)
  moreover have "tsd_inv ?m"
    unfolding tsd_inv_def
  proof (intro conjI)
    have d: "ts_heap m x \<noteq> None \<longleftrightarrow> (\<exists>u. ts_value m u = Some x)" for x
      using assms unfolding tsd_inv_def by (auto simp: dom_def ran_def set_eq_iff)
    have i: "ts_value m u = Some a \<Longrightarrow> u = t" for u
      using assms Some unfolding tsd_inv_def by blast
    have "ts_heap ?m x \<noteq> None \<longleftrightarrow> (\<exists>u. ts_value ?m u = Some x)" for x
    proof (cases "x = a")
      case True
      have "ts_value ?m u \<noteq> Some a" for u
        using i [of u] by (cases "u = t") auto
      then show ?thesis
        using True by simp
    next
      case False
      then have "ts_value ?m u = Some x \<longleftrightarrow> ts_value m u = Some x" for u
        using Some by simp
      then show ?thesis
        using False d [of x] by simp
    qed
    then show "dom (ts_heap ?m) = ran (ts_value ?m)"
      unfolding dom_def ran_def by blast
  qed (use assms in \<open>auto simp: tsd_inv_def\<close>)
  moreover have "strings ?m = (strings m)(t := None)"
    using assms Some unfolding tsd_inv_def by (auto simp: strings_def fun_eq_iff split: option.split)
  ultimately show ?thesis
    by auto
qed

text \<open>
  C35: whatever the order of the calls and of the ends of threads, the buffers refine a map from threads to strings: a thread
  reads the text of its own last error, no call touches a freed buffer, and a thread keeps its buffer until it ends.
\<close>

theorem tsd_refines:
  assumes "tsd_inv m"
  shows "\<exists>m'. tsd_acts xs m = Ret () m' \<and> tsd_inv m' \<and> strings m' = spec xs (strings m)
    \<and> (\<forall>t a. ts_value m t = Some a \<and> Leave t \<notin> set xs \<longrightarrow> ts_value m' t = Some a)"
  using assms
proof (induction xs arbitrary: m)
  case (Cons x xs)
  show ?case
  proof (cases x)
    case (Call t err)
    obtain b m1 where m1: "tsd_strerror t err m = Ret b m1" "tsd_inv m1" "strings m1 = (strings m)(t \<mapsto> tsd_text err)"
      "\<forall>u. u \<noteq> t \<longrightarrow> ts_value m1 u = ts_value m u" "ts_value m1 t = Some b" "ts_value m t = None \<or> ts_value m t = Some b"
      using tsd_strerror_ok [OF Cons.prems, of t err] by blast
    have "ts_value m1 u = Some a" if "ts_value m u = Some a" for u a
      using m1(4-6) that by (cases "u = t") auto
    then show ?thesis
      using Call m1(1,3) Cons.IH [OF m1(2)] by (auto simp: bindp_unfold fun_upd_def)
  next
    case (Leave t)
    obtain m1 where m1: "thread_ends t m = Ret () m1" "tsd_inv m1" "strings m1 = (strings m)(t := None)" "\<forall>u. u \<noteq> t \<longrightarrow> ts_value m1 u = ts_value m u"
      using thread_ends_ok [OF Cons.prems, of t] by blast
    then show ?thesis
      using Leave m1 Cons.IH [OF m1(2)] by (auto simp: thenp_unfold fun_upd_def)
  qed
qed simp

lemma tsd_start_inv: "tsd_inv tsd_start"
  by (simp add: tsd_inv_def tsd_start_def)

text \<open>The test program with both: the main thread, 0, reads its string after the other one has called and ended.\<close>

lemma tsd_refines_witness:
  "\<exists>m'. tsd_acts [Call 0 EINVAL, Call 1 EPERM, Leave 1] tsd_start = Ret () m' \<and> strings m' 0 = Some (''EINVAL'' @ [NL]) \<and> strings m' 1 = None"
proof -
  obtain m' where m': "tsd_acts [Call 0 EINVAL, Call 1 EPERM, Leave 1] tsd_start = Ret () m'"
    "strings m' = spec [Call 0 EINVAL, Call 1 EPERM, Leave 1] (strings tsd_start)"
    using tsd_refines [OF tsd_start_inv, of "[Call 0 EINVAL, Call 1 EPERM, Leave 1]"] by blast
  then have "strings m' 0 = Some (''EINVAL'' @ [NL])" "strings m' 1 = None"
    by (simp_all add: tsd_text_def)
  then show ?thesis
    using m'(1) by blast
qed

text \<open>With the one buffer every thread reads the text of the last error of all.\<close>

fun static_acts :: "string option list \<Rightarrow> act list \<Rightarrow> string \<Rightarrow> string" where
  "static_acts errlist [] buf = buf"
| "static_acts errlist (Call t err # xs) buf = static_acts errlist xs (static_strerror errlist err buf)"
| "static_acts errlist (Leave t # xs) buf = static_acts errlist xs buf"

lemma static_overwritten:
  "\<forall>x\<in>set xs. \<exists>u. x = Leave u \<Longrightarrow> static_acts errlist (ys @ Call t err # xs) buf = static_text errlist err"
proof (induction ys arbitrary: buf)
  case Nil
  have "static_acts errlist xs b = b" for b
    using Nil by (induction xs) auto
  then show ?case
    by (simp add: static_strerror_def)
next
  case (Cons y ys)
  then show ?case
    by (cases y) simp_all
qed

end
