(* ===== verification/Wait_Status.thy ===== *)
theory Wait_Status
  imports Get_Num Posix_Io Line_Spec
begin

text \<open>
  lib/print_wait_status.c, procexec/child_status.c, procexec/simple_system.c and procexec/t_system.c: the status that
  \<open>waitpid\<close> stores, and the programs that show it. The macros of sys/wait.h are written out as glibc
  has them, on the word that the kernel makes; \<open>strsignal\<close> of the C library is an argument.
\<close>

section \<open>The status word\<close>

type_synonym status = "32 word"

definition WEXITSTATUS :: "status \<Rightarrow> int" where
  "WEXITSTATUS s = uint (drop_bit 8 (s AND 0xFF00))"

definition WTERMSIG :: "status \<Rightarrow> int" where
  "WTERMSIG s = uint (s AND 0x7F)"

definition WSTOPSIG :: "status \<Rightarrow> int" where
  "WSTOPSIG s = WEXITSTATUS s"

definition WIFEXITED :: "status \<Rightarrow> bool" where
  "WIFEXITED s \<longleftrightarrow> WTERMSIG s = 0"

text \<open>The sum is cut to a \<open>signed char\<close> and shifted as an \<open>int\<close>.\<close>

definition WIFSIGNALED :: "status \<Rightarrow> bool" where
  "WIFSIGNALED s \<longleftrightarrow> 0 < sint (ucast ((s AND 0x7F) + 1) :: 8 word) div 2"

definition WIFSTOPPED :: "status \<Rightarrow> bool" where
  "WIFSTOPPED s \<longleftrightarrow> s AND 0xFF = 0x7F"

definition WIFCONTINUED :: "status \<Rightarrow> bool" where
  "WIFCONTINUED s \<longleftrightarrow> s = 0xFFFF"

definition WCOREDUMP :: "status \<Rightarrow> bool" where
  "WCOREDUMP s \<longleftrightarrow> s AND 0x80 \<noteq> 0"

text \<open>What can happen to a child, and the word that the kernel stores for it.\<close>

datatype change = Exited "8 word" | Killed nat bool | Stopped nat | Continued

fun wait_status :: "change \<Rightarrow> status" where
  "wait_status (Exited c) = push_bit 8 (ucast c)"
| "wait_status (Killed sig core) = word_of_nat sig OR (if core then 0x80 else 0)"
| "wait_status (Stopped sig) = push_bit 8 (word_of_nat sig) OR 0x7F"
| "wait_status Continued = 0xFFFF"

fun possible :: "change \<Rightarrow> bool" where
  "possible (Killed sig core) \<longleftrightarrow> 0 < sig \<and> sig < NSIG"
| "possible (Stopped sig) \<longleftrightarrow> 0 < sig \<and> sig < NSIG"
| "possible _ \<longleftrightarrow> True"

fun ended :: "change \<Rightarrow> bool" where
  "ended (Exited c) \<longleftrightarrow> True"
| "ended (Killed sig core) \<longleftrightarrow> True"
| "ended _ \<longleftrightarrow> False"

section \<open>Printing it\<close>

definition hex_digit :: "nat \<Rightarrow> char" where
  "hex_digit d = (if d < 10 then char_of (48 + d) else char_of (87 + d))"

fun hexs :: "nat \<Rightarrow> string" where
  "hexs n = (if n < 16 then [hex_digit n] else hexs (n div 16) @ [hex_digit (n mod 16)])"

declare hexs.simps [simp del]

definition printWaitStatus :: "(int \<Rightarrow> string) \<Rightarrow> string option \<Rightarrow> status \<Rightarrow> ('z console_scheme, unit) prog" where
  "printWaitStatus strsignal msg s =
     thenp (case msg of None \<Rightarrow> retp () | Some t \<Rightarrow> printf_out t)
     (if WIFEXITED s then printf_out (''child exited, status='' @ dec_int (WEXITSTATUS s) @ [NL])
      else if WIFSIGNALED s then
        thenp (printf_out (''child killed by signal '' @ dec_int (WEXITSTATUS s) @ '' ('' @ strsignal (WTERMSIG s) @ '')''))
        (thenp (if WCOREDUMP s then printf_out '' (core dumped)'' else retp ())
          (printf_out [NL]))
      else if WIFSTOPPED s then
        printf_out (''child stopped by signal '' @ dec_int (WSTOPSIG s) @ '' ('' @ strsignal (WSTOPSIG s) @ '')'' @ [NL])
      else if WIFCONTINUED s then printf_out (''child continued'' @ [NL])
      else printf_out (''what happened to this child? (status='' @ hexs (unat s) @ '')'' @ [NL]))"

text \<open>The line that both kinds of programs print: the word in hexadecimal, \<open>status >> 8\<close> and the low byte.\<close>

definition raw_status :: "status \<Rightarrow> string" where
  "raw_status s = ''status=0x'' @ pad0 4 (hexs (unat s)) @ '' ('' @ dec_int (sint (signed_drop_bit 8 s)) @ '','' @ dec_int (uint (s AND 0xFF)) @ '')'' @ [NL]"

section \<open>The macros on the words of the kernel\<close>

lemma low_mask: "s AND 0x7F = take_bit 7 s" "s AND 0xFF = take_bit 8 s" "drop_bit 8 (s AND 0xFF00) = take_bit 8 (drop_bit 8 s)"
  for s :: "32 word"
  by (simp_all add: take_bit_eq_mask mask_numeral drop_bit_and)

lemma exited_byte: "take_bit 8 (drop_bit 8 (push_bit 8 (ucast c))) = (ucast c :: 32 word)" for c :: "8 word"
  by (rule bit_word_eqI) (auto simp: bit_simps dest: bit_imp_le_length)

lemma byte_range: "0 \<le> uint c \<and> uint c < 256" for c :: "8 word"
  using unsigned_less [of c, where ?'a = int] by simp

lemma exited_word:
  "WTERMSIG (wait_status (Exited c)) = 0" "WEXITSTATUS (wait_status (Exited c)) = uint c"
  using byte_range [of c]
  by (simp_all add: WTERMSIG_def WEXITSTATUS_def low_mask take_bit_push_bit exited_byte unsigned_ucast_eq take_bit_int_eq_self)

lemma small_cases: "list_all P [1..<NSIG] \<Longrightarrow> 0 < sig \<Longrightarrow> sig < NSIG \<Longrightarrow> P sig"
  by (simp add: list_all_iff)

lemma killed_words: "list_all (\<lambda>sig. list_all (\<lambda>core. let s = wait_status (Killed sig core) in
    \<not> WIFEXITED s \<and> WIFSIGNALED s \<and> WTERMSIG s = int sig \<and> WEXITSTATUS s = 0 \<and> WCOREDUMP s = core) [True, False]) [1..<NSIG]"
  by code_simp

lemma stopped_words: "list_all (\<lambda>sig. let s = wait_status (Stopped sig) in
    \<not> WIFEXITED s \<and> \<not> WIFSIGNALED s \<and> WIFSTOPPED s \<and> WEXITSTATUS s = int sig) [1..<NSIG]"
  by code_simp

text \<open>What \<open>printWaitStatus\<close> tells of a change.\<close>

fun told :: "(int \<Rightarrow> string) \<Rightarrow> change \<Rightarrow> string" where
  "told strsignal (Exited c) = ''child exited, status='' @ dec_int (uint c) @ [NL]"
| "told strsignal (Killed sig core) = ''child killed by signal 0 ('' @ strsignal (int sig) @ '')'' @ (if core then '' (core dumped)'' else []) @ [NL]"
| "told strsignal (Stopped sig) = ''child stopped by signal '' @ dec_int (int sig) @ '' ('' @ strsignal (int sig) @ '')'' @ [NL]"
| "told strsignal Continued = ''child continued'' @ [NL]"

lemma dec_int_0: "dec_int 0 = ''0''"
  by code_simp

lemma told_by_print:
  assumes "possible c"
  shows "printWaitStatus strsignal msg (wait_status c) w
     = Ret () (w\<lparr>con_pending := con_pending w @ (case msg of None \<Rightarrow> [] | Some t \<Rightarrow> t) @ told strsignal c\<rparr>)"
proof (cases c)
  case (Exited b)
  then show ?thesis
    by (cases msg) (simp_all add: printWaitStatus_def thenp_unfold printf_out_def WIFEXITED_def exited_word del: wait_status.simps)
next
  case (Killed sig core)
  then show ?thesis
    using assms small_cases [OF killed_words, of sig]
    by (cases msg; cases core) (simp_all add: printWaitStatus_def thenp_unfold printf_out_def Let_def dec_int_0 del: wait_status.simps)
next
  case (Stopped sig)
  then show ?thesis
    using assms small_cases [OF stopped_words, of sig]
    by (cases msg) (simp_all add: printWaitStatus_def thenp_unfold printf_out_def Let_def WSTOPSIG_def del: wait_status.simps)
next
  case Continued
  have s: "\<not> WIFEXITED 0xFFFF" "\<not> WIFSIGNALED 0xFFFF" "\<not> WIFSTOPPED 0xFFFF" "WIFCONTINUED 0xFFFF"
    by code_simp+
  then show ?thesis using Continued
    by (cases msg) (simp_all add: printWaitStatus_def thenp_unfold printf_out_def)
qed

text \<open>The macros as a reader of the word, in the order in which they are asked.\<close>

definition read_status :: "status \<Rightarrow> change option" where
  "read_status s = (if WIFEXITED s then Some (Exited (word_of_int (WEXITSTATUS s)))
     else if WIFSIGNALED s then Some (Killed (nat (WTERMSIG s)) (WCOREDUMP s))
     else if WIFSTOPPED s then Some (Stopped (nat (WSTOPSIG s)))
     else if WIFCONTINUED s then Some Continued else None)"

lemma read_wait_status:
  assumes "possible c"
  shows "read_status (wait_status c) = Some c"
proof (cases c)
  case (Exited b)
  then show ?thesis by (simp add: read_status_def WIFEXITED_def exited_word del: wait_status.simps)
next
  case (Killed sig core)
  then show ?thesis
    using assms small_cases [OF killed_words, of sig] by (cases core) (simp_all add: read_status_def Let_def del: wait_status.simps)
next
  case (Stopped sig)
  then show ?thesis
    using assms small_cases [OF stopped_words, of sig] by (simp add: read_status_def Let_def WSTOPSIG_def del: wait_status.simps)
next
  case Continued
  have "read_status 0xFFFF = Some Continued" by code_simp
  then show ?thesis using Continued by simp
qed


section \<open>A child and the changes of its state\<close>

text \<open>
  procexec/child_status.c. The child exits with its argument, or waits for signals without end. A list of changes is
  what other processes do to it before it ends on its own.
\<close>

definition child_part :: "int \<Rightarrow> string list \<Rightarrow> ('z console_scheme, unit) prog" where
  "child_part pid argv =
     thenp (printf_out (''Child started with PID = '' @ dec_int pid @ [NL]))
     (if 1 < length argv then bindp (getInt (Some (argv ! 1)) 0 (Some ''exit-status'')) exit_process
      else retp ())"

text \<open>The kernel keeps the low byte of the argument of \<open>exit\<close>.\<close>

definition own_change :: "('s, 'a) result \<Rightarrow> change list" where
  "own_change r = (case r of Exit k _ \<Rightarrow> [Exited (word_of_int k)] | _ \<Rightarrow> [])"

definition waited :: "int \<Rightarrow> status \<Rightarrow> string" where
  "waited pid s = ''waitpid() returned: PID='' @ dec_int pid @ ''; '' @ raw_status s"

text \<open>The loop of the parent; it still waits when the list of changes is exhausted.\<close>

fun reap_loop :: "(int \<Rightarrow> string) \<Rightarrow> int \<Rightarrow> change list \<Rightarrow> ('z console_scheme, unit) prog" where
  "reap_loop strsignal pid [] = retp ()"
| "reap_loop strsignal pid (c # cs) =
     (let s = wait_status c in
      thenp (printf_out (waited pid s))
      (thenp (printWaitStatus strsignal None s)
        (if WIFEXITED s \<or> WIFSIGNALED s then exit_process EXIT_SUCCESS else reap_loop strsignal pid cs)))"

text \<open>\<open>fork\<close> returns None when it fails.\<close>

definition child_status_main :: "(int \<Rightarrow> string) \<Rightarrow> (int \<Rightarrow> string) \<Rightarrow> string list \<Rightarrow> int option \<Rightarrow> change list \<Rightarrow> ('z console_scheme, unit) prog" where
  "child_status_main strerror strsignal argv fork cs w =
     (if 1 < length argv \<and> argv ! 1 = ''--help'' then usageErr (argv ! 0 @ '' [exit-status]'' @ [NL]) w
      else (case fork of
          None \<Rightarrow> errExit strerror ''fork'' w
        | Some pid \<Rightarrow> reap_loop strsignal pid (cs @ own_change (child_part pid argv w)) w))"

definition report :: "(int \<Rightarrow> string) \<Rightarrow> int \<Rightarrow> change \<Rightarrow> string" where
  "report strsignal pid c = waited pid (wait_status c) @ told strsignal c"

lemma ended_word:
  assumes "possible c"
  shows "WIFEXITED (wait_status c) \<or> WIFSIGNALED (wait_status c) \<longleftrightarrow> ended c"
  using read_wait_status [OF assms] by (cases c) (auto simp: read_status_def simp del: wait_status.simps split: if_splits)

lemma reap_loop_step:
  assumes "possible c"
  shows "reap_loop strsignal pid (c # cs) w
     = (if ended c then exit_process EXIT_SUCCESS else reap_loop strsignal pid cs)
         (w\<lparr>con_pending := con_pending w @ report strsignal pid c\<rparr>)"
  using ended_word [OF assms]
  by (simp add: Let_def thenp_unfold told_by_print [OF assms] printf_out_def report_def del: wait_status.simps)

text \<open>Every change is reported, up to the one that ends the child, and the parent ends with it.\<close>

lemma reap_loop_runs:
  assumes "list_all possible cs" "list_all (\<lambda>c. \<not> ended c) cs"
  shows "reap_loop strsignal pid (cs @ ds) w
     = reap_loop strsignal pid ds (w\<lparr>con_pending := con_pending w @ concat (map (report strsignal pid) cs)\<rparr>)"
  using assms
proof (induction cs arbitrary: w)
  case (Cons c cs)
  then show ?case
    using reap_loop_step [of c strsignal pid "cs @ ds" w] by simp
qed simp

lemma exited_parts:
  "unat (wait_status (Exited c)) = 256 * unat c" "sint (signed_drop_bit 8 (wait_status (Exited c))) = uint c"
  "wait_status (Exited c) AND 0xFF = 0"
proof -
  have "unat c < 256"
    using unsigned_less [of c, where ?'a = nat] by simp
  then show "unat (wait_status (Exited c)) = 256 * unat c"
    by (simp add: unsigned_push_bit_eq unsigned_ucast_eq take_bit_nat_eq_self push_bit_nat_def)
  have "signed_drop_bit 8 (wait_status (Exited c)) = ucast c"
    by (rule bit_word_eqI) (auto simp: bit_simps min_def dest: bit_imp_le_length)
  then show "sint (signed_drop_bit 8 (wait_status (Exited c))) = uint c"
    using signed_take_bit_int_eq_self [of 31 "uint c", OF order_trans [OF _ conjunct1 [OF byte_range]]] byte_range [of c]
    by (simp add: signed_ucast_eq del: wait_status.simps)
  show "wait_status (Exited c) AND 0xFF = 0"
    by (simp add: low_mask take_bit_push_bit)
qed

lemma exited_raw:
  "raw_status (wait_status (Exited c)) = ''status=0x'' @ pad0 4 (hexs (256 * unat c)) @ '' ('' @ dec_int (uint c) @ '',0)'' @ [NL]"
  by (simp add: exited_parts raw_status_def dec_int_0 del: wait_status.simps)

text \<open>The words that no macro knows.\<close>

lemma signaled_words: "list_all (\<lambda>n. (0 < sint (ucast ((word_of_nat n :: 32 word) + 1) :: 8 word) div 2) = (n \<noteq> 0 \<and> n \<noteq> 127)) [0..<128]"
  by code_simp

lemma WIFSIGNALED_iff: "WIFSIGNALED s \<longleftrightarrow> WTERMSIG s \<noteq> 0 \<and> WTERMSIG s \<noteq> 127"
proof -
  let ?t = "s AND 0x7F"
  have t: "unat ?t < 128"
    using take_bit_nat_less_exp [of 7 "unat s"] by (simp add: low_mask unsigned_take_bit_eq)
  have "(0 < sint (ucast (word_of_nat (unat ?t) + (1 :: 32 word)) :: 8 word) div 2) = (unat ?t \<noteq> 0 \<and> unat ?t \<noteq> 127)"
    by (rule bspec [OF signaled_words [unfolded list_all_iff]]) (use t in simp)
  moreover have "word_of_nat (unat ?t) = ?t"
    by simp
  ultimately have "WIFSIGNALED s \<longleftrightarrow> unat ?t \<noteq> 0 \<and> unat ?t \<noteq> 127"
    by (simp only: WIFSIGNALED_def)
  moreover have "uint ?t = 0 \<longleftrightarrow> unat ?t = 0" "uint ?t = 127 \<longleftrightarrow> unat ?t = 127"
    unfolding uint_nat by arith+
  ultimately show ?thesis
    by (simp only: WTERMSIG_def)
qed

lemma unknown_word: "read_status s = None \<longleftrightarrow> s AND 0x7F = 0x7F \<and> s AND 0xFF \<noteq> 0x7F \<and> s \<noteq> 0xFFFF"
proof -
  have "WTERMSIG s = 127 \<longleftrightarrow> s AND 0x7F = 0x7F"
    unfolding WTERMSIG_def by (subst word_uint_eq_iff) simp
  then show ?thesis
    by (auto simp: read_status_def WIFEXITED_def WIFSIGNALED_iff WIFSTOPPED_def WIFCONTINUED_def)
qed

section \<open>Properties of the reports\<close>

text \<open>
  C31: the macros read back what happened to a child from every word that the kernel makes, and \<open>printWaitStatus\<close> names it: the exit status, the
  signal that stopped the child, that it continues. For a child that a signal killed, the number that is printed is 0 and only the
  name is that of the signal. A word is unknown to the macros exactly when its low seven bits are set and it is neither a stop nor \<open>0xFFFF\<close>.
\<close>

theorem wait_status_told:
  assumes "possible c"
  shows "read_status (wait_status c) = Some c
    \<and> printWaitStatus strsignal (Some msg) (wait_status c) w = Ret () (w\<lparr>con_pending := con_pending w @ msg @ told strsignal c\<rparr>)
    \<and> (read_status s = None \<longleftrightarrow> s AND 0x7F = 0x7F \<and> s AND 0xFF \<noteq> 0x7F \<and> s \<noteq> 0xFFFF)"
  using read_wait_status [OF assms] told_by_print [OF assms, of strsignal "Some msg" w] unknown_word [of s] by simp

text \<open>
  Whatever stops and continues the child, the parent reports each change and at the end the exit status: the argument modulo 256, in hexadecimal
  in the second byte of the word, in decimal, and by \<open>printWaitStatus\<close>. Then the parent ends with success.
\<close>

theorem child_status_shows:
  assumes "list_all possible cs" "list_all (\<lambda>c. \<not> ended c) cs" "INT_MIN \<le> i" "i \<le> INT_MAX" "con_pending w = []"
  shows "\<exists>w'. child_status_main strerror strsignal [name, dec_int i] (Some pid) cs w = Exit EXIT_SUCCESS w'
    \<and> con_seen w' = con_seen w @ [OutText (concat (map (report strsignal pid) cs)
        @ ''waitpid() returned: PID='' @ dec_int pid @ ''; status=0x'' @ pad0 4 (hexs (256 * nat (i mod 256))) @ '' ('' @ dec_int (i mod 256) @ '',0)'' @ [NL]
        @ ''child exited, status='' @ dec_int (i mod 256) @ [NL])]"
proof -
  have i: "LONG_MIN \<le> i" "i \<le> LONG_MAX"
    using assms by (auto simp: INT_MIN_def INT_MAX_def LONG_MIN_def LONG_MAX_def)
  have "own_change (child_part pid [name, dec_int i] w) = [Exited (word_of_int i)]"
    by (simp add: child_part_def thenp_unfold bindp_unfold printf_out_def getInt_dec [OF assms(3,4)] exit_process_Exit own_change_def)
  moreover have b: "uint (word_of_int i :: 8 word) = i mod 256"
    by (simp add: uint_word_of_int)
  moreover have "unat (word_of_int i :: 8 word) = nat (i mod 256)"
    using b by (simp add: unat_eq_nat_uint)
  ultimately show ?thesis
    using assms dec_int_no_option [OF i]
    by (simp add: child_status_main_def reap_loop_runs reap_loop_step exit_process_Exit flushed_def report_def waited_def exited_raw del: reap_loop.simps wait_status.simps)
qed


text \<open>A stop, a continuation and the end with status 300, of which the low byte is 44.\<close>

theorem wait_status_told_witness:
  "read_status (wait_status (Killed 11 True)) = Some (Killed 11 True) \<and> told (\<lambda>_. ''Segmentation fault'') (Killed 11 True)
     = ''child killed by signal 0 (Segmentation fault) (core dumped)'' @ [NL]"
  using wait_status_told [of "Killed 11 True" "\<lambda>_. ''Segmentation fault''" "''x''" "console_example" "0xFF"] by (simp add: NSIG_def)

theorem child_status_shows_witness:
  "\<exists>w'. child_status_main (\<lambda>_. '''') (\<lambda>_. ''stop'') [''child_status'', dec_int 300] (Some 77) [Stopped 19, Continued] (console_example\<lparr>con_pending := []\<rparr>)
     = Exit EXIT_SUCCESS w'"
  using child_status_shows [of "[Stopped 19, Continued]" "300" "console_example\<lparr>con_pending := []\<rparr>" "\<lambda>_. ''''" "\<lambda>_. ''stop''" "''child_status''" "77"]
  by (auto simp: INT_MIN_def INT_MAX_def NSIG_def)

section \<open>A shell for commands\<close>

text \<open>
  procexec/simple_system.c and procexec/t_system.c. What becomes of the next call of \<open>fork\<close>, \<open>execlp\<close> and \<open>waitpid\<close> comes from a
  schedule; the command itself is what a shell is given, and how it ends. An exhausted schedule stands for commands that succeed.
\<close>

datatype launch = No_Fork int | No_Shell | Ran change | No_Wait int

record shell = console +
  sh_launches :: "launch list"
  sh_ran :: "string list"

definition MAX_CMD_LEN :: nat where "MAX_CMD_LEN = 200"

definition next_launch :: "('z shell_scheme, launch) prog" where
  "next_launch m = Ret (case sh_launches m of [] \<Rightarrow> Ran (Exited 0) | l # ls \<Rightarrow> l) (m\<lparr>sh_launches := tl (sh_launches m)\<rparr>)"

definition run_command :: "string \<Rightarrow> ('z shell_scheme, unit) prog" where
  "run_command command = modifyp (\<lambda>m. m\<lparr>sh_ran := sh_ran m @ [command]\<rparr>)"

definition failed :: "int \<Rightarrow> ('z shell_scheme, status) prog" where
  "failed e = thenp (modifyp (\<lambda>m. m\<lparr>con_errno := e\<rparr>)) (retp (- 1))"

definition simple_system :: "string \<Rightarrow> ('z shell_scheme, status) prog" where
  "simple_system command =
     bindp next_launch (\<lambda>l. case l of
         No_Fork e \<Rightarrow> failed e
       | No_Shell \<Rightarrow> retp (wait_status (Exited 127))
       | Ran c \<Rightarrow> thenp (run_command command) (retp (wait_status c))
       | No_Wait e \<Rightarrow> thenp (run_command command) (failed e))"

text \<open>
  The loop, over what \<open>fgets\<close> reads. \<open>fgets\<close> stops behind a newline or when the buffer is full; the command ends at a NUL. The
  command does not read from the standard input of the program.
\<close>

fun fgets :: "nat \<Rightarrow> string \<Rightarrow> string \<times> string" where
  "fgets 0 s = ([], s)"
| "fgets (Suc k) [] = ([], [])"
| "fgets (Suc k) (c # s) = (if c = NL then ([c], s) else (case fgets k s of (l, r) \<Rightarrow> (c # l, r)))"

lemma fgets_split: "fgets k s = (l, r) \<Longrightarrow> s = l @ r \<and> length l \<le> k"
  by (induction k s arbitrary: l r rule: fgets.induct) (auto split: if_splits prod.splits)

lemma fgets_progress: "fgets (Suc k) (c # s) = (l, r) \<Longrightarrow> length r < Suc (length s)"
  by (auto split: if_splits prod.splits dest!: fgets_split)

function fgets_all :: "nat \<Rightarrow> string \<Rightarrow> string list" where
  "fgets_all k [] = []"
| "fgets_all 0 (c # s) = []"
| "fgets_all (Suc k) (c # s) = (let (l, r) = fgets (Suc k) (c # s) in l # fgets_all (Suc k) r)"
  by pat_completeness auto
termination
  by (relation "measure (\<lambda>(k, s). length s)") (auto simp del: fgets.simps dest!: sym [THEN fgets_progress])

definition c_string :: "string \<Rightarrow> string" where
  "c_string s = takeWhile (\<lambda>c. c \<noteq> NUL) s"

definition show_status :: "(int \<Rightarrow> string) \<Rightarrow> status \<Rightarrow> ('z console_scheme, unit) prog" where
  "show_status strsignal s =
     (if WIFEXITED s \<and> WEXITSTATUS s = 127 then printf_out (''(Probably) could not invoke shell'' @ [NL])
      else printWaitStatus strsignal None s)"

fun command_loop :: "(int \<Rightarrow> string) \<Rightarrow> (int \<Rightarrow> string) \<Rightarrow> string \<Rightarrow> (string \<Rightarrow> ('z shell_scheme, status) prog) \<Rightarrow> string list
    \<Rightarrow> ('z shell_scheme, unit) prog" where
  "command_loop strerror strsignal name sys [] =
     thenp (printf_out ''Command: '') (thenp fflush_stdout (exit_process EXIT_SUCCESS))"
| "command_loop strerror strsignal name sys (str # strs) =
     thenp (printf_out ''Command: '') (thenp fflush_stdout
     (bindp (sys (c_string str)) (\<lambda>s.
        thenp (printf_out (name @ ''() returned: '' @ raw_status s))
        (if s = - 1 then errExit strerror name
         else thenp (show_status strsignal s) (command_loop strerror strsignal name sys strs)))))"

definition simple_system_main :: "(int \<Rightarrow> string) \<Rightarrow> (int \<Rightarrow> string) \<Rightarrow> string \<Rightarrow> ('z shell_scheme, unit) prog" where
  "simple_system_main strerror strsignal input =
     command_loop strerror strsignal ''simple_system'' simple_system (fgets_all (MAX_CMD_LEN - 1) input)"

text \<open>procexec/t_system.c calls \<open>system\<close> of the C library, which is an argument.\<close>

definition t_system_main :: "(string \<Rightarrow> ('z shell_scheme, status) prog) \<Rightarrow> (int \<Rightarrow> string) \<Rightarrow> (int \<Rightarrow> string) \<Rightarrow> string \<Rightarrow> ('z shell_scheme, unit) prog" where
  "t_system_main system strerror strsignal input =
     command_loop strerror strsignal ''system'' system (fgets_all (MAX_CMD_LEN - 1) input)"

section \<open>The lines of the input\<close>

lemma concat_fgets_all: "0 < k \<Longrightarrow> concat (fgets_all k s) = s"
  by (induction k s rule: fgets_all.induct) (auto split: prod.splits dest: fgets_split simp del: fgets.simps)

lemma length_fgets_all: "l \<in> set (fgets_all k s) \<Longrightarrow> length l \<le> k"
  by (induction k s rule: fgets_all.induct) (fastforce split: prod.splits dest: sym [THEN fgets_split] simp del: fgets.simps)+

lemma split_lines_nonempty: "[] \<notin> set (split_lines le s)"
  by (induction s) (auto split: list.splits)

text \<open>A line that fits is read whole.\<close>

lemma fgets_line:
  "s \<noteq> [] \<Longrightarrow> length (hd (split_lines NL s)) \<le> k
    \<Longrightarrow> \<exists>r. fgets k s = (hd (split_lines NL s), r) \<and> split_lines NL r = tl (split_lines NL s)"
proof (induction k s rule: fgets.induct)
  case (1 s)
  then show ?case using split_lines_nonempty [of NL s] by (cases "split_lines NL s") auto
next
  case (3 k c s)
  show ?case
  proof (cases "c = NL")
    case False
    show ?thesis
    proof (cases "s = []")
      case True
      then show ?thesis using False by (cases k) simp_all
    next
      case s: False
      then obtain l ls where "split_lines NL s = l # ls"
        by (cases "split_lines NL s") auto
      then show ?thesis using 3 False s by auto
    qed
  qed simp
qed auto

lemma fgets_all_lines:
  "list_all (\<lambda>l. length l \<le> k) (split_lines NL s) \<Longrightarrow> fgets_all k s = split_lines NL s"
proof (induction k s rule: fgets_all.induct)
  case (3 k c s)
  let ?ls = "split_lines NL (c # s)"
  obtain l ls where ls: "?ls = l # ls"
    by (cases ?ls) (simp_all del: split_lines.simps)
  then obtain r where "fgets (Suc k) (c # s) = (l, r)" "split_lines NL r = ls"
    using fgets_line [of "c # s" "Suc k"] 3(2) by (auto simp del: split_lines.simps)
  then show ?case using 3 ls by (simp del: split_lines.simps fgets.simps)
next
  case (2 c s)
  then show ?case using split_lines_nonempty [of NL "c # s"] by (cases "split_lines NL (c # s)") (auto simp del: split_lines.simps)
qed simp


section \<open>What the loop does\<close>

fun launch_change :: "launch \<Rightarrow> change option" where
  "launch_change (Ran c) = Some c"
| "launch_change No_Shell = Some (Exited 127)"
| "launch_change _ = None"

definition good_launch :: "launch \<Rightarrow> bool" where
  "good_launch l \<longleftrightarrow> (case launch_change l of None \<Rightarrow> False | Some c \<Rightarrow> possible c \<and> ended c)"

fun out_text :: "chunk list \<Rightarrow> string" where
  "out_text [] = []"
| "out_text (OutText s # cs) = s @ out_text cs"
| "out_text (ErrText s # cs) = out_text cs"

definition said :: "'z console_scheme \<Rightarrow> string" where
  "said m = out_text (con_seen m) @ con_pending m"

definition told_status :: "(int \<Rightarrow> string) \<Rightarrow> change \<Rightarrow> string" where
  "told_status strsignal c = (if c = Exited 127 then ''(Probably) could not invoke shell'' @ [NL] else told strsignal c)"

definition dialogue :: "(int \<Rightarrow> string) \<Rightarrow> string \<Rightarrow> launch \<Rightarrow> string" where
  "dialogue strsignal name l = (case launch_change l of None \<Rightarrow> []
     | Some c \<Rightarrow> ''Command: '' @ name @ ''() returned: '' @ raw_status (wait_status c) @ told_status strsignal c)"

definition commands_run :: "string list \<Rightarrow> launch list \<Rightarrow> string list" where
  "commands_run strs ls = map (\<lambda>(s, l). c_string s) (filter (\<lambda>(s, l). l \<noteq> No_Shell) (zip strs ls))"

lemma out_text_append [simp]: "out_text (a @ b) = out_text a @ out_text b"
  by (induction a rule: out_text.induct) simp_all

lemma fflush_said: "fflush_stdout m = Ret () (m\<lparr>con_seen := flushed m, con_pending := []\<rparr>)"
  by (simp add: fflush_stdout_def)

lemma out_text_flushed: "out_text (flushed m) = said m"
  by (simp add: flushed_def said_def)

lemma status_not_failed: "possible c \<Longrightarrow> wait_status c \<noteq> - 1"
proof
  assume "possible c" "wait_status c = - 1"
  moreover have "read_status (- 1) = None" by code_simp
  ultimately show False using read_wait_status by fastforce
qed

lemma show_status_told:
  assumes "possible c"
  shows "show_status strsignal (wait_status c) m = Ret () (m\<lparr>con_pending := con_pending m @ told_status strsignal c\<rparr>)"
proof -
  have "WIFEXITED (wait_status c) \<and> WEXITSTATUS (wait_status c) = 127 \<longleftrightarrow> c = Exited 127"
    using read_wait_status [OF assms] exited_word [of 127]
    by (auto simp: read_status_def WIFEXITED_def simp del: wait_status.simps split: if_splits)
  then show ?thesis
    by (auto simp: show_status_def told_status_def told_by_print [OF assms] printf_out_def simp del: wait_status.simps)
qed

lemma simple_system_good:
  assumes "sh_launches m = l # ls" "launch_change l = Some c"
  shows "simple_system command m = Ret (wait_status c)
     (m\<lparr>sh_launches := ls, sh_ran := sh_ran m @ (if l = No_Shell then [] else [command])\<rparr>)"
  using assms by (cases l) (simp_all add: simple_system_def next_launch_def bindp_unfold thenp_unfold run_command_def del: wait_status.simps)

lemma command_loop_step:
  assumes "sh_launches m = l # ls" "launch_change l = Some c" "possible c"
  shows "\<exists>m'. command_loop strerror strsignal name simple_system (str # strs) m = command_loop strerror strsignal name simple_system strs m'
     \<and> sh_launches m' = ls \<and> said m' = said m @ dialogue strsignal name l \<and> sh_ran m' = sh_ran m @ (if l = No_Shell then [] else [c_string str])"
proof -
  define v where "v = m\<lparr>con_pending := con_pending m @ ''Command: ''\<rparr>"
  define u where "u = v\<lparr>con_seen := flushed v, con_pending := []\<rparr>"
  define m' where "m' = u\<lparr>sh_launches := ls, sh_ran := sh_ran u @ (if l = No_Shell then [] else [c_string str]),
     con_pending := (name @ ''() returned: '' @ raw_status (wait_status c)) @ told_status strsignal c\<rparr>"
  have u: "sh_launches u = l # ls" "con_pending u = []" "sh_ran u = sh_ran m" "said u = said m @ ''Command: ''"
    using assms(1) by (simp_all add: u_def v_def said_def flushed_def)
  have "command_loop strerror strsignal name simple_system (str # strs) m = command_loop strerror strsignal name simple_system strs m'"
    using u simple_system_good [OF u(1) assms(2), of "c_string str"] status_not_failed [OF assms(3)]
    by (simp add: thenp_unfold bindp_unfold printf_out_def fflush_said show_status_told [OF assms(3)] v_def [symmetric] u_def [symmetric]
        m'_def del: wait_status.simps)
  moreover have "said m' = said m @ dialogue strsignal name l"
    using u(2,4) assms(2) by (simp add: m'_def said_def dialogue_def del: wait_status.simps)
  ultimately show ?thesis
    using u(3) by (intro exI [of _ m']) (simp add: m'_def)
qed


lemma command_loop_prefix:
  assumes "list_all good_launch ls" "length us = length ls" "sh_launches m = ls @ rest"
  shows "\<exists>m'. command_loop strerror strsignal name simple_system (us @ vs) m = command_loop strerror strsignal name simple_system vs m'
     \<and> sh_launches m' = rest \<and> said m' = said m @ concat (map (dialogue strsignal name) ls) \<and> sh_ran m' = sh_ran m @ commands_run us ls"
  using assms
proof (induction ls arbitrary: us m)
  case Nil
  then show ?case by (auto simp: commands_run_def intro: exI [of _ m])
next
  case (Cons l ls)
  obtain str strs where us: "us = str # strs" "length strs = length ls"
    using Cons.prems(2) by (cases us) auto
  obtain c where c: "launch_change l = Some c" "possible c"
    using Cons.prems(1) by (auto simp: good_launch_def split: option.splits)
  obtain v where v: "command_loop strerror strsignal name simple_system (str # (strs @ vs)) m = command_loop strerror strsignal name simple_system (strs @ vs) v"
      "sh_launches v = ls @ rest" "said v = said m @ dialogue strsignal name l" "sh_ran v = sh_ran m @ (if l = No_Shell then [] else [c_string str])"
    using command_loop_step [of m l "ls @ rest" c] Cons.prems(3) c by fastforce
  moreover obtain m' where "command_loop strerror strsignal name simple_system (strs @ vs) v = command_loop strerror strsignal name simple_system vs m'"
      "sh_launches m' = rest" "said m' = said v @ concat (map (dialogue strsignal name) ls)" "sh_ran m' = sh_ran v @ commands_run strs ls"
    using Cons.IH [of strs v] Cons.prems(1) us(2) v(2) by auto
  ultimately show ?case
    using us(1) by (intro exI [of _ m']) (simp add: commands_run_def del: command_loop.simps)
qed

lemma command_loop_end:
  "\<exists>m'. command_loop strerror strsignal name sys [] m = Exit EXIT_SUCCESS m' \<and> said m' = said m @ ''Command: '' \<and> sh_ran m' = sh_ran m"
  by (simp add: thenp_unfold printf_out_def fflush_said exit_process_Exit said_def flushed_def)

lemma dec_int_failed: "dec_int (- 1) = ''-1''" "dec_int 255 = ''255''"
  by code_simp+

lemma hex_failed: "hexs (unat (- 1 :: 32 word)) = ''ffffffff''"
proof -
  have "hex_digit 15 = CHR ''f''" by code_simp
  then show ?thesis by (simp add: unsigned_minus_1_eq_mask mask_numeral hexs.simps)
qed

lemma failed_raw: "raw_status (- 1) = ''status=0xffffffff (-1,255)'' @ [NL]"
  by (simp add: raw_status_def hex_failed dec_int_failed pad0_def)

lemma errExit_said:
  "\<exists>k m'. errExit strerror msg m = Exit k m' \<and> k \<noteq> EXIT_SUCCESS \<and> said m' = said m \<and> sh_ran m' = sh_ran m" for m :: "'z shell_scheme"
  by (simp add: errExit_def bindp_unfold thenp_unfold outputError_def fflush_said fputs_stderr_def terminate_def abort_process_def
      exit_process_Exit sys_exit_def EXIT_SUCCESS_def out_text_flushed said_def flushed_def)

definition ran_by :: "string \<Rightarrow> launch \<Rightarrow> string list" where
  "ran_by str l = (case l of No_Wait e \<Rightarrow> [c_string str] | _ \<Rightarrow> [])"

lemma command_loop_fails:
  assumes "sh_launches m = l # ls" "launch_change l = None"
  shows "\<exists>k m'. command_loop strerror strsignal name simple_system (str # strs) m = Exit k m' \<and> k \<noteq> EXIT_SUCCESS
     \<and> said m' = said m @ ''Command: '' @ name @ ''() returned: status=0xffffffff (-1,255)'' @ [NL] \<and> sh_ran m' = sh_ran m @ ran_by str l"
proof -
  define v where "v = m\<lparr>con_pending := con_pending m @ ''Command: ''\<rparr>"
  define u where "u = v\<lparr>con_seen := flushed v, con_pending := []\<rparr>"
  have u: "sh_launches u = l # ls" "con_pending u = []" "sh_ran u = sh_ran m" "said u = said m @ ''Command: ''"
    using assms(1) by (simp_all add: u_def v_def said_def flushed_def)
  obtain e where s: "simple_system (c_string str) u = Ret (- 1) (u\<lparr>sh_launches := ls, sh_ran := sh_ran u @ ran_by str l, con_errno := e\<rparr>)"
    using u(1) assms(2) by (cases l) (auto simp: simple_system_def next_launch_def bindp_unfold thenp_unfold run_command_def failed_def ran_by_def)
  define t where "t = u\<lparr>sh_launches := ls, sh_ran := sh_ran u @ ran_by str l, con_errno := e,
     con_pending := name @ ''() returned: '' @ raw_status (- 1)\<rparr>"
  have "command_loop strerror strsignal name simple_system (str # strs) m = errExit strerror name t"
    using s u(2) by (simp add: thenp_unfold bindp_unfold printf_out_def fflush_said v_def [symmetric] u_def [symmetric] t_def)
  moreover have "said t = said m @ ''Command: '' @ name @ ''() returned: status=0xffffffff (-1,255)'' @ [NL]" "sh_ran t = sh_ran m @ ran_by str l"
    using u by (simp_all add: t_def said_def failed_raw)
  ultimately show ?thesis
    using errExit_said [of strerror name t] by auto
qed


section \<open>Properties of the shell\<close>

text \<open>
  C30: with commands that end, the shell gives every piece of its input to a command, in order, and all of the input: each line is one command
  when it fits the buffer, and a longer line becomes several. It shows for each how it ended and exits with success at the end of input; a
  shell that cannot be run and a command that exits with 127 are shown alike.
\<close>

theorem shell_runs:
  assumes "list_all good_launch ls" "sh_launches m = ls @ rest" "length (fgets_all (MAX_CMD_LEN - 1) input) = length ls"
  shows "\<exists>m'. simple_system_main strerror strsignal input m = Exit EXIT_SUCCESS m'
    \<and> said m' = said m @ concat (map (dialogue strsignal ''simple_system'') ls) @ ''Command: ''
    \<and> sh_ran m' = sh_ran m @ commands_run (fgets_all (MAX_CMD_LEN - 1) input) ls
    \<and> concat (fgets_all (MAX_CMD_LEN - 1) input) = input
    \<and> (list_all (\<lambda>l. length l < MAX_CMD_LEN) (split_lines NL input) \<longrightarrow> fgets_all (MAX_CMD_LEN - 1) input = split_lines NL input)
    \<and> dialogue strsignal name No_Shell = dialogue strsignal name (Ran (Exited 127))"
proof -
  let ?us = "fgets_all (MAX_CMD_LEN - 1) input"
  obtain v where v: "command_loop strerror strsignal ''simple_system'' simple_system (?us @ []) m
        = command_loop strerror strsignal ''simple_system'' simple_system [] v"
      "said v = said m @ concat (map (dialogue strsignal ''simple_system'') ls)" "sh_ran v = sh_ran m @ commands_run ?us ls"
    using command_loop_prefix [OF assms(1,3,2)] by blast
  moreover obtain m' where "command_loop strerror strsignal ''simple_system'' simple_system [] v = Exit EXIT_SUCCESS m'"
      "said m' = said v @ ''Command: ''" "sh_ran m' = sh_ran v"
    using command_loop_end by blast
  moreover have "concat ?us = input"
    by (rule concat_fgets_all) (simp add: MAX_CMD_LEN_def)
  moreover have "list_all (\<lambda>l. length l < MAX_CMD_LEN) (split_lines NL input) \<longrightarrow> ?us = split_lines NL input"
    by (intro impI fgets_all_lines) (auto simp: MAX_CMD_LEN_def list_all_iff)
  moreover have "dialogue strsignal name No_Shell = dialogue strsignal name (Ran (Exited 127))"
    by (simp add: dialogue_def)
  ultimately show ?thesis
    by (intro exI [of _ m']) (simp add: simple_system_main_def del: command_loop.simps)
qed

definition shell_example :: "launch list \<Rightarrow> shell" where
  "shell_example ls = console.extend console_example (shell.fields ls [])"

theorem shell_runs_witness:
  "\<exists>m'. simple_system_main (\<lambda>_. '''') (\<lambda>_. '''') (''false'' @ [NL] @ ''true'') (shell_example [Ran (Exited 1), No_Shell]) = Exit EXIT_SUCCESS m'
     \<and> sh_ran m' = [''false'' @ [NL]]"
proof -
  have f: "fgets_all (MAX_CMD_LEN - 1) (''false'' @ [NL] @ ''true'') = [''false'' @ [NL], ''true'']"
    by code_simp
  then have "commands_run (fgets_all (MAX_CMD_LEN - 1) (''false'' @ [NL] @ ''true'')) [Ran (Exited 1), No_Shell] = [''false'' @ [NL]]"
    by (simp add: commands_run_def c_string_def NL_def NUL_def)
  then show ?thesis
    using shell_runs [of "[Ran (Exited 1), No_Shell]" "shell_example [Ran (Exited 1), No_Shell]" "[]" "''false'' @ [NL] @ ''true''" "\<lambda>_. ''''" "\<lambda>_. ''''" "''x''"] f
    by (auto simp: good_launch_def shell_example_def shell.defs console.defs)
qed

text \<open>
  When \<open>fork\<close> or \<open>waitpid\<close> fails, the shell ends with a failure behind the commands that were run before, and what it shows is
  complete up to the status -1; the command that was being run is the last one.
\<close>

theorem shell_fails:
  assumes "list_all good_launch ls" "sh_launches m = ls @ bad # rest" "launch_change bad = None"
    and "fgets_all (MAX_CMD_LEN - 1) input = us @ u # vs" "length us = length ls"
  shows "\<exists>k m'. simple_system_main strerror strsignal input m = Exit k m' \<and> k \<noteq> EXIT_SUCCESS
    \<and> said m' = said m @ concat (map (dialogue strsignal ''simple_system'') ls) @ ''Command: simple_system() returned: status=0xffffffff (-1,255)'' @ [NL]
    \<and> sh_ran m' = sh_ran m @ commands_run us ls @ ran_by u bad"
proof -
  obtain v where v: "simple_system_main strerror strsignal input m
        = command_loop strerror strsignal ''simple_system'' simple_system (u # vs) v" "sh_launches v = bad # rest"
      "said v = said m @ concat (map (dialogue strsignal ''simple_system'') ls)" "sh_ran v = sh_ran m @ commands_run us ls"
    using command_loop_prefix [OF assms(1,5,2)] unfolding simple_system_main_def assms(4) by blast
  then show ?thesis
    using command_loop_fails [OF v(2) assms(3), of strerror strsignal "''simple_system''" u vs] by (simp del: command_loop.simps)
qed

theorem shell_fails_witness:
  "\<exists>k m'. simple_system_main (\<lambda>_. '''') (\<lambda>_. '''') (''a'' @ [NL] @ ''b'') (shell_example [Ran (Exited 0), No_Fork 11]) = Exit k m'
     \<and> k \<noteq> EXIT_SUCCESS \<and> sh_ran m' = [''a'' @ [NL]]"
proof -
  have f: "fgets_all (MAX_CMD_LEN - 1) (''a'' @ [NL] @ ''b'') = [''a'' @ [NL]] @ ''b'' # []"
    by code_simp
  show ?thesis
    using shell_fails [OF _ _ _ f, of "[Ran (Exited 0)]" "shell_example [Ran (Exited 0), No_Fork 11]" "No_Fork 11" "[]" "\<lambda>_. ''''" "\<lambda>_. ''''"]
    by (auto simp: good_launch_def shell_example_def shell.defs console.defs commands_run_def c_string_def NL_def NUL_def ran_by_def)
qed

end
