(* ===== verification/Signal_Count.thy ===== *)
theory Signal_Count
  imports Get_Num Posix_Io
begin

text \<open>
  signals/sig_sender.c, signals/sig_receiver.c and lib/signal_functions.c: a program that sends signals, one that counts those it catches, and
  the printing of signal sets. A standard signal that is sent again while it is pending is lost; realtime signals
  queue. \<open>strsignal\<close> of the C library is an argument. SIGKILL and SIGSTOP, which cannot be caught, are not among the signals that arrive.
\<close>

section \<open>Signal sets\<close>

definition SIGINT :: nat where "SIGINT = 2"

type_synonym sigset = "nat \<Rightarrow> bool"

fun print_members :: "(nat \<Rightarrow> string) \<Rightarrow> string \<Rightarrow> sigset \<Rightarrow> nat list \<Rightarrow> nat \<Rightarrow> ('z console_scheme, nat) prog" where
  "print_members strsignal prefix sset [] cnt = retp cnt"
| "print_members strsignal prefix sset (sig # sigs) cnt =
     (if sset sig then thenp (printf_out (prefix @ dec sig @ '' ('' @ strsignal sig @ '')'' @ [NL])) (print_members strsignal prefix sset sigs (cnt + 1))
      else print_members strsignal prefix sset sigs cnt)"

definition printSigset :: "(nat \<Rightarrow> string) \<Rightarrow> string \<Rightarrow> sigset \<Rightarrow> ('z console_scheme, unit) prog" where
  "printSigset strsignal prefix sset =
     bindp (print_members strsignal prefix sset [1..<NSIG] 0) (\<lambda>cnt.
       if cnt = 0 then printf_out (prefix @ ''<empty signal set>'' @ [NL]) else retp ())"

text \<open>The set that \<open>sigprocmask\<close> or \<open>sigpending\<close> gives, None when it fails.\<close>

definition print_set :: "(nat \<Rightarrow> string) \<Rightarrow> string option \<Rightarrow> sigset option \<Rightarrow> ('z console_scheme, int) prog" where
  "print_set strsignal msg got =
     thenp (case msg of None \<Rightarrow> retp () | Some t \<Rightarrow> printf_out t)
     (case got of None \<Rightarrow> retp (- 1) | Some sset \<Rightarrow> thenp (printSigset strsignal [TAB, TAB] sset) (retp 0))"

definition printSigMask :: "(nat \<Rightarrow> string) \<Rightarrow> string option \<Rightarrow> sigset option \<Rightarrow> ('z console_scheme, int) prog" where
  "printSigMask strsignal msg currMask = print_set strsignal msg currMask"

definition printPendingSigs :: "(nat \<Rightarrow> string) \<Rightarrow> string option \<Rightarrow> sigset option \<Rightarrow> ('z console_scheme, int) prog" where
  "printPendingSigs strsignal msg pendingSigs = print_set strsignal msg pendingSigs"


section \<open>The sender\<close>







section \<open>The receiver\<close>

text \<open>How often each signal is pending; whether all are blocked; the counters; what the handler sets on SIGINT.\<close>

record receiver = console +
  rc_blocked :: bool
  rc_pending :: "nat \<Rightarrow> nat"
  rc_sigCnt :: "nat \<Rightarrow> int"
  rc_gotSigint :: bool













section \<open>Printing\<close>





section \<open>Counting\<close>

definition caught :: "(nat \<Rightarrow> nat) \<Rightarrow> 'z receiver_scheme \<Rightarrow> 'z receiver_scheme" where
  "caught k m = m\<lparr>rc_sigCnt := (\<lambda>i. rc_sigCnt m i + (if i = SIGINT then 0 else int (k i))), rc_gotSigint := (rc_gotSigint m \<or> 0 < k SIGINT)\<rparr>"


lemma caught_0 [simp]: "caught (\<lambda>i. 0) m = m"
proof -
  have "(\<lambda>i. rc_sigCnt m i + (if i = SIGINT then 0 else int 0)) = rc_sigCnt m"
    by auto
  then show ?thesis by (simp only: caught_def) simp
qed


lemma caught_cong: "(\<And>i. k i = l i) \<Longrightarrow> caught k m = caught l m"
  by presburger

lemma caught_none [simp]: "caught (count_list []) m = m"
  using caught_cong [of "count_list []" "\<lambda>i. 0" m] by simp











section \<open>The two programs\<close>
















section \<open>Properties\<close>




end
