(* ===== verification/Chown.thy ===== *)
theory Chown
  imports Posix_Fs
begin

text \<open>
  cmd/src/chown.c: the ids that OWNER:GROUP names, and the change of the owners of files and,
  with -R, of what lies below a directory. The buffer for the name of a child is grown as it is
  needed; its length is kept.
\<close>

section \<open>The state of the program\<close>

text \<open>The globals, and the two databases that \<open>getpwnam\<close> and \<open>getgrnam\<close> look into.\<close>

record chown_state = fs +
  ch_users :: "string \<Rightarrow> 32 word option"
  ch_groups :: "string \<Rightarrow> 32 word option"
  ch_cflag :: bool
  ch_vflag :: bool
  ch_hflag :: bool
  ch_Rflag :: bool
  ch_rfile :: "string option"
  ch_owner :: "32 word"
  ch_group :: "32 word"
  ch_from_owner :: "32 word"
  ch_from_group :: "32 word"

definition chown_start :: "(string \<Rightarrow> 32 word option) \<Rightarrow> (string \<Rightarrow> 32 word option) \<Rightarrow> fs \<Rightarrow> chown_state" where
  "chown_start users groups w = fs.extend w
     \<lparr>ch_users = users, ch_groups = groups, ch_cflag = False, ch_vflag = False, ch_hflag = False,
      ch_Rflag = False, ch_rfile = None, ch_owner = - 1, ch_group = - 1, ch_from_owner = - 1,
      ch_from_group = - 1\<rparr>"

definition chown_usage_text :: string where
  "chown_usage_text = concat (map (\<lambda>l. l @ [NL])
   [''Usage: chown [OPTION]... [OWNER][:[GROUP]] FILE...'',
    ''  or:  chown [OPTION]... --reference=RFILE FILE...'',
    ''Change the owner and/or group of each FILE to OWNER and/or GROUP.'',
    ''With --reference, change the owner and group of each FILE to those of RFILE.'',
    [],
    ''  -c, --changes          like verbose but report only when a change is made'',
    ''  -f, --silent, --quiet  suppress most error messages'',
    ''  -v, --verbose          output a diagnostic for every file processed'',
    ''     --dereference      affect the referent of each symbolic link (this is'',
    ''                         the default), rather than the symbolic link itself'',
    ''  -h, --no-dereference   affect symbolic links instead of any referenced file'',
    ''                         (useful only on systems that can change the'',
    ''                         ownership of a symlink)'',
    ''      --from=CURRENT_OWNER:CURRENT_GROUP'',
    ''                         change the owner and/or group of each file only if'',
    ''                         its current owner and/or group match those specified'',
    ''                         here.  Either may be omitted, in which case a match'',
    ''                         is not required for the omitted attribute'',
    ''      --no-preserve-root  do not treat '' @ quoted ''/'' @ '' specially (the default)'',
    ''      --preserve-root    fail to operate recursively on '' @ quoted ''/'',
    ''      --reference=RFILE  use RFILE's owner and group rather than'',
    ''                         specifying OWNER:GROUP values'',
    ''  -R, --recursive        operate on files and directories recursively'',
    [],
    ''The following options modify how a hierarchy is traversed when the -R'',
    ''option is also specified.  If more than one is specified, only the final'',
    ''one takes effect.'',
    [],
    ''  -H                     if a command line argument is a symbolic link'',
    ''                         to a directory, traverse it'',
    ''  -L                     traverse every symbolic link to a directory'',
    ''                        encountered'',
    ''  -P                     do not traverse any symbolic links (default)'',
    [],
    ''      --help     display this help and exit'',
    ''      --version  output version information and exit'',
    [],
    ''Owner is unchanged if missing.  Group is unchanged if missing, but changed''
      @ ''to login group if implied by a '' @ quoted '':'' @ '' following a symbolic OWNER.'',
    ''OWNER and GROUP may be numeric as well as symbolic.''])"

definition chown_usage :: "int \<Rightarrow> ('z io_scheme, 'a) prog" where
  "chown_usage status =
     thenp (if status = EXIT_SUCCESS then put chown_usage_text
            else eputs (''Try '' @ quoted ''%s --help'' @ '' for more information.'') [''chown''])
       (exitp status)"

section \<open>OWNER:GROUP\<close>

text \<open>A name that is not found and a lookup that fails are a null pointer alike.\<close>

definition getpwnam :: "string \<Rightarrow> (chown_state, 32 word option) prog" where
  "getpwnam name w =
     (case outcome_of w of Fail e \<Rightarrow> Ret None (set_errno e (tick w)) | _ \<Rightarrow> Ret (ch_users w name) (tick w))"

definition getgrnam :: "string \<Rightarrow> (chown_state, 32 word option) prog" where
  "getgrnam name w =
     (case outcome_of w of Fail e \<Rightarrow> Ret None (set_errno e (tick w)) | _ \<Rightarrow> Ret (ch_groups w name) (tick w))"

definition invalid_user :: "string \<Rightarrow> ('z io_scheme, 'a) prog" where
  "invalid_user ug = thenp (eputs ''%s: invalid usre: %s'' [''chown'', ug]) (exitp EXIT_FAILURE)"

text \<open>
  \<open>parse_name(str, pu, pg)\<close>: \<open>ids\<close> is what \<open>pu\<close> and \<open>pg\<close> point to. The copy of the string is cut
  at the first colon.
\<close>

definition parse_name :: "string \<Rightarrow> 32 word \<times> 32 word \<Rightarrow> (chown_state, 32 word \<times> 32 word) prog" where
  "parse_name str ids =
     (let ug = takeWhile (\<lambda>c. c \<noteq> CHR '':'') str;
          found = (CHR '':'' \<in> set str);
          colon = tl (dropWhile (\<lambda>c. c \<noteq> CHR '':'') str);
          flag = (\<not> (found \<and> ug = []))
      in bindp (if found \<and> colon \<noteq> []
                then bindp (getgrnam colon) (\<lambda>g. case g of None \<Rightarrow> invalid_user ug | Some gid \<Rightarrow> retp gid)
                else retp (snd ids)) (\<lambda>gid.
         bindp (if flag
                then bindp (getpwnam ug) (\<lambda>u. case u of None \<Rightarrow> invalid_user ug | Some uid \<Rightarrow> retp uid)
                else retp (fst ids)) (\<lambda>uid.
         retp (uid, gid))))"

section \<open>The files\<close>

text \<open>
  The loop over a directory. \<open>malloc_len\<close> is the length of \<open>child_file\<close>; \<open>sprintf\<close> writes a NUL
  behind the name.
\<close>

fun chown_entries :: "(string \<Rightarrow> (chown_state, bool) prog) \<Rightarrow> string \<Rightarrow> nat \<Rightarrow> string list \<Rightarrow> bool
    \<Rightarrow> (chown_state, bool) prog" where
  "chown_entries below filename malloc_len [] ok w =
     (case sys_readdir [] w of
        Ret _ w' \<Rightarrow> Ret ok w' | Exit k w' \<Rightarrow> Exit k w' | Undef \<Rightarrow> Undef)"
| "chown_entries below filename malloc_len (name # es) ok w =
     (case sys_readdir (name # es) w of
        Ret None w' \<Rightarrow> Ret ok w'
      | Ret (Some d_name) w' \<Rightarrow>
          if d_name \<noteq> ''.'' \<and> d_name \<noteq> ''..''
          then let need = length filename + length d_name + 2;
                   malloc_len' = (if malloc_len \<le> need then need else malloc_len);
                   child_file = child_path filename d_name in
               if malloc_len' < length child_file + 1 then Undef
               else (case below child_file w' of
                   Ret r w'' \<Rightarrow> chown_entries below filename malloc_len' es (ok \<and> r) w''
                 | Exit k w'' \<Rightarrow> Exit k w'' | Undef \<Rightarrow> Undef)
          else chown_entries below filename malloc_len es ok w'
      | Exit k w' \<Rightarrow> Exit k w' | Undef \<Rightarrow> Undef)"

text \<open>
  A directory that cannot be opened is closed all the same, through a null pointer. The empty
  name has no last character.
\<close>

definition chown_dir :: "(string \<Rightarrow> (chown_state, bool) prog) \<Rightarrow> string \<Rightarrow> (chown_state, bool) prog" where
  "chown_dir below filename =
     bindp (sys_opendir filename) (\<lambda>dir. case dir of
       None \<Rightarrow> thenp (eputs (''%s: cannot access '' @ quoted ''%s'' @ '': %s'') [''chown'', filename]) undefp
     | Some es \<Rightarrow>
         if filename = [] then undefp
         else bindp (chown_entries below filename (2 * length filename + 2) es True) (\<lambda>ok.
              bindp sys_closedir (\<lambda>closed. retp (ok \<and> closed))))"

definition from_mismatch :: "chown_state \<Rightarrow> fnode \<Rightarrow> bool" where
  "from_mismatch g n \<longleftrightarrow> (ch_from_owner g \<noteq> - 1 \<or> ch_from_group g \<noteq> - 1)
     \<and> (ch_from_owner g \<noteq> - 1 \<and> st_uid n \<noteq> ch_from_owner g \<or> ch_from_group g \<noteq> - 1 \<and> st_gid n \<noteq> ch_from_group g)"

definition chown_node :: "(string \<Rightarrow> (chown_state, bool) prog) \<Rightarrow> string \<Rightarrow> fnode \<Rightarrow> (chown_state, bool) prog" where
  "chown_node below filename n =
     bindp (getsp (\<lambda>w. w)) (\<lambda>g.
     if from_mismatch g n then retp True
     else bindp (sys_chown filename (ch_owner g) (ch_group g)) (\<lambda>ok.
       if \<not> ok
       then thenp (eputs (''%s: fail to chown file '' @ quoted ''%s'' @ '': %s'') [''chown'', filename]) (retp False)
       else if ch_Rflag g \<and> S_ISDIR (st_mode n) then chown_dir below filename
       else retp True))"

text \<open>The first argument counts the levels of the recursion that are left (\<open>DEPTH\<close> are enough).\<close>

fun chown_file :: "nat \<Rightarrow> string \<Rightarrow> (chown_state, bool) prog" where
  "chown_file 0 filename = undefp"
| "chown_file (Suc depth) filename =
     thenp (put (filename @ [NL]))
     (bindp (sys_stat filename) (\<lambda>st. case st of
        None \<Rightarrow> thenp (eputs (''%s: failed to get attributes of '' @ quoted ''%s'' @ '': %s'') [''chown'', filename])
                  (exitp EXIT_FAILURE)
      | Some n \<Rightarrow> chown_node (chown_file depth) filename n))"

section \<open>The options and main\<close>

text \<open>
  The cases of the long options fall through: --dereference, which has no argument, into
  --from, and the two about the root into --reference. What \<open>getopt_long\<close> does not know is
  ignored.
\<close>

fun chown_options :: "optev list \<Rightarrow> (chown_state, unit) prog" where
  "chown_options [] = retp ()"
| "chown_options (ev # evs) =
     thenp (case ev of
         Opt c arg \<Rightarrow>
           if c = CHR ''c'' then modifyp (\<lambda>w. w\<lparr>ch_cflag := True\<rparr>)
           else if c = CHR ''f'' then modifyp (\<lambda>w. w\<lparr>ch_cflag := False, ch_vflag := False\<rparr>)
           else if c = CHR ''v'' then modifyp (\<lambda>w. w\<lparr>ch_vflag := True\<rparr>)
           else if c = CHR ''h'' then modifyp (\<lambda>w. w\<lparr>ch_hflag := True\<rparr>)
           else if c = CHR ''R'' then modifyp (\<lambda>w. w\<lparr>ch_Rflag := True\<rparr>)
           else retp ()
       | OptLong name arg \<Rightarrow>
           if name = ''dereference'' \<or> name = ''from''
           then (case arg of
               None \<Rightarrow> undefp
             | Some str \<Rightarrow> bindp (getsp (\<lambda>w. (ch_from_owner w, ch_from_group w))) (\<lambda>ids.
                 bindp (parse_name str ids) (\<lambda>(u, g). modifyp (\<lambda>w. w\<lparr>ch_from_owner := u, ch_from_group := g\<rparr>))))
           else if name = ''no-preserve-root'' \<or> name = ''preserve-root'' \<or> name = ''reference''
           then modifyp (\<lambda>w. w\<lparr>ch_rfile := arg\<rparr>)
           else retp ()
       | OptHelp \<Rightarrow> chown_usage EXIT_SUCCESS
       | OptVersion \<Rightarrow> thenp (put (''Written by rda'' @ [NL])) (exitp EXIT_SUCCESS)
       | OptUnknown \<Rightarrow> retp ())
     (chown_options evs)"

text \<open>The new owner and group: those of the reference file or those of the first operand.\<close>

definition chown_ids :: "string list \<Rightarrow> (chown_state, string list) prog" where
  "chown_ids operands =
     bindp (getsp (\<lambda>w. w)) (\<lambda>w. case ch_rfile w of
       Some rfile \<Rightarrow>
         bindp (sys_stat rfile) (\<lambda>st. case st of
             None \<Rightarrow> thenp (eputs (''%s: failed to get attributes of '' @ quoted ''%s'' @ '': %s'') [''chown'', rfile])
                       (exitp EXIT_FAILURE)
           | Some n \<Rightarrow> thenp (modifyp (\<lambda>w. w\<lparr>ch_owner := st_uid n, ch_group := st_gid n\<rparr>)) (retp operands))
     | None \<Rightarrow>
         bindp (parse_name (hd operands) (ch_owner w, ch_group w)) (\<lambda>(u, g).
           thenp (modifyp (\<lambda>w. w\<lparr>ch_owner := u, ch_group := g\<rparr>)) (retp (tl operands))))"

definition chown_main :: "optev list \<Rightarrow> string list \<Rightarrow> (chown_state, int) prog" where
  "chown_main opts operands =
     thenp (chown_options opts)
     (bindp (getsp ch_rfile) (\<lambda>rfile.
      if length operands < (if rfile \<noteq> None then 1 else 2)
      then thenp (if operands = [] then eputs ''%s: missing operand'' [''chown'']
                  else eputs (''%s: missing operand after '' @ quoted ''%s'') [''chown'', last operands])
             (chown_usage EXIT_FAILURE)
      else bindp (chown_ids operands) (\<lambda>files.
           bindp (all_ok (chown_file DEPTH) True files) (\<lambda>ok.
             retp (if ok then EXIT_SUCCESS else EXIT_FAILURE)))))"

section \<open>No undefined behaviour\<close>

lemma ch_tick [simp]:
  "ch_owner (tick w) = ch_owner w" "ch_group (tick w) = ch_group w" "ch_Rflag (tick w) = ch_Rflag w"
  "ch_from_owner (tick w) = ch_from_owner w" "ch_from_group (tick w) = ch_from_group w"
  "ch_rfile (tick w) = ch_rfile w" "ch_users (tick w) = ch_users w" "ch_groups (tick w) = ch_groups w"
  "io_err (tick w) = io_err w"
  by (cases w; simp add: tick_def)+

lemma ch_put_node [simp]:
  "ch_owner (put_node p n w) = ch_owner w" "ch_group (put_node p n w) = ch_group w"
  "ch_Rflag (put_node p n w) = ch_Rflag w" "ch_from_owner (put_node p n w) = ch_from_owner w"
  "ch_from_group (put_node p n w) = ch_from_group w"
  by (simp_all add: put_node_def)

text \<open>The buffer that the loop has when it writes the name of a child always holds it.\<close>

lemma child_fits:
  "\<not> (if len \<le> length f + length e + 2 then length f + length e + 2 else len) < length (child_path f e) + 1"
  using child_path_length [of f e] by auto

definition calm :: "chown_state \<Rightarrow> bool" where
  "calm w \<longleftrightarrow> names_ok w \<and> no_fail w"

lemma calm_upd [intro, simp]:
  "calm w \<Longrightarrow> calm (tick w)" "calm w \<Longrightarrow> calm (set_errno e w)" "calm w \<Longrightarrow> calm (w\<lparr>io_out := s\<rparr>)"
  "calm w \<Longrightarrow> calm (w\<lparr>io_err := d\<rparr>)"
  by (simp_all add: calm_def no_fail_tick) (simp_all add: no_fail_def set_errno_def)

lemma no_fail_cases: "no_fail w \<Longrightarrow> outcome_of w = Full \<or> (\<exists>k. outcome_of w = Short k)"
  using no_fail_Fail [of w] by (cases "outcome_of w") auto

lemma chown_entries_safe:
  assumes safe: "\<And>f w. length cur < length f \<Longrightarrow> calm w \<Longrightarrow> safe_result calm (func f w)"
    and es: "\<forall>e \<in> set es. e \<noteq> []" and w: "calm w"
  shows "safe_result calm (chown_entries func cur len es ok w)"
  using es w
proof (induction es arbitrary: len ok w)
  case Nil
  then show ?case
    by (auto simp: sys_readdir_def split: outcome.split)
next
  case (Cons name es)
  have longer: "length cur < length (child_path cur name)"
    using child_path_longer Cons.prems(1) by simp
  have rd: "sys_readdir (name # es) w = Ret (Some name) (tick w)"
    using no_fail_cases [of w] Cons.prems(2) by (auto simp: sys_readdir_def calm_def)
  have "safe_result calm (func (child_path cur name) (tick w))"
    using safe [OF longer] Cons.prems(2) by simp
  then show ?case
    using Cons rd child_fits [of len cur name]
    by (cases "func (child_path cur name) (tick w)") (auto simp: Let_def)
qed

lemma calm_node: "calm w \<Longrightarrow> fs_nodes w p = Some n \<Longrightarrow> e \<in> set (n_entries n) \<Longrightarrow> e \<noteq> []"
  by (auto simp: calm_def names_ok_def)

lemma calm_put: "calm w \<Longrightarrow> fs_nodes w p = Some n \<Longrightarrow> n_entries n' = n_entries n \<Longrightarrow> calm (put_node p n' w)"
  using names_ok_put_node [of w p n n'] by (simp add: calm_def)

lemma chown_file_safe:
  "f \<noteq> [] \<Longrightarrow> 0 < depth \<Longrightarrow> PATH_MAX < depth + length f \<Longrightarrow> calm w \<Longrightarrow> safe_result calm (chown_file depth f w)"
proof (induction depth arbitrary: f w)
  case (Suc depth)
  define v where "v = tick (w\<lparr>io_out := io_out w @ f @ [NL]\<rparr>)"
  have v: "calm v" using Suc.prems(4) by (simp add: v_def)
  have nodes: "fs_nodes v = fs_nodes w" by (simp add: v_def)
  show ?case
  proof (cases "length f < PATH_MAX \<and> fs_nodes w f \<noteq> None")
    case False
    then show ?thesis
      using no_fail_cases [of "w\<lparr>io_out := io_out w @ f @ [NL]\<rparr>"] Suc.prems(4) v
      by (auto simp: thenp_unfold bindp_unfold put_def sys_stat_def eputs_def calm_def v_def no_fail_def)
  next
    case True
    then obtain n where n: "fs_nodes w f = Some n" and len: "length f < PATH_MAX" by auto
    have step: "chown_file (Suc depth) f w = chown_node (chown_file depth) f n v"
      using Suc.prems(4) n len by (simp add: thenp_unfold bindp_unfold put_def v_def sys_stat_ok calm_def no_fail_def)
    define u where "u = put_node f (n\<lparr>st_uid := (if ch_owner v = - 1 then st_uid n else ch_owner v),
        st_gid := (if ch_group v = - 1 then st_gid n else ch_group v)\<rparr>) (tick v)"
    have u: "calm u"
      using calm_put [of "tick v" f n] v n nodes by (simp add: u_def)
    have ch: "sys_chown f (ch_owner v) (ch_group v) v = Ret True u"
      using v n nodes len sys_chown_ok [of v f n] by (simp add: u_def calm_def)
    have below: "safe_result calm (chown_file depth f' w')" if "length f < length f'" "calm w'" for f' w'
      using that len Suc.prems(3) by (intro Suc.IH) auto
    have dir: "safe_result calm (chown_dir (chown_file depth) f u)" if d: "S_ISDIR (st_mode n)"
    proof -
      have "sys_opendir f u = Ret (Some (n_entries n)) (tick u)"
        using no_fail_cases [of u] u len d by (auto simp: sys_opendir_def u_def calm_def)
      moreover have "safe_result calm (chown_entries (chown_file depth) f (2 * length f + 2) (n_entries n) True (tick u))"
        using below u calm_node [OF Suc.prems(4) n] by (intro chown_entries_safe) auto
      ultimately show ?thesis
        using Suc.prems(1)
        by (cases "chown_entries (chown_file depth) f (2 * length f + 2) (n_entries n) True (tick u)")
          (auto simp: chown_dir_def bindp_unfold sys_closedir_def split: outcome.split)
    qed
    show ?thesis
      unfolding step using v u ch dir by (auto simp: chown_node_def bindp_unfold)
  qed
qed simp

section \<open>A tree of files\<close>

text \<open>The files that -R comes to from \<open>f\<close>.\<close>

inductive below :: "(string \<Rightarrow> fnode option) \<Rightarrow> string \<Rightarrow> string \<Rightarrow> bool" for N where
  here: "below N f f"
| child: "N f = Some n \<Longrightarrow> S_ISDIR (st_mode n) \<Longrightarrow> e \<in> set (n_entries n) \<Longrightarrow> e \<noteq> ''.'' \<Longrightarrow> e \<noteq> ''..'' \<Longrightarrow>
    below N (child_path f e) p \<Longrightarrow> below N f p"

lemma below_dir:
  "N f = Some n \<Longrightarrow> S_ISDIR (st_mode n) \<Longrightarrow>
     below N f p \<longleftrightarrow> p = f \<or> (\<exists>e\<in>set (n_entries n). e \<noteq> ''.'' \<and> e \<noteq> ''..'' \<and> below N (child_path f e) p)"
  by (subst below.simps) auto

lemma below_file: "N f = Some n \<Longrightarrow> \<not> S_ISDIR (st_mode n) \<Longrightarrow> below N f p \<longleftrightarrow> p = f"
  by (subst below.simps) auto

definition reown :: "32 word \<Rightarrow> 32 word \<Rightarrow> fnode \<Rightarrow> fnode" where
  "reown u g n = n\<lparr>st_uid := (if u = - 1 then st_uid n else u), st_gid := (if g = - 1 then st_gid n else g)\<rparr>"

lemma reown_fields [simp]:
  "st_mode (reown u g n) = st_mode n" "n_entries (reown u g n) = n_entries n" "reown u g (reown u g n) = reown u g n"
  by (simp_all add: reown_def)

text \<open>
  A run of -R over the nodes \<open>N\<close>: each node is as it was or has its new owners. \<open>reowned\<close> is the
  effect of a part of the run, on the nodes \<open>P\<close>.
\<close>

definition running :: "(string \<Rightarrow> fnode option) \<Rightarrow> 32 word \<Rightarrow> 32 word \<Rightarrow> chown_state \<Rightarrow> bool" where
  "running N u g w \<longleftrightarrow> no_fail w \<and> ch_owner w = u \<and> ch_group w = g \<and> ch_Rflag w
     \<and> ch_from_owner w = - 1 \<and> ch_from_group w = - 1
     \<and> (\<forall>p. fs_nodes w p = N p \<or> fs_nodes w p = map_option (reown u g) (N p))"

definition reowned :: "(string \<Rightarrow> fnode option) \<Rightarrow> (string \<Rightarrow> bool) \<Rightarrow> 32 word \<Rightarrow> 32 word \<Rightarrow> chown_state \<Rightarrow> chown_state \<Rightarrow> bool" where
  "reowned N P u g w w' \<longleftrightarrow> io_err w' = io_err w
     \<and> (\<forall>p. fs_nodes w' p = (if P p then map_option (reown u g) (N p) else fs_nodes w p))"

lemma running_upd [simp]:
  "running N u g w \<Longrightarrow> running N u g (tick w)" "running N u g w \<Longrightarrow> running N u g (w\<lparr>io_out := s\<rparr>)"
  by (simp_all add: running_def)

lemma running_node:
  assumes "running N u g w" "N p = Some n"
  shows "\<exists>m. fs_nodes w p = Some m \<and> (m = n \<or> m = reown u g n)"
proof -
  have "fs_nodes w p = N p \<or> fs_nodes w p = map_option (reown u g) (N p)"
    using assms(1) unfolding running_def by blast
  then show ?thesis using assms(2) by auto
qed

lemma reowned_trans:
  "reowned N P u g w v \<Longrightarrow> reowned N Q u g v w' \<Longrightarrow> reowned N (\<lambda>p. P p \<or> Q p) u g w w'"
  by (simp add: reowned_def)

lemma reowned_cong: "reowned N P u g w w' \<Longrightarrow> (\<And>p. P p = Q p) \<Longrightarrow> reowned N Q u g w w'"
  by (simp add: reowned_def)

lemma reowned_none [simp]: "reowned N (\<lambda>p. False) u g w (tick w)"
  by (simp add: reowned_def)

lemma reowned_tick: "reowned N P u g (tick w) w' = reowned N P u g w w'" "reowned N P u g w (tick w') = reowned N P u g w w'"
  by (simp_all add: reowned_def)

lemma chown_entries_tree:
  assumes f: "\<And>e w. e \<in> set es \<Longrightarrow> e \<noteq> ''.'' \<Longrightarrow> e \<noteq> ''..'' \<Longrightarrow> running N u g w \<Longrightarrow>
      \<exists>w'. func (child_path cur e) w = Ret True w' \<and> running N u g w' \<and> reowned N (below N (child_path cur e)) u g w w'"
    and w: "running N u g w"
  shows "\<exists>w'. chown_entries func cur len es True w = Ret True w' \<and> running N u g w'
    \<and> reowned N (\<lambda>p. \<exists>e\<in>set es. e \<noteq> ''.'' \<and> e \<noteq> ''..'' \<and> below N (child_path cur e) p) u g w w'"
  using assms
proof (induction es arbitrary: len w)
  case Nil
  then show ?case
    using no_fail_cases [of w] by (auto simp: sys_readdir_def running_def no_fail_tick)
next
  case (Cons e es)
  let ?P = "\<lambda>es p. \<exists>e\<in>set es. e \<noteq> ''.'' \<and> e \<noteq> ''..'' \<and> below N (child_path cur e) p"
  have rd: "sys_readdir (e # es) w = Ret (Some e) (tick w)"
    using no_fail_cases [of w] Cons.prems(2) by (auto simp: sys_readdir_def running_def)
  have IH: "\<exists>w'. chown_entries func cur len es True v = Ret True w' \<and> running N u g w' \<and> reowned N (?P es) u g v w'"
    if "running N u g v" for len v
    using Cons.IH [of v len] Cons.prems(1) that by simp
  show ?case
  proof (cases "e \<noteq> ''.'' \<and> e \<noteq> ''..''")
    case False
    obtain w' where w': "chown_entries func cur len es True (tick w) = Ret True w'" "running N u g w'"
        "reowned N (?P es) u g (tick w) w'"
      using IH [of "tick w" len] Cons.prems(2) by auto
    have "reowned N (?P (e # es)) u g w w'"
      using reowned_cong [OF w'(3), of "?P (e # es)"] False by (auto simp: reowned_tick)
    moreover have "chown_entries func cur len (e # es) True w = Ret True w'"
      using rd False w'(1) by auto
    ultimately show ?thesis
      using w'(2) by blast
  next
    case True
    then obtain v where v: "func (child_path cur e) (tick w) = Ret True v" "running N u g v"
        "reowned N (below N (child_path cur e)) u g (tick w) v"
      using Cons.prems(1) [of e "tick w"] Cons.prems(2) by auto
    define len' where "len' = (if len \<le> length cur + length e + 2 then length cur + length e + 2 else len)"
    obtain w' where w': "chown_entries func cur len' es True v = Ret True w'" "running N u g w'" "reowned N (?P es) u g v w'"
      using IH [OF v(2)] by blast
    have "reowned N (?P (e # es)) u g w w'"
      using reowned_cong [OF reowned_trans [OF v(3) w'(3)], of "?P (e # es)"] True by (auto simp: reowned_tick)
    moreover have "chown_entries func cur len (e # es) True w = Ret True w'"
      using rd True v(1) w'(1) child_fits [of len cur e] by (auto simp: Let_def len'_def split: if_splits)
    ultimately show ?thesis
      using w'(2) by blast
  qed
qed

lemma chown_file_tree:
  assumes N: "\<And>p n e. N p = Some n \<Longrightarrow> e \<in> set (n_entries n) \<Longrightarrow> e \<noteq> []"
  shows "(\<And>p. below N f p \<Longrightarrow> N p \<noteq> None \<and> length p < PATH_MAX) \<Longrightarrow> f \<noteq> [] \<Longrightarrow> PATH_MAX < depth + length f \<Longrightarrow>
    running N u g w \<Longrightarrow>
    \<exists>w'. chown_file depth f w = Ret True w' \<and> running N u g w' \<and> reowned N (below N f) u g w w'"
proof (induction depth arbitrary: f w)
  case 0
  then show ?case using 0(1) [of f] below.here by force
next
  case (Suc depth)
  have len: "length f < PATH_MAX" and Nf: "N f \<noteq> None"
    using Suc.prems(1) [OF below.here] by auto
  then obtain n where n: "N f = Some n" by auto
  define v where "v = tick (w\<lparr>io_out := io_out w @ f @ [NL]\<rparr>)"
  have v: "running N u g v" "fs_nodes v = fs_nodes w" "io_err v = io_err w"
    using Suc.prems(4) by (simp_all add: v_def)
  obtain m where m: "fs_nodes w f = Some m" "m = n \<or> m = reown u g n"
    using running_node [OF Suc.prems(4) n] by blast
  have step: "chown_file (Suc depth) f w = chown_node (chown_file depth) f m v"
    using Suc.prems(4) m len by (simp add: thenp_unfold bindp_unfold put_def v_def sys_stat_ok running_def no_fail_def)
  define x where "x = put_node f (reown u g n) (tick v)"
  have ru: "reown u g m = reown u g n" "st_mode m = st_mode n" "n_entries m = n_entries n"
    using m(2) by auto
  have ch: "sys_chown f u g v = Ret True x"
    using v m len sys_chown_ok [of v f m u g] ru(1) by (simp add: x_def running_def reown_def)
  have x: "running N u g x" "reowned N (\<lambda>p. p = f) u g w x"
    using v n by (auto simp: x_def running_def reowned_def)
  have cfg: "\<not> from_mismatch v m" "ch_owner v = u" "ch_group v = g" "ch_Rflag v"
    using v(1) by (simp_all add: running_def from_mismatch_def)
  show ?case
  proof (cases "S_ISDIR (st_mode n)")
    case False
    then show ?thesis
      unfolding step using ch cfg x ru reowned_cong [OF x(2), of "below N f"] below_file [of N f n, OF n False]
      by (simp add: chown_node_def bindp_unfold)
  next
    case True
    have open_dir: "sys_opendir f x = Ret (Some (n_entries n)) (tick x)"
      using no_fail_cases [of x] x(1) len True by (auto simp: sys_opendir_def x_def running_def)
    have deeper: "\<exists>w'. chown_file depth (child_path f e) y = Ret True w' \<and> running N u g w'
        \<and> reowned N (below N (child_path f e)) u g y w'"
      if e: "e \<in> set (n_entries n)" "e \<noteq> ''.''" "e \<noteq> ''..''" and y: "running N u g y" for e y
    proof (rule Suc.IH [OF _ _ _ y])
      show "\<And>p. below N (child_path f e) p \<Longrightarrow> N p \<noteq> None \<and> length p < PATH_MAX"
        using Suc.prems(1) below.child [of N f n e, OF n True e] by blast
      show "child_path f e \<noteq> []" "PATH_MAX < depth + length (child_path f e)"
        using child_path_longer [OF N [OF n e(1)], of f] Suc.prems(3) by auto
    qed
    let ?P = "\<lambda>p. \<exists>e\<in>set (n_entries n). e \<noteq> ''.'' \<and> e \<noteq> ''..'' \<and> below N (child_path f e) p"
    have "\<exists>y. chown_entries (chown_file depth) f (2 * length f + 2) (n_entries n) True (tick x) = Ret True y
        \<and> running N u g y \<and> reowned N ?P u g (tick x) y"
      by (rule chown_entries_tree) (use deeper x(1) in simp_all)
    then obtain y where y: "chown_entries (chown_file depth) f (2 * length f + 2) (n_entries n) True (tick x) = Ret True y"
        "running N u g y" "reowned N ?P u g (tick x) y"
      by blast
    have "chown_dir (chown_file depth) f x = Ret True (tick y)"
      using open_dir y(1,2) Suc.prems(2) no_fail_cases [of y]
      by (auto simp: chown_dir_def bindp_unfold sys_closedir_def running_def)
    moreover have "reowned N (below N f) u g w (tick y)"
      using reowned_cong [OF reowned_trans [OF x(2) y(3) [unfolded reowned_tick]], of "below N f"] below_dir [of N f n, OF n True]
      by (simp add: reowned_tick)
    ultimately show ?thesis
      unfolding step using ch cfg y(2) ru True by (simp add: chown_node_def bindp_unfold)
  qed
qed

section \<open>Properties\<close>

lemma takeWhile_colon:
  assumes "CHR '':'' \<notin> set user"
  shows "takeWhile (\<lambda>c. c \<noteq> CHR '':'') (user @ CHR '':'' # s) = user"
    "dropWhile (\<lambda>c. c \<noteq> CHR '':'') (user @ CHR '':'' # s) = CHR '':'' # s"
    "takeWhile (\<lambda>c. c \<noteq> CHR '':'') user = user"
proof -
  have a: "\<And>c. c \<in> set user \<Longrightarrow> c \<noteq> CHR '':''"
    using assms by blast
  show "takeWhile (\<lambda>c. c \<noteq> CHR '':'') (user @ CHR '':'' # s) = user"
    using takeWhile_append2 [of user "\<lambda>c. c \<noteq> CHR '':''" "CHR '':'' # s"] a by simp
  show "dropWhile (\<lambda>c. c \<noteq> CHR '':'') (user @ CHR '':'' # s) = CHR '':'' # s"
    using dropWhile_append2 [of user "\<lambda>c. c \<noteq> CHR '':''" "CHR '':'' # s"] a by simp
  show "takeWhile (\<lambda>c. c \<noteq> CHR '':'') user = user"
    using a by (simp add: takeWhile_eq_all_conv)
qed

lemma getpwnam_ok: "no_fail w \<Longrightarrow> getpwnam name w = Ret (ch_users w name) (tick w)"
  using no_fail_cases [of w] by (auto simp: getpwnam_def)

lemma getgrnam_ok: "no_fail w \<Longrightarrow> getgrnam name w = Ret (ch_groups w name) (tick w)"
  using no_fail_cases [of w] by (auto simp: getgrnam_def)

lemma parse_name_forms:
  assumes "no_fail w" "user \<noteq> []" "CHR '':'' \<notin> set user" "ch_users w user = Some u"
    and "grp \<noteq> []" "ch_groups w grp = Some g"
  shows "parse_name user ids w = Ret (u, snd ids) (tick w)"
    "parse_name (user @ '':'' @ grp) ids w = Ret (u, g) (tick (tick w))"
    "parse_name ('':'' @ grp) ids w = Ret (fst ids, g) (tick w)"
    "parse_name (user @ '':'') ids w = Ret (u, snd ids) (tick w)"
  using assms no_fail_tick [OF assms(1)]
  by (simp_all add: parse_name_def bindp_unfold getpwnam_ok getgrnam_ok takeWhile_colon [OF assms(3)] Let_def)

text \<open>
  What OWNER:GROUP means. A user alone gives the user's id; USER:GROUP gives both; :GROUP gives the
  group only; and USER: leaves the group as it is, where the usage text says that it
  becomes the login group.
\<close>

theorem chown_owner_spec:
  assumes "no_fail w" "user \<noteq> []" "CHR '':'' \<notin> set user" "ch_users w user = Some u"
    and "grp \<noteq> []" "ch_groups w grp = Some g"
  shows "parse_name user ids w = Ret (u, snd ids) (tick w)
    \<and> parse_name (user @ '':'' @ grp) ids w = Ret (u, g) (tick (tick w))
    \<and> parse_name ('':'' @ grp) ids w = Ret (fst ids, g) (tick w)
    \<and> parse_name (user @ '':'') ids w = Ret (u, snd ids) (tick w)"
  using parse_name_forms [OF assms] by blast

lemma chown_files_tree:
  assumes N: "\<And>p n e. N p = Some n \<Longrightarrow> e \<in> set (n_entries n) \<Longrightarrow> e \<noteq> []"
    and at_hand: "\<And>f p. f \<in> set fs \<Longrightarrow> below N f p \<Longrightarrow> N p \<noteq> None \<and> length p < PATH_MAX"
    and names: "[] \<notin> set fs" and v: "running N u g v"
  shows "\<exists>w'. all_ok (chown_file DEPTH) True fs v = Ret True w' \<and> running N u g w'
      \<and> reowned N (\<lambda>p. \<exists>f\<in>set fs. below N f p) u g v w'"
  using at_hand names v
proof (induction fs arbitrary: v)
  case Nil
  then show ?case by (simp add: reowned_def)
next
  case (Cons f fs)
  have "\<exists>x. chown_file DEPTH f v = Ret True x \<and> running N u g x \<and> reowned N (below N f) u g v x"
    by (rule chown_file_tree [OF N]) (use Cons.prems in \<open>auto simp: DEPTH_def\<close>)
  then obtain x where x: "chown_file DEPTH f v = Ret True x" "running N u g x" "reowned N (below N f) u g v x"
    by blast
  obtain w' where w': "all_ok (chown_file DEPTH) True fs x = Ret True w'" "running N u g w'"
      "reowned N (\<lambda>p. \<exists>f\<in>set fs. below N f p) u g x w'"
    using Cons.IH [OF _ _ x(2)] Cons.prems(1,2) by auto
  show ?case
    using x(1) w'(1,2) reowned_cong [OF reowned_trans [OF x(3) w'(3)], of "\<lambda>p. \<exists>f\<in>set (f # fs). below N f p"]
    by (simp add: bindp_unfold)
qed

text \<open>
  C26: chown -R USER:GROUP FILE..., with every call succeeding and every file at hand, gives
  exactly the files below the operands the new user and group, keeps the rest of their nodes and all
  other nodes, prints no diagnostic and exits 0.
\<close>

theorem chown_tree:
  assumes "no_fail w" "names_ok w" "user \<noteq> []" "CHR '':'' \<notin> set user" "users user = Some u" "grp \<noteq> []" "groups grp = Some g"
    and "files \<noteq> []" "[] \<notin> set files"
    and "\<And>f p. f \<in> set files \<Longrightarrow> below (fs_nodes w) f p \<Longrightarrow> fs_nodes w p \<noteq> None \<and> length p < PATH_MAX"
  shows "\<exists>w'. chown_main [Opt (CHR ''R'') None] ((user @ '':'' @ grp) # files) (chown_start users groups w) = Ret EXIT_SUCCESS w'
    \<and> (\<forall>p. fs_nodes w' p = (if \<exists>f\<in>set files. below (fs_nodes w) f p then map_option (reown u g) (fs_nodes w p) else fs_nodes w p))
    \<and> io_err w' = io_err w"
proof -
  define N where "N = fs_nodes w"
  define w0 where "w0 = (chown_start users groups w)\<lparr>ch_Rflag := True\<rparr>"
  have w0: "no_fail w0" "fs_nodes w0 = N" "ch_users w0 = users" "ch_groups w0 = groups" "ch_rfile w0 = None"
      "ch_owner w0 = - 1" "ch_group w0 = - 1" "ch_Rflag w0" "ch_from_owner w0 = - 1" "ch_from_group w0 = - 1" "io_err w0 = io_err w"
    using assms(1) by (simp_all add: w0_def chown_start_def fs.defs no_fail_def N_def)
  have spec: "parse_name (user @ '':'' @ grp) (- 1, - 1) w0 = Ret (u, g) (tick (tick w0))"
    using parse_name_forms(2) [of w0 user u grp g] assms w0 by simp
  define w1 where "w1 = (tick (tick w0))\<lparr>ch_owner := u, ch_group := g\<rparr>"
  have w1: "running N u g w1" "fs_nodes w1 = N" "io_err w1 = io_err w"
    using w0 no_fail_tick [OF no_fail_tick [OF w0(1)]] by (simp_all add: w1_def running_def no_fail_def)
  have N: "\<And>p n e. N p = Some n \<Longrightarrow> e \<in> set (n_entries n) \<Longrightarrow> e \<noteq> []"
    using assms(2) by (auto simp: names_ok_def N_def)
  have "\<exists>w'. all_ok (chown_file DEPTH) True files w1 = Ret True w' \<and> running N u g w'
      \<and> reowned N (\<lambda>p. \<exists>f\<in>set files. below N f p) u g w1 w'"
    by (rule chown_files_tree [OF N _ assms(9) w1(1)]) (use assms(10) in \<open>simp_all add: N_def\<close>)
  then obtain w' where w': "all_ok (chown_file DEPTH) True files w1 = Ret True w'"
      "reowned N (\<lambda>p. \<exists>f\<in>set files. below N f p) u g w1 w'"
    by blast
  have "chown_main [Opt (CHR ''R'') None] ((user @ '':'' @ grp) # files) (chown_start users groups w) = Ret EXIT_SUCCESS w'"
    using assms(8) w0 spec w'(1)
    by (cases files) (simp_all add: chown_main_def thenp_unfold bindp_unfold chown_ids_def w0_def [symmetric] w1_def [symmetric])
  then show ?thesis
    using w'(2) w1 by (auto simp: reowned_def N_def)
qed

text \<open>An option that the source reads through a null pointer: --dereference has no argument.\<close>

definition null_option :: "optev \<Rightarrow> bool" where
  "null_option ev \<longleftrightarrow> ev = OptLong ''dereference'' None \<or> ev = OptLong ''from'' None"

lemma calm_fields [simp]:
  "calm w \<Longrightarrow> calm (w\<lparr>ch_cflag := b1\<rparr>)" "calm w \<Longrightarrow> calm (w\<lparr>ch_vflag := b2\<rparr>)" "calm w \<Longrightarrow> calm (w\<lparr>ch_hflag := b3\<rparr>)"
  "calm w \<Longrightarrow> calm (w\<lparr>ch_Rflag := b4\<rparr>)" "calm w \<Longrightarrow> calm (w\<lparr>ch_rfile := r\<rparr>)"
  "calm w \<Longrightarrow> calm (w\<lparr>ch_owner := u, ch_group := g\<rparr>)" "calm w \<Longrightarrow> calm (w\<lparr>ch_from_owner := u, ch_from_group := g\<rparr>)"
  by (simp_all add: calm_def names_ok_def no_fail_def)

lemma calm_ids: "calm w \<Longrightarrow> calm (w\<lparr>ch_cflag := False, ch_vflag := False\<rparr>)"
  by (simp add: calm_def names_ok_def no_fail_def)

lemma parse_name_safe: "calm w \<Longrightarrow> safe_result calm (parse_name s ids w)"
  unfolding parse_name_def Let_def
  by (auto intro!: safe_result_bind simp: getpwnam_ok getgrnam_ok calm_def invalid_user_def thenp_unfold eputs_def
      split: option.split)

lemma chown_options_safe:
  "list_all (\<lambda>ev. \<not> null_option ev) opts \<Longrightarrow> calm w \<Longrightarrow> safe_result calm (chown_options opts w)"
proof (induction opts arbitrary: w)
  case (Cons ev opts)
  have from_ids: "safe_result calm (bindp (parse_name s ids)
      (\<lambda>(u, g). modifyp (\<lambda>w. w\<lparr>ch_from_owner := u, ch_from_group := g\<rparr>)) w)" for s ids
    using Cons.prems(2) by (intro safe_result_bind parse_name_safe) (auto split: prod.split)
  show ?case
    unfolding chown_options.simps thenp_def
  proof (rule safe_result_bind, goal_cases)
    case 1
    show ?case
    proof (cases ev)
      case (OptLong name arg)
      then show ?thesis
        using Cons.prems from_ids by (cases arg) (simp_all add: null_option_def bindp_unfold [of "getsp _"])
    qed (use Cons.prems(2) in \<open>simp_all add: calm_ids chown_usage_def thenp_unfold put_def\<close>)
  next
    case (2 a w')
    then show ?case using Cons.IH Cons.prems(1) by simp
  qed
qed simp

lemma chown_ids_safe:
  assumes "calm w" shows "safe_result calm (chown_ids operands w)"
proof (cases "ch_rfile w")
  case None
  have "safe_result calm (parse_name (hd operands) (ch_owner w, ch_group w) w)"
    using parse_name_safe [OF assms] .
  then show ?thesis
    using None by (cases "parse_name (hd operands) (ch_owner w, ch_group w) w")
      (auto simp: chown_ids_def bindp_unfold thenp_unfold)
next
  case (Some r)
  have "no_fail w" using assms by (simp add: calm_def)
  then show ?thesis
    using Some assms no_fail_cases [of w]
    by (cases "fs_nodes w r") (auto simp: chown_ids_def bindp_unfold thenp_unfold sys_stat_def eputs_def)
qed

lemma chown_ids_files: "chown_ids operands w = Ret files w' \<Longrightarrow> set files \<subseteq> set operands \<or> operands = []"
  by (cases operands) (auto simp: chown_ids_def bindp_unfold thenp_unfold split: option.splits result.splits)

text \<open>
  Chown with any options but a bare --dereference, any operands and any file system whose
  calls fail only for missing files and long names never runs into undefined behaviour: the
  buffer for the name of a child always holds it, and the recursion of -R ends.
\<close>

theorem chown_safe:
  assumes "list_all (\<lambda>ev. \<not> null_option ev) opts" "names_ok w" "no_fail w" "[] \<notin> set operands"
  shows "chown_main opts operands (chown_start users groups w) \<noteq> Undef"
proof -
  have start: "calm (chown_start users groups w)"
    using assms(2,3) by (simp add: calm_def chown_start_def fs.defs names_ok_def no_fail_def)
  have files: "safe_result calm (all_ok (chown_file DEPTH) True files v)" if "set files \<subseteq> set operands" "calm v" for files v
    using that assms(4) by (intro all_ok_safe chown_file_safe) (auto simp: DEPTH_def)
  have "safe_result calm (bindp (chown_ids operands) (\<lambda>files. bindp (all_ok (chown_file DEPTH) True files)
          (\<lambda>ok. retp (if ok then EXIT_SUCCESS else EXIT_FAILURE))) v)" if "calm v" "operands \<noteq> []" for v
    using chown_ids_safe [OF that(1)] files chown_ids_files [of operands v] that(2)
    by (intro safe_result_bind) auto
  then have "safe_result calm (chown_main opts operands (chown_start users groups w))"
    unfolding chown_main_def thenp_def
    by (intro safe_result_bind chown_options_safe assms(1) start)
      (auto simp: chown_usage_def thenp_unfold eputs_def EXIT_FAILURE_def EXIT_SUCCESS_def)
  then show ?thesis by auto
qed

text \<open>A directory with one file, a user and a group.\<close>

definition dir_world :: fs where
  "dir_world = io.extend \<lparr>io_files = (\<lambda>_. None), io_stdin = None, io_stdin_pos = 0, io_stdin_seek = False, io_data = [],
     io_pos = 0, io_open = False, io_seek = False, io_tty = False, io_out = [], io_err = [], io_errno = 0, io_plan = []\<rparr>
    \<lparr>fs_nodes = [''d'' \<mapsto> \<lparr>st_mode = 0x41ED, st_uid = 0, st_gid = 0, n_entries = [''.'', ''..'', ''f'']\<rparr>,
       ''d/f'' \<mapsto> \<lparr>st_mode = 0x81A4, st_uid = 0, st_gid = 0, n_entries = []\<rparr>,
       ''g'' \<mapsto> \<lparr>st_mode = 0x81A4, st_uid = 0, st_gid = 0, n_entries = []\<rparr>]\<rparr>"

lemma dir_world_ok: "no_fail dir_world" "names_ok dir_world"
  by (auto simp: dir_world_def io.extend_def no_fail_def names_ok_def NAME_MAX_def split: if_splits)

lemma dir_world_nodes:
  "fs_nodes dir_world ''d'' = Some \<lparr>st_mode = 0x41ED, st_uid = 0, st_gid = 0, n_entries = [''.'', ''..'', ''f'']\<rparr>"
  "fs_nodes dir_world ''d/f'' = Some \<lparr>st_mode = 0x81A4, st_uid = 0, st_gid = 0, n_entries = []\<rparr>"
  by (simp_all add: dir_world_def io.extend_def)

lemma dir_world_below: "below (fs_nodes dir_world) ''d'' p \<longleftrightarrow> p = ''d'' \<or> p = ''d/f''"
  using below_dir [of "fs_nodes dir_world" "''d''", OF dir_world_nodes(1)]
    below_file [of "fs_nodes dir_world" "''d/f''", OF dir_world_nodes(2)]
  by (simp add: S_ISDIR_def child_path_def)

theorem chown_owner_spec_witness:
  "parse_name ''ann:'' (7, 8) (chown_start [''ann'' \<mapsto> 5] [''wheel'' \<mapsto> 6] dir_world) =
     Ret (5, 8) (tick (chown_start [''ann'' \<mapsto> 5] [''wheel'' \<mapsto> 6] dir_world))"
  using chown_owner_spec [of "chown_start [''ann'' \<mapsto> 5] [''wheel'' \<mapsto> 6] dir_world" "''ann''" 5 "''wheel''" 6 "(7, 8)"] dir_world_ok(1)
  by (simp add: chown_start_def fs.defs no_fail_def)

theorem chown_tree_witness:
  "\<exists>w'. chown_main [Opt (CHR ''R'') None] [''ann:wheel'', ''d''] (chown_start [''ann'' \<mapsto> 5] [''wheel'' \<mapsto> 6] dir_world)
      = Ret EXIT_SUCCESS w' \<and> map_option st_uid (fs_nodes w' ''d/f'') = Some 5 \<and> fs_nodes w' ''g'' = fs_nodes dir_world ''g''"
proof -
  have "\<And>p. below (fs_nodes dir_world) ''d'' p \<Longrightarrow> fs_nodes dir_world p \<noteq> None \<and> length p < PATH_MAX"
    by (auto simp: dir_world_below PATH_MAX_def dir_world_nodes)
  then obtain w' where "chown_main [Opt (CHR ''R'') None] [''ann:wheel'', ''d''] (chown_start [''ann'' \<mapsto> 5] [''wheel'' \<mapsto> 6] dir_world)
      = Ret EXIT_SUCCESS w'"
    "\<forall>p. fs_nodes w' p = (if below (fs_nodes dir_world) ''d'' p then map_option (reown 5 6) (fs_nodes dir_world p) else fs_nodes dir_world p)"
    using chown_tree [OF dir_world_ok, of "''ann''" "[''ann'' \<mapsto> 5]" 5 "''wheel''" "[''wheel'' \<mapsto> 6]" 6 "[''d'']"] by auto
  then show ?thesis
    by (auto simp: dir_world_below dir_world_nodes reown_def)
qed

theorem chown_safe_witness:
  "chown_main [Opt (CHR ''R'') None, OptLong ''from'' (Some ''ann''), OptUnknown] [''ann'', ''d'', ''x'']
     (chown_start [''ann'' \<mapsto> 5] Map.empty dir_world) \<noteq> Undef"
  by (rule chown_safe) (simp_all add: dir_world_ok null_option_def)

end
