(* ===== verification/Pwd.thy ===== *)
theory Pwd
  imports Posix_Io
begin

text \<open>
  cmd/src/pwd.c: the path of the current directory, found by looking in each parent for the
  entry with the inode number of the directory below it. A directory is identified by its device and its
  inode number, as \<open>lstat\<close> tells them; it has its \<open>..\<close>, its entries in the order of \<open>readdir\<close>, each with the
  inode number that \<open>readdir\<close> gives, and the directories to which the system resolves their names. At a
  mount point these differ: \<open>readdir\<close> gives the number of the directory that is covered, the name leads
  to the root of the other device. The program looks at inode numbers only.
\<close>

section \<open>Directories and the calls on them\<close>

type_synonym ident = "nat \<times> nat"

record dnode =
  d_parent :: ident
  d_entries :: "(string \<times> nat) list"
  d_names :: "string \<Rightarrow> ident option"

record pwd_state = io +
  pw_dirs :: "ident \<Rightarrow> dnode option"
  pw_cwd :: ident
  pw_Pflag :: bool

definition pwd_start :: "(ident \<Rightarrow> dnode option) \<Rightarrow> ident \<Rightarrow> io \<Rightarrow> pwd_state" where
  "pwd_start dirs cwd w = io.extend w \<lparr>pw_dirs = dirs, pw_cwd = cwd, pw_Pflag = False\<rparr>"

text \<open>Device and inode number of \<open>.\<close> or \<open>..\<close>; \<open>chdir("..")\<close>, whose result is not looked at.\<close>

definition sys_lstat :: "string \<Rightarrow> (pwd_state, ident option) prog" where
  "sys_lstat file w =
     (case outcome_of w of
        Fail e \<Rightarrow> Ret None (set_errno e (tick w))
      | _ \<Rightarrow> if file = ''.'' then Ret (Some (pw_cwd w)) (tick w)
             else (case pw_dirs w (pw_cwd w) of
                 None \<Rightarrow> Ret None (set_errno ENOENT (tick w))
               | Some d \<Rightarrow> Ret (Some (d_parent d)) (tick w)))"

definition sys_chdir_up :: "(pwd_state, bool) prog" where
  "sys_chdir_up w =
     (case outcome_of w of
        Fail e \<Rightarrow> Ret False (set_errno e (tick w))
      | _ \<Rightarrow> (case pw_dirs w (pw_cwd w) of
            None \<Rightarrow> Ret False (set_errno ENOENT (tick w))
          | Some d \<Rightarrow> Ret True ((tick w)\<lparr>pw_cwd := d_parent d\<rparr>)))"

definition sys_opendir_here :: "(pwd_state, (string \<times> nat) list option) prog" where
  "sys_opendir_here w =
     (case outcome_of w of
        Fail e \<Rightarrow> Ret None (set_errno e (tick w))
      | _ \<Rightarrow> (case pw_dirs w (pw_cwd w) of
            None \<Rightarrow> Ret None (set_errno ENOENT (tick w))
          | Some d \<Rightarrow> Ret (Some (d_entries d)) (tick w)))"

definition sys_readdir_ino :: "(string \<times> nat) list \<Rightarrow> (pwd_state, (string \<times> nat) option) prog" where
  "sys_readdir_ino es w =
     (case outcome_of w of
        Fail e \<Rightarrow> Ret None (set_errno e (tick w))
      | _ \<Rightarrow> Ret (case es of [] \<Rightarrow> None | e # _ \<Rightarrow> Some e) (tick w))"

definition sys_closedir_here :: "(pwd_state, bool) prog" where
  "sys_closedir_here w =
     (case outcome_of w of Fail e \<Rightarrow> Ret False (set_errno e (tick w)) | _ \<Rightarrow> Ret True (tick w))"

section \<open>The program\<close>

definition pwd_usage :: "int \<Rightarrow> ('z io_scheme, 'a) prog" where
  "pwd_usage status =
     thenp (if status = EXIT_SUCCESS
            then put ([NL] @ ''pwd - output the current working directory.'' @ [NL]
                      @ [NL] @ ''   pwd [(-P | --physical)] [(-L | --logical)]'' @ [NL])
            else eputs (''(Type '' @ quoted ''%s --help'' @ '' for related documentation)'') [''pwd''])
       (exitp status)"

definition get_inode :: "string \<Rightarrow> (pwd_state, nat) prog" where
  "get_inode file =
     bindp (sys_lstat file) (\<lambda>st. case st of
       None \<Rightarrow> thenp (eputs ''%s: cannot stat: %s'' [''pwd'']) (exitp EXIT_FAILURE)
     | Some (st_dev, st_ino) \<Rightarrow> retp st_ino)"

text \<open>The loop of \<open>get_filename\<close>: where it stops, and the name it stops at.\<close>

fun find_entry :: "nat \<Rightarrow> (string \<times> nat) list \<Rightarrow> (pwd_state, string option) prog" where
  "find_entry ino [] = bindp (sys_readdir_ino []) (\<lambda>_. retp None)"
| "find_entry ino (e # es) =
     bindp (sys_readdir_ino (e # es)) (\<lambda>r. case r of
       None \<Rightarrow> retp None
     | Some (d_name, d_ino) \<Rightarrow>
         if d_ino = ino \<and> d_name \<noteq> ''.'' \<and> d_name \<noteq> ''..'' then retp (Some d_name) else find_entry ino es)"

text \<open>
  What \<open>get_filename\<close> leaves in the buffer, which is all zeros before: nothing when \<open>errno\<close> is
  set. \<open>strncpy\<close> puts no NUL behind a name that fills the buffer.
\<close>

definition get_filename :: "nat \<Rightarrow> (pwd_state, string) prog" where
  "get_filename ino =
     bindp sys_opendir_here (\<lambda>dir. case dir of
       None \<Rightarrow> thenp (eputs ''%s: fail to open directory: %s'' [''pwd'']) (exitp EXIT_FAILURE)
     | Some es \<Rightarrow>
         bindp (find_entry ino es) (\<lambda>entry.
         bindp (getsp io_errno) (\<lambda>err.
         bindp (if err \<noteq> 0
                then thenp (eputs ''%s: fail to read directory: %s'' [''pwd''])
                       (thenp (modifyp (set_errno 0)) (retp []))
                else (case entry of
                    None \<Rightarrow> retp []
                  | Some name \<Rightarrow> if BUFSIZ \<le> length name then undefp else retp name)) (\<lambda>filename.
         bindp sys_closedir_here (\<lambda>closed.
           if \<not> closed
           then thenp (eputs ''%s: fail to close directory: %s'' [''pwd'']) (exitp EXIT_FAILURE)
           else retp filename)))))"

text \<open>
  One level of \<open>do_pwd\<close> on the way up: None at the root, else the name of the directory in its
  parent and the inode number of the parent.
\<close>

definition pwd_step :: "nat \<Rightarrow> (pwd_state, (string \<times> nat) option) prog" where
  "pwd_step this_inode =
     bindp (get_inode ''..'') (\<lambda>up.
       if up = this_inode then retp None
       else bindp sys_chdir_up (\<lambda>_.
            bindp (get_filename this_inode) (\<lambda>filename.
            bindp (get_inode ''.'') (\<lambda>here. retp (Some (filename, here))))))"

text \<open>\<open>do_pwd\<close> prints behind its recursion; nothing bounds the recursion but the root.\<close>

partial_function (option) do_pwd :: "nat \<Rightarrow> pwd_state \<Rightarrow> (pwd_state, unit) result option" where
  "do_pwd this_inode w =
     (case pwd_step this_inode w of
        Ret None w' \<Rightarrow> Some (put [] w')
      | Ret (Some (filename, here)) w' \<Rightarrow>
          Option.bind (do_pwd here w') (\<lambda>r. Some (thenp (\<lambda>_. r) (put (CHR ''/'' # filename)) w'))
      | Exit k w' \<Rightarrow> Some (Exit k w')
      | Undef \<Rightarrow> Some Undef)"

fun pwd_options :: "optev list \<Rightarrow> (pwd_state, unit) prog" where
  "pwd_options [] = retp ()"
| "pwd_options (ev # evs) =
     thenp (if ev = Opt (CHR ''L'') None then modifyp (\<lambda>w. w\<lparr>pw_Pflag := False\<rparr>)
            else if ev = Opt (CHR ''P'') None then modifyp (\<lambda>w. w\<lparr>pw_Pflag := True\<rparr>)
            else pwd_usage EXIT_FAILURE)
     (pwd_options evs)"

text \<open>A \<open>do_pwd\<close> that does not return is \<open>Undef\<close> here.\<close>

definition pwd_main :: "optev list \<Rightarrow> (pwd_state, int) prog" where
  "pwd_main opts =
     thenp (pwd_options opts)
     (bindp (get_inode ''.'') (\<lambda>this_inode.
      bindp (get_inode ''..'') (\<lambda>father_inode.
      thenp (if this_inode = father_inode then put (''/'' @ [NL])
             else thenp (\<lambda>w. case do_pwd this_inode w of None \<Rightarrow> Undef | Some r \<Rightarrow> r) (put [NL]))
        (retp EXIT_SUCCESS))))"

section \<open>The climb\<close>

text \<open>
  What the program does on its way up: \<open>climbs D i ns\<close> when from the directory \<open>i\<close> it finds the names \<open>ns\<close>,
  each the first entry of the parent with the right inode number, and stops where \<open>..\<close> has the inode
  number of \<open>.\<close>; \<open>root_dist\<close> only counts the levels.
\<close>

definition entry_name :: "nat \<Rightarrow> (string \<times> nat) list \<Rightarrow> string option" where
  "entry_name ino es = map_option fst (find (\<lambda>(n, j). j = ino \<and> n \<noteq> ''.'' \<and> n \<noteq> ''..'') es)"

fun climbs :: "(ident \<Rightarrow> dnode option) \<Rightarrow> ident \<Rightarrow> string list \<Rightarrow> bool" where
  "climbs D i [] \<longleftrightarrow> (\<exists>d. D i = Some d \<and> snd (d_parent d) = snd i)"
| "climbs D i (n # ns) \<longleftrightarrow> (\<exists>d p. D i = Some d \<and> snd (d_parent d) \<noteq> snd i \<and> D (d_parent d) = Some p
     \<and> entry_name (snd i) (d_entries p) = Some n \<and> length n < BUFSIZ \<and> climbs D (d_parent d) ns)"

fun root_dist :: "(ident \<Rightarrow> dnode option) \<Rightarrow> ident \<Rightarrow> nat \<Rightarrow> bool" where
  "root_dist D i 0 \<longleftrightarrow> (\<exists>d. D i = Some d \<and> snd (d_parent d) = snd i)"
| "root_dist D i (Suc k) \<longleftrightarrow> (\<exists>d. D i = Some d \<and> snd (d_parent d) \<noteq> snd i \<and> root_dist D (d_parent d) k)"

lemma pw_tick [simp]:
  "pw_dirs (tick w) = pw_dirs w" "pw_cwd (tick w) = pw_cwd w" "pw_dirs (set_errno e w) = pw_dirs w"
  "pw_cwd (set_errno e w) = pw_cwd w" "io_plan (tick w) = tl (io_plan w)" "io_plan (set_errno e w) = io_plan w"
  "io_errno (tick w) = io_errno w" "io_out (tick w) = io_out w" "io_err (tick w) = io_err w"
  by (cases w; simp add: tick_def set_errno_def)+

lemma no_fail_out: "no_fail w \<Longrightarrow> outcome_of w = Full \<or> (\<exists>k. outcome_of w = Short k)"
  using no_fail_Fail [of w] by (cases "outcome_of w") auto

section \<open>What a run prints\<close>

text \<open>The state of a run without failures.\<close>

definition climbing :: "(ident \<Rightarrow> dnode option) \<Rightarrow> ident \<Rightarrow> pwd_state \<Rightarrow> bool" where
  "climbing D i w \<longleftrightarrow> no_fail w \<and> io_errno w = 0 \<and> pw_dirs w = D \<and> pw_cwd w = i"

definition same_text :: "pwd_state \<Rightarrow> pwd_state \<Rightarrow> bool" where
  "same_text w w' \<longleftrightarrow> io_out w' = io_out w \<and> io_err w' = io_err w"

lemma climbing_tick: "climbing D i w \<Longrightarrow> climbing D i (tick w)"
  by (simp add: climbing_def no_fail_tick)

lemma find_entry_ok:
  "climbing D i w \<Longrightarrow> \<exists>w'. find_entry ino es w = Ret (entry_name ino es) w' \<and> climbing D i w' \<and> same_text w w'"
proof (induction es arbitrary: w)
  case Nil
  then show ?case
    using no_fail_out [of w] climbing_tick [OF Nil]
    by (auto simp: bindp_unfold sys_readdir_ino_def climbing_def entry_name_def same_text_def)
next
  case (Cons e es)
  have rd: "sys_readdir_ino (e # es) w = Ret (Some e) (tick w)"
    using no_fail_out [of w] Cons.prems by (auto simp: sys_readdir_ino_def climbing_def)
  obtain w' where "find_entry ino es (tick w) = Ret (entry_name ino es) w'" "climbing D i w'" "same_text (tick w) w'"
    using Cons.IH [OF climbing_tick [OF Cons.prems]] by blast
  then show ?case
    using rd climbing_tick [OF Cons.prems] by (cases e) (auto simp: bindp_unfold entry_name_def same_text_def)
qed

lemma get_inode_ok:
  assumes "climbing D i w" "D i = Some d"
  shows "get_inode ''.'' w = Ret (snd i) (tick w)" "get_inode ''..'' w = Ret (snd (d_parent d)) (tick w)"
  using no_fail_out [of w] assms by (auto simp: get_inode_def bindp_unfold sys_lstat_def climbing_def split: prod.split)

lemma get_filename_ok:
  assumes w: "climbing D i w" and p: "D i = Some p" "entry_name ino (d_entries p) = Some n" "length n < BUFSIZ"
  shows "\<exists>w'. get_filename ino w = Ret n w' \<and> climbing D i w' \<and> same_text w w'"
proof -
  have opn: "sys_opendir_here w = Ret (Some (d_entries p)) (tick w)"
    using no_fail_out [of w] w p(1) by (auto simp: sys_opendir_here_def climbing_def)
  obtain v where v: "find_entry ino (d_entries p) (tick w) = Ret (Some n) v" "climbing D i v" "same_text (tick w) v"
    using find_entry_ok [OF climbing_tick [OF w], of ino "d_entries p"] p(2) by auto
  have "get_filename ino w = Ret n (tick v)"
    using opn v(1,2) p(3) no_fail_out [of v]
    by (auto simp: get_filename_def bindp_unfold climbing_def sys_closedir_here_def)
  then show ?thesis
    using climbing_tick [OF v(2)] v(3) by (auto simp: same_text_def)
qed

lemma do_pwd_ok:
  "climbs D i ns \<Longrightarrow> climbing D i w \<Longrightarrow>
     \<exists>w'. do_pwd (snd i) w = Some (Ret () w') \<and> io_out w' = io_out w @ concat (map (\<lambda>n. CHR ''/'' # n) (rev ns)) \<and> io_err w' = io_err w"
proof (induction ns arbitrary: i w)
  case Nil
  then obtain d where "D i = Some d" "snd (d_parent d) = snd i" by auto
  then have "pwd_step (snd i) w = Ret None (tick w)"
    using get_inode_ok(2) [OF Nil(2)] by (simp add: pwd_step_def bindp_unfold)
  then show ?case
    by (subst do_pwd.simps) (simp add: put_def)
next
  case (Cons n ns)
  then obtain d p where d: "D i = Some d" "snd (d_parent d) \<noteq> snd i" "D (d_parent d) = Some p"
      "entry_name (snd i) (d_entries p) = Some n" "length n < BUFSIZ" "climbs D (d_parent d) ns"
    by auto
  let ?j = "d_parent d"
  let ?v = "(tick (tick w))\<lparr>pw_cwd := ?j\<rparr>"
  have up: "sys_chdir_up (tick w) = Ret True ?v"
    using no_fail_out [of "tick w"] climbing_tick [OF Cons.prems(2)] d(1)
    by (auto simp: sys_chdir_up_def climbing_def)
  have v: "climbing D ?j ?v"
    using climbing_tick [OF climbing_tick [OF Cons.prems(2)]] by (simp add: climbing_def no_fail_def)
  obtain x where x: "get_filename (snd i) ?v = Ret n x" "climbing D ?j x" "same_text ?v x"
    using get_filename_ok [OF v d(3,4,5)] by blast
  have "pwd_step (snd i) w = Ret (Some (n, snd ?j)) (tick x)"
    using get_inode_ok(2) [OF Cons.prems(2) d(1)] get_inode_ok(1) [OF x(2) d(3)] d(2) up x(1)
    by (simp add: pwd_step_def bindp_unfold)
  moreover obtain w' where "do_pwd (snd ?j) (tick x) = Some (Ret () w')"
      "io_out w' = io_out (tick x) @ concat (map (\<lambda>n. CHR ''/'' # n) (rev ns))" "io_err w' = io_err (tick x)"
    using Cons.IH [OF d(6) climbing_tick [OF x(2)]] by blast
  ultimately show ?case
    using x(3) by (subst do_pwd.simps) (simp add: thenp_unfold put_def same_text_def)
qed

section \<open>Every run ends\<close>

text \<open>A fragment leaves the directories alone and takes outcomes from the schedule, at least \<open>k\<close> if there are any.\<close>

definition consumes :: "pwd_state \<Rightarrow> pwd_state \<Rightarrow> bool" where
  "consumes w w' \<longleftrightarrow> pw_dirs w' = pw_dirs w \<and> pw_cwd w' = pw_cwd w \<and> length (io_plan w') \<le> length (io_plan w)"

lemma consumes_refl [simp]: "consumes w w"
  by (simp add: consumes_def)

lemma consumes_trans: "consumes u v \<Longrightarrow> consumes v w \<Longrightarrow> consumes u w"
  by (simp add: consumes_def)

lemma consumes_upd [simp]:
  "consumes u w \<Longrightarrow> consumes u (tick w)" "consumes u w \<Longrightarrow> consumes u (set_errno e w)"
  "consumes u w \<Longrightarrow> consumes u (w\<lparr>io_err := d\<rparr>)"
  by (auto simp: consumes_def)

lemma find_entry_consumes: "find_entry ino es w = Ret r w' \<Longrightarrow> consumes w w'"
proof (induction es arbitrary: w)
  case (Cons e es)
  then show ?case
    using consumes_trans [of w "tick w" w']
    by (auto simp: bindp_unfold sys_readdir_ino_def split: outcome.splits if_splits prod.splits)
qed (auto simp: bindp_unfold sys_readdir_ino_def split: outcome.splits)

lemma get_inode_consumes:
  "get_inode f w = Ret i w' \<Longrightarrow> consumes w w' \<and> w' = tick w \<and> (f = ''.'' \<longrightarrow> i = snd (pw_cwd w))
     \<and> (f = ''..'' \<longrightarrow> (\<exists>d. pw_dirs w (pw_cwd w) = Some d \<and> i = snd (d_parent d)))"
  by (auto simp: get_inode_def bindp_unfold thenp_unfold sys_lstat_def eputs_def split: outcome.splits if_splits option.splits prod.splits)

lemma get_filename_consumes: "get_filename ino w = Ret n w' \<Longrightarrow> consumes w w'"
proof -
  assume r: "get_filename ino w = Ret n w'"
  then obtain es w1 where w1: "sys_opendir_here w = Ret (Some es) w1"
    by (auto simp: get_filename_def bindp_unfold thenp_unfold eputs_def split: result.splits option.splits)
  then have "consumes w w1"
    by (auto simp: sys_opendir_here_def split: outcome.splits option.splits)
  moreover obtain e w2 where w2: "find_entry ino es w1 = Ret e w2"
    using r w1 by (auto simp: get_filename_def bindp_unfold split: result.splits)
  moreover have "consumes w2 w'"
    using r w1 w2
    by (auto simp: get_filename_def bindp_unfold thenp_unfold eputs_def sys_closedir_here_def
        split: outcome.splits option.splits if_splits)
  ultimately show ?thesis
    using find_entry_consumes [OF w2] consumes_trans by blast
qed

lemma pwd_step_progress:
  assumes r: "pwd_step (snd (pw_cwd w)) w = Ret (Some (n, i)) w'" and dist: "root_dist (pw_dirs w) (pw_cwd w) m"
  shows "pw_dirs w' = pw_dirs w \<and> i = snd (pw_cwd w') \<and>
    (\<exists>m'. root_dist (pw_dirs w') (pw_cwd w') m' \<and> length (io_plan w') + m' < length (io_plan w) + m)"
proof -
  obtain up where up: "get_inode ''..'' w = Ret up (tick w)" "up \<noteq> snd (pw_cwd w)"
    using r by (cases "get_inode ''..'' w") (auto simp: pwd_step_def bindp_unfold dest: get_inode_consumes split: if_splits)
  then obtain d where d: "pw_dirs w (pw_cwd w) = Some d" "up = snd (d_parent d)"
    using get_inode_consumes by blast
  obtain m1 where m1: "m = Suc m1" "root_dist (pw_dirs w) (d_parent d) m1"
    using dist d up(2) by (cases m) auto
  obtain b w1 where w1: "sys_chdir_up (tick w) = Ret b w1"
    using r up by (cases "sys_chdir_up (tick w)") (auto simp: pwd_step_def bindp_unfold)
  then obtain f w2 where w2: "get_filename (snd (pw_cwd w)) w1 = Ret f w2"
    using r up by (cases "get_filename (snd (pw_cwd w)) w1") (auto simp: pwd_step_def bindp_unfold)
  have w': "get_inode ''.'' w2 = Ret i w'"
    using r up w1 w2 by (auto simp: pwd_step_def bindp_unfold split: result.splits)
  have c: "consumes w1 w'" "i = snd (pw_cwd w')"
    using consumes_trans [OF get_filename_consumes [OF w2]] get_inode_consumes [OF w'] by auto
  consider "pw_cwd w1 = d_parent d" "pw_dirs w1 = pw_dirs w" "length (io_plan w1) \<le> length (io_plan w)"
    | "pw_cwd w1 = pw_cwd w" "pw_dirs w1 = pw_dirs w" "length (io_plan w1) < length (io_plan w)"
    using w1 d by (cases "io_plan w"; cases "tl (io_plan w)")
      (auto simp: sys_chdir_up_def outcome_of_def split: outcome.splits)
  then show ?thesis
  proof cases
    case 1
    then show ?thesis
      using c m1 by (auto simp: consumes_def)
  next
    case 2
    then show ?thesis
      using c dist by (auto simp: consumes_def)
  qed
qed

lemma do_pwd_returns: "root_dist (pw_dirs w) (pw_cwd w) m \<Longrightarrow> do_pwd (snd (pw_cwd w)) w \<noteq> None"
proof (induction "length (io_plan w) + m" arbitrary: w m rule: less_induct)
  case less
  show ?case
  proof (cases "pwd_step (snd (pw_cwd w)) w")
    case (Ret r w')
    show ?thesis
    proof (cases r)
      case None
      then show ?thesis using Ret by (subst do_pwd.simps) simp
    next
      case (Some q)
      obtain n i where q: "q = (n, i)" by (cases q)
      obtain m' where m': "i = snd (pw_cwd w')" "root_dist (pw_dirs w') (pw_cwd w') m'"
          "length (io_plan w') + m' < length (io_plan w) + m"
        using pwd_step_progress [of w n i w' m] Ret Some q less.prems by blast
      have "do_pwd i w' \<noteq> None"
        using less.hyps [OF m'(3,2)] m'(1) by simp
      then show ?thesis
        using Ret Some q by (subst do_pwd.simps) auto
    qed
  qed (subst do_pwd.simps, simp)+
qed

section \<open>No undefined behaviour\<close>

definition names_short :: "(ident \<Rightarrow> dnode option) \<Rightarrow> bool" where
  "names_short D \<longleftrightarrow> (\<forall>i d. D i = Some d \<longrightarrow> (\<forall>e\<in>set (d_entries d). length (fst e) < BUFSIZ))"

lemma names_shortD: "names_short D \<Longrightarrow> D i = Some d \<Longrightarrow> (n, j) \<in> set (d_entries d) \<Longrightarrow> length n < BUFSIZ"
  unfolding names_short_def by fastforce

definition defined :: "('s, 'a) result \<Rightarrow> bool" where
  "defined r \<longleftrightarrow> r \<noteq> Undef"

lemma defined_simps [simp]: "defined (Ret a w)" "defined (Exit k w)" "\<not> defined Undef"
  by (simp_all add: defined_def)

lemma find_entry_name:
  "find_entry ino es w = Ret (Some n) w' \<Longrightarrow> n \<in> fst ` set es" "defined (find_entry ino es w)"
proof (induction es arbitrary: w)
  case Nil
  {
    case 1
    then show ?case by (auto simp: bindp_unfold sys_readdir_ino_def split: outcome.splits)
  next
    case 2
    show ?case by (auto simp: bindp_unfold sys_readdir_ino_def split: outcome.splits)
  }
next
  case (Cons e es)
  {
    case 1
    then show ?case
      using Cons.IH(1) by (cases e) (force simp: bindp_unfold sys_readdir_ino_def split: outcome.splits if_splits)
  next
    case 2
    show ?case
      using Cons.IH(2) by (cases e) (auto simp: bindp_unfold sys_readdir_ino_def split: outcome.splits)
  }
qed

lemma get_filename_defined:
  assumes "names_short (pw_dirs w)"
  shows "defined (get_filename ino w)"
proof (cases "sys_opendir_here w")
  case (Ret dir v)
  show ?thesis
  proof (cases dir)
    case None
    then show ?thesis using Ret by (simp add: get_filename_def bindp_unfold thenp_unfold eputs_def)
  next
    case (Some es)
    have short: "length n < BUFSIZ" if "find_entry ino es v = Ret (Some n) x" for n x
      using find_entry_name(1) [OF that] Ret Some assms
      by (auto simp: sys_opendir_here_def split: outcome.splits option.splits dest: names_shortD)
    show ?thesis
    proof (cases "find_entry ino es v")
      case found: (Ret e x)
      have "\<forall>n. e = Some n \<longrightarrow> \<not> BUFSIZ \<le> length n"
        using short found by force
      then show ?thesis
        using Ret Some found
        by (simp add: get_filename_def bindp_unfold thenp_unfold eputs_def sys_closedir_here_def
            split: outcome.splits option.splits)
    qed (use Ret Some find_entry_name(2) [of ino es v] in \<open>simp_all add: get_filename_def bindp_unfold\<close>)
  qed
qed (auto simp: sys_opendir_here_def split: outcome.splits option.splits)

lemma get_inode_defined: "defined (get_inode f w)"
  by (auto simp: get_inode_def bindp_unfold thenp_unfold sys_lstat_def eputs_def split: outcome.splits option.splits prod.splits)

lemma pwd_step_defined:
  assumes "names_short (pw_dirs w)"
  shows "defined (pwd_step i w)"
proof (cases "get_inode ''..'' w")
  case (Ret up v)
  then have "pw_dirs v = pw_dirs w"
    using get_inode_consumes [OF Ret] by (simp add: consumes_def)
  moreover obtain b x where "sys_chdir_up v = Ret b x" "pw_dirs x = pw_dirs v"
    by (cases "sys_chdir_up v") (auto simp: sys_chdir_up_def split: outcome.splits option.splits)
  ultimately have chd: "sys_chdir_up v = Ret b x" "defined (get_filename i x)"
    using get_filename_defined assms by auto
  show ?thesis
  proof (cases "get_filename i x")
    case (Ret f y)
    then show ?thesis
      using \<open>get_inode ''..'' w = Ret up v\<close> chd get_inode_defined [of "''.''" y]
      by (cases "get_inode ''.'' y") (auto simp: pwd_step_def bindp_unfold)
  qed (use Ret chd in \<open>auto simp: pwd_step_def bindp_unfold\<close>)
qed (use get_inode_defined [of "''..''" w] in \<open>auto simp: pwd_step_def bindp_unfold\<close>)

lemma do_pwd_defined:
  "root_dist (pw_dirs w) (pw_cwd w) m \<Longrightarrow> names_short (pw_dirs w) \<Longrightarrow>
     \<exists>r. do_pwd (snd (pw_cwd w)) w = Some r \<and> defined r"
proof (induction "length (io_plan w) + m" arbitrary: w m rule: less_induct)
  case less
  show ?case
  proof (cases "pwd_step (snd (pw_cwd w)) w")
    case (Ret r w')
    show ?thesis
    proof (cases r)
      case None
      then show ?thesis using Ret by (subst do_pwd.simps) (simp add: put_def)
    next
      case (Some q)
      obtain n i where q: "q = (n, i)" by (cases q)
      obtain m' where m': "i = snd (pw_cwd w')" "root_dist (pw_dirs w') (pw_cwd w') m'"
          "length (io_plan w') + m' < length (io_plan w) + m" "pw_dirs w' = pw_dirs w"
        using pwd_step_progress [of w n i w' m] Ret Some q less.prems(1) by blast
      obtain r where r: "do_pwd i w' = Some r" "defined r"
        using less.hyps [OF m'(3,2)] m'(1,4) less.prems(2) by auto
      show ?thesis
        using Ret Some q r by (subst do_pwd.simps) (cases r; simp add: thenp_unfold put_def)
    qed
  next
    case Undef
    then show ?thesis using pwd_step_defined [OF less.prems(2), of "snd (pw_cwd w)"] by simp
  qed (subst do_pwd.simps, simp)
qed

section \<open>Properties\<close>

lemma pwd_climbs:
  assumes "climbs dirs cwd ns" "no_fail w" "io_errno w = 0"
  shows "\<exists>w'. pwd_main [] (pwd_start dirs cwd w) = Ret EXIT_SUCCESS w'
    \<and> io_out w' = io_out w @ (if ns = [] then ''/'' else concat (map (\<lambda>n. CHR ''/'' # n) (rev ns))) @ [NL]
    \<and> io_err w' = io_err w"
proof -
  define w0 where "w0 = pwd_start dirs cwd w"
  have w0: "climbing dirs cwd w0" "io_out w0 = io_out w" "io_err w0 = io_err w"
    using assms(2,3) by (simp_all add: w0_def pwd_start_def io.defs climbing_def no_fail_def)
  obtain d where d: "dirs cwd = Some d" "ns = [] \<longleftrightarrow> snd (d_parent d) = snd cwd"
    using assms(1) by (cases ns) auto
  note ino = get_inode_ok(1) [OF w0(1) d(1)] get_inode_ok(2) [OF climbing_tick [OF w0(1)] d(1)]
  have two: "climbing dirs cwd (tick (tick w0))"
    using climbing_tick [OF climbing_tick [OF w0(1)]] .
  show ?thesis
  proof (cases "ns = []")
    case True
    then show ?thesis
      using ino d(2) w0(2,3) unfolding w0_def [symmetric]
      by (simp add: pwd_main_def thenp_unfold bindp_unfold put_def)
  next
    case False
    obtain w' where "do_pwd (snd cwd) (tick (tick w0)) = Some (Ret () w')"
        "io_out w' = io_out w @ concat (map (\<lambda>n. CHR ''/'' # n) (rev ns))" "io_err w' = io_err w"
      using do_pwd_ok [OF assms(1) two] w0(2,3) by auto
    then show ?thesis
      using ino d(2) False unfolding w0_def [symmetric]
      by (simp add: pwd_main_def thenp_unfold bindp_unfold put_def)
  qed
qed

text \<open>
  The path of a directory, without the program: the names by which the system goes from the root down to
  it. A tree of directories has a root that is the only one to be its own parent and that no name leads
  to; a name in a directory leads to one whose \<open>..\<close> leads back, and unless another device is mounted there
  \<open>readdir\<close> gives its inode number for this name and, but for the dots, for no other.
\<close>

fun walk :: "(ident \<Rightarrow> dnode option) \<Rightarrow> ident \<Rightarrow> string list \<Rightarrow> ident option" where
  "walk D i [] = Some i"
| "walk D i (n # ns) = (case D i of None \<Rightarrow> None
     | Some d \<Rightarrow> (case d_names d n of None \<Rightarrow> None | Some j \<Rightarrow> walk D j ns))"

definition names_ok :: "ident \<Rightarrow> (string \<Rightarrow> ident option) \<Rightarrow> (string \<times> nat) list \<Rightarrow> bool" where
  "names_ok i names es \<longleftrightarrow> (\<forall>n j. names n = Some j \<longrightarrow> n \<noteq> ''.'' \<and> n \<noteq> ''..'' \<and> (fst j = fst i \<longrightarrow>
     (n, snd j) \<in> set es \<and> (\<forall>m. (m, snd j) \<in> set es \<longrightarrow> m = n \<or> m = ''.'' \<or> m = ''..'')))"

definition dir_tree :: "(ident \<Rightarrow> dnode option) \<Rightarrow> ident \<Rightarrow> bool" where
  "dir_tree D root \<longleftrightarrow> (\<exists>d. D root = Some d \<and> d_parent d = root) \<and>
     (\<forall>i d. D i = Some d \<longrightarrow> (d_parent d = i \<longrightarrow> i = root) \<and> names_ok i (d_names d) (d_entries d) \<and>
        (\<forall>n j. d_names d n = Some j \<longrightarrow> j \<noteq> root \<and> (\<exists>e. D j = Some e \<and> d_parent e = i)))"

text \<open>The names lead along directories of one device.\<close>

fun one_device :: "(ident \<Rightarrow> dnode option) \<Rightarrow> ident \<Rightarrow> string list \<Rightarrow> bool" where
  "one_device D i [] \<longleftrightarrow> True"
| "one_device D i (n # ns) \<longleftrightarrow> (case walk D i [n] of None \<Rightarrow> True | Some j \<Rightarrow> fst j = fst i \<and> one_device D j ns)"

lemma walk_snoc:
  "walk D i (ns @ [n]) = Some j \<longleftrightarrow> (\<exists>k d. walk D i ns = Some k \<and> D k = Some d \<and> d_names d n = Some j)"
  by (induction ns arbitrary: i) (auto split: option.splits)

lemma one_device_snoc:
  "one_device D i (ns @ [n]) \<Longrightarrow> walk D i ns = Some k \<Longrightarrow> walk D k [n] = Some j \<Longrightarrow> one_device D i ns \<and> fst j = fst k"
  by (induction ns arbitrary: i) (auto split: option.splits)

lemma entry_name_unique:
  assumes "(n, ino) \<in> set es" "n \<noteq> ''.''" "n \<noteq> ''..''" "\<And>m. (m, ino) \<in> set es \<Longrightarrow> m = n \<or> m = ''.'' \<or> m = ''..''"
  shows "entry_name ino es = Some n"
  using assms by (induction es) (auto simp: entry_name_def)

lemma walk_climbs:
  assumes "dir_tree D root" "names_short D" "walk D root ns = Some i" "one_device D root ns"
  shows "climbs D i (rev ns)"
  using assms(3,4)
proof (induction ns arbitrary: i rule: rev_induct)
  case Nil
  then show ?case
    using assms(1) by (auto simp: dir_tree_def)
next
  case (snoc n ns)
  obtain k p where k: "walk D root ns = Some k" "D k = Some p" "d_names p n = Some i"
    using snoc.prems(1) by (auto simp: walk_snoc)
  obtain d where d: "D i = Some d" "d_parent d = k" "i \<noteq> root"
    using assms(1) k(2,3) unfolding dir_tree_def by metis
  have "k \<noteq> i"
    using assms(1) d unfolding dir_tree_def by blast
  have dev: "one_device D root ns" "fst i = fst k"
    using one_device_snoc [OF snoc.prems(2) k(1), of i] k(2,3) by simp_all
  then have up: "snd k \<noteq> snd i"
    using \<open>k \<noteq> i\<close> by (simp add: prod_eq_iff)
  have "names_ok k (d_names p) (d_entries p)"
    using assms(1) k(2) unfolding dir_tree_def by blast
  then have n: "(n, snd i) \<in> set (d_entries p)" "n \<noteq> ''.''" "n \<noteq> ''..''"
      "\<And>m. (m, snd i) \<in> set (d_entries p) \<Longrightarrow> m = n \<or> m = ''.'' \<or> m = ''..''"
    using k(3) dev(2) unfolding names_ok_def by blast+
  moreover have "length n < BUFSIZ"
    by (rule names_shortD [OF assms(2) k(2) n(1)])
  ultimately show ?case
    using d(1,2) k(2) up entry_name_unique snoc.IH [OF k(1) dev(1)] by simp
qed

text \<open>
  C28: when the names \<open>ns\<close> lead from the root of a tree of directories to the current directory, and all
  directories on the way are on the device of the root, pwd with no option and no failing call prints
  this path, a slash alone for the root, prints no diagnostic and exits 0. Across a mount point it may
  not: see \<open>pwd_mounted_same_number\<close> and \<open>pwd_mount_point\<close>.
\<close>

theorem pwd_prints_path:
  assumes "dir_tree dirs root" "names_short dirs" "walk dirs root ns = Some cwd" "one_device dirs root ns"
    and "no_fail w" "io_errno w = 0"
  shows "\<exists>w'. pwd_main [] (pwd_start dirs cwd w) = Ret EXIT_SUCCESS w'
    \<and> io_out w' = io_out w @ (if ns = [] then ''/'' else concat (map (\<lambda>n. CHR ''/'' # n) ns)) @ [NL]
    \<and> io_err w' = io_err w"
  using pwd_climbs [OF walk_climbs [OF assms(1-4)] assms(5,6)] by (simp only: rev_rev_ident rev_is_Nil_conv)

text \<open>
  The root of a mounted file system that has the inode number of the directory above it is taken for the
  root of all: pwd prints a slash, whatever the path.
\<close>

theorem pwd_mounted_same_number:
  assumes "dirs cwd = Some d" "d_parent d \<noteq> cwd" "snd (d_parent d) = snd cwd" "no_fail w" "io_errno w = 0"
  shows "\<exists>w'. pwd_main [] (pwd_start dirs cwd w) = Ret EXIT_SUCCESS w' \<and> io_out w' = io_out w @ ''/'' @ [NL]"
proof -
  have "climbs dirs cwd []"
    using assms(1,3) by simp
  from pwd_climbs [OF this assms(4,5)] show ?thesis by auto
qed

text \<open>
  Pwd ends, whatever calls fail and with any options, when the parents of the current directory lead to
  a root: a \<open>chdir\<close> that fails only repeats a level. It does not run into undefined
  behaviour, since no name of a directory fills the buffer.
\<close>

theorem pwd_terminates:
  assumes "root_dist dirs cwd m" "names_short dirs"
  shows "\<exists>k w'. pwd_main opts (pwd_start dirs cwd w) = Ret k w' \<or> pwd_main opts (pwd_start dirs cwd w) = Exit k w'"
proof -
  define J where "J = (\<lambda>v :: pwd_state. pw_dirs v = dirs \<and> pw_cwd v = cwd)"
  have opt: "safe_result J (pwd_options opts v)" if "J v" for v
    using that
  proof (induction opts arbitrary: v)
    case (Cons ev opts)
    then show ?case
      unfolding pwd_options.simps thenp_def
      by (intro safe_result_bind) (auto simp: J_def pwd_usage_def thenp_unfold eputs_def EXIT_FAILURE_def EXIT_SUCCESS_def)
  qed simp
  have ino: "get_inode f v = Ret i x \<Longrightarrow> J v \<Longrightarrow> J x \<and> (f = ''.'' \<longrightarrow> i = snd cwd)" for f v i x
    using get_inode_consumes [of f v i x] by (auto simp: J_def)
  have pwd: "defined (case do_pwd (snd cwd) v of None \<Rightarrow> Undef | Some r \<Rightarrow> r)" if "J v" for v
    using do_pwd_defined [of v m] that assms by (auto simp: J_def)
  have "defined (pwd_main opts (pwd_start dirs cwd w))"
  proof (cases "pwd_options opts (pwd_start dirs cwd w)")
    case (Ret u v)
    have "J (pwd_start dirs cwd w)" by (simp add: J_def pwd_start_def io.defs)
    then have v: "J v" using opt Ret by force
    show ?thesis
    proof (cases "get_inode ''.'' v")
      case here: (Ret i x)
      then have x: "J x" "i = snd cwd" using ino v by auto
      show ?thesis
      proof (cases "get_inode ''..'' x")
        case up: (Ret j y)
        then have "defined (case do_pwd (snd cwd) y of None \<Rightarrow> Undef | Some r \<Rightarrow> r)" using ino x pwd by blast
        then show ?thesis
          using Ret here up x(2)
          by (cases "case do_pwd (snd cwd) y of None \<Rightarrow> Undef | Some r \<Rightarrow> r")
            (auto simp: pwd_main_def thenp_unfold bindp_unfold put_def)
      qed (use Ret here get_inode_defined [of "''..''" x] in \<open>auto simp: pwd_main_def thenp_unfold bindp_unfold\<close>)
    qed (use Ret get_inode_defined [of "''.''" v] in \<open>auto simp: pwd_main_def thenp_unfold bindp_unfold\<close>)
  next
    case Undef
    then show ?thesis
      using opt [of "pwd_start dirs cwd w"] by (simp add: J_def pwd_start_def io.defs)
  qed (simp add: pwd_main_def thenp_unfold)
  then show ?thesis
    by (cases "pwd_main opts (pwd_start dirs cwd w)") auto
qed

text \<open>
  The directory /home/ann, with an entry that comes first and has the wrong number; a file system of
  device 9 is mounted at /mnt, which covers a directory with the inode number 6, and its directory
  /mnt/data has another device mounted.
\<close>

definition home_dirs :: "ident \<Rightarrow> dnode option" where
  "home_dirs = [(8, 2) \<mapsto> \<lparr>d_parent = (8, 2), d_entries = [(''.'', 2), (''..'', 2), (''tmp'', 5), (''home'', 3), (''mnt'', 6)],
       d_names = [''home'' \<mapsto> (8, 3), ''mnt'' \<mapsto> (9, 2)]\<rparr>,
     (8, 3) \<mapsto> \<lparr>d_parent = (8, 2), d_entries = [(''.'', 3), (''..'', 2), (''ann'', 4)], d_names = [''ann'' \<mapsto> (8, 4)]\<rparr>,
     (8, 4) \<mapsto> \<lparr>d_parent = (8, 3), d_entries = [(''.'', 4), (''..'', 3)], d_names = Map.empty\<rparr>,
     (9, 2) \<mapsto> \<lparr>d_parent = (8, 2), d_entries = [(''.'', 2), (''..'', 2), (''data'', 7)], d_names = [''data'' \<mapsto> (10, 1)]\<rparr>,
     (10, 1) \<mapsto> \<lparr>d_parent = (9, 2), d_entries = [(''.'', 1), (''..'', 1)], d_names = Map.empty\<rparr>]"

lemma home_dirs_tree: "dir_tree home_dirs (8, 2)"
  by (auto simp: dir_tree_def home_dirs_def names_ok_def split: if_splits)

lemma home_dirs_short: "names_short home_dirs"
  by (auto simp: home_dirs_def names_short_def BUFSIZ_def split: if_splits)

definition plain_io :: "outcome list \<Rightarrow> io" where
  "plain_io plan = \<lparr>io_files = (\<lambda>_. None), io_stdin = None, io_stdin_pos = 0, io_stdin_seek = False, io_data = [],
     io_pos = 0, io_open = False, io_seek = False, io_tty = False, io_out = [], io_err = [], io_errno = 0, io_plan = plan\<rparr>"

theorem pwd_prints_path_witness:
  "\<exists>w'. pwd_main [] (pwd_start home_dirs (8, 4) (plain_io [])) = Ret EXIT_SUCCESS w' \<and> io_out w' = ''/home/ann'' @ [NL]"
proof -
  have "walk home_dirs (8, 2) [''home'', ''ann''] = Some (8, 4)" "one_device home_dirs (8, 2) [''home'', ''ann'']"
    by (simp_all add: home_dirs_def)
  from pwd_prints_path [OF home_dirs_tree home_dirs_short this, of "plain_io []"] show ?thesis
    by (auto simp: plain_io_def no_fail_def)
qed

theorem pwd_mounted_same_number_witness:
  "\<exists>w'. pwd_main [] (pwd_start home_dirs (9, 2) (plain_io [])) = Ret EXIT_SUCCESS w' \<and> io_out w' = ''/'' @ [NL]"
  using pwd_mounted_same_number [of home_dirs "(9, 2)" _ "plain_io []"]
  by (auto simp: home_dirs_def plain_io_def no_fail_def)

text \<open>
  At a mount point no entry of the directory above has the inode number of the mounted root: in /mnt/data
  pwd prints a slash with nothing behind it.
\<close>

lemma pwd_mount_point:
  "walk home_dirs (8, 2) [''mnt'', ''data''] = Some (10, 1)"
  "case pwd_main [] (pwd_start home_dirs (10, 1) (plain_io [])) of Ret k w' \<Rightarrow> io_out w' = ''/'' @ [NL] | _ \<Rightarrow> False"
  by (simp add: home_dirs_def) (simp add: pwd_main_def do_pwd.simps pwd_step_def get_filename_def get_inode_def
      sys_lstat_def sys_chdir_up_def sys_opendir_here_def sys_readdir_ino_def sys_closedir_here_def bindp_unfold thenp_unfold
      pwd_start_def plain_io_def home_dirs_def io.defs outcome_of_def tick_def put_def)

theorem pwd_terminates_witness:
  "\<exists>k w'. pwd_main [] (pwd_start home_dirs (8, 4) (plain_io [Full, Full, Full, Fail 13])) = Ret k w'
     \<or> pwd_main [] (pwd_start home_dirs (8, 4) (plain_io [Full, Full, Full, Fail 13])) = Exit k w'"
  by (rule pwd_terminates [where m = 2, OF _ home_dirs_short])
    (auto simp: home_dirs_def numeral_2_eq_2 BUFSIZ_def split: if_splits)

end
