(* ===== verification/Cp.thy ===== *)
theory Cp
  imports Posix_Io
begin

text \<open>
  cmd/src/cp.c: one file copied over another in blocks of 1024 bytes. The files are those of
  Posix_Io, kept under their names while they are open, so that copying a file onto
  itself reads what was just written.
\<close>

definition BUFFSIZE :: nat where "BUFFSIZE = 1024"

text \<open>The offsets of the two descriptors.\<close>

record cp_state = io +
  cp_in_pos :: nat
  cp_out_pos :: nat

definition cp_start :: "io \<Rightarrow> cp_state" where
  "cp_start w = io.extend w \<lparr>cp_in_pos = 0, cp_out_pos = 0\<rparr>"

section \<open>The calls\<close>

definition sys_open_file :: "string \<Rightarrow> (cp_state, bool) prog" where
  "sys_open_file name w =
     (case outcome_of w of
        Fail e \<Rightarrow> Ret False (set_errno e (tick w))
      | _ \<Rightarrow> (case io_files w name of
           None \<Rightarrow> Ret False (set_errno ENOENT (tick w)) | Some _ \<Rightarrow> Ret True (tick w)))"

definition sys_creat :: "string \<Rightarrow> (cp_state, bool) prog" where
  "sys_creat name w =
     (case outcome_of w of
        Fail e \<Rightarrow> Ret False (set_errno e (tick w))
      | _ \<Rightarrow> Ret True ((tick w)\<lparr>io_files := (io_files w)(name \<mapsto> [])\<rparr>))"

text \<open>None stands for the result -1.\<close>

definition sys_read_file :: "string \<Rightarrow> nat \<Rightarrow> (cp_state, string option) prog" where
  "sys_read_file name n w =
     (let content = (case io_files w name of None \<Rightarrow> [] | Some d \<Rightarrow> d);
          got = (\<lambda>m. take m (drop (cp_in_pos w) content)) in
      case outcome_of w of
        Fail e \<Rightarrow> Ret None (set_errno e (tick w))
      | Full \<Rightarrow> Ret (Some (got n)) ((tick w)\<lparr>cp_in_pos := cp_in_pos w + length (got n)\<rparr>)
      | Short k \<Rightarrow> Ret (Some (got (min n (Suc k)))) ((tick w)\<lparr>cp_in_pos := cp_in_pos w + length (got (min n (Suc k)))\<rparr>))"

definition overwrite :: "nat \<Rightarrow> string \<Rightarrow> string \<Rightarrow> string" where
  "overwrite pos s d = take pos (d @ replicate (pos - length d) NUL) @ s @ drop (pos + length s) d"

definition put_file :: "string \<Rightarrow> string \<Rightarrow> cp_state \<Rightarrow> cp_state" where
  "put_file name s w = w\<lparr>io_files := (io_files w)(name \<mapsto>
       overwrite (cp_out_pos w) s (case io_files w name of None \<Rightarrow> [] | Some d \<Rightarrow> d)),
     cp_out_pos := cp_out_pos w + length s\<rparr>"

definition sys_write_file :: "string \<Rightarrow> string \<Rightarrow> (cp_state, nat option) prog" where
  "sys_write_file name s w =
     (case outcome_of w of
        Fail e \<Rightarrow> Ret None (set_errno e (tick w))
      | Full \<Rightarrow> Ret (Some (length s)) (put_file name s (tick w))
      | Short k \<Rightarrow> Ret (Some (min (length s) (Suc k))) (put_file name (take (Suc k) s) (tick w)))"

definition sys_close_file :: "(cp_state, bool) prog" where
  "sys_close_file w =
     (case outcome_of w of Fail e \<Rightarrow> Ret False (set_errno e (tick w)) | _ \<Rightarrow> Ret True (tick w))"

text \<open>\<open>getchar\<close>: None at the end of standard input.\<close>

definition sys_getchar :: "(cp_state, char option) prog" where
  "sys_getchar w = (case io_stdin w of
     Some (c # cs) \<Rightarrow> Ret (Some c) (w\<lparr>io_stdin := Some cs\<rparr>) | _ \<Rightarrow> Ret None w)"

definition err_quit_name :: "string \<Rightarrow> string \<Rightarrow> (cp_state, 'a) prog" where
  "err_quit_name fmt name = thenp (eputs fmt [name]) (exitp 1)"

section \<open>The program\<close>

text \<open>The arguments behind the program name: the source, the destination, and whether the call is right.\<close>

fun cp_scan_args :: "string list \<Rightarrow> string option \<times> string option \<times> bool \<Rightarrow> string option \<times> string option \<times> bool" where
  "cp_scan_args [] r = r"
| "cp_scan_args (a # as) (infile, outfile, flag) =
     cp_scan_args as (if a = ''-i'' then (infile, outfile, True)
                      else if infile = None then (Some a, outfile, flag)
                      else (infile, Some a, flag))"

definition cp_args :: "string list \<Rightarrow> string option \<times> string option \<times> bool" where
  "cp_args argv =
     (case argv of
        [a, b] \<Rightarrow> (Some a, Some b, True)
      | [a, b, c] \<Rightarrow> cp_scan_args [a, b, c] (None, None, False)
      | _ \<Rightarrow> (None, None, False))"

text \<open>The copying loop: whether the last \<open>read\<close> failed. It ends with the source, if that ends.\<close>

partial_function (option) cp_loop :: "string \<Rightarrow> string \<Rightarrow> cp_state \<Rightarrow> (cp_state, bool) result option" where
  "cp_loop infile outfile w =
     (case sys_read_file infile BUFFSIZE w of
        Ret None w1 \<Rightarrow> Some (Ret True w1)
      | Ret (Some s) w1 \<Rightarrow>
          if s = [] then Some (Ret False w1)
          else (case sys_write_file outfile s w1 of
              Ret n w2 \<Rightarrow> if n \<noteq> Some (length s) then Some (err_quit_name ''Cannot write %s'' outfile w2)
                          else cp_loop infile outfile w2
            | Exit k w2 \<Rightarrow> Some (Exit k w2) | Undef \<Rightarrow> Some Undef)
      | Exit k w1 \<Rightarrow> Some (Exit k w1) | Undef \<Rightarrow> Some Undef)"

definition cp_main :: "string list \<Rightarrow> (cp_state, int) prog" where
  "cp_main argv =
     (case cp_args argv of (infile, outfile, flag) \<Rightarrow>
      if \<not> flag then thenp (eputs ''usage: cp (-i) <source> <destination>'' []) (exitp 1)
      else (case (infile, outfile) of
        (Some src, Some dst) \<Rightarrow>
          bindp (sys_open_file src) (\<lambda>in_ok.
          if \<not> in_ok then err_quit_name ''cannot open %s'' src
          else bindp (sys_open_file dst) (\<lambda>exists.
               bindp (if exists
                      then thenp (put (''cp: overwrite '' @ quoted dst @ ''?: ''))
                             (bindp sys_getchar (\<lambda>c. retp (c = Some (CHR ''Y'') \<or> c = Some (CHR ''y''))))
                      else bindp (sys_creat dst) (\<lambda>ok.
                             if \<not> ok then err_quit_name ''cannot creat %s'' dst else retp True)) (\<lambda>do_write.
               bindp (if do_write then (\<lambda>w. case cp_loop src dst w of None \<Rightarrow> Undef | Some r \<Rightarrow> r) else retp False) (\<lambda>failed.
               thenp (if failed then eputs ''Read error from input file: %s'' [] else retp ())
               (bindp sys_close_file (\<lambda>c1.
                bindp (if c1 then sys_close_file else retp False) (\<lambda>c2.
                thenp (if \<not> c2 then eputs ''Cannot close file: %s'' [] else retp ()) (retp 0))))))))
      | _ \<Rightarrow> undefp))"

section \<open>The copy\<close>

text \<open>Both files have been gone through up to \<open>p\<close>; \<open>old\<close> is what the destination held before.\<close>

definition copied :: "string \<Rightarrow> string \<Rightarrow> string \<Rightarrow> string \<Rightarrow> nat \<Rightarrow> cp_state \<Rightarrow> bool" where
  "copied infile outfile src old p w \<longleftrightarrow> all_full w \<and> p \<le> length src \<and> cp_in_pos w = p \<and> cp_out_pos w = p
     \<and> io_files w infile = Some src \<and> io_files w outfile = Some (take p src @ drop p old)"

lemma cp_tick [simp]:
  "cp_in_pos (tick w) = cp_in_pos w" "cp_out_pos (tick w) = cp_out_pos w" "io_files (tick w) = io_files w"
  "io_out (tick w) = io_out w" "io_err (tick w) = io_err w" "io_stdin (tick w) = io_stdin w"
  by (cases w; simp add: tick_def)+

lemma overwrite_take:
  assumes "p \<le> length src"
  shows "overwrite p (take n (drop p src)) (take p src @ drop p old) =
     take (p + length (take n (drop p src))) src @ drop (p + length (take n (drop p src))) old"
proof -
  define s where "s = take n (drop p src)"
  have "take p src @ s = take (p + length s) src"
    using assms by (simp add: s_def take_add min_def)
  moreover have "drop (p + length s) (take p src @ drop p old) = drop (p + length s) old"
    using assms by (simp add: add.commute)
  moreover have "min (length src) p = p"
    using assms by simp
  ultimately show ?thesis
    unfolding s_def [symmetric] by (simp add: overwrite_def)
qed

lemma cp_loop_copies:
  "copied infile outfile src old p w \<Longrightarrow> infile \<noteq> outfile \<or> src = old \<Longrightarrow>
     \<exists>w'. cp_loop infile outfile w = Some (Ret False w') \<and> io_files w' = (io_files w)(outfile \<mapsto> src @ drop (length src) old)
       \<and> all_full w' \<and> io_out w' = io_out w \<and> io_err w' = io_err w"
proof (induction "length src - p" arbitrary: p w rule: less_induct)
  case less
  have c: "all_full w" "p \<le> length src" "cp_in_pos w = p" "cp_out_pos w = p" "io_files w infile = Some src"
      "io_files w outfile = Some (take p src @ drop p old)"
    using less.prems(1) by (simp_all add: copied_def)
  define s where "s = take BUFFSIZE (drop p src)"
  define w1 where "w1 = (tick w)\<lparr>cp_in_pos := p + length s\<rparr>"
  have rd: "sys_read_file infile BUFFSIZE w = Ret (Some s) w1"
    using c all_full_Full [OF c(1)] by (simp add: sys_read_file_def s_def w1_def Let_def)
  have f1: "all_full w1"
    using all_full_tick [OF c(1)] by (simp add: w1_def all_full_def)
  show ?case
  proof (cases "p = length src")
    case True
    then have "s = []" by (simp add: s_def)
    then show ?thesis
      using rd f1 True c(6) by (subst cp_loop.simps) (auto simp: w1_def fun_upd_idem)
  next
    case False
    then have ne: "s \<noteq> []" "length s \<le> length src - p" using c(2) by (simp_all add: s_def BUFFSIZE_def)
    define w2 where "w2 = put_file outfile s (tick w1)"
    have wr: "sys_write_file outfile s w1 = Ret (Some (length s)) w2"
      using all_full_Full [OF f1] by (simp add: sys_write_file_def w2_def)
    have new: "overwrite p s (take p src @ drop p old) = take (p + length s) src @ drop (p + length s) old"
      using overwrite_take [OF c(2), of BUFFSIZE old] by (simp add: s_def)
    have files: "io_files w2 = (io_files w)(outfile \<mapsto> take (p + length s) src @ drop (p + length s) old)"
      using c(4,6) new by (simp add: w2_def put_file_def w1_def)
    have "infile = outfile \<Longrightarrow> take (p + length s) src @ drop (p + length s) old = src"
      using less.prems(2) by auto
    then have "copied infile outfile src old (p + length s) w2"
      using files c ne all_full_tick [OF f1] by (auto simp: copied_def w2_def put_file_def w1_def all_full_def)
    moreover have "length src - (p + length s) < length src - p"
      using ne False c(2) by (cases s) auto
    ultimately obtain w' where "cp_loop infile outfile w2 = Some (Ret False w')"
        "io_files w' = (io_files w2)(outfile \<mapsto> src @ drop (length src) old)" "all_full w'" "io_out w' = io_out w2" "io_err w' = io_err w2"
      using less.hyps less.prems(2) by blast
    then show ?thesis
      using rd wr ne files by (subst cp_loop.simps) (simp add: w2_def put_file_def w1_def)
  qed
qed

section \<open>Properties\<close>

text \<open>
  What cp does when every call succeeds in full. A destination that does not exist becomes the
  source. One that exists is asked about; without a yes nothing changes, and with it the source is
  written over its beginning: what a longer destination held behind that stays. The
  status is 0, and no diagnostic is printed.
\<close>

theorem cp_copies:
  assumes "all_full w" "io_files w src = Some data" "src \<noteq> ''-i'' \<and> dst \<noteq> ''-i''"
  shows "\<exists>w'. cp_main [src, dst] (cp_start w) = Ret 0 w' \<and> cp_main [src, ''-i'', dst] (cp_start w) = Ret 0 w'
    \<and> io_err w' = io_err w
    \<and> io_files w' = (case io_files w dst of
        None \<Rightarrow> (io_files w)(dst \<mapsto> data)
      | Some old \<Rightarrow> (if \<exists>cs. io_stdin w = Some (CHR ''y'' # cs) \<or> io_stdin w = Some (CHR ''Y'' # cs)
                     then (io_files w)(dst \<mapsto> data @ drop (length data) old) else io_files w))"
proof -
  define w0 where "w0 = cp_start w"
  have w0: "all_full w0" "io_files w0 = io_files w" "io_err w0 = io_err w" "io_stdin w0 = io_stdin w" "cp_in_pos w0 = 0" "cp_out_pos w0 = 0"
    using assms(1) by (simp_all add: w0_def cp_start_def io.defs all_full_def)
  have same: "cp_main [src, ''-i'', dst] = cp_main [src, dst]"
    using assms(3) by (simp add: cp_main_def cp_args_def)
  have full: "outcome_of v = Full" if "all_full v" for v :: cp_state
    using all_full_Full [OF that] .
  define v where "v = tick (tick w0)"
  have v: "all_full v" "io_files v = io_files w" "io_err v = io_err w" "io_stdin v = io_stdin w" "cp_in_pos v = 0" "cp_out_pos v = 0"
    using w0 all_full_tick [OF all_full_tick [OF w0(1)]] by (simp_all add: v_def)
  have src: "sys_open_file src w0 = Ret True (tick w0)"
    using full [OF w0(1)] w0(2) assms(2) by (simp add: sys_open_file_def)
  have close: "sys_close_file x = Ret True (tick x)" if "all_full x" for x
    using full [OF that] by (simp add: sys_close_file_def)
  show ?thesis
  proof (cases "io_files w dst")
    case None
    have ne: "src \<noteq> dst" using None assms(2) by auto
    have dst: "sys_open_file dst (tick w0) = Ret False (set_errno ENOENT v)"
      using full [OF all_full_tick [OF w0(1)]] w0(2) None by (simp add: sys_open_file_def v_def)
    define x where "x = (tick (set_errno ENOENT v))\<lparr>io_files := (io_files w)(dst \<mapsto> [])\<rparr>"
    have enf: "all_full (set_errno ENOENT v)"
      using v(1) by (simp add: all_full_def set_errno_def)
    have creat: "sys_creat dst (set_errno ENOENT v) = Ret True x"
      using full [OF enf] v by (simp add: sys_creat_def x_def set_errno_def)
    have "copied src dst data [] 0 x"
      using v assms(2) ne all_full_tick [OF enf] by (simp add: copied_def x_def all_full_def set_errno_def)
    from cp_loop_copies [OF this] obtain y where y: "cp_loop src dst x = Some (Ret False y)"
        "io_files y = (io_files x)(dst \<mapsto> data)" "all_full y" "io_err y = io_err x"
      using ne by auto
    have "cp_main [src, dst] w0 = Ret 0 (tick (tick y))"
      using src dst creat y close [OF y(3)] close [OF all_full_tick [OF y(3)]]
      by (simp add: cp_main_def cp_args_def bindp_unfold thenp_unfold)
    then show ?thesis
      unfolding same w0_def [symmetric] using None y v by (simp add: x_def set_errno_def)
  next
    case (Some old)
    have dst: "sys_open_file dst (tick w0) = Ret True v"
      using full [OF all_full_tick [OF w0(1)]] w0(2) Some by (simp add: sys_open_file_def v_def)
    define yes where "yes \<longleftrightarrow> (\<exists>cs. io_stdin w = Some (CHR ''y'' # cs) \<or> io_stdin w = Some (CHR ''Y'' # cs))"
    define pv where "pv = v\<lparr>io_out := io_out v @ ''cp: overwrite '' @ quoted dst @ ''?: ''\<rparr>"
    obtain c x where x: "sys_getchar pv = Ret c x" "(c = Some (CHR ''Y'') \<or> c = Some (CHR ''y'')) = yes"
        "all_full x" "io_files x = io_files w" "io_err x = io_err w" "cp_in_pos x = 0" "cp_out_pos x = 0"
      using v by (cases "sys_getchar pv") (auto simp: sys_getchar_def pv_def yes_def all_full_def split: option.splits list.splits)
    show ?thesis
    proof (cases yes)
      case True
      have "copied src dst data old 0 x"
        using x assms(2) Some by (simp add: copied_def)
      moreover have "src \<noteq> dst \<or> data = old"
        using assms(2) Some by auto
      ultimately obtain y where y: "cp_loop src dst x = Some (Ret False y)"
          "io_files y = (io_files x)(dst \<mapsto> data @ drop (length data) old)" "all_full y" "io_err y = io_err x"
        using cp_loop_copies by blast
      have "cp_main [src, dst] w0 = Ret 0 (tick (tick y))"
        using src dst x True y close [OF y(3)] close [OF all_full_tick [OF y(3)]]
        by (auto simp: cp_main_def cp_args_def bindp_unfold thenp_unfold put_def pv_def)
      then show ?thesis
        unfolding same w0_def [symmetric] using Some y x True by (simp add: yes_def)
    next
      case False
      have "cp_main [src, dst] w0 = Ret 0 (tick (tick x))"
        using src dst x False close [OF x(3)] close [OF all_full_tick [OF x(3)]]
        by (auto simp: cp_main_def cp_args_def bindp_unfold thenp_unfold put_def pv_def)
      then show ?thesis
        unfolding same w0_def [symmetric] using Some x False by (auto simp: yes_def)
    qed
  qed
qed

definition cp_io :: io where
  "cp_io = \<lparr>io_files = [''a'' \<mapsto> ''new'', ''b'' \<mapsto> ''old text''], io_stdin = Some ''y'', io_stdin_pos = 0, io_stdin_seek = False,
     io_data = [], io_pos = 0, io_open = False, io_seek = False, io_tty = False, io_out = [], io_err = [], io_errno = 0, io_plan = []\<rparr>"

theorem cp_copies_witness:
  "\<exists>w'. cp_main [''a'', ''b''] (cp_start cp_io) = Ret 0 w' \<and> io_files w' ''b'' = Some ''new text''"
  using cp_copies [of cp_io "''a''" "''new''" "''b''"] by (auto simp: cp_io_def all_full_def)

end
